(* ===== verification/Prelude.thy ===== *)
theory Prelude
  imports Main "HOL-Library.Word"
begin

text \<open>
  Shared vocabulary of the ELKS development: the machine types of
  \<^verbatim>\<open>include/linuxmt/types.h\<close> (ELKS is compiled with 16-bit \<^verbatim>\<open>int\<close>), the
  error numbers of \<^verbatim>\<open>include/linuxmt/errno.h\<close>, the results of kernel code
  (a value, or the reason why control never comes back), and the theory of
  linked lists threaded through a statically allocated array, which the
  segment allocator, the timer list and the buffer cache all use.
\<close>

section \<open>Automation of the development\<close>

named_theorems kres_simps \<open>sequencing of kernel results\<close>
named_theorems chain_simps \<open>linked lists in an array\<close>

section \<open>Machine types and error numbers\<close>

unbundle bit_operations_syntax

type_synonym u8 = "8 word"
type_synonym u16 = "16 word"
type_synonym u32 = "32 word"

abbreviation EPERM :: int where "EPERM \<equiv> 1"
abbreviation ESRCH :: int where "ESRCH \<equiv> 3"
abbreviation EINTR :: int where "EINTR \<equiv> 4"
abbreviation EBADF :: int where "EBADF \<equiv> 9"
abbreviation EAGAIN :: int where "EAGAIN \<equiv> 11"
abbreviation ENOMEM :: int where "ENOMEM \<equiv> 12"
abbreviation EFAULT :: int where "EFAULT \<equiv> 14"
abbreviation EBUSY :: int where "EBUSY \<equiv> 16"
abbreviation EINVAL :: int where "EINVAL \<equiv> 22"
abbreviation ENFILE :: int where "ENFILE \<equiv> 23"
abbreviation EMFILE :: int where "EMFILE \<equiv> 24"
abbreviation ESPIPE :: int where "ESPIPE \<equiv> 29"
abbreviation EPIPE :: int where "EPIPE \<equiv> 32"
abbreviation ERESTARTSYS :: int where "ERESTARTSYS \<equiv> 512"

section \<open>Results of kernel code\<close>

text \<open>
  \<open>Panic\<close> is a call of \<^verbatim>\<open>panic()\<close>, which locks the machine up;
  \<open>NullDeref\<close> is an access through a null pointer, \<open>OutOfBounds\<close> one beyond the ends of
  an array; \<open>Stuck\<close> is a pointer chase that did not end within its bound, or a loop that
  comes back to the state it was in; \<open>Asleep\<close> is a process still on a wait queue
  when the rest of the system, given as the list of what it does during each
  sleep, has taken all its steps. A theorem that an operation returns
  \<open>Inr\<close> excludes all five.
\<close>

datatype kfault = Panic string | NullDeref | OutOfBounds | Stuck | Asleep

type_synonym 'a kres = "kfault + 'a"

definition bindr :: "'a kres \<Rightarrow> ('a \<Rightarrow> 'b kres) \<Rightarrow> 'b kres" where
  "bindr r f = (case r of Inl e \<Rightarrow> Inl e | Inr x \<Rightarrow> f x)"

definition deref :: "'a option \<Rightarrow> 'a kres" where
  "deref p = (case p of None \<Rightarrow> Inl NullDeref | Some x \<Rightarrow> Inr x)"

lemma bindr_simps [simp, kres_simps]:
  "bindr (Inl e) f = Inl e"
  "bindr (Inr x) f = f x"
  by (simp_all add: bindr_def)

lemma deref_simps [simp, kres_simps]:
  "deref None = Inl NullDeref"
  "deref (Some x) = Inr x"
  by (simp_all add: deref_def)

lemma bindr_Inr_iff [kres_simps]:
  "bindr r f = Inr y \<longleftrightarrow> (\<exists>x. r = Inr x \<and> f x = Inr y)"
  by (cases r) auto

section \<open>Linked lists in an array\<close>

text \<open>
  \<open>chain nxt p is\<close>: starting at the pointer \<open>p\<close> (\<open>None\<close> is NULL) and following
  \<open>nxt\<close>, the array slots visited are exactly \<open>is\<close>, in this order, and the last
  link is NULL.
\<close>

primrec chain :: "(nat \<Rightarrow> nat option) \<Rightarrow> nat option \<Rightarrow> nat list \<Rightarrow> bool" where
  "chain nxt p [] = (p = None)"
| "chain nxt p (i # is) = (p = Some i \<and> chain nxt (nxt i) is)"

text \<open>The slots visited, computed with a bound on their number.\<close>

fun chase :: "(nat \<Rightarrow> nat option) \<Rightarrow> nat \<Rightarrow> nat option \<Rightarrow> nat list" where
  "chase nxt 0 p = []"
| "chase nxt (Suc n) p = (case p of None \<Rightarrow> [] | Some i \<Rightarrow> i # chase nxt n (nxt i))"

lemma chain_None [simp, chain_simps]: "chain nxt None is \<longleftrightarrow> is = []"
  by (cases "is") auto

lemma chain_Some [chain_simps]:
  "chain nxt (Some i) is \<longleftrightarrow> (\<exists>js. is = i # js \<and> chain nxt (nxt i) js)"
  by (cases "is") auto

lemma chain_unique: "chain nxt p is \<Longrightarrow> chain nxt p js \<Longrightarrow> is = js"
  by (induction "is" arbitrary: p js) (auto simp: chain_simps)

lemma chain_append:
  "chain nxt p (is @ j # js) \<Longrightarrow> chain nxt (Some j) (j # js)"
  by (induction "is" arbitrary: p) auto

lemma chain_not_in_tail:
  assumes "chain nxt (nxt i) js"
  shows "i \<notin> set js"
proof
  assume "i \<in> set js"
  then obtain xs ys where js: "js = xs @ i # ys" by (auto simp: in_set_conv_decomp)
  with assms have "chain nxt (nxt i) ys" using chain_append by fastforce
  with assms have "js = ys" by (rule chain_unique)
  with js show False by simp
qed

lemma chain_distinct: "chain nxt p is \<Longrightarrow> distinct is"
  by (induction "is" arbitrary: p) (auto dest: chain_not_in_tail)

lemma chain_cong:
  "(\<And>i. i \<in> set is \<Longrightarrow> nxt' i = nxt i) \<Longrightarrow> chain nxt' p is = chain nxt p is"
  by (induction "is" arbitrary: p) auto

lemma chain_upd [simp, chain_simps]:
  "i \<notin> set is \<Longrightarrow> chain (nxt(i := v)) p is = chain nxt p is"
  by (induction "is" arbitrary: p) auto

lemma chase_chain: "chain nxt p is \<Longrightarrow> length is \<le> n \<Longrightarrow> chase nxt n p = is"
proof (induction "is" arbitrary: p n)
  case Nil
  then show ?case by (cases n) auto
next
  case (Cons i "is")
  then show ?case by (cases n) auto
qed

lemma distinct_bounded_length:
  assumes "distinct is" and "\<And>i. i \<in> set is \<Longrightarrow> i < n"
  shows "length is \<le> n"
proof -
  have "set is \<subseteq> {..<n}" using assms(2) by auto
  then have "card (set is) \<le> card {..<n}" by (rule card_mono[rotated]) simp
  with assms(1) show ?thesis by (simp add: distinct_card)
qed

text \<open>Splicing a fresh slot into, and dropping a slot from, the middle of a chain.\<close>

lemma chain_insert_after:
  assumes "chain nxt p (xs @ i # ys)" and "j \<notin> set (xs @ i # ys)"
  shows "chain (nxt(j := nxt i, i := Some j)) p (xs @ i # j # ys)"
  using assms
proof (induction xs arbitrary: p)
  case Nil
  then have "chain nxt (nxt i) ys" and "i \<notin> set ys"
    by (auto dest: chain_not_in_tail)
  with Nil.prems have "chain (nxt(j := nxt i, i := Some j)) (nxt i) ys"
    by (subst chain_upd; simp)
  with Nil.prems show ?case by (simp del: fun_upd_apply add: fun_upd_same fun_upd_other)
next
  case (Cons x xs)
  then have "x \<noteq> i" using chain_distinct[OF Cons.prems(1)] by auto
  with Cons show ?case by auto
qed

lemma chain_drop_after:
  assumes "chain nxt p (xs @ i # j # ys)"
  shows "chain (nxt(i := nxt j)) p (xs @ i # ys)"
  using assms
proof (induction xs arbitrary: p)
  case Nil
  then have "chain nxt (nxt j) ys" and "i \<notin> set ys"
    using chain_distinct[OF Nil] by auto
  then have "chain (nxt(i := nxt j)) (nxt j) ys" by simp
  with Nil show ?case by (simp del: fun_upd_apply add: fun_upd_same fun_upd_other)
next
  case (Cons x xs)
  then have "x \<noteq> i" using chain_distinct[OF Cons.prems] by auto
  with Cons show ?case by auto
qed

section \<open>Words\<close>

lemma unat_pow2: "k < 16 \<Longrightarrow> unat (2 ^ k :: u16) = 2 ^ k"
proof -
  assume k: "k < 16"
  have "unat (2 ^ k :: u16) = unat (of_nat (2 ^ k) :: u16)" by simp
  also have "\<dots> = 2 ^ k mod 2 ^ 16" by (simp only: unat_of_nat take_bit_eq_mod) simp
  also have "\<dots> = (2::nat) ^ k" using k by (intro mod_less power_strict_increasing) auto
  finally show ?thesis .
qed

lemma and_pow2_minus1:
  "k < 16 \<Longrightarrow> unat (x AND (2 ^ k - 1) :: u16) = unat x mod 2 ^ k"
  by (simp add: mask_eq_exp_minus_1[symmetric] take_bit_eq_mask[symmetric]
      unsigned_take_bit_eq take_bit_eq_mod unat_mod unat_pow2)

lemma of_nat_unat_u16: "unat (x :: u16) = n \<Longrightarrow> x = of_nat n"
  by auto

lemma u16_less: "unat (x :: u16) < 65536"
  using unsigned_less[of x, where ?'a = nat] by simp

lemma unat_u16_plus: "unat a + unat b < 65536 \<Longrightarrow> unat (a + b :: u16) = unat a + unat b"
  by (simp add: unat_word_ariths)

lemma unat_u16_minus: "unat b \<le> unat a \<Longrightarrow> unat (a - b :: u16) = unat a - unat b"
  by (simp add: unat_sub word_le_nat_alt)

lemma unat_of_nat_u16 [simp]: "k < 65536 \<Longrightarrow> unat (of_nat k :: u16) = k"
  by (simp add: unat_of_nat take_bit_nat_eq_self)

lemma of_nat_u16_eq_0: "k < 65536 \<Longrightarrow> (of_nat k :: u16) = 0 \<longleftrightarrow> k = 0"
  using unat_of_nat_u16[of k] by (auto simp del: unat_of_nat_u16)

lemma sint_small: "k < 32768 \<Longrightarrow> sint (of_nat k :: u16) = int k"
  by (simp add: signed_of_nat signed_take_bit_int_eq_self)

end
