(* ===== verification/Ring.thy ===== *)
theory Ring
  imports Prelude
begin

text \<open>
  Ring buffers, as the character queues of the terminal drivers
  (\<^verbatim>\<open>lib/chqueue.c\<close>) and the pipes (\<^verbatim>\<open>fs/pipe.c\<close>) keep them: \<open>len\<close> bytes of an
  array of \<open>n\<close>, from index \<open>start\<close> on, wrapping at \<open>n\<close>; and the interface of a
  bounded first-in first-out queue they give their clients.
\<close>

definition ring :: "(nat \<Rightarrow> 'a) \<Rightarrow> nat \<Rightarrow> nat \<Rightarrow> nat \<Rightarrow> 'a list" where
  "ring buf n start len = map (\<lambda>i. buf ((start + i) mod n)) [0..<len]"

text \<open>A block copy into the array.\<close>

definition blit :: "(nat \<Rightarrow> 'a) \<Rightarrow> nat \<Rightarrow> 'a list \<Rightarrow> (nat \<Rightarrow> 'a)" where
  "blit buf pos xs = (\<lambda>a. if pos \<le> a \<and> a < pos + length xs then xs ! (a - pos) else buf a)"

lemma length_ring [simp]: "length (ring buf n start len) = len"
  by (simp add: ring_def)

lemma ring_0 [simp]: "ring buf n start 0 = []"
  by (simp add: ring_def)

lemma ring_nth: "i < len \<Longrightarrow> ring buf n start len ! i = buf ((start + i) mod n)"
  by (simp add: ring_def)

lemma mod_inj_window:
  assumes "(start + i) mod n = (start + j) mod n" and "i < n" and "j < n"
  shows "i = (j::nat)"
proof -
  have *: "j - i = 0" if "(start + i) mod n = (start + j) mod n" and "i \<le> j" and "j < n" for i j
  proof -
    have "n dvd (start + j) - (start + i)"
      using that mod_eq_dvd_iff_nat[of "start + i" "start + j" n] by simp
    then have "n dvd j - i" by simp
    with \<open>j < n\<close> show ?thesis by (metis dvd_imp_le less_imp_diff_less linorder_not_le not_gr_zero)
  qed
  show ?thesis
  proof (cases "i \<le> j")
    case True
    with *[OF assms(1) True assms(3)] show ?thesis by simp
  next
    case False
    with *[OF assms(1)[symmetric] _ assms(2)] show ?thesis by simp
  qed
qed

lemma ring_snoc:
  assumes "len < n"
  shows "ring (buf((start + len) mod n := c)) n start (Suc len) = ring buf n start len @ [c]"
proof (rule nth_equalityI)
  fix i
  assume "i < length (ring (buf((start + len) mod n := c)) n start (Suc len))"
  then have i: "i < Suc len" by simp
  show "ring (buf((start + len) mod n := c)) n start (Suc len) ! i = (ring buf n start len @ [c]) ! i"
  proof (cases "i = len")
    case True
    then show ?thesis by (simp add: ring_nth nth_append)
  next
    case False
    with i assms have "(start + i) mod n \<noteq> (start + len) mod n"
      using mod_inj_window[of start i n len] by auto
    with False i show ?thesis by (simp add: ring_nth nth_append)
  qed
qed simp

lemma ring_drop:
  "k \<le> len \<Longrightarrow> ring buf n ((start + k) mod n) (len - k) = drop k (ring buf n start len)"
  by (rule nth_equalityI) (auto simp: ring_nth mod_add_left_eq add.assoc)

lemma ring_uncons:
  "start < n \<Longrightarrow> ring buf n start (Suc len) = buf start # ring buf n (Suc start mod n) len"
  using ring_drop[of 1 "Suc len" buf n start] by (simp add: ring_def upt_conv_Cons del: upt_Suc)

lemma ring_butlast: "butlast (ring buf n start len) = ring buf n start (len - 1)"
  by (rule nth_equalityI) (auto simp: nth_butlast ring_nth)

lemma ring_take_chunk:
  assumes "start + k \<le> n" and "k \<le> len"
  shows "take k (ring buf n start len) = map buf [start..<start + k]"
  by (rule nth_equalityI) (use assms in \<open>auto simp: ring_nth\<close>)

lemma ring_blit:
  assumes "len + length xs \<le> n" and "(start + len) mod n + length xs \<le> n"
  shows "ring (blit buf ((start + len) mod n) xs) n start (len + length xs) = ring buf n start len @ xs"
proof (rule nth_equalityI)
  let ?p = "(start + len) mod n"
  fix i
  assume "i < length (ring (blit buf ?p xs) n start (len + length xs))"
  then have i: "i < len + length xs" by simp
  have ix: "(start + len + j) mod n = ?p + j" if "j < length xs" for j
    using that assms(2) by (metis add_less_cancel_left less_le_trans mod_add_left_eq mod_less)
  show "ring (blit buf ?p xs) n start (len + length xs) ! i = (ring buf n start len @ xs) ! i"
  proof (cases "i < len")
    case True
    have "(start + i) mod n \<noteq> ?p + j" if "j < length xs" for j
    proof
      assume "(start + i) mod n = ?p + j"
      then have "(start + i) mod n = (start + (len + j)) mod n" using ix[OF that] by (simp add: add.assoc)
      then have "i = len + j" using mod_inj_window[of start i n "len + j"] True that assms(1) by linarith
      with True show False by simp
    qed
    then have "\<not> (?p \<le> (start + i) mod n \<and> (start + i) mod n < ?p + length xs)"
      by (metis le_add_diff_inverse nat_add_left_cancel_less)
    then have "blit buf ?p xs ((start + i) mod n) = buf ((start + i) mod n)"
      unfolding blit_def by (rule if_not_P)
    with True i show ?thesis by (simp add: ring_nth nth_append)
  next
    case False
    then obtain j where j: "i = len + j" "j < length xs" using i by (metis add_less_cancel_left le_iff_add not_less)
    then show ?thesis using ix[OF j(2)] by (simp add: ring_nth nth_append blit_def add.assoc)
  qed
qed simp

section \<open>The interface\<close>

text \<open>
  A bounded byte queue: \<open>put\<close> and \<open>get\<close> are the operations that do not wait;
  \<open>put\<close> answers 0 or \<open>- 1\<close>, and the byte is lost in the second case.
\<close>

locale bounded_fifo =
  fixes inv :: "'q \<Rightarrow> bool" and contents :: "'q \<Rightarrow> u8 list" and capacity :: "'q \<Rightarrow> nat"
    and put :: "'q \<Rightarrow> u8 \<Rightarrow> int \<times> 'q" and get :: "'q \<Rightarrow> u8 option \<times> 'q"
  assumes put_room: "inv q \<Longrightarrow> length (contents q) < capacity q \<Longrightarrow>
      \<exists>q'. put q c = (0, q') \<and> inv q' \<and> contents q' = contents q @ [c] \<and> capacity q' = capacity q"
    and put_full: "inv q \<Longrightarrow> length (contents q) = capacity q \<Longrightarrow> put q c = (- 1, q)"
    and get_some: "inv q \<Longrightarrow> contents q = c # cs \<Longrightarrow>
      \<exists>q'. get q = (Some c, q') \<and> inv q' \<and> contents q' = cs \<and> capacity q' = capacity q"
    and get_none: "inv q \<Longrightarrow> contents q = [] \<Longrightarrow> get q = (None, q)"
    and bounded: "inv q \<Longrightarrow> length (contents q) \<le> capacity q"
begin

primrec put_all :: "u8 list \<Rightarrow> 'q \<Rightarrow> 'q" where
  "put_all [] q = q"
| "put_all (c # cs) q = put_all cs (snd (put q c))"

primrec get_n :: "nat \<Rightarrow> 'q \<Rightarrow> u8 option list" where
  "get_n 0 q = []"
| "get_n (Suc k) q = fst (get q) # get_n k (snd (get q))"

text \<open>Bytes beyond the capacity are dropped, the rest arrive in order.\<close>

lemma put_all_contents:
  "inv q \<Longrightarrow> inv (put_all cs q) \<and> capacity (put_all cs q) = capacity q \<and>
     contents (put_all cs q) = contents q @ take (capacity q - length (contents q)) cs"
proof (induction cs arbitrary: q)
  case Nil
  then show ?case by simp
next
  case (Cons c cs)
  show ?case
  proof (cases "length (contents q) < capacity q")
    case True
    then obtain q' where q': "put q c = (0, q')" "inv q'" "contents q' = contents q @ [c]"
      "capacity q' = capacity q"
      using put_room[OF Cons.prems] by blast
    from True obtain d where d: "capacity q - length (contents q) = Suc d"
      by (metis Suc_diff_Suc)
    then have "capacity q - Suc (length (contents q)) = d" by simp
    with d q' Cons.IH[OF q'(2)] show ?thesis by simp
  next
    case False
    then have "length (contents q) = capacity q" using bounded[OF Cons.prems] by simp
    with put_full[OF Cons.prems] Cons show ?thesis by simp
  qed
qed

lemma get_n_contents:
  "inv q \<Longrightarrow> k \<le> length (contents q) \<Longrightarrow> get_n k q = map Some (take k (contents q))"
proof (induction k arbitrary: q)
  case (Suc k)
  then obtain c cs where c: "contents q = c # cs" by (cases "contents q") auto
  then obtain q' where "get q = (Some c, q')" "inv q'" "contents q' = cs"
    using get_some[OF Suc.prems(1)] by blast
  with Suc.IH[of q'] Suc.prems c show ?case by simp
qed simp

lemma fifo_order:
  assumes "inv q" and "length (contents q) + length cs \<le> capacity q"
  shows "get_n (length (contents q) + length cs) (put_all cs q) = map Some (contents q @ cs)"
  using put_all_contents[OF assms(1), of cs] assms(2) get_n_contents[of "put_all cs q"]
  by (simp add: get_n_contents)

end

section \<open>Runs of a machine and of its specification\<close>

text \<open>Any sequence of operations, with the answers they give.\<close>

primrec run_ops :: "('x \<Rightarrow> 'q \<Rightarrow> 'a \<times> 'q) \<Rightarrow> 'x list \<Rightarrow> 'q \<Rightarrow> 'a list \<times> 'q" where
  "run_ops step [] q = ([], q)"
| "run_ops step (x # xs) q =
    (case step x q of (a, q') \<Rightarrow> case run_ops step xs q' of (as, q'') \<Rightarrow> (a # as, q''))"

text \<open>A machine whose operations answer as those of a specification do, and keep the
  abstraction, does so on every run.\<close>

locale machine_refines =
  fixes inv :: "'q \<Rightarrow> bool" and abs :: "'q \<Rightarrow> 's"
    and step :: "'x \<Rightarrow> 'q \<Rightarrow> 'a \<times> 'q" and spec :: "'x \<Rightarrow> 's \<Rightarrow> 'a \<times> 's"
  assumes step_refines: "inv q \<Longrightarrow> \<exists>q'. step x q = (fst (spec x (abs q)), q') \<and> inv q' \<and>
      abs q' = snd (spec x (abs q))"
begin

lemma run_refines:
  "inv q \<Longrightarrow> \<exists>q'. run_ops step xs q = (fst (run_ops spec xs (abs q)), q') \<and> inv q' \<and>
      abs q' = snd (run_ops spec xs (abs q))"
proof (induction xs arbitrary: q)
  case (Cons x xs)
  from step_refines[OF Cons.prems, of x] obtain q' where
    q': "step x q = (fst (spec x (abs q)), q')" "inv q'" "abs q' = snd (spec x (abs q))" by blast
  from Cons.IH[OF q'(2)] q' show ?case by (auto split: prod.splits)
qed simp

end

end
