(* ===== verification/Chqueue.thy ===== *)
theory Chqueue
  imports Ring
begin

text \<open>
  The character queues of the terminal drivers, \<^verbatim>\<open>lib/chqueue.c\<close>. A queue is a ring
  in an array of \<open>size\<close> characters whose indices are masked with \<open>size - 1\<close>, so
  that \<open>size\<close> has to be a power of two. The fields \<open>size\<close>, \<open>tail\<close> and \<open>len\<close> are
  16-bit \<^verbatim>\<open>int\<close>s, kept here as words; the characters are bytes and
  \<^verbatim>\<open>chq_getch\<close> returns them as the sign-extended \<^verbatim>\<open>char\<close> of the source. The
  argument \<open>slp\<close> of the two operations that may sleep is what the rest of the
  system does to the queue while the caller is on its wait queue; the boolean in
  their results says whether \<^verbatim>\<open>wake_up\<close> was called.
\<close>

section \<open>Model\<close>

record ch_queue =
  q_buf :: "nat \<Rightarrow> u8"
  q_size :: u16
  q_tail :: u16
  q_len :: u16



definition chq_addch :: "(ch_queue \<Rightarrow> ch_queue) \<Rightarrow> ch_queue \<Rightarrow> u8 \<Rightarrow> bool \<Rightarrow> int \<times> bool \<times> ch_queue" where
  "chq_addch slp q0 c wait =
    (let q = (if q_len q0 = q_size q0 then (if wait then slp q0 else q0) else q0)
     in if q_len q = q_size q then (- 1, False, q)
        else let nhead = (q_tail q + q_len q) AND (q_size q - 1)
             in (0, True, q\<lparr>q_buf := (q_buf q)(unat nhead := c), q_len := q_len q + 1\<rparr>))"


text \<open>The result of \<open>chq_getch\<close>: the return value, the character stored through \<open>c\<close>
  (when the caller passes a pointer), whether sleepers are woken, the queue.\<close>

definition chq_getch :: "(ch_queue \<Rightarrow> ch_queue) \<Rightarrow> ch_queue \<Rightarrow> bool \<Rightarrow> int \<times> u8 option \<times> bool \<times> ch_queue" where
  "chq_getch slp q0 wait =
    (let q = (if q_len q0 = 0 then (if wait then slp q0 else q0) else q0)
     in if q_len q = 0 then (- 1, None, False, q)
        else let retval = q_buf q (unat (q_tail q));
                 tail = q_tail q + 1;
                 tail = tail AND (q_size q - 1)
             in (sint retval, Some retval, True, q\<lparr>q_tail := tail, q_len := q_len q - 1\<rparr>))"


definition chq_full :: "ch_queue \<Rightarrow> bool" where
  "chq_full q \<longleftrightarrow> q_len q = q_size q"

section \<open>Invariant and abstraction\<close>

text \<open>The sizes the drivers use are 512 and 64; every power of two below 32768 works.\<close>

definition chq_ok :: "ch_queue \<Rightarrow> bool" where
  "chq_ok q \<longleftrightarrow> list_ex (\<lambda>k. unat (q_size q) = 2 ^ k) [0..<15] \<and>
     unat (q_tail q) < unat (q_size q) \<and> unat (q_len q) \<le> unat (q_size q)"

definition chq_contents :: "ch_queue \<Rightarrow> u8 list" where
  "chq_contents q = ring (q_buf q) (unat (q_size q)) (unat (q_tail q)) (unat (q_len q))"

definition chq_capacity :: "ch_queue \<Rightarrow> nat" where
  "chq_capacity q = unat (q_size q)"

lemma chq_okE:
  assumes "chq_ok q"
  obtains k where "k < 15" "unat (q_size q) = 2 ^ k" "unat (q_size q) \<le> 16384"
    "unat (q_tail q) < unat (q_size q)" "unat (q_len q) \<le> unat (q_size q)"
proof -
  from assms obtain k where k: "k < 15" "unat (q_size q) = 2 ^ k"
    by (auto simp: chq_ok_def list_ex_iff simp del: upt.simps)
  then have "(2::nat) ^ k \<le> 2 ^ 14" by (intro power_increasing) auto
  with that[OF k] k assms show ?thesis by (simp add: chq_ok_def)
qed

lemma length_chq_contents [simp]: "length (chq_contents q) = unat (q_len q)"
  by (simp add: chq_contents_def)

lemma chq_full_iff: "chq_full q \<longleftrightarrow> length (chq_contents q) = chq_capacity q"
  by (simp add: chq_full_def chq_capacity_def word_unat_eq_iff)


text \<open>Masking with \<open>size - 1\<close> is the remainder, and the sum before it does not wrap.\<close>

lemma chq_mask:
  assumes "chq_ok q"
  shows "unat (x AND (q_size q - 1)) = unat x mod unat (q_size q)"
proof -
  from assms obtain k where k: "k < 15" "unat (q_size q) = 2 ^ k" by (rule chq_okE)
  then have "q_size q = 2 ^ k" by (simp add: word_unat_eq_iff unat_pow2)
  with k and_pow2_minus1[of k x] show ?thesis by simp
qed

lemma chq_addch_room:
  assumes "chq_ok q" and "\<not> chq_full q"
  shows "\<exists>q'. chq_addch slp q c w = (0, True, q') \<and> chq_ok q' \<and>
      chq_contents q' = chq_contents q @ [c] \<and> chq_capacity q' = chq_capacity q"
proof -
  from assms(1) obtain k where k: "k < 15" "unat (q_size q) = 2 ^ k" "unat (q_size q) \<le> 16384"
    "unat (q_tail q) < unat (q_size q)" "unat (q_len q) \<le> unat (q_size q)" by (rule chq_okE)
  from assms(2) k(5) have lt: "unat (q_len q) < unat (q_size q)"
    by (metis chq_full_def nat_less_le word_unat_eq_iff)
  with k(3) have len: "unat (q_len q + 1) = Suc (unat (q_len q))" by (simp add: unat_u16_plus)
  have "unat (q_tail q + q_len q) = unat (q_tail q) + unat (q_len q)"
    using k lt by (simp add: unat_u16_plus)
  then have "unat ((q_tail q + q_len q) AND (q_size q - 1)) = (unat (q_tail q) + unat (q_len q)) mod unat (q_size q)"
    by (simp add: chq_mask[OF assms(1)])
  then show ?thesis using assms k lt len
    by (simp add: chq_addch_def Let_def chq_full_def chq_ok_def chq_contents_def chq_capacity_def ring_snoc)
qed

lemma chq_getch_some:
  assumes "chq_ok q" and "chq_contents q = c # cs"
  shows "\<exists>q'. chq_getch slp q w = (sint c, Some c, True, q') \<and> chq_ok q' \<and>
      chq_contents q' = cs \<and> chq_capacity q' = chq_capacity q"
proof -
  from assms(1) obtain k where k: "k < 15" "unat (q_size q) = 2 ^ k" "unat (q_size q) \<le> 16384"
    "unat (q_tail q) < unat (q_size q)" "unat (q_len q) \<le> unat (q_size q)" by (rule chq_okE)
  from assms(2) have l: "unat (q_len q) = Suc (length cs)" by (metis length_Cons length_chq_contents)
  then have ne: "q_len q \<noteq> 0" and dec: "unat (q_len q - 1) = length cs" by (auto simp: unat_u16_minus)
  have "unat (q_tail q + 1) = Suc (unat (q_tail q))" using k by (simp add: unat_u16_plus)
  then have t: "unat ((q_tail q + 1) AND (q_size q - 1)) = Suc (unat (q_tail q)) mod unat (q_size q)"
    by (simp add: chq_mask[OF assms(1)])
  have "c = q_buf q (unat (q_tail q))"
    and "cs = ring (q_buf q) (unat (q_size q)) (Suc (unat (q_tail q)) mod unat (q_size q)) (length cs)"
    using assms(2) k(4) l by (simp_all add: chq_contents_def ring_uncons)
  with assms k l ne dec t show ?thesis
    by (simp add: chq_getch_def Let_def chq_ok_def chq_contents_def chq_capacity_def)
qed

lemma chq_getch_none: "chq_contents q = [] \<Longrightarrow> chq_getch slp q False = (- 1, None, False, q)"
  using length_chq_contents[of q] by (simp add: chq_getch_def unat_eq_zero)

lemma chq_addch_full: "chq_full q \<Longrightarrow> chq_addch slp q c False = (- 1, False, q)"
  by (simp add: chq_addch_def chq_full_def)

section \<open>The queue as a bounded FIFO\<close>

definition chq_put :: "ch_queue \<Rightarrow> u8 \<Rightarrow> int \<times> ch_queue" where
  "chq_put q c = (case chq_addch id q c False of (r, _, q') \<Rightarrow> (r, q'))"

definition chq_get :: "ch_queue \<Rightarrow> u8 option \<times> ch_queue" where
  "chq_get q = (case chq_getch id q False of (_, c, _, q') \<Rightarrow> (c, q'))"

interpretation chq: bounded_fifo chq_ok chq_contents chq_capacity chq_put chq_get
proof
  fix q c cs
  show "chq_ok q \<Longrightarrow> length (chq_contents q) < chq_capacity q \<Longrightarrow>
      \<exists>q'. chq_put q c = (0, q') \<and> chq_ok q' \<and> chq_contents q' = chq_contents q @ [c] \<and>
        chq_capacity q' = chq_capacity q"
    using chq_addch_room[of q id c False] by (auto simp: chq_put_def chq_full_iff)
  show "length (chq_contents q) = chq_capacity q \<Longrightarrow> chq_put q c = (- 1, q)"
    using chq_addch_full[of q id c] by (simp add: chq_put_def chq_full_iff)
  show "chq_ok q \<Longrightarrow> chq_contents q = c # cs \<Longrightarrow>
      \<exists>q'. chq_get q = (Some c, q') \<and> chq_ok q' \<and> chq_contents q' = cs \<and> chq_capacity q' = chq_capacity q"
    using chq_getch_some[of q c cs id False] by (auto simp: chq_get_def)
  show "chq_contents q = [] \<Longrightarrow> chq_get q = (None, q)"
    using chq_getch_none[of q id] by (simp add: chq_get_def)
  show "chq_ok q \<Longrightarrow> length (chq_contents q) \<le> chq_capacity q"
    by (simp add: chq_ok_def chq_capacity_def)
qed






text \<open>A queue in \<open>n\<close> characters of an array that otherwise holds what \<open>buf\<close> does.\<close>

definition chq_in :: "nat \<Rightarrow> (nat \<Rightarrow> u8) \<Rightarrow> ch_queue \<Rightarrow> bool" where
  "chq_in n buf q \<longleftrightarrow> chq_ok q \<and> chq_capacity q = n \<and> (\<forall>i\<ge>n. q_buf q i = buf i)"

lemma chq_inI: "chq_ok q \<Longrightarrow> chq_capacity q = n \<Longrightarrow> (\<And>i. n \<le> i \<Longrightarrow> q_buf q i = buf i) \<Longrightarrow> chq_in n buf q"
  by (simp add: chq_in_def)






section \<open>Properties\<close>



text \<open>A queue holding the character 255: \<open>chq_getch\<close> takes it out and returns \<open>- 1\<close>, the
  value that stands for an empty queue, so a caller that looks at the result only loses it.\<close>

lemma chq_getch_255:
  assumes "chq_ok q" and "chq_contents q = 255 # cs"
  shows "\<exists>q'. chq_getch slp q w = (- 1, Some 255, True, q') \<and> chq_contents q' = cs"
  using chq_getch_some[OF assms, of slp w] by auto

text \<open>A writer that waits on a full queue stores its character if a reader made room
  during the sleep, and is refused otherwise.\<close>

lemma chq_addch_wait:
  assumes "chq_full q" and "chq_ok (slp q)"
  shows "if chq_full (slp q) then chq_addch slp q c True = (- 1, False, slp q)
    else \<exists>q'. chq_addch slp q c True = (0, True, q') \<and> chq_ok q' \<and> chq_contents q' = chq_contents (slp q) @ [c]"
proof -
  have "chq_addch slp q c True = chq_addch id (slp q) c False"
    using assms(1) by (simp add: chq_addch_def chq_full_def Let_def)
  then show ?thesis
    using chq_addch_room[OF assms(2), of id c False] chq_addch_full[of "slp q" id c] by auto
qed

end
