(* ===== verification/Pipe.thy ===== *)
theory Pipe
  imports Ring
begin

text \<open>
  Pipes, \<^verbatim>\<open>fs/pipe.c\<close>: the ring buffer of \<^verbatim>\<open>struct pipe_inode_info\<close>, its readers and
  writers. \<open>pipe_st\<close> is the part of the system a pipe operation sees: the pipe, the times
  of its inode, the pending signals of the calling process and the clock. The argument
  \<open>env\<close> is what the other processes do during each sleep of the caller on the wait
  queue of the pipe, one function per sleep; when the list is exhausted the caller is
  left \<open>Asleep\<close>. Two fields are a history that the code does not have: the bytes put
  into the pipe and the bytes taken out of it since its creation.
\<close>

section \<open>Model\<close>

abbreviation PIPE_BUF :: u16 where "PIPE_BUF \<equiv> 512"
abbreviation SIGPIPE :: nat where "SIGPIPE \<equiv> 13"

record pipe_inode_info =
  p_base :: "nat \<Rightarrow> u8"
  p_start :: u16
  p_len :: u16
  p_lock :: u16
  p_readers :: u16
  p_writers :: u16

record pipe_st =
  pip :: pipe_inode_info
  i_atime :: u32
  i_ctime :: u32
  i_mtime :: u32
  cur_signal :: u16
  cur_sent :: "nat list"
  wakes :: nat
  now :: u32
  h_in :: "u8 list"
  h_out :: "u8 list"

text \<open>\<open>cur_sent\<close> lists the signals sent to the caller, \<open>wakes\<close> counts the calls of
  \<^verbatim>\<open>wake_up_interruptible\<close> on the wait queue.\<close>

type_synonym penv = "(pipe_st \<Rightarrow> pipe_st) list"

definition wake_up_interruptible :: "pipe_st \<Rightarrow> pipe_st" where
  "wake_up_interruptible s = s\<lparr>wakes := wakes s + 1\<rparr>"

definition send_sigpipe :: "pipe_st \<Rightarrow> pipe_st" where
  "send_sigpipe s = s\<lparr>cur_sent := cur_sent s @ [SIGPIPE]\<rparr>"

text \<open>\<open>memcpy_tofs\<close> out of the ring: the bytes that go to the user's buffer.\<close>

definition pipe_bytes :: "pipe_inode_info \<Rightarrow> u16 \<Rightarrow> u16 \<Rightarrow> u8 list" where
  "pipe_bytes p from chars = map (p_base p) [unat from..<unat from + unat chars]"

text \<open>The copying loop of \<open>pipe_read\<close>. \<open>count\<close> is a 16-bit \<^verbatim>\<open>int\<close>; the list is what was
  stored in the user's buffer so far. The first argument bounds the iterations.\<close>

primrec read_loop :: "nat \<Rightarrow> pipe_inode_info \<Rightarrow> int \<Rightarrow> u16 \<Rightarrow> u8 list \<Rightarrow> (pipe_inode_info \<times> u16 \<times> u8 list) kres" where
  "read_loop 0 p count read out = Inl Stuck"
| "read_loop (Suc n) p count read out =
    (let sz = p_len p in
     if count > 0 \<and> sz \<noteq> 0 then
       let chars = PIPE_BUF - p_start p;
           chars = (if chars > word_of_int count then word_of_int count else chars);
           chars = (if chars > sz then sz else chars);
           bytes = pipe_bytes p (p_start p) chars
       in read_loop n
            (p\<lparr>p_start := (p_start p + chars) AND (PIPE_BUF - 1), p_len := p_len p - chars\<rparr>)
            (count - uint chars) (read + chars) (out @ bytes)
     else Inr (p, read, out))"

text \<open>Waiting for data. \<open>Some r\<close>: the operation returns \<open>r\<close>; \<open>None\<close>: go on.\<close>

fun read_wait :: "bool \<Rightarrow> penv \<Rightarrow> pipe_st \<Rightarrow> (int option \<times> pipe_st) kres" where
  "read_wait nonblock env s =
    (let p = pip s in
     if nonblock then
       if p_lock p \<noteq> 0 then Inr (Some (- EAGAIN), s)
       else if p_len p = 0 then Inr (Some (if p_writers p \<noteq> 0 then - EAGAIN else 0), s)
       else Inr (None, s)
     else if p_len p = 0 \<or> p_lock p \<noteq> 0 then
       if p_len p = 0 \<and> p_writers p = 0 then Inr (Some 0, s)
       else if cur_signal s \<noteq> 0 then Inr (Some (- ERESTARTSYS), s)
       else (case env of [] \<Rightarrow> Inl Asleep | e # es \<Rightarrow> read_wait nonblock es (e s))
     else Inr (None, s))"

definition read_copy :: "int \<Rightarrow> pipe_st \<Rightarrow> (int \<times> u8 list \<times> pipe_st) kres" where
  "read_copy count s =
    bindr (read_loop 3 ((pip s)\<lparr>p_lock := p_lock (pip s) + 1\<rparr>) count 0 []) (\<lambda>(p, read, out).
      let s = wake_up_interruptible (s\<lparr>pip := p\<lparr>p_lock := p_lock p - 1\<rparr>, h_out := h_out s @ out\<rparr>)
      in if read \<noteq> 0 then Inr (sint read, out, s\<lparr>i_atime := now s\<rparr>)
         else if p_writers (pip s) \<noteq> 0 then Inr (- EAGAIN, out, s)
         else Inr (0, out, s))"

definition pipe_read :: "bool \<Rightarrow> penv \<Rightarrow> int \<Rightarrow> pipe_st \<Rightarrow> (int \<times> u8 list \<times> pipe_st) kres" where
  "pipe_read nonblock env count s =
    bindr (read_wait nonblock env s) (\<lambda>(r, s).
      case r of Some v \<Rightarrow> Inr (v, [], s) | None \<Rightarrow> read_copy count s)"

text \<open>The copying loop of \<open>pipe_write\<close>; \<open>buf\<close> is the rest of the user's buffer.\<close>

primrec write_loop :: "nat \<Rightarrow> pipe_inode_info \<Rightarrow> int \<Rightarrow> u16 \<Rightarrow> u8 list \<Rightarrow> (pipe_inode_info \<times> int \<times> u16 \<times> u8 list) kres" where
  "write_loop 0 p count written buf = Inl Stuck"
| "write_loop (Suc n) p count written buf =
    (let free = PIPE_BUF - p_len p in
     if count > 0 \<and> free \<noteq> 0 then
       let chars = - ((p_start p + p_len p) AND (PIPE_BUF - 1)) + PIPE_BUF;
           chars = (if chars > word_of_int count then word_of_int count else chars);
           chars = (if chars > free then free else chars);
           pos = (p_start p + p_len p) AND (PIPE_BUF - 1)
       in write_loop n
            (p\<lparr>p_len := p_len p + chars,
               p_base := blit (p_base p) (unat pos) (take (unat chars) buf)\<rparr>)
            (count - uint chars) (written + chars) (drop (unat chars) buf)
     else Inr (p, count, written, buf))"

text \<open>Waiting for room. On \<open>None\<close> the remaining environment is handed back, since a
  long write sleeps several times.\<close>

fun write_wait :: "bool \<Rightarrow> u16 \<Rightarrow> u16 \<Rightarrow> penv \<Rightarrow> pipe_st \<Rightarrow> (int option \<times> penv \<times> pipe_st) kres" where
  "write_wait nonblock free written env s =
    (let p = pip s in
     if PIPE_BUF - p_len p < free \<or> p_lock p \<noteq> 0 then
       if p_readers p = 0
         then Inr (Some (if written \<noteq> 0 then sint written else - EPIPE), env, send_sigpipe s)
       else if cur_signal s \<noteq> 0
         then Inr (Some (if written \<noteq> 0 then sint written else - ERESTARTSYS), env, s)
       else if nonblock
         then Inr (Some (if written \<noteq> 0 then sint written else - EAGAIN), env, s)
       else (case env of [] \<Rightarrow> Inl Asleep | e # es \<Rightarrow> write_wait nonblock free written es (e s))
     else Inr (None, env, s))"

primrec write_outer :: "nat \<Rightarrow> bool \<Rightarrow> u16 \<Rightarrow> penv \<Rightarrow> int \<Rightarrow> u16 \<Rightarrow> u8 list \<Rightarrow> pipe_st \<Rightarrow> (int \<times> pipe_st) kres" where
  "write_outer 0 nonblock free env count written buf s = Inl Stuck"
| "write_outer (Suc n) nonblock free env count written buf s =
    (if count > 0 then
       bindr (write_wait nonblock free written env s) (\<lambda>(r, env, s).
         case r of Some v \<Rightarrow> Inr (v, s)
         | None \<Rightarrow>
           bindr (write_loop 3 ((pip s)\<lparr>p_lock := p_lock (pip s) + 1\<rparr>) count written buf)
             (\<lambda>(p, count', written, buf').
               let s = wake_up_interruptible
                     (s\<lparr>pip := p\<lparr>p_lock := p_lock p - 1\<rparr>,
                        h_in := h_in s @ take (nat (count - count')) buf\<rparr>)
               in write_outer n nonblock 1 env count' written buf' s))
     else Inr (sint written, s\<lparr>i_ctime := now s, i_mtime := now s\<rparr>))"

definition pipe_write :: "bool \<Rightarrow> penv \<Rightarrow> int \<Rightarrow> u8 list \<Rightarrow> pipe_st \<Rightarrow> (int \<times> pipe_st) kres" where
  "pipe_write nonblock env count buf s =
    (if p_readers (pip s) = 0 then Inr (- EPIPE, send_sigpipe s)
     else let free = (if count \<le> uint PIPE_BUF then word_of_int count else 1)
          in write_outer (Suc (nat count)) nonblock free env count 0 buf s)"

definition pipe_read_release :: "pipe_st \<Rightarrow> pipe_st" where
  "pipe_read_release s = wake_up_interruptible
    (s\<lparr>pip := (pip s)\<lparr>p_readers := p_readers (pip s) - 1\<rparr>\<rparr>)"

definition pipe_write_release :: "pipe_st \<Rightarrow> pipe_st" where
  "pipe_write_release s = wake_up_interruptible
    (s\<lparr>pip := (pip s)\<lparr>p_writers := p_writers (pip s) - 1\<rparr>\<rparr>)"

definition pipe_rdwr_release :: "bool \<Rightarrow> bool \<Rightarrow> pipe_st \<Rightarrow> pipe_st" where
  "pipe_rdwr_release rd wr s =
    (let s = (if rd then s\<lparr>pip := (pip s)\<lparr>p_readers := p_readers (pip s) - 1\<rparr>\<rparr> else s);
         s = (if wr then s\<lparr>pip := (pip s)\<lparr>p_writers := p_writers (pip s) - 1\<rparr>\<rparr> else s)
     in wake_up_interruptible s)"

definition pipe_read_open :: "pipe_st \<Rightarrow> int \<times> pipe_st" where
  "pipe_read_open s = (0, s\<lparr>pip := (pip s)\<lparr>p_readers := p_readers (pip s) + 1\<rparr>\<rparr>)"

definition pipe_write_open :: "pipe_st \<Rightarrow> int \<times> pipe_st" where
  "pipe_write_open s = (0, s\<lparr>pip := (pip s)\<lparr>p_writers := p_writers (pip s) + 1\<rparr>\<rparr>)"

definition pipe_rdwr_open :: "bool \<Rightarrow> bool \<Rightarrow> pipe_st \<Rightarrow> int \<times> pipe_st" where
  "pipe_rdwr_open rd wr s =
    (let s = (if rd then s\<lparr>pip := (pip s)\<lparr>p_readers := p_readers (pip s) + 1\<rparr>\<rparr> else s);
         s = (if wr then s\<lparr>pip := (pip s)\<lparr>p_writers := p_writers (pip s) + 1\<rparr>\<rparr> else s)
     in (0, s))"

definition pipe_lseek :: "int \<Rightarrow> int \<Rightarrow> int" where
  "pipe_lseek offset orig = - ESPIPE"

definition bad_pipe_rw :: "u8 list \<Rightarrow> int \<Rightarrow> int" where
  "bad_pipe_rw buf count = - EBADF"

declare read_wait.simps [simp del] write_wait.simps [simp del] read_loop.simps(2) [simp del]
  write_loop.simps(2) [simp del] write_outer.simps(2) [simp del]

section \<open>The ring of a pipe\<close>

definition pipe_ring :: "pipe_inode_info \<Rightarrow> bool" where
  "pipe_ring p \<longleftrightarrow> unat (p_start p) < 512 \<and> unat (p_len p) \<le> 512"

definition pipe_contents :: "pipe_inode_info \<Rightarrow> u8 list" where
  "pipe_contents p = ring (p_base p) 512 (unat (p_start p)) (unat (p_len p))"

text \<open>What a copying loop leaves alone.\<close>

definition same_ends :: "pipe_inode_info \<Rightarrow> pipe_inode_info \<Rightarrow> bool" where
  "same_ends p q \<longleftrightarrow> p_lock p = p_lock q \<and> p_readers p = p_readers q \<and> p_writers p = p_writers q"

lemma length_pipe_contents [simp]: "length (pipe_contents p) = unat (p_len p)"
  by (simp add: pipe_contents_def)

lemma pipe_mask: "unat (x AND (PIPE_BUF - 1)) = unat x mod 512"
  using and_pow2_minus1[of 9 x] by simp

lemma min_chain_u16:
  assumes "0 < count" and "count < 32768" and "unat a \<le> 512" and "unat b \<le> 512"
  defines "c \<equiv> (if a > word_of_int count then word_of_int count else a)"
  defines "d \<equiv> (if c > b then b else c)"
  shows "unat (d :: u16) = min (min (unat a) (nat count)) (unat b)"
proof -
  have "unat (word_of_int count :: u16) = nat count"
    using assms(1,2) by (simp add: unsigned_of_int take_bit_int_eq_self)
  then show ?thesis by (auto simp: c_def d_def word_less_nat_alt min_def)
qed

lemma read_loop_step:
  assumes "pipe_ring p" and "0 < count" "count < 32768" and "p_len p \<noteq> 0"
  defines "c \<equiv> min (min (512 - unat (p_start p)) (nat count)) (unat (p_len p))"
  shows "\<exists>p'. read_loop (Suc n) p count read out
        = read_loop n p' (count - int c) (read + of_nat c) (out @ take c (pipe_contents p)) \<and>
      pipe_ring p' \<and> pipe_contents p' = drop c (pipe_contents p) \<and> same_ends p p' \<and>
      unat (p_start p') = (unat (p_start p) + c) mod 512 \<and> unat (p_len p') = unat (p_len p) - c"
proof -
  let ?a = "PIPE_BUF - p_start p"
  let ?b = "if ?a > word_of_int count then word_of_int count else ?a"
  let ?c = "if ?b > p_len p then p_len p else ?b"
  let ?p = "p\<lparr>p_start := (p_start p + ?c) AND (PIPE_BUF - 1), p_len := p_len p - ?c\<rparr>"
  from assms(1) have s: "unat (p_start p) < 512" and l: "unat (p_len p) \<le> 512"
    by (auto simp: pipe_ring_def)
  have a: "unat ?a = 512 - unat (p_start p)" using s by (simp add: unat_u16_minus)
  then have uc: "unat ?c = c"
    using min_chain_u16[OF assms(2,3), of ?a "p_len p"] l by (simp add: c_def)
  then have ui: "uint ?c = int c" by (metis uint_nat)
  have uw: "?c = of_nat c" by (rule of_nat_unat_u16) (rule uc)
  have cl: "c \<le> unat (p_len p)" and cs: "unat (p_start p) + c \<le> 512" using s by (auto simp: c_def)
  have st: "unat (p_start ?p) = (unat (p_start p) + c) mod 512"
    using pipe_mask[of "p_start p + ?c"] uc cs by (simp add: unat_u16_plus)
  have ln: "unat (p_len ?p) = unat (p_len p) - c"
    using uc cl by (simp add: unat_u16_minus)
  have cont: "pipe_contents ?p = drop c (pipe_contents p)"
    using ring_drop[OF cl, of "p_base p" 512 "unat (p_start p)"] st ln by (simp add: pipe_contents_def)
  have bts: "pipe_bytes p (p_start p) ?c = take c (pipe_contents p)"
    using ring_take_chunk[OF cs cl, of "p_base p"] uc by (simp add: pipe_bytes_def pipe_contents_def)
  have "read_loop (Suc n) p count read out
      = read_loop n ?p (count - int c) (read + of_nat c) (out @ take c (pipe_contents p))"
    using assms(2,4) by (simp only: read_loop.simps(2) Let_def uw bts[unfolded uw] ui[unfolded uw] simp_thms if_True)
  moreover have "pipe_ring ?p" using st ln l by (simp only: pipe_ring_def) auto
  ultimately show ?thesis using cont st ln by (intro exI[of _ ?p]) (simp add: same_ends_def)
qed

lemma read_loop_done:
  "count \<le> 0 \<or> p_len p = 0 \<Longrightarrow> read_loop (Suc n) p count read out = Inr (p, read, out)"
  by (auto simp: read_loop.simps(2) Let_def)

lemma same_ends_trans: "same_ends p q \<Longrightarrow> same_ends q r \<Longrightarrow> same_ends p r"
  by (simp add: same_ends_def)

lemma take_drop_split: "take a xs @ take b (drop a xs) = take (a + b) xs"
  by (simp add: take_add)

text \<open>Two rounds reach the end of the count or of the data.\<close>

lemma read_loop_all:
  assumes "pipe_ring p" and "count < 32768"
  defines "k \<equiv> min (nat count) (unat (p_len p))"
  shows "\<exists>p'. read_loop (Suc (Suc (Suc 0))) p count 0 [] = Inr (p', of_nat k, take k (pipe_contents p)) \<and>
      pipe_ring p' \<and> pipe_contents p' = drop k (pipe_contents p) \<and> same_ends p p'"
proof (cases "0 < count \<and> p_len p \<noteq> 0")
  case False
  then have "k = 0" by (auto simp: k_def)
  with False assms show ?thesis
    using read_loop_done[of count p _ 0 "[]"] by (auto simp: same_ends_def not_less)
next
  case True
  define c where "c = min (min (512 - unat (p_start p)) (nat count)) (unat (p_len p))"
  obtain p1 where p1: "read_loop (Suc (Suc (Suc 0))) p count 0 []
        = read_loop (Suc (Suc 0)) p1 (count - int c) (of_nat c) (take c (pipe_contents p))"
      "pipe_ring p1" "pipe_contents p1 = drop c (pipe_contents p)" "same_ends p p1"
      "unat (p_start p1) = (unat (p_start p) + c) mod 512" "unat (p_len p1) = unat (p_len p) - c"
    using read_loop_step[OF assms(1) _ assms(2), of "Suc (Suc 0)" 0 "[]", folded c_def] True
    by (metis add_0 append_Nil)
  show ?thesis
  proof (cases "count - int c \<le> 0 \<or> p_len p1 = 0")
    case True
    then have "k = c" using p1(6) by (auto simp: k_def c_def)
    with True p1 show ?thesis
      using read_loop_done[of "count - int c" p1 _ "of_nat c" "take c (pipe_contents p)"]
      by auto
  next
    case False
    then have "unat (p_len p1) \<noteq> 0" and "c < nat count" by (auto simp: unat_eq_zero)
    then have c: "c = 512 - unat (p_start p)" "c < nat count" "c < unat (p_len p)"
      using p1(6) c_def by linarith+
    then have st: "unat (p_start p1) = 0" using p1(5) assms(1) by (simp add: pipe_ring_def)
    have c1: "0 < count - int c" "count - int c < 32768" using False assms(2) by auto
    define d where "d = min (min 512 (nat (count - int c))) (unat (p_len p1))"
    have kcd: "k = c + d" using p1(2,6) c k_def d_def unfolding pipe_ring_def by linarith
    obtain p2 where p2: "read_loop (Suc (Suc 0)) p1 (count - int c) (of_nat c) (take c (pipe_contents p))
          = read_loop (Suc 0) p2 (count - int c - int d) (of_nat c + of_nat d)
              (take c (pipe_contents p) @ take d (pipe_contents p1))"
        "pipe_ring p2" "pipe_contents p2 = drop d (pipe_contents p1)" "same_ends p1 p2"
        "unat (p_len p2) = unat (p_len p1) - d"
      using read_loop_step[OF p1(2), of "count - int c" "Suc 0" "of_nat c" "take c (pipe_contents p)",
          unfolded st diff_zero, folded d_def] False c1 by blast
    have "nat (count - int c) \<le> d \<or> unat (p_len p2) = 0"
      using p1(2) p2(5) d_def unfolding pipe_ring_def by linarith
    then have "nat (count - int c) \<le> d \<or> p_len p2 = 0" by (auto simp: unat_eq_zero)
    then have "count - int c - int d \<le> 0 \<or> p_len p2 = 0" by auto
    from read_loop_done[OF this] p1 p2 kcd same_ends_trans[OF p1(4) p2(4)]
    show ?thesis by (simp add: take_drop_split drop_drop add.commute)
  qed
qed

lemma write_loop_step:
  assumes "pipe_ring p" and "0 < count" "count < 32768" and "p_len p \<noteq> 512" and "nat count = length buf"
  defines "pos \<equiv> (unat (p_start p) + unat (p_len p)) mod 512"
  defines "c \<equiv> min (min (512 - pos) (nat count)) (512 - unat (p_len p))"
  shows "\<exists>p'. write_loop (Suc n) p count written buf
        = write_loop n p' (count - int c) (written + of_nat c) (drop c buf) \<and>
      pipe_ring p' \<and> pipe_contents p' = pipe_contents p @ take c buf \<and> same_ends p p' \<and>
      p_start p' = p_start p \<and> unat (p_len p') = unat (p_len p) + c"
proof -
  let ?f = "PIPE_BUF - p_len p"
  let ?x = "(p_start p + p_len p) AND (PIPE_BUF - 1)"
  let ?a = "- ?x + PIPE_BUF"
  let ?b = "if ?a > word_of_int count then word_of_int count else ?a"
  let ?c = "if ?b > ?f then ?f else ?b"
  let ?p = "p\<lparr>p_len := p_len p + ?c, p_base := blit (p_base p) (unat ?x) (take (unat ?c) buf)\<rparr>"
  from assms(1) have s: "unat (p_start p) < 512" and l: "unat (p_len p) \<le> 512"
    by (auto simp: pipe_ring_def)
  with assms(4) have l': "unat (p_len p) < 512" by (auto simp: word_unat_eq_iff)
  have x: "unat ?x = pos" using s l pipe_mask[of "p_start p + p_len p"] by (simp add: unat_u16_plus pos_def)
  then have "unat ?x < 512" by (simp add: pos_def)
  then have a: "unat ?a = 512 - pos" using x by (simp add: unat_u16_minus)
  have f: "unat ?f = 512 - unat (p_len p)" using l by (simp add: unat_u16_minus)
  have uc: "unat ?c = c"
    using min_chain_u16[OF assms(2,3), of ?a ?f] a f by (simp add: c_def)
  then have ui: "uint ?c = int c" by (metis uint_nat)
  have uw: "?c = of_nat c" by (rule of_nat_unat_u16) (rule uc)
  have cl: "unat (p_len p) + c \<le> 512" and cb: "c \<le> length buf" and cp: "pos + c \<le> 512"
    using l' assms(5) by (auto simp: c_def pos_def)
  have ln: "unat (p_len ?p) = unat (p_len p) + c" using uc cl by (simp add: unat_u16_plus)
  have cont: "pipe_contents ?p = pipe_contents p @ take c buf"
    using ring_blit[of "unat (p_len p)" "take c buf" 512 "unat (p_start p)" "p_base p"]
      cl cp cb ln uc x by (simp add: pipe_contents_def pos_def min_absorb2)
  have fne: "?f \<noteq> 0" using f l' by auto
  have "write_loop (Suc n) p count written buf = write_loop n ?p (count - int c) (written + of_nat c) (drop c buf)"
    using assms(2) fne by (simp only: write_loop.simps(2) Let_def uw ui[unfolded uw] uc[unfolded uw] simp_thms if_True)
  moreover have "pipe_ring ?p" using s ln cl by (simp add: pipe_ring_def)
  ultimately show ?thesis using cont ln by (intro exI[of _ ?p]) (simp add: same_ends_def)
qed

lemma write_loop_done:
  "count \<le> 0 \<or> p_len p = 512 \<Longrightarrow> write_loop (Suc n) p count written buf = Inr (p, count, written, buf)"
  by (auto simp: write_loop.simps(2) Let_def)

lemma write_loop_all:
  assumes "pipe_ring p" and "0 \<le> count" "count < 32768" and "nat count = length buf"
  defines "k \<equiv> min (nat count) (512 - unat (p_len p))"
  shows "\<exists>p'. write_loop (Suc (Suc (Suc 0))) p count written buf = Inr (p', count - int k, written + of_nat k, drop k buf) \<and>
      pipe_ring p' \<and> pipe_contents p' = pipe_contents p @ take k buf \<and> same_ends p p' \<and>
      unat (p_len p') = unat (p_len p) + k"
proof (cases "0 < count \<and> p_len p \<noteq> 512")
  case False
  then have "k = 0" by (auto simp: k_def)
  with False assms show ?thesis
    using write_loop_done[of count p _ written buf] by (auto simp: same_ends_def not_less)
next
  case True
  define pos where "pos = (unat (p_start p) + unat (p_len p)) mod 512"
  define c where "c = min (min (512 - pos) (nat count)) (512 - unat (p_len p))"
  obtain p1 where p1: "write_loop (Suc (Suc (Suc 0))) p count written buf
        = write_loop (Suc (Suc 0)) p1 (count - int c) (written + of_nat c) (drop c buf)"
      "pipe_ring p1" "pipe_contents p1 = pipe_contents p @ take c buf" "same_ends p p1"
      "p_start p1 = p_start p" "unat (p_len p1) = unat (p_len p) + c"
    using write_loop_step[OF assms(1) _ assms(3) _ assms(4), of "Suc (Suc 0)" written,
        folded pos_def, folded c_def] True by blast
  show ?thesis
  proof (cases "count - int c \<le> 0 \<or> p_len p1 = 512")
    case True
    then have "nat count \<le> c \<or> unat (p_len p) + c = 512" using p1(6) by auto
    then have "k = c" using c_def k_def by linarith
    with True p1 show ?thesis
      using write_loop_done[of "count - int c" p1 _ "written + of_nat c" "drop c buf"]
      by auto
  next
    case False
    then have "unat (p_len p1) \<noteq> 512" and "c < nat count" by (auto simp: word_unat_eq_iff)
    then have c: "c = 512 - pos" "c < nat count" "c < 512 - unat (p_len p)"
      using p1(2,6) c_def unfolding pipe_ring_def by linarith+
    have "(unat (p_start p1) + unat (p_len p1)) mod 512 = (pos + c) mod 512"
      unfolding p1(5,6) pos_def by (simp add: mod_add_left_eq add.assoc)
    also have "\<dots> = 0" using c(1) by (simp add: pos_def)
    finally have st: "(unat (p_start p1) + unat (p_len p1)) mod 512 = 0" .
    have c1: "0 < count - int c" "count - int c < 32768" "nat (count - int c) = length (drop c buf)"
      using False assms(2,3,4) by auto
    define d where "d = min (min 512 (nat (count - int c))) (512 - unat (p_len p1))"
    have kcd: "k = c + d" using p1(6) c k_def d_def by linarith
    obtain p2 where p2: "write_loop (Suc (Suc 0)) p1 (count - int c) (written + of_nat c) (drop c buf)
          = write_loop (Suc 0) p2 (count - int c - int d) (written + of_nat c + of_nat d) (drop d (drop c buf))"
        "pipe_ring p2" "pipe_contents p2 = pipe_contents p1 @ take d (drop c buf)" "same_ends p1 p2"
        "unat (p_len p2) = unat (p_len p1) + d"
      using write_loop_step[OF p1(2), of "count - int c" "drop c buf" "Suc 0" "written + of_nat c",
          unfolded st diff_zero, folded d_def] False c1 by blast
    have "nat (count - int c) \<le> d \<or> unat (p_len p2) = 512"
      using p1(2) p2(5) d_def unfolding pipe_ring_def by linarith
    then have "nat (count - int c) \<le> d \<or> p_len p2 = 512" by (auto simp: word_unat_eq_iff)
    then have "count - int c - int d \<le> 0 \<or> p_len p2 = 512" by auto
    from write_loop_done[OF this] p1 p2 kcd same_ends_trans[OF p1(4) p2(4)]
    show ?thesis by (simp add: take_drop_split drop_drop add.commute add.left_commute)
  qed
qed

section \<open>Invariant\<close>

text \<open>Between two steps of the system the lock is free and the bytes in the ring are
  those put in and not yet taken out, in order.\<close>

definition pipe_ok :: "pipe_st \<Rightarrow> bool" where
  "pipe_ok s \<longleftrightarrow> pipe_ring (pip s) \<and> p_lock (pip s) = 0 \<and> h_in s = h_out s @ pipe_contents (pip s)"

definition env_ok :: "penv \<Rightarrow> bool" where
  "env_ok env \<longleftrightarrow> (\<forall>e\<in>set env. \<forall>s. pipe_ok s \<longrightarrow> pipe_ok (e s))"

lemma env_ok_Cons: "env_ok (e # es) \<longleftrightarrow> (\<forall>s. pipe_ok s \<longrightarrow> pipe_ok (e s)) \<and> env_ok es"
  by (auto simp: env_ok_def)

lemma pipe_ring_lock [simp]: "pipe_ring (p\<lparr>p_lock := l\<rparr>) = pipe_ring p"
  by (simp add: pipe_ring_def)

lemma pipe_contents_simps [simp]:
  "pipe_contents (p\<lparr>p_lock := l\<rparr>) = pipe_contents p"
  "pipe_contents (p\<lparr>p_readers := l\<rparr>) = pipe_contents p"
  "pipe_contents (p\<lparr>p_writers := l\<rparr>) = pipe_contents p"
  by (simp_all add: pipe_contents_def)

lemma pipe_okD:
  assumes "pipe_ok s"
  shows "pipe_ring (pip s)" "p_lock (pip s) = 0" "h_in s = h_out s @ pipe_contents (pip s)"
    "length (pipe_contents (pip s)) \<le> 512"
  using assms by (auto simp: pipe_ok_def pipe_ring_def)

lemma read_copy_ok:
  assumes "pipe_ok s" and "count < 32768"
  defines "k \<equiv> min (nat count) (length (pipe_contents (pip s)))"
  shows "\<exists>s'. read_copy count s =
        Inr (if k \<noteq> 0 then int k else if p_writers (pip s) \<noteq> 0 then - EAGAIN else 0,
          take k (pipe_contents (pip s)), s') \<and>
      pipe_ok s' \<and> pipe_contents (pip s') = drop k (pipe_contents (pip s)) \<and>
      h_in s' = h_in s \<and> h_out s' = h_out s @ take k (pipe_contents (pip s)) \<and>
      wakes s' = wakes s + 1 \<and> p_readers (pip s') = p_readers (pip s) \<and> cur_signal s' = cur_signal s"
proof -
  let ?p = "(pip s)\<lparr>p_lock := p_lock (pip s) + 1\<rparr>"
  note d = pipe_okD[OF assms(1)]
  obtain p' where p': "read_loop 3 ?p count 0 [] = Inr (p', of_nat k, take k (pipe_contents (pip s)))"
      "pipe_ring p'" "pipe_contents p' = drop k (pipe_contents (pip s))" "same_ends ?p p'"
    using read_loop_all[of ?p count] d(1) assms(2) by (auto simp: k_def numeral_3_eq_3)
  have "k \<le> 512" using d(4) by (simp add: k_def)
  with p' d show ?thesis
    by (auto simp: read_copy_def wake_up_interruptible_def Let_def same_ends_def pipe_ok_def
        sint_small of_nat_u16_eq_0)
qed

lemma read_wait_ready:
  "p_len (pip s) \<noteq> 0 \<Longrightarrow> p_lock (pip s) = 0 \<Longrightarrow> read_wait nb env s = Inr (None, s)"
  by (subst read_wait.simps) (simp add: Let_def)

lemma read_wait_stop:
  assumes "nb \<or> p_len (pip s) = 0 \<and> p_writers (pip s) = 0 \<or> cur_signal s \<noteq> 0 \<or>
      p_len (pip s) \<noteq> 0 \<and> p_lock (pip s) = 0"
  shows "\<exists>r. read_wait nb env s = Inr (r, s)"
  using assms by (subst read_wait.simps) (auto simp: Let_def)

lemma read_wait_sleep:
  assumes "\<not> nb" and "p_len (pip s) = 0 \<or> p_lock (pip s) \<noteq> 0"
    and "\<not> (p_len (pip s) = 0 \<and> p_writers (pip s) = 0)" and "cur_signal s = 0"
  shows "read_wait nb env s = (case env of [] \<Rightarrow> Inl Asleep | e # es \<Rightarrow> read_wait nb es (e s))"
  using assms by (subst read_wait.simps) (simp only: Let_def simp_thms if_True if_False)

lemma read_wait_ok:
  "pipe_ok s \<Longrightarrow> env_ok env \<Longrightarrow> read_wait nb env s = Inr (r, s') \<Longrightarrow> pipe_ok s'"
proof (induction env arbitrary: s)
  case Nil
  then show ?case using read_wait_stop[of nb s "[]"] read_wait_sleep[of nb s "[]"] by fastforce
next
  case (Cons e es)
  then show ?case using read_wait_stop[of nb s "e # es"] read_wait_sleep[of nb s "e # es"]
    by (fastforce simp: env_ok_Cons)
qed

text \<open>The room test of \<open>pipe_write\<close>, on the contents.\<close>

definition pipe_room :: "pipe_st \<Rightarrow> nat" where
  "pipe_room s = 512 - length (pipe_contents (pip s))"

lemma room_iff:
  assumes "pipe_ok s"
  shows "PIPE_BUF - p_len (pip s) < free \<or> p_lock (pip s) \<noteq> 0 \<longleftrightarrow> pipe_room s < unat free"
proof -
  have "unat (PIPE_BUF - p_len (pip s)) = 512 - unat (p_len (pip s))"
    using pipe_okD(4)[OF assms] by (simp add: unat_u16_minus)
  then show ?thesis using pipe_okD(2)[OF assms] by (simp add: word_less_nat_alt pipe_room_def)
qed

definition give_up :: "u16 \<Rightarrow> int \<Rightarrow> int" where
  "give_up written e = (if written \<noteq> 0 then sint written else - e)"

lemma write_wait_room:
  "pipe_ok s \<Longrightarrow> unat free \<le> pipe_room s \<Longrightarrow> write_wait nb free written env s = Inr (None, env, s)"
  by (subst write_wait.simps) (simp add: Let_def room_iff)

lemma write_wait_no_room:
  assumes "pipe_ok s" and "pipe_room s < unat free"
  shows "write_wait nb free written env s =
    (if p_readers (pip s) = 0 then Inr (Some (give_up written EPIPE), env, send_sigpipe s)
     else if cur_signal s \<noteq> 0 then Inr (Some (give_up written ERESTARTSYS), env, s)
     else if nb then Inr (Some (give_up written EAGAIN), env, s)
     else (case env of [] \<Rightarrow> Inl Asleep | e # es \<Rightarrow> write_wait nb free written es (e s)))"
  using assms(2) unfolding room_iff[OF assms(1), symmetric]
  by (subst write_wait.simps) (simp only: Let_def if_True give_up_def)

text \<open>What waiting for room can end in: \<open>m\<close> sleeps were taken; then there is room, or
  the caller gives up and has changed nothing but its own signals.\<close>

definition waited :: "u16 \<Rightarrow> u16 \<Rightarrow> penv \<Rightarrow> pipe_st \<Rightarrow> nat \<Rightarrow> int option \<Rightarrow> penv \<Rightarrow> pipe_st \<Rightarrow> bool" where
  "waited free written env s m r env' s' \<longleftrightarrow>
    (let s0 = fold (\<lambda>e. e) (take m env) s in
     env' = drop m env \<and> pipe_ok s0 \<and>
     (case r of None \<Rightarrow> s' = s0 \<and> unat free \<le> pipe_room s0
      | Some v \<Rightarrow> (s' = s0 \<or> s' = send_sigpipe s0) \<and>
          v \<in> give_up written ` {EPIPE, ERESTARTSYS, EAGAIN}))"

lemma write_wait_cases:
  assumes "pipe_ok s" and "env_ok env" and "write_wait nb free written env s = Inr (r, env', s')"
  shows "\<exists>m. waited free written env s m r env' s'"
  using assms
proof (induction env arbitrary: s)
  case Nil
  show ?case
    by (rule exI[of _ 0], cases "unat free \<le> pipe_room s")
      (use Nil in \<open>auto simp: write_wait_room write_wait_no_room waited_def split: if_splits\<close>)
next
  case (Cons e es)
  show ?case
  proof (cases "pipe_room s < unat free \<and> p_readers (pip s) \<noteq> 0 \<and> cur_signal s = 0 \<and> \<not> nb")
    case True
    with Cons.prems have "write_wait nb free written es (e s) = Inr (r, env', s')"
      by (simp add: write_wait_no_room)
    with Cons.IH[of "e s"] Cons.prems obtain m where "waited free written es (e s) m r env' s'"
      by (auto simp: env_ok_Cons)
    then have "waited free written (e # es) s (Suc m) r env' s'" by (simp add: waited_def)
    then show ?thesis ..
  next
    case False
    have "waited free written (e # es) s 0 r env' s'"
      using Cons.prems False by (cases "unat free \<le> pipe_room s")
        (auto simp: write_wait_room write_wait_no_room waited_def split: if_splits)
    then show ?thesis ..
  qed
qed

lemma write_wait_fault:
  "pipe_ok s \<Longrightarrow> env_ok env \<Longrightarrow> write_wait nb free written env s = Inl f \<Longrightarrow> f = Asleep"
proof (induction env arbitrary: s)
  case Nil
  then show ?case by (cases "unat free \<le> pipe_room s")
      (auto simp: write_wait_room write_wait_no_room split: if_splits)
next
  case (Cons e es)
  then show ?case by (cases "unat free \<le> pipe_room s")
      (auto simp: write_wait_room write_wait_no_room env_ok_Cons split: if_splits)
qed

lemma pipe_ok_sigpipe [simp]: "pipe_ok (send_sigpipe s) = pipe_ok s" "h_in (send_sigpipe s) = h_in s"
  "pip (send_sigpipe s) = pip s" "h_out (send_sigpipe s) = h_out s"
  by (simp_all add: pipe_ok_def send_sigpipe_def)

text \<open>One round of \<open>pipe_write\<close>: after the wait, as much as there is room for goes in.\<close>

lemma write_round:
  assumes "pipe_ok s0" and "0 < count" "count < 32768" and "nat count = length buf"
    and "write_wait nb free written env s = Inr (None, env', s0)"
  defines "k \<equiv> min (length buf) (pipe_room s0)"
  shows "\<exists>s1. write_outer (Suc n) nb free env count written buf s
        = write_outer n nb 1 env' (count - int k) (written + of_nat k) (drop k buf) s1 \<and>
      pipe_ok s1 \<and> pipe_contents (pip s1) = pipe_contents (pip s0) @ take k buf \<and>
      h_in s1 = h_in s0 @ take k buf \<and> h_out s1 = h_out s0 \<and>
      p_readers (pip s1) = p_readers (pip s0) \<and> cur_signal s1 = cur_signal s0 \<and> wakes s1 = wakes s0 + 1"
proof -
  let ?p = "(pip s0)\<lparr>p_lock := p_lock (pip s0) + 1\<rparr>"
  note d = pipe_okD[OF assms(1)]
  obtain p' where p': "write_loop 3 ?p count written buf
        = Inr (p', count - int k, written + of_nat k, drop k buf)"
      "pipe_ring p'" "pipe_contents p' = pipe_contents (pip s0) @ take k buf" "same_ends ?p p'"
    using write_loop_all[of ?p count buf written] d(1) assms(2-4)
    by (auto simp: k_def numeral_3_eq_3 pipe_room_def)
  let ?s1 = "wake_up_interruptible (s0\<lparr>pip := p'\<lparr>p_lock := p_lock p' - 1\<rparr>, h_in := h_in s0 @ take k buf\<rparr>)"
  have "write_outer (Suc n) nb free env count written buf s
        = write_outer n nb 1 env' (count - int k) (written + of_nat k) (drop k buf) ?s1"
    using assms(2,5) p'(1) by (simp add: write_outer.simps(2) Let_def)
  moreover have "pipe_ok ?s1"
    using p' d by (simp add: wake_up_interruptible_def pipe_ok_def same_ends_def)
  ultimately show ?thesis using p' by (intro exI[of _ ?s1]) (simp add: wake_up_interruptible_def same_ends_def)
qed

lemma write_outer_end:
  "write_outer (Suc n) nb free env 0 written buf s = Inr (sint written, s\<lparr>i_ctime := now s, i_mtime := now s\<rparr>)"
  by (simp add: write_outer.simps(2))

lemma write_outer_wait_stop:
  "0 < count \<Longrightarrow> write_wait nb free written env s = Inr (Some v, env', s') \<Longrightarrow>
     write_outer (Suc n) nb free env count written buf s = Inr (v, s')"
  by (simp add: write_outer.simps(2))

lemma write_outer_wait_fault:
  "0 < count \<Longrightarrow> write_wait nb free written env s = Inl f \<Longrightarrow>
     write_outer (Suc n) nb free env count written buf s = Inl f"
  by (simp add: write_outer.simps(2))

lemma pipe_ok_times [simp]: "pipe_ok (s\<lparr>i_ctime := x, i_mtime := y\<rparr>) = pipe_ok s"
  by (simp add: pipe_ok_def)

text \<open>An environment without other writers.\<close>

definition only_writer :: "penv \<Rightarrow> bool" where
  "only_writer env \<longleftrightarrow> (\<forall>e\<in>set env. \<forall>s. h_in (e s) = h_in s)"

lemma fold_only_writer: "only_writer env \<Longrightarrow> h_in (fold (\<lambda>e. e) env s) = h_in s"
  by (induction env arbitrary: s) (auto simp: only_writer_def)

lemma env_ok_drop: "env_ok env \<Longrightarrow> env_ok (drop m env)" "only_writer env \<Longrightarrow> only_writer (drop m env)"
    "only_writer env \<Longrightarrow> only_writer (take m env)"
  by (auto simp: env_ok_def only_writer_def dest: in_set_dropD in_set_takeD)

definition stream_result :: "pipe_st \<Rightarrow> nat \<Rightarrow> u8 list \<Rightarrow> (int \<times> pipe_st) kres \<Rightarrow> bool" where
  "stream_result s w buf res \<longleftrightarrow> res = Inl Asleep \<or>
    (\<exists>r s'. res = Inr (r, s') \<and> pipe_ok s' \<and>
      (if r < 0 then w = 0 \<and> r \<in> {- EPIPE, - ERESTARTSYS, - EAGAIN} \<and> h_in s' = h_in s
       else w \<le> nat r \<and> nat r \<le> w + length buf \<and> h_in s' = h_in s @ take (nat r - w) buf))"

lemma give_up_nat: "w < 32768 \<Longrightarrow> give_up (of_nat w) e = (if w \<noteq> 0 then int w else - e)"
  by (simp add: give_up_def sint_small of_nat_u16_eq_0)

lemma give_up_0 [simp]: "give_up 0 e = - e"
  by (simp add: give_up_def)

lemma stream_result_shift:
  assumes "h_in s1 = h_in s @ take k buf" and "k \<le> length buf" and "0 < k"
    and "stream_result s1 (w + k) (drop k buf) res"
  shows "stream_result s w buf res"
proof (cases res)
  case (Inr p)
  then obtain r s' where res: "res = Inr (r, s')" by (cases p) auto
  with assms have r: "0 \<le> r" "w + k \<le> nat r" "nat r \<le> w + length buf" "pipe_ok s'"
      "h_in s' = h_in s @ take k buf @ take (nat r - (w + k)) (drop k buf)"
    by (auto simp: stream_result_def split: if_splits)
  have "take k buf @ take (nat r - (w + k)) (drop k buf) = take (nat r - w) buf"
    using r(2) by (simp add: take_drop_split)
  with r res show ?thesis by (simp add: stream_result_def)
qed (use assms in \<open>simp add: stream_result_def\<close>)

lemma write_outer_stream:
  assumes "pipe_ok s" and "env_ok env" and "only_writer env" and "nat count = length buf" and "0 \<le> count"
    and "w + length buf < 32768" and "0 < free" and "length buf < n"
  shows "stream_result s w buf (write_outer n nb free env count (of_nat w) buf s)"
  using assms
proof (induction n arbitrary: s env count buf w free)
  case (Suc n)
  show ?case
  proof (cases "count = 0")
    case True
    with Suc.prems show ?thesis by (auto simp: write_outer_end stream_result_def sint_small)
  next
    case False
    with Suc.prems have pos: "0 < count" and lt: "count < 32768" by linarith+
    show ?thesis
    proof (cases "write_wait nb free (of_nat w) env s")
      case (Inl f)
      with write_wait_fault[OF Suc.prems(1,2)] show ?thesis
        by (simp add: write_outer_wait_fault[OF pos] stream_result_def)
    next
      case (Inr p)
      then obtain r env' s0 where p: "write_wait nb free (of_nat w) env s = Inr (r, env', s0)" by (cases p) auto
      with write_wait_cases[OF Suc.prems(1,2)] obtain m where m: "waited free (of_nat w) env s m r env' s0" by blast
      then have h: "h_in s0 = h_in s" and e: "env' = drop m env" and ok: "pipe_ok s0"
        using fold_only_writer[OF env_ok_drop(3)[OF Suc.prems(3)], of m s]
        by (auto simp: waited_def Let_def split: option.splits)
      show ?thesis
      proof (cases r)
        case (Some v)
        then have "v = (if w \<noteq> 0 then int w else v)" "w = 0 \<Longrightarrow> v \<in> {- EPIPE, - ERESTARTSYS, - EAGAIN}"
          using m Suc.prems(6) by (auto simp: waited_def Let_def give_up_nat)
        with Some ok h show ?thesis
          by (auto simp: write_outer_wait_stop[OF pos p[unfolded Some]] stream_result_def split: if_splits)
      next
        case None
        define k where "k = min (length buf) (pipe_room s0)"
        have "unat free \<le> pipe_room s0" using m None by (auto simp: waited_def Let_def)
        moreover have "0 < unat free" using Suc.prems(7) by (simp add: word_less_nat_alt)
        ultimately have k: "0 < k" "k \<le> length buf" using pos Suc.prems(4) by (auto simp: k_def)
        obtain s1 where s1: "write_outer (Suc n) nb free env count (of_nat w) buf s
              = write_outer n nb 1 env' (count - int k) (of_nat (w + k)) (drop k buf) s1"
            "pipe_ok s1" "h_in s1 = h_in s0 @ take k buf"
          using write_round[OF ok pos lt Suc.prems(4) p[unfolded None], of n] by (auto simp: k_def)
        have "stream_result s1 (w + k) (drop k buf)
            (write_outer n nb 1 env' (count - int k) (of_nat (w + k)) (drop k buf) s1)"
          using Suc.prems k s1(2) e env_ok_drop[of env m] by (intro Suc.IH) auto
        from stream_result_shift[OF _ k(2,1) this, of s] s1 h show ?thesis by simp
      qed
    qed
  qed
qed simp

section \<open>Other processes on the pipe\<close>

text \<open>A reader that takes what is there, as a step of the environment.\<close>

definition reader :: "int \<Rightarrow> pipe_st \<Rightarrow> pipe_st" where
  "reader count s = (case pipe_read True [] count s of Inr (_, _, s') \<Rightarrow> s' | Inl _ \<Rightarrow> s)"

lemma reader_empty: "pipe_ok s \<Longrightarrow> pipe_contents (pip s) = [] \<Longrightarrow> reader count s = s"
  using length_pipe_contents[of "pip s"]
  by (simp add: reader_def pipe_read_def read_wait.simps unat_eq_zero pipe_ok_def)

lemma reader_data:
  assumes "pipe_ok s" and "count < 32768" and "pipe_contents (pip s) \<noteq> []"
  shows "pipe_ok (reader count s) \<and> h_in (reader count s) = h_in s \<and>
    pipe_contents (pip (reader count s)) = drop (nat count) (pipe_contents (pip s)) \<and>
    p_readers (pip (reader count s)) = p_readers (pip s) \<and> cur_signal (reader count s) = cur_signal s"
proof -
  have "p_len (pip s) \<noteq> 0" "p_lock (pip s) = 0"
    using assms(1,3) length_pipe_contents[of "pip s"] by (auto simp: pipe_ok_def simp del: length_pipe_contents)
  from read_wait_ready[OF this] read_copy_ok[OF assms(1,2)]
  show ?thesis by (auto simp: reader_def pipe_read_def min_def)
qed

lemma reader_step:
  assumes "pipe_ok s" and "count < 32768"
  shows "pipe_ok (reader count s) \<and> h_in (reader count s) = h_in s \<and>
    pipe_contents (pip (reader count s)) = drop (nat count) (pipe_contents (pip s)) \<and>
    p_readers (pip (reader count s)) = p_readers (pip s) \<and> cur_signal (reader count s) = cur_signal s"
  using reader_data[OF assms] reader_empty[OF assms(1), of count] assms(1)
  by (cases "pipe_contents (pip s) = []") auto

lemma write_wait_drain:
  assumes "pipe_ok s" and "p_readers (pip s) \<noteq> 0" and "cur_signal s = 0" and "unat free \<le> 512"
  shows "\<exists>s0 m. m \<le> 1 \<and> write_wait False free written (reader 512 # es) s = Inr (None, drop m (reader 512 # es), s0) \<and>
    pipe_ok s0 \<and> p_readers (pip s0) \<noteq> 0 \<and> cur_signal s0 = 0 \<and> h_in s0 = h_in s \<and> unat free \<le> pipe_room s0"
proof (cases "unat free \<le> pipe_room s")
  case True
  with assms show ?thesis by (intro exI[of _ s] exI[of _ 0]) (simp add: write_wait_room)
next
  case False
  note r = reader_step[OF assms(1), of 512]
  then have "pipe_room (reader 512 s) = 512" using pipe_okD(4)[OF assms(1)] by (simp add: pipe_room_def)
  with False r assms show ?thesis
    by (intro exI[of _ "reader 512 s"] exI[of _ 1]) (simp add: write_wait_no_room write_wait_room)
qed

lemma write_outer_drain:
  assumes "pipe_ok s" and "p_readers (pip s) \<noteq> 0" and "cur_signal s = 0"
    and "nat count = length buf" and "0 \<le> count" and "w + length buf < 32768"
    and "0 < unat free" and "unat free \<le> 512" and "length buf < n" and "length buf \<le> k"
  shows "\<exists>s'. write_outer n False free (replicate k (reader 512)) count (of_nat w) buf s = Inr (int (w + length buf), s') \<and>
     pipe_ok s' \<and> h_in s' = h_in s @ buf"
  using assms
proof (induction n arbitrary: s count buf w free k)
  case (Suc n)
  show ?case
  proof (cases "count = 0")
    case True
    with Suc.prems show ?thesis by (simp add: write_outer_end sint_small)
  next
    case False
    with Suc.prems have pos: "0 < count" and "0 < length buf" and lt: "count < 32768" by linarith+
    then obtain k' where k': "k = Suc k'" using Suc.prems(10) by (cases k) auto
    obtain s0 m where s0: "m \<le> 1" "write_wait False free (of_nat w) (replicate k (reader 512)) s
          = Inr (None, drop m (replicate k (reader 512)), s0)"
        "pipe_ok s0" "p_readers (pip s0) \<noteq> 0" "cur_signal s0 = 0" "h_in s0 = h_in s" "unat free \<le> pipe_room s0"
      using write_wait_drain[OF Suc.prems(1-3,8), of "of_nat w" "replicate k' (reader 512)"] k' by auto
    define j where "j = min (length buf) (pipe_room s0)"
    have j: "0 < j" "j \<le> length buf" using s0(7) Suc.prems(7) \<open>0 < length buf\<close> by (auto simp: j_def)
    obtain s1 where s1: "write_outer (Suc n) False free (replicate k (reader 512)) count (of_nat w) buf s
          = write_outer n False 1 (replicate (k - m) (reader 512)) (count - int j) (of_nat (w + j)) (drop j buf) s1"
        "pipe_ok s1" "h_in s1 = h_in s0 @ take j buf" "p_readers (pip s1) \<noteq> 0" "cur_signal s1 = 0"
      using write_round[OF s0(3) pos lt Suc.prems(4) s0(2), of n] s0(4,5) by (auto simp: j_def)
    have "\<exists>s'. write_outer n False 1 (replicate (k - m) (reader 512)) (count - int j) (of_nat (w + j)) (drop j buf) s1
        = Inr (int (w + j + length (drop j buf)), s') \<and> pipe_ok s' \<and> h_in s' = h_in s1 @ drop j buf"
      using Suc.prems j s0(1) s1(2,4,5) by (intro Suc.IH) auto
    with s1 s0(6) j show ?thesis by auto
  qed
qed simp

section \<open>A pipe as a bounded FIFO\<close>

definition pipe_live :: "pipe_st \<Rightarrow> bool" where
  "pipe_live s \<longleftrightarrow> pipe_ok s \<and> p_readers (pip s) \<noteq> 0"

definition pipe_put :: "pipe_st \<Rightarrow> u8 \<Rightarrow> int \<times> pipe_st" where
  "pipe_put s c = (case pipe_write True [] 1 [c] s of
      Inr (r, s') \<Rightarrow> (if r = 1 then 0 else - 1, s') | Inl _ \<Rightarrow> (- 1, s))"

definition pipe_get :: "pipe_st \<Rightarrow> u8 option \<times> pipe_st" where
  "pipe_get s = (case pipe_read True [] 1 s of
      Inr (r, out, s') \<Rightarrow> (case out of [] \<Rightarrow> None | c # _ \<Rightarrow> Some c, s') | Inl _ \<Rightarrow> (None, s))"

lemma pipe_write_fits:
  assumes "pipe_ok s" and "p_readers (pip s) \<noteq> 0" and "0 < length buf" "length buf \<le> pipe_room s"
  shows "\<exists>s'. pipe_write nb env (int (length buf)) buf s = Inr (int (length buf), s') \<and> pipe_ok s' \<and>
     pipe_contents (pip s') = pipe_contents (pip s) @ buf \<and> h_in s' = h_in s @ buf \<and>
     h_out s' = h_out s \<and> p_readers (pip s') = p_readers (pip s)"
proof -
  have le: "length buf \<le> 512" using assms(4) by (simp add: pipe_room_def)
  have w: "write_wait nb (word_of_int (int (length buf))) 0 env s = Inr (None, env, s)"
    using assms le by (simp add: write_wait_room)
  obtain n where n: "length buf = Suc n" using assms(3) by (cases "length buf") auto
  have "pipe_write nb env (int (length buf)) buf s
      = write_outer (Suc (length buf)) nb (word_of_int (int (length buf))) env (int (length buf)) 0 buf s"
    using assms(2) le by (simp add: pipe_write_def)
  with write_round[OF assms(1) _ _ _ w, where buf = buf and n = "length buf" and count = "int (length buf)"] assms(3,4) le show ?thesis
    by (auto simp: min_absorb1 n write_outer_end sint_small simp del: of_nat_Suc)
qed

interpretation pq: bounded_fifo pipe_live "\<lambda>s. pipe_contents (pip s)" "\<lambda>_. 512" pipe_put pipe_get
proof
  fix q c cs
  show "pipe_live q \<Longrightarrow> length (pipe_contents (pip q)) < 512 \<Longrightarrow>
      \<exists>q'. pipe_put q c = (0, q') \<and> pipe_live q' \<and> pipe_contents (pip q') = pipe_contents (pip q) @ [c] \<and> 512 = 512"
    using pipe_write_fits[of q "[c]" True "[]"] by (force simp: pipe_put_def pipe_live_def pipe_room_def)
  show "pipe_live q \<Longrightarrow> length (pipe_contents (pip q)) = 512 \<Longrightarrow> pipe_put q c = (- 1, q)"
    by (auto simp: pipe_put_def pipe_live_def pipe_write_def write_outer.simps(2) write_wait_no_room
        pipe_room_def give_up_def)
  show "pipe_live q \<Longrightarrow> pipe_contents (pip q) = c # cs \<Longrightarrow>
      \<exists>q'. pipe_get q = (Some c, q') \<and> pipe_live q' \<and> pipe_contents (pip q') = cs \<and> 512 = 512"
  proof -
    assume l: "pipe_live q" and c: "pipe_contents (pip q) = c # cs"
    then have "p_len (pip q) \<noteq> 0" "p_lock (pip q) = 0"
      using length_pipe_contents[of "pip q"] by (auto simp: pipe_live_def pipe_ok_def simp del: length_pipe_contents)
    from read_wait_ready[OF this] read_copy_ok[of q 1] l c show ?thesis
      by (auto simp: pipe_get_def pipe_read_def pipe_live_def simp del: length_pipe_contents)
  qed
  show "pipe_live q \<Longrightarrow> pipe_contents (pip q) = [] \<Longrightarrow> pipe_get q = (None, q)"
    using length_pipe_contents[of "pip q"]
    by (simp add: pipe_get_def pipe_live_def pipe_read_def read_wait.simps unat_eq_zero pipe_ok_def)
  show "pipe_live q \<Longrightarrow> length (pipe_contents (pip q)) \<le> 512"
    using pipe_okD(4)[of q] by (simp add: pipe_live_def)
qed

section \<open>Properties\<close>

text \<open>A fresh pipe with one reader and one writer, for the witnesses.\<close>

definition fresh_pipe :: pipe_st where
  "fresh_pipe = \<lparr>pip = \<lparr>p_base = (\<lambda>_. 0), p_start = 510, p_len = 0, p_lock = 0, p_readers = 1, p_writers = 1\<rparr>,
     i_atime = 0, i_ctime = 0, i_mtime = 0, cur_signal = 0, cur_sent = [], wakes = 0, now = 7,
     h_in = [], h_out = []\<rparr>"

lemma fresh_pipe_ok [simp]: "pipe_ok fresh_pipe" "pipe_contents (pip fresh_pipe) = []"
    "p_readers (pip fresh_pipe) = 1" "h_in fresh_pipe = []" "cur_signal fresh_pipe = 0" "h_out fresh_pipe = []"
  by (simp_all add: fresh_pipe_def pipe_ok_def pipe_ring_def pipe_contents_def)

text \<open>C9: \<open>pipe_read\<close> on a pipe with data returns at once, whatever the other processes
  do: it hands out the oldest bytes, as many as asked for or as there are, across the
  wrap-around of the ring, removes exactly those and wakes the writers.\<close>

theorem pipe_read_exact:
  assumes "pipe_ok s" and "pipe_contents (pip s) \<noteq> []" and "0 < count" and "count < 32768"
  defines "k \<equiv> min (nat count) (length (pipe_contents (pip s)))"
  shows "\<exists>s'. pipe_read nonblock env count s = Inr (int k, take k (pipe_contents (pip s)), s') \<and>
     pipe_ok s' \<and> pipe_contents (pip s') = drop k (pipe_contents (pip s)) \<and> wakes s' = wakes s + 1"
proof -
  have "p_len (pip s) \<noteq> 0" "p_lock (pip s) = 0"
    using assms(1,2) length_pipe_contents[of "pip s"] by (auto simp: pipe_ok_def simp del: length_pipe_contents)
  moreover have "k \<noteq> 0" using assms(2,3) by (auto simp: k_def simp del: length_pipe_contents)
  ultimately show ?thesis using read_copy_ok[OF assms(1,4), folded k_def]
    by (auto simp: pipe_read_def read_wait_ready)
qed

text \<open>C8: a write of at most \<open>PIPE_BUF\<close> bytes is atomic: however often it sleeps and
  whatever other readers and writers do meanwhile, it either puts all its bytes in one
  piece behind what the pipe holds at that moment, or none of them and returns one of
  three errors.\<close>

theorem pipe_write_atomic:
  assumes "pipe_ok s" and "env_ok env" and "0 < length buf" and "length buf \<le> 512"
    and "pipe_write nonblock env (int (length buf)) buf s = Inr (r, s')"
  shows "\<exists>m. let s0 = fold (\<lambda>e. e) (take m env) s in
      r = int (length buf) \<and> pipe_contents (pip s') = pipe_contents (pip s0) @ buf \<and> h_in s' = h_in s0 @ buf
    \<or> r \<in> {- EPIPE, - ERESTARTSYS, - EAGAIN} \<and> pip s' = pip s0 \<and> h_in s' = h_in s0"
proof (cases "p_readers (pip s) = 0")
  case True
  with assms(5) show ?thesis by (intro exI[of _ 0]) (auto simp: pipe_write_def)
next
  case False
  let ?free = "word_of_int (int (length buf)) :: u16"
  have "0 < int (length buf)" using assms(3) by simp
  note stop = write_outer_wait_stop[OF this] and fault = write_outer_wait_fault[OF this]
  from False assms(4,5) have o: "write_outer (Suc (length buf)) nonblock ?free env (int (length buf)) 0 buf s = Inr (r, s')"
    by (simp add: pipe_write_def)
  obtain x env' s1 where w: "write_wait nonblock ?free 0 env s = Inr (x, env', s1)"
    using fault[of nonblock ?free 0 env s] o by (cases "write_wait nonblock ?free 0 env s") fastforce+
  then obtain m where m: "waited ?free 0 env s m x env' s1" using write_wait_cases[OF assms(1,2)] by blast
  show ?thesis
  proof (cases x)
    case (Some v)
    with o w stop have "r = v" "s' = s1" by auto
    with Some m show ?thesis by (intro exI[of _ m]) (auto simp: waited_def Let_def)
  next
    case None
    with m assms(4) have s1: "s1 = fold (\<lambda>e. e) (take m env) s" "pipe_ok s1" "length buf \<le> pipe_room s1"
      by (auto simp: waited_def Let_def)
    obtain n where n: "length buf = Suc n" using assms(3) by (cases "length buf") auto
    from write_round[OF s1(2) _ _ _ w[unfolded None], where buf = buf and n = "length buf" and count = "int (length buf)"] assms(3,4) s1(3) o s1(1) show ?thesis
      by (intro exI[of _ m])
        (auto simp: min_absorb1 n write_outer_end sint_small simp del: of_nat_Suc)
  qed
qed

text \<open>a write of any length delivers a prefix of its buffer: with readers at work and
  no other writer, \<open>pipe_write\<close> either sleeps or returns the number of bytes it put into
  the stream, in order and without gap, or an error when it put none.\<close>

theorem pipe_write_stream:
  assumes "pipe_ok s" and "env_ok env" and "only_writer env" and "length buf < 32768"
  shows "pipe_write nonblock env (int (length buf)) buf s = Inl Asleep \<or>
    (\<exists>r s'. pipe_write nonblock env (int (length buf)) buf s = Inr (r, s') \<and> pipe_ok s' \<and>
      (if r < 0 then r \<in> {- EPIPE, - ERESTARTSYS, - EAGAIN} \<and> h_in s' = h_in s
       else nat r \<le> length buf \<and> h_in s' = h_in s @ take (nat r) buf))"
proof (cases "p_readers (pip s) = 0 \<or> buf = []")
  case True
  with assms show ?thesis
    by (auto simp: pipe_write_def write_outer.simps(2))
next
  case False
  let ?free = "if int (length buf) \<le> uint PIPE_BUF then word_of_int (int (length buf)) else 1 :: u16"
  have "0 < unat ?free" using False by simp
  then have "0 < ?free" by (simp only: word_less_nat_alt) simp
  then have "stream_result s 0 buf (write_outer (Suc (length buf)) nonblock ?free env (int (length buf)) (of_nat 0) buf s)"
    using assms by (intro write_outer_stream) auto
  moreover have "pipe_write nonblock env (int (length buf)) buf s
      = write_outer (Suc (length buf)) nonblock ?free env (int (length buf)) (of_nat 0) buf s"
    using False by (simp only: pipe_write_def Let_def nat_int of_nat_0) simp
  ultimately have st: "stream_result s 0 buf (pipe_write nonblock env (int (length buf)) buf s)" by simp
  then consider "pipe_write nonblock env (int (length buf)) buf s = Inl Asleep"
    | r s' where "pipe_write nonblock env (int (length buf)) buf s = Inr (r, s')" "pipe_ok s'"
      "if r < 0 then r \<in> {- EPIPE, - ERESTARTSYS, - EAGAIN} \<and> h_in s' = h_in s
       else nat r \<le> length buf \<and> h_in s' = h_in s @ take (nat r) buf"
    by (auto simp: stream_result_def simp del: insert_iff cong: if_cong)
  then show ?thesis by cases blast+
qed

text \<open>a blocking write of any length completes when a reader empties the pipe at each
  of its sleeps: it returns the full count and all its bytes have entered the stream.\<close>

theorem pipe_write_completes:
  assumes "pipe_ok s" and "p_readers (pip s) \<noteq> 0" and "cur_signal s = 0" and "length buf < 32768"
  shows "\<exists>s'. pipe_write False (replicate (length buf) (reader 512)) (int (length buf)) buf s
      = Inr (int (length buf), s') \<and> pipe_ok s' \<and> h_in s' = h_in s @ buf"
proof (cases "buf = []")
  case True
  with assms show ?thesis by (simp add: pipe_write_def write_outer_end)
next
  case False
  let ?free = "if int (length buf) \<le> uint PIPE_BUF then word_of_int (int (length buf)) else 1 :: u16"
  have "0 < unat ?free" "unat ?free \<le> 512" using False by auto
  then have "\<exists>s'. write_outer (Suc (length buf)) False ?free (replicate (length buf) (reader 512))
      (int (length buf)) (of_nat 0) buf s = Inr (int (0 + length buf), s') \<and> pipe_ok s' \<and> h_in s' = h_in s @ buf"
    using assms by (intro write_outer_drain) auto
  moreover have "pipe_write False env (int (length buf)) buf s
      = write_outer (Suc (length buf)) False ?free env (int (length buf)) (of_nat 0) buf s" for env
    using assms(2) by (simp only: pipe_write_def Let_def nat_int of_nat_0) simp
  ultimately show ?thesis by simp
qed

lemma pipe_end_cases:
  assumes "pipe_ok s"
  shows "pipe_contents (pip s) = [] \<and> p_writers (pip s) = 0 \<longrightarrow> pipe_read nonblock env count s = Inr (0, [], s)"
    and "p_readers (pip s) = 0 \<longrightarrow> pipe_write nonblock env count buf s = Inr (- EPIPE, s\<lparr>cur_sent := cur_sent s @ [SIGPIPE]\<rparr>)"
    and "pipe_contents (pip s) = [] \<and> p_writers (pip s) \<noteq> 0 \<longrightarrow> pipe_read True env count s = Inr (- EAGAIN, [], s)"
    and "p_readers (pip s) \<noteq> 0 \<and> cur_signal s = 0 \<and> 0 < count \<and> count \<le> 512 \<and> pipe_room s < nat count \<longrightarrow>
      pipe_write True env count buf s = Inr (- EAGAIN, s)"
proof -
  have e: "pipe_contents (pip s) = [] \<longleftrightarrow> p_len (pip s) = 0"
    by (metis length_0_conv length_pipe_contents unat_eq_zero)
  note l = pipe_okD(2)[OF assms]
  show "pipe_contents (pip s) = [] \<and> p_writers (pip s) = 0 \<longrightarrow> pipe_read nonblock env count s = Inr (0, [], s)"
    by (simp add: e l pipe_read_def, subst read_wait.simps) (simp add: l Let_def)
  show "pipe_contents (pip s) = [] \<and> p_writers (pip s) \<noteq> 0 \<longrightarrow> pipe_read True env count s = Inr (- EAGAIN, [], s)"
    by (simp add: e l pipe_read_def, subst read_wait.simps) (simp add: l Let_def)
  show "p_readers (pip s) = 0 \<longrightarrow> pipe_write nonblock env count buf s = Inr (- EPIPE, s\<lparr>cur_sent := cur_sent s @ [SIGPIPE]\<rparr>)"
    by (simp add: pipe_write_def send_sigpipe_def)
  show "p_readers (pip s) \<noteq> 0 \<and> cur_signal s = 0 \<and> 0 < count \<and> count \<le> 512 \<and> pipe_room s < nat count \<longrightarrow>
      pipe_write True env count buf s = Inr (- EAGAIN, s)"
  proof
    assume a: "p_readers (pip s) \<noteq> 0 \<and> cur_signal s = 0 \<and> 0 < count \<and> count \<le> 512 \<and> pipe_room s < nat count"
    then have "pipe_room s < unat (word_of_int count :: u16)"
      by (simp add: unsigned_of_int take_bit_int_eq_self)
    with a write_wait_no_room[OF assms this, of True 0 env] show "pipe_write True env count buf s = Inr (- EAGAIN, s)"
      by (simp add: pipe_write_def write_outer.simps(2) give_up_def)
  qed
qed

text \<open>end of file and broken pipes: a read on an empty pipe without writers returns 0; a
  write without readers puts nothing in, sends the caller \<open>SIGPIPE\<close> and returns \<open>- EPIPE\<close>;
  a non-blocking operation that would have to wait returns \<open>- EAGAIN\<close>; each leaves the pipe as it is.\<close>

theorem pipe_ends:
  assumes "pipe_ok s"
  shows "(pipe_contents (pip s) = [] \<and> p_writers (pip s) = 0 \<longrightarrow> pipe_read nonblock env count s = Inr (0, [], s)) \<and>
    (p_readers (pip s) = 0 \<longrightarrow>
      pipe_write nonblock env count buf s = Inr (- EPIPE, s\<lparr>cur_sent := cur_sent s @ [SIGPIPE]\<rparr>)) \<and>
    (pipe_contents (pip s) = [] \<and> p_writers (pip s) \<noteq> 0 \<longrightarrow> pipe_read True env count s = Inr (- EAGAIN, [], s)) \<and>
    (p_readers (pip s) \<noteq> 0 \<and> cur_signal s = 0 \<and> 0 < count \<and> count \<le> 512 \<and> pipe_room s < nat count \<longrightarrow>
      pipe_write True env count buf s = Inr (- EAGAIN, s))"
  using pipe_end_cases[OF assms] by blast

section \<open>Witnesses\<close>

definition hello_pipe :: pipe_st where
  "hello_pipe = (case pipe_write True [] 5 [104, 101, 108, 108, 111] fresh_pipe of Inr (_, s) \<Rightarrow> s | Inl _ \<Rightarrow> fresh_pipe)"

lemma hello_pipe_ok: "pipe_ok hello_pipe" "pipe_contents (pip hello_pipe) = [104, 101, 108, 108, 111]"
  using pipe_write_fits[of fresh_pipe "[104, 101, 108, 108, 111]" True "[]"]
  by (auto simp: hello_pipe_def pipe_room_def)

theorem pipe_read_exact_witness:
  "\<exists>s'. pipe_read False [] 3 hello_pipe = Inr (3, [104, 101, 108], s') \<and> pipe_ok s' \<and>
     pipe_contents (pip s') = [108, 111] \<and> wakes s' = wakes hello_pipe + 1"
  using pipe_read_exact[of hello_pipe 3 False "[]"] by (simp add: hello_pipe_ok)

text \<open>A writer of four bytes against a full pipe that a reader drains while it sleeps.\<close>

definition full_pipe :: pipe_st where
  "full_pipe = (case pipe_write True [] 512 (replicate 512 7) fresh_pipe of Inr (_, s) \<Rightarrow> s | Inl _ \<Rightarrow> fresh_pipe)"

lemma full_pipe_ok: "pipe_ok full_pipe" "pipe_contents (pip full_pipe) = replicate 512 7"
    "p_readers (pip full_pipe) = 1" "h_in full_pipe = replicate 512 7"
  using pipe_write_fits[of fresh_pipe "replicate 512 7" True "[]"]
  by (auto simp: full_pipe_def pipe_room_def)

lemma reader_env: "env_ok (replicate n (reader 512))"
  using reader_step[of _ 512] by (auto simp: env_ok_def)

theorem pipe_write_atomic_witness:
  "\<exists>r s'. pipe_write False [reader 512] (int (length [1, 2, 3, 4 :: u8])) [1, 2, 3, 4] fresh_pipe = Inr (r, s') \<and>
    (\<exists>m. let s0 = fold (\<lambda>e. e) (take m [reader 512]) fresh_pipe in
      r = int (length [1, 2, 3, 4 :: u8]) \<and> pipe_contents (pip s') = pipe_contents (pip s0) @ [1, 2, 3, 4] \<and>
        h_in s' = h_in s0 @ [1, 2, 3, 4]
    \<or> r \<in> {- EPIPE, - ERESTARTSYS, - EAGAIN} \<and> pip s' = pip s0 \<and> h_in s' = h_in s0)"
proof -
  obtain s' where w: "pipe_write False [reader 512] (int (length [1, 2, 3, 4 :: u8])) [1, 2, 3, 4] fresh_pipe
      = Inr (int (length [1, 2, 3, 4 :: u8]), s')"
    using pipe_write_fits[of fresh_pipe "[1, 2, 3, 4]" False "[reader 512]"] by (auto simp: pipe_room_def)
  have "env_ok [reader 512]" using reader_env[of 1] by simp
  with pipe_write_atomic[OF _ _ _ _ w] w show ?thesis by (intro exI[of _ s'] exI) auto
qed

theorem pipe_write_stream_witness:
  "pipe_write True [] (int (length (replicate 600 (9 :: u8)))) (replicate 600 9) fresh_pipe = Inl Asleep \<or>
    (\<exists>r s'. pipe_write True [] (int (length (replicate 600 (9 :: u8)))) (replicate 600 9) fresh_pipe = Inr (r, s') \<and> pipe_ok s' \<and>
      (if r < 0 then r \<in> {- EPIPE, - ERESTARTSYS, - EAGAIN} \<and> h_in s' = []
       else nat r \<le> 600 \<and> h_in s' = take (nat r) (replicate 600 9)))"
  using pipe_write_stream[of fresh_pipe "[]" "replicate 600 9" True]
  by (simp add: env_ok_def only_writer_def cong: if_cong)

theorem pipe_write_completes_witness:
  "\<exists>s'. pipe_write False (replicate (length (replicate 2000 (9 :: u8))) (reader 512))
        (int (length (replicate 2000 (9 :: u8)))) (replicate 2000 9) fresh_pipe = Inr (2000, s') \<and>
     pipe_ok s' \<and> h_in s' = replicate 2000 9"
  using pipe_write_completes[of fresh_pipe "replicate 2000 9"] by simp

theorem pipe_ends_witness:
  "pipe_room full_pipe = 0 \<and> pipe_write True [] 3 [1, 2, 3] (full_pipe\<lparr>cur_signal := 0\<rparr>) = Inr (- EAGAIN, full_pipe\<lparr>cur_signal := 0\<rparr>)"
  using pipe_ends[of "full_pipe\<lparr>cur_signal := 0\<rparr>" True "[]" 3 "[1, 2, 3]"] full_pipe_ok
  by (simp add: pipe_room_def pipe_ok_def)

end
