(* ===== verification/Links.thy ===== *)
theory Links
  imports Prelude
begin

text \<open>
  Doubly linked lists threaded through an array of structures, as the run queue, the timer
  list, the buffer cache and the inode cache use them. \<open>dseg nxt prv a xs b\<close>: from the
  node \<open>a\<close> the forward pointers run through \<open>xs\<close> to \<open>b\<close> (\<open>None\<close> is NULL), and the
  backward pointers run the other way.
\<close>

primrec dseg :: "(nat \<Rightarrow> nat option) \<Rightarrow> (nat \<Rightarrow> nat option) \<Rightarrow> nat \<Rightarrow> nat list \<Rightarrow> nat option \<Rightarrow> bool" where
  "dseg nxt prv a [] b \<longleftrightarrow> nxt a = b \<and> (case b of None \<Rightarrow> True | Some y \<Rightarrow> prv y = Some a)"
| "dseg nxt prv a (x # xs) b \<longleftrightarrow> nxt a = Some x \<and> prv x = Some a \<and> dseg nxt prv x xs b"

named_theorems dseg_simps \<open>doubly linked segments\<close>

lemma dseg_append [dseg_simps]:
  "dseg nxt prv a (xs @ y # ys) b \<longleftrightarrow> dseg nxt prv a xs (Some y) \<and> dseg nxt prv y ys b"
  by (induction xs arbitrary: a) auto

lemma dseg_last:
  "dseg nxt prv a xs (Some y) \<Longrightarrow> prv y = Some (last (a # xs))"
  by (induction xs arbitrary: a) auto

lemma dseg_next_last:
  "dseg nxt prv a xs b \<Longrightarrow> nxt (last (a # xs)) = b"
  by (induction xs arbitrary: a) auto

lemma dseg_first:
  "dseg nxt prv a xs b \<Longrightarrow> nxt a = (case xs of [] \<Rightarrow> b | x # _ \<Rightarrow> Some x)"
  by (cases xs) auto

text \<open>The segment looks at the forward pointers of \<open>a # xs\<close> and at the backward pointers of
  \<open>xs\<close> and of \<open>b\<close> only.\<close>

lemma dseg_cong:
  assumes "\<And>i. i \<in> set (a # xs) \<Longrightarrow> nxt' i = nxt i"
    and "\<And>i. i \<in> set xs \<or> b = Some i \<Longrightarrow> prv' i = prv i"
  shows "dseg nxt' prv' a xs b = dseg nxt prv a xs b"
  using assms by (induction xs arbitrary: a) (auto split: option.splits)

lemma dseg_upd_next [simp, dseg_simps]:
  "i \<notin> set (a # xs) \<Longrightarrow> dseg (nxt(i := v)) prv a xs b = dseg nxt prv a xs b"
  by (rule dseg_cong) auto

lemma dseg_upd_prev [simp, dseg_simps]:
  "i \<notin> set xs \<Longrightarrow> b \<noteq> Some i \<Longrightarrow> dseg nxt (prv(i := v)) a xs b = dseg nxt prv a xs b"
  by (rule dseg_cong) auto

text \<open>Replacing the end of a segment, its beginning, and the two surgeries built of them.\<close>

lemma dseg_retarget:
  assumes "dseg nxt prv a xs b" and "distinct (a # xs)" and "y \<notin> set xs"
  shows "dseg (nxt(last (a # xs) := Some y)) (prv(y := Some (last (a # xs)))) a xs (Some y)"
  using assms
proof (induction xs arbitrary: a)
  case (Cons x xs)
  then have "last (x # xs) \<noteq> a" by (metis distinct.simps(2) last_in_set list.distinct(1))
  with Cons show ?case by auto
qed auto

lemma dseg_retarget_None:
  assumes "dseg nxt prv a xs b" and "distinct (a # xs)"
  shows "dseg (nxt(last (a # xs) := None)) prv a xs None"
  using assms
proof (induction xs arbitrary: a)
  case (Cons x xs)
  then have "last (x # xs) \<noteq> a" by (metis distinct.simps(2) last_in_set list.distinct(1))
  with Cons show ?case by auto
qed auto

lemma dseg_unlink:
  assumes "dseg nxt prv a (xs @ p # ys) b" and "distinct (a # xs @ p # ys)"
    and "\<And>z. b = Some z \<Longrightarrow> z \<notin> set (xs @ ys)"
  shows "dseg (nxt(last (a # xs) := nxt p)) (case nxt p of None \<Rightarrow> prv | Some z \<Rightarrow> prv(z := Some (last (a # xs)))) a (xs @ ys) b"
proof (cases ys)
  case Nil
  with assms(1) have "nxt p = b" and xs: "dseg nxt prv a xs (Some p)" by (auto simp: dseg_simps)
  with dseg_retarget[OF xs] dseg_retarget_None[OF xs] Nil assms(2,3) show ?thesis
    by (cases b) auto
next
  case (Cons y zs)
  with assms have n: "nxt p = Some y" and xs: "dseg nxt prv a xs (Some p)" and zs: "dseg nxt prv y zs b"
    by (auto simp: dseg_simps)
  have l: "last (a # xs) \<in> set (a # xs)" by simp
  with assms(2) Cons have "last (a # xs) \<notin> set (y # zs)" by fastforce
  moreover have "b \<noteq> Some y" using assms(3) Cons by auto
  ultimately have "dseg (nxt(last (a # xs) := Some y)) (prv(y := Some (last (a # xs)))) y zs b"
    using zs assms(2) Cons by simp
  with dseg_retarget[OF xs, of y] assms(2) Cons n show ?thesis by (auto simp: dseg_append)
qed

lemma dseg_link:
  assumes "dseg nxt prv a (xs @ ys) b" and "distinct (a # xs @ ys)" and "p \<notin> set (a # xs @ ys)" and "b \<noteq> Some p"
    and "\<And>z. b = Some z \<Longrightarrow> z \<notin> set (xs @ ys)"
  defines "n \<equiv> (case ys of [] \<Rightarrow> b | y # _ \<Rightarrow> Some y)"
  shows "dseg (nxt(last (a # xs) := Some p, p := n))
     ((case n of None \<Rightarrow> prv | Some z \<Rightarrow> prv(z := Some p))(p := Some (last (a # xs)))) a (xs @ p # ys) b"
proof -
  have last: "last (a # xs) \<noteq> p" using assms(3) last_in_set[of "a # xs"] by force
  show ?thesis
  proof (cases ys)
    case Nil
    with assms(1) have xs: "dseg nxt prv a xs b" by simp
    have "dseg (nxt(last (a # xs) := Some p)) (prv(p := Some (last (a # xs)))) a xs (Some p)"
      using dseg_retarget[OF xs, of p] assms(2,3) by simp
    then have "dseg (nxt(last (a # xs) := Some p, p := b)) (prv(p := Some (last (a # xs)))) a xs (Some p)"
      using assms(3) by simp
    moreover have "\<And>z. b = Some z \<Longrightarrow> z \<notin> set xs \<and> z \<noteq> p" using assms(4,5) by auto
    moreover have "z \<noteq> p \<Longrightarrow> prv(z := Some p, p := Some (last (a # xs))) = prv(p := Some (last (a # xs)), z := Some p)" for z
      by (rule fun_upd_twist)
    ultimately show ?thesis using Nil last by (cases b) (auto simp: dseg_append n_def)
  next
    case (Cons y zs)
    with assms(1) have xs: "dseg nxt prv a xs (Some y)" and zs: "dseg nxt prv y zs b" by (auto simp: dseg_append)
    have yp: "y \<noteq> p" "y \<notin> set xs" "y \<notin> set zs" "b \<noteq> Some y" using assms Cons by auto
    have ly: "last (a # xs) \<notin> set (y # zs)"
      using assms(2) Cons last_in_set[of "a # xs"] by fastforce
    have "dseg (nxt(last (a # xs) := Some p)) (prv(p := Some (last (a # xs)))) a xs (Some p)"
      using dseg_retarget[OF xs, of p] assms(2,3) by simp
    then have "dseg (nxt(last (a # xs) := Some p, p := Some y)) (prv(y := Some p, p := Some (last (a # xs)))) a xs (Some p)"
      unfolding fun_upd_twist[OF yp(1), of prv] using assms(3) yp by simp
    moreover have "dseg (nxt(last (a # xs) := Some p, p := Some y)) (prv(y := Some p, p := Some (last (a # xs)))) y zs b"
      using zs ly yp assms(3,4) Cons by simp
    ultimately show ?thesis using Cons yp by (auto simp: dseg_append n_def)
  qed
qed

end
