(* ===== verification/Sched.thy ===== *)
theory Sched
  imports Links
begin

text \<open>
  The task table of \<^verbatim>\<open>include/linuxmt/sched.h\<close>, the run queue, the scheduler and the
  timers of \<^verbatim>\<open>kernel/sched.c\<close>, and the wait queues of \<^verbatim>\<open>kernel/sleepwake.c\<close>.
  Pointers to tasks are indices of the table (\<open>None\<close> is NULL), wait queues are their 16-bit
  addresses (0 is NULL). The timers of \<open>schedule\<close> live on the kernel stacks; the one of
  task \<open>i\<close> is number \<open>Suc i\<close> of the timer store and number 0 is the list head
  \<^verbatim>\<open>tl_list\<close>. Only the floppy driver uses other timers, so the function of every timer
  is \<open>process_timeout\<close>. The state is the one of a build without swapping.
\<close>

section \<open>The state\<close>

abbreviation MAX_TASKS :: nat where "MAX_TASKS \<equiv> 15"
abbreviation KSTACK_MAGIC :: u16 where "KSTACK_MAGIC \<equiv> 0x5476"

datatype task_state = TASK_RUNNING | TASK_INTERRUPTIBLE | TASK_UNINTERRUPTIBLE | TASK_ZOMBIE
  | TASK_STOPPED | TASK_SWAPPING | TASK_UNUSED | TASK_WAITING | TASK_EXITING

datatype sighandler = SIG_DFL | SIG_IGN | Handler u16

record task_struct =
  state :: task_state
  pid :: int
  ppid :: int
  pgrp :: int
  session :: int
  uid :: u16
  euid :: u16
  suid :: u16
  gid :: u16
  egid :: u16
  sgid :: u16
  groups :: "nat \<Rightarrow> u16"
  umask :: u16
  dumpable :: bool
  tty :: "nat option"
  timeout :: u32
  waitpt :: u16
  pollhash :: u16
  next_run :: "nat option"
  prev_run :: "nat option"
  mm_cseg :: u16
  mm_dseg :: u16
  p_parent :: "nat option"
  p_prevsib :: "nat option"
  p_nextsib :: "nat option"
  p_child :: "nat option"
  child_wait :: u16
  child_lastend :: int
  lastend_status :: int
  t_inode :: nat
  root_i :: nat
  pwd_i :: nat
  fds :: "nat \<Rightarrow> nat option"
  close_on_exec :: "nat \<Rightarrow> u8"
  t_ds :: u16
  t_endseg :: u16
  signal :: u16
  action :: "nat \<Rightarrow> sighandler"
  t_kstackm :: u16

record timer_list =
  tl_next :: "nat option"
  tl_prev :: "nat option"
  tl_expires :: u32
  tl_data :: nat

record ksys =
  task :: "nat \<Rightarrow> task_struct"
  current :: nat
  previous :: nat
  nr_running :: u8
  jiffies :: u32
  tl :: "nat \<Rightarrow> timer_list"
  can_tswitch :: bool
  lastirq :: int
  select_poll :: u16

definition upd :: "nat \<Rightarrow> (task_struct \<Rightarrow> task_struct) \<Rightarrow> ksys \<Rightarrow> ksys" where
  "upd i f s = s\<lparr>task := (task s)(i := f (task s i))\<rparr>"

definition updt :: "nat \<Rightarrow> (timer_list \<Rightarrow> timer_list) \<Rightarrow> ksys \<Rightarrow> ksys" where
  "updt i f s = s\<lparr>tl := (tl s)(i := f (tl s i))\<rparr>"

section \<open>The run queue\<close>

definition add_to_runqueue :: "nat \<Rightarrow> ksys \<Rightarrow> ksys kres" where
  "add_to_runqueue p s =
    (let s = s\<lparr>nr_running := nr_running s + 1\<rparr>;
         s = upd p (\<lambda>t. t\<lparr>prev_run := prev_run (task s 0)\<rparr>) s
     in bindr (deref (prev_run (task s p))) (\<lambda>l.
       let s = upd l (\<lambda>t. t\<lparr>next_run := Some p\<rparr>) s;
           s = upd p (\<lambda>t. t\<lparr>next_run := Some 0\<rparr>) s
       in Inr (upd 0 (\<lambda>t. t\<lparr>prev_run := Some p\<rparr>) s)))"

definition del_from_runqueue :: "nat \<Rightarrow> ksys \<Rightarrow> ksys kres" where
  "del_from_runqueue p s =
    (if p = 0 then Inr s
     else let s = s\<lparr>nr_running := nr_running s - 1\<rparr>
     in bindr (deref (next_run (task s p))) (\<lambda>n.
        let s = upd n (\<lambda>t. t\<lparr>prev_run := prev_run (task s p)\<rparr>) s
        in bindr (deref (prev_run (task s p))) (\<lambda>l.
           let s = upd l (\<lambda>t. t\<lparr>next_run := next_run (task s p)\<rparr>) s
           in Inr (upd p (\<lambda>t. t\<lparr>next_run := None, prev_run := None\<rparr>) s))))"

definition wake_up_process :: "nat \<Rightarrow> ksys \<Rightarrow> ksys kres" where
  "wake_up_process p s =
    (let s = upd p (\<lambda>t. t\<lparr>state := TASK_RUNNING\<rparr>) s
     in if next_run (task s p) = None then add_to_runqueue p s else Inr s)"

definition process_timeout :: "nat \<Rightarrow> ksys \<Rightarrow> ksys kres" where
  "process_timeout p s = wake_up_process p (upd p (\<lambda>t. t\<lparr>timeout := 0\<rparr>) s)"

section \<open>Timers\<close>

definition init_timer :: "nat \<Rightarrow> ksys \<Rightarrow> ksys" where
  "init_timer t s = updt t (\<lambda>x. x\<lparr>tl_next := None, tl_prev := None\<rparr>) s"

definition detach_timer :: "nat \<Rightarrow> ksys \<Rightarrow> bool \<times> ksys" where
  "detach_timer t s =
    (let n = tl_next (tl s t); p = tl_prev (tl s t);
         s = (case n of None \<Rightarrow> s | Some i \<Rightarrow> updt i (\<lambda>x. x\<lparr>tl_prev := p\<rparr>) s)
     in case p of None \<Rightarrow> (False, s) | Some i \<Rightarrow> (True, updt i (\<lambda>x. x\<lparr>tl_next := n\<rparr>) s))"

definition del_timer :: "nat \<Rightarrow> ksys \<Rightarrow> bool \<times> ksys" where
  "del_timer t s =
    (case detach_timer t s of (ret, s) \<Rightarrow> (ret, updt t (\<lambda>x. x\<lparr>tl_next := None, tl_prev := None\<rparr>) s))"

text \<open>The search of \<open>add_timer\<close>; the first argument bounds the steps.\<close>

primrec add_timer_loop :: "nat \<Rightarrow> nat \<Rightarrow> nat \<Rightarrow> nat option \<Rightarrow> ksys \<Rightarrow> ksys kres" where
  "add_timer_loop 0 t prev nxt s = Inl Stuck"
| "add_timer_loop (Suc k) t prev nxt s =
    (case nxt of
       None \<Rightarrow> Inr (updt prev (\<lambda>x. x\<lparr>tl_next := Some t\<rparr>) (updt t (\<lambda>x. x\<lparr>tl_prev := Some prev\<rparr>) s))
     | Some n \<Rightarrow>
         if tl_expires (tl s n) > tl_expires (tl s t) then
           let s = updt t (\<lambda>x. x\<lparr>tl_prev := tl_prev (tl s n)\<rparr>) s;
               s = updt t (\<lambda>x. x\<lparr>tl_next := Some n\<rparr>) s
           in bindr (deref (tl_prev (tl s t))) (\<lambda>p.
                let s = updt p (\<lambda>x. x\<lparr>tl_next := Some t\<rparr>) s
                in Inr (updt n (\<lambda>x. x\<lparr>tl_prev := Some t\<rparr>) s))
         else add_timer_loop k t n (tl_next (tl s n)) s)"

definition add_timer :: "nat \<Rightarrow> ksys \<Rightarrow> ksys kres" where
  "add_timer t s = add_timer_loop (Suc MAX_TASKS) t 0 (tl_next (tl s 0)) s"

primrec run_timer_loop :: "nat \<Rightarrow> nat option \<Rightarrow> ksys \<Rightarrow> ksys kres" where
  "run_timer_loop 0 t s = Inl Stuck"
| "run_timer_loop (Suc k) t s =
    (case t of None \<Rightarrow> Inr s
     | Some i \<Rightarrow>
         if tl_expires (tl s i) < jiffies s then
           let data = tl_data (tl s i);
               s = snd (detach_timer i s);
               s = updt i (\<lambda>x. x\<lparr>tl_next := None, tl_prev := None\<rparr>) s
           in bindr (process_timeout data s) (\<lambda>s. run_timer_loop k (tl_next (tl s i)) s)
         else Inr s)"

definition run_timer_list :: "ksys \<Rightarrow> ksys kres" where
  "run_timer_list s = run_timer_loop 2 (tl_next (tl s 0)) s"

definition do_timer :: "ksys \<Rightarrow> ksys" where
  "do_timer s = s\<lparr>jiffies := jiffies s + 1\<rparr>"

section \<open>The scheduler\<close>

text \<open>The part of \<open>schedule\<close> between entry and the context switch. \<open>Returned\<close>: the
  caller goes on at once; \<open>Switched b\<close>: \<open>current\<close> is another task now, and \<open>b\<close> says
  whether the caller left a timer to be deleted when it runs again.\<close>

datatype sched_out = Returned | Switched bool

text \<open>The \<open>switch\<close> on the state of the task that gives up the processor, with the
  timeout it computes.\<close>

definition leave_cpu :: "ksys \<Rightarrow> (u32 \<times> ksys) kres" where
  "leave_cpu s =
    (let prev = current s; p = task s prev in
     if state p = TASK_RUNNING then Inr (0, s)
     else if state p = TASK_INTERRUPTIBLE then
       if signal p \<noteq> 0 then Inr (0, upd prev (\<lambda>t. t\<lparr>state := TASK_RUNNING\<rparr>) s)
       else if timeout p \<noteq> 0 \<and> timeout p \<le> jiffies s
         then Inr (0, upd prev (\<lambda>t. t\<lparr>timeout := 0, state := TASK_RUNNING\<rparr>) s)
       else bindr (del_from_runqueue prev s) (\<lambda>s. Inr (timeout p, s))
     else bindr (del_from_runqueue prev s) (\<lambda>s. Inr (0, s)))"

text \<open>\<open>while (next == &init_task && nr_running > 0) next = next->next_run\<close>\<close>

primrec skip_idle :: "nat \<Rightarrow> nat \<Rightarrow> ksys \<Rightarrow> nat kres" where
  "skip_idle 0 nxt s = Inl Stuck"
| "skip_idle (Suc k) nxt s =
    (if nxt = 0 \<and> nr_running s > 0
     then bindr (deref (next_run (task s nxt))) (\<lambda>n. skip_idle k n s) else Inr nxt)"

definition schedule :: "ksys \<Rightarrow> (sched_out \<times> ksys) kres" where
  "schedule s =
    (let prev = current s in
     if t_kstackm (task s prev) \<noteq> KSTACK_MAGIC then Inl (Panic ''exceeded kernel stack limit'')
     else if state (task s prev) = TASK_EXITING then Inr (Returned, s)
     else
     bindr (deref (next_run (task s prev))) (\<lambda>nxt.
     bindr (run_timer_list s) (\<lambda>s.
     bindr (leave_cpu s) (\<lambda>(tmo, s).
     bindr (skip_idle 2 nxt s) (\<lambda>nxt.
       if nxt \<noteq> prev then
         bindr (if tmo \<noteq> 0 then
                  let s = init_timer (Suc prev) s;
                      s = updt (Suc prev) (\<lambda>x. x\<lparr>tl_expires := tmo, tl_data := prev\<rparr>) s
                  in add_timer (Suc prev) s
                else Inr s) (\<lambda>s.
         if \<not> can_tswitch s \<and> lastirq s \<noteq> - 1 then Inr (Returned, s)
         else Inr (Switched (tmo \<noteq> 0), s\<lparr>previous := current s, current := nxt\<rparr>))
       else Inr (Returned, s))))))"

section \<open>Sleeping and waking\<close>

definition wait_set :: "u16 \<Rightarrow> ksys \<Rightarrow> ksys kres" where
  "wait_set q s =
    (if waitpt (task s (current s)) \<noteq> 0 then Inl (Panic ''double wait'')
     else Inr (upd (current s) (\<lambda>t. t\<lparr>waitpt := q\<rparr>) s))"

definition wait_clear :: "u16 \<Rightarrow> ksys \<Rightarrow> ksys kres" where
  "wait_clear q s =
    (if waitpt (task s (current s)) \<noteq> q then Inl (Panic ''wrong waitpt'')
     else Inr (upd (current s) (\<lambda>t. t\<lparr>waitpt := 0\<rparr>) s))"

text \<open>\<open>back\<close> is what happens from the context switch until the caller runs again.\<close>

definition sleep_on_state :: "(ksys \<Rightarrow> ksys kres) \<Rightarrow> u16 \<Rightarrow> task_state \<Rightarrow> ksys \<Rightarrow> ksys kres" where
  "sleep_on_state back q st s =
    (if current s = 0 then Inl (Panic ''task[0] trying to sleep'')
     else bindr (wait_set q (upd (current s) (\<lambda>t. t\<lparr>state := st\<rparr>) s)) (\<lambda>s.
          bindr (schedule s) (\<lambda>(out, s).
          bindr (case out of Returned \<Rightarrow> Inr s | Switched _ \<Rightarrow> back s) (wait_clear q))))"

definition sleep_on :: "(ksys \<Rightarrow> ksys kres) \<Rightarrow> u16 \<Rightarrow> ksys \<Rightarrow> ksys kres" where
  "sleep_on back q s = sleep_on_state back q TASK_UNINTERRUPTIBLE s"

definition interruptible_sleep_on :: "(ksys \<Rightarrow> ksys kres) \<Rightarrow> u16 \<Rightarrow> ksys \<Rightarrow> ksys kres" where
  "interruptible_sleep_on back q s = sleep_on_state back q TASK_INTERRUPTIBLE s"

definition phash :: "u16 \<Rightarrow> u16" where
  "phash q = push_bit (unat (drop_bit 8 q AND 0x0F)) 1"

definition wakes_task :: "u16 \<Rightarrow> bool \<Rightarrow> nat \<Rightarrow> ksys \<Rightarrow> bool" where
  "wakes_task q it p s \<longleftrightarrow>
    (waitpt (task s p) = q \<or> waitpt (task s p) = select_poll s \<and> pollhash (task s p) AND phash q \<noteq> 0) \<and>
    (state (task s p) = TASK_INTERRUPTIBLE \<or> it \<and> state (task s p) = TASK_UNINTERRUPTIBLE)"

primrec wake_up_from :: "nat list \<Rightarrow> u16 \<Rightarrow> bool \<Rightarrow> ksys \<Rightarrow> ksys kres" where
  "wake_up_from [] q it s = Inr s"
| "wake_up_from (p # ps) q it s =
    bindr (if wakes_task q it p s then wake_up_process p s else Inr s) (wake_up_from ps q it)"

definition wake_up_queue :: "u16 \<Rightarrow> bool \<Rightarrow> ksys \<Rightarrow> ksys kres" where
  "wake_up_queue q it s = wake_up_from [0..<MAX_TASKS] q it s"

text \<open>Semaphores: the value is the 16-bit \<^verbatim>\<open>short\<close> at the address \<open>q\<close>. For each sleep of
  \<open>down\<close>, \<open>env\<close> has what happens until the caller runs again and the value it then finds.\<close>

definition up :: "u16 \<Rightarrow> u16 \<Rightarrow> ksys \<Rightarrow> (u16 \<times> ksys) kres" where
  "up q v s = (if v + 1 = 0 then bindr (wake_up_queue q True s) (\<lambda>s. Inr (v + 1, s)) else Inr (v + 1, s))"

fun down :: "u16 \<Rightarrow> (u16 \<times> (ksys \<Rightarrow> ksys kres)) list \<Rightarrow> u16 \<Rightarrow> ksys \<Rightarrow> (u16 \<times> ksys) kres" where
  "down q env v s =
    (if sint v < 0 then (case env of [] \<Rightarrow> Inl Asleep
       | (w, back) # es \<Rightarrow> bindr (sleep_on back q s) (down q es w))
     else Inr (v - 1, s))"

declare down.simps [simp del]

section \<open>The run queue is a ring through the idle task\<close>

definition runqueue :: "ksys \<Rightarrow> nat list \<Rightarrow> bool" where
  "runqueue s xs \<longleftrightarrow>
    dseg (\<lambda>i. next_run (task s i)) (\<lambda>i. prev_run (task s i)) 0 xs (Some 0) \<and> distinct (0 # xs) \<and>
    (\<forall>i. i \<notin> set (0 # xs) \<longrightarrow> next_run (task s i) = None) \<and> set xs \<subseteq> {1..<MAX_TASKS} \<and>
    nr_running s = of_nat (length xs)"

lemma upd_simps [simp]:
  "current (upd i f s) = current s" "tl (upd i f s) = tl s" "jiffies (upd i f s) = jiffies s"
  "nr_running (upd i f s) = nr_running s" "can_tswitch (upd i f s) = can_tswitch s"
  "lastirq (upd i f s) = lastirq s" "select_poll (upd i f s) = select_poll s"
  "task (upd i f s) j = (if j = i then f (task s i) else task s j)"
  "previous (upd i f s) = previous s"
  by (simp_all add: upd_def)

lemma updt_simps [simp]:
  "current (updt i g s) = current s" "task (updt i g s) = task s" "jiffies (updt i g s) = jiffies s"
  "nr_running (updt i g s) = nr_running s" "can_tswitch (updt i g s) = can_tswitch s"
  "lastirq (updt i g s) = lastirq s" "select_poll (updt i g s) = select_poll s"
  "tl (updt i g s) j = (if j = i then g (tl s i) else tl s j)"
  "previous (updt i g s) = previous s"
  by (simp_all add: updt_def)

text \<open>What the queue operations leave alone in a task.\<close>

definition but_links :: "task_struct \<Rightarrow> task_struct" where
  "but_links t = t\<lparr>next_run := None, prev_run := None\<rparr>"

definition same_but_links :: "ksys \<Rightarrow> ksys \<Rightarrow> bool" where
  "same_but_links s s' \<longleftrightarrow> (\<forall>i. but_links (task s' i) = but_links (task s i)) \<and> current s' = current s \<and>
     tl s' = tl s \<and> jiffies s' = jiffies s \<and> can_tswitch s' = can_tswitch s \<and> lastirq s' = lastirq s \<and>
     select_poll s' = select_poll s"

lemma runqueueD:
  assumes "runqueue s xs"
  shows "dseg (\<lambda>i. next_run (task s i)) (\<lambda>i. prev_run (task s i)) 0 xs (Some 0)" "distinct (0 # xs)"
    "i \<notin> set (0 # xs) \<Longrightarrow> next_run (task s i) = None" "prev_run (task s 0) = Some (last (0 # xs))"
    "set xs \<subseteq> {1..<MAX_TASKS}" "length xs < MAX_TASKS"
proof -
  show d: "dseg (\<lambda>i. next_run (task s i)) (\<lambda>i. prev_run (task s i)) 0 xs (Some 0)" "distinct (0 # xs)"
    "i \<notin> set (0 # xs) \<Longrightarrow> next_run (task s i) = None" "set xs \<subseteq> {1..<MAX_TASKS}"
    using assms by (auto simp: runqueue_def)
  from dseg_last[OF d(1)] show "prev_run (task s 0) = Some (last (0 # xs))" .
  have "card (set xs) \<le> card {1..<MAX_TASKS}" using d(4) by (intro card_mono) auto
  with d(2) show "length xs < MAX_TASKS" by (simp add: distinct_card)
qed

lemma runqueueI:
  assumes "dseg n p 0 xs (Some 0)" and "(\<lambda>i. next_run (task s i)) = n" and "(\<lambda>i. prev_run (task s i)) = p"
    and "distinct (0 # xs)" and "\<And>i. i \<notin> set (0 # xs) \<Longrightarrow> n i = None" and "set xs \<subseteq> {1..<MAX_TASKS}"
    and "nr_running s = of_nat (length xs)"
  shows "runqueue s xs"
  using assms by (auto simp: runqueue_def fun_eq_iff)

lemma add_to_runqueue_ring:
  assumes "runqueue s xs" and "p \<notin> set (0 # xs)" and "p < MAX_TASKS"
  shows "\<exists>s'. add_to_runqueue p s = Inr s' \<and> runqueue s' (xs @ [p]) \<and> same_but_links s s'"
proof -
  note d = runqueueD[OF assms(1)]
  define l where "l = last (0 # xs)"
  have l: "l \<in> set (0 # xs)" "l \<noteq> p" using last_in_set[of "0 # xs"] assms(2) by (auto simp: l_def split: if_splits)
  have p0: "p \<noteq> 0" using assms(2) by simp
  let ?s = "upd 0 (\<lambda>t. t\<lparr>prev_run := Some p\<rparr>) (upd p (\<lambda>t. t\<lparr>next_run := Some 0\<rparr>)
     (upd l (\<lambda>t. t\<lparr>next_run := Some p\<rparr>) (upd p (\<lambda>t. t\<lparr>prev_run := Some l\<rparr>)
       (s\<lparr>nr_running := nr_running s + 1\<rparr>))))"
  have ev: "add_to_runqueue p s = Inr ?s"
    using d(4) p0 by (simp add: add_to_runqueue_def Let_def l_def)
  have "dseg ((\<lambda>i. next_run (task s i))(l := Some p, p := Some 0))
      ((\<lambda>i. prev_run (task s i))(0 := Some p, p := Some l)) 0 (xs @ [p]) (Some 0)"
    using dseg_link[of "\<lambda>i. next_run (task s i)" "\<lambda>i. prev_run (task s i)" 0 xs "[]" "Some 0" p] d assms(2)
    by (simp add: l_def)
  moreover have "(\<lambda>i. next_run (task ?s i)) = (\<lambda>i. next_run (task s i))(l := Some p, p := Some 0)"
    "(\<lambda>i. prev_run (task ?s i)) = (\<lambda>i. prev_run (task s i))(0 := Some p, p := Some l)"
    using l(2) p0 by (auto simp: fun_eq_iff)
  ultimately have "runqueue ?s (xs @ [p])"
    by (rule runqueueI) (use d(2,3,5) l assms p0 in \<open>auto simp: runqueue_def\<close>)
  moreover have "same_but_links s ?s" by (auto simp: same_but_links_def but_links_def)
  ultimately show ?thesis using ev by blast
qed

lemma del_from_runqueue_ring:
  assumes "runqueue s (ys @ p # zs)"
  shows "\<exists>s'. del_from_runqueue p s = Inr s' \<and> runqueue s' (ys @ zs) \<and> same_but_links s s' \<and>
    next_run (task s' p) = None"
proof -
  note d = runqueueD[OF assms]
  let ?n = "\<lambda>i. next_run (task s i)" and ?p = "\<lambda>i. prev_run (task s i)"
  from d(1) have y: "dseg ?n ?p 0 ys (Some p)" and z: "dseg ?n ?p p zs (Some 0)" by (auto simp: dseg_append)
  define l where "l = last (0 # ys)"
  define n where "n = (case zs of [] \<Rightarrow> 0 | z # _ \<Rightarrow> z)"
  have pl: "prev_run (task s p) = Some l" using dseg_last[OF y] by (simp add: l_def)
  have pn: "next_run (task s p) = Some n" using dseg_first[OF z] by (simp add: n_def split: list.splits)
  have l: "l \<in> set (0 # ys)" using last_in_set[of "0 # ys"] by (simp add: l_def)
  have ne: "l \<noteq> p" "n \<noteq> p" "p \<noteq> 0" using l d(2) by (auto simp: n_def split: list.splits)
  let ?s = "upd p (\<lambda>t. t\<lparr>next_run := None, prev_run := None\<rparr>) (upd l (\<lambda>t. t\<lparr>next_run := Some n\<rparr>)
     (upd n (\<lambda>t. t\<lparr>prev_run := Some l\<rparr>) (s\<lparr>nr_running := nr_running s - 1\<rparr>)))"
  have ev: "del_from_runqueue p s = Inr ?s"
    using pl pn ne by (simp add: del_from_runqueue_def Let_def)
  have "dseg (?n(l := Some n)) (?p(n := Some l)) 0 (ys @ zs) (Some 0)"
    using dseg_unlink[of ?n ?p 0 ys p zs "Some 0"] d pn by (simp add: l_def)
  then have "dseg (?n(l := Some n, p := None)) (?p(n := Some l, p := None)) 0 (ys @ zs) (Some 0)"
    using ne d(2) by simp
  moreover have "(\<lambda>i. next_run (task ?s i)) = ?n(l := Some n, p := None)"
    "(\<lambda>i. prev_run (task ?s i)) = ?p(n := Some l, p := None)"
    using ne by (auto simp: fun_eq_iff)
  ultimately have "runqueue ?s (ys @ zs)"
    by (rule runqueueI) (use assms l in \<open>auto simp: runqueue_def\<close>)
  moreover have "same_but_links s ?s" by (auto simp: same_but_links_def but_links_def)
  ultimately show ?thesis using ev by fastforce
qed

section \<open>Waking\<close>

text \<open>A step that changes tasks as \<open>f\<close> says, apart from the queue links, and nothing else.\<close>

definition tasks_map :: "(nat \<Rightarrow> task_struct \<Rightarrow> task_struct) \<Rightarrow> ksys \<Rightarrow> ksys \<Rightarrow> bool" where
  "tasks_map f s s' \<longleftrightarrow> (\<forall>i. but_links (task s' i) = but_links (f i (task s i))) \<and> current s' = current s \<and>
     tl s' = tl s \<and> jiffies s' = jiffies s \<and> can_tswitch s' = can_tswitch s \<and> lastirq s' = lastirq s \<and>
     select_poll s' = select_poll s"

definition enqueue :: "nat \<Rightarrow> nat list \<Rightarrow> nat list" where
  "enqueue p xs = (if p \<in> set (0 # xs) then xs else xs @ [p])"

lemma but_links_eqD:
  assumes "but_links t = but_links u"
  shows "state t = state u" "waitpt t = waitpt u" "pollhash t = pollhash u" "timeout t = timeout u"
    "signal t = signal u" "t_kstackm t = t_kstackm u"
proof -
  have "state (but_links t) = state (but_links u)" "waitpt (but_links t) = waitpt (but_links u)"
    "pollhash (but_links t) = pollhash (but_links u)" "timeout (but_links t) = timeout (but_links u)"
    "signal (but_links t) = signal (but_links u)" "t_kstackm (but_links t) = t_kstackm (but_links u)"
    using assms by simp_all
  then show "state t = state u" "waitpt t = waitpt u" "pollhash t = pollhash u" "timeout t = timeout u"
    "signal t = signal u" "t_kstackm t = t_kstackm u"
    by (simp_all add: but_links_def)
qed

lemma runqueue_next:
  assumes "runqueue s xs" and "p \<in> set (0 # xs)"
  shows "next_run (task s p) \<noteq> None"
proof (cases "p = 0")
  case True
  then show ?thesis using dseg_first[OF runqueueD(1)[OF assms(1)]] by (auto split: list.splits)
next
  case False
  then obtain ys zs where "xs = ys @ p # zs" using assms(2) by (auto dest: split_list)
  then have "dseg (\<lambda>i. next_run (task s i)) (\<lambda>i. prev_run (task s i)) p zs (Some 0)"
    using runqueueD(1)[OF assms(1)] by (simp add: dseg_append)
  from dseg_first[OF this] show ?thesis by (auto split: list.splits)
qed

text \<open>The queue does not depend on the other fields of the tasks.\<close>

lemma runqueue_upd:
  assumes "\<And>t. next_run (f t) = next_run t \<and> prev_run (f t) = prev_run t"
  shows "runqueue (upd p f s) xs = runqueue s xs"
proof -
  have "(\<lambda>i. next_run (task (upd p f s) i)) = (\<lambda>i. next_run (task s i))"
    "(\<lambda>i. prev_run (task (upd p f s) i)) = (\<lambda>i. prev_run (task s i))"
    using assms by (auto simp: fun_eq_iff)
  moreover have "next_run (task (upd p f s) i) = next_run (task s i)" for i using assms by simp
  ultimately show ?thesis unfolding runqueue_def by (simp only: upd_simps(4))
qed

lemma wake_up_process_ring:
  assumes "runqueue s xs" and "p < MAX_TASKS"
  shows "\<exists>s'. wake_up_process p s = Inr s' \<and> runqueue s' (enqueue p xs) \<and>
    tasks_map (\<lambda>i t. if i = p then t\<lparr>state := TASK_RUNNING\<rparr> else t) s s'"
proof -
  let ?s = "upd p (\<lambda>t. t\<lparr>state := TASK_RUNNING\<rparr>) s"
  have q: "runqueue ?s xs" using assms(1) by (simp add: runqueue_upd)
  show ?thesis
  proof (cases "p \<in> set (0 # xs)")
    case True
    then have "wake_up_process p s = Inr ?s"
      using runqueue_next[OF assms(1) True] by (auto simp: wake_up_process_def Let_def)
    with q True show ?thesis by (auto simp: enqueue_def tasks_map_def)
  next
    case False
    then have w: "wake_up_process p s = add_to_runqueue p ?s"
      using runqueueD(3)[OF assms(1) False] by (simp add: wake_up_process_def Let_def)
    from add_to_runqueue_ring[OF q False assms(2)] obtain s' where
      "add_to_runqueue p ?s = Inr s'" "runqueue s' (xs @ [p])" "same_but_links ?s s'" by blast
    with w False show ?thesis by (auto simp: enqueue_def tasks_map_def same_but_links_def)
  qed
qed

lemma tasks_map_trans:
  assumes "tasks_map f s s1" and "tasks_map g s1 s2"
    and "\<And>i t. but_links t = but_links (f i (task s i)) \<Longrightarrow> but_links (g i t) = but_links (h i (task s i))"
  shows "tasks_map h s s2"
  using assms(1,2) assms(3)[of "task s1 i" i for i] by (simp add: tasks_map_def)

definition woken :: "u16 \<Rightarrow> bool \<Rightarrow> ksys \<Rightarrow> nat list \<Rightarrow> nat \<Rightarrow> task_struct \<Rightarrow> task_struct" where
  "woken q it s ps i t = (if i \<in> set ps \<and> wakes_task q it i s then t\<lparr>state := TASK_RUNNING\<rparr> else t)"

lemma wakes_task_cong:
  assumes "but_links (task s' p) = but_links (task s p)" and "select_poll s' = select_poll s"
  shows "wakes_task q it p s' = wakes_task q it p s"
  using but_links_eqD[OF assms(1)] assms(2) by (simp add: wakes_task_def)

lemma but_links_state: "but_links (t\<lparr>state := x\<rparr>) = (but_links t)\<lparr>state := x\<rparr>"
  by (simp add: but_links_def)

lemma but_links_woken: "but_links t = but_links u \<Longrightarrow> but_links (t\<lparr>state := x\<rparr>) = but_links (u\<lparr>state := x\<rparr>)"
  by (simp add: but_links_state)

lemma wake_up_from_ring:
  assumes "runqueue s xs" and "distinct ps" and "set ps \<subseteq> {..<MAX_TASKS}"
  shows "\<exists>s'. wake_up_from ps q it s = Inr s' \<and>
    runqueue s' (fold enqueue (filter (\<lambda>p. wakes_task q it p s) ps) xs) \<and> tasks_map (woken q it s ps) s s'"
  using assms
proof (induction ps arbitrary: s xs)
  case Nil
  then show ?case by (simp add: tasks_map_def woken_def)
next
  case (Cons p ps)
  obtain s1 where s1: "(if wakes_task q it p s then wake_up_process p s else Inr s) = Inr s1"
      "runqueue s1 (if wakes_task q it p s then enqueue p xs else xs)"
      "tasks_map (\<lambda>i t. if i = p \<and> wakes_task q it p s then t\<lparr>state := TASK_RUNNING\<rparr> else t) s s1"
  proof (cases "wakes_task q it p s")
    case True
    then show thesis using wake_up_process_ring[OF Cons.prems(1), of p] Cons.prems(3) that by auto
  next
    case False
    then show thesis using that[of s] Cons.prems(1) by (simp add: tasks_map_def)
  qed
  from s1(3) Cons.prems(2) have w: "wakes_task q it i s1 = wakes_task q it i s" if "i \<in> set ps" for i
    using that by (intro wakes_task_cong) (auto simp: tasks_map_def)
  from w have f: "filter (\<lambda>p. wakes_task q it p s1) ps = filter (\<lambda>p. wakes_task q it p s) ps"
    by (auto intro: filter_cong)
  from Cons.IH[OF s1(2)] Cons.prems obtain s' where s': "wake_up_from ps q it s1 = Inr s'"
      "runqueue s' (fold enqueue (filter (\<lambda>p. wakes_task q it p s1) ps) (if wakes_task q it p s then enqueue p xs else xs))"
      "tasks_map (woken q it s1 ps) s1 s'" by auto
  have "tasks_map (woken q it s (p # ps)) s s'"
  proof (rule tasks_map_trans[OF s1(3) s'(3)])
    fix i t
    assume t: "but_links t = but_links (if i = p \<and> wakes_task q it p s then (task s i)\<lparr>state := TASK_RUNNING\<rparr> else task s i)"
    show "but_links (woken q it s1 ps i t) = but_links (woken q it s (p # ps) i (task s i))"
    proof (cases "i = p")
      case True
      with t Cons.prems(2) show ?thesis by (auto simp: woken_def)
    next
      case False
      with t w[of i] show ?thesis by (auto simp: woken_def intro!: but_links_woken)
    qed
  qed
  moreover have "wake_up_from (p # ps) q it s = Inr s'" using s1(1) s'(1) by simp
  moreover have "runqueue s' (fold enqueue (filter (\<lambda>p. wakes_task q it p s) (p # ps)) xs)"
    using s'(2) unfolding f by (cases "wakes_task q it p s") simp_all
  ultimately show ?case by blast
qed

section \<open>The timer list is sorted\<close>

definition timerlist :: "ksys \<Rightarrow> nat list \<Rightarrow> bool" where
  "timerlist s ts \<longleftrightarrow>
    dseg (\<lambda>i. tl_next (tl s i)) (\<lambda>i. tl_prev (tl s i)) 0 ts None \<and> distinct (0 # ts) \<and>
    sorted (map (\<lambda>i. tl_expires (tl s i)) ts) \<and> set ts \<subseteq> {1..MAX_TASKS} \<and>
    (\<forall>i. i \<notin> set (0 # ts) \<longrightarrow> tl_next (tl s i) = None \<and> tl_prev (tl s i) = None)"

lemma timerlistI:
  assumes "dseg n p 0 ts None" and "(\<lambda>i. tl_next (tl s i)) = n" and "(\<lambda>i. tl_prev (tl s i)) = p"
    and "distinct (0 # ts)" and "sorted (map (\<lambda>i. tl_expires (tl s i)) ts)" and "set ts \<subseteq> {1..MAX_TASKS}"
    and "\<And>i. i \<notin> set (0 # ts) \<Longrightarrow> n i = None \<and> p i = None"
  shows "timerlist s ts"
  using assms by (auto simp: timerlist_def fun_eq_iff)

lemma timerlistD:
  assumes "timerlist s ts"
  shows "dseg (\<lambda>i. tl_next (tl s i)) (\<lambda>i. tl_prev (tl s i)) 0 ts None" "distinct (0 # ts)"
    "sorted (map (\<lambda>i. tl_expires (tl s i)) ts)" "set ts \<subseteq> {1..MAX_TASKS}"
    "i \<notin> set (0 # ts) \<Longrightarrow> tl_next (tl s i) = None" "i \<notin> set (0 # ts) \<Longrightarrow> tl_prev (tl s i) = None"
    "length ts \<le> MAX_TASKS"
proof -
  show d: "dseg (\<lambda>i. tl_next (tl s i)) (\<lambda>i. tl_prev (tl s i)) 0 ts None" "distinct (0 # ts)"
    "sorted (map (\<lambda>i. tl_expires (tl s i)) ts)" "set ts \<subseteq> {1..MAX_TASKS}"
    "i \<notin> set (0 # ts) \<Longrightarrow> tl_next (tl s i) = None" "i \<notin> set (0 # ts) \<Longrightarrow> tl_prev (tl s i) = None"
    using assms by (auto simp: timerlist_def)
  have "card (set ts) \<le> card {1..MAX_TASKS}" using d(4) by (intro card_mono) auto
  with d(2) show "length ts \<le> MAX_TASKS" by (simp add: distinct_card)
qed

lemma timerlist_cong: "tl s' = tl s \<Longrightarrow> timerlist s' ts = timerlist s ts"
  by (simp add: timerlist_def)

text \<open>The place a timer goes to: behind those that expire no later.\<close>

definition timer_insert :: "(nat \<Rightarrow> u32) \<Rightarrow> nat \<Rightarrow> nat list \<Rightarrow> nat list" where
  "timer_insert e t ts = takeWhile (\<lambda>i. e i \<le> e t) ts @ t # dropWhile (\<lambda>i. e i \<le> e t) ts"

lemma sorted_timer_insert:
  assumes "sorted (map e ts)"
  shows "sorted (map e (timer_insert e t ts))"
proof -
  let ?a = "takeWhile (\<lambda>i. e i \<le> e t) ts" and ?b = "dropWhile (\<lambda>i. e i \<le> e t) ts"
  have b: "\<forall>x\<in>set ?b. e t \<le> e x"
    using assms
  proof (induction ts)
    case (Cons a ts)
    show ?case
    proof (cases "e a \<le> e t")
      case True
      with Cons show ?thesis by simp
    next
      case False
      then have "e t \<le> e a" by (meson linear)
      moreover have "\<forall>x\<in>set ts. e a \<le> e x" using Cons.prems by simp
      ultimately have "\<forall>x\<in>set (a # ts). e t \<le> e x" by (auto dest: order_trans)
      moreover have "dropWhile (\<lambda>i. e i \<le> e t) (a # ts) = a # ts" using False by simp
      ultimately show ?thesis by (simp only:)
    qed
  qed simp
  have a: "\<forall>x\<in>set ?a. e x \<le> e t" by (auto dest: set_takeWhileD)
  have "sorted (map e (?a @ ?b))" using assms by simp
  then have s: "sorted (map e ?a)" "sorted (map e ?b)" unfolding map_append sorted_append by auto
  have "sorted (map e ?a @ map e (t # ?b))" unfolding sorted_append
  proof (intro conjI ballI)
    fix x y
    assume "x \<in> set (map e ?a)" and y: "y \<in> set (map e (t # ?b))"
    then have "x \<le> e t" using a by auto
    also have "e t \<le> y" using y b by auto
    finally show "x \<le> y" .
  qed (use b s in auto)
  then show ?thesis by (simp only: timer_insert_def map_append)
qed

text \<open>The timer that \<open>schedule\<close> sets up goes where the specification says.\<close>

lemma add_timer_loop_split:
  assumes "dseg (\<lambda>i. tl_next (tl s i)) (\<lambda>i. tl_prev (tl s i)) 0 (as @ bs) None" and "distinct (0 # as @ bs)"
    and "t \<notin> set (0 # as @ bs)" and "tl_next (tl s t) = None" and "length bs < k"
  shows "\<exists>s'. add_timer_loop k t (last (0 # as)) (case bs of [] \<Rightarrow> None | b # _ \<Rightarrow> Some b) s = Inr s' \<and>
    dseg (\<lambda>i. tl_next (tl s' i)) (\<lambda>i. tl_prev (tl s' i)) 0 (as @ timer_insert (\<lambda>i. tl_expires (tl s i)) t bs) None \<and>
    (\<forall>i. tl_expires (tl s' i) = tl_expires (tl s i) \<and> tl_data (tl s' i) = tl_data (tl s i)) \<and>
    (\<forall>i. i \<notin> set (t # 0 # as @ bs) \<longrightarrow> tl s' i = tl s i) \<and>
    (\<exists>f. s' = s\<lparr>tl := f\<rparr>)"
  using assms
proof (induction bs arbitrary: as k)
  case Nil
  then obtain k' where k: "k = Suc k'" by (cases k) auto
  define l where "l = last (0 # as)"
  have l: "l \<in> set (0 # as)" using last_in_set[of "0 # as"] by (simp add: l_def)
  with Nil have lt: "l \<noteq> t" by auto
  let ?s = "updt l (\<lambda>x. x\<lparr>tl_next := Some t\<rparr>) (updt t (\<lambda>x. x\<lparr>tl_prev := Some l\<rparr>) s)"
  have ev: "add_timer_loop k t l None s = Inr ?s" by (simp add: k)
  have "dseg ((\<lambda>i. tl_next (tl s i))(l := Some t, t := None)) ((\<lambda>i. tl_prev (tl s i))(t := Some l)) 0 (as @ [t]) None"
    using dseg_link[of "\<lambda>i. tl_next (tl s i)" "\<lambda>i. tl_prev (tl s i)" 0 as "[]" None t] Nil.prems by (simp add: l_def)
  moreover have "(\<lambda>i. tl_next (tl ?s i)) = (\<lambda>i. tl_next (tl s i))(l := Some t, t := None)"
    "(\<lambda>i. tl_prev (tl ?s i)) = (\<lambda>i. tl_prev (tl s i))(t := Some l)"
    using lt Nil.prems(4) by (auto simp: fun_eq_iff)
  ultimately have "dseg (\<lambda>i. tl_next (tl ?s i)) (\<lambda>i. tl_prev (tl ?s i)) 0 (as @ [t]) None" by (simp only:)
  moreover have "\<exists>f. ?s = s\<lparr>tl := f\<rparr>" by (auto simp: updt_def)
  ultimately show ?case using ev l by (intro exI[of _ ?s]) (auto simp: timer_insert_def l_def)
next
  case (Cons b bs)
  then obtain k' where k: "k = Suc k'" by (cases k) auto
  define l where "l = last (0 # as)"
  have l: "l \<in> set (0 # as)" using last_in_set[of "0 # as"] by (simp add: l_def)
  with Cons.prems have lt: "l \<noteq> t" "b \<noteq> t" "l \<noteq> b" by auto
  from Cons.prems(1) have "dseg (\<lambda>i. tl_next (tl s i)) (\<lambda>i. tl_prev (tl s i)) 0 as (Some b)"
    and nb: "dseg (\<lambda>i. tl_next (tl s i)) (\<lambda>i. tl_prev (tl s i)) b bs None" by (auto simp: dseg_append)
  then have pb: "tl_prev (tl s b) = Some l" by (metis dseg_last l_def)
  show ?case
  proof (cases "tl_expires (tl s b) > tl_expires (tl s t)")
    case True
    let ?s = "updt b (\<lambda>x. x\<lparr>tl_prev := Some t\<rparr>) (updt l (\<lambda>x. x\<lparr>tl_next := Some t\<rparr>)
       (updt t (\<lambda>x. x\<lparr>tl_next := Some b\<rparr>) (updt t (\<lambda>x. x\<lparr>tl_prev := Some l\<rparr>) s)))"
    have ev: "add_timer_loop k t l (Some b) s = Inr ?s" using True lt pb by (simp add: k Let_def)
    have "dseg ((\<lambda>i. tl_next (tl s i))(l := Some t, t := Some b)) ((\<lambda>i. tl_prev (tl s i))(b := Some t, t := Some l)) 0 (as @ t # b # bs) None"
      using dseg_link[of "\<lambda>i. tl_next (tl s i)" "\<lambda>i. tl_prev (tl s i)" 0 as "b # bs" None t] Cons.prems by (simp add: l_def)
    moreover have "(\<lambda>i. tl_next (tl ?s i)) = (\<lambda>i. tl_next (tl s i))(l := Some t, t := Some b)"
      "(\<lambda>i. tl_prev (tl ?s i)) = (\<lambda>i. tl_prev (tl s i))(b := Some t, t := Some l)"
      using lt by (auto simp: fun_eq_iff)
    ultimately have "dseg (\<lambda>i. tl_next (tl ?s i)) (\<lambda>i. tl_prev (tl ?s i)) 0 (as @ t # b # bs) None" by (simp only:)
    moreover have "\<exists>f. ?s = s\<lparr>tl := f\<rparr>" by (auto simp: updt_def)
    moreover have "timer_insert (\<lambda>i. tl_expires (tl s i)) t (b # bs) = t # b # bs"
      using True by (auto simp: timer_insert_def)
    ultimately show ?thesis using ev l lt by (intro exI[of _ ?s]) (auto simp: l_def)
  next
    case False
    have "add_timer_loop k t l (Some b) s
        = add_timer_loop k' t (last (0 # as @ [b])) (case bs of [] \<Rightarrow> None | b # _ \<Rightarrow> Some b) s"
      using False dseg_first[OF nb] by (simp add: k split: list.splits)
    moreover have "timer_insert (\<lambda>i. tl_expires (tl s i)) t (b # bs) = b # timer_insert (\<lambda>i. tl_expires (tl s i)) t bs"
      using False by (simp add: timer_insert_def not_less)
    ultimately show ?thesis using Cons.IH[of "as @ [b]" k'] Cons.prems k by (simp add: l_def)
  qed
qed

lemma set_timer_insert [simp]: "set (timer_insert e t ts) = insert t (set ts)"
  unfolding timer_insert_def by (metis list.simps(15) set_append takeWhile_dropWhile_id Un_insert_right)

lemma distinct_timer_insert: "distinct ts \<Longrightarrow> t \<notin> set ts \<Longrightarrow> distinct (timer_insert e t ts)"
proof -
  assume d: "distinct ts" "t \<notin> set ts"
  then have "distinct (takeWhile (\<lambda>i. e i \<le> e t) ts @ dropWhile (\<lambda>i. e i \<le> e t) ts)" by simp
  with d(2) show ?thesis unfolding timer_insert_def distinct_append
    by (auto dest: set_takeWhileD set_dropWhileD)
qed

lemma add_timer_insert:
  assumes "timerlist s ts" and "t \<notin> set (0 # ts)" and "t \<le> MAX_TASKS"
  shows "\<exists>s'. add_timer t s = Inr s' \<and> timerlist s' (timer_insert (\<lambda>i. tl_expires (tl s i)) t ts) \<and>
    (\<forall>i. tl_expires (tl s' i) = tl_expires (tl s i) \<and> tl_data (tl s' i) = tl_data (tl s i)) \<and> (\<exists>f. s' = s\<lparr>tl := f\<rparr>)"
proof -
  note d = timerlistD[OF assms(1)]
  let ?e = "\<lambda>i. tl_expires (tl s i)"
  obtain s' where s': "add_timer t s = Inr s'"
      "dseg (\<lambda>i. tl_next (tl s' i)) (\<lambda>i. tl_prev (tl s' i)) 0 (timer_insert ?e t ts) None"
      "\<And>i. tl_expires (tl s' i) = tl_expires (tl s i) \<and> tl_data (tl s' i) = tl_data (tl s i)"
      "\<And>i. i \<notin> set (t # 0 # ts) \<Longrightarrow> tl s' i = tl s i" "\<exists>f. s' = s\<lparr>tl := f\<rparr>"
    using add_timer_loop_split[of s "[]" ts t "Suc MAX_TASKS"] d assms(2) dseg_first[OF d(1)]
    by (auto simp: add_timer_def)
  have "timerlist s' (timer_insert ?e t ts)"
  proof (rule timerlistI[OF s'(2) refl refl])
    show "distinct (0 # timer_insert ?e t ts)" using d(2) assms(2) distinct_timer_insert by auto
    show "sorted (map (\<lambda>i. tl_expires (tl s' i)) (timer_insert ?e t ts))"
      using sorted_timer_insert[OF d(3), of t] s'(3) by (simp cong: map_cong)
    show "set (timer_insert ?e t ts) \<subseteq> {1..MAX_TASKS}" using d(4) assms(2,3) by auto
    show "tl_next (tl s' i) = None \<and> tl_prev (tl s' i) = None" if "i \<notin> set (0 # timer_insert ?e t ts)" for i
      using that s'(4)[of i] d(5,6)[of i] by auto
  qed
  with s' show ?thesis by blast
qed

lemma del_timer_remove:
  assumes "timerlist s (ys @ t # zs)"
  shows "\<exists>s'. del_timer t s = (True, s') \<and> detach_timer t s = (True, s'\<lparr>tl := (tl s')(t := tl s t)\<rparr>) \<and>
     timerlist s' (ys @ zs) \<and> tl_next (tl s' t) = None \<and>
     (\<forall>i. tl_expires (tl s' i) = tl_expires (tl s i) \<and> tl_data (tl s' i) = tl_data (tl s i)) \<and> (\<exists>f. s' = s\<lparr>tl := f\<rparr>)"
proof -
  note d = timerlistD[OF assms]
  let ?n = "\<lambda>i. tl_next (tl s i)" and ?p = "\<lambda>i. tl_prev (tl s i)"
  from d(1) have y: "dseg ?n ?p 0 ys (Some t)" and z: "dseg ?n ?p t zs None" by (auto simp: dseg_append)
  define l where "l = last (0 # ys)"
  define n where "n = (case zs of [] \<Rightarrow> None | z # _ \<Rightarrow> Some z)"
  have pl: "tl_prev (tl s t) = Some l" using dseg_last[OF y] by (simp add: l_def)
  have pn: "tl_next (tl s t) = n" using dseg_first[OF z] by (simp add: n_def split: list.splits)
  have l: "l \<in> set (0 # ys)" using last_in_set[of "0 # ys"] by (simp add: l_def)
  have ne: "l \<noteq> t" "n \<noteq> Some t" "t \<noteq> 0" using l d(2) by (auto simp: n_def split: list.splits)
  let ?s1 = "case n of None \<Rightarrow> s | Some i \<Rightarrow> updt i (\<lambda>x. x\<lparr>tl_prev := Some l\<rparr>) s"
  let ?s2 = "updt l (\<lambda>x. x\<lparr>tl_next := n\<rparr>) ?s1"
  let ?s = "updt t (\<lambda>x. x\<lparr>tl_next := None, tl_prev := None\<rparr>) ?s2"
  have dt: "detach_timer t s = (True, ?s2)" using pl pn by (simp add: detach_timer_def Let_def)
  have t2: "tl ?s2 t = tl s t" using ne by (auto split: option.splits)
  have ev: "del_timer t s = (True, ?s)" using dt by (simp add: del_timer_def)
  have "?s\<lparr>tl := (tl ?s)(t := tl s t)\<rparr> = ?s2"
  proof -
    have "(tl ?s)(t := tl s t) = tl ?s2" using t2 by (auto simp: fun_eq_iff)
    then have "?s\<lparr>tl := (tl ?s)(t := tl s t)\<rparr> = ?s2\<lparr>tl := tl ?s2\<rparr>" by (simp only:) (simp add: updt_def)
    then show ?thesis by simp
  qed
  with dt have dt': "detach_timer t s = (True, ?s\<lparr>tl := (tl ?s)(t := tl s t)\<rparr>)" by (simp only:)
  let ?q = "case n of None \<Rightarrow> ?p | Some z \<Rightarrow> ?p(z := Some l)"
  have "dseg (?n(l := n)) ?q 0 (ys @ zs) None"
    using dseg_unlink[of ?n ?p 0 ys t zs None, folded l_def, unfolded pn] d(1,2) by simp
  then have "dseg (?n(l := n, t := None)) (?q(t := None)) 0 (ys @ zs) None"
    using d(2) by simp
  moreover have "(\<lambda>i. tl_next (tl ?s i)) = ?n(l := n, t := None)" "(\<lambda>i. tl_prev (tl ?s i)) = ?q(t := None)"
    using ne by (auto simp: fun_eq_iff split: option.splits)
  moreover have ex: "tl_expires (tl ?s i) = tl_expires (tl s i) \<and> tl_data (tl ?s i) = tl_data (tl s i)" for i
    by (auto split: option.splits)
  have "set (ys @ zs) \<subseteq> {1..MAX_TASKS}" using d(4) by auto
  moreover have "sorted (map (\<lambda>i. tl_expires (tl ?s i)) (ys @ zs))"
    using d(3) by (simp only: ex) (auto simp: sorted_append)
  moreover have "n = Some z \<Longrightarrow> z \<in> set zs" for z by (auto simp: n_def split: list.splits)
  ultimately have "timerlist ?s (ys @ zs)"
    by (intro timerlistI[of "?n(l := n, t := None)" "?q(t := None)"])
      (use d(2,5,6) l in \<open>auto split: option.splits\<close>)
  moreover have "\<exists>f. ?s = s\<lparr>tl := f\<rparr>" by (auto simp: updt_def split: option.splits)
  moreover have "tl_next (tl ?s t) = None" by simp
  ultimately show ?thesis using ev dt' ex by blast
qed

definition timers_ok :: "ksys \<Rightarrow> nat list \<Rightarrow> bool" where
  "timers_ok s ts \<longleftrightarrow> timerlist s ts \<and> (\<forall>t\<in>set ts. tl_data (tl s t) < MAX_TASKS)"

lemma process_timeout_ring:
  assumes "runqueue s xs" and "p < MAX_TASKS"
  shows "\<exists>s'. process_timeout p s = Inr s' \<and> runqueue s' (enqueue p xs) \<and>
    tasks_map (\<lambda>i t. if i = p then t\<lparr>timeout := 0, state := TASK_RUNNING\<rparr> else t) s s'"
proof -
  let ?s = "upd p (\<lambda>t. t\<lparr>timeout := 0\<rparr>) s"
  have "runqueue ?s xs" using assms(1) by (simp add: runqueue_upd)
  from wake_up_process_ring[OF this assms(2)] obtain s' where
    "wake_up_process p ?s = Inr s'" "runqueue s' (enqueue p xs)"
    "tasks_map (\<lambda>i t. if i = p then t\<lparr>state := TASK_RUNNING\<rparr> else t) ?s s'" by blast
  then show ?thesis by (auto simp: process_timeout_def tasks_map_def)
qed

lemma runqueue_tl [simp]: "runqueue (s\<lparr>tl := f\<rparr>) xs = runqueue s xs"
  by (simp add: runqueue_def)

lemma run_timer_list_none:
  "tl_next (tl s 0) = None \<or> (\<exists>t. tl_next (tl s 0) = Some t \<and> \<not> tl_expires (tl s t) < jiffies s) \<Longrightarrow>
    run_timer_list s = Inr s"
  by (auto simp: run_timer_list_def numeral_2_eq_2)

lemma run_timer_list_one:
  assumes "timers_ok s (t # ts)" and "runqueue s xs" and "tl_expires (tl s t) < jiffies s"
  defines "d \<equiv> tl_data (tl s t)"
  shows "\<exists>s1 s'. run_timer_list s = Inr s' \<and> del_timer t s = (True, s1) \<and> timers_ok s' ts \<and>
    runqueue s' (enqueue d xs) \<and>
    tasks_map (\<lambda>i x. if i = d then x\<lparr>timeout := 0, state := TASK_RUNNING\<rparr> else x) s1 s' \<and> (\<exists>f. s1 = s\<lparr>tl := f\<rparr>)"
proof -
  have tl: "timerlist s ([] @ t # ts)" and dm: "d < MAX_TASKS" using assms(1) by (auto simp: timers_ok_def d_def)
  from timerlistD(1)[OF tl] have hd: "tl_next (tl s 0) = Some t" by simp
  from del_timer_remove[OF tl] obtain s1 where s1: "del_timer t s = (True, s1)" "timerlist s1 ts"
      "tl_next (tl s1 t) = None" "\<And>i. tl_data (tl s1 i) = tl_data (tl s i)" "\<exists>f. s1 = s\<lparr>tl := f\<rparr>" by auto
  then have dt: "updt t (\<lambda>x. x\<lparr>tl_next := None, tl_prev := None\<rparr>) (snd (detach_timer t s)) = s1"
    by (auto simp: del_timer_def split: prod.splits)
  have q1: "runqueue s1 xs" using s1(5) assms(2) by auto
  from process_timeout_ring[OF q1 dm] obtain s' where s': "process_timeout d s1 = Inr s'"
      "runqueue s' (enqueue d xs)"
      "tasks_map (\<lambda>i x. if i = d then x\<lparr>timeout := 0, state := TASK_RUNNING\<rparr> else x) s1 s'" by blast
  then have t': "tl s' = tl s1" by (simp add: tasks_map_def)
  have "run_timer_list s = Inr s'"
    using hd assms(3) s'(1) t' s1(3) by (simp add: run_timer_list_def numeral_2_eq_2 Let_def dt d_def)
  moreover have "timers_ok s' ts" using s1(2,4) t' assms(1) by (simp add: timers_ok_def timerlist_cong[OF t'])
  ultimately show ?thesis using s1 s' by blast
qed

section \<open>Choosing the next task\<close>

definition ring_next :: "nat list \<Rightarrow> nat \<Rightarrow> nat" where
  "ring_next xs p = (case dropWhile (\<lambda>i. i \<noteq> p) (0 # xs) of _ # n # _ \<Rightarrow> n | _ \<Rightarrow> 0)"

lemma ring_next_in: "p \<in> set (0 # xs) \<Longrightarrow> ring_next xs p \<in> set (0 # xs)"
proof -
  have "set (dropWhile (\<lambda>i. i \<noteq> p) (0 # xs)) \<subseteq> set (0 # xs)" by (meson set_dropWhileD subsetI)
  then show ?thesis by (auto simp: ring_next_def split: list.splits simp del: dropWhile.simps)
qed

lemma ring_next_split: "distinct (0 # ys @ p # zs) \<Longrightarrow> ring_next (ys @ p # zs) p = (case zs of [] \<Rightarrow> 0 | z # _ \<Rightarrow> z)"
proof -
  assume d: "distinct (0 # ys @ p # zs)"
  have "dropWhile (\<lambda>i. i \<noteq> p) ((0 # ys) @ p # zs) = dropWhile (\<lambda>i. i \<noteq> p) (p # zs)"
    by (rule dropWhile_append2) (use d in auto)
  then show ?thesis by (simp add: ring_next_def split: list.splits)
qed

lemma runqueue_succ:
  assumes "runqueue s xs" and "p \<in> set (0 # xs)"
  shows "next_run (task s p) = Some (ring_next xs p)"
proof (cases "p = 0")
  case True
  then show ?thesis using dseg_first[OF runqueueD(1)[OF assms(1)]] by (auto simp: ring_next_def split: list.splits)
next
  case False
  then obtain ys zs where x: "xs = ys @ p # zs" using assms(2) by (auto dest: split_list)
  then have "dseg (\<lambda>i. next_run (task s i)) (\<lambda>i. prev_run (task s i)) p zs (Some 0)"
    using runqueueD(1)[OF assms(1)] by (simp add: dseg_append)
  from dseg_first[OF this] ring_next_split[of ys p zs] runqueueD(2)[OF assms(1)] x
  show ?thesis by (auto split: list.splits)
qed

lemma ring_next_other: "distinct (0 # xs) \<Longrightarrow> p \<in> set xs \<Longrightarrow> ring_next xs p \<noteq> p"
  using split_list[of p xs] ring_next_split by (fastforce split: list.splits)

text \<open>Whether a task that calls \<open>schedule\<close> stays on the run queue: it is running, or a
  signal or its timeout ends its interruptible sleep at once.\<close>

definition goes_on :: "task_struct \<Rightarrow> u32 \<Rightarrow> bool" where
  "goes_on t now \<longleftrightarrow> state t = TASK_RUNNING \<or>
     state t = TASK_INTERRUPTIBLE \<and> (signal t \<noteq> 0 \<or> timeout t \<noteq> 0 \<and> timeout t \<le> now)"

definition sleep_limit :: "task_struct \<Rightarrow> u32 \<Rightarrow> u32" where
  "sleep_limit t now = (if state t = TASK_INTERRUPTIBLE \<and> \<not> goes_on t now then timeout t else 0)"

lemma leave_cpu_ring:
  assumes "runqueue s xs" and "current s \<in> set (0 # xs)"
  defines "t \<equiv> task s (current s)"
  shows "\<exists>s'. leave_cpu s = Inr (sleep_limit t (jiffies s), s') \<and>
    runqueue s' (if goes_on t (jiffies s) then xs else remove1 (current s) xs) \<and>
    (\<forall>i. state (task s' i) = (if i = current s \<and> goes_on t (jiffies s) then TASK_RUNNING else state (task s i))) \<and>
    tl s' = tl s \<and> current s' = current s \<and> can_tswitch s' = can_tswitch s \<and> lastirq s' = lastirq s"
proof -
  let ?p = "current s"
  have del: "\<exists>s'. del_from_runqueue ?p s = Inr s' \<and> runqueue s' (remove1 ?p xs) \<and> tl s' = tl s \<and>
      current s' = current s \<and> can_tswitch s' = can_tswitch s \<and> lastirq s' = lastirq s \<and>
      (\<forall>i. state (task s' i) = state (task s i))"
  proof (cases "?p = 0")
    case True
    then have "remove1 ?p xs = xs" using runqueueD(2)[OF assms(1)] by (simp add: remove1_idem)
    with True assms(1) show ?thesis by (simp add: del_from_runqueue_def)
  next
    case False
    then obtain ys zs where x: "xs = ys @ ?p # zs" using assms(2) by (auto dest: split_list)
    then have "remove1 ?p xs = ys @ zs"
      using runqueueD(2)[OF assms(1)] by (simp add: remove1_append)
    with del_from_runqueue_ring[of s ys ?p zs] assms(1) x show ?thesis
      by (auto simp: same_but_links_def intro: but_links_eqD(1))
  qed
  show ?thesis
  proof (cases "goes_on t (jiffies s)")
    case True
    then obtain f where f: "leave_cpu s = Inr (0, upd ?p f s)" "\<And>u. next_run (f u) = next_run u \<and> prev_run (f u) = prev_run u"
        "state (f t) = TASK_RUNNING"
    proof -
      have "upd ?p (\<lambda>u. u) s = s" by (simp add: upd_def)
      with True that[of "\<lambda>u. u"] that[of "\<lambda>u. u\<lparr>state := TASK_RUNNING\<rparr>"] that[of "\<lambda>u. u\<lparr>timeout := 0, state := TASK_RUNNING\<rparr>"]
      show thesis by (cases "signal t = 0") (auto simp: leave_cpu_def Let_def goes_on_def t_def)
    qed
    with True assms(1) runqueue_upd[of f ?p s xs] show ?thesis by (auto simp: sleep_limit_def t_def)
  next
    case False
    then have "leave_cpu s = bindr (del_from_runqueue ?p s) (\<lambda>u. Inr (sleep_limit t (jiffies s), u))"
      by (cases "state t = TASK_INTERRUPTIBLE") (auto simp: leave_cpu_def Let_def goes_on_def t_def sleep_limit_def)
    with del False show ?thesis by auto
  qed
qed

lemma nr_running_pos:
  assumes "runqueue s xs"
  shows "nr_running s > 0 \<longleftrightarrow> xs \<noteq> []"
proof -
  have "nr_running s = of_nat (length xs)" using assms by (simp add: runqueue_def)
  moreover have "unat (of_nat (length xs) :: u8) = length xs"
    using runqueueD(6)[OF assms] by (simp add: unat_of_nat take_bit_nat_eq_self)
  ultimately show ?thesis by (simp add: word_less_nat_alt)
qed

definition skip_to :: "nat list \<Rightarrow> nat \<Rightarrow> nat" where
  "skip_to xs n = (if n = 0 \<and> xs \<noteq> [] then hd xs else n)"

lemma skip_idle_ring:
  assumes "runqueue s xs"
  shows "skip_idle 2 n s = Inr (skip_to xs n)"
proof (cases "n = 0 \<and> xs \<noteq> []")
  case True
  then obtain y ys where x: "xs = y # ys" by (cases xs) auto
  then have "next_run (task s 0) = Some y" using runqueueD(1)[OF assms] by simp
  moreover have "y \<noteq> 0" using runqueueD(2)[OF assms] x by auto
  ultimately show ?thesis using True x nr_running_pos[OF assms] by (simp add: numeral_2_eq_2 skip_to_def)
next
  case False
  then show ?thesis using nr_running_pos[OF assms] by (auto simp: numeral_2_eq_2 skip_to_def)
qed

lemma skip_to_in: "n \<in> set (0 # xs) \<Longrightarrow> distinct (0 # xs) \<Longrightarrow>
    skip_to xs n \<in> set (0 # xs) \<and> (skip_to xs n = 0 \<longrightarrow> xs = [])"
  by (cases xs) (auto simp: skip_to_def)

lemma timers_ok_updt:
  assumes "timers_ok s ts" and "t \<notin> set (0 # ts)" and "tl_next (g (tl s t)) = None" and "tl_prev (g (tl s t)) = None"
  shows "timers_ok (updt t g s) ts"
proof -
  note d = timerlistD[OF conjunct1[OF assms(1)[unfolded timers_ok_def]]]
  have "(\<lambda>i. tl_next (tl (updt t g s) i)) = (\<lambda>i. tl_next (tl s i))" "(\<lambda>i. tl_prev (tl (updt t g s) i)) = (\<lambda>i. tl_prev (tl s i))"
    using d(5,6)[of t] assms(2-4) by (auto simp: fun_eq_iff)
  moreover have "map (\<lambda>i. tl_expires (tl (updt t g s) i)) ts = map (\<lambda>i. tl_expires (tl s i)) ts"
    using assms(2) by auto
  ultimately have "timerlist (updt t g s) ts"
    using d by (intro timerlistI[OF d(1)]) (simp_all only: simp_thms)
  with assms(1,2) show ?thesis by (auto simp: timers_ok_def)
qed

lemma set_timeout:
  assumes "timers_ok s ts" and "p < MAX_TASKS" and "Suc p \<notin> set ts"
  shows "\<exists>s' ts'. (let s = init_timer (Suc p) s;
        s = updt (Suc p) (\<lambda>x. x\<lparr>tl_expires := tmo, tl_data := p\<rparr>) s in add_timer (Suc p) s) = Inr s' \<and>
     timers_ok s' ts' \<and> set ts' = insert (Suc p) (set ts) \<and> (\<exists>f. s' = s\<lparr>tl := f\<rparr>)"
proof -
  let ?s = "updt (Suc p) (\<lambda>x. x\<lparr>tl_expires := tmo, tl_data := p\<rparr>) (init_timer (Suc p) s)"
  have "timers_ok (init_timer (Suc p) s) ts" unfolding init_timer_def
    by (rule timers_ok_updt[OF assms(1)]) (use assms(3) in auto)
  then have ok: "timers_ok ?s ts"
    by (rule timers_ok_updt) (use assms(3) in \<open>auto simp: init_timer_def\<close>)
  then have "timerlist ?s ts" by (simp add: timers_ok_def)
  from add_timer_insert[OF this, of "Suc p"] assms(2,3) obtain s' where s':
    "add_timer (Suc p) ?s = Inr s'" "timerlist s' (timer_insert (\<lambda>i. tl_expires (tl ?s i)) (Suc p) ts)"
    "\<And>i. tl_data (tl s' i) = tl_data (tl ?s i)" "\<exists>f. s' = ?s\<lparr>tl := f\<rparr>" by auto
  have "timers_ok s' (timer_insert (\<lambda>i. tl_expires (tl ?s i)) (Suc p) ts)"
    using s'(2,3) ok assms(2) by (auto simp: timers_ok_def)
  moreover have "\<exists>f. s' = s\<lparr>tl := f\<rparr>" using s'(4) by (auto simp: updt_def init_timer_def)
  ultimately show ?thesis using s'(1) by (fastforce simp: Let_def)
qed

text \<open>The task whose timer is due when \<open>schedule\<close> is called, if any (\<open>run_timer_list\<close>
  runs one timer), the queue and the timers after its wake-up, and whether the caller then
  stays on the queue.\<close>

definition due_task :: "nat list \<Rightarrow> ksys \<Rightarrow> nat option" where
  "due_task ts s = (case ts of [] \<Rightarrow> None
     | t # _ \<Rightarrow> if tl_expires (tl s t) < jiffies s then Some (tl_data (tl s t)) else None)"

definition timers_left :: "nat list \<Rightarrow> ksys \<Rightarrow> nat list" where
  "timers_left ts s = (if due_task ts s = None then ts else drop 1 ts)"

definition queue_woken :: "nat list \<Rightarrow> ksys \<Rightarrow> nat list \<Rightarrow> nat list" where
  "queue_woken ts s xs = (case due_task ts s of None \<Rightarrow> xs | Some d \<Rightarrow> enqueue d xs)"

definition caller_stays :: "nat list \<Rightarrow> ksys \<Rightarrow> bool" where
  "caller_stays ts s \<longleftrightarrow> due_task ts s = Some (current s) \<or> goes_on (task s (current s)) (jiffies s)"

definition queue_after :: "nat list \<Rightarrow> ksys \<Rightarrow> nat list \<Rightarrow> nat list" where
  "queue_after ts s xs =
    (if caller_stays ts s then queue_woken ts s xs else remove1 (current s) (queue_woken ts s xs))"

text \<open>The time until which the caller sleeps, 0 for no limit.\<close>

definition caller_limit :: "nat list \<Rightarrow> ksys \<Rightarrow> u32" where
  "caller_limit ts s = (if due_task ts s = Some (current s) then 0
     else sleep_limit (task s (current s)) (jiffies s))"

lemma set_queue_woken: "set xs \<subseteq> set (queue_woken ts s xs)"
  by (auto simp: queue_woken_def enqueue_def split: option.splits)

lemma set_timers_left: "set (timers_left ts s) \<subseteq> set ts"
  by (auto simp: timers_left_def dest: in_set_dropD)

lemma run_timer_list_ring:
  assumes "timers_ok s ts" and "runqueue s xs"
  shows "\<exists>s'. run_timer_list s = Inr s' \<and> timers_ok s' (timers_left ts s) \<and> runqueue s' (queue_woken ts s xs) \<and>
     tasks_map (\<lambda>i t. if due_task ts s = Some i then t\<lparr>timeout := 0, state := TASK_RUNNING\<rparr> else t) (s\<lparr>tl := tl s'\<rparr>) s'"
proof -
  have "dseg (\<lambda>i. tl_next (tl s i)) (\<lambda>i. tl_prev (tl s i)) 0 ts None"
    using assms(1) by (auto simp: timers_ok_def dest: timerlistD(1))
  from dseg_first[OF this] have hd: "tl_next (tl s 0) = (case ts of [] \<Rightarrow> None | t # _ \<Rightarrow> Some t)" .
  show ?thesis
  proof (cases "due_task ts s")
    case None
    with hd have "run_timer_list s = Inr s"
      using run_timer_list_none[of s] by (cases ts) (auto simp: due_task_def split: if_splits)
    with assms None show ?thesis by (auto simp: timers_left_def queue_woken_def tasks_map_def)
  next
    case (Some d)
    then obtain t ts' where ts: "ts = t # ts'" "tl_expires (tl s t) < jiffies s" "d = tl_data (tl s t)"
      by (auto simp: due_task_def split: list.splits if_splits)
    from run_timer_list_one[of s t ts' xs] ts assms obtain s1 s' where
      "run_timer_list s = Inr s'" "timers_ok s' ts'" "runqueue s' (enqueue d xs)" and
      m: "tasks_map (\<lambda>i x. if i = d then x\<lparr>timeout := 0, state := TASK_RUNNING\<rparr> else x) s1 s'" "\<exists>f. s1 = s\<lparr>tl := f\<rparr>"
      by blast
    moreover from m have "s1 = s\<lparr>tl := tl s'\<rparr>" by (auto simp: tasks_map_def)
    ultimately show ?thesis using Some ts(1) by (auto simp: timers_left_def queue_woken_def tasks_map_def eq_commute[of d])
  qed
qed

lemma schedule_steps:
  assumes "runqueue s xs" and "timers_ok s ts" and "current s \<in> set (0 # xs)"
    and "t_kstackm (task s (current s)) = KSTACK_MAGIC" and "state (task s (current s)) \<noteq> TASK_EXITING"
    and "Suc (current s) \<notin> set ts" and "can_tswitch s \<or> lastirq s = - 1"
  defines "n \<equiv> skip_to (queue_after ts s xs) (ring_next xs (current s))"
  shows "\<exists>out s' ts'. schedule s = Inr (out, s') \<and> runqueue s' (queue_after ts s xs) \<and> current s' = n \<and>
     n \<in> set (0 # queue_after ts s xs) \<and> (n = 0 \<longrightarrow> queue_after ts s xs = []) \<and>
     (\<forall>i. state (task s' i) = (if due_task ts s = Some i \<or> i = current s \<and> caller_stays ts s
        then TASK_RUNNING else state (task s i))) \<and>
     timers_ok s' ts' \<and> set ts' = set (timers_left ts s) \<union>
       (if caller_limit ts s \<noteq> 0 \<and> n \<noteq> current s then {Suc (current s)} else {})"
proof -
  let ?p = "current s" and ?n = "ring_next xs (current s)" and ?xs1 = "queue_woken ts s xs" and ?xs2 = "queue_after ts s xs"
  obtain s1 where s1: "run_timer_list s = Inr s1" "timers_ok s1 (timers_left ts s)" "runqueue s1 ?xs1" and
      m1: "tasks_map (\<lambda>i t. if due_task ts s = Some i then t\<lparr>timeout := 0, state := TASK_RUNNING\<rparr> else t) (s\<lparr>tl := tl s1\<rparr>) s1"
    using run_timer_list_ring[OF assms(2,1)] by blast
  have c1: "current s1 = ?p" "can_tswitch s1 = can_tswitch s" "lastirq s1 = lastirq s" "jiffies s1 = jiffies s"
    using m1 by (auto simp: tasks_map_def)
  have b1: "but_links (task s1 i) = but_links (if due_task ts s = Some i then (task s i)\<lparr>timeout := 0, state := TASK_RUNNING\<rparr> else task s i)" for i
    using m1 by (simp add: tasks_map_def)
  have st1: "state (task s1 i) = (if due_task ts s = Some i then TASK_RUNNING else state (task s i))" for i
    using but_links_eqD(1)[OF b1[of i]] by simp
  have go: "goes_on (task s1 ?p) (jiffies s) = caller_stays ts s" "sleep_limit (task s1 ?p) (jiffies s) = caller_limit ts s"
    using but_links_eqD[OF b1[of ?p]]
    by (auto simp: goes_on_def caller_stays_def sleep_limit_def caller_limit_def)
  have "current s1 \<in> set (0 # ?xs1)" using assms(3) set_queue_woken c1(1) by fastforce
  from leave_cpu_ring[OF s1(3) this] obtain s2 where s2: "leave_cpu s1 = Inr (caller_limit ts s, s2)" "runqueue s2 ?xs2"
      "tl s2 = tl s1" "current s2 = ?p" "can_tswitch s2 = can_tswitch s" "lastirq s2 = lastirq s"
    and st2: "\<And>i. state (task s2 i) = (if i = ?p \<and> caller_stays ts s then TASK_RUNNING else state (task s1 i))"
    unfolding c1 go by (auto simp: queue_after_def)
  have st: "state (task s2 i) = (if due_task ts s = Some i \<or> i = ?p \<and> caller_stays ts s then TASK_RUNNING else state (task s i))" for i
    using st1 st2 by auto
  have ok2: "timers_ok s2 (timers_left ts s)" using s1(2) s2(3) by (simp add: timers_ok_def timerlist_def)
  have n2: "?n \<in> set (0 # ?xs2)"
  proof (cases "?p = 0")
    case True
    then have "?xs2 = ?xs1" using runqueueD(2)[OF s1(3)] by (auto simp: queue_after_def remove1_idem)
    then show ?thesis using ring_next_in[OF assms(3)] set_queue_woken[of xs ts s] by auto
  next
    case False
    with ring_next_other[OF runqueueD(2)[OF assms(1)], of ?p] assms(3) have "?n \<noteq> ?p" by auto
    then show ?thesis using ring_next_in[OF assms(3)] set_queue_woken[of xs ts s] by (auto simp: queue_after_def in_set_remove1)
  qed
  note sk = skip_to_in[OF n2 runqueueD(2)[OF s2(2)], folded n_def]
  have pm: "?p < MAX_TASKS" "Suc ?p \<notin> set (timers_left ts s)"
    using assms(3,6) set_timers_left runqueueD(5)[OF assms(1)] by fastforce+
  obtain s3 ts3 where s3: "(if caller_limit ts s \<noteq> 0 then let s' = init_timer (Suc ?p) s2;
          s' = updt (Suc ?p) (\<lambda>x. x\<lparr>tl_expires := caller_limit ts s, tl_data := ?p\<rparr>) s' in add_timer (Suc ?p) s' else Inr s2) = Inr s3"
      "timers_ok s3 ts3" "\<exists>f. s3 = s2\<lparr>tl := f\<rparr>"
      "set ts3 = set (timers_left ts s) \<union> (if caller_limit ts s \<noteq> 0 then {Suc ?p} else {})"
  proof (cases "caller_limit ts s = 0")
    case True
    show thesis by (rule that[of s2 "timers_left ts s"]) (use True ok2 in \<open>auto intro!: exI[of _ "tl s2"]\<close>)
  next
    case False
    with set_timeout[OF ok2 pm, of "caller_limit ts s"] that show thesis by auto
  qed
  have q3: "runqueue s3 ?xs2" "can_tswitch s3 = can_tswitch s" "lastirq s3 = lastirq s" "current s3 = ?p" "task s3 = task s2"
    using s3(3) s2 by auto
  have ev: "schedule s = (if n \<noteq> ?p then Inr (Switched (caller_limit ts s \<noteq> 0), s3\<lparr>previous := ?p, current := n\<rparr>)
     else Inr (Returned, s2))"
    using assms(4,5,7) runqueue_succ[OF assms(1,3)] s1(1) s2(1) skip_idle_ring[OF s2(2), of ?n] s3(1) q3
    by (auto simp: schedule_def Let_def n_def)
  show ?thesis
  proof (cases "n = ?p")
    case True
    with ev s2 ok2 sk st show ?thesis by auto
  next
    case False
    have "runqueue (s3\<lparr>previous := ?p, current := n\<rparr>) ?xs2" "timers_ok (s3\<lparr>previous := ?p, current := n\<rparr>) ts3"
      using q3(1) s3(2) by (auto simp: runqueue_def timers_ok_def timerlist_def)
    with False ev s3(4) q3(5) sk st show ?thesis by (intro exI conjI) auto
  qed
qed

lemma ring_next_nth:
  assumes "distinct (0 # xs)" and "i < length xs"
  shows "skip_to xs (ring_next xs (xs ! i)) = xs ! (Suc i mod length xs)"
proof -
  have x: "xs = take i xs @ xs ! i # drop (Suc i) xs" using assms(2) by (rule id_take_nth_drop)
  have "ring_next xs (xs ! i) = (case drop (Suc i) xs of [] \<Rightarrow> 0 | z # _ \<Rightarrow> z)"
    using ring_next_split[of "take i xs" "xs ! i" "drop (Suc i) xs"] assms(1) x by metis
  then show ?thesis
  proof (cases "Suc i < length xs")
    case True
    then have "drop (Suc i) xs = xs ! Suc i # drop (Suc (Suc i)) xs" by (simp add: Cons_nth_drop_Suc)
    moreover have "xs ! Suc i \<noteq> 0" using assms(1) True by (metis distinct.simps(2) nth_mem)
    ultimately show ?thesis using True \<open>ring_next xs (xs ! i) = _\<close> by (simp add: skip_to_def)
  next
    case False
    then have "Suc i = length xs" using assms(2) by simp
    moreover have "xs \<noteq> []" using assms(2) by auto
    ultimately show ?thesis using \<open>ring_next xs (xs ! i) = _\<close> by (simp add: skip_to_def hd_conv_nth)
  qed
qed

lemma schedule_running:
  assumes "runqueue s xs" and "i < length xs" and "current s = xs ! i"
    and "t_kstackm (task s (xs ! i)) = KSTACK_MAGIC" and "state (task s (xs ! i)) = TASK_RUNNING"
    and "tl_next (tl s 0) = None" and "can_tswitch s"
  shows "\<exists>out s'. schedule s = Inr (out, s') \<and> current s' = xs ! (Suc i mod length xs) \<and>
     (\<exists>p c. s' = s\<lparr>previous := p, current := c\<rparr>)"
proof -
  note d = runqueueD(2)[OF assms(1)]
  have "current s \<in> set (0 # xs)" using assms(2,3) by simp
  from runqueue_succ[OF assms(1) this] have n: "next_run (task s (current s)) = Some (ring_next xs (current s))" .
  have "leave_cpu s = Inr (0, s)" using assms(3,5) by (simp add: leave_cpu_def Let_def)
  with n skip_idle_ring[OF assms(1)] ring_next_nth[OF d assms(2)] assms run_timer_list_none[of s]
  have "schedule s = (if xs ! (Suc i mod length xs) \<noteq> current s
      then Inr (Switched False, s\<lparr>previous := current s, current := xs ! (Suc i mod length xs)\<rparr>) else Inr (Returned, s))"
    by (simp add: schedule_def Let_def)
  moreover have "\<exists>p c. s = s\<lparr>previous := p, current := c\<rparr>"
    by (intro exI[of _ "previous s"] exI[of _ "current s"]) simp
  ultimately show ?thesis by (cases "xs ! (Suc i mod length xs) = current s") auto
qed

primrec run_n :: "nat \<Rightarrow> ksys \<Rightarrow> ksys kres" where
  "run_n 0 s = Inr s"
| "run_n (Suc k) s = bindr (run_n k s) (\<lambda>s. bindr (schedule s) (\<lambda>(_, s). Inr s))"

section \<open>Properties\<close>

text \<open>C12: \<open>_wake_up\<close> makes runnable exactly the tasks that wait on the queue (or poll on
  its hash) in a state the call addresses, appends those that are off the run queue to
  its end in the order of the task table, changes nothing else, and keeps the run queue a
  doubly linked ring through the idle task that \<open>nr_running\<close> counts.\<close>

theorem wake_up_exact:
  assumes "runqueue s xs"
  shows "\<exists>s'. wake_up_queue q it s = Inr s' \<and>
    runqueue s' (fold enqueue (filter (\<lambda>p. wakes_task q it p s) [0..<MAX_TASKS]) xs) \<and>
    (\<forall>i<MAX_TASKS. state (task s' i) = (if wakes_task q it i s then TASK_RUNNING else state (task s i))) \<and>
    current s' = current s"
proof -
  obtain s' where s': "wake_up_queue q it s = Inr s'"
      "runqueue s' (fold enqueue (filter (\<lambda>p. wakes_task q it p s) [0..<MAX_TASKS]) xs)"
      "tasks_map (woken q it s [0..<MAX_TASKS]) s s'"
    using wake_up_from_ring[OF assms, of "[0..<MAX_TASKS]" q it] unfolding wake_up_queue_def by (auto simp: lessThan_atLeast0 simp del: upt.simps)
  have "state (task s' i) = (if wakes_task q it i s then TASK_RUNNING else state (task s i))" if "i < MAX_TASKS" for i
  proof -
    have "but_links (task s' i) = but_links (woken q it s [0..<MAX_TASKS] i (task s i))"
      using s'(3) by (simp add: tasks_map_def)
    from but_links_eqD(1)[OF this] that show ?thesis by (auto simp: woken_def)
  qed
  with s' show ?thesis by (auto simp: tasks_map_def)
qed

lemmas sched_spec_simps = queue_after_def queue_woken_def caller_stays_def caller_limit_def sleep_limit_def
  goes_on_def due_task_def timers_left_def skip_to_def ring_next_def

text \<open>C10: outside interrupts (task switching is enabled, or no interrupt is being served)
  and for a caller that is on the run queue, is not exiting, has no timer pending and an
  intact kernel stack, \<open>schedule\<close> returns and leaves the processor to a runnable task. The run queue afterwards is known exactly:
  the task whose timer is due is woken and queued, the caller stays where it is if it is
  running or if a signal or its timeout ends its interruptible sleep, and leaves the queue
  otherwise; no other task changes state. The task chosen is the successor of the caller in
  the old queue (the first task of the new one instead of the idle task), so it is on the
  queue, and it is the idle task only if nothing is runnable. The timer list stays sorted; a
  caller that sleeps with a timeout leaves its timer on it.\<close>

theorem schedule_picks_runnable:
  assumes "runqueue s xs" and "timers_ok s ts" and "current s \<in> set (0 # xs)"
    and "t_kstackm (task s (current s)) = KSTACK_MAGIC" and "state (task s (current s)) \<noteq> TASK_EXITING"
    and "Suc (current s) \<notin> set ts" and "can_tswitch s \<or> lastirq s = - 1"
  defines "ys \<equiv> queue_after ts s xs"
  shows "\<exists>out s' ts'. schedule s = Inr (out, s') \<and> runqueue s' ys \<and>
     current s' = skip_to ys (ring_next xs (current s)) \<and>
     current s' \<in> set (0 # ys) \<and> (current s' = 0 \<longrightarrow> ys = []) \<and>
     (\<forall>i. state (task s' i) = (if due_task ts s = Some i \<or> i = current s \<and> caller_stays ts s
        then TASK_RUNNING else state (task s i))) \<and>
     timers_ok s' ts' \<and> set ts' = set (timers_left ts s) \<union>
       (if caller_limit ts s \<noteq> 0 \<and> current s' \<noteq> current s then {Suc (current s)} else {})"
proof -
  from schedule_steps[OF assms(1-7), folded ys_def] obtain out s' ts' where
    "schedule s = Inr (out, s')" "runqueue s' ys" "timers_ok s' ts'" and
    n: "current s' = skip_to ys (ring_next xs (current s))" and
    "current s' \<in> set (0 # ys) \<and> (current s' = 0 \<longrightarrow> ys = [])"
    "\<forall>i. state (task s' i) = (if due_task ts s = Some i \<or> i = current s \<and> caller_stays ts s
        then TASK_RUNNING else state (task s i))"
    "set ts' = set (timers_left ts s) \<union>
       (if caller_limit ts s \<noteq> 0 \<and> current s' \<noteq> current s then {Suc (current s)} else {})"
    by (elim exE conjE) (metis (no_types, lifting))
  then show ?thesis by (intro exI[of _ out] exI[of _ s'] exI[of _ ts']) simp
qed

text \<open>C11: scheduling is round robin: while the tasks of the run queue stay runnable and no
  timer is pending, \<open>k\<close> calls of \<open>schedule\<close> lead from the \<open>i\<close>-th task of the queue to
  the \<open>(i + k)\<close>-th, modulo the length, so every runnable task gets the processor within
  one round.\<close>

theorem schedule_round_robin:
  assumes "runqueue s xs" and "i < length xs" and "current s = xs ! i" and "can_tswitch s"
    and "\<forall>p\<in>set xs. t_kstackm (task s p) = KSTACK_MAGIC \<and> state (task s p) = TASK_RUNNING"
    and "tl_next (tl s 0) = None"
  shows "\<exists>s'. run_n k s = Inr s' \<and> current s' = xs ! ((i + k) mod length xs)"
proof -
  have "\<exists>s'. run_n k s = Inr s' \<and> current s' = xs ! ((i + k) mod length xs) \<and> (\<exists>p c. s' = s\<lparr>previous := p, current := c\<rparr>)"
  proof (induction k)
    case 0
    have "\<exists>p c. s = s\<lparr>previous := p, current := c\<rparr>"
      by (intro exI[of _ "previous s"] exI[of _ "current s"]) simp
    with assms(2,3) show ?case by auto
  next
    case (Suc k)
    then obtain s1 p c where s1: "run_n k s = Inr s1" "current s1 = xs ! ((i + k) mod length xs)"
        "s1 = s\<lparr>previous := p, current := c\<rparr>" by blast
    let ?j = "(i + k) mod length xs"
    have j: "?j < length xs" using assms(2) by (intro mod_less_divisor) auto
    have "runqueue s1 xs" using assms(1) s1(3) by (simp add: runqueue_def)
    from schedule_running[OF this j s1(2)] assms(4-6) j s1(3) obtain out s' where
      "schedule s1 = Inr (out, s')" "current s' = xs ! (Suc ?j mod length xs)"
      "\<exists>p c. s' = s1\<lparr>previous := p, current := c\<rparr>" by auto
    with s1 show ?case by (auto simp: mod_Suc_eq)
  qed
  then show ?thesis by blast
qed

text \<open>\<open>add_timer\<close> keeps the timer list sorted by expiry, putting the timer behind those
  that expire no later, and \<open>del_timer\<close> takes it out again and restores the list.\<close>

theorem add_del_timer:
  assumes "timerlist s ts" and "t \<notin> set (0 # ts)" and "t \<le> MAX_TASKS"
  shows "\<exists>s1 s2. add_timer t s = Inr s1 \<and> timerlist s1 (timer_insert (\<lambda>i. tl_expires (tl s i)) t ts) \<and>
    del_timer t s1 = (True, s2) \<and> timerlist s2 ts"
proof -
  let ?e = "\<lambda>i. tl_expires (tl s i)"
  from add_timer_insert[OF assms] obtain s1 where s1: "add_timer t s = Inr s1" "timerlist s1 (timer_insert ?e t ts)" by blast
  from del_timer_remove[OF s1(2)[unfolded timer_insert_def]] obtain s2 where
    "del_timer t s1 = (True, s2)" "timerlist s2 (takeWhile (\<lambda>i. ?e i \<le> ?e t) ts @ dropWhile (\<lambda>i. ?e i \<le> ?e t) ts)" by blast
  with s1 show ?thesis by auto
qed

text \<open>one call of \<open>run_timer_list\<close> runs one timer at most: it fetches the successor
  from the entry it has just unlinked and cleared, so the second of two timers that have
  expired is still pending when it returns, although its time is over.\<close>

theorem run_timer_list_runs_one:
  assumes "timers_ok s (t # u # ts)" and "runqueue s xs"
    and "tl_expires (tl s t) < jiffies s" and "tl_expires (tl s u) < jiffies s"
  shows "\<exists>s'. run_timer_list s = Inr s' \<and> timerlist s' (u # ts) \<and> tl_expires (tl s' u) < jiffies s'"
proof -
  have tl: "timerlist s ([] @ t # u # ts)" using assms(1) by (simp add: timers_ok_def)
  from run_timer_list_one[OF assms(1-3)] obtain s1 s' where s': "run_timer_list s = Inr s'" "del_timer t s = (True, s1)"
    "timers_ok s' (u # ts)" "tl s' = tl s1" "jiffies s' = jiffies s1" "\<exists>f. s1 = s\<lparr>tl := f\<rparr>"
    by (auto simp: tasks_map_def)
  moreover from del_timer_remove[OF tl] s'(2) have "tl_expires (tl s1 u) = tl_expires (tl s u)" by auto
  ultimately show ?thesis using assms(4) by (auto simp: timers_ok_def)
qed

section \<open>Witnesses\<close>

text \<open>The system as \<^verbatim>\<open>start_kernel\<close> sets it up: an idle task in a ring of its own; then
  two tasks are woken.\<close>

definition idle_task :: task_struct where
  "idle_task = \<lparr>state = TASK_RUNNING, pid = 0, ppid = 0, pgrp = 0, session = 0, uid = 0, euid = 0, suid = 0,
     gid = 0, egid = 0, sgid = 0, groups = (\<lambda>_. 0xFFFF), umask = 0, dumpable = True, tty = None, timeout = 0, waitpt = 0, pollhash = 0, next_run = None, prev_run = None, mm_cseg = 0, mm_dseg = 0,
     p_parent = None, p_prevsib = None, p_nextsib = None, p_child = None, child_wait = 0, child_lastend = 0,
     lastend_status = 0, t_inode = 0, root_i = 0, pwd_i = 0, fds = (\<lambda>_. None), close_on_exec = (\<lambda>_. 0), t_ds = 0, t_endseg = 0, signal = 0,
     action = (\<lambda>_. SIG_DFL), t_kstackm = KSTACK_MAGIC\<rparr>"

definition boot_sys :: ksys where
  "boot_sys = \<lparr>task = (\<lambda>i. if i = 0 then idle_task\<lparr>next_run := Some 0, prev_run := Some 0\<rparr>
       else idle_task\<lparr>state := (if i < 3 then TASK_INTERRUPTIBLE else TASK_UNUSED), waitpt := (if i < 3 then 512 else 0)\<rparr>),
     current = 0, previous = 0, nr_running = 0, jiffies = 100,
     tl = (\<lambda>_. \<lparr>tl_next = None, tl_prev = None, tl_expires = 0, tl_data = 0\<rparr>),
     can_tswitch = True, lastirq = - 1, select_poll = 1024\<rparr>"

lemma boot_runqueue: "runqueue boot_sys []"
  by (simp add: runqueue_def boot_sys_def idle_task_def)

lemma boot_timers: "timers_ok boot_sys []"
  by (simp add: timers_ok_def timerlist_def boot_sys_def)

lemma boot_wakes: "wakes_task 512 True p boot_sys \<longleftrightarrow> p = 1 \<or> p = 2"
  by (auto simp: wakes_task_def boot_sys_def idle_task_def)

theorem wake_up_exact_witness:
  "\<exists>s'. wake_up_queue 512 True boot_sys = Inr s' \<and> runqueue s' [1, 2] \<and> state (task s' 1) = TASK_RUNNING \<and>
     state (task s' 3) = TASK_UNUSED"
proof -
  have f: "filter (\<lambda>p. wakes_task 512 True p boot_sys) [0..<MAX_TASKS] = [1, 2]"
    by (simp add: boot_wakes upt_rec)
  have "fold enqueue [1, 2] [] = [1, 2]" by (simp add: enqueue_def)
  with wake_up_exact[OF boot_runqueue, of 512 True, unfolded f] boot_wakes show ?thesis
    by (auto simp: boot_sys_def idle_task_def)
qed

definition two_sys :: ksys where
  "two_sys = \<lparr>task = (\<lambda>i. if i = 0 then idle_task\<lparr>next_run := Some 4, prev_run := Some 7\<rparr>
       else if i = 4 then idle_task\<lparr>next_run := Some 7, prev_run := Some 0, state := TASK_RUNNING\<rparr>
       else if i = 7 then idle_task\<lparr>next_run := Some 0, prev_run := Some 4\<rparr> else idle_task\<lparr>state := TASK_UNUSED\<rparr>),
     current = 7, previous = 0, nr_running = 2, jiffies = 100,
     tl = (\<lambda>_. \<lparr>tl_next = None, tl_prev = None, tl_expires = 50, tl_data = 0\<rparr>),
     can_tswitch = True, lastirq = - 1, select_poll = 1024\<rparr>"

lemma two_runqueue: "runqueue two_sys [4, 7]"
  by (simp add: runqueue_def two_sys_def idle_task_def)

lemma two_timers: "timers_ok two_sys []"
  by (simp add: timers_ok_def timerlist_def two_sys_def)

text \<open>Task 7, blocked, leaves the queue to task 4; while it runs, both stay on it.\<close>

theorem schedule_picks_runnable_witness:
  "(\<exists>out s'. schedule (upd 7 (\<lambda>t. t\<lparr>state := TASK_UNINTERRUPTIBLE\<rparr>) two_sys) = Inr (out, s') \<and>
      runqueue s' [4] \<and> current s' = 4) \<and>
   (\<exists>out s'. schedule two_sys = Inr (out, s') \<and> runqueue s' [4, 7] \<and> current s' = 4)"
proof
  let ?s = "upd 7 (\<lambda>t. t\<lparr>state := TASK_UNINTERRUPTIBLE\<rparr>) two_sys"
  have "runqueue ?s [4, 7]" "timers_ok ?s []"
    using two_runqueue two_timers by (simp_all add: runqueue_upd timers_ok_def timerlist_def)
  from schedule_picks_runnable[OF this]
  show "\<exists>out s'. schedule ?s = Inr (out, s') \<and> runqueue s' [4] \<and> current s' = 4"
    by (auto simp: two_sys_def idle_task_def sched_spec_simps)
  from schedule_picks_runnable[OF two_runqueue two_timers]
  show "\<exists>out s'. schedule two_sys = Inr (out, s') \<and> runqueue s' [4, 7] \<and> current s' = 4"
    by (auto simp: two_sys_def idle_task_def sched_spec_simps)
qed

theorem schedule_round_robin_witness:
  "\<exists>s'. run_n 5 two_sys = Inr s' \<and> current s' = 4"
  using schedule_round_robin[OF two_runqueue, of 1 5] by (simp add: two_sys_def idle_task_def flip: numeral_2_eq_2)

theorem add_del_timer_witness:
  "\<exists>s1 s2. add_timer 3 boot_sys = Inr s1 \<and> timerlist s1 [3] \<and> del_timer 3 s1 = (True, s2) \<and> timerlist s2 []"
  using add_del_timer[of boot_sys "[]" 3] boot_timers by (simp add: timers_ok_def timer_insert_def)

definition due_sys :: ksys where
  "due_sys = two_sys\<lparr>tl := (\<lambda>i. if i = 0 then \<lparr>tl_next = Some 5, tl_prev = None, tl_expires = 0, tl_data = 0\<rparr>
     else if i = 5 then \<lparr>tl_next = Some 8, tl_prev = Some 0, tl_expires = 50, tl_data = 4\<rparr>
     else if i = 8 then \<lparr>tl_next = None, tl_prev = Some 5, tl_expires = 60, tl_data = 7\<rparr>
     else \<lparr>tl_next = None, tl_prev = None, tl_expires = 0, tl_data = 0\<rparr>)\<rparr>"

theorem run_timer_list_runs_one_witness:
  "\<exists>s'. run_timer_list due_sys = Inr s' \<and> timerlist s' [8] \<and> tl_expires (tl s' 8) < jiffies s'"
proof -
  have "timers_ok due_sys [5, 8]" by (simp add: timers_ok_def timerlist_def due_sys_def two_sys_def)
  moreover have "runqueue due_sys [4, 7]" using two_runqueue by (simp add: due_sys_def)
  ultimately show ?thesis using run_timer_list_runs_one[of due_sys 5 8 "[]" "[4, 7]"]
    by (simp add: due_sys_def two_sys_def)
qed

end
