(* ===== verification/Signal.thy ===== *)
theory Signal
  imports Sched
begin

text \<open>
  Signals: \<^verbatim>\<open>kernel/signal.c\<close> (sending) and \<^verbatim>\<open>arch/i86/kernel/signal.c\<close> (delivery).
  The build has \<^verbatim>\<open>SMALLSIG\<close>, so a signal set is a 16-bit word. \<open>do_signal\<close> returns what
  it decided: nothing to do, a handler to be entered on the user's stack, or the end of
  the process through \<open>do_exit\<close>; its loop is bounded by fuel, since the code does not
  clear the bit of a signal it ignores.
\<close>

abbreviation NSIG :: nat where "NSIG \<equiv> 16"
abbreviation SIGHUP :: nat where "SIGHUP \<equiv> 1"
abbreviation SIGINT :: nat where "SIGINT \<equiv> 2"
abbreviation SIGWINCH :: nat where "SIGWINCH \<equiv> 4"
abbreviation SIGSTOP :: nat where "SIGSTOP \<equiv> 5"
abbreviation SIGTSTP :: nat where "SIGTSTP \<equiv> 7"
abbreviation SIGCONT :: nat where "SIGCONT \<equiv> 8"
abbreviation SIGKILL :: nat where "SIGKILL \<equiv> 9"
abbreviation SIGCHLD :: nat where "SIGCHLD \<equiv> 12"
abbreviation SIGTERM :: nat where "SIGTERM \<equiv> 15"

section \<open>Sending\<close>

definition sigmask :: "nat \<Rightarrow> u16" where
  "sigmask sig = push_bit (sig - 1) 1"

definition sig_ignored :: "nat \<Rightarrow> task_struct \<Rightarrow> bool" where
  "sig_ignored sig t \<longleftrightarrow> action t (sig - 1) = SIG_IGN \<or>
     action t (sig - 1) = SIG_DFL \<and> (sig = SIGCONT \<or> sig = SIGCHLD \<or> sig = SIGWINCH)"

definition generate :: "nat \<Rightarrow> nat \<Rightarrow> ksys \<Rightarrow> ksys kres" where
  "generate sig p s =
    (if action (task s p) (sig - 1) = SIG_IGN then Inr s
     else if action (task s p) (sig - 1) = SIG_DFL \<and> (sig = SIGCONT \<or> sig = SIGCHLD \<or> sig = SIGWINCH) then Inr s
     else let s = upd p (\<lambda>t. t\<lparr>signal := signal t OR sigmask sig\<rparr>) s
          in if state (task s p) = TASK_INTERRUPTIBLE then wake_up_process p s else Inr s)"

definition suser :: "ksys \<Rightarrow> bool" where
  "suser s \<longleftrightarrow> euid (task s (current s)) = 0"

definition may_signal :: "nat \<Rightarrow> nat \<Rightarrow> bool \<Rightarrow> ksys \<Rightarrow> bool" where
  "may_signal sig p priv s \<longleftrightarrow>
    (let c = task s (current s); t = task s p in
     \<not> (\<not> priv \<and> (sig \<noteq> SIGCONT \<or> session c \<noteq> session t) \<and> euid c XOR suid t \<noteq> 0 \<and> euid c XOR uid t \<noteq> 0 \<and>
        uid c XOR suid t \<noteq> 0 \<and> uid c XOR uid t \<noteq> 0 \<and> \<not> suser s))"

definition send_sig :: "nat \<Rightarrow> nat \<Rightarrow> bool \<Rightarrow> ksys \<Rightarrow> (int \<times> ksys) kres" where
  "send_sig sig p priv s =
    (if \<not> may_signal sig p priv s then Inr (- EPERM, s)
     else
     bindr (if sig = SIGKILL \<or> sig = SIGCONT then
              bindr (if state (task s p) = TASK_STOPPED then wake_up_process p s else Inr s)
                (\<lambda>s. Inr (upd p (\<lambda>t. t\<lparr>signal := signal t AND NOT (sigmask SIGSTOP OR sigmask SIGTSTP)\<rparr>) s))
            else Inr s) (\<lambda>s.
     let s = (if sig = SIGSTOP \<or> sig = SIGTSTP
              then upd p (\<lambda>t. t\<lparr>signal := signal t AND NOT (sigmask SIGCONT)\<rparr>) s else s)
     in bindr (generate sig p s) (\<lambda>s. Inr (0, s))))"

primrec kill_pg_from :: "nat list \<Rightarrow> int \<Rightarrow> nat \<Rightarrow> bool \<Rightarrow> int \<Rightarrow> ksys \<Rightarrow> (int \<times> ksys) kres" where
  "kill_pg_from [] pg sig priv err s = Inr (err, s)"
| "kill_pg_from (p # ps) pg sig priv err s =
    (if pgrp (task s p) = pg
     then bindr (send_sig sig p priv s) (\<lambda>(err, s). kill_pg_from ps pg sig priv err s)
     else kill_pg_from ps pg sig priv err s)"

definition kill_pg :: "int \<Rightarrow> nat \<Rightarrow> bool \<Rightarrow> ksys \<Rightarrow> (int \<times> ksys) kres" where
  "kill_pg pg sig priv s = kill_pg_from [0..<MAX_TASKS] pg sig priv (- ESRCH) s"

definition kill_process :: "int \<Rightarrow> nat \<Rightarrow> bool \<Rightarrow> ksys \<Rightarrow> (int \<times> ksys) kres" where
  "kill_process pd sig priv s =
    (case find (\<lambda>p. pid (task s p) = pd) [0..<MAX_TASKS] of
       Some p \<Rightarrow> send_sig sig p False s | None \<Rightarrow> Inr (- ESRCH, s))"

primrec kill_all_from :: "nat list \<Rightarrow> nat \<Rightarrow> nat \<Rightarrow> int \<Rightarrow> ksys \<Rightarrow> (int \<times> ksys) kres" where
  "kill_all_from [] sig count retval s = Inr (if count \<noteq> 0 then retval else - ESRCH, s)"
| "kill_all_from (p # ps) sig count retval s =
    (if pid (task s p) > 1 \<and> p \<noteq> current s
     then bindr (send_sig sig p False s) (\<lambda>(err, s).
            kill_all_from ps sig (count + 1) (if err \<noteq> - EPERM then err else retval) s)
     else kill_all_from ps sig count retval s)"

text \<open>\<open>sig\<close> is a \<^verbatim>\<open>sig_t\<close>, an unsigned byte.\<close>

definition sys_kill :: "int \<Rightarrow> u8 \<Rightarrow> ksys \<Rightarrow> (int \<times> ksys) kres" where
  "sys_kill pd sig8 s =
    (let sig = unat sig8 in
     if (word_of_int (int sig - 1) :: u16) > of_nat (NSIG - 1) then Inr (- EINVAL, s)
     else if pd = 0 then kill_pg (pgrp (task s (current s))) sig False s
     else if pd = - 1 then kill_all_from [0..<MAX_TASKS] sig 0 0 s
     else if pd < 0 then kill_pg (- pd) sig False s
     else kill_process pd sig False s)"

definition sys_signal :: "int \<Rightarrow> sighandler \<Rightarrow> ksys \<Rightarrow> int \<times> ksys" where
  "sys_signal signr handler s =
    (let n = (word_of_int (signr - 1) :: u16) in
     if n > of_nat (NSIG - 1) \<or> n = of_nat (SIGKILL - 1) \<or> n = of_nat (SIGSTOP - 1) then (- EINVAL, s)
     else (0, upd (current s) (\<lambda>t. t\<lparr>action := (action t)(unat n := handler)\<rparr>) s))"

section \<open>Delivery\<close>

definition find_first_non_zero :: "u16 \<Rightarrow> nat" where
  "find_first_non_zero w = (case find (bit w) [0..<NSIG] of Some i \<Rightarrow> i | None \<Rightarrow> NSIG)"

datatype sig_out = No_signal | Enter_handler u16 nat | Exit_with nat

text \<open>\<open>back\<close> is what happens from the context switch of a stopped process until it runs
  again.\<close>

primrec do_signal :: "nat \<Rightarrow> (ksys \<Rightarrow> ksys kres) \<Rightarrow> ksys \<Rightarrow> (sig_out \<times> ksys) kres" where
  "do_signal 0 back s = Inl Stuck"
| "do_signal (Suc n) back s =
    (let c = current s; t = task s c in
     if signal t = 0 then Inr (No_signal, s)
     else
       let signr = find_first_non_zero (signal t) in
       if signr = NSIG then Inl (Panic ''No signal set!'')
       else
         let sa = action t signr; signr1 = Suc signr in
         case sa of
           SIG_IGN \<Rightarrow> do_signal n back s
         | SIG_DFL \<Rightarrow>
             if pid t = 1 then do_signal n back s
             else if signr1 = SIGCHLD \<or> signr1 = SIGCONT \<or> signr1 = SIGWINCH then do_signal n back s
             else if signr1 = SIGSTOP \<or> signr1 = SIGTSTP then
               bindr (deref (p_parent t)) (\<lambda>pp.
               let s = upd c (\<lambda>t. t\<lparr>state := TASK_STOPPED\<rparr>) s;
                   s = upd pp (\<lambda>t. t\<lparr>child_lastend := pid (task s c)\<rparr>) s;
                   s = upd pp (\<lambda>t. t\<lparr>lastend_status := int signr1\<rparr>) s
               in bindr (schedule s) (\<lambda>(out, s).
                  bindr (case out of Returned \<Rightarrow> Inr s | Switched _ \<Rightarrow> back s) (do_signal n back)))
             else Inr (Exit_with signr1, s)
         | Handler h \<Rightarrow>
             Inr (Enter_handler h signr1, upd c (\<lambda>t. t\<lparr>action := (action t)(signr := SIG_DFL)\<rparr>) s))"

text \<open>\<open>sig_check\<close> of \<^verbatim>\<open>arch/i86/kernel/process.c\<close>, on the way back to user mode.\<close>

definition sig_check :: "nat \<Rightarrow> (ksys \<Rightarrow> ksys kres) \<Rightarrow> ksys \<Rightarrow> (sig_out \<times> ksys) kres" where
  "sig_check n back s =
    (if signal (task s (current s)) \<noteq> 0
     then bindr (do_signal n back s) (\<lambda>(out, s).
            case out of Exit_with x \<Rightarrow> Inr (out, s)
            | _ \<Rightarrow> Inr (out, upd (current s) (\<lambda>t. t\<lparr>signal := 0\<rparr>) s))
     else Inr (No_signal, upd (current s) (\<lambda>t. t\<lparr>signal := 0\<rparr>) s))"

section \<open>What sending changes\<close>

text \<open>The identity of a task: everything but its pending signals, its state and the links
  of the run queue.\<close>

definition ident :: "task_struct \<Rightarrow> task_struct" where
  "ident t = t\<lparr>signal := 0, state := TASK_RUNNING, next_run := None, prev_run := None\<rparr>"

lemma ident_but_links: "ident (but_links t) = ident t"
  by (simp add: ident_def but_links_def)

lemma ident_state [simp]: "ident (t\<lparr>state := x\<rparr>) = ident t" "ident (t\<lparr>signal := y\<rparr>) = ident t"
  by (simp_all add: ident_def)

lemma ident_cong: "but_links t = but_links u \<Longrightarrow> ident t = ident u"
  by (metis ident_but_links)

lemma identD:
  assumes "ident t = ident u"
  shows "pid t = pid u" "pgrp t = pgrp u" "session t = session u" "uid t = uid u" "euid t = euid u" "suid t = suid u"
    "action t = action u"
proof -
  have "pid (ident t) = pid (ident u)" "pgrp (ident t) = pgrp (ident u)" "session (ident t) = session (ident u)"
    "uid (ident t) = uid (ident u)" "euid (ident t) = euid (ident u)" "suid (ident t) = suid (ident u)"
    "action (ident t) = action (ident u)" using assms by simp_all
  then show "pid t = pid u" "pgrp t = pgrp u" "session t = session u" "uid t = uid u" "euid t = euid u" "suid t = suid u"
    "action t = action u"
    by (simp_all add: ident_def)
qed

text \<open>A step that sends to \<open>p\<close> only.\<close>

definition sent_to :: "nat \<Rightarrow> ksys \<Rightarrow> ksys \<Rightarrow> bool" where
  "sent_to p s s' \<longleftrightarrow> current s' = current s \<and> (\<forall>i. ident (task s' i) = ident (task s i)) \<and>
     (\<forall>i. i \<noteq> p \<longrightarrow> but_links (task s' i) = but_links (task s i))"

definition awake :: "nat \<Rightarrow> task_struct \<Rightarrow> bool" where
  "awake sig t \<longleftrightarrow> state t = TASK_STOPPED \<and> (sig = SIGKILL \<or> sig = SIGCONT) \<or>
     state t = TASK_INTERRUPTIBLE \<and> \<not> sig_ignored sig t"

definition pending_after :: "nat \<Rightarrow> task_struct \<Rightarrow> u16" where
  "pending_after sig t =
    (let w = (if sig = SIGKILL \<or> sig = SIGCONT then signal t AND NOT (sigmask SIGSTOP OR sigmask SIGTSTP) else signal t);
         w = (if sig = SIGSTOP \<or> sig = SIGTSTP then w AND NOT (sigmask SIGCONT) else w)
     in if sig_ignored sig t then w else w OR sigmask sig)"

lemma wake_up_process_sent:
  assumes "runqueue s xs" and "p < MAX_TASKS"
  shows "\<exists>s' xs'. wake_up_process p s = Inr s' \<and> runqueue s' xs' \<and> sent_to p s s' \<and>
    state (task s' p) = TASK_RUNNING \<and> signal (task s' p) = signal (task s p) \<and> action (task s' p) = action (task s p)"
proof -
  from wake_up_process_ring[OF assms] obtain s' where s': "wake_up_process p s = Inr s'" "runqueue s' (enqueue p xs)"
    "tasks_map (\<lambda>i t. if i = p then t\<lparr>state := TASK_RUNNING\<rparr> else t) s s'" by blast
  then have b: "but_links (task s' i) = but_links (if i = p then (task s i)\<lparr>state := TASK_RUNNING\<rparr> else task s i)" for i
    by (simp add: tasks_map_def)
  have id: "ident (task s' i) = ident (task s i)" for i using ident_cong[OF b[of i]] by (simp split: if_splits)
  have "sent_to p s s'" using s'(3) b id by (simp add: sent_to_def tasks_map_def)
  moreover have "state (task s' p) = TASK_RUNNING" "signal (task s' p) = signal (task s p)"
    using but_links_eqD(1,5)[OF b[of p]] by simp_all
  ultimately show ?thesis using s' identD(7)[OF id] by blast
qed

lemma sent_to_trans: "sent_to p s s1 \<Longrightarrow> sent_to p s1 s2 \<Longrightarrow> sent_to p s s2"
  by (simp add: sent_to_def)

lemma sent_to_refl: "sent_to p s s"
  by (simp add: sent_to_def)

lemma sent_to_upd: "\<lbrakk>\<And>t. ident (f t) = ident t\<rbrakk> \<Longrightarrow> sent_to p s (upd p f s)"
  by (simp add: sent_to_def)

lemma sig_ignored_cong: "action t = action u \<Longrightarrow> sig_ignored sig t = sig_ignored sig u"
  by (simp add: sig_ignored_def)

lemma generate_sent:
  assumes "runqueue s xs" and "p < MAX_TASKS"
  shows "\<exists>s' xs'. generate sig p s = Inr s' \<and> runqueue s' xs' \<and> sent_to p s s' \<and>
    signal (task s' p) = (if sig_ignored sig (task s p) then signal (task s p) else signal (task s p) OR sigmask sig) \<and>
    state (task s' p) = (if \<not> sig_ignored sig (task s p) \<and> state (task s p) = TASK_INTERRUPTIBLE
       then TASK_RUNNING else state (task s p))"
proof (cases "sig_ignored sig (task s p)")
  case True
  then have "generate sig p s = Inr s" by (auto simp: generate_def sig_ignored_def)
  with True assms(1) show ?thesis by (auto simp: sent_to_refl)
next
  case False
  let ?s = "upd p (\<lambda>t. t\<lparr>signal := signal t OR sigmask sig\<rparr>) s"
  have q: "runqueue ?s xs" using assms(1) by (simp add: runqueue_upd)
  have u: "sent_to p s ?s" by (rule sent_to_upd) simp
  have g: "generate sig p s = (if state (task s p) = TASK_INTERRUPTIBLE then wake_up_process p ?s else Inr ?s)"
    using False by (auto simp: generate_def sig_ignored_def Let_def)
  show ?thesis
  proof (cases "state (task s p) = TASK_INTERRUPTIBLE")
    case True
    with g wake_up_process_sent[OF q assms(2)] False sent_to_trans[OF u] show ?thesis by fastforce
  next
    case False
    with g q u \<open>\<not> sig_ignored sig (task s p)\<close> show ?thesis by auto
  qed
qed

lemma send_sig_allowed:
  assumes "runqueue s xs" and "p < MAX_TASKS" and "may_signal sig p priv s"
  shows "\<exists>s' xs'. send_sig sig p priv s = Inr (0, s') \<and> runqueue s' xs' \<and> sent_to p s s' \<and>
    signal (task s' p) = pending_after sig (task s p) \<and>
    state (task s' p) = (if awake sig (task s p) then TASK_RUNNING else state (task s p))"
proof -
  let ?kc = "sig = SIGKILL \<or> sig = SIGCONT"
  let ?f = "\<lambda>t. t\<lparr>signal := signal t AND NOT (sigmask SIGSTOP OR sigmask SIGTSTP)\<rparr>"
  let ?g = "\<lambda>t. t\<lparr>signal := signal t AND NOT (sigmask SIGCONT)\<rparr>"
  obtain s1 xs1 where s1: "(if ?kc then bindr (if state (task s p) = TASK_STOPPED then wake_up_process p s else Inr s)
        (\<lambda>s. Inr (upd p ?f s)) else Inr s) = Inr s1" "runqueue s1 xs1" "sent_to p s s1"
      "signal (task s1 p) = (if ?kc then signal (task s p) AND NOT (sigmask SIGSTOP OR sigmask SIGTSTP) else signal (task s p))"
      "state (task s1 p) = (if ?kc \<and> state (task s p) = TASK_STOPPED then TASK_RUNNING else state (task s p))"
  proof (cases "?kc \<and> state (task s p) = TASK_STOPPED")
    case True
    from wake_up_process_sent[OF assms(1,2)] obtain s0 xs0 where s0: "wake_up_process p s = Inr s0" "runqueue s0 xs0"
      "sent_to p s s0" "state (task s0 p) = TASK_RUNNING" "signal (task s0 p) = signal (task s p)" by blast
    have "sent_to p s (upd p ?f s0)" by (rule sent_to_trans[OF s0(3)]) (rule sent_to_upd, simp)
    with that[of "upd p ?f s0" xs0] True s0 show thesis by (simp add: runqueue_upd)
  next
    case False
    have "sent_to p s (upd p ?f s)" by (rule sent_to_upd) simp
    with that[of "upd p ?f s" xs] that[of s xs] False assms(1) show thesis
      by (cases ?kc) (simp_all add: runqueue_upd sent_to_refl)
  qed
  define s2 where "s2 = (if sig = SIGSTOP \<or> sig = SIGTSTP then upd p ?g s1 else s1)"
  have q2: "runqueue s2 xs1" using s1(2) by (simp add: s2_def runqueue_upd)
  have "sent_to p s1 s2" unfolding s2_def by (simp add: sent_to_refl sent_to_upd)
  with s1(3) have u2: "sent_to p s s2" by (rule sent_to_trans)
  have ign: "sig_ignored sig (task s2 p) = sig_ignored sig (task s p)"
    using u2 by (intro sig_ignored_cong) (auto simp: sent_to_def dest: identD(7))
  from generate_sent[OF q2 assms(2), of sig] obtain s' xs' where s': "generate sig p s2 = Inr s'" "runqueue s' xs'"
    "sent_to p s2 s'"
    "signal (task s' p) = (if sig_ignored sig (task s p) then signal (task s2 p) else signal (task s2 p) OR sigmask sig)"
    "state (task s' p) = (if \<not> sig_ignored sig (task s p) \<and> state (task s2 p) = TASK_INTERRUPTIBLE
       then TASK_RUNNING else state (task s2 p))" unfolding ign by blast
  have ev: "send_sig sig p priv s = Inr (0, s')"
    unfolding send_sig_def using assms(3) s1(1) s'(1) by (simp add: s2_def)
  have "state (task s2 p) = state (task s1 p)" by (simp add: s2_def)
  then have "state (task s' p) = (if awake sig (task s p) then TASK_RUNNING else state (task s p))"
    using s'(5) s1(5) by (auto simp: awake_def)
  moreover have "signal (task s' p) = pending_after sig (task s p)"
    using s'(4) s1(4) by (simp add: pending_after_def s2_def Let_def)
  ultimately show ?thesis using ev s'(2) sent_to_trans[OF u2 s'(3)] by blast
qed

lemma send_sig_denied: "\<not> may_signal sig p priv s \<Longrightarrow> send_sig sig p priv s = Inr (- EPERM, s)"
  by (simp add: send_sig_def)

lemma may_signal_cong:
  assumes "\<And>i. ident (task s' i) = ident (task s i)" and "current s' = current s"
  shows "may_signal sig p priv s' = may_signal sig p priv s"
  using identD[OF assms(1)[of p]] identD[OF assms(1)[of "current s"]] assms(2)
  by (simp add: may_signal_def suser_def Let_def)

text \<open>A step that changes only tasks for which \<open>P\<close> holds.\<close>

definition only_touches :: "(nat \<Rightarrow> bool) \<Rightarrow> ksys \<Rightarrow> ksys \<Rightarrow> bool" where
  "only_touches P s s' \<longleftrightarrow> current s' = current s \<and> (\<forall>i. ident (task s' i) = ident (task s i)) \<and>
     (\<forall>i. but_links (task s' i) \<noteq> but_links (task s i) \<longrightarrow> P i)"

lemma only_touches_refl: "only_touches P s s"
  by (simp add: only_touches_def)

lemma only_touches_trans:
  assumes "only_touches P s s1" and "only_touches Q s1 s2" and "\<And>i. P i \<Longrightarrow> R i" and "\<And>i. Q i \<Longrightarrow> R i"
  shows "only_touches R s s2"
  using assms unfolding only_touches_def by metis

lemma send_sig_any:
  assumes "runqueue s xs" and "p < MAX_TASKS"
  shows "\<exists>r s' xs'. send_sig sig p priv s = Inr (r, s') \<and> runqueue s' xs' \<and> r \<in> {0, - EPERM} \<and>
    only_touches (\<lambda>i. i = p \<and> may_signal sig p priv s) s s'"
proof (cases "may_signal sig p priv s")
  case True
  with send_sig_allowed[OF assms True] show ?thesis by (fastforce simp: only_touches_def sent_to_def)
next
  case False
  with assms(1) send_sig_denied[OF False] show ?thesis by (auto simp: only_touches_refl)
qed

lemma only_touches_cong:
  assumes "only_touches P s s1"
  shows "may_signal sig p priv s1 = may_signal sig p priv s" "pid (task s1 p) = pid (task s p)"
    "pgrp (task s1 p) = pgrp (task s p)" "current s1 = current s"
proof -
  have i: "\<And>i. ident (task s1 i) = ident (task s i)" "current s1 = current s" using assms by (auto simp: only_touches_def)
  show "may_signal sig p priv s1 = may_signal sig p priv s" using may_signal_cong i by blast
  show "pid (task s1 p) = pid (task s p)" "pgrp (task s1 p) = pgrp (task s p)" using identD(1,2)[OF i(1)] by auto
  show "current s1 = current s" by (rule i(2))
qed

lemma kill_pg_from_ok:
  assumes "runqueue s xs" and "set ps \<subseteq> {..<MAX_TASKS}" and "err \<in> {0, - EPERM, - ESRCH}"
  shows "\<exists>r s' xs'. kill_pg_from ps pg sig priv err s = Inr (r, s') \<and> runqueue s' xs' \<and> r \<in> {0, - EPERM, - ESRCH} \<and>
    only_touches (\<lambda>i. pgrp (task s i) = pg \<and> may_signal sig i priv s) s s'"
  using assms
proof (induction ps arbitrary: s xs err)
  case Nil
  then show ?case by (auto simp: only_touches_refl)
next
  case (Cons p ps)
  show ?case
  proof (cases "pgrp (task s p) = pg")
    case True
    from send_sig_any[OF Cons.prems(1), of p sig priv] Cons.prems(2) obtain r1 s1 xs1 where s1:
      "send_sig sig p priv s = Inr (r1, s1)" "runqueue s1 xs1" "r1 \<in> {0, - EPERM}"
      "only_touches (\<lambda>i. i = p \<and> may_signal sig p priv s) s s1" by auto
    from Cons.IH[OF s1(2), of r1] Cons.prems(2) s1(3) obtain r s' xs' where s':
      "kill_pg_from ps pg sig priv r1 s1 = Inr (r, s')" "runqueue s' xs'" "r \<in> {0, - EPERM, - ESRCH}"
      "only_touches (\<lambda>i. pgrp (task s1 i) = pg \<and> may_signal sig i priv s1) s1 s'" by auto
    have "only_touches (\<lambda>i. pgrp (task s i) = pg \<and> may_signal sig i priv s) s s'"
      by (rule only_touches_trans[OF s1(4) s'(4)]) (use True only_touches_cong[OF s1(4)] in auto)
    with True s1(1) s' show ?thesis by auto
  next
    case False
    with Cons show ?thesis by auto
  qed
qed

lemma kill_all_from_ok:
  assumes "runqueue s xs" and "set ps \<subseteq> {..<MAX_TASKS}" and "retval \<in> {0, - EPERM, - ESRCH}"
  shows "\<exists>r s' xs'. kill_all_from ps sig count retval s = Inr (r, s') \<and> runqueue s' xs' \<and> r \<in> {0, - EPERM, - ESRCH} \<and>
    only_touches (\<lambda>i. pid (task s i) > 1 \<and> i \<noteq> current s \<and> may_signal sig i False s) s s'"
  using assms
proof (induction ps arbitrary: s xs count retval)
  case Nil
  then show ?case by (auto simp: only_touches_refl)
next
  case (Cons p ps)
  show ?case
  proof (cases "pid (task s p) > 1 \<and> p \<noteq> current s")
    case True
    from send_sig_any[OF Cons.prems(1), of p sig False] Cons.prems(2) obtain r1 s1 xs1 where s1:
      "send_sig sig p False s = Inr (r1, s1)" "runqueue s1 xs1" "r1 \<in> {0, - EPERM}"
      "only_touches (\<lambda>i. i = p \<and> may_signal sig p False s) s s1" by auto
    let ?rv = "if r1 \<noteq> - EPERM then r1 else retval"
    from Cons.IH[OF s1(2), of ?rv "count + 1"] Cons.prems(2,3) s1(3) obtain r s' xs' where s':
      "kill_all_from ps sig (count + 1) ?rv s1 = Inr (r, s')" "runqueue s' xs'" "r \<in> {0, - EPERM, - ESRCH}"
      "only_touches (\<lambda>i. pid (task s1 i) > 1 \<and> i \<noteq> current s1 \<and> may_signal sig i False s1) s1 s'" by auto
    have "only_touches (\<lambda>i. pid (task s i) > 1 \<and> i \<noteq> current s \<and> may_signal sig i False s) s s'"
      by (rule only_touches_trans[OF s1(4) s'(4)]) (use True only_touches_cong[OF s1(4)] in auto)
    with True s1(1) s' show ?thesis by auto
  next
    case False
    with Cons show ?thesis by auto
  qed
qed

lemma kill_process_ok:
  assumes "runqueue s xs"
  shows "\<exists>r s' xs'. kill_process pd sig priv s = Inr (r, s') \<and> runqueue s' xs' \<and> r \<in> {0, - EPERM, - ESRCH} \<and>
    only_touches (\<lambda>i. pid (task s i) = pd \<and> may_signal sig i False s) s s'"
proof (cases "find (\<lambda>p. pid (task s p) = pd) [0..<MAX_TASKS]")
  case None
  with assms show ?thesis by (auto simp: kill_process_def only_touches_refl)
next
  case (Some p)
  then have p: "p < MAX_TASKS" "pid (task s p) = pd"
    by (auto simp: find_Some_iff simp del: upt.simps)
  from send_sig_any[OF assms p(1), of sig False] obtain r s' xs' where s': "send_sig sig p False s = Inr (r, s')"
    "runqueue s' xs'" "r \<in> {0, - EPERM}" "only_touches (\<lambda>i. i = p \<and> may_signal sig p False s) s s'" by blast
  from only_touches_trans[OF s'(4) only_touches_refl[of "\<lambda>_. False"]] p(2)
  have "only_touches (\<lambda>i. pid (task s i) = pd \<and> may_signal sig i False s) s s'" by auto
  with Some s' show ?thesis by (auto simp: kill_process_def)
qed

section \<open>Properties\<close>

text \<open>The tasks a call of \<open>kill\<close> addresses.\<close>

definition kill_targets :: "int \<Rightarrow> ksys \<Rightarrow> nat \<Rightarrow> bool" where
  "kill_targets pd s i \<longleftrightarrow>
    (if pd = 0 then pgrp (task s i) = pgrp (task s (current s))
     else if pd = - 1 then pid (task s i) > 1 \<and> i \<noteq> current s
     else if pd < 0 then pgrp (task s i) = - pd else pid (task s i) = pd)"

text \<open>C13: \<open>sys_kill\<close> always returns, keeps the run queue well formed, and is safe: every task
  it changes is one that the call addresses and that the permission rule lets the caller
  signal; of a task it changes at most the pending signals and the state.\<close>

theorem sys_kill_safe:
  assumes "runqueue s xs"
  shows "\<exists>r s' xs'. sys_kill pd sig s = Inr (r, s') \<and> runqueue s' xs' \<and> r \<in> {0, - EPERM, - ESRCH, - EINVAL} \<and>
    (r = - EINVAL \<longleftrightarrow> unat sig = 0 \<or> unat sig > NSIG) \<and>
    (\<forall>i. ident (task s' i) = ident (task s i)) \<and>
    (\<forall>i. but_links (task s' i) \<noteq> but_links (task s i) \<longrightarrow> kill_targets pd s i \<and> may_signal (unat sig) i False s)"
proof -
  have u: "unat sig < 256" using unsigned_less[of sig, where ?'a = nat] by simp
  have chk: "(word_of_int (int (unat sig) - 1) :: u16) > of_nat (NSIG - 1) \<longleftrightarrow> unat sig = 0 \<or> unat sig > NSIG"
  proof (cases "unat sig")
    case 0
    have "(- 1 :: u16) = 65535" by simp
    then have "(of_nat (NSIG - 1) :: u16) < - 1" by (simp only:) (simp add: word_less_nat_alt)
    with 0 show ?thesis by simp
  next
    case (Suc n)
    then have "(word_of_int (int (unat sig) - 1) :: u16) = of_nat n" by simp
    with Suc u show ?thesis by (auto simp: word_less_nat_alt)
  qed
  have ps: "set [0..<MAX_TASKS] \<subseteq> {..<MAX_TASKS}" by auto
  have fin: ?thesis if "unat sig \<noteq> 0" "unat sig \<le> NSIG" "sys_kill pd sig s = K" "K = Inr (r, s')" "runqueue s' xs'"
      "r \<in> {0, - EPERM, - ESRCH}" "only_touches (\<lambda>i. kill_targets pd s i \<and> may_signal (unat sig) i False s) s s'"
    for K r s' xs'
    using that by (intro exI[of _ r] exI[of _ s'] exI[of _ xs']) (auto simp: only_touches_def)
  show ?thesis
  proof (cases "unat sig = 0 \<or> unat sig > NSIG")
    case True
    then have "sys_kill pd sig s = Inr (- EINVAL, s)" unfolding sys_kill_def Let_def chk by simp
    with True assms show ?thesis by (intro exI[of _ "- EINVAL"] exI[of _ s] exI[of _ xs]) simp
  next
    case False
    then have ev: "sys_kill pd sig s = (if pd = 0 then kill_pg (pgrp (task s (current s))) (unat sig) False s
       else if pd = - 1 then kill_all_from [0..<MAX_TASKS] (unat sig) 0 0 s
       else if pd < 0 then kill_pg (- pd) (unat sig) False s else kill_process pd (unat sig) False s)"
      unfolding sys_kill_def Let_def chk by (simp only: if_False simp_thms)
    note pg = kill_pg_from_ok[OF assms ps, of "- ESRCH" _ "unat sig" False, folded kill_pg_def]
    have "\<exists>r s' xs'. sys_kill pd sig s = Inr (r, s') \<and> runqueue s' xs' \<and> r \<in> {0, - EPERM, - ESRCH} \<and>
       only_touches (\<lambda>i. kill_targets pd s i \<and> may_signal (unat sig) i False s) s s'"
    proof (cases "pd < 0 \<or> pd = 0")
      case True
      then consider "pd = 0" | "pd = - 1" | "pd < 0" "pd \<noteq> - 1" by linarith
      then show ?thesis
      proof cases
        case 1
        show ?thesis unfolding ev using pg[of "pgrp (task s (current s))"] 1 by (simp add: kill_targets_def)
      next
        case 2
        show ?thesis unfolding ev using kill_all_from_ok[OF assms ps, of 0 "unat sig" 0] 2 by (simp add: kill_targets_def)
      next
        case 3
        then show ?thesis using pg[of "- pd"] unfolding ev kill_targets_def by simp
      qed
    next
      case False
      then show ?thesis using kill_process_ok[OF assms, of pd "unat sig" False] unfolding ev kill_targets_def by simp
    qed
    then obtain r s' xs' where "sys_kill pd sig s = Inr (r, s')" "runqueue s' xs'" "r \<in> {0, - EPERM, - ESRCH}"
      "only_touches (\<lambda>i. kill_targets pd s i \<and> may_signal (unat sig) i False s) s s'" by blast
    with False show ?thesis by (intro fin[of "Inr (r, s')"]) auto
  qed
qed

text \<open>a signal that may be sent is recorded: \<open>send_sig\<close> returns 0, adds the signal to the
  pending set unless the task ignores it (a kill or continue first cancels pending stops, a
  stop cancels a pending continue), makes the task runnable if it sleeps interruptibly and
  does not ignore the signal, or if it is stopped and the signal kills or continues it,
  and leaves all other tasks alone; a signal that may not be sent changes nothing.\<close>

theorem send_sig_effect:
  assumes "runqueue s xs" and "p < MAX_TASKS"
  shows "if may_signal sig p priv s
    then \<exists>s' xs'. send_sig sig p priv s = Inr (0, s') \<and> runqueue s' xs' \<and>
      signal (task s' p) = pending_after sig (task s p) \<and>
      state (task s' p) = (if awake sig (task s p) then TASK_RUNNING else state (task s p)) \<and>
      (\<forall>i. i \<noteq> p \<longrightarrow> but_links (task s' i) = but_links (task s i))
    else send_sig sig p priv s = Inr (- EPERM, s)"
proof (cases "may_signal sig p priv s")
  case True
  with send_sig_allowed[OF assms True] show ?thesis by (auto simp: sent_to_def)
qed (simp add: send_sig_denied)

lemma find_first_non_zero_ex:
  assumes "w \<noteq> 0"
  shows "find_first_non_zero w < NSIG \<and> bit w (find_first_non_zero w) \<and> (\<forall>j < find_first_non_zero w. \<not> bit w j)"
proof -
  from assms obtain k where k: "bit w k" by (metis bit_eqI bit_0_eq bot_apply bot_bool_def)
  then have "k < NSIG" using bit_imp_le_length[of w k] by simp
  with k obtain i where i: "find (bit w) [0..<NSIG] = Some i"
    by (cases "find (bit w) [0..<NSIG]") (auto simp: find_None_iff simp del: upt.simps)
  then obtain m where m: "m < NSIG" "bit w ([0..<NSIG] ! m)" "i = [0..<NSIG] ! m" "\<And>j. j < m \<Longrightarrow> \<not> bit w ([0..<NSIG] ! j)"
    unfolding find_Some_iff by (auto simp del: upt.simps)
  then have "i = m" by (simp del: upt.simps)
  moreover have "\<not> bit w j" if "j < m" for j using m(4)[OF that] m(1) that by (simp del: upt.simps)
  ultimately show ?thesis using m(1,2,3) i by (simp add: find_first_non_zero_def del: upt.simps)
qed

text \<open>delivery of the lowest pending signal: a caught signal is delivered at once and
  its handler is reset to the default; but \<open>sig_check\<close> then clears the whole set, so
  every other signal pending at that moment is lost.\<close>

theorem sig_check_delivers_one:
  assumes "signal (task s (current s)) \<noteq> 0"
    and "action (task s (current s)) (find_first_non_zero (signal (task s (current s)))) = Handler h"
  defines "n \<equiv> find_first_non_zero (signal (task s (current s)))"
  shows "\<exists>s'. sig_check (Suc k) back s = Inr (Enter_handler h (Suc n), s') \<and> bit (signal (task s (current s))) n \<and>
    (\<forall>j<n. \<not> bit (signal (task s (current s))) j) \<and>
    action (task s' (current s)) n = SIG_DFL \<and> signal (task s' (current s)) = 0"
  using assms find_first_non_zero_ex[OF assms(1)] by (simp add: sig_check_def Let_def)

text \<open>C14: \<open>do_signal\<close> never returns when the lowest pending signal is ignored, or is caught
  by nobody and the process is the first one: the loop leaves the pending bit set and looks
  at it again, so no number of iterations is enough.\<close>

theorem do_signal_hangs:
  assumes "signal (task s (current s)) \<noteq> 0"
    and "let a = action (task s (current s)) (find_first_non_zero (signal (task s (current s))))
      in a = SIG_IGN \<or> a = SIG_DFL \<and> pid (task s (current s)) = 1"
  shows "do_signal n back s = Inl Stuck"
proof (induction n)
  case (Suc n)
  from assms(2) show ?case
    using assms(1) Suc find_first_non_zero_ex[OF assms(1)] by (auto simp: Let_def)
qed simp

text \<open>\<open>SIGKILL\<close> and \<open>SIGSTOP\<close> cannot be caught or ignored: \<open>sys_signal\<close> refuses them and
  every signal number out of range, and for the others changes the action of the caller for
  that signal and nothing else.\<close>

theorem sys_signal_guard:
  assumes "- 32768 \<le> signr" and "signr \<le> 32767"
  shows "if 1 \<le> signr \<and> signr \<le> int NSIG \<and> signr \<noteq> int SIGKILL \<and> signr \<noteq> int SIGSTOP
    then sys_signal signr h s =
      (0, upd (current s) (\<lambda>t. t\<lparr>action := (action t)(nat (signr - 1) := h)\<rparr>) s)
    else sys_signal signr h s = (- EINVAL, s)"
proof (cases "1 \<le> signr")
  case True
  then obtain m where m: "signr = int m + 1" by (metis add.commute le_add_diff_inverse zle_iff_zadd)
  with assms(2) have "m < 65536" by simp
  with m show ?thesis by (auto simp: sys_signal_def Let_def word_less_nat_alt word_unat_eq_iff)
next
  case False
  have "(signr - 1) mod 65536 = (signr - 1 + 65536) mod 65536" by (rule mod_add_self2[symmetric])
  also have "\<dots> = signr + 65535" using assms(1) False by (subst mod_pos_pos_trivial) auto
  finally have "unat (word_of_int (signr - 1) :: u16) = nat (signr + 65535)"
    by (simp add: unsigned_of_int take_bit_eq_mod del: of_int_diff)
  moreover have "15 < nat (signr + 65535)" using assms(1) by simp
  ultimately show ?thesis using False by (simp add: sys_signal_def Let_def word_less_nat_alt)
qed

section \<open>Witnesses\<close>

text \<open>Task 7 (root, process 42) runs, task 4 (process 1, user 5) is runnable too.\<close>

definition sig_sys :: ksys where
  "sig_sys = upd 4 (\<lambda>t. t\<lparr>pid := 1, uid := 5, euid := 5, suid := 5, pgrp := 1\<rparr>)
     (upd 7 (\<lambda>t. t\<lparr>pid := 42, pgrp := 42, signal := 0x4002, action := (\<lambda>_. SIG_DFL)(1 := Handler 0x1234)\<rparr>) two_sys)"

lemma sig_sys_runqueue: "runqueue sig_sys [4, 7]"
  using two_runqueue by (simp add: sig_sys_def runqueue_upd)

theorem sys_kill_safe_witness:
  "\<exists>r s' xs'. sys_kill 1 15 sig_sys = Inr (r, s') \<and> runqueue s' xs' \<and> r \<in> {0, - EPERM, - ESRCH, - EINVAL} \<and>
    r \<noteq> - EINVAL \<and> (\<forall>i. ident (task s' i) = ident (task sig_sys i)) \<and>
    (\<forall>i. but_links (task s' i) \<noteq> but_links (task sig_sys i) \<longrightarrow> kill_targets 1 sig_sys i \<and> may_signal 15 i False sig_sys)"
  using sys_kill_safe[OF sig_sys_runqueue, of 1 15] by auto

theorem send_sig_effect_witness:
  "\<exists>s' xs'. send_sig 15 4 False sig_sys = Inr (0, s') \<and> runqueue s' xs' \<and> signal (task s' 4) = 0x4000"
proof -
  have "may_signal 15 4 False sig_sys" by (simp add: may_signal_def suser_def sig_sys_def two_sys_def idle_task_def)
  moreover have "pending_after 15 (task sig_sys 4) = 0x4000"
    by (simp add: pending_after_def sig_ignored_def sigmask_def sig_sys_def two_sys_def idle_task_def)
  ultimately show ?thesis using send_sig_effect[OF sig_sys_runqueue, of 4 15 False] by auto
qed

lemma sig_sys_first: "find_first_non_zero (0x4002 :: u16) = 1"
  by (simp add: find_first_non_zero_def upt_rec)

theorem sig_check_delivers_one_witness:
  "\<exists>s'. sig_check 1 (\<lambda>s. Inr s) sig_sys = Inr (Enter_handler 0x1234 2, s') \<and> bit (signal (task sig_sys 7)) 14 \<and>
     signal (task s' 7) = 0"
  using sig_check_delivers_one[of sig_sys "0x1234" 0 "\<lambda>s. Inr s"] sig_sys_first
  by (auto simp: sig_sys_def two_sys_def)

theorem do_signal_hangs_witness:
  "\<forall>n. do_signal n (\<lambda>s. Inr s) (upd 7 (\<lambda>t. t\<lparr>pid := 1, action := (\<lambda>_. SIG_DFL)\<rparr>) sig_sys) = Inl Stuck"
  using do_signal_hangs[of "upd 7 (\<lambda>t. t\<lparr>pid := 1, action := (\<lambda>_. SIG_DFL)\<rparr>) sig_sys"]
  by (simp add: sig_sys_def two_sys_def)

theorem sys_signal_guard_witness:
  "sys_signal 9 SIG_IGN sig_sys = (- EINVAL, sig_sys) \<and> fst (sys_signal 2 SIG_IGN sig_sys) = 0"
  using sys_signal_guard[of 9 SIG_IGN sig_sys] sys_signal_guard[of 2 SIG_IGN sig_sys] by simp

end
