(* ===== verification/Bitops.thy ===== *)
theory Bitops
  imports Prelude
begin

text \<open>
  Bit arrays in memory, \<^verbatim>\<open>arch/i86/lib/bitops.c\<close>: the allocation bitmaps of the file
  systems, the set of descriptors to be closed on \<^verbatim>\<open>exec\<close> and the pending signals are
  accessed through them. An array is a function from byte offsets to bytes. The
  interface the allocators rely on is the locale \<open>bitmap\<close>.
\<close>

section \<open>Model\<close>

type_synonym bytes = "nat \<Rightarrow> u8"

definition clear_bit :: "u16 \<Rightarrow> bytes \<Rightarrow> u8 \<times> bytes" where
  "clear_bit b addr =
    (let ptr = unat (b div 8);
         b = unat (b mod 8);
         mask = push_bit b (1 :: u16);
         mask = mask AND ucast (addr ptr)
     in (ucast (drop_bit b mask), addr(ptr := ucast (ucast (addr ptr) AND NOT mask))))"

definition set_bit :: "u16 \<Rightarrow> bytes \<Rightarrow> u8 \<times> bytes" where
  "set_bit b addr =
    (let ptr = unat (b div 8);
         b = unat (b mod 8);
         mask = push_bit b (1 :: u16);
         r = ucast (addr ptr) AND mask
     in (ucast (drop_bit b r), addr(ptr := ucast (ucast (addr ptr) OR mask))))"

definition test_bit :: "u16 \<Rightarrow> bytes \<Rightarrow> bool" where
  "test_bit b addr \<longleftrightarrow> push_bit (unat (b mod 8)) (1 :: u16) AND ucast (addr (unat (b div 8))) \<noteq> 0"

primrec find_zero_loop :: "nat \<Rightarrow> u16 \<Rightarrow> bytes \<Rightarrow> u16 \<Rightarrow> u16" where
  "find_zero_loop 0 pi addr len = pi"
| "find_zero_loop (Suc n) pi addr len =
    (if pi < len then if \<not> test_bit pi addr then pi else find_zero_loop n (pi + 1) addr len else pi)"

definition find_first_zero_bit :: "bytes \<Rightarrow> u16 \<Rightarrow> u16" where
  "find_first_zero_bit addr len = find_zero_loop (unat len) 0 addr len"

primrec find_non_zero_loop :: "nat \<Rightarrow> u16 \<Rightarrow> bytes \<Rightarrow> u16 \<Rightarrow> u16" where
  "find_non_zero_loop 0 pi addr len = pi"
| "find_non_zero_loop (Suc n) pi addr len =
    (if pi < len then if test_bit pi addr then pi else find_non_zero_loop n (pi + 1) addr len else pi)"

definition find_first_non_zero_bit :: "bytes \<Rightarrow> u16 \<Rightarrow> u16" where
  "find_first_non_zero_bit addr len = find_non_zero_loop (unat len) 0 addr len"

section \<open>An array as a set of bit numbers\<close>

definition bit_at :: "bytes \<Rightarrow> nat \<Rightarrow> bool" where
  "bit_at addr n \<longleftrightarrow> bit (addr (n div 8)) (n mod 8)"

lemma unat_div8 [simp]: "unat (b div 8 :: u16) = unat b div 8"
  by (simp add: unat_div)

lemma unat_mod8 [simp]: "unat (b mod 8 :: u16) = unat b mod 8"
  by (simp add: unat_mod)

lemma and_bit_neq_0: "(push_bit k (1 :: u16) AND w \<noteq> 0) = bit w k"
  using and_exp_eq_0_iff_not_bit[of w k] by (simp add: push_bit_of_1 and.commute)

lemma test_bit_at: "test_bit b addr = bit_at addr (unat b)"
  unfolding test_bit_def and_bit_neq_0 bit_at_def by (auto simp: bit_simps)

lemma set_bit_at: "bit_at (snd (set_bit b addr)) n = (n = unat b \<or> bit_at addr n)"
proof (cases "n div 8 = unat b div 8")
  case True
  then have "n = unat b \<longleftrightarrow> n mod 8 = unat b mod 8" by (metis div_mult_mod_eq)
  moreover have "n mod 8 < 8" "unat b mod 8 < 8" by simp_all
  ultimately show ?thesis using True by (auto simp: set_bit_def bit_at_def Let_def bit_simps)
qed (auto simp: set_bit_def bit_at_def Let_def)

lemma clear_bit_at: "bit_at (snd (clear_bit b addr)) n = (n \<noteq> unat b \<and> bit_at addr n)"
proof (cases "n div 8 = unat b div 8")
  case True
  then have "n = unat b \<longleftrightarrow> n mod 8 = unat b mod 8" by (metis div_mult_mod_eq)
  moreover have "n mod 8 < 8" "unat b mod 8 < 8" by simp_all
  ultimately show ?thesis using True by (auto simp: clear_bit_def bit_at_def Let_def bit_simps)
qed (auto simp: clear_bit_def bit_at_def Let_def)

lemma set_bit_old: "fst (set_bit b addr) = (if bit_at addr (unat b) then 1 else 0)"
proof (rule bit_word_eqI)
  fix n
  show "bit (fst (set_bit b addr)) n = bit (if bit_at addr (unat b) then 1 else 0 :: u8) n"
    by (cases n) (auto simp: set_bit_def bit_at_def Let_def bit_simps)
qed

lemma clear_bit_old: "fst (clear_bit b addr) = (if bit_at addr (unat b) then 1 else 0)"
  by (rule bit_word_eqI) (auto simp: clear_bit_def bit_at_def Let_def bit_simps)

lemma set_bit_frame: "k \<noteq> unat b div 8 \<Longrightarrow> snd (set_bit b addr) k = addr k"
  by (simp add: set_bit_def Let_def)

lemma clear_bit_frame: "k \<noteq> unat b div 8 \<Longrightarrow> snd (clear_bit b addr) k = addr k"
  by (simp add: clear_bit_def Let_def)

lemma find_zero_loop_spec:
  assumes "unat pi + n = unat len" and "\<And>j. j < unat pi \<Longrightarrow> bit_at addr j"
  defines "r \<equiv> unat (find_zero_loop n pi addr len)"
  shows "r \<le> unat len \<and> (\<forall>j<r. bit_at addr j) \<and> (r < unat len \<longrightarrow> \<not> bit_at addr r)"
  using assms(1,2) unfolding r_def
proof (induction n arbitrary: pi)
  case (Suc n)
  have lt: "pi < len" using Suc.prems(1) by (simp add: word_less_nat_alt)
  show ?case
  proof (cases "test_bit pi addr")
    case True
    have u: "unat (pi + 1) = Suc (unat pi)" using Suc.prems(1) u16_less[of len] by (simp add: unat_u16_plus)
    have "bit_at addr j" if "j < unat (pi + 1)" for j
      using that Suc.prems(2)[of j] True u by (cases "j = unat pi") (auto simp: test_bit_at)
    with Suc.IH[of "pi + 1"] Suc.prems(1) u lt True show ?thesis by simp
  next
    case False
    with lt Suc.prems show ?thesis by (simp add: test_bit_at word_less_nat_alt)
  qed
qed simp

lemma find_first_zero_bit_spec:
  defines "r \<equiv> \<lambda>addr len. unat (find_first_zero_bit addr len)"
  shows "r addr len \<le> unat len" "j < r addr len \<Longrightarrow> bit_at addr j" "r addr len < unat len \<Longrightarrow> \<not> bit_at addr (r addr len)"
  using find_zero_loop_spec[of 0 "unat len" len addr] by (simp_all add: r_def find_first_zero_bit_def)

section \<open>The interface of the allocators\<close>

text \<open>
  What \<open>minix_new_block\<close> and \<open>minix_new_inode\<close> ask of a bitmap of \<open>size\<close> bits: the first
  free bit, setting it, clearing it. In the locale: taking a bit gives one that was free,
  the least one; giving it back restores the set; a full bitmap has no bit to give.
\<close>

locale bitmap =
  fixes mem :: "'m \<Rightarrow> nat \<Rightarrow> bool" and set_b :: "nat \<Rightarrow> 'm \<Rightarrow> bool \<times> 'm" and clear_b :: "nat \<Rightarrow> 'm \<Rightarrow> bool \<times> 'm"
    and first_free :: "'m \<Rightarrow> nat" and cap :: nat
  assumes set_old: "b < cap \<Longrightarrow> fst (set_b b m) = mem m b"
    and set_mem: "b < cap \<Longrightarrow> mem (snd (set_b b m)) k = (k = b \<or> mem m k)"
    and clear_old: "b < cap \<Longrightarrow> fst (clear_b b m) = mem m b"
    and clear_mem: "b < cap \<Longrightarrow> mem (snd (clear_b b m)) k = (k \<noteq> b \<and> mem m k)"
    and free_le: "first_free m \<le> cap"
    and free_least: "k < first_free m \<Longrightarrow> mem m k"
    and free_free: "first_free m < cap \<Longrightarrow> \<not> mem m (first_free m)"
begin

lemma take_free:
  assumes "first_free m < cap"
  shows "fst (set_b (first_free m) m) = False"
    "mem (snd (set_b (first_free m) m)) k = (k = first_free m \<or> mem m k)"
    "first_free (snd (set_b (first_free m) m)) \<noteq> first_free m"
proof -
  show "fst (set_b (first_free m) m) = False" using assms set_old free_free by simp
  show s: "mem (snd (set_b (first_free m) m)) k = (k = first_free m \<or> mem m k)" for k
    using assms set_mem by simp
  show "first_free (snd (set_b (first_free m) m)) \<noteq> first_free m"
    using free_free[of "snd (set_b (first_free m) m)"] s[of "first_free m"] assms by metis
qed

lemma give_back:
  assumes "first_free m < cap"
  shows "fst (clear_b (first_free m) (snd (set_b (first_free m) m))) = True"
    "mem (snd (clear_b (first_free m) (snd (set_b (first_free m) m)))) k = mem m k"
proof -
  show "fst (clear_b (first_free m) (snd (set_b (first_free m) m))) = True"
    using clear_old[OF assms] take_free(2)[OF assms] by simp
  show "mem (snd (clear_b (first_free m) (snd (set_b (first_free m) m)))) k = mem m k"
    using clear_mem[OF assms] take_free(2)[OF assms] free_free[OF assms] by auto
qed

lemma full_iff: "first_free m = cap \<longleftrightarrow> (\<forall>k<cap. mem m k)"
  using free_le[of m] free_least[of _ m] free_free[of m] by (metis le_neq_implies_less)

end

definition set_b8192 :: "nat \<Rightarrow> bytes \<Rightarrow> bool \<times> bytes" where
  "set_b8192 b m = (fst (set_bit (of_nat b) m) \<noteq> 0, snd (set_bit (of_nat b) m))"

definition clear_b8192 :: "nat \<Rightarrow> bytes \<Rightarrow> bool \<times> bytes" where
  "clear_b8192 b m = (fst (clear_bit (of_nat b) m) \<noteq> 0, snd (clear_bit (of_nat b) m))"

definition free_b8192 :: "bytes \<Rightarrow> nat" where
  "free_b8192 m = unat (find_first_zero_bit m 8192)"

interpretation bm: bitmap bit_at set_b8192 clear_b8192 free_b8192 8192
proof
  fix b k m
  show "b < 8192 \<Longrightarrow> fst (set_b8192 b m) = bit_at m b"
    using set_bit_old[of "of_nat b" m] by (simp add: set_b8192_def)
  show "b < 8192 \<Longrightarrow> bit_at (snd (set_b8192 b m)) k = (k = b \<or> bit_at m k)"
    using set_bit_at[of "of_nat b" m k] by (simp add: set_b8192_def)
  show "b < 8192 \<Longrightarrow> fst (clear_b8192 b m) = bit_at m b"
    using clear_bit_old[of "of_nat b" m] by (simp add: clear_b8192_def)
  show "b < 8192 \<Longrightarrow> bit_at (snd (clear_b8192 b m)) k = (k \<noteq> b \<and> bit_at m k)"
    using clear_bit_at[of "of_nat b" m k] by (simp add: clear_b8192_def)
  show "free_b8192 m \<le> 8192" using find_first_zero_bit_spec(1)[of m 8192] by (simp add: free_b8192_def)
  show "k < free_b8192 m \<Longrightarrow> bit_at m k" using find_first_zero_bit_spec(2)[of k m 8192] by (simp add: free_b8192_def)
  show "free_b8192 m < 8192 \<Longrightarrow> \<not> bit_at m (free_b8192 m)"
    using find_first_zero_bit_spec(3)[of m 8192] by (simp add: free_b8192_def)
qed

end
