(* ===== verification/Minix.thy ===== *)
theory Minix
  imports Bitops
begin

text \<open>
  The Minix file system: allocation bitmaps (\<^verbatim>\<open>fs/minix/bitmap.c\<close>), block mapping and
  inodes on disk (\<^verbatim>\<open>fs/minix/inode.c\<close>). The device is seen through the buffer cache: \<open>blk\<close>
  gives the current bytes of every block, \<open>dirty\<close> the blocks that have to be written back,
  \<open>bad\<close> the blocks that have no valid buffer and cannot be read (\<^verbatim>\<open>bread\<close> returns NULL), \<open>held\<close> the blocks whose
  buffer another process holds (\<^verbatim>\<open>b_count\<close> is more than one after \<^verbatim>\<open>get_hash_table\<close>). The bitmap buffers that the
  super block keeps are named by their block numbers; \<open>None\<close> is NULL. Operations run
  without being interrupted by others on the same file system.
\<close>

section \<open>The state\<close>

record minix_sb_info =
  s_ninodes :: u16
  s_nzones :: u16
  s_imap_blocks :: u16
  s_zmap_blocks :: u16
  s_firstdatazone :: u16
  s_dirsize :: u16
  s_namelen :: u16
  s_imap :: "nat \<Rightarrow> nat option"
  s_zmap :: "nat \<Rightarrow> nat option"

record minix_fs =
  sb :: minix_sb_info
  blk :: "nat \<Rightarrow> bytes"
  dirty :: "nat \<Rightarrow> bool"
  bad :: "nat \<Rightarrow> bool"
  held :: "nat \<Rightarrow> bool"
  now :: u32

definition put_blk :: "nat \<Rightarrow> bytes \<Rightarrow> minix_fs \<Rightarrow> minix_fs" where
  "put_blk b d fs = fs\<lparr>blk := (blk fs)(b := d), dirty := (dirty fs)(b := True)\<rparr>"

definition mark_uptodate :: "nat \<Rightarrow> minix_fs \<Rightarrow> minix_fs" where
  "mark_uptodate b fs = fs\<lparr>bad := (bad fs)(b := False)\<rparr>"

section \<open>Zones\<close>

definition minix_free_block :: "u16 \<Rightarrow> minix_fs \<Rightarrow> minix_fs" where
  "minix_free_block block fs =
    (if block < s_firstdatazone (sb fs) \<or> block \<ge> s_nzones (sb fs) then fs
     else
       let fs = fs\<lparr>dirty := (dirty fs)(unat block := False)\<rparr>;
           zone = block - s_firstdatazone (sb fs) + 1;
           b = zone AND 8191;
           zone = drop_bit 13 zone
       in case s_zmap (sb fs) (unat zone) of
            None \<Rightarrow> fs
          | Some bh \<Rightarrow> put_blk bh (snd (clear_bit b (blk fs bh))) fs)"

text \<open>The search of the first free bit over the slots of a bitmap.\<close>

primrec find_slot :: "nat list \<Rightarrow> (nat \<Rightarrow> nat option) \<Rightarrow> minix_fs \<Rightarrow> (nat \<times> nat \<times> u16) option" where
  "find_slot [] mp fs = None"
| "find_slot (i # is) mp fs =
    (case mp i of
       None \<Rightarrow> find_slot is mp fs
     | Some bh \<Rightarrow>
         let j = find_first_zero_bit (blk fs bh) 8192
         in if j < 8192 then Some (i, bh, j) else find_slot is mp fs)"

definition minix_new_block :: "minix_fs \<Rightarrow> (u16 \<times> minix_fs) kres" where
  "minix_new_block fs =
    (case find_slot [0..<8] (s_zmap (sb fs)) fs of
       None \<Rightarrow> Inr (0, fs)
     | Some (i, bh, j) \<Rightarrow>
         let (old, d) = set_bit j (blk fs bh)
         in if old \<noteq> 0 then Inl (Panic ''mnb: already set'')
            else if j = find_first_zero_bit d 8192 then Inl (Panic ''still zero bit!'')
            else
              let fs = put_blk bh d fs;
                  j = j + (of_nat i * 8192 + s_firstdatazone (sb fs) - 1)
              in if j < s_firstdatazone (sb fs) \<or> j \<ge> s_nzones (sb fs) then Inr (0, fs)
                 else Inr (j, mark_uptodate (unat j) (put_blk (unat j) (\<lambda>_. 0) fs)))"

section \<open>Inodes in memory\<close>

datatype inode_ops = No_ops | File_ops | Dir_ops | Symlink_ops | Chrdev_ops | Blkdev_ops | Pipe_ops

record minode =
  i_mode :: u16
  i_uid :: u16
  i_size :: u32
  i_mtime :: u32
  i_gid :: u8
  i_nlink :: u8
  i_zone :: "nat \<Rightarrow> u16"
  i_ino :: u16
  i_dev :: u16
  i_rdev :: u16
  i_atime :: u32
  i_ctime :: u32
  i_count :: u16
  i_dirt :: bool
  i_op :: inode_ops
  i_sb :: "nat option"
  i_flags :: u16
  i_lock :: bool
  i_mount :: "nat option"
  i_pipe :: bool
  i_next :: "nat option"
  i_prev :: "nat option"

text \<open>\<^verbatim>\<open>memset(inode, 0, sizeof(*inode))\<close>.\<close>

definition zero_inode :: minode where
  "zero_inode = \<lparr>i_mode = 0, i_uid = 0, i_size = 0, i_mtime = 0, i_gid = 0, i_nlink = 0, i_zone = (\<lambda>_. 0),
     i_ino = 0, i_dev = 0, i_rdev = 0, i_atime = 0, i_ctime = 0, i_count = 0, i_dirt = False, i_op = No_ops,
     i_sb = None, i_flags = 0, i_lock = False, i_mount = None, i_pipe = False, i_next = None, i_prev = None\<rparr>"

text \<open>Little-endian words in a block.\<close>

definition get16 :: "bytes \<Rightarrow> nat \<Rightarrow> u16" where
  "get16 d off = word_of_nat (unat (d off) + 256 * unat (d (off + 1)))"

definition put16 :: "bytes \<Rightarrow> nat \<Rightarrow> u16 \<Rightarrow> bytes" where
  "put16 d off v = d(off := word_of_nat (unat v), off + 1 := word_of_nat (unat v div 256))"

definition get32 :: "bytes \<Rightarrow> nat \<Rightarrow> u32" where
  "get32 d off = word_of_nat (unat (get16 d off) + 65536 * unat (get16 d (off + 2)))"

definition put32 :: "bytes \<Rightarrow> nat \<Rightarrow> u32 \<Rightarrow> bytes" where
  "put32 d off v = put16 (put16 d off (word_of_nat (unat v))) (off + 2) (word_of_nat (unat v div 65536))"

section \<open>Block mapping\<close>

definition map_izone :: "minode \<Rightarrow> nat \<Rightarrow> bool \<Rightarrow> minix_fs \<Rightarrow> (u16 \<times> minode \<times> minix_fs) kres" where
  "map_izone ino block create fs =
    (if create \<and> i_zone ino block = 0 then
       bindr (minix_new_block fs) (\<lambda>(z, fs).
         let ino = ino\<lparr>i_zone := (i_zone ino)(block := z)\<rparr>;
             ino = (if z \<noteq> 0 then ino\<lparr>i_ctime := now fs, i_dirt := True\<rparr> else ino)
         in Inr (i_zone ino block, ino, fs))
     else Inr (i_zone ino block, ino, fs))"

definition map_iblock :: "u16 \<Rightarrow> nat \<Rightarrow> bool \<Rightarrow> minix_fs \<Rightarrow> (u16 \<times> minix_fs) kres" where
  "map_iblock i block create fs =
    (if bad fs (unat i) then Inr (0, fs)
     else
       let v = get16 (blk fs (unat i)) (2 * block)
       in if create \<and> v = 0 then
            bindr (minix_new_block fs) (\<lambda>(v, fs).
              if v \<noteq> 0 then Inr (v, put_blk (unat i) (put16 (blk fs (unat i)) (2 * block) v) fs)
              else Inr (v, fs))
          else Inr (v, fs))"

definition minix_bmap :: "minode \<Rightarrow> u16 \<Rightarrow> bool \<Rightarrow> minix_fs \<Rightarrow> (u16 \<times> minode \<times> minix_fs) kres" where
  "minix_bmap ino block create fs =
    (if block < 7 then map_izone ino (unat block) create fs
     else
       let block = block - 7 in
       if block < 512 then
         bindr (map_izone ino 7 create fs) (\<lambda>(i, ino, fs).
           if i \<noteq> 0
           then bindr (map_iblock i (unat (block AND 511)) create fs) (\<lambda>(i, fs). Inr (i, ino, fs))
           else Inr (i, ino, fs))
       else
         let block = block - 512 in
         bindr (map_izone ino 8 create fs) (\<lambda>(i, ino, fs).
           if i \<noteq> 0 then
             bindr (map_iblock i (unat (drop_bit 9 block)) create fs) (\<lambda>(i, fs).
               if i \<noteq> 0
               then bindr (map_iblock i (unat (block AND 511)) create fs) (\<lambda>(i, fs). Inr (i, ino, fs))
               else Inr (i, ino, fs))
           else Inr (i, ino, fs)))"

section \<open>Inodes on disk\<close>

abbreviation MINIX_INODES_PER_BLOCK :: u16 where "MINIX_INODES_PER_BLOCK \<equiv> 32"

definition S_ISCHR :: "u16 \<Rightarrow> bool" where "S_ISCHR m \<longleftrightarrow> m AND 0xF000 = 0x2000"
definition S_ISBLK :: "u16 \<Rightarrow> bool" where "S_ISBLK m \<longleftrightarrow> m AND 0xF000 = 0x6000"
definition S_ISREG :: "u16 \<Rightarrow> bool" where "S_ISREG m \<longleftrightarrow> m AND 0xF000 = 0x8000"
definition S_ISDIR :: "u16 \<Rightarrow> bool" where "S_ISDIR m \<longleftrightarrow> m AND 0xF000 = 0x4000"
definition S_ISLNK :: "u16 \<Rightarrow> bool" where "S_ISLNK m \<longleftrightarrow> m AND 0xF000 = 0xA000"

definition minix_set_ops :: "minode \<Rightarrow> minode" where
  "minix_set_ops ino =
    (if S_ISREG (i_mode ino) then ino\<lparr>i_op := File_ops\<rparr>
     else if S_ISDIR (i_mode ino) then ino\<lparr>i_op := Dir_ops\<rparr>
     else if S_ISLNK (i_mode ino) then ino\<lparr>i_op := Symlink_ops\<rparr>
     else if S_ISCHR (i_mode ino) then ino\<lparr>i_op := Chrdev_ops\<rparr>
     else if S_ISBLK (i_mode ino) then ino\<lparr>i_op := Blkdev_ops\<rparr>
     else ino)"

definition inode_block :: "u16 \<Rightarrow> minix_fs \<Rightarrow> nat" where
  "inode_block ino fs =
    unat (s_imap_blocks (sb fs) + 2 + s_zmap_blocks (sb fs) + (ino - 1) div MINIX_INODES_PER_BLOCK)"

definition inode_off :: "u16 \<Rightarrow> nat" where
  "inode_off ino = 32 * unat ((ino - 1) mod MINIX_INODES_PER_BLOCK)"

text \<open>\<open>memcpy\<close> between the head of \<open>struct inode\<close> and \<open>struct minix_inode\<close>: the two have
  the same layout.\<close>

definition store_raw :: "bytes \<Rightarrow> nat \<Rightarrow> minode \<Rightarrow> bytes" where
  "store_raw d p ino =
    (let d = put16 d p (i_mode ino);
         d = put16 d (p + 2) (i_uid ino);
         d = put32 d (p + 4) (i_size ino);
         d = put32 d (p + 8) (i_mtime ino);
         d = d(p + 12 := i_gid ino, p + 13 := i_nlink ino)
     in fold (\<lambda>k d. put16 d (p + 14 + 2 * k) (i_zone ino k)) [0..<9] d)"

definition load_raw :: "bytes \<Rightarrow> nat \<Rightarrow> minode \<Rightarrow> minode" where
  "load_raw d p ino = ino\<lparr>i_mode := get16 d p, i_uid := get16 d (p + 2), i_size := get32 d (p + 4),
     i_mtime := get32 d (p + 8), i_gid := d (p + 12), i_nlink := d (p + 13),
     i_zone := (\<lambda>k. if k < 9 then get16 d (p + 14 + 2 * k) else i_zone ino k)\<rparr>"

definition minix_read_inode :: "minode \<Rightarrow> minix_fs \<Rightarrow> minode" where
  "minix_read_inode ino fs =
    (let n = i_ino ino; ino = ino\<lparr>i_op := No_ops, i_mode := 0\<rparr> in
     if n = 0 \<or> n > s_ninodes (sb fs) then ino
     else if bad fs (inode_block n fs) then ino
     else
       let d = blk fs (inode_block n fs);
           ino = load_raw d (inode_off n) ino;
           ino = ino\<lparr>i_atime := i_mtime ino, i_ctime := i_mtime ino\<rparr>
       in minix_set_ops (if S_ISCHR (i_mode ino) \<or> S_ISBLK (i_mode ino)
          then ino\<lparr>i_rdev := get16 d (inode_off n + 14)\<rparr> else ino))"

definition minix_update_inode :: "minode \<Rightarrow> minix_fs \<Rightarrow> minode \<times> minix_fs" where
  "minix_update_inode ino fs =
    (let n = i_ino ino in
     if n = 0 \<or> n > s_ninodes (sb fs) then (ino\<lparr>i_dirt := False\<rparr>, fs)
     else if bad fs (inode_block n fs) then (ino\<lparr>i_dirt := False\<rparr>, fs)
     else
       let b = inode_block n fs;
           d = store_raw (blk fs b) (inode_off n) ino;
           d = (if S_ISCHR (i_mode ino) \<or> S_ISBLK (i_mode ino) then put16 d (inode_off n + 14) (i_rdev ino) else d)
       in (ino\<lparr>i_dirt := False\<rparr>, put_blk b d fs))"

section \<open>The zone bitmap\<close>

text \<open>Bit number \<open>n\<close> of the zone map, whatever block it lies in; zone \<open>z\<close> has the number
  \<open>z - firstdatazone + 1\<close>, number 0 is not used.\<close>

definition zbit :: "minix_fs \<Rightarrow> nat \<Rightarrow> bool" where
  "zbit fs n \<longleftrightarrow> (case s_zmap (sb fs) (n div 8192) of None \<Rightarrow> False | Some bh \<Rightarrow> bit_at (blk fs bh) (n mod 8192))"

definition zone_no :: "minix_fs \<Rightarrow> nat \<Rightarrow> nat" where
  "zone_no fs z = z - unat (s_firstdatazone (sb fs)) + 1"

definition data_zone :: "minix_fs \<Rightarrow> nat \<Rightarrow> bool" where
  "data_zone fs z \<longleftrightarrow> unat (s_firstdatazone (sb fs)) \<le> z \<and> z < unat (s_nzones (sb fs))"

definition zone_used :: "minix_fs \<Rightarrow> nat \<Rightarrow> bool" where
  "zone_used fs z \<longleftrightarrow> data_zone fs z \<and> zbit fs (zone_no fs z)"

text \<open>A mounted file system: the bitmap buffers are there, lie below the data zones and are
  distinct; the bits that stand for no zone are set, as \<^verbatim>\<open>mkfs\<close> leaves them.\<close>

definition zmap_ok :: "minix_fs \<Rightarrow> bool" where
  "zmap_ok fs \<longleftrightarrow>
    0 < unat (s_firstdatazone (sb fs)) \<and> unat (s_firstdatazone (sb fs)) < unat (s_nzones (sb fs)) \<and>
    (\<forall>i bh. s_zmap (sb fs) i = Some bh \<longrightarrow> i < 8 \<and> bh < unat (s_firstdatazone (sb fs))) \<and>
    (\<forall>i j bh. s_zmap (sb fs) i = Some bh \<and> s_zmap (sb fs) j = Some bh \<longrightarrow> i = j) \<and>
    (\<forall>n. n \<le> unat (s_nzones (sb fs)) - unat (s_firstdatazone (sb fs)) \<longrightarrow> s_zmap (sb fs) (n div 8192) \<noteq> None) \<and>
    zbit fs 0 \<and>
    (\<forall>n. unat (s_nzones (sb fs)) - unat (s_firstdatazone (sb fs)) < n \<and> s_zmap (sb fs) (n div 8192) \<noteq> None \<longrightarrow> zbit fs n)"

lemma put_blk_simps [simp]:
  "sb (put_blk b d fs) = sb fs" "bad (put_blk b d fs) = bad fs" "held (put_blk b d fs) = held fs" "now (put_blk b d fs) = now fs"
  "blk (put_blk b d fs) = (blk fs)(b := d)" "dirty (put_blk b d fs) = (dirty fs)(b := True)"
  by (simp_all add: put_blk_def)

lemma mark_uptodate_simps [simp]:
  "sb (mark_uptodate b fs) = sb fs" "blk (mark_uptodate b fs) = blk fs" "held (mark_uptodate b fs) = held fs"
  "now (mark_uptodate b fs) = now fs" "dirty (mark_uptodate b fs) = dirty fs" "bad (mark_uptodate b fs) = (bad fs)(b := False)"
  by (simp_all add: mark_uptodate_def)

lemma data_not_zmap: "zmap_ok fs \<Longrightarrow> unat (s_firstdatazone (sb fs)) \<le> b \<Longrightarrow> s_zmap (sb fs) i \<noteq> Some b"
  by (metis leD zmap_ok_def)

lemma zone_no_cong: "sb fs' = sb fs \<Longrightarrow> zone_no fs' = zone_no fs" "sb fs' = sb fs \<Longrightarrow> data_zone fs' = data_zone fs"
  by (simp_all add: zone_no_def data_zone_def fun_eq_iff)

lemma find_slot_Some:
  "find_slot is mp fs = Some (i, bh, j) \<Longrightarrow>
     i \<in> set is \<and> mp i = Some bh \<and> unat j < 8192 \<and> j = find_first_zero_bit (blk fs bh) 8192"
  by (induction "is") (auto simp: Let_def word_less_nat_alt split: option.splits if_splits)

lemma find_slot_None:
  "find_slot is mp fs = None \<Longrightarrow> i \<in> set is \<Longrightarrow> mp i = Some bh \<Longrightarrow> k < 8192 \<Longrightarrow> bit_at (blk fs bh) k"
proof (induction "is")
  case (Cons a "is")
  show ?case
  proof (cases "i = a")
    case True
    with Cons.prems have "\<not> find_first_zero_bit (blk fs bh) 8192 < 8192"
      by (auto simp: Let_def split: if_splits)
    then have "free_b8192 (blk fs bh) = 8192"
      using bm.free_le[of "blk fs bh"] by (simp add: free_b8192_def word_less_nat_alt)
    with bm.full_iff Cons.prems(4) show ?thesis by blast
  next
    case False
    with Cons show ?thesis by (auto simp: Let_def split: option.splits if_splits)
  qed
qed simp

text \<open>Changing one bit of one bitmap block changes one bit of the map.\<close>

lemma zbit_update:
  assumes "zmap_ok fs" and "s_zmap (sb fs) i = Some bh" and "j < 8192"
    and "sb fs' = sb fs" and "\<And>b. b < unat (s_firstdatazone (sb fs)) \<Longrightarrow> blk fs' b = ((blk fs)(bh := d)) b"
    and "\<And>k. bit_at d k = (if k = j then v else bit_at (blk fs bh) k)"
  shows "zbit fs' n = (if n = i * 8192 + j then v else zbit fs n)"
proof -
  have first: "s_zmap (sb fs) m = Some b \<Longrightarrow> b < unat (s_firstdatazone (sb fs))" for m b
    using assms(1) by (auto simp: zmap_ok_def)
  have inj: "s_zmap (sb fs) m = Some bh \<Longrightarrow> m = i" for m using assms(1,2) by (auto simp: zmap_ok_def)
  have n: "n = i * 8192 + j \<longleftrightarrow> n div 8192 = i \<and> n mod 8192 = j"
    using assms(3) by (metis div_mult_mod_eq div_mult_self3 div_less add.commute add_0 mod_less mod_mult_self3 zero_neq_numeral)
  show ?thesis
  proof (cases "s_zmap (sb fs) (n div 8192)")
    case None
    then show ?thesis using assms(2,4) n by (auto simp: zbit_def)
  next
    case (Some b)
    show ?thesis
    proof (cases "b = bh")
      case True
      then show ?thesis using Some inj[of "n div 8192"] assms(4) assms(5)[of bh] assms(6) first[OF Some] n by (auto simp: zbit_def)
    next
      case False
      then have "n div 8192 \<noteq> i" using Some assms(2) by auto
      then show ?thesis using Some assms(4) assms(5)[of b] first[OF Some] False n by (auto simp: zbit_def)
    qed
  qed
qed

lemma zmap_ok_cong:
  assumes "zmap_ok fs" and "sb fs' = sb fs" and "\<And>n. zbit fs n \<Longrightarrow> \<not> (0 < n \<and> n \<le> unat (s_nzones (sb fs)) - unat (s_firstdatazone (sb fs))) \<Longrightarrow> zbit fs' n"
  shows "zmap_ok fs'"
  using assms unfolding zmap_ok_def by auto

text \<open>The number of the bit found is that of a zone, and the address computed from it is
  that zone, without wrap-around.\<close>

lemma new_zone_number:
  assumes "zmap_ok fs" and "find_slot [0..<8] (s_zmap (sb fs)) fs = Some (i, bh, j)"
  defines "n \<equiv> i * 8192 + unat j" and "z \<equiv> j + (of_nat i * 8192 + s_firstdatazone (sb fs) - 1)"
  shows "s_zmap (sb fs) i = Some bh" "unat j < 8192" "\<not> zbit fs n"
    "0 < n" "n \<le> unat (s_nzones (sb fs)) - unat (s_firstdatazone (sb fs))"
    "unat z = unat (s_firstdatazone (sb fs)) + n - 1" "data_zone fs (unat z)" "zone_no fs (unat z) = n"
proof -
  let ?f = "unat (s_firstdatazone (sb fs))" and ?m = "unat (s_nzones (sb fs))"
  note f = find_slot_Some[OF assms(2)]
  show i: "s_zmap (sb fs) i = Some bh" and j: "unat j < 8192" using f by auto
  have nd: "n div 8192 = i" "n mod 8192 = unat j" using j by (auto simp: n_def)
  have "\<not> bit_at (blk fs bh) (unat j)"
    using bm.free_free[of "blk fs bh"] f by (auto simp: free_b8192_def)
  then show zn: "\<not> zbit fs n" using i by (simp add: zbit_def nd)
  have ok: "0 < ?f" "?f < ?m" "zbit fs 0" "?m - ?f < n \<Longrightarrow> zbit fs n"
    using assms(1) i nd by (auto simp: zmap_ok_def)
  show n0: "0 < n" using zn ok(3) by (cases n) auto
  show nm: "n \<le> ?m - ?f" using zn ok(4) by (meson not_le)
  have m: "?m < 65536" by (rule u16_less)
  have "z = of_nat (unat j + i * 8192 + ?f) - 1" by (simp add: z_def algebra_simps)
  also have "unat j + i * 8192 + ?f = Suc (?f + n - 1)" using n0 by (simp add: n_def)
  also have "of_nat (Suc (?f + n - 1)) - 1 = (of_nat (?f + n - 1) :: u16)" by simp
  finally have "z = of_nat (?f + n - 1)" .
  then show z: "unat z = ?f + n - 1" using nm ok(2) m by simp
  then show "data_zone fs (unat z)" using n0 nm ok(2) unfolding data_zone_def by linarith
  show "zone_no fs (unat z) = n" using z n0 by (simp add: zone_no_def)
qed

definition zones_full :: "minix_fs \<Rightarrow> bool" where
  "zones_full fs \<longleftrightarrow> (\<forall>z. data_zone fs z \<longrightarrow> zone_used fs z)"

text \<open>\<open>fs'\<close> is \<open>fs\<close> after the free zone \<open>z\<close> has been taken and zeroed.\<close>

definition fresh_zone :: "minix_fs \<Rightarrow> u16 \<Rightarrow> minix_fs \<Rightarrow> bool" where
  "fresh_zone fs z fs' \<longleftrightarrow> z \<noteq> 0 \<and> data_zone fs (unat z) \<and> \<not> zone_used fs (unat z) \<and> zmap_ok fs' \<and>
    sb fs' = sb fs \<and> held fs' = held fs \<and> (\<forall>b. bad fs' b \<longrightarrow> bad fs b) \<and>
    (\<forall>w. zone_used fs' w = (w = unat z \<or> zone_used fs w)) \<and> blk fs' (unat z) = (\<lambda>_. 0) \<and>
    (\<forall>b. b \<noteq> unat z \<and> (\<forall>i. s_zmap (sb fs) i \<noteq> Some b) \<longrightarrow> blk fs' b = blk fs b)"

lemma fresh_zoneD:
  assumes "fresh_zone fs z fs'"
  shows "z \<noteq> 0" "data_zone fs (unat z)" "\<not> zone_used fs (unat z)" "zmap_ok fs'" "sb fs' = sb fs" "held fs' = held fs"
    "bad fs' b \<Longrightarrow> bad fs b" "zone_used fs' w = (w = unat z \<or> zone_used fs w)" "blk fs' (unat z) = (\<lambda>_. 0)"
    "b \<noteq> unat z \<Longrightarrow> (\<And>i. s_zmap (sb fs) i \<noteq> Some b) \<Longrightarrow> blk fs' b = blk fs b"
  using assms unfolding fresh_zone_def by blast+

lemma new_block_cases:
  assumes "zmap_ok fs"
  shows "zones_full fs \<and> minix_new_block fs = Inr (0, fs) \<or>
    (\<exists>z fs'. minix_new_block fs = Inr (z, fs') \<and> fresh_zone fs z fs')"
proof (cases "find_slot [0..<8] (s_zmap (sb fs)) fs")
  case None
  have "zone_used fs z" if "data_zone fs z" for z
  proof -
    have "zone_no fs z \<le> unat (s_nzones (sb fs)) - unat (s_firstdatazone (sb fs))"
      using that by (auto simp: data_zone_def zone_no_def)
    then obtain bh where bh: "s_zmap (sb fs) (zone_no fs z div 8192) = Some bh" "zone_no fs z div 8192 < 8"
      using assms by (fastforce simp: zmap_ok_def)
    with find_slot_None[OF None, of "zone_no fs z div 8192" bh "zone_no fs z mod 8192"] that
    show ?thesis by (simp add: zone_used_def zbit_def)
  qed
  with None show ?thesis by (auto simp: minix_new_block_def zones_full_def)
next
  case (Some p)
  then obtain i bh j where sl: "find_slot [0..<8] (s_zmap (sb fs)) fs = Some (i, bh, j)" by (cases p) auto
  note f = find_slot_Some[OF sl] and z = new_zone_number[OF assms sl]
  define d where "d = snd (set_bit j (blk fs bh))"
  define zn where "zn = j + (of_nat i * 8192 + s_firstdatazone (sb fs) - 1)"
  note z = z[folded zn_def]
  have first: "unat (s_firstdatazone (sb fs)) > 0" "bh < unat (s_firstdatazone (sb fs))"
    using assms z(1) by (auto simp: zmap_ok_def)
  have j: "free_b8192 (blk fs bh) = unat j" using f by (simp add: free_b8192_def)
  have old: "fst (set_bit j (blk fs bh)) = 0"
    using bm.take_free(1)[of "blk fs bh"] z(2) by (simp add: set_b8192_def j)
  have "free_b8192 d \<noteq> unat j"
    using bm.take_free(3)[of "blk fs bh"] z(2) by (simp add: set_b8192_def j d_def)
  then have still: "j \<noteq> find_first_zero_bit d 8192" by (auto simp: free_b8192_def)
  let ?fs = "mark_uptodate (unat zn) (put_blk (unat zn) (\<lambda>_. 0) (put_blk bh d fs))"
  have "\<not> (zn < s_firstdatazone (sb fs) \<or> zn \<ge> s_nzones (sb fs))"
    using z(7) by (auto simp: data_zone_def word_less_nat_alt word_le_nat_alt)
  then have ev: "minix_new_block fs = Inr (zn, ?fs)"
    using old still sl unfolding minix_new_block_def d_def zn_def
    by (simp add: Let_def case_prod_unfold)
  have zge: "unat (s_firstdatazone (sb fs)) \<le> unat zn" using z(7) by (simp add: data_zone_def)
  have zb: "zbit ?fs n = (n = i * 8192 + unat j \<or> zbit fs n)" for n
    using zbit_update[OF assms z(1,2), of ?fs d True n] zge set_bit_at[of j "blk fs bh"] by (auto simp: d_def)
  have nused: "\<not> zone_used fs (unat zn)" using z(3,8) by (simp add: zone_used_def)
  have ok': "zmap_ok ?fs" using zmap_ok_cong[OF assms, of ?fs] zb by simp
  have used: "zone_used ?fs w = (w = unat zn \<or> zone_used fs w)" for w
  proof -
    have "data_zone fs w \<Longrightarrow> zone_no fs w = i * 8192 + unat j \<Longrightarrow> w = unat zn"
      using z(4,6) by (auto simp: zone_no_def data_zone_def)
    then show ?thesis using z(7,8) zb by (auto simp: zone_used_def zone_no_cong[of ?fs fs])
  qed
  have "zn \<noteq> 0" using zge first(1) by (metis leD unat_0)
  moreover have "\<forall>b. b \<noteq> unat zn \<and> (\<forall>i. s_zmap (sb fs) i \<noteq> Some b) \<longrightarrow> blk ?fs b = blk fs b" using z(1) by auto
  ultimately show ?thesis using ev z(7) nused ok' used
    by (intro disjI2 exI[of _ zn] exI[of _ ?fs]) (simp add: fresh_zone_def)
qed

lemma free_block_zone:
  assumes "zmap_ok fs" and "data_zone fs (unat z)"
  shows "zmap_ok (minix_free_block z fs)" "sb (minix_free_block z fs) = sb fs" "bad (minix_free_block z fs) = bad fs"
    "held (minix_free_block z fs) = held fs" "zone_used (minix_free_block z fs) w = (w \<noteq> unat z \<and> zone_used fs w)"
    "unat (s_firstdatazone (sb fs)) \<le> b \<Longrightarrow> blk (minix_free_block z fs) b = blk fs b"
proof -
  let ?f = "unat (s_firstdatazone (sb fs))" and ?n = "zone_no fs (unat z)"
  define zone where "zone = z - s_firstdatazone (sb fs) + 1"
  have rng: "\<not> (z < s_firstdatazone (sb fs) \<or> z \<ge> s_nzones (sb fs))"
    using assms(2) by (auto simp: data_zone_def word_less_nat_alt word_le_nat_alt)
  have f0: "0 < ?f" using assms(1) by (simp add: zmap_ok_def)
  have "unat (z - s_firstdatazone (sb fs)) = unat z - ?f" using assms(2) by (simp add: data_zone_def unat_u16_minus)
  then have zn: "unat zone = ?n" using u16_less[of z] f0 assms(2)
    by (simp add: zone_def unat_u16_plus zone_no_def data_zone_def)
  have le: "?n \<le> unat (s_nzones (sb fs)) - ?f" using assms(2) by (auto simp: zone_no_def data_zone_def)
  then obtain bh where bh: "s_zmap (sb fs) (?n div 8192) = Some bh" using assms(1) by (fastforce simp: zmap_ok_def)
  have bf: "bh < ?f" using assms(1) bh by (auto simp: zmap_ok_def)
  have b: "unat (zone AND 8191) = ?n mod 8192" using and_pow2_minus1[of 13 zone] zn by simp
  have s: "unat (drop_bit 13 zone) = ?n div 8192" using zn by (simp add: drop_bit_eq_div unat_div)
  define d where "d = snd (clear_bit (zone AND 8191) (blk fs bh))"
  let ?fs = "put_blk bh d (fs\<lparr>dirty := (dirty fs)(unat z := False)\<rparr>)"
  have ev: "minix_free_block z fs = ?fs"
    using rng bh by (simp add: minix_free_block_def Let_def zone_def[symmetric] s d_def)
  have zb: "zbit ?fs n = (n \<noteq> ?n \<and> zbit fs n)" for n
    using zbit_update[OF assms(1) bh, of "?n mod 8192" ?fs d False n] clear_bit_at[of "zone AND 8191" "blk fs bh"]
    by (auto simp: d_def b)
  show "sb (minix_free_block z fs) = sb fs" "bad (minix_free_block z fs) = bad fs" "held (minix_free_block z fs) = held fs" by (simp_all add: ev)
  show "zmap_ok (minix_free_block z fs)" unfolding ev
    using zmap_ok_cong[OF assms(1), of ?fs] zb le by (auto simp: zone_no_def)
  show "zone_used (minix_free_block z fs) w = (w \<noteq> unat z \<and> zone_used fs w)"
  proof -
    have "zone_no fs w = ?n \<longleftrightarrow> w = unat z" if "data_zone fs w"
      using that assms(2) by (simp add: zone_no_def data_zone_def) linarith
    then show ?thesis unfolding ev zone_used_def zb by (auto simp: zone_no_def data_zone_def)
  qed
  show "?f \<le> b \<Longrightarrow> blk (minix_free_block z fs) b = blk fs b" unfolding ev using bf by simp
qed

section \<open>The zones of a file\<close>

text \<open>Where a zone number of a file is stored: in the inode (seven direct zones, the single
  and the double indirect block), in the single indirect block, in the double indirect
  block, or in one of the blocks that the latter points to.\<close>

datatype zpath = Direct nat | Single | Via nat | Double | Mid nat | Via2 nat nat

primrec par :: "zpath \<Rightarrow> zpath option" where
  "par (Direct k) = None" | "par Single = None" | "par Double = None"
| "par (Via k) = Some Single" | "par (Mid k) = Some Double" | "par (Via2 m k) = Some (Mid m)"

primrec slot :: "zpath \<Rightarrow> nat" where
  "slot (Direct k) = k" | "slot Single = 7" | "slot Double = 8"
| "slot (Via k) = k" | "slot (Mid k) = k" | "slot (Via2 m k) = k"

definition entry :: "minix_fs \<Rightarrow> u16 \<Rightarrow> nat \<Rightarrow> u16" where
  "entry fs i k = (if i = 0 then 0 else get16 (blk fs (unat i)) (2 * k))"

primrec lookup :: "minix_fs \<Rightarrow> minode \<Rightarrow> zpath \<Rightarrow> u16" where
  "lookup fs ino (Direct k) = i_zone ino k"
| "lookup fs ino Single = i_zone ino 7"
| "lookup fs ino Double = i_zone ino 8"
| "lookup fs ino (Via k) = entry fs (i_zone ino 7) k"
| "lookup fs ino (Mid k) = entry fs (i_zone ino 8) k"
| "lookup fs ino (Via2 m k) = entry fs (entry fs (i_zone ino 8) m) k"

primrec valid :: "zpath \<Rightarrow> bool" where
  "valid (Direct k) \<longleftrightarrow> k < 7" | "valid Single \<longleftrightarrow> True" | "valid Double \<longleftrightarrow> True"
| "valid (Via k) \<longleftrightarrow> k < 512" | "valid (Mid k) \<longleftrightarrow> k < 512" | "valid (Via2 m k) \<longleftrightarrow> m < 512 \<and> k < 512"

primrec leaf :: "zpath \<Rightarrow> bool" where
  "leaf (Direct k) \<longleftrightarrow> True" | "leaf Single \<longleftrightarrow> False" | "leaf Double \<longleftrightarrow> False"
| "leaf (Via k) \<longleftrightarrow> True" | "leaf (Mid k) \<longleftrightarrow> False" | "leaf (Via2 m k) \<longleftrightarrow> True"

definition path_of :: "nat \<Rightarrow> zpath" where
  "path_of b = (if b < 7 then Direct b else if b - 7 < 512 then Via (b - 7)
     else Via2 ((b - 519) div 512) ((b - 519) mod 512))"

text \<open>A file whose zones are in range, marked in the bitmap and all different.\<close>

definition file_ok :: "minix_fs \<Rightarrow> minode \<Rightarrow> bool" where
  "file_ok fs ino \<longleftrightarrow>
    (\<forall>p. valid p \<and> lookup fs ino p \<noteq> 0 \<longrightarrow> zone_used fs (unat (lookup fs ino p))) \<and>
    (\<forall>p q. valid p \<and> valid q \<and> lookup fs ino p \<noteq> 0 \<and> lookup fs ino p = lookup fs ino q \<longrightarrow> p = q)"

lemma valid_par: "valid p \<Longrightarrow> par p = Some r \<Longrightarrow> valid r"
  by (cases p) auto

lemma lookup_par:
  "lookup fs ino p = (case par p of None \<Rightarrow> i_zone ino (slot p) | Some r \<Rightarrow> entry fs (lookup fs ino r) (slot p))"
  by (cases p) auto

lemma slot_inj: "valid p \<Longrightarrow> valid q \<Longrightarrow> par p = par q \<Longrightarrow> slot p = slot q \<Longrightarrow> p = q"
  by (cases p; cases q) auto

text \<open>Storing a fresh, zeroed zone where there was none changes that place only.\<close>

lemma lookup_ext:
  assumes "valid p" and "lookup fs ino p = 0" and "z \<noteq> 0"
    and top: "\<And>q. valid q \<Longrightarrow> par q = None \<Longrightarrow> i_zone ino' (slot q) = (if q = p then z else i_zone ino (slot q))"
    and ind: "\<And>q r. valid q \<Longrightarrow> par q = Some r \<Longrightarrow> lookup fs ino r \<noteq> 0 \<Longrightarrow>
        get16 (blk fs' (unat (lookup fs ino r))) (2 * slot q)
          = (if q = p then z else get16 (blk fs (unat (lookup fs ino r))) (2 * slot q))"
    and zero: "\<And>k. get16 (blk fs' (unat z)) k = 0"
    and parent: "\<And>r. par p = Some r \<Longrightarrow> lookup fs ino r \<noteq> 0"
    and "valid q"
  shows "lookup fs' ino' q = (if q = p then z else lookup fs ino q)"
proof -
  have step: "lookup fs' ino' q = (if q = p then z else lookup fs ino q)"
    if "valid q" "par q = Some r" "lookup fs' ino' r = (if r = p then z else lookup fs ino r)" for q r
  proof (cases "r = p")
    case True
    then have "lookup fs ino q = 0" using that(2) assms(2) by (simp add: lookup_par[of fs ino q] entry_def)
    moreover have "q \<noteq> p" using that(2) True by (cases p) auto
    moreover have "lookup fs' ino' q = 0"
      using that(2,3) True zero by (simp add: lookup_par[of fs' ino' q] entry_def)
    ultimately show ?thesis by simp
  next
    case False
    then have l: "lookup fs' ino' r = lookup fs ino r" using that(3) by simp
    show ?thesis
    proof (cases "lookup fs ino r = 0")
      case True
      then have "q \<noteq> p" using parent[of r] that(2) by auto
      with True l that(2) show ?thesis by (simp add: lookup_par[of _ _ q] entry_def)
    next
      case False
      with l that(2) ind[OF that(1,2)] show ?thesis by (simp add: lookup_par[of _ _ q] entry_def)
    qed
  qed
  have tops: "lookup fs' ino' q = (if q = p then z else lookup fs ino q)" if "valid q" "par q = None" for q
    using top[OF that] that(2) by (simp add: lookup_par[of _ _ q])
  show ?thesis
  proof (cases "par q")
    case None
    with tops \<open>valid q\<close> show ?thesis by blast
  next
    case (Some r)
    then have vr: "valid r" using \<open>valid q\<close> valid_par by blast
    show ?thesis
    proof (cases "par r")
      case None
      with step[OF \<open>valid q\<close> Some] tops vr show ?thesis by blast
    next
      case (Some t)
      then have "par t = None" "valid t" using vr \<open>par q = Some r\<close> by (cases q; auto)+
      with step[OF \<open>valid q\<close> \<open>par q = Some r\<close>] step[OF vr Some] tops show ?thesis by blast
    qed
  qed
qed

lemma get16_zero [simp]: "get16 (\<lambda>_. 0) k = 0"
  by (simp add: get16_def)

lemma unat_of_nat_u8: "unat (of_nat n :: u8) = n mod 256"
  by (simp add: unat_of_nat take_bit_eq_mod)

lemma get16_put16: "get16 (put16 d (2 * k) v) (2 * j) = (if j = k then v else get16 d (2 * j))"
proof -
  have ne: "2 * j \<noteq> 2 * k + 1" "2 * j + 1 \<noteq> 2 * k" by presburger+
  show ?thesis
  proof (cases "j = k")
    case True
    have lo: "unat (ucast v :: u8) = unat v mod 256" using unat_of_nat_u8[of "unat v"] by simp
    have hi: "unat (word_of_nat (unat v div 256) :: u8) = unat v div 256"
      using unat_of_nat_u8[of "unat v div 256"] u16_less[of v] by simp
    have "unat v mod 256 + 256 * (unat v div 256) = unat v" by simp
    with True lo hi show ?thesis by (simp add: get16_def put16_def)
  next
    case False
    with ne show ?thesis by (simp add: get16_def put16_def)
  qed
qed

section \<open>Growing a file\<close>

text \<open>The file keeps its zones and their data.\<close>

definition inner_zone :: "minix_fs \<Rightarrow> minode \<Rightarrow> nat \<Rightarrow> bool" where
  "inner_zone fs ino w \<longleftrightarrow> (\<exists>p. valid p \<and> \<not> leaf p \<and> lookup fs ino p \<noteq> 0 \<and> w = unat (lookup fs ino p))"

text \<open>The blocks the growth of a file does not touch: all but the bitmap, the free zones and
  the blocks of zone numbers of the file itself.\<close>

definition other_block :: "minix_fs \<Rightarrow> minode \<Rightarrow> nat \<Rightarrow> bool" where
  "other_block fs ino w \<longleftrightarrow> (\<forall>i. s_zmap (sb fs) i \<noteq> Some w) \<and> (data_zone fs w \<longrightarrow> zone_used fs w) \<and> \<not> inner_zone fs ino w"

definition extends :: "minix_fs \<Rightarrow> minode \<Rightarrow> minix_fs \<Rightarrow> minode \<Rightarrow> bool" where
  "extends fs ino fs' ino' \<longleftrightarrow> zmap_ok fs' \<and> file_ok fs' ino' \<and> sb fs' = sb fs \<and> held fs' = held fs \<and>
    i_size ino' = i_size ino \<and> i_mode ino' = i_mode ino \<and> i_ino ino' = i_ino ino \<and>
    (\<forall>b. bad fs' b \<longrightarrow> bad fs b) \<and> (\<forall>w. zone_used fs w \<longrightarrow> zone_used fs' w) \<and>
    (\<forall>q. valid q \<and> lookup fs ino q \<noteq> 0 \<longrightarrow> lookup fs' ino' q = lookup fs ino q) \<and>
    (\<forall>q. valid q \<and> lookup fs ino q = 0 \<and> lookup fs' ino' q \<noteq> 0 \<longrightarrow>
      \<not> zone_used fs (unat (lookup fs' ino' q)) \<and> (leaf q \<longrightarrow> blk fs' (unat (lookup fs' ino' q)) = (\<lambda>_. 0))) \<and>
    (\<forall>w. other_block fs ino w \<longrightarrow> blk fs' w = blk fs w)"

lemma extends_refl: "zmap_ok fs \<Longrightarrow> file_ok fs ino \<Longrightarrow> extends fs ino fs ino"
  by (simp add: extends_def)

lemma extendsD:
  assumes "extends fs ino fs' ino'"
  shows "zmap_ok fs'" "file_ok fs' ino'" "sb fs' = sb fs" "held fs' = held fs"
    "i_size ino' = i_size ino" "i_mode ino' = i_mode ino" "i_ino ino' = i_ino ino"
    "bad fs' b \<Longrightarrow> bad fs b" "zone_used fs w \<Longrightarrow> zone_used fs' w"
    "valid q \<Longrightarrow> lookup fs ino q \<noteq> 0 \<Longrightarrow> lookup fs' ino' q = lookup fs ino q"
    "valid q \<Longrightarrow> lookup fs ino q = 0 \<Longrightarrow> lookup fs' ino' q \<noteq> 0 \<Longrightarrow> \<not> zone_used fs (unat (lookup fs' ino' q))"
    "valid q \<Longrightarrow> leaf q \<Longrightarrow> lookup fs ino q = 0 \<Longrightarrow> lookup fs' ino' q \<noteq> 0 \<Longrightarrow> blk fs' (unat (lookup fs' ino' q)) = (\<lambda>_. 0)"
    "other_block fs ino w \<Longrightarrow> blk fs' w = blk fs w"
  using assms unfolding extends_def by blast+

lemma leaf_other:
  assumes "file_ok fs ino" "zmap_ok fs" "valid q" "leaf q" "lookup fs ino q \<noteq> 0"
  shows "other_block fs ino (unat (lookup fs ino q))"
proof -
  have u: "zone_used fs (unat (lookup fs ino q))" using assms by (simp add: file_ok_def)
  have "\<not> inner_zone fs ino (unat (lookup fs ino q))"
    using assms unfolding inner_zone_def file_ok_def by (metis word_unat_eq_iff)
  with u data_not_zmap[OF assms(2)] show ?thesis by (auto simp: other_block_def zone_used_def data_zone_def)
qed

lemma other_block_extends:
  assumes "extends fs ino fs' ino'" and "other_block fs ino w" and "file_ok fs' ino'"
  shows "other_block fs' ino' w"
proof -
  note e = extendsD[OF assms(1)]
  have "\<not> inner_zone fs' ino' w"
  proof
    assume "inner_zone fs' ino' w"
    then obtain p where p: "valid p" "\<not> leaf p" "lookup fs' ino' p \<noteq> 0" "w = unat (lookup fs' ino' p)" by (auto simp: inner_zone_def)
    have "zone_used fs' w" using assms(3) p by (simp add: file_ok_def)
    then have "zone_used fs w" using assms(2) zone_no_cong(2)[OF e(3)] by (auto simp: other_block_def zone_used_def)
    then have nz: "lookup fs ino p \<noteq> 0" using e(11)[OF p(1)] p(3,4) by auto
    then have "inner_zone fs ino w" using p e(10)[OF p(1) nz] unfolding inner_zone_def by metis
    then show False using assms(2) by (simp add: other_block_def)
  qed
  with assms(2) e(3,9) zone_no_cong(2)[OF e(3)] show ?thesis by (auto simp: other_block_def)
qed

lemma extends_trans:
  assumes a: "extends fs ino fs1 ino1" and b: "extends fs1 ino1 fs2 ino2"
  shows "extends fs ino fs2 ino2"
proof -
  note d = extendsD[OF a] and e = extendsD[OF b]
  have new: "\<not> zone_used fs (unat (lookup fs2 ino2 q)) \<and> (leaf q \<longrightarrow> blk fs2 (unat (lookup fs2 ino2 q)) = (\<lambda>_. 0))"
    if q: "valid q" "lookup fs ino q = 0" "lookup fs2 ino2 q \<noteq> 0" for q
  proof (cases "lookup fs1 ino1 q = 0")
    case True
    then show ?thesis using e(11,12)[OF q(1)] q(3) d(9) by blast
  next
    case False
    have "blk fs2 (unat (lookup fs1 ino1 q)) = (\<lambda>_. 0)" if "leaf q"
      using e(13)[OF leaf_other[OF d(2,1) q(1) that False]] d(12)[OF q(1) that q(2) False] by simp
    then show ?thesis using d(11)[OF q(1,2) False] e(10)[OF q(1) False] by simp
  qed
  have old: "lookup fs2 ino2 q = lookup fs ino q" if "valid q" "lookup fs ino q \<noteq> 0" for q
    using d(10)[OF that] e(10)[OF that(1)] that(2) by simp
  have "blk fs2 w = blk fs w" if "other_block fs ino w" for w
    using d(13)[OF that] e(13)[OF other_block_extends[OF a that d(2)]] by simp
  with new old d e show ?thesis unfolding extends_def by simp
qed

lemma extends_lookup: "extends fs ino fs' ino' \<Longrightarrow> valid q \<Longrightarrow> lookup fs ino q \<noteq> 0 \<Longrightarrow> lookup fs' ino' q = lookup fs ino q"
  by (simp add: extends_def)

lemma lookup_i_zone: "i_zone ino' = i_zone ino \<Longrightarrow> lookup fs ino' p = lookup fs ino p"
  by (cases p) auto

lemma store_fresh:
  assumes ok: "zmap_ok fs" "file_ok fs ino" and p: "valid p" "lookup fs ino p = 0"
    and par_there: "\<And>r. par p = Some r \<Longrightarrow> lookup fs ino r \<noteq> 0"
    and fz: "fresh_zone fs z fs1"
    and ino': "i_size ino' = i_size ino" "i_mode ino' = i_mode ino" "i_ino ino' = i_ino ino"
    and new: "case par p of None \<Rightarrow> i_zone ino' = (i_zone ino)(slot p := z) \<and> fs' = fs1
       | Some r \<Rightarrow> i_zone ino' = i_zone ino \<and>
           fs' = put_blk (unat (lookup fs ino r)) (put16 (blk fs1 (unat (lookup fs ino r))) (2 * slot p) z) fs1"
  shows "extends fs ino fs' ino'" "lookup fs' ino' p = z"
proof -
  note f = fresh_zoneD[OF fz]
  note z = f(1,3) and fs1 = f(4,5,7,8,9,10)
  have used: "zone_used fs (unat (lookup fs ino r))" if "valid r" "lookup fs ino r \<noteq> 0" for r
    using ok(2) that by (auto simp: file_ok_def)
  have old: "unat (lookup fs ino r) \<noteq> unat z" "unat (s_firstdatazone (sb fs)) \<le> unat (lookup fs ino r)"
    if "valid r" "lookup fs ino r \<noteq> 0" for r
    using used[OF that] z(2) by (auto simp: zone_used_def data_zone_def)
  have keep: "blk fs1 (unat (lookup fs ino r)) = blk fs (unat (lookup fs ino r))"
    if "valid r" "lookup fs ino r \<noteq> 0" for r using fs1(6) old[OF that] data_not_zmap[OF ok(1)] by blast
  have low: "sb fs' = sb fs" "held fs' = held fs" using new fs1(2) f(6) by (auto split: option.splits)
  have lbad: "bad fs' b \<Longrightarrow> bad fs b" for b using new fs1(3) by (auto split: option.splits)
  have zb: "zbit fs' n = zbit fs1 n" for n
  proof (cases "par p")
    case None
    then show ?thesis using new by simp
  next
    case (Some r)
    have "unat (s_firstdatazone (sb fs)) \<le> unat (lookup fs ino r)"
      using old(2) par_there[OF Some] valid_par[OF p(1) Some] by blast
    moreover have "s_zmap (sb fs) i = Some b \<Longrightarrow> b < unat (s_firstdatazone (sb fs))" for i b
      using ok(1) by (auto simp: zmap_ok_def)
    ultimately have "s_zmap (sb fs) i \<noteq> Some (unat (lookup fs ino r))" for i by (meson leD)
    then show ?thesis using new Some fs1(2) by (auto simp: zbit_def split: option.splits)
  qed
  have sbs: "sb fs' = sb fs1" using low fs1(2) by simp
  have used': "zone_used fs' w = (w = unat z \<or> zone_used fs w)" for w
    unfolding fs1(4)[symmetric] using zone_no_cong[OF sbs] zb by (simp add: zone_used_def)
  have ok': "zmap_ok fs'" using zmap_ok_cong[OF fs1(1) sbs] zb by blast
  have leafblk: "blk fs' (unat (lookup fs ino q)) = blk fs (unat (lookup fs ino q))"
    if "valid q" "lookup fs ino q \<noteq> 0" "par p \<noteq> Some q" for q
  proof (cases "par p")
    case None
    then show ?thesis using new keep[OF that(1,2)] by simp
  next
    case (Some r)
    have "lookup fs ino q \<noteq> lookup fs ino r"
      using ok(2) that Some valid_par[OF p(1) Some] unfolding file_ok_def by metis
    then have "unat (lookup fs ino q) \<noteq> unat (lookup fs ino r)" by (simp add: word_unat_eq_iff)
    then show ?thesis using new Some keep[OF that(1,2)] by simp
  qed
  have look: "lookup fs' ino' q = (if q = p then z else lookup fs ino q)" if "valid q" for q
  proof (rule lookup_ext[OF p z(1) _ _ _ par_there that])
    show "i_zone ino' (slot q) = (if q = p then z else i_zone ino (slot q))" if "valid q" "par q = None" for q
      using new that slot_inj[OF that(1) p(1)] by (cases "par p") auto
    show "get16 (blk fs' (unat z)) k = 0" for k
    proof (cases "par p")
      case None
      then show ?thesis using new fs1(5) by simp
    next
      case (Some r)
      then have "unat (lookup fs ino r) \<noteq> unat z" using old(1) par_there valid_par[OF p(1)] by blast
      then show ?thesis using new Some fs1(5) by simp
    qed
    show "get16 (blk fs' (unat (lookup fs ino r))) (2 * slot q)
        = (if q = p then z else get16 (blk fs (unat (lookup fs ino r))) (2 * slot q))"
      if q: "valid q" "par q = Some r" "lookup fs ino r \<noteq> 0" for q r
    proof (cases "par p = Some r")
      case True
      have "q = p \<longleftrightarrow> slot q = slot p" using slot_inj[OF q(1) p(1)] q(2) True by auto
      then show ?thesis using new True keep[OF valid_par[OF q(1,2)] q(3)] by (simp add: get16_put16)
    next
      case False
      then show ?thesis using leafblk[OF valid_par[OF q(1,2)] q(3)] q(2) by auto
    qed
  qed
  show "lookup fs' ino' p = z" using look[OF p(1)] by simp
  have fok: "file_ok fs' ino'" unfolding file_ok_def
  proof (intro conjI allI impI)
    fix q
    assume "valid q \<and> lookup fs' ino' q \<noteq> 0"
    then show "zone_used fs' (unat (lookup fs' ino' q))" using look[of q] used[of q] unfolding used' by (cases "q = p") simp_all
  next
    fix q r
    assume a: "valid q \<and> valid r \<and> lookup fs' ino' q \<noteq> 0 \<and> lookup fs' ino' q = lookup fs' ino' r"
    have "z \<noteq> lookup fs ino t" if "valid t" for t
      using used[OF that] z by metis
    note znew = this
    show "q = r"
    proof (cases "q = p \<or> r = p")
      case True
      then show ?thesis using a look[of q] look[of r] znew[of q] znew[of r] by (auto split: if_splits)
    next
      case False
      then have "valid q \<and> valid r \<and> lookup fs ino q \<noteq> 0 \<and> lookup fs ino q = lookup fs ino r"
        using a look[of q] look[of r] by metis
      then show ?thesis using ok(2) unfolding file_ok_def by blast
    qed
  qed
  have oth: "blk fs' w = blk fs w" if w: "other_block fs ino w" for w
  proof -
    have "w \<noteq> unat z" using w z(2) f(2) by (auto simp: other_block_def)
    then have b1: "blk fs1 w = blk fs w" using w by (intro fs1(6)) (auto simp: other_block_def)
    show ?thesis
    proof (cases "par p")
      case (Some r)
      have "\<not> leaf r" using Some by (cases p) auto
      then have "inner_zone fs ino (unat (lookup fs ino r))"
        using par_there[OF Some] valid_par[OF p(1) Some] unfolding inner_zone_def by blast
      then have "w \<noteq> unat (lookup fs ino r)" using w by (auto simp: other_block_def)
      then show ?thesis using new Some b1 by simp
    qed (use new b1 in simp)
  qed
  have fresh: "q = p" if "valid q" "lookup fs ino q = 0" "lookup fs' ino' q \<noteq> 0" for q
    using look[OF that(1)] that by (simp split: if_splits)
  have zero: "blk fs' (unat z) = (\<lambda>_. 0)" if "leaf p"
  proof (cases "par p")
    case (Some r)
    then have "unat (lookup fs ino r) \<noteq> unat z" using old(1) par_there valid_par[OF p(1)] by blast
    then show ?thesis using new Some fs1(5) by simp
  qed (use new fs1(5) in simp)
  have lp: "lookup fs' ino' p = z" using look[OF p(1)] by simp
  have nw: "\<not> zone_used fs (unat (lookup fs' ino' q)) \<and> (leaf q \<longrightarrow> blk fs' (unat (lookup fs' ino' q)) = (\<lambda>_. 0))"
    if "valid q" "lookup fs ino q = 0" "lookup fs' ino' q \<noteq> 0" for q
    using fresh[OF that] lp z(2) zero by simp
  have kp: "lookup fs' ino' q = lookup fs ino q" if "valid q" "lookup fs ino q \<noteq> 0" for q
    using look[OF that(1)] that(2) p(2) by auto
  show "extends fs ino fs' ino'"
    unfolding extends_def using ok' fok low lbad ino' nw kp oth used' by simp
qed

text \<open>The step from a place of the file to its zone number, with and without creation.\<close>

lemma map_izone_step:
  assumes "zmap_ok fs" "file_ok fs ino" and "valid p" and "par p = None"
  shows "\<exists>z ino' fs'. map_izone ino (slot p) create fs = Inr (z, ino', fs') \<and> extends fs ino fs' ino' \<and>
    lookup fs' ino' p = z \<and> (create \<and> z = 0 \<longrightarrow> zones_full fs')"
proof (cases "create \<and> i_zone ino (slot p) = 0")
  case False
  then show ?thesis using assms by (auto simp: map_izone_def extends_refl lookup_par[of fs ino p])
next
  case True
  have l0: "lookup fs ino p = 0" using True assms(4) by (simp add: lookup_par[of fs ino p])
  from new_block_cases[OF assms(1)] show ?thesis
  proof (elim disjE)
    assume "zones_full fs \<and> minix_new_block fs = Inr (0, fs)"
    then have full: "zones_full fs" and nb: "minix_new_block fs = Inr (0, fs)" by auto
    have "(i_zone ino)(slot p := 0) = i_zone ino" using True by auto
    then have "map_izone ino (slot p) create fs = Inr (0, ino, fs)" using True nb by (simp add: map_izone_def)
    with full l0 assms show ?thesis by (auto simp: extends_refl)
  next
    assume "\<exists>z fs'. minix_new_block fs = Inr (z, fs') \<and> fresh_zone fs z fs'"
    then obtain z fs1 where n: "minix_new_block fs = Inr (z, fs1)" "z \<noteq> 0" and fz: "fresh_zone fs z fs1" by (auto dest: fresh_zoneD(1))
    let ?ino = "ino\<lparr>i_zone := (i_zone ino)(slot p := z), i_ctime := now fs1, i_dirt := True\<rparr>"
    have "map_izone ino (slot p) create fs = Inr (z, ?ino, fs1)" using True n(1,2) by (simp add: map_izone_def)
    moreover have "extends fs ino fs1 ?ino" "lookup fs1 ?ino p = z"
      using store_fresh[OF assms(1,2,3) l0 _ fz, of ?ino fs1] assms(4) by auto
    ultimately show ?thesis using n(2) by blast
  qed
qed

lemma map_iblock_step:
  assumes "zmap_ok fs" "file_ok fs ino" and "valid p" and "par p = Some r" and "lookup fs ino r \<noteq> 0"
    and "\<not> bad fs (unat (lookup fs ino r))"
  shows "\<exists>z fs'. map_iblock (lookup fs ino r) (slot p) create fs = Inr (z, fs') \<and> extends fs ino fs' ino \<and>
    lookup fs' ino p = z \<and> (create \<and> z = 0 \<longrightarrow> zones_full fs')"
proof -
  let ?i = "unat (lookup fs ino r)"
  have l: "lookup fs ino p = get16 (blk fs ?i) (2 * slot p)"
    using assms(4,5) by (simp add: lookup_par[of fs ino p] entry_def)
  show ?thesis
  proof (cases "create \<and> lookup fs ino p = 0")
    case False
    then show ?thesis using assms l by (auto simp: map_iblock_def Let_def extends_refl)
  next
    case True
    then have l0: "lookup fs ino p = 0" by simp
    from new_block_cases[OF assms(1)] show ?thesis
    proof (elim disjE)
      assume "zones_full fs \<and> minix_new_block fs = Inr (0, fs)"
      then have full: "zones_full fs" and nb: "minix_new_block fs = Inr (0, fs)" by auto
      have "map_iblock (lookup fs ino r) (slot p) create fs = Inr (0, fs)"
        using True nb assms(6) l by (simp add: map_iblock_def Let_def)
      with full l0 assms(1,2) show ?thesis by (auto simp: extends_refl)
    next
      assume "\<exists>z fs'. minix_new_block fs = Inr (z, fs') \<and> fresh_zone fs z fs'"
      then obtain z fs1 where n: "minix_new_block fs = Inr (z, fs1)" "z \<noteq> 0" and fz: "fresh_zone fs z fs1" by (auto dest: fresh_zoneD(1))
      let ?fs = "put_blk ?i (put16 (blk fs1 ?i) (2 * slot p) z) fs1"
      have "map_iblock (lookup fs ino r) (slot p) create fs = Inr (z, ?fs)"
        using True n(1,2) assms(6) l by (simp add: map_iblock_def Let_def)
      moreover have "extends fs ino ?fs ino" "lookup ?fs ino p = z"
        using store_fresh[OF assms(1,2,3) l0 _ fz, of ino ?fs] assms(4,5) by auto
      ultimately show ?thesis using n(2) by blast
    qed
  qed
qed

definition readable :: "minix_fs \<Rightarrow> bool" where
  "readable fs \<longleftrightarrow> (\<forall>b. \<not> bad fs b)"

text \<open>What block mapping promises: the result is the zone at the place of the block, the
  file keeps what it had, and a failed creation means a full file system.\<close>

definition mapped :: "bool \<Rightarrow> minix_fs \<Rightarrow> minode \<Rightarrow> zpath \<Rightarrow> u16 \<Rightarrow> minode \<Rightarrow> minix_fs \<Rightarrow> bool" where
  "mapped create fs ino p z ino' fs' \<longleftrightarrow> extends fs ino fs' ino' \<and> lookup fs' ino' p = z \<and>
    (create \<and> z = 0 \<longrightarrow> zones_full fs')"

lemma mapped_through:
  assumes "extends fs ino fs1 ino1" and "mapped create fs1 ino1 p z ino' fs'"
  shows "mapped create fs ino p z ino' fs'"
  using assms extends_trans unfolding mapped_def by metis

lemma readable_extends: "extends fs ino fs' ino' \<Longrightarrow> readable fs \<Longrightarrow> readable fs'"
  by (auto simp: extends_def readable_def)

lemma indirect_mapped:
  assumes "mapped create fs ino r i ino1 fs1" and "readable fs" and "valid p" and "par p = Some r"
  shows "\<exists>z fs2. (if i \<noteq> 0 then map_iblock i (slot p) create fs1 else Inr (i, fs1)) = Inr (z, fs2) \<and>
     mapped create fs ino p z ino1 fs2"
proof (cases "i = 0")
  case True
  then have "lookup fs1 ino1 p = 0" using assms(1,4) by (simp add: mapped_def lookup_par[of fs1 ino1 p] entry_def)
  with True assms(1) show ?thesis by (simp add: mapped_def)
next
  case False
  have e: "extends fs ino fs1 ino1" and i: "i = lookup fs1 ino1 r" using assms(1) by (auto simp: mapped_def)
  have "readable fs1" by (rule readable_extends[OF e assms(2)])
  then have "\<not> bad fs1 (unat (lookup fs1 ino1 r))" by (simp add: readable_def)
  from map_iblock_step[OF extendsD(1,2)[OF e] assms(3,4) _ this, of create] False i
  obtain z fs2 where "map_iblock i (slot p) create fs1 = Inr (z, fs2)" "extends fs1 ino1 fs2 ino1"
    "lookup fs2 ino1 p = z" "create \<and> z = 0 \<longrightarrow> zones_full fs2" by auto
  with False e mapped_through[OF e, of create p z ino1 fs2] show ?thesis
    by (auto simp: mapped_def intro: extends_refl extendsD)
qed

lemma top_mapped:
  assumes "zmap_ok fs" "file_ok fs ino" and "valid p" and "par p = None"
  shows "\<exists>z ino' fs'. map_izone ino (slot p) create fs = Inr (z, ino', fs') \<and> mapped create fs ino p z ino' fs'"
  using map_izone_step[OF assms, of create] extends_refl[OF assms(1,2)] unfolding mapped_def by blast

lemma bmap_mapped:
  assumes "zmap_ok fs" and "file_ok fs ino" and "readable fs"
  shows "\<exists>z ino' fs'. minix_bmap ino block create fs = Inr (z, ino', fs') \<and>
     mapped create fs ino (path_of (unat block)) z ino' fs'"
proof -
  let ?b = "unat block"
  consider (dir) "?b < 7" | (ind) "7 \<le> ?b" "?b - 7 < 512" | (dbl) "519 \<le> ?b" by linarith
  then show ?thesis
  proof cases
    case dir
    then have "minix_bmap ino block create fs = map_izone ino ?b create fs"
      by (simp add: minix_bmap_def word_less_nat_alt)
    with top_mapped[OF assms(1,2), of "Direct ?b" create] dir show ?thesis by (simp add: path_of_def)
  next
    case ind
    have u: "unat (block - 7) = ?b - 7" using ind by (simp add: unat_u16_minus)
    then have a: "unat ((block - 7) AND 511) = ?b - 7" using and_pow2_minus1[of 9 "block - 7"] ind by simp
    obtain i ino1 fs1 where m: "map_izone ino 7 create fs = Inr (i, ino1, fs1)" "mapped create fs ino Single i ino1 fs1"
      using top_mapped[OF assms(1,2), of Single create] by auto
    obtain z fs2 where z: "(if i \<noteq> 0 then map_iblock i (?b - 7) create fs1 else Inr (i, fs1)) = Inr (z, fs2)"
        "mapped create fs ino (Via (?b - 7)) z ino1 fs2"
      using indirect_mapped[OF m(2) assms(3), of "Via (?b - 7)", unfolded slot.simps] ind by fastforce
    have "minix_bmap ino block create fs = Inr (z, ino1, fs2)"
      using ind u z(1) m(1) by (auto simp: minix_bmap_def Let_def word_less_nat_alt a split: if_splits)
    with z(2) ind show ?thesis by (auto simp: path_of_def)
  next
    case dbl
    have u: "unat (block - 7) = ?b - 7" using dbl by (simp add: unat_u16_minus)
    have bl: "block - 7 - 512 = block - 519" by simp
    have v: "unat (block - 519) = ?b - 519" using dbl by (simp add: unat_u16_minus)
    then have a: "unat ((block - 519) AND 511) = (?b - 519) mod 512"
      using and_pow2_minus1[of 9 "block - 519"] by simp
    have d: "unat (drop_bit 9 (block - 519)) = (?b - 519) div 512"
      using v by (simp add: drop_bit_eq_div unat_div)
    have vm: "valid (Mid ((?b - 519) div 512))" "valid (Via2 ((?b - 519) div 512) ((?b - 519) mod 512))"
      using u16_less[of block] by auto
    obtain i ino1 fs1 where m: "map_izone ino 8 create fs = Inr (i, ino1, fs1)" "mapped create fs ino Double i ino1 fs1"
      using top_mapped[OF assms(1,2), of Double create] by auto
    obtain y fs2 where y: "(if i \<noteq> 0 then map_iblock i ((?b - 519) div 512) create fs1 else Inr (i, fs1)) = Inr (y, fs2)"
        "mapped create fs ino (Mid ((?b - 519) div 512)) y ino1 fs2"
      using indirect_mapped[OF m(2) assms(3) vm(1), unfolded slot.simps] by fastforce
    obtain z fs3 where z: "(if y \<noteq> 0 then map_iblock y ((?b - 519) mod 512) create fs2 else Inr (y, fs2)) = Inr (z, fs3)"
        "mapped create fs ino (Via2 ((?b - 519) div 512) ((?b - 519) mod 512)) z ino1 fs3"
      using indirect_mapped[OF y(2) assms(3) vm(2), unfolded slot.simps] by fastforce
    have "minix_bmap ino block create fs = Inr (z, ino1, fs3)"
      using dbl u z(1) y(1) m(1) unfolding minix_bmap_def Let_def bl a d
      by (auto simp: word_less_nat_alt split: if_splits)
    with z(2) dbl show ?thesis by (auto simp: path_of_def)
  qed
qed

lemma valid_path_of: "b < 65536 \<Longrightarrow> valid (path_of b) \<and> leaf (path_of b)"
  by (auto simp: path_of_def)

lemma path_of_inj: "path_of a = path_of b \<Longrightarrow> a = b"
proof -
  assume "path_of a = path_of b"
  moreover have "a - 519 = b - 519" if "(a - 519) div 512 = (b - 519) div 512" "(a - 519) mod 512 = (b - 519) mod 512"
    using that by (metis div_mult_mod_eq)
  ultimately show ?thesis unfolding path_of_def by (auto split: if_splits)
qed

text \<open>Without creation the mapping only reads: it is the walk through the inode and its
  indirect blocks.\<close>

lemma map_izone_read [simp]: "map_izone ino k False fs = Inr (i_zone ino k, ino, fs)"
  by (simp add: map_izone_def)

lemma map_iblock_read: "\<not> bad fs (unat i) \<Longrightarrow> map_iblock i k False fs = Inr (get16 (blk fs (unat i)) (2 * k), fs)"
  by (simp add: map_iblock_def Let_def)

section \<open>A file system to try the operations on\<close>

text \<open>One block of each bitmap, three data zones (2, 3 and 4), none in use.\<close>

definition small_sb :: minix_sb_info where
  "small_sb = \<lparr>s_ninodes = 3, s_nzones = 5, s_imap_blocks = 0, s_zmap_blocks = 0, s_firstdatazone = 2,
     s_dirsize = 16, s_namelen = 14,
     s_imap = [0 \<mapsto> 0], s_zmap = [0 \<mapsto> 1]\<rparr>"

definition small_fs :: minix_fs where
  "small_fs = \<lparr>sb = small_sb, blk = (\<lambda>b. if b = 1 then (\<lambda>k. if k = 0 then 0xF1 else 0xFF) else (\<lambda>_. 0)),
     dirty = (\<lambda>_. False), bad = (\<lambda>_. False), held = (\<lambda>_. False), now = 0\<rparr>"

definition empty_ino :: minode where
  "empty_ino = \<lparr>i_mode = 0x81A4, i_uid = 1, i_size = 0, i_mtime = 7, i_gid = 2, i_nlink = 1, i_zone = (\<lambda>_. 0),
     i_ino = 2, i_dev = 3, i_rdev = 0, i_atime = 0, i_ctime = 0, i_count = 1, i_dirt = False, i_op = File_ops,
     i_sb = Some 0, i_flags = 0, i_lock = False, i_mount = None, i_pipe = False, i_next = None, i_prev = None\<rparr>"

lemma small_zbit: "zbit small_fs n \<longleftrightarrow> n < 8192 \<and> n \<noteq> 1 \<and> n \<noteq> 2 \<and> n \<noteq> 3"
proof (cases "n < 8")
  case True
  then have "n \<in> {0, 1, 2, 3, 4, 5, 6, 7}" by auto
  then show ?thesis by (auto simp: zbit_def small_fs_def small_sb_def bit_at_def bit_numeral_simps)
next
  case False
  have "(255 :: u8) = mask 8" by (simp add: mask_eq_exp_minus_1)
  then have "bit (255 :: u8) (n mod 8)" by (simp only: bit_mask_iff) simp
  with False show ?thesis by (auto simp: zbit_def small_fs_def small_sb_def bit_at_def)
qed

lemma small_ok: "zmap_ok small_fs" "file_ok small_fs empty_ino" "readable small_fs"
proof -
  show "zmap_ok small_fs" unfolding zmap_ok_def small_zbit by (auto simp: small_fs_def small_sb_def split: if_splits)
  have "lookup small_fs empty_ino p = 0" for p by (cases p) (simp_all add: empty_ino_def entry_def)
  then show "file_ok small_fs empty_ino" by (simp add: file_ok_def)
  show "readable small_fs" by (simp add: readable_def small_fs_def)
qed

section \<open>Correctness of block allocation and mapping\<close>

text \<open>On a well-formed file system \<^verbatim>\<open>minix_new_block\<close> never panics. Either every data
  zone is in use and it returns 0 and changes nothing, or it returns a data zone that was
  free; afterwards exactly this zone has become used, it is filled with zeros, no other
  block but those of the bitmap has changed, and the file system is well-formed again.\<close>

theorem minix_new_block_fresh:
  assumes "zmap_ok fs"
  shows "(zones_full fs \<and> minix_new_block fs = Inr (0, fs)) \<or>
    (\<exists>z fs'. minix_new_block fs = Inr (z, fs') \<and> z \<noteq> 0 \<and> data_zone fs (unat z) \<and> \<not> zone_used fs (unat z) \<and> zmap_ok fs' \<and>
      (\<forall>w. zone_used fs' w = (w = unat z \<or> zone_used fs w)) \<and> blk fs' (unat z) = (\<lambda>_. 0) \<and>
      (\<forall>b. b \<noteq> unat z \<and> (\<forall>i. s_zmap (sb fs) i \<noteq> Some b) \<longrightarrow> blk fs' b = blk fs b))"
  using new_block_cases[OF assms] unfolding fresh_zone_def by blast

theorem minix_new_block_fresh_witness:
  "zmap_ok small_fs \<and> (\<exists>z fs'. minix_new_block small_fs = Inr (z, fs') \<and> z \<noteq> 0 \<and> blk fs' (unat z) = (\<lambda>_. 0))"
proof -
  have "\<not> zones_full small_fs" unfolding zones_full_def zone_used_def data_zone_def small_zbit
    by (auto simp: small_fs_def small_sb_def zone_no_def intro!: exI[of _ 2])
  then show ?thesis using minix_new_block_fresh[OF small_ok(1)] small_ok(1) by blast
qed

text \<open>\<^verbatim>\<open>minix_free_block\<close> undoes \<^verbatim>\<open>minix_new_block\<close>: after allocating a zone and freeing
  it the set of used zones is what it was, the file system is well-formed, and no data
  block but the zone itself has changed.\<close>

theorem minix_new_free_block:
  assumes "zmap_ok fs" and "minix_new_block fs = Inr (z, fs1)" and "z \<noteq> 0"
  shows "zmap_ok (minix_free_block z fs1) \<and> (\<forall>w. zone_used (minix_free_block z fs1) w = zone_used fs w) \<and>
    (\<forall>b. b \<noteq> unat z \<and> unat (s_firstdatazone (sb fs)) \<le> b \<longrightarrow> blk (minix_free_block z fs1) b = blk fs b)"
proof -
  have "fresh_zone fs z fs1" using new_block_cases[OF assms(1)] assms(2,3) by auto
  note n = fresh_zoneD(2,3,4,5,8,10)[OF this]
  have d: "data_zone fs1 (unat z)" using n(1) zone_no_cong(2)[OF n(4)] by simp
  note f = free_block_zone[OF n(3) d]
  have "zone_used (minix_free_block z fs1) w = zone_used fs w" for w using f(5)[of w] n(2,5) by blast
  moreover have "blk (minix_free_block z fs1) b = blk fs b" if "b \<noteq> unat z" "unat (s_firstdatazone (sb fs)) \<le> b" for b
    using f(6)[of b] n(4) n(6)[OF that(1)] data_not_zmap[OF assms(1) that(2)] that by simp
  ultimately show ?thesis using f(1) by blast
qed

theorem minix_new_free_block_witness:
  "\<exists>z fs1. minix_new_block small_fs = Inr (z, fs1) \<and> z \<noteq> 0 \<and>
     (\<forall>w. zone_used (minix_free_block z fs1) w = zone_used small_fs w)"
proof -
  have "\<not> zones_full small_fs" unfolding zones_full_def zone_used_def data_zone_def small_zbit
    by (auto simp: small_fs_def small_sb_def zone_no_def intro!: exI[of _ 2])
  then obtain z fs1 where z: "minix_new_block small_fs = Inr (z, fs1)" "z \<noteq> 0"
    using new_block_cases[OF small_ok(1)] fresh_zoneD(1) by blast
  with minix_new_free_block[OF small_ok(1) z] show ?thesis by blast
qed

lemma bmap_reads:
  assumes "readable fs"
  shows "minix_bmap ino block False fs = Inr (lookup fs ino (path_of (unat block)), ino, fs)"
proof -
  let ?b = "unat block"
  consider (dir) "?b < 7" | (ind) "7 \<le> ?b" "?b - 7 < 512" | (dbl) "519 \<le> ?b" by linarith
  then show ?thesis
  proof cases
    case dir
    then show ?thesis by (simp add: minix_bmap_def word_less_nat_alt path_of_def)
  next
    case ind
    have u: "unat (block - 7) = ?b - 7" using ind by (simp add: unat_u16_minus)
    then have a: "unat ((block - 7) AND 511) = ?b - 7" using and_pow2_minus1[of 9 "block - 7"] ind by simp
    show ?thesis using ind u assms
      by (simp add: minix_bmap_def Let_def word_less_nat_alt a path_of_def map_iblock_read readable_def entry_def)
  next
    case dbl
    have u: "unat (block - 7) = ?b - 7" using dbl by (simp add: unat_u16_minus)
    have bl: "block - 7 - 512 = block - 519" by simp
    have v: "unat (block - 519) = ?b - 519" using dbl by (simp add: unat_u16_minus)
    then have a: "unat ((block - 519) AND 511) = (?b - 519) mod 512"
      using and_pow2_minus1[of 9 "block - 519"] by simp
    have d: "unat (drop_bit 9 (block - 519)) = (?b - 519) div 512"
      using v by (simp add: drop_bit_eq_div unat_div)
    have g: "\<not> block < 7" "\<not> block - 7 < 512" using dbl u by (simp_all add: word_less_nat_alt)
    show ?thesis
      using dbl assms unfolding minix_bmap_def Let_def bl a d if_not_P[OF g(1)] if_not_P[OF g(2)]
      by (auto simp: path_of_def entry_def map_iblock_read readable_def)
  qed
qed

text \<open>C17: \<^verbatim>\<open>_minix_bmap\<close> without creation is the walk from the inode through its indirect
  blocks to the place of the block in the file, changes nothing, and is defined for each
  of the 65536 block numbers.\<close>

theorem minix_bmap_reads:
  assumes "readable fs"
  shows "minix_bmap ino block False fs = Inr (lookup fs ino (path_of (unat block)), ino, fs)"
  by (rule bmap_reads[OF assms])

theorem minix_bmap_reads_witness:
  "minix_bmap empty_ino 600 False small_fs = Inr (lookup small_fs empty_ino (Via2 0 81), empty_ino, small_fs)"
  using minix_bmap_reads[OF small_ok(3), of empty_ino 600] by (simp add: path_of_def)

text \<open>C15: \<^verbatim>\<open>_minix_bmap\<close> with creation: on a well-formed file system and a well-formed file it
  returns the zone of the block; every zone the file had it keeps, at the same place and,
  for data zones, with the same bytes; no zone is lost from the bitmap; the zones of the
  file are still all different; and 0 is returned only when no zone is left.\<close>

theorem minix_bmap_creates:
  assumes "zmap_ok fs" and "file_ok fs ino" and "readable fs"
  shows "\<exists>z ino' fs'. minix_bmap ino block True fs = Inr (z, ino', fs') \<and>
     lookup fs' ino' (path_of (unat block)) = z \<and> extends fs ino fs' ino' \<and>
     (z = 0 \<longrightarrow> zones_full fs') \<and>
     (\<forall>other. other \<noteq> block \<and> z \<noteq> 0 \<longrightarrow> lookup fs' ino' (path_of (unat other)) \<noteq> z)"
proof -
  obtain z ino' fs' where m: "minix_bmap ino block True fs = Inr (z, ino', fs')" "mapped True fs ino (path_of (unat block)) z ino' fs'"
    using bmap_mapped[OF assms, of block True] by blast
  have e: "extends fs ino fs' ino'" "lookup fs' ino' (path_of (unat block)) = z"
      "z = 0 \<longrightarrow> zones_full fs'" using m(2) by (auto simp: mapped_def)
  have "lookup fs' ino' (path_of (unat other)) \<noteq> z" if "other \<noteq> block" "z \<noteq> 0" for other
  proof
    assume "lookup fs' ino' (path_of (unat other)) = z"
    then have "path_of (unat other) = path_of (unat block)"
      using extendsD(2)[OF e(1)] e(2) that(2) valid_path_of[OF u16_less] unfolding file_ok_def by metis
    then have "unat other = unat block" by (rule path_of_inj)
    with that(1) show False by (simp add: word_unat_eq_iff)
  qed
  with m(1) e show ?thesis by blast
qed

theorem minix_bmap_creates_witness:
  "\<exists>z ino' fs'. minix_bmap empty_ino 7 True small_fs = Inr (z, ino', fs') \<and>
     lookup fs' ino' (Via 0) = z \<and> extends small_fs empty_ino fs' ino'"
  using minix_bmap_creates[OF small_ok, of 7] by (auto simp: path_of_def)

end
