(* ===== verification/MinixTruncate.thy ===== *)
theory MinixTruncate
  imports Minix
begin

text \<open>
  Shrinking a file of the Minix file system, \<^verbatim>\<open>fs/minix/truncate.c\<close>. \<^verbatim>\<open>int\<close> has 16 bits: the
  number of blocks that stay is computed with 32 bits and cut to 16, and the offsets of
  the indirect blocks wrap around. The size of the file does not change while the loops
  run, so their checks for a size that has grown never send them back, except where the
  truncated block number is smaller than the real one.
\<close>

section \<open>Model\<close>

text \<open>The lvalues that hold zone numbers: \<^verbatim>\<open>&inode->i_zone[k]\<close>, or a word in the buffer
  of a block.\<close>

datatype zptr = Zone nat | Cell nat nat

primrec load_zptr :: "zptr \<Rightarrow> minode \<Rightarrow> minix_fs \<Rightarrow> u16" where
  "load_zptr (Zone k) ino fs = i_zone ino k"
| "load_zptr (Cell b k) ino fs = get16 (blk fs b) (2 * k)"

primrec store_zptr :: "zptr \<Rightarrow> u16 \<Rightarrow> minode \<Rightarrow> minix_fs \<Rightarrow> minode \<times> minix_fs" where
  "store_zptr (Zone k) v ino fs = (ino\<lparr>i_zone := (i_zone ino)(k := v)\<rparr>, fs)"
| "store_zptr (Cell b k) v ino fs = (ino, fs\<lparr>blk := (blk fs)(b := put16 (blk fs b) (2 * k) v)\<rparr>)"

definition mark_dirty :: "nat \<Rightarrow> bool \<Rightarrow> minix_fs \<Rightarrow> minix_fs" where
  "mark_dirty b v fs = fs\<lparr>dirty := (dirty fs)(b := v)\<rparr>"

definition DIRECT_BLOCK :: "minode \<Rightarrow> u32" where
  "DIRECT_BLOCK ino = drop_bit 10 (i_size ino + 1023)"

definition INDIRECT_BLOCK :: "minode \<Rightarrow> u16 \<Rightarrow> int" where
  "INDIRECT_BLOCK ino offset = sint (ucast (DIRECT_BLOCK ino) - offset :: u16)"

definition DINDIRECT_BLOCK :: "minode \<Rightarrow> u16 \<Rightarrow> int" where
  "DINDIRECT_BLOCK ino offset = drop_bit 9 (INDIRECT_BLOCK ino offset)"

primrec trunc_direct_loop :: "nat list \<Rightarrow> bool \<Rightarrow> minode \<Rightarrow> minix_fs \<Rightarrow> (bool \<times> minode \<times> minix_fs) kres" where
  "trunc_direct_loop [] retry ino fs = Inr (retry, ino, fs)"
| "trunc_direct_loop (i # is) retry ino fs =
    (let tmp = i_zone ino i in
     if tmp = 0 then trunc_direct_loop is retry ino fs
     else if of_nat i < DIRECT_BLOCK ino then Inl Stuck
     else if held fs (unat tmp) then trunc_direct_loop is True ino fs
     else
       let ino = ino\<lparr>i_zone := (i_zone ino)(i := 0), i_dirt := True\<rparr>;
           fs = mark_dirty (unat tmp) False fs;
           fs = minix_free_block tmp fs
       in trunc_direct_loop is retry ino fs)"

definition V1_trunc_direct :: "minode \<Rightarrow> minix_fs \<Rightarrow> (bool \<times> minode \<times> minix_fs) kres" where
  "V1_trunc_direct ino fs =
    (let i = sint (ucast (DIRECT_BLOCK ino) :: u16)
     in if i < 0 then Inl OutOfBounds
        else trunc_direct_loop [nat i..<7] False ino fs)"

primrec trunc_indirect_loop :: "nat list \<Rightarrow> nat \<Rightarrow> bool \<Rightarrow> minix_fs \<Rightarrow> bool \<times> minix_fs" where
  "trunc_indirect_loop [] ind_bh retry fs = (retry, fs)"
| "trunc_indirect_loop (i # is) ind_bh retry fs =
    (let tmp = get16 (blk fs ind_bh) (2 * i) in
     if tmp = 0 then trunc_indirect_loop is ind_bh retry fs
     else if held fs (unat tmp) then trunc_indirect_loop is ind_bh True fs
     else
       let fs = put_blk ind_bh (put16 (blk fs ind_bh) (2 * i) 0) fs;
           fs = minix_free_block tmp fs
       in trunc_indirect_loop is ind_bh retry fs)"

definition all_zero :: "bytes \<Rightarrow> bool" where
  "all_zero d \<longleftrightarrow> (\<forall>i\<in>set [0..<512]. get16 d (2 * i) = 0)"

definition V1_trunc_indirect :: "minode \<Rightarrow> u16 \<Rightarrow> zptr \<Rightarrow> minix_fs \<Rightarrow> bool \<times> minode \<times> minix_fs" where
  "V1_trunc_indirect ino offset p fs =
    (let tmp = load_zptr p ino fs in
     if tmp = 0 then (False, ino, fs)
     else if bad fs (unat tmp) then (False, store_zptr p 0 ino fs)
     else
       let (retry, fs) = trunc_indirect_loop [nat (max 0 (INDIRECT_BLOCK ino offset))..<512] (unat tmp) False fs
       in if all_zero (blk fs (unat tmp)) then
            if held fs (unat tmp) then (True, ino, fs)
            else
              let z = load_zptr p ino fs;
                  (ino, fs) = store_zptr p 0 ino fs
              in (retry, ino, minix_free_block z fs)
          else (retry, ino, fs))"

primrec trunc_dindirect_loop ::
    "nat list \<Rightarrow> nat \<Rightarrow> u16 \<Rightarrow> bool \<Rightarrow> minode \<Rightarrow> minix_fs \<Rightarrow> bool \<times> minode \<times> minix_fs" where
  "trunc_dindirect_loop [] dind_bh offset retry ino fs = (retry, ino, fs)"
| "trunc_dindirect_loop (i # is) dind_bh offset retry ino fs =
    (let (r, ino, fs) = V1_trunc_indirect ino (offset + push_bit 9 (of_nat i)) (Cell dind_bh i) fs
     in trunc_dindirect_loop is dind_bh offset (retry \<or> r) ino (mark_dirty dind_bh True fs))"

definition V1_trunc_dindirect :: "minode \<Rightarrow> u16 \<Rightarrow> zptr \<Rightarrow> minix_fs \<Rightarrow> bool \<times> minode \<times> minix_fs" where
  "V1_trunc_dindirect ino offset p fs =
    (let tmp = load_zptr p ino fs in
     if tmp = 0 then (False, ino, fs)
     else if bad fs (unat tmp) then (False, store_zptr p 0 ino fs)
     else
       let (retry, ino, fs) =
             trunc_dindirect_loop [nat (max 0 (DINDIRECT_BLOCK ino offset))..<512] (unat tmp) offset False ino fs
       in if all_zero (blk fs (unat tmp)) then
            if held fs (unat tmp) then (True, ino, fs)
            else
              let z = load_zptr p ino fs;
                  (ino, fs) = store_zptr p 0 ino fs
              in (retry, ino\<lparr>i_dirt := True\<rparr>, minix_free_block z fs)
          else (retry, ino, fs))"

text \<open>The loop of \<^verbatim>\<open>minix_truncate\<close>: each element of \<open>sleeps\<close> says which buffers are still
  held when one call of \<^verbatim>\<open>schedule\<close> comes back.\<close>

fun truncate_loop :: "(nat \<Rightarrow> bool) list \<Rightarrow> minode \<Rightarrow> minix_fs \<Rightarrow> (minode \<times> minix_fs) kres" where
  "truncate_loop sleeps ino fs =
    bindr (V1_trunc_direct ino fs) (\<lambda>(r1, ino, fs).
      let (r2, ino, fs) = V1_trunc_indirect ino 7 (Zone 7) fs;
          (r3, ino, fs) = V1_trunc_dindirect ino (7 + 512) (Zone 8) fs
      in if \<not> (r1 \<or> r2 \<or> r3) then Inr (ino, fs)
         else case sleeps of
           [] \<Rightarrow> Inl Asleep
         | h # sleeps \<Rightarrow> truncate_loop sleeps ino (fs\<lparr>held := h\<rparr>))"

declare truncate_loop.simps [simp del]

definition minix_truncate :: "minode \<Rightarrow> (nat \<Rightarrow> bool) list \<Rightarrow> minix_fs \<Rightarrow> (minode \<times> minix_fs) kres" where
  "minix_truncate ino sleeps fs =
    (if \<not> (S_ISREG (i_mode ino) \<or> S_ISDIR (i_mode ino) \<or> S_ISLNK (i_mode ino)) then Inr (ino, fs)
     else bindr (truncate_loop sleeps ino fs) (\<lambda>(ino, fs).
       Inr (ino\<lparr>i_mtime := now fs, i_ctime := now fs, i_dirt := True\<rparr>, fs)))"

section \<open>Losing zones\<close>

text \<open>\<open>drops S fs ino fs' ino'\<close>: the file has lost the zones at the places \<open>S\<close>, these are
  free, and nothing else has happened to the file, to its data or to the bitmap.\<close>

definition lost :: "zpath set \<Rightarrow> minix_fs \<Rightarrow> minode \<Rightarrow> nat \<Rightarrow> bool" where
  "lost S fs ino w \<longleftrightarrow> (\<exists>p\<in>S. valid p \<and> lookup fs ino p \<noteq> 0 \<and> w = unat (lookup fs ino p))"

text \<open>The fields of an inode that truncation does not touch.\<close>

definition meta :: "minode \<Rightarrow> minode" where
  "meta ino = ino\<lparr>i_zone := (\<lambda>_. 0), i_dirt := False, i_mtime := 0, i_ctime := 0\<rparr>"

lemma meta_simps [simp]:
  "meta (ino\<lparr>i_dirt := b\<rparr>) = meta ino" "meta (ino\<lparr>i_zone := z\<rparr>) = meta ino" "meta (ino\<lparr>i_mtime := t\<rparr>) = meta ino" "meta (ino\<lparr>i_ctime := t\<rparr>) = meta ino"
  by (cases ino; simp add: meta_def)+

lemma metaD:
  assumes "meta m = meta n"
  shows "i_dev m = i_dev n" "i_count m = i_count n" "i_nlink m = i_nlink n" "i_sb m = i_sb n" "i_ino m = i_ino n" "i_lock m = i_lock n"
    "i_next m = i_next n" "i_prev m = i_prev n" "i_mount m = i_mount n"
  using assms by (cases m; cases n; simp add: meta_def)+

definition drops :: "zpath set \<Rightarrow> minix_fs \<Rightarrow> minode \<Rightarrow> minix_fs \<Rightarrow> minode \<Rightarrow> bool" where
  "drops S fs ino fs' ino' \<longleftrightarrow> zmap_ok fs' \<and> file_ok fs' ino' \<and> sb fs' = sb fs \<and> bad fs' = bad fs \<and> held fs' = held fs \<and>
    i_size ino' = i_size ino \<and> i_mode ino' = i_mode ino \<and>
    (\<forall>q. valid q \<longrightarrow> lookup fs' ino' q = (if q \<in> S then 0 else lookup fs ino q)) \<and>
    (\<forall>w. zone_used fs' w = (zone_used fs w \<and> \<not> lost S fs ino w)) \<and>
    (\<forall>q. valid q \<and> leaf q \<and> q \<notin> S \<and> lookup fs ino q \<noteq> 0 \<longrightarrow>
      blk fs' (unat (lookup fs ino q)) = blk fs (unat (lookup fs ino q))) \<and> meta ino' = meta ino"

lemma drops_refl: "zmap_ok fs \<Longrightarrow> file_ok fs ino \<Longrightarrow> (\<And>q. q \<in> S \<Longrightarrow> valid q \<Longrightarrow> lookup fs ino q = 0) \<Longrightarrow> drops S fs ino fs ino"
  by (auto simp: drops_def lost_def)

lemma dropsD:
  assumes "drops S fs ino fs' ino'"
  shows "zmap_ok fs'" "file_ok fs' ino'" "sb fs' = sb fs" "bad fs' = bad fs" "held fs' = held fs" "i_size ino' = i_size ino"
    "i_mode ino' = i_mode ino" "valid q \<Longrightarrow> lookup fs' ino' q = (if q \<in> S then 0 else lookup fs ino q)"
    "zone_used fs' w = (zone_used fs w \<and> \<not> lost S fs ino w)"
    "valid q \<Longrightarrow> leaf q \<Longrightarrow> q \<notin> S \<Longrightarrow> lookup fs ino q \<noteq> 0 \<Longrightarrow> blk fs' (unat (lookup fs ino q)) = blk fs (unat (lookup fs ino q))"
    "meta ino' = meta ino"
  using assms unfolding drops_def by blast+

lemma drops_trans:
  assumes a: "drops S fs ino fs1 ino1" and b: "drops T fs1 ino1 fs2 ino2"
  shows "drops (S \<union> T) fs ino fs2 ino2"
proof -
  note a = dropsD[OF a] and b = dropsD[OF b]
  have "lost T fs1 ino1 w \<longleftrightarrow> lost (T - S) fs ino w" for w
    by (auto simp: lost_def a(8) split: if_splits)
  moreover have "lost (S \<union> T) fs ino w \<longleftrightarrow> lost S fs ino w \<or> lost (T - S) fs ino w" for w
    unfolding lost_def by blast
  ultimately have l: "lost (S \<union> T) fs ino w \<longleftrightarrow> lost S fs ino w \<or> lost T fs1 ino1 w" for w by simp
  have "lookup fs2 ino2 q = (if q \<in> S \<union> T then 0 else lookup fs ino q)" if "valid q" for q
    using a(8)[OF that] b(8)[OF that] by simp
  moreover have "blk fs2 (unat (lookup fs ino q)) = blk fs (unat (lookup fs ino q))"
    if "valid q" "leaf q" "q \<notin> S \<union> T" "lookup fs ino q \<noteq> 0" for q
    using a(8)[OF that(1)] a(10)[OF that(1,2)] b(10)[OF that(1,2)] that(3,4) by simp
  ultimately show ?thesis unfolding drops_def using a b by (auto simp: l)
qed

text \<open>The functions depend on the zone numbers and the bytes of the blocks only.\<close>

lemma drops_cong:
  assumes "drops S fs ino fs' ino'" and "sb fs'' = sb fs'" "blk fs'' = blk fs'" "bad fs'' = bad fs'" "held fs'' = held fs'"
    and "i_zone ino'' = i_zone ino'" "i_size ino'' = i_size ino'" "i_mode ino'' = i_mode ino'" "meta ino'' = meta ino'"
  shows "drops S fs ino fs'' ino''"
proof -
  have "entry fs'' = entry fs'" using assms(3) by (intro ext) (simp add: entry_def)
  then have l: "lookup fs'' ino'' q = lookup fs' ino' q" for q using assms(6) by (cases q) simp_all
  have z: "zbit fs'' n = zbit fs' n" for n using assms(2,3) by (simp add: zbit_def cong: option.case_cong)
  have u: "zone_used fs'' = zone_used fs'" using assms(2) z by (simp add: zone_used_def fun_eq_iff zone_no_def data_zone_def)
  have zo: "zmap_ok fs'' = zmap_ok fs'" unfolding zmap_ok_def z assms(2) ..
  have fo: "file_ok fs'' ino'' = file_ok fs' ino'" unfolding file_ok_def l u ..
  show ?thesis unfolding drops_def zo fo l u assms(2-9) by (rule assms(1)[unfolded drops_def])
qed

definition ptr_of :: "minix_fs \<Rightarrow> minode \<Rightarrow> zpath \<Rightarrow> zptr" where
  "ptr_of fs ino p = (case par p of None \<Rightarrow> Zone (slot p) | Some r \<Rightarrow> Cell (unat (lookup fs ino r)) (slot p))"

lemma load_ptr_of: "lookup fs ino p \<noteq> 0 \<Longrightarrow> load_zptr (ptr_of fs ino p) ino fs = lookup fs ino p"
  by (auto simp: ptr_of_def lookup_par[of fs ino p] entry_def split: option.splits if_splits)

text \<open>Clearing the place of a zone that nothing is reached through, and freeing it.\<close>

lemma release_drops:
  assumes ok: "zmap_ok fs" "file_ok fs ino" and p: "valid p" "lookup fs ino p \<noteq> 0"
    and childless: "\<And>q. valid q \<Longrightarrow> par q = Some p \<Longrightarrow> lookup fs ino q = 0"
    and st: "store_zptr (ptr_of fs ino p) 0 ino fs = (ino', fs1)"
  shows "drops {p} fs ino (minix_free_block (lookup fs ino p) fs1) ino'"
proof -
  let ?z = "lookup fs ino p" and ?f = "unat (s_firstdatazone (sb fs))"
  have used: "zone_used fs (unat (lookup fs ino r))" if "valid r" "lookup fs ino r \<noteq> 0" for r
    using ok(2) that by (auto simp: file_ok_def)
  have hi: "?f \<le> unat (lookup fs ino r)" if "valid r" "lookup fs ino r \<noteq> 0" for r
    using used[OF that] by (simp add: zone_used_def data_zone_def)
  have inj: "r = t" if "valid r" "valid t" "lookup fs ino r \<noteq> 0" "lookup fs ino r = lookup fs ino t" for r t
    using ok(2) that unfolding file_ok_def by blast
  have par_nz: "lookup fs ino r \<noteq> 0" if "par q = Some r" "lookup fs ino q \<noteq> 0" for q r
    using that by (auto simp: lookup_par[of fs ino q] entry_def split: if_splits)
  have same: "sb fs1 = sb fs" "bad fs1 = bad fs" "held fs1 = held fs" "i_size ino' = i_size ino" "i_mode ino' = i_mode ino" "meta ino' = meta ino"
    using st by (auto simp: ptr_of_def split: option.splits)
  have low: "blk fs1 b = blk fs b" if "b < ?f" for b
  proof (cases "par p")
    case (Some r)
    then have "unat (lookup fs ino r) \<noteq> b" using hi[OF valid_par[OF p(1) Some] par_nz[OF Some p(2)]] that by simp
    then show ?thesis using st Some by (auto simp: ptr_of_def)
  qed (use st in \<open>auto simp: ptr_of_def\<close>)
  have "s_zmap (sb fs) i = Some b \<Longrightarrow> b < ?f" for i b using ok(1) by (auto simp: zmap_ok_def)
  then have zb: "zbit fs1 n = zbit fs n" for n using low same(1) by (auto simp: zbit_def split: option.splits)
  have ok1: "zmap_ok fs1" using zmap_ok_cong[OF ok(1) same(1)] zb by blast
  have u1: "zone_used fs1 w = zone_used fs w" for w using zb same(1) by (simp add: zone_used_def zone_no_def data_zone_def)
  have dz: "data_zone fs1 (unat ?z)" using used[OF p] u1 by (auto simp: zone_used_def)
  note fr = free_block_zone[OF ok1 dz]
  let ?fs = "minix_free_block ?z fs1"
  have keep: "blk ?fs (unat (lookup fs ino r)) = blk fs1 (unat (lookup fs ino r))" if "valid r" "lookup fs ino r \<noteq> 0" for r
    using fr(6) hi[OF that] same(1) by simp
  have blk1: "blk fs1 (unat (lookup fs ino q)) = blk fs (unat (lookup fs ino q))"
    if "valid q" "lookup fs ino q \<noteq> 0" "par p \<noteq> Some q" for q
  proof (cases "par p")
    case (Some r)
    then have "lookup fs ino q \<noteq> lookup fs ino r"
      using inj[OF that(1) valid_par[OF p(1) Some] that(2)] that(3) by auto
    then have "unat (lookup fs ino q) \<noteq> unat (lookup fs ino r)" by (simp add: word_unat_eq_iff)
    then show ?thesis using st Some by (auto simp: ptr_of_def)
  qed (use st in \<open>auto simp: ptr_of_def\<close>)
  have tops: "lookup ?fs ino' q = (if q = p then 0 else lookup fs ino q)" if "valid q" "par q = None" for q
    using st that slot_inj[OF that(1) p(1)] by (cases "par p") (auto simp: ptr_of_def lookup_par[of _ _ q])
  have step: "lookup ?fs ino' q = (if q = p then 0 else lookup fs ino q)"
    if q: "valid q" "par q = Some r" and r: "lookup ?fs ino' r = (if r = p then 0 else lookup fs ino r)" for q r
  proof (cases "r = p")
    case True
    then have "q \<noteq> p" using q(2) by (cases p) auto
    with True q r childless[of q] show ?thesis by (simp add: lookup_par[of ?fs ino' q] entry_def)
  next
    case False
    then have l: "lookup ?fs ino' r = lookup fs ino r" using r by simp
    show ?thesis
    proof (cases "lookup fs ino r = 0")
      case True
      then have "q \<noteq> p" using par_nz[of p r] p(2) q(2) by auto
      with True l q(2) show ?thesis by (simp add: lookup_par[of _ _ q] entry_def)
    next
      case nz: False
      have vr: "valid r" by (rule valid_par[OF q])
      have g: "get16 (blk fs1 (unat (lookup fs ino r))) (2 * slot q)
          = (if q = p then 0 else get16 (blk fs (unat (lookup fs ino r))) (2 * slot q))"
      proof (cases "par p = Some r")
        case True
        then have "q = p \<longleftrightarrow> slot q = slot p" using slot_inj[OF q(1) p(1)] q(2) by auto
        then show ?thesis using st True by (auto simp: ptr_of_def get16_put16)
      next
        case False
        then show ?thesis using blk1[OF vr nz] q(2) by auto
      qed
      with l nz q(2) keep[OF vr nz] show ?thesis by (simp add: lookup_par[of _ _ q] entry_def)
    qed
  qed
  have look: "lookup ?fs ino' q = (if q = p then 0 else lookup fs ino q)" if v: "valid q" for q
  proof (cases "par q")
    case None
    with tops v show ?thesis by blast
  next
    case (Some r)
    then have vr: "valid r" using v valid_par by blast
    show ?thesis
    proof (cases "par r")
      case None
      with step[OF v Some] tops vr show ?thesis by blast
    next
      case (Some t)
      then have "par t = None" "valid t" using vr \<open>par q = Some r\<close> by (cases q; auto)+
      with step[OF v \<open>par q = Some r\<close>] step[OF vr Some] tops show ?thesis by blast
    qed
  qed
  have used': "zone_used ?fs w = (zone_used fs w \<and> \<not> lost {p} fs ino w)" for w
    using fr(5) u1 p by (auto simp: lost_def)
  have fok: "file_ok ?fs ino'" unfolding file_ok_def
  proof (intro conjI allI impI)
    fix q
    assume "valid q \<and> lookup ?fs ino' q \<noteq> 0"
    then have q: "valid q" "q \<noteq> p" "lookup ?fs ino' q = lookup fs ino q" "lookup fs ino q \<noteq> 0"
      using look[of q] by (auto split: if_splits)
    have "unat (lookup fs ino q) \<noteq> unat ?z" using inj[OF q(1) p(1) q(4)] q(2) by (auto simp: word_unat_eq_iff)
    with used[OF q(1,4)] show "zone_used ?fs (unat (lookup ?fs ino' q))" unfolding q(3) fr(5) u1 by simp
  next
    fix q r
    assume "valid q \<and> valid r \<and> lookup ?fs ino' q \<noteq> 0 \<and> lookup ?fs ino' q = lookup ?fs ino' r"
    then have "valid q" "valid r" "lookup fs ino q \<noteq> 0" "lookup fs ino q = lookup fs ino r" using look by metis+
    then show "q = r" by (rule inj)
  qed
  have "blk ?fs (unat (lookup fs ino q)) = blk fs (unat (lookup fs ino q))"
    if "valid q" "leaf q" "lookup fs ino q \<noteq> 0" for q
  proof -
    have "par p \<noteq> Some q" using that(2) by (cases p) auto
    then show ?thesis using keep[OF that(1,3)] blk1[OF that(1,3)] by simp
  qed
  moreover have "zmap_ok ?fs \<and> sb ?fs = sb fs \<and> bad ?fs = bad fs \<and> held ?fs = held fs" using fr(1-4) same(1-3) by simp
  ultimately show ?thesis unfolding drops_def singleton_iff using same(4-6) fok look used'
    by (intro conjI allI impI) (elim conjE, assumption | simp)+
qed

section \<open>The loops\<close>

definition same_blocks :: "minix_fs \<Rightarrow> minix_fs \<Rightarrow> bool" where
  "same_blocks a b \<longleftrightarrow> sb a = sb b \<and> blk a = blk b \<and> bad a = bad b \<and> held a = held b"

lemma same_blocks_simps [simp]: "same_blocks fs fs" "same_blocks (mark_dirty b v fs) fs"
  by (simp_all add: same_blocks_def mark_dirty_def)

lemma free_same: "same_blocks a b \<Longrightarrow> same_blocks (minix_free_block z a) (minix_free_block z b)"
  by (auto simp: same_blocks_def minix_free_block_def Let_def put_blk_def split: option.splits)

lemma drops_same:
  assumes "drops S fs ino fs' ino'" and "same_blocks fs'' fs'"
    and "i_zone ino'' = i_zone ino'" "i_size ino'' = i_size ino'" "i_mode ino'' = i_mode ino'" "meta ino'' = meta ino'"
  shows "drops S fs ino fs'' ino''"
  using assms(2) drops_cong[OF assms(1) _ _ _ _ assms(3-6)] by (simp add: same_blocks_def)

fun child :: "zpath \<Rightarrow> nat \<Rightarrow> zpath" where
  "child Single k = Via k" | "child Double k = Mid k" | "child (Mid m) k = Via2 m k" | "child p k = p"

lemma child_simps [simp]:
  "\<not> leaf r \<Longrightarrow> par (child r k) = Some r" "\<not> leaf r \<Longrightarrow> slot (child r k) = k"
  "\<not> leaf r \<Longrightarrow> valid r \<Longrightarrow> valid (child r k) = (k < 512)" "\<not> leaf r \<Longrightarrow> child r k = child r j \<longleftrightarrow> k = j"
  "child r k = r \<longleftrightarrow> leaf r" "r = child r k \<longleftrightarrow> leaf r"
  by (cases r; auto)+

lemma child_exhaust: "par q = Some r \<Longrightarrow> valid q \<Longrightarrow> \<not> leaf r \<and> (\<exists>k<512. q = child r k)"
  by (cases q) auto

lemma load_ptr_of':
  "(\<And>r. par p = Some r \<Longrightarrow> lookup fs ino r \<noteq> 0) \<Longrightarrow> load_zptr (ptr_of fs ino p) ino fs = lookup fs ino p"
  by (auto simp: ptr_of_def lookup_par[of fs ino p] entry_def split: option.splits)

lemma ptr_of_child: "\<not> leaf r \<Longrightarrow> ptr_of fs ino (child r k) = Cell (unat (lookup fs ino r)) k"
  by (simp add: ptr_of_def)

lemma lookup_child: "\<not> leaf r \<Longrightarrow> lookup fs ino r \<noteq> 0 \<Longrightarrow> lookup fs ino (child r k) = get16 (blk fs (unat (lookup fs ino r))) (2 * k)"
  by (simp add: lookup_par[of fs ino "child r k"] entry_def)

lemma release_leaf:
  assumes "zmap_ok fs" "file_ok fs ino" and "valid p" "leaf p" "lookup fs ino p \<noteq> 0"
    and "store_zptr (ptr_of fs ino p) 0 ino fs = (ino', fs1)"
  shows "drops {p} fs ino (minix_free_block (lookup fs ino p) fs1) ino'"
  using release_drops[OF assms(1-3,5) _ assms(6)] child_exhaust assms(4) by blast

lemma direct_loop_drops:
  assumes "zmap_ok fs" "file_ok fs ino" and "\<forall>b. \<not> held fs b" and "\<forall>i\<in>set is. i < 7 \<and> \<not> of_nat i < DIRECT_BLOCK ino"
  shows "\<exists>ino' fs'. trunc_direct_loop is rt ino fs = Inr (rt, ino', fs') \<and> drops (Direct ` set is) fs ino fs' ino'"
  using assms
proof (induction "is" arbitrary: ino fs)
  case Nil
  then show ?case by (auto intro!: drops_refl)
next
  case (Cons i "is")
  show ?case
  proof (cases "i_zone ino i = 0")
    case True
    then have d: "drops {Direct i} fs ino fs ino" using Cons.prems by (intro drops_refl) auto
    obtain ino' fs' where "trunc_direct_loop is rt ino fs = Inr (rt, ino', fs')" "drops (Direct ` set is) fs ino fs' ino'"
      using Cons.IH[OF Cons.prems(1-3)] Cons.prems(4) by auto
    with True drops_trans[OF d] show ?thesis by simp
  next
    case False
    let ?z = "i_zone ino i" and ?ino = "ino\<lparr>i_zone := (i_zone ino)(i := 0), i_dirt := True\<rparr>"
    let ?fs = "minix_free_block ?z (mark_dirty (unat ?z) False fs)"
    have "drops {Direct i} fs ino (minix_free_block ?z fs) (ino\<lparr>i_zone := (i_zone ino)(i := 0)\<rparr>)"
      using release_leaf[OF Cons.prems(1,2), of "Direct i"] False Cons.prems(4) by (simp add: ptr_of_def)
    then have d: "drops {Direct i} fs ino ?fs ?ino"
      by (rule drops_same) (simp_all add: free_same)
    note dd = dropsD[OF d]
    have "DIRECT_BLOCK ?ino = DIRECT_BLOCK ino" by (simp add: DIRECT_BLOCK_def)
    then obtain ino' fs' where "trunc_direct_loop is rt ?ino ?fs = Inr (rt, ino', fs')" "drops (Direct ` set is) ?fs ?ino fs' ino'"
      using Cons.IH[OF dd(1,2)] Cons.prems(3,4) dd(5) by auto
    with False drops_trans[OF d] Cons.prems(3,4) show ?thesis by (simp add: Let_def)
  qed
qed

lemma indirect_loop_drops:
  assumes "zmap_ok fs" "file_ok fs ino" and "\<forall>b. \<not> held fs b" and "\<forall>k\<in>set is. k < 512"
    and r: "valid r" "\<not> leaf r" "r \<noteq> Double" "lookup fs ino r \<noteq> 0"
  shows "\<exists>fs'. trunc_indirect_loop is (unat (lookup fs ino r)) rt fs = (rt, fs') \<and> drops (child r ` set is) fs ino fs' ino"
  using assms
proof (induction "is" arbitrary: fs)
  case Nil
  then show ?case by (auto intro!: drops_refl)
next
  case (Cons k "is")
  let ?i = "unat (lookup fs ino r)" and ?z = "lookup fs ino (child r k)"
  have z: "?z = get16 (blk fs ?i) (2 * k)" by (rule lookup_child[OF r(2) Cons.prems(8)])
  show ?case
  proof (cases "?z = 0")
    case True
    then have d: "drops {child r k} fs ino fs ino" using Cons.prems(1,2) by (intro drops_refl) auto
    obtain fs' where "trunc_indirect_loop is ?i rt fs = (rt, fs')" "drops (child r ` set is) fs ino fs' ino"
      using Cons.IH[OF Cons.prems(1-3) _ r(1-3) Cons.prems(8)] Cons.prems(4) by auto
    with True z drops_trans[OF d] show ?thesis by simp
  next
    case False
    let ?fs = "minix_free_block ?z (put_blk ?i (put16 (blk fs ?i) (2 * k) 0) fs)"
    have lc: "leaf (child r k)" using r(2,3) by (cases r) auto
    have "drops {child r k} fs ino (minix_free_block ?z (fs\<lparr>blk := (blk fs)(?i := put16 (blk fs ?i) (2 * k) 0)\<rparr>)) ino"
      using release_leaf[OF Cons.prems(1,2) _ lc False] Cons.prems(4) r by (simp add: ptr_of_child)
    then have d: "drops {child r k} fs ino ?fs ino"
      by (rule drops_same) (simp_all add: free_same same_blocks_def[of "put_blk _ _ _"])
    note dd = dropsD[OF d]
    have lr: "lookup ?fs ino r = lookup fs ino r" using dd(8)[OF r(1)] r(2) by auto
    obtain fs' where "trunc_indirect_loop is ?i rt ?fs = (rt, fs')" "drops (child r ` set is) ?fs ino fs' ino"
      using Cons.IH[OF dd(1,2) _ _ r(1-3)] Cons.prems(3,4,8) dd(5) lr by auto
    with False z drops_trans[OF d] Cons.prems(3) show ?thesis by (simp add: Let_def)
  qed
qed

lemma all_zero_children:
  "\<not> leaf r \<Longrightarrow> lookup fs ino r \<noteq> 0 \<Longrightarrow> all_zero (blk fs (unat (lookup fs ino r))) \<longleftrightarrow> (\<forall>k<512. lookup fs ino (child r k) = 0)"
  by (auto simp: all_zero_def lookup_child)

text \<open>Freeing the block at \<open>r\<close> when the last zone reached through it is gone.\<close>

lemma release_empty:
  assumes "zmap_ok fs" "file_ok fs ino" and "valid r" "\<not> leaf r" "lookup fs ino r \<noteq> 0"
    and "all_zero (blk fs (unat (lookup fs ino r)))" and "store_zptr (ptr_of fs ino r) 0 ino fs = (ino', fs1)"
  shows "drops {r} fs ino (minix_free_block (load_zptr (ptr_of fs ino r) ino fs) fs1) ino'"
proof -
  have "lookup fs ino q = 0" if "valid q" "par q = Some r" for q
    using child_exhaust[OF that(2,1)] assms(4-6) all_zero_children by blast
  then show ?thesis using release_drops[OF assms(1-3,5) _ assms(7)] load_ptr_of[OF assms(5)] by simp
qed

definition first_lost :: "minode \<Rightarrow> u16 \<Rightarrow> nat" where
  "first_lost ino offset = nat (max 0 (INDIRECT_BLOCK ino offset))"

lemma first_lost_cong: "i_size ino' = i_size ino \<Longrightarrow> first_lost ino' = first_lost ino"
  by (simp add: fun_eq_iff first_lost_def INDIRECT_BLOCK_def DIRECT_BLOCK_def)

lemma trunc_indirect_drops:
  assumes ok: "zmap_ok fs" "file_ok fs ino" and h: "\<forall>b. \<not> held fs b" and rd: "readable fs"
    and r: "valid r" "\<not> leaf r" "r \<noteq> Double" and pr: "\<And>t. par r = Some t \<Longrightarrow> lookup fs ino t \<noteq> 0"
  shows "\<exists>ino' fs' S. V1_trunc_indirect ino offset (ptr_of fs ino r) fs = (False, ino', fs') \<and> drops S fs ino fs' ino' \<and>
    child r ` {first_lost ino offset..<512} \<subseteq> S \<and> S \<subseteq> insert r (child r ` {first_lost ino offset..<512}) \<and>
    (lookup fs' ino' r \<noteq> 0 \<longrightarrow> (\<exists>k<512. lookup fs' ino' (child r k) \<noteq> 0))"
proof (cases "lookup fs ino r = 0")
  case True
  then have "drops (child r ` {first_lost ino offset..<512}) fs ino fs ino"
    using ok r by (intro drops_refl) (auto simp: lookup_par[of fs ino "child r _"] entry_def)
  then show ?thesis using True load_ptr_of'[OF pr] by (auto simp: V1_trunc_indirect_def)
next
  case False
  let ?i = "unat (lookup fs ino r)" and ?S = "child r ` {first_lost ino offset..<512}"
  have l: "load_zptr (ptr_of fs ino r) ino fs = lookup fs ino r" by (rule load_ptr_of[OF False])
  obtain fs1 where lp: "trunc_indirect_loop [first_lost ino offset..<512] ?i False fs = (False, fs1)" "drops ?S fs ino fs1 ino"
    using indirect_loop_drops[OF ok h _ r False, of "[first_lost ino offset..<512]" False] by auto
  note d = dropsD[OF lp(2)]
  have r1: "lookup fs1 ino r = lookup fs ino r" using d(8)[OF r(1)] r(2) by auto
  have "par r \<noteq> Some (child r k)" for k using r(2,3) by (cases r) auto
  then have "\<And>t. par r = Some t \<Longrightarrow> lookup fs1 ino t = lookup fs ino t" using d(8)[OF valid_par[OF r(1)]] by auto
  then have p1: "ptr_of fs1 ino r = ptr_of fs ino r" by (auto simp: ptr_of_def split: option.splits)
  show ?thesis
  proof (cases "all_zero (blk fs1 ?i)")
    case True
    obtain ino' fs2 where st: "store_zptr (ptr_of fs ino r) 0 ino fs1 = (ino', fs2)" by fastforce
    define fs' where "fs' = minix_free_block (load_zptr (ptr_of fs ino r) ino fs1) fs2"
    have "drops {r} fs1 ino fs' ino'"
      using release_empty[OF d(1,2) r(1,2), of ino' fs2] False True st by (simp add: r1 p1 fs'_def)
    then have dr: "drops (?S \<union> {r}) fs ino fs' ino'" using drops_trans[OF lp(2)] by blast
    have "lookup fs' ino' r = 0" using dropsD(8)[OF dr r(1)] by simp
    moreover have "V1_trunc_indirect ino offset (ptr_of fs ino r) fs = (False, ino', fs')"
      using False l rd lp(1) True h d(5) st
      by (simp add: V1_trunc_indirect_def Let_def first_lost_def[symmetric] readable_def fs'_def)
    ultimately show ?thesis using dr by (intro exI[of _ ino'] exI[of _ fs'] exI[of _ "?S \<union> {r}"]) auto
  next
    case nz: False
    then have "\<exists>k<512. lookup fs1 ino (child r k) \<noteq> 0" using all_zero_children[OF r(2), of fs1 ino] False by (auto simp: r1)
    moreover have "V1_trunc_indirect ino offset (ptr_of fs ino r) fs = (False, ino, fs1)"
      using False l rd lp(1) nz by (simp add: V1_trunc_indirect_def Let_def first_lost_def[symmetric] readable_def)
    ultimately show ?thesis using lp(2) by (intro exI[of _ ino] exI[of _ fs1] exI[of _ ?S]) auto
  qed
qed

lemma dindirect_loop_drops:
  assumes "zmap_ok fs" "file_ok fs ino" and "\<forall>b. \<not> held fs b" and "readable fs" and "lookup fs ino Double \<noteq> 0"
    and "distinct ms" "\<forall>m\<in>set ms. m < 512" and "f = first_lost ino"
  shows "\<exists>ino' fs' S. trunc_dindirect_loop ms (unat (lookup fs ino Double)) offset rt ino fs = (rt, ino', fs') \<and> drops S fs ino fs' ino' \<and>
    (\<forall>m\<in>set ms. \<forall>k. f (offset + push_bit 9 (of_nat m)) \<le> k \<and> k < 512 \<longrightarrow> Via2 m k \<in> S) \<and>
    S \<subseteq> (\<Union>m\<in>set ms. insert (Mid m) (Via2 m ` {f (offset + push_bit 9 (of_nat m))..<512})) \<and>
    (\<forall>m\<in>set ms. lookup fs' ino' (Mid m) \<noteq> 0 \<longrightarrow> (\<exists>k<512. lookup fs' ino' (Via2 m k) \<noteq> 0))"
  using assms
proof (induction ms arbitrary: ino fs rt)
  case Nil
  then show ?case by (intro exI[of _ ino] exI[of _ fs] exI[of _ "{}"]) (auto intro!: drops_refl)
next
  case (Cons m ms)
  let ?D = "unat (lookup fs ino Double)" and ?lo = "\<lambda>m. f (offset + push_bit 9 (of_nat m))"
  have pt: "ptr_of fs ino (Mid m) = Cell ?D m" by (simp add: ptr_of_def)
  obtain ino1 fs1 S where a: "V1_trunc_indirect ino (offset + push_bit 9 (of_nat m)) (Cell ?D m) fs = (False, ino1, fs1)"
      "drops S fs ino fs1 ino1" "Via2 m ` {?lo m..<512} \<subseteq> S" "S \<subseteq> insert (Mid m) (Via2 m ` {?lo m..<512})"
      "lookup fs1 ino1 (Mid m) \<noteq> 0 \<longrightarrow> (\<exists>k<512. lookup fs1 ino1 (Via2 m k) \<noteq> 0)"
    using trunc_indirect_drops[OF Cons.prems(1-4), of "Mid m" "offset + push_bit 9 (of_nat m)"] Cons.prems(5,7,8)
    unfolding pt by auto
  let ?fs1 = "mark_dirty ?D True fs1"
  have ds: "drops S fs ino ?fs1 ino1" by (rule drops_same[OF a(2)]) simp_all
  note d = dropsD[OF ds]
  have D: "lookup ?fs1 ino1 Double = lookup fs ino Double" using d(8)[of Double] a(4) by auto
  obtain ino2 fs2 T where b: "trunc_dindirect_loop ms ?D offset rt ino1 ?fs1 = (rt, ino2, fs2)" "drops T ?fs1 ino1 fs2 ino2"
      "\<forall>m\<in>set ms. \<forall>k. ?lo m \<le> k \<and> k < 512 \<longrightarrow> Via2 m k \<in> T"
      "T \<subseteq> (\<Union>m\<in>set ms. insert (Mid m) (Via2 m ` {?lo m..<512}))"
      "\<forall>m\<in>set ms. lookup fs2 ino2 (Mid m) \<noteq> 0 \<longrightarrow> (\<exists>k<512. lookup fs2 ino2 (Via2 m k) \<noteq> 0)"
    using Cons.IH[OF d(1,2), of rt] Cons.prems(3-8) d(4,5) D first_lost_cong[OF d(6)] by (auto simp: readable_def)
  have same: "lookup fs1 ino1 q = lookup ?fs1 ino1 q" for q by (cases q) (auto simp: mark_dirty_def entry_def)
  have nt: "Mid m \<notin> T" "Via2 m k \<notin> T" for k using b(4) Cons.prems(6) by auto
  have "lookup fs2 ino2 (Mid m) = lookup fs1 ino1 (Mid m)"
    using dropsD(8)[OF b(2), of "Mid m"] nt(1) Cons.prems(7) unfolding same by (simp del: lookup.simps)
  moreover have "lookup fs2 ino2 (Via2 m k) = lookup fs1 ino1 (Via2 m k)" if "k < 512" for k
    using dropsD(8)[OF b(2), of "Via2 m k"] nt(2)[of k] that Cons.prems(7) unfolding same by (simp del: lookup.simps)
  ultimately have e: "lookup fs2 ino2 (Mid m) \<noteq> 0 \<longrightarrow> (\<exists>k<512. lookup fs2 ino2 (Via2 m k) \<noteq> 0)" using a(5) by metis
  have "trunc_dindirect_loop (m # ms) ?D offset rt ino fs = (rt, ino2, fs2)" using a(1) b(1) by simp
  moreover have "drops (S \<union> T) fs ino fs2 ino2" by (rule drops_trans[OF ds b(2)])
  moreover have "\<forall>n\<in>set (m # ms). \<forall>k. ?lo n \<le> k \<and> k < 512 \<longrightarrow> Via2 n k \<in> S \<union> T" using a(3) b(3) by auto
  moreover have "S \<union> T \<subseteq> (\<Union>n\<in>set (m # ms). insert (Mid n) (Via2 n ` {?lo n..<512}))" using a(4) b(4) by auto
  moreover have "\<forall>n\<in>set (m # ms). lookup fs2 ino2 (Mid n) \<noteq> 0 \<longrightarrow> (\<exists>k<512. lookup fs2 ino2 (Via2 n k) \<noteq> 0)" using b(5) e by simp
  ultimately show ?case by blast
qed

abbreviation first_mid :: "minode \<Rightarrow> u16 \<Rightarrow> nat" where
  "first_mid ino offset \<equiv> nat (max 0 (DINDIRECT_BLOCK ino offset))"

abbreviation below_mid :: "minode \<Rightarrow> u16 \<Rightarrow> nat \<Rightarrow> zpath set" where
  "below_mid ino offset m \<equiv> Via2 m ` {first_lost ino (offset + push_bit 9 (of_nat m))..<512}"

lemma trunc_dindirect_drops:
  assumes ok: "zmap_ok fs" "file_ok fs ino" and h: "\<forall>b. \<not> held fs b" and rd: "readable fs"
  shows "\<exists>ino' fs' S. V1_trunc_dindirect ino offset (Zone 8) fs = (False, ino', fs') \<and> drops S fs ino fs' ino' \<and>
    (\<Union>m\<in>{first_mid ino offset..<512}. below_mid ino offset m) \<subseteq> S \<and>
    S \<subseteq> insert Double (\<Union>m\<in>{first_mid ino offset..<512}. insert (Mid m) (below_mid ino offset m)) \<and>
    (lookup fs' ino' Double \<noteq> 0 \<longrightarrow> (\<exists>m<512. lookup fs' ino' (Mid m) \<noteq> 0)) \<and>
    (\<forall>m\<in>{first_mid ino offset..<512}. lookup fs' ino' (Mid m) \<noteq> 0 \<longrightarrow> (\<exists>k<512. lookup fs' ino' (Via2 m k) \<noteq> 0))"
proof (cases "lookup fs ino Double = 0")
  case True
  then have "drops (\<Union>m\<in>{first_mid ino offset..<512}. below_mid ino offset m) fs ino fs ino"
    using ok by (intro drops_refl) (auto simp: entry_def)
  moreover have "V1_trunc_dindirect ino offset (Zone 8) fs = (False, ino, fs)"
    using True by (simp add: V1_trunc_dindirect_def)
  ultimately show ?thesis using True
    by (intro exI[of _ ino] exI[of _ fs] exI[of _ "\<Union>m\<in>{first_mid ino offset..<512}. below_mid ino offset m"]) (auto simp: entry_def)
next
  case False
  let ?D = "unat (lookup fs ino Double)" and ?ms = "[first_mid ino offset..<512]"
  let ?U = "\<Union>m\<in>{first_mid ino offset..<512}. insert (Mid m) (below_mid ino offset m)"
  obtain ino1 fs1 S where l: "trunc_dindirect_loop ?ms ?D offset False ino fs = (False, ino1, fs1)" "drops S fs ino fs1 ino1"
      "\<forall>m\<in>set ?ms. \<forall>k. first_lost ino (offset + push_bit 9 (of_nat m)) \<le> k \<and> k < 512 \<longrightarrow> Via2 m k \<in> S" "S \<subseteq> ?U"
      "\<forall>m\<in>set ?ms. lookup fs1 ino1 (Mid m) \<noteq> 0 \<longrightarrow> (\<exists>k<512. lookup fs1 ino1 (Via2 m k) \<noteq> 0)"
    using dindirect_loop_drops[OF ok h rd False, of ?ms "first_lost ino" offset False] by auto
  have in_S: "(\<Union>m\<in>{first_mid ino offset..<512}. below_mid ino offset m) \<subseteq> S" using l(3) by auto
  note d = dropsD[OF l(2)]
  have D1: "lookup fs1 ino1 Double = lookup fs ino Double" using d(8)[of Double] l(4) by auto
  have pt: "ptr_of fs1 ino1 Double = Zone 8" by (simp add: ptr_of_def)
  have V: "V1_trunc_dindirect ino offset (Zone 8) fs =
      (if all_zero (blk fs1 ?D) then (False, ino1\<lparr>i_zone := (i_zone ino1)(8 := 0), i_dirt := True\<rparr>,
          minix_free_block (lookup fs1 ino1 Double) fs1) else (False, ino1, fs1))"
    using False l(1) rd h d(5) by (simp add: V1_trunc_dindirect_def Let_def readable_def)
  show ?thesis
  proof (cases "all_zero (blk fs1 ?D)")
    case True
    let ?ino = "ino1\<lparr>i_zone := (i_zone ino1)(8 := 0), i_dirt := True\<rparr>" and ?fs = "minix_free_block (lookup fs1 ino1 Double) fs1"
    have "drops {Double} fs1 ino1 ?fs (ino1\<lparr>i_zone := (i_zone ino1)(8 := 0)\<rparr>)"
      using release_empty[OF d(1,2), of Double] True False D1 by (simp add: pt)
    then have "drops {Double} fs1 ino1 ?fs ?ino" by (rule drops_same) simp_all
    then have dr: "drops (S \<union> {Double}) fs ino ?fs ?ino" by (rule drops_trans[OF l(2)])
    have z: "lookup ?fs ?ino Double = 0" by simp
    then have "lookup ?fs ?ino (Mid m) = 0" for m by (simp add: entry_def)
    with z V True dr in_S l(4) show ?thesis
      by (intro exI[of _ ?ino] exI[of _ ?fs] exI[of _ "S \<union> {Double}"]) (auto simp del: lookup.simps)
  next
    case nz: False
    then have "\<exists>m<512. lookup fs1 ino1 (Mid m) \<noteq> 0" using all_zero_children[of Double fs1 ino1] False D1 by auto
    with V nz l in_S show ?thesis
      by (intro exI[of _ ino1] exI[of _ fs1] exI[of _ S]) (auto simp del: lookup.simps)
  qed
qed

lemma INDIRECT_BLOCK_eq:
  assumes "unat (DIRECT_BLOCK ino) = n" and "n < 32768" and "int n - int d \<ge> - 32768"
  shows "INDIRECT_BLOCK ino (of_nat d) = int n - int d"
proof -
  have "(ucast (DIRECT_BLOCK ino) :: u16) = of_nat n" using assms(1) by auto
  then have "INDIRECT_BLOCK ino (of_nat d) = sint (of_int (int n - int d) :: u16)" by (simp add: INDIRECT_BLOCK_def)
  also have "\<dots> = signed_take_bit 15 (int n - int d)" by (simp only: signed_of_int) simp
  also have "\<dots> = int n - int d" using assms(2,3) by (intro signed_take_bit_int_eq_self) simp_all
  finally show ?thesis .
qed

lemma first_lost_eq:
  assumes "unat (DIRECT_BLOCK ino) = n" and "n < 32768" and "d \<le> n + 32768"
  shows "first_lost ino (of_nat d) = n - d"
  using INDIRECT_BLOCK_eq[OF assms(1,2), of d] assms(3) by (simp add: first_lost_def)

text \<open>The whole of \<^verbatim>\<open>minix_truncate\<close> on a file none of whose buffers is held elsewhere.\<close>

lemma truncate_drops:
  assumes ok: "zmap_ok fs" "file_ok fs ino" and h: "\<forall>b. \<not> held fs b" and rd: "readable fs"
    and kind: "S_ISREG (i_mode ino) \<or> S_ISDIR (i_mode ino) \<or> S_ISLNK (i_mode ino)"
    and n: "unat (DIRECT_BLOCK ino) = n" "n < 32768"
  shows "\<exists>ino' fs' S. minix_truncate ino sleeps fs = Inr (ino', fs') \<and> drops S fs ino fs' ino' \<and>
    S \<supseteq> Direct ` {n..<7} \<union> Via ` {n - 7..<512} \<union> (\<Union>m\<in>{first_mid ino 519..<512}. below_mid ino 519 m) \<and>
    S \<subseteq> Direct ` {n..<7} \<union> Via ` {n - 7..<512} \<union> {Single, Double} \<union> (\<Union>m\<in>{first_mid ino 519..<512}. insert (Mid m) (below_mid ino 519 m)) \<and>
    (lookup fs' ino' Single \<noteq> 0 \<longrightarrow> (\<exists>k<512. lookup fs' ino' (Via k) \<noteq> 0)) \<and>
    (lookup fs' ino' Double \<noteq> 0 \<longrightarrow> (\<exists>m<512. lookup fs' ino' (Mid m) \<noteq> 0)) \<and>
    (\<forall>m\<in>{first_mid ino 519..<512}. lookup fs' ino' (Mid m) \<noteq> 0 \<longrightarrow> (\<exists>k<512. lookup fs' ino' (Via2 m k) \<noteq> 0))"
proof -
  have sint_n: "sint (ucast (DIRECT_BLOCK ino) :: u16) = int n"
    using INDIRECT_BLOCK_eq[OF n, of 0] by (simp add: INDIRECT_BLOCK_def)
  have "\<not> of_nat i < DIRECT_BLOCK ino" if "n \<le> i" "i < 7" for i
    using that n(1) by (simp add: word_less_nat_alt unat_of_nat take_bit_nat_eq_self)
  then obtain ino1 fs1 where a: "trunc_direct_loop [n..<7] False ino fs = Inr (False, ino1, fs1)" "drops (Direct ` {n..<7}) fs ino fs1 ino1"
    using direct_loop_drops[OF ok h, of "[n..<7]" False] by auto
  note d1 = dropsD[OF a(2)]
  have sz1: "first_lost ino1 = first_lost ino" by (rule first_lost_cong[OF d1(6)])
  have f7: "first_lost ino 7 = n - 7" using first_lost_eq[OF n, of 7] by simp
  have p7: "ptr_of fs1 ino1 Single = Zone 7" by (simp add: ptr_of_def)
  have c: "child Single = Via" by (simp add: fun_eq_iff)
  obtain ino2 fs2 S2 where b: "V1_trunc_indirect ino1 7 (Zone 7) fs1 = (False, ino2, fs2)" "drops S2 fs1 ino1 fs2 ino2"
      "Via ` {n - 7..<512} \<subseteq> S2" "S2 \<subseteq> insert Single (Via ` {n - 7..<512})"
      "lookup fs2 ino2 Single \<noteq> 0 \<longrightarrow> (\<exists>k<512. lookup fs2 ino2 (Via k) \<noteq> 0)"
    using trunc_indirect_drops[OF d1(1,2), of Single 7] h d1(4,5) rd unfolding p7 c sz1 f7 by (auto simp: readable_def)
  note d2 = dropsD[OF b(2)]
  have sz: "i_size ino2 = i_size ino" using d1(6) d2(6) by simp
  have sz2: "first_lost ino2 = first_lost ino" "first_mid ino2 519 = first_mid ino 519"
    using first_lost_cong[OF sz] sz by (simp_all add: DINDIRECT_BLOCK_def INDIRECT_BLOCK_def DIRECT_BLOCK_def)
  obtain ino3 fs3 S3 where e: "V1_trunc_dindirect ino2 519 (Zone 8) fs2 = (False, ino3, fs3)" "drops S3 fs2 ino2 fs3 ino3"
      "(\<Union>m\<in>{first_mid ino 519..<512}. below_mid ino 519 m) \<subseteq> S3"
      "S3 \<subseteq> insert Double (\<Union>m\<in>{first_mid ino 519..<512}. insert (Mid m) (below_mid ino 519 m))"
      "lookup fs3 ino3 Double \<noteq> 0 \<longrightarrow> (\<exists>m<512. lookup fs3 ino3 (Mid m) \<noteq> 0)"
      "\<forall>m\<in>{first_mid ino 519..<512}. lookup fs3 ino3 (Mid m) \<noteq> 0 \<longrightarrow> (\<exists>k<512. lookup fs3 ino3 (Via2 m k) \<noteq> 0)"
    using trunc_dindirect_drops[OF d2(1,2), of 519] h d1(4,5) d2(4,5) rd unfolding sz2 by (auto simp: readable_def simp del: lookup.simps)
  let ?ino = "ino3\<lparr>i_mtime := now fs3, i_ctime := now fs3, i_dirt := True\<rparr>" and ?S = "Direct ` {n..<7} \<union> S2 \<union> S3"
  have V: "minix_truncate ino sleeps fs = Inr (?ino, fs3)"
    using kind sint_n a(1) b(1) e(1) by (simp add: minix_truncate_def truncate_loop.simps V1_trunc_direct_def)
  have "drops ?S fs ino fs3 ino3" by (rule drops_trans[OF drops_trans[OF a(2) b(2)] e(2)])
  then have dr: "drops ?S fs ino fs3 ?ino" by (rule drops_same) simp_all
  have lk: "lookup fs3 ?ino q = lookup fs3 ino3 q" for q by (cases q) simp_all
  have "Single \<notin> S3" "Via k \<notin> S3" for k using e(4) by auto
  then have "lookup fs3 ino3 Single = lookup fs2 ino2 Single" "\<And>k. k < 512 \<Longrightarrow> lookup fs3 ino3 (Via k) = lookup fs2 ino2 (Via k)"
    using dropsD(8)[OF e(2), of Single] dropsD(8)[OF e(2), of "Via _"] by (simp_all del: lookup.simps)
  then have s: "lookup fs3 ino3 Single \<noteq> 0 \<longrightarrow> (\<exists>k<512. lookup fs3 ino3 (Via k) \<noteq> 0)" using b(5) by metis
  have "?S \<subseteq> Direct ` {n..<7} \<union> Via ` {n - 7..<512} \<union> {Single, Double} \<union> (\<Union>m\<in>{first_mid ino 519..<512}. insert (Mid m) (below_mid ino 519 m))"
    using b(4) e(4) by auto
  moreover have "Direct ` {n..<7} \<union> Via ` {n - 7..<512} \<union> (\<Union>m\<in>{first_mid ino 519..<512}. below_mid ino 519 m) \<subseteq> ?S"
    using b(3) e(3) by (intro Un_least) blast+
  ultimately show ?thesis using V dr s e(5,6) unfolding lk[symmetric]
    by (intro exI[of _ ?ino] exI[of _ fs3] exI[of _ ?S] conjI)
qed

section \<open>Correctness of truncation\<close>

lemma lost_iff:
  assumes "drops S fs ino fs' ino'"
  shows "lost S fs ino w \<longleftrightarrow> (\<exists>p. valid p \<and> lookup fs ino p \<noteq> 0 \<and> lookup fs' ino' p = 0 \<and> w = unat (lookup fs ino p))"
  using dropsD(8)[OF assms] unfolding lost_def by (metis (full_types))

lemma mid_offset: "(519 :: u16) + push_bit 9 (of_nat m) = of_nat (519 + 512 * m)"
  by (simp add: push_bit_eq_mult)

lemma first_mid_eq:
  assumes "unat (DIRECT_BLOCK ino) = n" and "n < 32768"
  shows "first_mid ino 519 = (n - 519) div 512"
proof -
  have "DINDIRECT_BLOCK ino 519 = (int n - 519) div 512"
    using INDIRECT_BLOCK_eq[OF assms, of 519] by (simp add: DINDIRECT_BLOCK_def drop_bit_eq_div)
  moreover have "nat (max 0 ((int n - 519) div 512)) = (n - 519) div 512"
  proof (cases "519 \<le> n")
    case True
    then have "(int n - 519) div 512 = int ((n - 519) div 512)" by (simp add: zdiv_int of_nat_diff)
    then show ?thesis by simp
  next
    case False
    then have "(int n - 519) div 512 < 0" using div_neg_pos_less0[of "int n - 519" 512] by simp
    then show ?thesis using False by simp
  qed
  ultimately show ?thesis by simp
qed

lemma via2_below: "Via2 m k \<in> (\<Union>m\<in>A. Via2 m ` {f m..<512}) \<longleftrightarrow> m \<in> A \<and> f m \<le> k \<and> k < 512"
  by (auto simp: image_iff)

text \<open>Below the 63rd block of zone numbers the offsets do not wrap, and exactly the blocks
  from the new end on are lost.\<close>

lemma path_lost:
  assumes n: "unat (DIRECT_BLOCK ino) = n" "n < 32768"
    and lo: "Direct ` {n..<7} \<union> Via ` {n - 7..<512} \<union> (\<Union>m\<in>{first_mid ino 519..<512}. below_mid ino 519 m) \<subseteq> S"
    and hi: "S \<subseteq> Direct ` {n..<7} \<union> Via ` {n - 7..<512} \<union> {Single, Double} \<union> (\<Union>m\<in>{first_mid ino 519..<512}. insert (Mid m) (below_mid ino 519 m))"
    and b: "b < 32775"
  shows "path_of b \<in> S \<longleftrightarrow> n \<le> b"
proof -
  consider (dir) "b < 7" | (ind) "7 \<le> b" "b - 7 < 512" | (dbl) "519 \<le> b" by linarith
  then show ?thesis
  proof cases
    case dir
    have "path_of b = Direct b" using dir by (simp add: path_of_def)
    moreover have "Direct b \<in> S \<longleftrightarrow> n \<le> b" using lo hi dir by auto
    ultimately show ?thesis by simp
  next
    case ind
    have "path_of b = Via (b - 7)" using ind by (simp add: path_of_def)
    moreover have "Via (b - 7) \<in> S \<longleftrightarrow> n - 7 \<le> b - 7" using lo hi ind by auto
    ultimately show ?thesis using ind(1) by auto
  next
    case dbl
    define m k where "m = (b - 519) div 512" and "k = (b - 519) mod 512"
    then have bmk: "b = 519 + 512 * m + k" and k: "k < 512" using dbl by auto
    have p: "path_of b = Via2 m k" using dbl by (simp add: path_of_def m_def k_def)
    have m: "m < 63" using b bmk by simp
    have f: "first_lost ino (519 + push_bit 9 (of_nat m)) = n - (519 + 512 * m)"
      unfolding mid_offset by (rule first_lost_eq[OF n]) (use m in simp)
    have "Via2 m k \<in> S \<longleftrightarrow> Via2 m k \<in> (\<Union>m\<in>{first_mid ino 519..<512}. below_mid ino 519 m)"
    proof
      assume "Via2 m k \<in> S"
      from subsetD[OF hi this] show "Via2 m k \<in> (\<Union>m\<in>{first_mid ino 519..<512}. below_mid ino 519 m)" by (elim UnE) auto
    qed (use subsetD[OF lo, of "Via2 m k"] in simp)
    also have "\<dots> \<longleftrightarrow> first_mid ino 519 \<le> m \<and> n - (519 + 512 * m) \<le> k"
      unfolding via2_below f using m k by auto
    also have "\<dots> \<longleftrightarrow> n \<le> b"
    proof
      assume "n \<le> b"
      then have "(n - 519) div 512 \<le> m" unfolding m_def by (intro div_le_mono) simp
      then show "first_mid ino 519 \<le> m \<and> n - (519 + 512 * m) \<le> k"
        using first_mid_eq[OF n] \<open>n \<le> b\<close> bmk by simp
    qed (use bmk in linarith)
    finally show ?thesis unfolding p .
  qed
qed

text \<open>C16: Truncation. On a well-formed file system and file, with no buffer held elsewhere,
  a new size below 32 MB and no zone at or above block 32775, \<^verbatim>\<open>minix_truncate\<close>
  returns; the blocks of the file below the new end keep their zones and their data, the
  others have no zone any more; and the zones that became free are exactly those the file
  had and lost, so nothing is leaked and nothing freed twice or freed while in use.\<close>

theorem minix_truncate_exact:
  assumes "zmap_ok fs" "file_ok fs ino" and "\<forall>b. \<not> held fs b" and "readable fs"
    and "S_ISREG (i_mode ino) \<or> S_ISDIR (i_mode ino) \<or> S_ISLNK (i_mode ino)"
    and "unat (DIRECT_BLOCK ino) < 32768"
    and "\<forall>b. 32775 \<le> b \<and> b < 65536 \<longrightarrow> lookup fs ino (path_of b) = 0"
  shows "\<exists>ino' fs'. minix_truncate ino sleeps fs = Inr (ino', fs') \<and> zmap_ok fs' \<and> file_ok fs' ino' \<and>
    (\<forall>b<65536. lookup fs' ino' (path_of b) = (if b < unat (DIRECT_BLOCK ino) then lookup fs ino (path_of b) else 0)) \<and>
    (\<forall>b<unat (DIRECT_BLOCK ino). lookup fs ino (path_of b) \<noteq> 0 \<longrightarrow>
       blk fs' (unat (lookup fs ino (path_of b))) = blk fs (unat (lookup fs ino (path_of b)))) \<and>
    (\<forall>w. zone_used fs' w = (zone_used fs w \<and>
       \<not> (\<exists>p. valid p \<and> lookup fs ino p \<noteq> 0 \<and> lookup fs' ino' p = 0 \<and> w = unat (lookup fs ino p))))"
proof -
  let ?n = "unat (DIRECT_BLOCK ino)"
  have "\<exists>ino' fs' S. minix_truncate ino sleeps fs = Inr (ino', fs') \<and> drops S fs ino fs' ino' \<and> (\<forall>b<32775. path_of b \<in> S \<longleftrightarrow> ?n \<le> b)"
    using truncate_drops[OF assms(1-5) refl assms(6), of sleeps]
    by (elim exE conjE) (intro exI conjI allI impI path_lost[OF refl assms(6)]; assumption)
  then obtain ino' fs' S where t: "minix_truncate ino sleeps fs = Inr (ino', fs')" "drops S fs ino fs' ino'"
    "\<And>b. b < 32775 \<Longrightarrow> path_of b \<in> S \<longleftrightarrow> ?n \<le> b" by blast
  note d = dropsD[OF t(2)]
  have vp: "valid (path_of b)" "leaf (path_of b)" if "b < 65536" for b using valid_path_of[OF that] by auto
  have "lookup fs' ino' (path_of b) = (if b < ?n then lookup fs ino (path_of b) else 0)" if b: "b < 65536" for b
    using d(8)[OF vp(1)[OF b]] t(3)[of b] assms(6) assms(7)[rule_format, of b] b
    by (cases "b < 32775") (auto simp: not_less)
  moreover have "blk fs' (unat (lookup fs ino (path_of b))) = blk fs (unat (lookup fs ino (path_of b)))"
    if "b < ?n" "lookup fs ino (path_of b) \<noteq> 0" for b
  proof (rule d(10))
    show "path_of b \<notin> S" using t(3)[of b] that(1) assms(6) by simp
    show "valid (path_of b)" "leaf (path_of b)" using vp that(1) assms(6) by auto
  qed (rule that(2))
  ultimately show ?thesis using t(1) d(1,2,9) unfolding lost_iff[OF t(2)] by blast
qed

lemma truncate_frees:
  assumes "zmap_ok fs" "file_ok fs ino" and "\<forall>b. \<not> held fs b" and "readable fs"
    and "S_ISREG (i_mode ino) \<or> S_ISDIR (i_mode ino) \<or> S_ISLNK (i_mode ino)"
    and "i_size ino = 0" and "\<forall>m. 63 \<le> m \<and> m < 512 \<longrightarrow> lookup fs ino (Mid m) = 0"
  shows "\<exists>ino' fs'. minix_truncate ino sleeps fs = Inr (ino', fs') \<and> zmap_ok fs' \<and> sb fs' = sb fs \<and> meta ino' = meta ino \<and>
    (\<forall>p. valid p \<longrightarrow> lookup fs' ino' p = 0) \<and>
    (\<forall>w. zone_used fs' w = (zone_used fs w \<and> \<not> (\<exists>p. valid p \<and> lookup fs ino p \<noteq> 0 \<and> w = unat (lookup fs ino p))))"
proof -
  have n: "unat (DIRECT_BLOCK ino) = 0" using assms(6) by (simp add: DIRECT_BLOCK_def drop_bit_eq_div)
  then have n2: "(0 :: nat) < 32768" by simp
  let ?B = "\<Union>m\<in>{first_mid ino 519..<512}. below_mid ino 519 m"
  obtain ino' fs' S where t: "minix_truncate ino sleeps fs = Inr (ino', fs')" "drops S fs ino fs' ino'"
    "Direct ` {0..<7} \<union> Via ` {0 - 7..<512} \<union> ?B \<subseteq> S"
    "lookup fs' ino' Single \<noteq> 0 \<longrightarrow> (\<exists>k<512. lookup fs' ino' (Via k) \<noteq> 0)"
    "lookup fs' ino' Double \<noteq> 0 \<longrightarrow> (\<exists>m<512. lookup fs' ino' (Mid m) \<noteq> 0)"
    "\<forall>m\<in>{first_mid ino 519..<512}. lookup fs' ino' (Mid m) \<noteq> 0 \<longrightarrow> (\<exists>k<512. lookup fs' ino' (Via2 m k) \<noteq> 0)"
    using truncate_drops[OF assms(1-5) n n2, of sleeps] by (elim exE conjE) (rule that; assumption)
  note d = dropsD[OF t(2)]
  have fm: "first_mid ino 519 = 0" using first_mid_eq[OF n n2] by simp
  have dropped: "lookup fs' ino' p = 0" if "valid p" "p \<in> S" for p using d(8)[OF that(1)] that(2) by simp
  have "Via2 m k \<in> S" if "m < 63" "k < 512" for m k
  proof -
    have "first_lost ino (519 + push_bit 9 (of_nat m)) = 0 - (519 + 512 * m)"
      unfolding mid_offset by (rule first_lost_eq[OF n n2]) (use that in linarith)
    then have "Via2 m k \<in> ?B" unfolding via2_below fm using that by simp
    then show ?thesis using t(3) by blast
  qed
  then have v2: "lookup fs' ino' (Via2 m k) = 0" if "m < 63" "k < 512" for m k using dropped[of "Via2 m k"] that by simp
  have md: "lookup fs' ino' (Mid m) = 0" if "m < 512" for m
  proof (cases "m < 63")
    case True
    then show ?thesis using t(6)[rule_format, of m] v2 that fm by (auto simp del: lookup.simps)
  next
    case False
    then show ?thesis using d(8)[of "Mid m"] assms(7)[rule_format, of m] that by (simp del: lookup.simps split: if_splits)
  qed
  have via: "lookup fs' ino' (Via k) = 0" if "k < 512" for k using dropped[of "Via k"] subsetD[OF t(3), of "Via k"] that by simp
  have top: "lookup fs' ino' Single = 0" "lookup fs' ino' Double = 0" using t(4,5) via md by blast+
  have z: "lookup fs' ino' p = 0" if "valid p" for p
  proof (cases p)
    case (Direct k)
    then show ?thesis using dropped[of p] subsetD[OF t(3), of p] that by simp
  next
    case (Via2 m k)
    then show ?thesis using lookup_par[of fs' ino' p] md[of m] that by (simp add: entry_def del: lookup.simps)
  qed (use via md top that in \<open>auto simp del: lookup.simps\<close>)
  have "lost S fs ino w \<longleftrightarrow> (\<exists>p. valid p \<and> lookup fs ino p \<noteq> 0 \<and> w = unat (lookup fs ino p))" for w
    unfolding lost_iff[OF t(2)] using z by blast
  then show ?thesis using t(1) d(1,3,9,11) z by blast
qed

text \<open>Deleting a file. When the size is 0 and the file has no zone at or above block
  32775, \<^verbatim>\<open>minix_truncate\<close> leaves no zone number in the inode or below it, and every zone
  the file had, the indirect blocks included, is free.\<close>

theorem minix_truncate_frees_all:
  assumes "zmap_ok fs" "file_ok fs ino" and "\<forall>b. \<not> held fs b" and "readable fs"
    and "S_ISREG (i_mode ino) \<or> S_ISDIR (i_mode ino) \<or> S_ISLNK (i_mode ino)"
    and "i_size ino = 0" and "\<forall>m. 63 \<le> m \<and> m < 512 \<longrightarrow> lookup fs ino (Mid m) = 0"
  shows "\<exists>ino' fs'. minix_truncate ino sleeps fs = Inr (ino', fs') \<and> zmap_ok fs' \<and>
    (\<forall>p. valid p \<longrightarrow> lookup fs' ino' p = 0) \<and>
    (\<forall>w. zone_used fs' w = (zone_used fs w \<and> \<not> (\<exists>p. valid p \<and> lookup fs ino p \<noteq> 0 \<and> w = unat (lookup fs ino p))))"
  using truncate_frees[OF assms] by blast

text \<open>Files beyond 32 MB leak. A zone of the file at a block \<open>519 + 512 * m + k\<close> with
  \<open>64 \<le> m < 126\<close> survives the truncation to size 0: the 16-bit offset of its indirect block has
  wrapped around, \<^verbatim>\<open>V1_trunc_indirect\<close> skips the block, and the zone stays in the file and
  in the bitmap.\<close>

theorem minix_truncate_leaks:
  assumes "zmap_ok fs" "file_ok fs ino" and "\<forall>b. \<not> held fs b" and "readable fs"
    and "S_ISREG (i_mode ino) \<or> S_ISDIR (i_mode ino) \<or> S_ISLNK (i_mode ino)" and "i_size ino = 0"
    and "64 \<le> m" "m < 126" "k < 512" and "lookup fs ino (Via2 m k) \<noteq> 0"
  shows "\<exists>ino' fs'. minix_truncate ino sleeps fs = Inr (ino', fs') \<and>
    lookup fs' ino' (Via2 m k) = lookup fs ino (Via2 m k) \<and> zone_used fs' (unat (lookup fs ino (Via2 m k)))"
proof -
  have n: "unat (DIRECT_BLOCK ino) = 0" using assms(6) by (simp add: DIRECT_BLOCK_def drop_bit_eq_div)
  then have n2: "(0 :: nat) < 32768" by simp
  obtain ino' fs' S where t: "minix_truncate ino sleeps fs = Inr (ino', fs')" "drops S fs ino fs' ino'"
    "S \<subseteq> Direct ` {0..<7} \<union> Via ` {0 - 7..<512} \<union> {Single, Double} \<union> (\<Union>m\<in>{first_mid ino 519..<512}. insert (Mid m) (below_mid ino 519 m))"
    using truncate_drops[OF assms(1-5) n n2, of sleeps] by (elim exE conjE) (rule that; assumption)
  have D0: "DIRECT_BLOCK ino = 0" using n by (simp add: unat_eq_zero)
  have "(0 :: u16) - of_nat (519 + 512 * m) = of_nat 65536 - of_nat (519 + 512 * m)" by simp
  also have "\<dots> = of_nat (65017 - 512 * m)" using assms(8) by (simp only: of_nat_diff[symmetric]) simp
  finally have "INDIRECT_BLOCK ino (of_nat (519 + 512 * m)) = int (65017 - 512 * m)"
    using assms(7) sint_small[of "65017 - 512 * m"] D0 by (simp only: INDIRECT_BLOCK_def) simp
  then have f: "512 \<le> first_lost ino (519 + push_bit 9 (of_nat m))"
    unfolding mid_offset first_lost_def using assms(8) by simp
  have "Via2 m k \<notin> S"
  proof
    assume "Via2 m k \<in> S"
    from subsetD[OF t(3) this] have "Via2 m k \<in> (\<Union>m\<in>{first_mid ino 519..<512}. below_mid ino 519 m)" by (elim UnE) auto
    then show False unfolding via2_below using f by simp
  qed
  then have l: "lookup fs' ino' (Via2 m k) = lookup fs ino (Via2 m k)" using dropsD(8)[OF t(2), of "Via2 m k"] assms(8,9) by simp
  moreover have "zone_used fs' (unat (lookup fs' ino' (Via2 m k)))"
    using dropsD(2)[OF t(2), unfolded file_ok_def, THEN conjunct1, rule_format, of "Via2 m k"] l assms(8-10)
    by (simp del: lookup.simps)
  ultimately show ?thesis using t(1) by auto
qed

section \<open>Files to try truncation on\<close>

text \<open>All three zones are used: by a file with a direct zone and an indirect one, or by a
  file whose only block is number 33287.\<close>

definition full_fs :: minix_fs where
  "full_fs = small_fs\<lparr>blk := (\<lambda>b. if b = 1 then (\<lambda>_. 0xFF) else if b = 2 then put16 (\<lambda>_. 0) (2 * 64) 3
     else if b = 3 then put16 (\<lambda>_. 0) (2 * 0) 4 else (\<lambda>_. 0))\<rparr>"

definition ind_ino :: minode where "ind_ino = empty_ino\<lparr>i_zone := (\<lambda>_. 0)(0 := 2, 7 := 3)\<rparr>"
definition big_ino :: minode where "big_ino = empty_ino\<lparr>i_zone := (\<lambda>_. 0)(8 := 2)\<rparr>"

lemma full_zbit: "zbit full_fs n \<longleftrightarrow> n < 8192"
proof -
  have "(255 :: u8) = mask 8" by (simp add: mask_eq_exp_minus_1)
  then have "bit (255 :: u8) (n mod 8)" by (simp only: bit_mask_iff) simp
  then show ?thesis by (auto simp: zbit_def full_fs_def small_fs_def small_sb_def bit_at_def)
qed

lemma full_ok: "zmap_ok full_fs" "\<forall>b. \<not> held full_fs b" "readable full_fs"
proof -
  show "zmap_ok full_fs" unfolding zmap_ok_def full_zbit by (auto simp: full_fs_def small_fs_def small_sb_def split: if_splits)
qed (simp_all add: full_fs_def small_fs_def readable_def)

lemma full_used: "zone_used full_fs z \<longleftrightarrow> z \<in> {2, 3, 4}"
  unfolding zone_used_def full_zbit by (auto simp: full_fs_def small_fs_def small_sb_def data_zone_def zone_no_def)

lemma full_entry: "entry full_fs 2 k = (if k = 64 then 3 else 0)" "entry full_fs 3 k = (if k = 0 then 4 else 0)" "entry full_fs 0 k = 0"
  using get16_put16[of "\<lambda>_. 0" 64 3 k] get16_put16[of "\<lambda>_. 0" 0 4 k] by (simp_all add: entry_def full_fs_def)

lemma ind_lookup: "valid p \<Longrightarrow> lookup full_fs ind_ino p = (if p = Direct 0 then 2 else if p = Single then 3 else if p = Via 0 then 4 else 0)"
  by (cases p) (simp_all add: ind_ino_def full_entry)

lemma big_lookup: "valid p \<Longrightarrow> lookup full_fs big_ino p = (if p = Double then 2 else if p = Mid 64 then 3 else if p = Via2 64 0 then 4 else 0)"
  by (cases p) (simp_all add: big_ino_def full_entry)

lemma ind_file_ok: "file_ok full_fs ind_ino"
  unfolding file_ok_def full_used using ind_lookup by (auto split: if_splits)

lemma big_file_ok: "file_ok full_fs big_ino"
  unfolding file_ok_def full_used using big_lookup by (auto split: if_splits)

lemma ino_facts: "S_ISREG (i_mode ind_ino)" "S_ISREG (i_mode big_ino)" "i_size ind_ino = 0" "i_size big_ino = 0"
    "DIRECT_BLOCK ind_ino = 0"
  by (simp_all add: ind_ino_def big_ino_def empty_ino_def S_ISREG_def DIRECT_BLOCK_def drop_bit_eq_div)

theorem minix_truncate_leaks_witness:
  "\<exists>ino' fs'. minix_truncate big_ino [] full_fs = Inr (ino', fs') \<and> lookup fs' ino' (Via2 64 0) = 4 \<and> zone_used fs' 4"
  using minix_truncate_leaks[OF full_ok(1) big_file_ok full_ok(2,3), of 64 0 "[]"] ino_facts(2,4) big_lookup[of "Via2 64 0"] by simp

theorem minix_truncate_exact_witness:
  "\<exists>ino' fs'. minix_truncate ind_ino [] full_fs = Inr (ino', fs') \<and> lookup fs' ino' (path_of 7) = 0 \<and> lookup full_fs ind_ino (path_of 7) = 4"
proof -
  have "lookup full_fs ind_ino (path_of b) = 0" if "32775 \<le> b" "b < 65536" for b
    using ind_lookup[of "path_of b"] valid_path_of[of b] that by (simp add: path_of_def)
  then have pr: "\<forall>b. 32775 \<le> b \<and> b < 65536 \<longrightarrow> lookup full_fs ind_ino (path_of b) = 0" by blast
  have small: "unat (DIRECT_BLOCK ind_ino) < 32768" by (simp add: ino_facts(5))
  obtain ino' fs' where t: "minix_truncate ind_ino [] full_fs = Inr (ino', fs')"
      "\<forall>b<65536. lookup fs' ino' (path_of b) = (if b < unat (DIRECT_BLOCK ind_ino) then lookup full_fs ind_ino (path_of b) else 0)"
    using minix_truncate_exact[OF full_ok(1) ind_file_ok full_ok(2,3) disjI1[OF ino_facts(1)] small pr, of "[]"] by blast
  have "path_of 7 = Via 0" by (simp add: path_of_def)
  then show ?thesis using t(1) t(2)[rule_format, of 7] ino_facts(5) ind_lookup[of "Via 0"] by (simp del: lookup.simps)
qed

theorem minix_truncate_frees_all_witness:
  "\<exists>ino' fs'. minix_truncate ind_ino [] full_fs = Inr (ino', fs') \<and> lookup fs' ino' Single = 0 \<and> \<not> zone_used fs' 3"
proof -
  have "lookup full_fs ind_ino (Mid m) = 0" if "m < 512" for m using ind_lookup[of "Mid m"] that by simp
  then obtain ino' fs' where t: "minix_truncate ind_ino [] full_fs = Inr (ino', fs')" "\<forall>p. valid p \<longrightarrow> lookup fs' ino' p = 0"
      "\<forall>w. zone_used fs' w = (zone_used full_fs w \<and> \<not> (\<exists>p. valid p \<and> lookup full_fs ind_ino p \<noteq> 0 \<and> w = unat (lookup full_fs ind_ino p)))"
    using minix_truncate_frees_all[OF full_ok(1) ind_file_ok full_ok(2,3), of "[]"] ino_facts(1,3) by blast
  have "\<exists>p. valid p \<and> lookup full_fs ind_ino p \<noteq> 0 \<and> 3 = unat (lookup full_fs ind_ino p)"
    using ind_lookup[of Single] by (intro exI[of _ Single]) simp
  with t show ?thesis by (metis valid.simps(2))
qed

end
