(* ===== verification/Filp.thy ===== *)
theory Filp
  imports Prelude
begin

text \<open>
  Open files: \<^verbatim>\<open>struct file\<close> of \<^verbatim>\<open>include/linuxmt/fs.h\<close>. A file position is a
  signed 32-bit number, read with \<open>sint\<close>; an inode is named by its slot in
  \<^verbatim>\<open>inode_block\<close>; \<open>f_op\<close> names the table of file operations, \<open>None\<close> is NULL.
\<close>

datatype file_operations = Minix_file_fops | Minix_dir_fops | Read_pipe_fops | Write_pipe_fops | Rdwr_pipe_fops
  | Def_chr_fops | Def_blk_fops | Other_fops

record kfile =
  f_mode :: u16
  f_pos :: u32
  f_flags :: u16
  f_count :: u16
  f_inode :: "nat option"
  f_op :: "file_operations option"

abbreviation O_APPEND :: u16 where "O_APPEND \<equiv> 0x400"
abbreviation ENOSPC :: int where "ENOSPC \<equiv> 28"
abbreviation EIO :: int where "EIO \<equiv> 5"

end
