(* ===== verification/MinixFile.thy ===== *)
theory MinixFile
  imports MinixTruncate Filp "HOL-Library.Signed_Division"
begin

text \<open>
  Reading and writing regular files of the Minix file system, \<^verbatim>\<open>fs/minix/file.c\<close>. The user's
  buffer is the list of bytes taken from it or put into it. Byte counts are 16 bits wide,
  positions are signed 32-bit numbers.
\<close>

section \<open>Model\<close>

primrec read_loop_blocks ::
    "nat \<Rightarrow> minode \<Rightarrow> u16 \<Rightarrow> u32 \<Rightarrow> u32 \<Rightarrow> u32 \<Rightarrow> u16 \<Rightarrow> u8 list \<Rightarrow> minix_fs \<Rightarrow> (u32 \<times> u16 \<times> u8 list) kres" where
  "read_loop_blocks 0 ino block offset left pos rd buf fs = Inr (pos, rd, buf)"
| "read_loop_blocks (Suc blocks) ino block offset left pos rd buf fs =
    bindr (minix_bmap ino block False fs) (\<lambda>(z, _, _).
      if z \<noteq> 0 \<and> bad fs (unat z) then Inr (pos, rd, buf)
      else
        let chars = (if sint left < sint (1024 - offset) then left else 1024 - offset);
            data = (if z \<noteq> 0 then map (\<lambda>i. blk fs (unat z) (unat offset + i)) [0..<unat chars]
                    else replicate (unat chars) 0)
        in read_loop_blocks blocks ino (block + 1) 0 (left - chars) (pos + chars) (rd + ucast chars) (buf @ data) fs)"

definition minix_file_read :: "minode \<Rightarrow> kfile \<Rightarrow> u16 \<Rightarrow> minix_fs \<Rightarrow> (int \<times> kfile \<times> u8 list) kres" where
  "minix_file_read ino filp count fs =
    (let offset = f_pos filp;
         sz = i_size ino;
         left = (if sint offset > sint sz then 0 else sz - offset);
         left = (if sint left > int (unat count) then ucast count else left)
     in if sint left \<le> 0 then Inr (0, filp, [])
        else if \<not> S_ISREG (i_mode ino) then Inr (- EINVAL, filp, [])
        else
          let block = ucast (signed_drop_bit 10 offset) :: u16;
              offset = offset AND 1023;
              blocks = ucast (signed_drop_bit 10 (offset + left + 1023)) :: u16
          in bindr (read_loop_blocks (unat blocks) ino block offset left (f_pos filp) 0 [] fs) (\<lambda>(pos, rd, buf).
               Inr (if rd = 0 then - EIO else sint rd, filp\<lparr>f_pos := pos\<rparr>, buf)))"

definition copy_in :: "bytes \<Rightarrow> nat \<Rightarrow> u8 list \<Rightarrow> bytes" where
  "copy_in d off xs = (\<lambda>k. if off \<le> k \<and> k < off + length xs then xs ! (k - off) else d k)"

text \<open>The loop of \<^verbatim>\<open>minix_file_write\<close>: \<open>data\<close> is the part of the buffer not yet written. Each
  turn writes a byte at least, so the length of the buffer bounds the number of turns.\<close>

primrec write_loop_blocks ::
    "nat \<Rightarrow> minode \<Rightarrow> u32 \<Rightarrow> u16 \<Rightarrow> u16 \<Rightarrow> u8 list \<Rightarrow> minix_fs \<Rightarrow> (u16 \<times> u32 \<times> minode \<times> minix_fs) kres" where
  "write_loop_blocks 0 ino pos written count data fs = (if written < count then Inl Stuck else Inr (written, pos, ino, fs))"
| "write_loop_blocks (Suc n) ino pos written count data fs =
    (if \<not> written < count then Inr (written, pos, ino, fs)
     else bindr (minix_bmap ino (ucast (signed_drop_bit 10 pos)) True fs) (\<lambda>(z, ino, fs).
       if z = 0 then Inr (if written = 0 then word_of_int (- ENOSPC) else written, pos, ino, fs)
       else
         let r = sint pos smod 1024;
             c = 1024 - (word_of_int r :: u16);
             c = (if c > count - written then count - written else c)
         in if c \<noteq> 1024 \<and> bad fs (unat z) then
              Inr (if written = 0 then word_of_int (- EIO) else written, pos, ino, fs)
            else if r < 0 then Inl OutOfBounds
            else
              let fs = mark_uptodate (unat z) (put_blk (unat z) (copy_in (blk fs (unat z)) (nat r) (take (unat c) data)) fs)
              in write_loop_blocks n ino (pos + ucast c) (written + c) count (drop (unat c) data) fs))"

definition minix_file_write ::
    "minode \<Rightarrow> kfile \<Rightarrow> u8 list \<Rightarrow> u16 \<Rightarrow> minix_fs \<Rightarrow> (int \<times> minode \<times> kfile \<times> minix_fs) kres" where
  "minix_file_write ino filp buf count fs =
    (if \<not> S_ISREG (i_mode ino) then Inr (- EINVAL, ino, filp, fs)
     else
       let pos = (if f_flags filp AND O_APPEND \<noteq> 0 then i_size ino else f_pos filp)
       in bindr (write_loop_blocks (unat count) ino pos 0 count buf fs) (\<lambda>(written, pos, ino, fs).
            let ino = (if sint pos > sint (i_size ino) then ino\<lparr>i_size := pos\<rparr> else ino);
                ino = ino\<lparr>i_mtime := now fs, i_ctime := now fs, i_dirt := True\<rparr>
            in Inr (sint written, ino, filp\<lparr>f_pos := pos\<rparr>, fs)))"

section \<open>The bytes of a file\<close>

definition content :: "minix_fs \<Rightarrow> minode \<Rightarrow> nat \<Rightarrow> bytes" where
  "content fs ino b = (let z = lookup fs ino (path_of b) in if z = 0 then (\<lambda>_. 0) else blk fs (unat z))"

definition byte_at :: "minix_fs \<Rightarrow> minode \<Rightarrow> nat \<Rightarrow> u8" where
  "byte_at fs ino n = content fs ino (n div 1024) (n mod 1024)"

text \<open>Growing a file does not change its bytes: new blocks are full of zeros, as holes are.\<close>

lemma extends_content:
  assumes ok: "zmap_ok fs" "file_ok fs ino" and e: "extends fs ino fs' ino'" and b: "b < 65536"
  shows "content fs' ino' b = content fs ino b"
proof -
  let ?p = "path_of b"
  have v: "valid ?p" "leaf ?p" using valid_path_of[OF b] by auto
  show ?thesis
  proof (cases "lookup fs ino ?p = 0")
    case True
    then show ?thesis using extendsD(12)[OF e v] by (auto simp: content_def Let_def)
  next
    case False
    then show ?thesis
      using extendsD(10)[OF e v(1)] extendsD(13)[OF e leaf_other[OF ok(2,1) v False]] by (simp add: content_def Let_def)
  qed
qed

lemma extends_byte_at:
  "zmap_ok fs \<Longrightarrow> file_ok fs ino \<Longrightarrow> extends fs ino fs' ino' \<Longrightarrow> n < 67108864 \<Longrightarrow> byte_at fs' ino' n = byte_at fs ino n"
  using extends_content[of fs ino fs' ino' "n div 1024"] by (simp add: byte_at_def)

section \<open>Positions and block numbers\<close>

lemma sint_u32: "unat (x :: u32) < 2147483648 \<Longrightarrow> sint x = int (unat x)"
proof -
  assume "unat x < 2147483648"
  then have "int (unat x) < 2147483648" by linarith
  then have "uint x < 2147483648" by simp
  moreover have "- 2147483648 \<le> uint x" by (rule order_trans[of _ 0]) simp_all
  ultimately have "signed_take_bit 31 (uint x) = uint x" by (intro signed_take_bit_int_eq_self) simp_all
  then show ?thesis by (simp add: sint_uint)
qed

lemma unat_of_nat_u32: "k < 4294967296 \<Longrightarrow> unat (of_nat k :: u32) = k"
  by (simp add: unat_of_nat take_bit_nat_eq_self)

lemma shift10: "unat (x :: u32) < 2147483648 \<Longrightarrow> signed_drop_bit 10 x = of_nat (unat x div 1024)"
proof -
  assume x: "unat x < 2147483648"
  have "sint (signed_drop_bit 10 x) = drop_bit 10 (int (unat x))" using sint_u32[OF x] by (simp add: sint_signed_drop_bit_eq)
  also have "\<dots> = int (unat x div 1024)" by (simp add: drop_bit_eq_div zdiv_int)
  also have "\<dots> = sint (of_nat (unat x div 1024) :: u32)"
    using x by (subst sint_u32) (simp_all add: unat_of_nat_u32 less_mult_imp_div_less)
  finally show ?thesis by (rule signed_word_eqI)
qed

lemma block_of: "unat (x :: u32) < 67108864 \<Longrightarrow> unat (ucast (signed_drop_bit 10 x) :: u16) = unat x div 1024"
  by (simp add: shift10 unsigned_ucast_eq unat_of_nat_u32 less_mult_imp_div_less take_bit_nat_eq_self)

lemma smod_pos: "0 \<le> (a :: int) \<Longrightarrow> a smod 1024 = a mod 1024"
  by (simp add: signed_modulo_int_def signed_divide_int_def minus_div_mult_eq_mod sgn_if)

lemma offset_of: "unat (x :: u32) < 2147483648 \<Longrightarrow> sint x smod 1024 = int (unat x mod 1024)"
  by (simp add: sint_u32 smod_pos zmod_int)

section \<open>Writing into a block of the file\<close>

lemma put_leaf:
  assumes ok: "zmap_ok fs" "file_ok fs ino" and p: "valid p" "leaf p" and z: "lookup fs ino p = z" "z \<noteq> 0"
    and fs': "fs' = mark_uptodate (unat z) (put_blk (unat z) d fs)"
  shows "zmap_ok fs'" "file_ok fs' ino" "valid q \<Longrightarrow> lookup fs' ino q = lookup fs ino q" "zone_used fs' w = zone_used fs w"
    "readable fs \<Longrightarrow> readable fs'"
proof -
  have hi: "unat (s_firstdatazone (sb fs)) \<le> unat z" using ok(2) p z by (auto simp: file_ok_def zone_used_def data_zone_def)
  have zb: "zbit fs' n = zbit fs n" for n
    using data_not_zmap[OF ok(1) hi] by (auto simp: zbit_def fs' split: option.splits)
  have sbs: "sb fs' = sb fs" by (simp add: fs')
  show "zmap_ok fs'" using zmap_ok_cong[OF ok(1) sbs] zb by blast
  have u: "zone_used fs' w = zone_used fs w" for w using zb sbs by (simp add: zone_used_def zone_no_def data_zone_def)
  then show "zone_used fs' w = zone_used fs w" .
  have ne: "unat (lookup fs ino r) \<noteq> unat z" if "valid r" "\<not> leaf r" "lookup fs ino r \<noteq> 0" for r
    using ok(2) p z that unfolding file_ok_def by (metis word_unat_eq_iff)
  have en: "entry fs' (lookup fs ino r) k = entry fs (lookup fs ino r) k" if "valid r" "\<not> leaf r" for r k
    using ne[OF that] by (auto simp: entry_def fs')
  show l: "valid q \<Longrightarrow> lookup fs' ino q = lookup fs ino q" for q
    using en[of Single] en[of Double] en[of "Mid _"] by (cases q) auto
  show "file_ok fs' ino" using ok(2) unfolding file_ok_def u by (metis l)
  show "readable fs \<Longrightarrow> readable fs'" by (simp add: readable_def fs')
qed

lemma put_leaf_bytes:
  assumes ok: "zmap_ok fs" "file_ok fs ino" and b: "b < 65536" and z: "lookup fs ino (path_of b) = z" "z \<noteq> 0"
    and fs': "fs' = mark_uptodate (unat z) (put_blk (unat z) (copy_in (blk fs (unat z)) r xs) fs)"
    and r: "r + length xs \<le> 1024" and n: "n < 67108864"
  shows "byte_at fs' ino n = (if 1024 * b + r \<le> n \<and> n < 1024 * b + r + length xs then xs ! (n - (1024 * b + r)) else byte_at fs ino n)"
proof -
  let ?c = "n div 1024"
  have c: "?c < 65536" using n by simp
  have v: "valid (path_of b)" "leaf (path_of b)" "valid (path_of ?c)" "leaf (path_of ?c)"
    using valid_path_of[OF b] valid_path_of[OF c] by auto
  have l: "lookup fs' ino (path_of ?c) = lookup fs ino (path_of ?c)" by (rule put_leaf(3)[OF ok v(1,2) z fs' v(3)])
  show ?thesis
  proof (cases "?c = b")
    case True
    then have nb: "n = 1024 * b + n mod 1024" by (metis mult_div_mod_eq)
    have "byte_at fs' ino n = copy_in (blk fs (unat z)) r xs (n mod 1024)"
      using True z l by (simp add: byte_at_def content_def Let_def fs')
    also have "\<dots> = (if r \<le> n mod 1024 \<and> n mod 1024 < r + length xs then xs ! (n mod 1024 - r) else byte_at fs ino n)"
      using True z by (simp add: copy_in_def byte_at_def content_def Let_def)
    finally show ?thesis using nb by (metis (no_types, lifting) add.assoc add_diff_cancel_left add_le_cancel_left nat_add_left_cancel_less)
  next
    case False
    have "unat (lookup fs ino (path_of ?c)) \<noteq> unat z" if "lookup fs ino (path_of ?c) \<noteq> 0"
    proof
      assume "unat (lookup fs ino (path_of ?c)) = unat z"
      then have "path_of ?c = path_of b" using ok(2) v z that unfolding file_ok_def by (metis word_unat_eq_iff)
      then show False using path_of_inj False by blast
    qed
    then have "byte_at fs' ino n = byte_at fs ino n" using l by (simp add: byte_at_def content_def Let_def fs')
    moreover have "\<not> (1024 * b + r \<le> n \<and> n < 1024 * b + r + length xs)" using False r by auto
    ultimately show ?thesis by auto
  qed
qed

section \<open>Writing\<close>

text \<open>What \<open>w\<close> bytes written at \<open>pos\<close> amount to.\<close>

definition wrote :: "nat \<Rightarrow> nat \<Rightarrow> u8 list \<Rightarrow> minix_fs \<Rightarrow> minode \<Rightarrow> minix_fs \<Rightarrow> minode \<Rightarrow> bool" where
  "wrote pos w data fs ino fs' ino' \<longleftrightarrow> zmap_ok fs' \<and> file_ok fs' ino' \<and> readable fs' \<and>
    i_size ino' = i_size ino \<and> i_mode ino' = i_mode ino \<and>
    (\<forall>n<67108864. byte_at fs' ino' n = (if pos \<le> n \<and> n < pos + w then data ! (n - pos) else byte_at fs ino n))"

lemma wrote_nothing: "zmap_ok fs \<Longrightarrow> file_ok fs ino \<Longrightarrow> readable fs \<Longrightarrow> wrote pos 0 data fs ino fs ino"
  by (auto simp: wrote_def)

lemma wrote_extends:
  "zmap_ok fs \<Longrightarrow> file_ok fs ino \<Longrightarrow> readable fs \<Longrightarrow> extends fs ino fs' ino' \<Longrightarrow> wrote pos 0 data fs ino fs' ino'"
  using extendsD(1,2,5,6)[of fs ino fs' ino'] readable_extends extends_byte_at by (auto simp: wrote_def)

lemma wrote_more:
  assumes "wrote pos w (take w data) fs ino fs1 ino1" and "wrote (pos + w) v (drop w data) fs1 ino1 fs2 ino2" and "w + v \<le> length data"
  shows "wrote pos (w + v) data fs ino fs2 ino2"
proof -
  have "byte_at fs2 ino2 n = (if pos \<le> n \<and> n < pos + (w + v) then data ! (n - pos) else byte_at fs ino n)" if n: "n < 67108864" for n
  proof -
    have a: "byte_at fs1 ino1 n = (if pos \<le> n \<and> n < pos + w then take w data ! (n - pos) else byte_at fs ino n)"
      using assms(1) n by (simp add: wrote_def)
    have b: "byte_at fs2 ino2 n = (if pos + w \<le> n \<and> n < pos + w + v then drop w data ! (n - (pos + w)) else byte_at fs1 ino1 n)"
      using assms(2) n by (simp add: wrote_def)
    consider "n < pos" | "pos \<le> n" "n < pos + w" | "pos + w \<le> n" "n < pos + w + v" | "pos + w + v \<le> n" by linarith
    then show ?thesis
    proof cases
      case 3
      have "drop w data ! (n - (pos + w)) = data ! (w + (n - (pos + w)))" using assms(3) by (intro nth_drop) simp
      also have "w + (n - (pos + w)) = n - pos" using 3 by simp
      finally show ?thesis using b 3 by simp
    qed (use a b in auto)
  qed
  then show ?thesis using assms unfolding wrote_def by simp
qed

text \<open>One turn of the loop.\<close>

lemma write_turn:
  assumes ok: "zmap_ok fs" "file_ok fs ino" "readable fs" and lt: "unat written < unat count"
    and pos: "unat pos + (unat count - unat written) \<le> 67108864" and len: "length data = unat count - unat written"
  shows "(\<exists>fs' ino'. write_loop_blocks (Suc n) ino pos written count data fs =
        Inr (if written = 0 then word_of_int (- ENOSPC) else written, pos, ino', fs') \<and>
        wrote (unat pos) 0 data fs ino fs' ino' \<and> zones_full fs') \<or>
    (\<exists>fs' ino' c. write_loop_blocks (Suc n) ino pos written count data fs =
        write_loop_blocks n ino' (pos + ucast c) (written + c) count (drop (unat c) data) fs' \<and>
        0 < unat c \<and> unat c \<le> length data \<and> wrote (unat pos) (unat c) (take (unat c) data) fs ino fs' ino')"
proof -
  let ?b = "ucast (signed_drop_bit 10 pos) :: u16" and ?r = "unat pos mod 1024"
  have p26: "unat pos < 67108864" using pos lt by simp
  have b: "unat ?b = unat pos div 1024" by (rule block_of[OF p26])
  have rr: "sint pos smod 1024 = int ?r" using p26 by (intro offset_of) simp
  obtain z ino1 fs1 where m: "minix_bmap ino ?b True fs = Inr (z, ino1, fs1)" "mapped True fs ino (path_of (unat ?b)) z ino1 fs1"
    using bmap_mapped[OF ok(1,2,3), of ?b True] by blast
  have e: "extends fs ino fs1 ino1" and lz: "lookup fs1 ino1 (path_of (unat pos div 1024)) = z" and full: "z = 0 \<longrightarrow> zones_full fs1"
    using m(2) by (auto simp: mapped_def b)
  have rd1: "readable fs1" by (rule readable_extends[OF e ok(3)])
  show ?thesis
  proof (cases "z = 0")
    case True
    then show ?thesis using m(1) lt full wrote_extends[OF ok e] by (auto simp: word_less_nat_alt)
  next
    case False
    define c where "c = (if 1024 - (word_of_nat ?r :: u16) > count - written then count - written else 1024 - word_of_nat ?r)"
    have u1: "unat (count - written) = unat count - unat written" using lt by (simp add: unat_u16_minus)
    have u2: "unat (1024 - (word_of_nat ?r :: u16)) = 1024 - ?r" by (simp add: unat_u16_minus)
    have c: "unat c = min (1024 - ?r) (unat count - unat written)"
      by (auto simp: c_def word_less_nat_alt u1 u2)
    let ?fs = "mark_uptodate (unat z) (put_blk (unat z) (copy_in (blk fs1 (unat z)) ?r (take (unat c) data)) fs1)"
    have nb: "\<not> bad fs1 (unat z)" using rd1 by (simp add: readable_def)
    have ev: "write_loop_blocks (Suc n) ino pos written count data fs =
        write_loop_blocks n ino1 (pos + ucast c) (written + c) count (drop (unat c) data) ?fs"
      using lt m(1) False nb rr by (simp add: word_less_nat_alt Let_def c_def)
    have cd: "0 < unat c" "unat c \<le> length data" using c lt len by auto
    have lt_b: "unat pos div 1024 < 65536" using p26 by simp
    note ok1 = extendsD(1,2)[OF e] and v = valid_path_of[OF lt_b]
    note pl = put_leaf[OF ok1 conjunct1[OF v] conjunct2[OF v] lz False refl]
    have "byte_at ?fs ino1 k = (if unat pos \<le> k \<and> k < unat pos + unat c then take (unat c) data ! (k - unat pos) else byte_at fs ino k)"
      if k: "k < 67108864" for k
    proof -
      have P: "1024 * (unat pos div 1024) + ?r = unat pos" by simp
      have ln: "length (take (unat c) data) = unat c" using cd(2) by simp
      have "?r + unat c \<le> 1024" unfolding c using mod_less_divisor[of 1024 "unat pos"] by linarith
      from put_leaf_bytes[OF ok1 lt_b lz False refl _ k, of ?r "take (unat c) data", unfolded ln P, OF this]
      show ?thesis unfolding extends_byte_at[OF ok(1,2) e k] .
    qed
    then have "wrote (unat pos) (unat c) (take (unat c) data) fs ino ?fs ino1"
      using pl(1,2,5) rd1 extendsD(5,6)[OF e] by (simp add: wrote_def)
    with ev cd show ?thesis by blast
  qed
qed

lemma write_loop_spec:
  assumes "zmap_ok fs" "file_ok fs ino" "readable fs" and "unat written \<le> unat count"
    and "unat pos + (unat count - unat written) \<le> 67108864" and "length data = unat count - unat written" and "length data \<le> n"
  shows "\<exists>w fs' ino'. w \<le> length data \<and>
    write_loop_blocks n ino pos written count data fs =
      Inr (if w < length data \<and> unat written + w = 0 then word_of_int (- ENOSPC) else written + of_nat w, pos + of_nat w, ino', fs') \<and>
    wrote (unat pos) w (take w data) fs ino fs' ino' \<and> (w < length data \<longrightarrow> zones_full fs')"
  using assms
proof (induction n arbitrary: ino pos written data fs)
  case 0
  then show ?case
    by (intro exI[of _ 0] exI[of _ fs] exI[of _ ino]) (auto intro!: wrote_nothing simp: word_less_nat_alt)
next
  case (Suc n)
  show ?case
  proof (cases "unat written < unat count")
    case False
    with Suc.prems show ?thesis
      by (intro exI[of _ 0] exI[of _ fs] exI[of _ ino]) (auto intro!: wrote_nothing simp: word_less_nat_alt)
  next
    case True
    from write_turn[OF Suc.prems(1-3) True Suc.prems(5,6), of n] show ?thesis
    proof (elim disjE exE conjE)
      fix fs' ino'
      assume ev: "write_loop_blocks (Suc n) ino pos written count data fs =
          Inr (if written = 0 then word_of_int (- ENOSPC) else written, pos, ino', fs')"
        and w: "wrote (unat pos) 0 data fs ino fs' ino'" "zones_full fs'"
      have "wrote (unat pos) 0 (take 0 data) fs ino fs' ino'" using w(1) by (auto simp: wrote_def)
      then show ?thesis using ev w(2) True Suc.prems(6)
        by (intro exI[of _ 0] exI[of _ fs'] exI[of _ ino']) (simp add: unat_eq_0)
    next
      fix fs1 ino1 and c :: u16
      assume ev: "write_loop_blocks (Suc n) ino pos written count data fs =
          write_loop_blocks n ino1 (pos + ucast c) (written + c) count (drop (unat c) data) fs1"
        and c: "0 < unat c" "unat c \<le> length data" and w: "wrote (unat pos) (unat c) (take (unat c) data) fs ino fs1 ino1"
      have uw: "unat (written + c) = unat written + unat c"
        using c(2) Suc.prems(4,6) u16_less[of count] by (intro unat_u16_plus) simp
      have "unat (ucast c :: u32) = unat c" using u16_less[of c] by (simp add: unsigned_ucast_eq take_bit_nat_eq_self)
      then have up: "unat (pos + ucast c) = unat pos + unat c"
        using c(2) Suc.prems(5,6) by (simp add: unat_word_ariths)
      have "\<exists>v fs' ino'. v \<le> length (drop (unat c) data) \<and>
          write_loop_blocks n ino1 (pos + ucast c) (written + c) count (drop (unat c) data) fs1 =
            Inr (if v < length (drop (unat c) data) \<and> unat (written + c) + v = 0 then word_of_int (- ENOSPC)
              else written + c + of_nat v, pos + ucast c + of_nat v, ino', fs') \<and>
          wrote (unat (pos + ucast c)) v (take v (drop (unat c) data)) fs1 ino1 fs' ino' \<and>
          (v < length (drop (unat c) data) \<longrightarrow> zones_full fs')"
        using w c Suc.prems(4-7) uw up by (intro Suc.IH) (auto simp: wrote_def)
      then obtain v fs' ino' where v: "v \<le> length data - unat c"
          "write_loop_blocks n ino1 (pos + ucast c) (written + c) count (drop (unat c) data) fs1 =
             Inr (written + c + of_nat v, pos + ucast c + of_nat v, ino', fs')"
          "wrote (unat pos + unat c) v (take v (drop (unat c) data)) fs1 ino1 fs' ino'"
          "v < length data - unat c \<longrightarrow> zones_full fs'"
        unfolding up uw using c(1) by auto
      let ?w = "unat c + v"
      have "wrote (unat pos) ?w (take ?w data) fs ino fs' ino'"
      proof (rule wrote_more)
        show "wrote (unat pos) (unat c) (take (unat c) (take ?w data)) fs ino fs1 ino1" using w by (simp add: min_def)
        show "wrote (unat pos + unat c) v (drop (unat c) (take ?w data)) fs1 ino1 fs' ino'" using v(3) by (simp add: drop_take)
        show "unat c + v \<le> length (take ?w data)" using v(1) c(2) by simp
      qed
      moreover have "written + c + of_nat v = written + of_nat ?w" "pos + ucast c + of_nat v = pos + of_nat ?w"
        by simp_all
      ultimately show ?thesis using ev v(1,2,4) c by (intro exI[of _ ?w] exI[of _ fs'] exI[of _ ino']) auto
    qed
  qed
qed

section \<open>Reading\<close>

lemma unat_u32_minus: "unat b \<le> unat a \<Longrightarrow> unat (a - b :: u32) = unat a - unat b"
  by (simp add: unat_sub word_le_nat_alt)

lemma block_bytes:
  assumes "z = lookup fs ino (path_of b)" and "r + c \<le> 1024"
  shows "(if z \<noteq> 0 then map (\<lambda>i. blk fs (unat z) (r + i)) [0..<c] else replicate c 0) = map (byte_at fs ino) [1024 * b + r..<1024 * b + r + c]"
proof (rule nth_equalityI)
  fix i
  assume "i < length (if z \<noteq> 0 then map (\<lambda>i. blk fs (unat z) (r + i)) [0..<c] else replicate c 0)"
  then have i: "i < c" by (auto split: if_splits)
  then have "(1024 * b + r + i) div 1024 = b" "(1024 * b + r + i) mod 1024 = r + i" using assms(2) by (simp_all add: add.assoc)
  then show "(if z \<noteq> 0 then map (\<lambda>i. blk fs (unat z) (r + i)) [0..<c] else replicate c 0) ! i
      = map (byte_at fs ino) [1024 * b + r..<1024 * b + r + c] ! i"
    using i assms(1) by (simp add: byte_at_def content_def Let_def)
qed simp

lemma read_loop_spec:
  assumes "readable fs" and "n = (unat offset + unat left + 1023) div 1024" and "unat offset < 1024"
    and "unat left = 0 \<longrightarrow> unat offset = 0" and "unat left \<noteq> 0 \<longrightarrow> p = 1024 * unat block + unat offset" and "p + unat left \<le> 67108864"
  shows "read_loop_blocks n ino block offset left pos rd buf fs =
    Inr (pos + left, rd + ucast left, buf @ map (byte_at fs ino) [p..<p + unat left])"
  using assms
proof (induction n arbitrary: block offset left pos rd buf p)
  case 0
  then have "unat left = 0" by (simp add: div_eq_0_iff)
  then have "left = 0" by (simp add: unat_eq_0)
  then show ?case by simp
next
  case (Suc n)
  let ?o = "unat offset" and ?l = "unat left"
  have l0: "?l \<noteq> 0" using Suc.prems(2,4) by (intro notI) simp
  then have p: "p = 1024 * unat block + ?o" using Suc.prems(5) by blast
  let ?z = "lookup fs ino (path_of (unat block))"
  have m: "minix_bmap ino block False fs = Inr (?z, ino, fs)" by (rule bmap_reads[OF Suc.prems(1)])
  have uo: "unat (1024 - offset) = 1024 - ?o" using Suc.prems(3) by (simp add: unat_u32_minus)
  define chars where "chars = (if sint left < sint (1024 - offset) then left else 1024 - offset)"
  have "sint left = int ?l" using Suc.prems(6) by (intro sint_u32) simp
  moreover have "sint (1024 - offset) = int (1024 - ?o)" unfolding uo[symmetric] using uo by (intro sint_u32) simp
  ultimately have "sint left < sint (1024 - offset) \<longleftrightarrow> ?l < 1024 - ?o" by (simp only: of_nat_less_iff)
  then have c: "unat chars = min ?l (1024 - ?o)" using uo by (simp add: chars_def)
  have data: "(if ?z \<noteq> 0 then map (\<lambda>i. blk fs (unat ?z) (?o + i)) [0..<unat chars] else replicate (unat chars) 0)
      = map (byte_at fs ino) [p..<p + unat chars]"
    unfolding p using c Suc.prems(3) by (intro block_bytes) (auto simp: min_def)
  have ul: "unat (left - chars) = ?l - unat chars" using c by (simp add: unat_u32_minus)
  have ev: "read_loop_blocks (Suc n) ino block offset left pos rd buf fs = read_loop_blocks n ino (block + 1) 0 (left - chars)
      (pos + chars) (rd + ucast chars) (buf @ map (byte_at fs ino) [p..<p + unat chars]) fs"
    using m Suc.prems(1) unfolding data[symmetric] by (simp add: chars_def Let_def readable_def)
  have "read_loop_blocks n ino (block + 1) 0 (left - chars) (pos + chars) (rd + ucast chars) (buf @ map (byte_at fs ino) [p..<p + unat chars]) fs =
      Inr (pos + chars + (left - chars), rd + ucast chars + ucast (left - chars),
        (buf @ map (byte_at fs ino) [p..<p + unat chars]) @ map (byte_at fs ino) [p + unat chars..<p + unat chars + unat (left - chars)])"
  proof (rule Suc.IH[OF Suc.prems(1)])
    show "n = (unat (0 :: u32) + unat (left - chars) + 1023) div 1024"
    proof (cases "?l \<le> 1024 - ?o")
      case True
      then have "Suc n = 1" using Suc.prems(2,3) l0 by (simp add: div_nat_eqI)
      then show ?thesis using True c ul by simp
    next
      case False
      then have "?o + ?l + 1023 = (?l - (1024 - ?o) + 1023) + 1024" using Suc.prems(3) by simp
      then have "Suc n = (?l - (1024 - ?o) + 1023) div 1024 + 1" using Suc.prems(2) by simp
      then show ?thesis using False c ul by simp
    qed
    show "unat (left - chars) \<noteq> 0 \<longrightarrow> p + unat chars = 1024 * unat (block + 1) + unat (0 :: u32)"
    proof
      assume "unat (left - chars) \<noteq> 0"
      then have more: "1024 - ?o < ?l" using ul c by auto
      then have "unat block < 65535" using Suc.prems(3,6) p by simp
      then have "unat (block + 1) = unat block + 1" by (simp add: unat_u16_plus)
      then show "p + unat chars = 1024 * unat (block + 1) + unat (0 :: u32)" using more c p Suc.prems(3) by simp
    qed
    show "p + unat chars + unat (left - chars) \<le> 67108864" using ul c Suc.prems(6) by simp
  qed simp_all
  moreover have "[p..<p + unat chars] @ [p + unat chars..<p + unat chars + unat (left - chars)] = [p..<p + ?l]"
    using ul c by (subst upt_add_eq_append[symmetric]) simp_all
  moreover have "rd + ucast chars + ucast (left - chars) = rd + (ucast left :: u16)"
  proof -
    have "(ucast chars :: u16) + ucast (left - chars) = of_nat (unat chars + unat (left - chars))" by simp
    also have "\<dots> = ucast left" using ul c by simp
    finally show ?thesis by (simp add: add.assoc)
  qed
  ultimately show ?case unfolding ev by (simp flip: map_append)
qed

section \<open>Correctness of reading and writing\<close>

lemma sint_u16_small: "unat (x :: u16) < 32768 \<Longrightarrow> sint x = int (unat x)"
  using sint_small[of "unat x"] by simp

lemma file_read_bytes:
  assumes "readable fs" and "S_ISREG (i_mode ino)" and "unat (i_size ino) \<le> 67108864" and "unat (f_pos filp) \<le> 67108864"
    and p_def: "p = unat (f_pos filp)" and n_def: "n = min (unat count) (unat (i_size ino) - p)"
  shows "minix_file_read ino filp count fs =
    Inr (sint (of_nat n :: u16), filp\<lparr>f_pos := f_pos filp + of_nat n\<rparr>, map (byte_at fs ino) [p..<p + n])"
proof -
  define left0 where "left0 = (if sint (f_pos filp) > sint (i_size ino) then 0 else i_size ino - f_pos filp)"
  define left where "left = (if sint left0 > int (unat count) then ucast count else left0)"
  have s: "sint (f_pos filp) = int p" "sint (i_size ino) = int (unat (i_size ino))"
    unfolding p_def using assms(3,4) by (intro sint_u32; simp)+
  have l0: "unat left0 = unat (i_size ino) - p"
    unfolding left0_def s of_nat_less_iff by (simp add: p_def unat_u32_minus)
  then have sl: "sint left0 = int (unat (i_size ino) - p)" using assms(3) sint_u32[of left0] by simp
  have "unat (ucast count :: u32) = unat count" using u16_less[of count] by (simp add: unsigned_ucast_eq take_bit_nat_eq_self)
  then have l: "unat left = n" unfolding left_def sl of_nat_less_iff n_def by (simp add: l0)
  have n: "p + n \<le> 67108864" "n < 65536" using assms(3,4) u16_less[of count] by (auto simp: n_def p_def)
  have le: "left = of_nat n" using l by auto
  have "n = 0 \<longleftrightarrow> sint left \<le> 0" using n l sint_u32[of left] by simp
  moreover have "minix_file_read ino filp count fs = Inr (sint (of_nat n :: u16), filp\<lparr>f_pos := f_pos filp + of_nat n\<rparr>, map (byte_at fs ino) [p..<p + n])"
    if n0: "n \<noteq> 0"
  proof -
    let ?b = "ucast (signed_drop_bit 10 (f_pos filp)) :: u16" and ?o = "f_pos filp AND 1023"
    have p26: "p < 67108864" using n(1) n0 by simp
    have b: "unat ?b = p div 1024" unfolding p_def by (rule block_of) (use p26 in \<open>simp add: p_def\<close>)
    have "?o = take_bit 10 (f_pos filp)" by (simp add: take_bit_eq_mask mask_eq_exp_minus_1)
    then have om: "unat ?o = p mod 1024" unfolding p_def by (simp add: unat_mod take_bit_eq_mod)
    have "unat (?o + left + 1023) = p mod 1024 + n + 1023" using om l n(2) by (simp add: unat_word_ariths)
    then have bl: "unat (ucast (signed_drop_bit 10 (?o + left + 1023)) :: u16) = (unat ?o + unat left + 1023) div 1024"
      using block_of[of "?o + left + 1023"] om l n(2) by simp
    have loop: "read_loop_blocks ((unat ?o + unat left + 1023) div 1024) ino ?b ?o left (f_pos filp) 0 [] fs =
        Inr (f_pos filp + left, 0 + ucast left, [] @ map (byte_at fs ino) [p..<p + unat left])"
      using n0 l om b n(1) by (intro read_loop_spec[OF assms(1)]) simp_all
    have "(ucast left :: u16) = of_nat n" using l by (metis of_nat_unat)
    moreover have "(of_nat n :: u16) \<noteq> 0" using n(2) n0 by (simp add: of_nat_u16_eq_0)
    moreover have "\<not> sint left \<le> 0" using n0 calculation(1) \<open>n = 0 \<longleftrightarrow> sint left \<le> 0\<close> by blast
    ultimately show ?thesis
      using loop assms(2) unfolding minix_file_read_def left0_def[symmetric] Let_def left_def[symmetric] bl using l by (simp add: le)
  qed
  moreover have "minix_file_read ino filp count fs = Inr (0, filp, [])" if "sint left \<le> 0"
    using that unfolding minix_file_read_def left0_def[symmetric] Let_def left_def[symmetric] by simp
  ultimately show ?thesis by (cases "n = 0") auto
qed

text \<open>C19: \<^verbatim>\<open>minix_file_read\<close> on a readable file system returns the bytes of the file from
  the position on, zeros for holes, exactly as many as were asked for and as there are
  before the end of the file, and moves the position behind them. At or beyond the end it
  returns 0. The number of bytes is returned as a 16-bit \<^verbatim>\<open>int\<close>.\<close>

theorem minix_file_read_exact:
  assumes "readable fs" and "S_ISREG (i_mode ino)" and "unat (i_size ino) \<le> 67108864" and "unat (f_pos filp) \<le> 67108864"
    and p_def: "p = unat (f_pos filp)" and n_def: "n = min (unat count) (unat (i_size ino) - p)"
  shows "minix_file_read ino filp count fs =
    Inr (sint (of_nat n :: u16), filp\<lparr>f_pos := f_pos filp + of_nat n\<rparr>, map (byte_at fs ino) [p..<p + n])"
  by (rule file_read_bytes[OF assms])

lemma file_write_bytes:
  assumes "zmap_ok fs" "file_ok fs ino" "readable fs" and "S_ISREG (i_mode ino)"
    and "p = (if f_flags filp AND O_APPEND \<noteq> 0 then i_size ino else f_pos filp)"
    and "unat p + unat count \<le> 67108864" and "length buf = unat count" and "unat (i_size ino) < 2147483648"
  shows "\<exists>w ino' fs'. w \<le> unat count \<and>
    minix_file_write ino filp buf count fs =
      Inr (if w = 0 \<and> 0 < unat count then - ENOSPC else sint (of_nat w :: u16), ino', filp\<lparr>f_pos := p + of_nat w\<rparr>, fs') \<and>
    zmap_ok fs' \<and> file_ok fs' ino' \<and> readable fs' \<and> i_mode ino' = i_mode ino \<and>
    unat (i_size ino') = max (unat (i_size ino)) (unat p + w) \<and>
    (\<forall>n<67108864. byte_at fs' ino' n = (if unat p \<le> n \<and> n < unat p + w then buf ! (n - unat p) else byte_at fs ino n)) \<and>
    (w < unat count \<longrightarrow> zones_full fs')"
proof -
  obtain w fs' ino1 where w: "w \<le> unat count"
    "write_loop_blocks (unat count) ino p 0 count buf fs =
      Inr (if w < unat count \<and> w = 0 then word_of_int (- ENOSPC) else of_nat w, p + of_nat w, ino1, fs')"
    "wrote (unat p) w (take w buf) fs ino fs' ino1" "w < unat count \<longrightarrow> zones_full fs'"
  proof -
    have "\<exists>w fs' ino'. w \<le> length buf \<and>
      write_loop_blocks (unat count) ino p 0 count buf fs =
        Inr (if w < length buf \<and> unat (0 :: u16) + w = 0 then word_of_int (- ENOSPC) else 0 + of_nat w, p + of_nat w, ino', fs') \<and>
      wrote (unat p) w (take w buf) fs ino fs' ino' \<and> (w < length buf \<longrightarrow> zones_full fs')"
      by (rule write_loop_spec[OF assms(1-3)]) (use assms(6,7) in simp_all)
    then show thesis using that unfolding assms(7) by (elim exE conjE) simp
  qed
  note wr = w(3)[unfolded wrote_def]
  define ino2 where "ino2 = (if sint (p + of_nat w) > sint (i_size ino1) then ino1\<lparr>i_size := p + of_nat w\<rparr> else ino1)"
  let ?ino = "ino2\<lparr>i_mtime := now fs', i_ctime := now fs', i_dirt := True\<rparr>"
  have ev: "minix_file_write ino filp buf count fs =
      Inr (sint (if w < unat count \<and> w = 0 then word_of_int (- ENOSPC) else of_nat w :: u16), ?ino, filp\<lparr>f_pos := p + of_nat w\<rparr>, fs')"
    using assms(4) w(2) unfolding minix_file_write_def Let_def assms(5)[symmetric] by (simp add: ino2_def)
  have s: "sint (if w < unat count \<and> w = 0 then word_of_int (- ENOSPC) else of_nat w :: u16)
      = (if w = 0 \<and> 0 < unat count then - ENOSPC else sint (of_nat w :: u16))"
    by (auto simp: signed_of_int)
  have pw: "unat (p + of_nat w) = unat p + w"
    using w(1) assms(6) u16_less[of count] by (simp add: unat_word_ariths unat_of_nat take_bit_nat_eq_self)
  have "sint (p + of_nat w) = int (unat p + w)" using sint_u32[of "p + of_nat w"] pw w(1) assms(6) by simp
  moreover have "sint (i_size ino1) = int (unat (i_size ino))" using wr assms(8) sint_u32[of "i_size ino"] by simp
  ultimately have "sint (i_size ino1) < sint (p + of_nat w) \<longleftrightarrow> unat (i_size ino) < unat p + w" by (simp only: of_nat_less_iff)
  then have sz: "unat (i_size ?ino) = max (unat (i_size ino)) (unat p + w)"
    using wr pw by (simp add: ino2_def max_def)
  have z: "i_zone ?ino = i_zone ino1" "i_mode ?ino = i_mode ino1" by (simp_all add: ino2_def)
  have l: "lookup fs' ?ino q = lookup fs' ino1 q" for q by (rule lookup_i_zone[OF z(1)])
  have "file_ok fs' ?ino" using wr unfolding file_ok_def l by blast
  moreover have "byte_at fs' ?ino n = (if unat p \<le> n \<and> n < unat p + w then buf ! (n - unat p) else byte_at fs ino n)"
    if "n < 67108864" for n
  proof -
    have "byte_at fs' ?ino n = byte_at fs' ino1 n" by (simp add: byte_at_def content_def l)
    also have "\<dots> = (if unat p \<le> n \<and> n < unat p + w then take w buf ! (n - unat p) else byte_at fs ino n)" using wr that by blast
    finally show ?thesis by auto
  qed
  ultimately show ?thesis using w(1,4) wr ev s sz z(2)
    by (intro exI[of _ w] exI[of _ ?ino] exI[of _ fs']) simp
qed

text \<open>C18: \<^verbatim>\<open>minix_file_write\<close> on a well-formed file system: some number \<open>w\<close> of bytes from
  the front of the buffer ends up in the file at the position, every other byte of the file
  is what it was, the file system and the file stay well-formed, position and size follow.
  Less than everything is written only when no zone is left, and then the result is \<open>w\<close>, or
  ENOSPC when \<open>w\<close> is 0.\<close>

theorem minix_file_write_exact:
  assumes "zmap_ok fs" "file_ok fs ino" "readable fs" and "S_ISREG (i_mode ino)"
    and "p = (if f_flags filp AND O_APPEND \<noteq> 0 then i_size ino else f_pos filp)"
    and "unat p + unat count \<le> 67108864" and "length buf = unat count" and "unat (i_size ino) < 2147483648"
  shows "\<exists>w ino' fs'. w \<le> unat count \<and>
    minix_file_write ino filp buf count fs =
      Inr (if w = 0 \<and> 0 < unat count then - ENOSPC else sint (of_nat w :: u16), ino', filp\<lparr>f_pos := p + of_nat w\<rparr>, fs') \<and>
    zmap_ok fs' \<and> file_ok fs' ino' \<and> readable fs' \<and> i_mode ino' = i_mode ino \<and>
    unat (i_size ino') = max (unat (i_size ino)) (unat p + w) \<and>
    (\<forall>n<67108864. byte_at fs' ino' n = (if unat p \<le> n \<and> n < unat p + w then buf ! (n - unat p) else byte_at fs ino n)) \<and>
    (w < unat count \<longrightarrow> zones_full fs')"
  by (rule file_write_bytes[OF assms])

definition open_file :: kfile where
  "open_file = \<lparr>f_mode = 3, f_pos = 0, f_flags = 2, f_count = 1, f_inode = Some 0, f_op = Some Minix_file_fops\<rparr>"

lemma empty_facts: "S_ISREG (i_mode empty_ino)" "i_size empty_ino = 0" "f_pos open_file = 0" "f_flags open_file AND O_APPEND = 0"
  by (simp_all add: empty_ino_def S_ISREG_def open_file_def)

theorem minix_file_read_exact_witness:
  "minix_file_read (empty_ino\<lparr>i_size := 2\<rparr>) open_file 5 small_fs = Inr (2, open_file\<lparr>f_pos := 2\<rparr>, [0, 0])"
proof -
  have "byte_at small_fs (empty_ino\<lparr>i_size := 2\<rparr>) n = 0" if "n < 7168" for n
    using that by (simp add: byte_at_def content_def path_of_def empty_ino_def less_mult_imp_div_less)
  moreover have "[0..<0 + 2] = [0, 1 :: nat]" by code_simp
  moreover have "S_ISREG (i_mode (empty_ino\<lparr>i_size := 2\<rparr>))" "unat (i_size (empty_ino\<lparr>i_size := 2\<rparr>)) \<le> 67108864"
    "unat (f_pos open_file) \<le> 67108864" "0 = unat (f_pos open_file)" "2 = min (unat (5 :: u16)) (unat (i_size (empty_ino\<lparr>i_size := 2\<rparr>)) - 0)"
    using empty_facts by simp_all
  note R = minix_file_read_exact[OF small_ok(3) this]
  ultimately show ?thesis unfolding R by (simp add: empty_facts)
qed

theorem minix_file_write_exact_witness:
  "\<exists>w ino' fs'. w \<le> unat (3 :: u16) \<and> minix_file_write empty_ino open_file [7, 8, 9] 3 small_fs =
     Inr (if w = 0 \<and> 0 < unat (3 :: u16) then - ENOSPC else sint (of_nat w :: u16), ino', open_file\<lparr>f_pos := 0 + of_nat w\<rparr>, fs') \<and> zmap_ok fs'"
proof -
  have p0: "(0 :: u32) = (if f_flags open_file AND O_APPEND \<noteq> 0 then i_size empty_ino else f_pos open_file)"
    by (simp add: empty_facts)
  have l: "unat (0 :: u32) + unat (3 :: u16) \<le> 67108864" "length [7, 8, 9 :: u8] = unat (3 :: u16)" "unat (i_size empty_ino) < 2147483648"
    by (simp_all add: empty_facts)
  show ?thesis using minix_file_write_exact[OF small_ok empty_facts(1) p0 l] by blast
qed

lemma write_read_bytes:
  assumes "zmap_ok fs" "file_ok fs ino" "readable fs" and "S_ISREG (i_mode ino)" and "f_flags filp AND O_APPEND = 0"
    and "unat (f_pos filp) + unat count \<le> 67108864" and "length buf = unat count" and "unat count < 32768"
    and "unat (i_size ino) \<le> 67108864"
    and "minix_file_write ino filp buf count fs = Inr (int (unat count), ino', filp', fs')"
  shows "minix_file_read ino' (filp'\<lparr>f_pos := f_pos filp\<rparr>) count fs' = Inr (int (unat count), filp', buf)"
proof -
  let ?p = "unat (f_pos filp)"
  obtain w where w: "w \<le> unat count" "int (unat count) = (if w = 0 \<and> 0 < unat count then - ENOSPC else sint (of_nat w :: u16))"
    "filp' = filp\<lparr>f_pos := f_pos filp + of_nat w\<rparr>" "readable fs'" "i_mode ino' = i_mode ino"
    "unat (i_size ino') = max (unat (i_size ino)) (?p + w)"
    "\<And>n. n < 67108864 \<Longrightarrow> byte_at fs' ino' n = (if ?p \<le> n \<and> n < ?p + w then buf ! (n - ?p) else byte_at fs ino n)"
    using file_write_bytes[OF assms(1-4) _ assms(6,7), of filp] assms(5,9,10) by auto
  have s: "sint (of_nat w :: u16) = int w" using w(1) assms(8) by (intro sint_small) simp
  have "int (unat count) = int w"
  proof (cases "w = 0 \<and> 0 < unat count")
    case True
    then have "int (unat count) = - ENOSPC" using w(2) by metis
    moreover have "0 \<le> int (unat count)" by (rule of_nat_0_le_iff)
    ultimately show ?thesis by linarith
  next
    case False
    then show ?thesis using w(2) s by metis
  qed
  then have wc: "w = unat count" by (simp only: of_nat_eq_iff)
  have m: "map (byte_at fs' ino') [?p..<?p + w] = buf"
    using w(7) assms(6,7) wc by (intro nth_equalityI) auto
  let ?f = "filp'\<lparr>f_pos := f_pos filp\<rparr>"
  have r: "S_ISREG (i_mode ino')" "unat (i_size ino') \<le> 67108864" "unat (f_pos ?f) \<le> 67108864" "?p = unat (f_pos ?f)"
    using assms(4,6,9) w(5,6) wc by simp_all
  have "w = min (unat count) (unat (i_size ino') - ?p)" unfolding w(6) wc by simp
  note R = file_read_bytes[OF w(4) r this]
  have F: "?f\<lparr>f_pos := f_pos ?f + of_nat w\<rparr> = filp'" unfolding w(3) by simp
  show ?thesis unfolding R m s F by (simp only: wc)
qed

text \<open>Write, then read. When \<^verbatim>\<open>minix_file_write\<close> reports that all of a buffer of at
  most 32767 bytes has been written, \<^verbatim>\<open>minix_file_read\<close> at the same position, on the
  resulting file and file system, returns that buffer.\<close>

theorem minix_write_read:
  assumes "zmap_ok fs" "file_ok fs ino" "readable fs" and "S_ISREG (i_mode ino)" and "f_flags filp AND O_APPEND = 0"
    and "unat (f_pos filp) + unat count \<le> 67108864" and "length buf = unat count" and "unat count < 32768"
    and "unat (i_size ino) \<le> 67108864"
    and "minix_file_write ino filp buf count fs = Inr (int (unat count), ino', filp', fs')"
  shows "minix_file_read ino' (filp'\<lparr>f_pos := f_pos filp\<rparr>) count fs' = Inr (int (unat count), filp', buf)"
  by (rule write_read_bytes[OF assms])

lemma small_write_at:
  assumes i: "i_zone ino = (\<lambda>_. 0)" "S_ISREG (i_mode ino)" and f: "f_pos filp = 0" "f_flags filp AND O_APPEND = 0"
  shows "\<exists>ino' filp' fs'. minix_file_write ino filp [7, 8, 9] 3 small_fs = Inr (int (unat (3 :: u16)), ino', filp', fs')"
proof -
  have "\<not> zones_full small_fs" unfolding zones_full_def zone_used_def data_zone_def small_zbit
    by (auto simp: small_fs_def small_sb_def zone_no_def intro!: exI[of _ 2])
  then obtain z fs1 where n: "minix_new_block small_fs = Inr (z, fs1)" "fresh_zone small_fs z fs1" using new_block_cases[OF small_ok(1)] by blast
  have z: "z \<noteq> 0" "\<not> bad fs1 (unat z)" using fresh_zoneD(1,7)[OF n(2)] small_ok(3) by (auto simp: readable_def)
  have "minix_bmap ino 0 True small_fs = Inr (z, ino\<lparr>i_zone := (\<lambda>_. 0)(0 := z), i_ctime := now fs1, i_dirt := True\<rparr>, fs1)"
    using n(1) z(1) i(1) by (simp add: minix_bmap_def map_izone_def)
  moreover have "(0 :: int) smod 1024 = 0" by (simp add: smod_pos)
  ultimately obtain ino' fs' where "write_loop_blocks (Suc (Suc (Suc 0))) ino 0 0 3 [7, 8, 9] small_fs = Inr (3, 3, ino', fs')"
    using z by (simp add: Let_def)
  then have "write_loop_blocks (unat (3 :: u16)) ino 0 0 3 [7, 8, 9] small_fs = Inr (3, 3, ino', fs')"
    by (simp add: numeral_3_eq_3[symmetric] del: write_loop_blocks.simps)
  then show ?thesis using i(2) f unfolding minix_file_write_def Let_def by simp
qed

lemma small_write: "\<exists>ino' filp' fs'. minix_file_write empty_ino open_file [7, 8, 9] 3 small_fs = Inr (int (unat (3 :: u16)), ino', filp', fs')"
  by (rule small_write_at) (simp_all add: empty_facts, simp add: empty_ino_def)

theorem minix_write_read_witness:
  "\<exists>ino' filp' fs'. minix_file_write empty_ino open_file [7, 8, 9] 3 small_fs = Inr (int (unat (3 :: u16)), ino', filp', fs') \<and>
     minix_file_read ino' (filp'\<lparr>f_pos := f_pos open_file\<rparr>) 3 fs' = Inr (int (unat (3 :: u16)), filp', [7, 8, 9])"
proof -
  obtain ino' filp' fs' where w: "minix_file_write empty_ino open_file [7, 8, 9] 3 small_fs = Inr (int (unat (3 :: u16)), ino', filp', fs')"
    using small_write by blast
  have "unat (f_pos open_file) + unat (3 :: u16) \<le> 67108864" "length [7, 8, 9 :: u8] = unat (3 :: u16)" "unat (3 :: u16) < 32768"
    "unat (i_size empty_ino) \<le> 67108864"
    by (simp_all add: empty_facts)
  from minix_write_read[OF small_ok empty_facts(1,4) this w] w show ?thesis by blast
qed

end
