(* ===== verification/MinixInode.thy ===== *)
theory MinixInode
  imports MinixTruncate
begin

text \<open>
  Inodes of the Minix file system: the inode bitmap (\<^verbatim>\<open>minix_new_inode\<close>,
  \<^verbatim>\<open>minix_free_inode\<close> in \<^verbatim>\<open>fs/minix/bitmap.c\<close>), deletion of a file when its last reference
  goes (\<^verbatim>\<open>minix_put_inode\<close>), and the round
  trip of an inode through the disk. \<^verbatim>\<open>clear_inode\<close>, which \<^verbatim>\<open>minix_free_inode\<close> calls, belongs
  to the inode cache: the result says whether it was called.
\<close>

section \<open>Model\<close>

definition minix_free_inode :: "minode \<Rightarrow> minix_fs \<Rightarrow> bool \<times> minix_fs" where
  "minix_free_inode ino fs =
    (if i_dev ino = 0 then (False, fs)
     else if i_count ino \<noteq> 1 then (False, fs)
     else if i_nlink ino \<noteq> 0 then (False, fs)
     else if i_sb ino = None then (False, fs)
     else if i_ino ino < 1 then (False, fs)
     else if i_ino ino > s_ninodes (sb fs) then (False, fs)
     else case s_imap (sb fs) (unat (drop_bit 13 (i_ino ino))) of
       None \<Rightarrow> (False, fs)
     | Some bh \<Rightarrow> (True, put_blk bh (snd (clear_bit (i_ino ino AND 8191) (blk fs bh))) fs))"

text \<open>\<open>inode\<close> is what \<^verbatim>\<open>get_empty_inode\<close> returned. The result \<open>Inl\<close> is the failure: the inode
  the caller has to give back with \<^verbatim>\<open>iput\<close>.\<close>

definition minix_new_inode ::
    "minode \<Rightarrow> minode \<Rightarrow> u16 \<Rightarrow> u16 \<Rightarrow> u16 \<Rightarrow> u16 \<Rightarrow> minix_fs \<Rightarrow> (minode + minode) \<times> minix_fs" where
  "minix_new_inode inode dir s_dev s_flags euid egid fs =
    (let inode = inode\<lparr>i_sb := i_sb dir, i_flags := s_flags\<rparr> in
     case find_slot [0..<8] (s_imap (sb fs)) fs of
       None \<Rightarrow> (Inl inode, fs)
     | Some (i, bh, j) \<Rightarrow>
         let (old, d) = set_bit j (blk fs bh)
         in if old \<noteq> 0 then (Inl inode, fs\<lparr>blk := (blk fs)(bh := d)\<rparr>)
            else
              let fs = put_blk bh d fs;
                  j = j + of_nat i * 8192
              in if j = 0 \<or> j > s_ninodes (sb fs) then (Inl inode, fs)
                 else (Inr (inode\<lparr>i_nlink := 1, i_count := 1, i_dev := s_dev, i_uid := euid,
                        i_gid := (if i_mode dir AND 0x400 \<noteq> 0 then i_gid dir else ucast egid),
                        i_dirt := True, i_ino := j, i_mtime := now fs, i_atime := now fs, i_ctime := now fs, i_op := No_ops\<rparr>), fs))"

definition minix_put_inode :: "minode \<Rightarrow> (nat \<Rightarrow> bool) list \<Rightarrow> minix_fs \<Rightarrow> (bool \<times> minode \<times> minix_fs) kres" where
  "minix_put_inode ino sleeps fs =
    (if i_nlink ino = 0 then
       bindr (minix_truncate (ino\<lparr>i_size := 0\<rparr>) sleeps fs) (\<lambda>(ino, fs).
         let (cleared, fs) = minix_free_inode ino fs in Inr (cleared, ino, fs))
     else Inr (False, ino, fs))"

definition minix_write_inode :: "minode \<Rightarrow> minix_fs \<Rightarrow> minode \<times> minix_fs" where
  "minix_write_inode ino fs = minix_update_inode ino fs"

section \<open>An inode goes to the disk and comes back\<close>

lemma get16_put16_same: "get16 (put16 d a v) a = v"
proof -
  have lo: "unat (ucast v :: u8) = unat v mod 256" using unat_of_nat_u8[of "unat v"] by simp
  have hi: "unat (word_of_nat (unat v div 256) :: u8) = unat v div 256"
    using unat_of_nat_u8[of "unat v div 256"] u16_less[of v] by simp
  have "unat v mod 256 + 256 * (unat v div 256) = unat v" by simp
  with lo hi show ?thesis by (simp add: get16_def put16_def)
qed

lemma get16_put16_other: "a + 1 < b \<or> b + 1 < a \<Longrightarrow> get16 (put16 d a v) b = get16 d b"
  by (auto simp: get16_def put16_def)

lemma get16_upd_other: "a \<noteq> b \<Longrightarrow> a \<noteq> b + 1 \<Longrightarrow> get16 (d(a := x)) b = get16 d b"
  by (auto simp: get16_def)

lemma put16_byte_other: "k \<noteq> a \<Longrightarrow> k \<noteq> a + 1 \<Longrightarrow> put16 d a v k = d k"
  by (simp add: put16_def)

lemma get32_put32: "get32 (put32 d a v) a = v"
proof -
  have lo: "unat (ucast v :: u16) = unat v mod 65536" by (simp add: unsigned_ucast_eq take_bit_eq_mod)
  have hi: "unat (word_of_nat (unat v div 65536) :: u16) = unat v div 65536"
    using unsigned_less[of v, where ?'a = nat] by (simp add: less_mult_imp_div_less)
  have "unat v mod 65536 + 65536 * (unat v div 65536) = unat v" by simp
  with lo hi show ?thesis by (simp add: get32_def put32_def get16_put16_same get16_put16_other)
qed

lemma get32_put16_other: "a + 1 < b \<or> b + 3 < a \<Longrightarrow> get32 (put16 d a v) b = get32 d b"
  by (auto simp: get32_def get16_put16_other)

lemma get32_put32_other: "a + 3 < b \<or> b + 3 < a \<Longrightarrow> get32 (put32 d a v) b = get32 d b"
  by (auto simp: get32_def put32_def get16_put16_other)

lemma get16_put32_other: "a + 3 < b \<or> b + 1 < a \<Longrightarrow> get16 (put32 d a v) b = get16 d b"
  by (auto simp: put32_def get16_put16_other)

lemma get32_upd_other: "a < b \<or> b + 3 < a \<Longrightarrow> get32 (d(a := x)) b = get32 d b"
  by (auto simp: get32_def get16_upd_other)

lemmas raw_simps = get16_put16_same get16_put16_other get16_upd_other get32_put32 get32_put16_other get32_put32_other
  get16_put32_other get32_upd_other put16_byte_other

lemma zones_store: "k < 9 \<Longrightarrow> n \<le> 9 \<Longrightarrow>
  get16 (fold (\<lambda>k d. put16 d (p + 14 + 2 * k) (z k)) [0..<n] d) (p + 14 + 2 * k) = (if k < n then z k else get16 d (p + 14 + 2 * k))"
  by (induction n) (auto simp: get16_put16_same get16_put16_other less_Suc_eq linorder_neq_iff)

lemma zones_store_below: "q < p + 14 \<Longrightarrow> fold (\<lambda>k d. put16 d (p + 14 + 2 * k) (z k)) [0..<n] d q = d q"
  by (induction n) (simp_all add: put16_byte_other)

lemma get_below:
  assumes "\<And>q. q < b + 2 \<Longrightarrow> d' q = d q"
  shows "get16 d' b = get16 d b"
  using assms by (simp add: get16_def)

lemma store_load:
  fixes d p ino
  defines "e \<equiv> store_raw d p ino"
  shows "get16 e p = i_mode ino" "get16 e (p + 2) = i_uid ino" "get32 e (p + 4) = i_size ino" "get32 e (p + 8) = i_mtime ino"
    "e (p + 12) = i_gid ino" "e (p + 13) = i_nlink ino" "k < 9 \<Longrightarrow> get16 e (p + 14 + 2 * k) = i_zone ino k"
proof -
  define h where "h = (put32 (put32 (put16 (put16 d p (i_mode ino)) (p + 2) (i_uid ino)) (p + 4) (i_size ino)) (p + 8) (i_mtime ino))
    (p + 12 := i_gid ino, p + 13 := i_nlink ino)"
  have e: "e = fold (\<lambda>k d. put16 d (p + 14 + 2 * k) (i_zone ino k)) [0..<9] h"
    by (simp add: e_def store_raw_def Let_def h_def)
  have b: "e q = h q" if "q < p + 14" for q unfolding e by (rule zones_store_below[OF that])
  have "get16 h p = i_mode ino" "get16 h (p + 2) = i_uid ino" "get32 h (p + 4) = i_size ino" "get32 h (p + 8) = i_mtime ino"
    by (simp_all add: h_def raw_simps)
  then show "get16 e p = i_mode ino" "get16 e (p + 2) = i_uid ino" "get32 e (p + 4) = i_size ino" "get32 e (p + 8) = i_mtime ino"
    by (simp_all add: get16_def get32_def b)
  show "e (p + 12) = i_gid ino" "e (p + 13) = i_nlink ino" by (simp_all add: b h_def)
  show "k < 9 \<Longrightarrow> get16 e (p + 14 + 2 * k) = i_zone ino k" unfolding e by (simp add: zones_store)
qed

lemma store_dev_load:
  fixes d p ino v
  defines "e \<equiv> put16 (store_raw d p ino) (p + 14) v"
  shows "get16 e p = i_mode ino" "get16 e (p + 2) = i_uid ino" "get32 e (p + 4) = i_size ino" "get32 e (p + 8) = i_mtime ino"
    "e (p + 12) = i_gid ino" "e (p + 13) = i_nlink ino" "get16 e (p + 14) = v"
    "0 < k \<Longrightarrow> k < 9 \<Longrightarrow> get16 e (p + 14 + 2 * k) = i_zone ino k"
  using store_load[where d = d and p = p and ino = ino] unfolding e_def by (simp_all add: raw_simps)

lemma set_ops_simps [simp]:
  "i_mode (minix_set_ops ino) = i_mode ino" "i_uid (minix_set_ops ino) = i_uid ino" "i_size (minix_set_ops ino) = i_size ino"
  "i_mtime (minix_set_ops ino) = i_mtime ino" "i_gid (minix_set_ops ino) = i_gid ino" "i_nlink (minix_set_ops ino) = i_nlink ino"
  "i_zone (minix_set_ops ino) = i_zone ino" "i_rdev (minix_set_ops ino) = i_rdev ino" "i_ino (minix_set_ops ino) = i_ino ino"
  "i_dev (minix_set_ops ino) = i_dev ino" "i_count (minix_set_ops ino) = i_count ino" "i_dirt (minix_set_ops ino) = i_dirt ino"
  "i_sb (minix_set_ops ino) = i_sb ino" "i_lock (minix_set_ops ino) = i_lock ino" "i_mount (minix_set_ops ino) = i_mount ino"
  "i_next (minix_set_ops ino) = i_next ino" "i_prev (minix_set_ops ino) = i_prev ino"
  "i_atime (minix_set_ops ino) = i_atime ino" "i_ctime (minix_set_ops ino) = i_ctime ino"
  by (simp_all add: minix_set_ops_def)

text \<open>C20: An inode written to the disk by \<^verbatim>\<open>minix_write_inode\<close> and read again by
  \<^verbatim>\<open>minix_read_inode\<close> has the mode, owner, group, size, modification time, link count and
  zone numbers it had, or, for a device, the device number; and only its own block has been
  written.\<close>

theorem minix_inode_roundtrip:
  assumes "i_ino ino \<noteq> 0" "i_ino ino \<le> s_ninodes (sb fs)" and "\<not> bad fs (inode_block (i_ino ino) fs)"
    and "minix_write_inode ino fs = (ino1, fs1)" and "i_ino cell = i_ino ino" and "minix_read_inode cell fs1 = ino2"
  shows "i_mode ino2 = i_mode ino \<and> i_uid ino2 = i_uid ino \<and> i_gid ino2 = i_gid ino \<and> i_size ino2 = i_size ino \<and>
    i_mtime ino2 = i_mtime ino \<and> i_nlink ino2 = i_nlink ino \<and>
    (if S_ISCHR (i_mode ino) \<or> S_ISBLK (i_mode ino) then i_rdev ino2 = i_rdev ino
     else \<forall>k<9. i_zone ino2 k = i_zone ino k) \<and>
    i_dirt ino1 = False \<and> (\<forall>b. b \<noteq> inode_block (i_ino ino) fs \<longrightarrow> blk fs1 b = blk fs b)"
proof -
  let ?n = "i_ino ino" and ?b = "inode_block (i_ino ino) fs" and ?p = "inode_off (i_ino ino)"
  let ?dev = "S_ISCHR (i_mode ino) \<or> S_ISBLK (i_mode ino)"
  define d where "d = (if ?dev then put16 (store_raw (blk fs ?b) ?p ino) (?p + 14) (i_rdev ino) else store_raw (blk fs ?b) ?p ino)"
  have w: "ino1 = ino\<lparr>i_dirt := False\<rparr>" "fs1 = put_blk ?b d fs"
    using assms(1-4) by (auto simp: minix_write_inode_def minix_update_inode_def Let_def d_def split: if_splits)
  have b1: "inode_block ?n fs1 = ?b" "bad fs1 ?b = bad fs ?b" "blk fs1 ?b = d" "sb fs1 = sb fs" by (simp_all add: w inode_block_def)
  have g: "get16 d ?p = i_mode ino" "get16 d (?p + 2) = i_uid ino" "get32 d (?p + 4) = i_size ino" "get32 d (?p + 8) = i_mtime ino"
    "d (?p + 12) = i_gid ino" "d (?p + 13) = i_nlink ino"
    using store_load[where d = "blk fs ?b" and p = ?p and ino = ino] store_dev_load[where d = "blk fs ?b" and p = ?p and ino = ino and v = "i_rdev ino"] by (simp_all add: d_def)
  have dv: "get16 d (?p + 14) = i_rdev ino" if ?dev using that by (simp add: d_def get16_put16_same)
  have z: "get16 d (?p + 14 + 2 * k) = i_zone ino k" if "\<not> ?dev" "k < 9" for k
    using that store_load(7)[where k = k and d = "blk fs ?b" and p = ?p and ino = ino] by (simp add: d_def)
  have n: "\<not> (?n = 0 \<or> ?n > s_ninodes (sb fs))" using assms(1,2) by auto
  let ?l = "load_raw d ?p (cell\<lparr>i_op := No_ops, i_mode := 0\<rparr>)"
  let ?m = "?l\<lparr>i_atime := i_mtime ?l, i_ctime := i_mtime ?l\<rparr>"
  have mm: "i_mode ?m = i_mode ino" using g by (simp add: load_raw_def)
  have r: "ino2 = minix_set_ops (if ?dev then ?m\<lparr>i_rdev := get16 d (?p + 14)\<rparr> else ?m)"
    using assms(3,5,6) n b1 mm by (simp add: minix_read_inode_def Let_def)
  show ?thesis using g z dv unfolding r w by (auto simp: load_raw_def)
qed

theorem minix_inode_roundtrip_witness:
  "\<exists>ino1 fs1. minix_write_inode empty_ino small_fs = (ino1, fs1) \<and> i_mtime (minix_read_inode (zero_inode\<lparr>i_ino := 2\<rparr>) fs1) = 7"
proof -
  obtain ino1 fs1 where w: "minix_write_inode empty_ino small_fs = (ino1, fs1)" by fastforce
  have "i_ino empty_ino \<noteq> 0" "i_ino empty_ino \<le> s_ninodes (sb small_fs)" "\<not> bad small_fs (inode_block (i_ino empty_ino) small_fs)"
    "i_ino (zero_inode\<lparr>i_ino := 2\<rparr>) = i_ino empty_ino" "i_mtime empty_ino = 7"
    by (simp_all add: empty_ino_def small_fs_def small_sb_def)
  with minix_inode_roundtrip[OF this(1,2,3) w this(4) refl] w show ?thesis by metis
qed

end
