(* ===== verification/Icache.thy ===== *)
theory Icache
  imports MinixInode Links
begin

text \<open>
  The inode cache, \<^verbatim>\<open>fs/inode.c\<close>: the table \<^verbatim>\<open>inode_block\<close> of 96 slots, the circular list
  threaded through it, reference counts, and the calls into the file system through its
  \<^verbatim>\<open>super_operations\<close>, which are a record of functions here as they are a struct of
  pointers there. The interface to the file systems is the locale \<open>super_ops\<close>, interpreted
  on the Minix operations. Nobody else runs in between: an inode found locked, or a table
  found full, is a process that does not wake up again (\<open>Asleep\<close>).
\<close>

section \<open>State\<close>

record 'f super_operations =
  so_read_inode :: "minode \<Rightarrow> 'f \<Rightarrow> minode"
  so_write_inode :: "minode \<Rightarrow> 'f \<Rightarrow> minode \<times> 'f"
  so_put_inode :: "minode \<Rightarrow> 'f \<Rightarrow> (bool \<times> minode \<times> 'f) kres"

record 'f super_block =
  s_dev :: u16
  s_flags :: u16
  s_covered :: "nat option"
  s_mounted :: "nat option"
  s_fs :: 'f

record 'f vfs =
  islot :: "nat \<Rightarrow> minode"
  first_inode :: "nat option"
  nr_free_inodes :: int
  last_ino :: u16
  supers :: "nat \<Rightarrow> 'f super_block"

abbreviation NR_INODE :: nat where "NR_INODE \<equiv> 96"

definition upd :: "nat \<Rightarrow> (minode \<Rightarrow> minode) \<Rightarrow> 'f vfs \<Rightarrow> 'f vfs" where
  "upd i f v = v\<lparr>islot := (islot v)(i := f (islot v i))\<rparr>"

definition set_fs :: "nat \<Rightarrow> 'f \<Rightarrow> 'f vfs \<Rightarrow> 'f vfs" where
  "set_fs s f v = v\<lparr>supers := (supers v)(s := (supers v s)\<lparr>s_fs := f\<rparr>)\<rparr>"

section \<open>The list\<close>

definition insert_inode_free :: "nat \<Rightarrow> 'f vfs \<Rightarrow> 'f vfs kres" where
  "insert_inode_free i v =
    (case first_inode v of
       None \<Rightarrow> Inl NullDeref
     | Some f \<Rightarrow>
         let v = upd i (\<lambda>n. n\<lparr>i_next := Some f, i_prev := i_prev (islot v f)\<rparr>) v;
             v = upd f (\<lambda>n. n\<lparr>i_prev := Some i\<rparr>) v
         in case i_prev (islot v i) of
              None \<Rightarrow> Inl NullDeref
            | Some p \<Rightarrow> Inr ((upd p (\<lambda>n. n\<lparr>i_next := Some i\<rparr>) v)\<lparr>first_inode := Some i\<rparr>))"

definition remove_inode_free :: "nat \<Rightarrow> 'f vfs \<Rightarrow> 'f vfs" where
  "remove_inode_free i v =
    (let v = (if first_inode v = Some i then v\<lparr>first_inode := i_next (islot v i)\<rparr> else v);
         v = (case i_next (islot v i) of None \<Rightarrow> v | Some n \<Rightarrow> upd n (\<lambda>x. x\<lparr>i_prev := i_prev (islot v i)\<rparr>) v);
         v = (case i_prev (islot v i) of None \<Rightarrow> v | Some p \<Rightarrow> upd p (\<lambda>x. x\<lparr>i_next := i_next (islot v i)\<rparr>) v)
     in upd i (\<lambda>x. x\<lparr>i_next := None, i_prev := None\<rparr>) v)"

definition put_last_free :: "nat \<Rightarrow> 'f vfs \<Rightarrow> 'f vfs kres" where
  "put_last_free i v =
    (let v = remove_inode_free i v in
     case first_inode v of
       None \<Rightarrow> Inl NullDeref
     | Some f \<Rightarrow>
         let v = upd i (\<lambda>n. n\<lparr>i_prev := i_prev (islot v f)\<rparr>) v
         in case i_prev (islot v i) of
              None \<Rightarrow> Inl NullDeref
            | Some p \<Rightarrow>
                let v = upd p (\<lambda>n. n\<lparr>i_next := Some i\<rparr>) v;
                    v = upd i (\<lambda>n. n\<lparr>i_next := Some f\<rparr>) v
                in Inr (upd f (\<lambda>n. n\<lparr>i_prev := Some i\<rparr>) v))"

section \<open>Operations\<close>

definition wait_on_inode :: "nat \<Rightarrow> 'f vfs \<Rightarrow> 'f vfs kres" where
  "wait_on_inode i v = (if i_lock (islot v i) then Inl Asleep else Inr v)"

definition lock_inode :: "nat \<Rightarrow> 'f vfs \<Rightarrow> 'f vfs kres" where
  "lock_inode i v = bindr (wait_on_inode i v) (\<lambda>v. Inr (upd i (\<lambda>n. n\<lparr>i_lock := True\<rparr>) v))"

definition unlock_inode :: "nat \<Rightarrow> 'f vfs \<Rightarrow> 'f vfs" where
  "unlock_inode i v = upd i (\<lambda>n. n\<lparr>i_lock := False\<rparr>) v"

definition clear_inode :: "nat \<Rightarrow> 'f vfs \<Rightarrow> 'f vfs kres" where
  "clear_inode i v =
    bindr (wait_on_inode i v) (\<lambda>v.
      let v = remove_inode_free i v;
          v = (if i_count (islot v i) \<noteq> 0 then v\<lparr>nr_free_inodes := nr_free_inodes v + 1\<rparr> else v);
          v = upd i (\<lambda>_. zero_inode) v
      in insert_inode_free i v)"

definition write_inode :: "'f super_operations \<Rightarrow> nat \<Rightarrow> 'f vfs \<Rightarrow> 'f vfs kres" where
  "write_inode sop i v =
    (if \<not> i_dirt (islot v i) then Inr v
     else bindr (wait_on_inode i v) (\<lambda>v.
       if \<not> i_dirt (islot v i) then Inr v
       else case i_sb (islot v i) of
         None \<Rightarrow> Inr (upd i (\<lambda>n. n\<lparr>i_dirt := False\<rparr>) v)
       | Some s \<Rightarrow>
           let v = upd i (\<lambda>n. n\<lparr>i_lock := True\<rparr>) v;
               (n, f) = so_write_inode sop (islot v i) (s_fs (supers v s))
           in Inr (unlock_inode i (set_fs s f (upd i (\<lambda>_. n) v)))))"

definition read_inode :: "'f super_operations \<Rightarrow> nat \<Rightarrow> 'f vfs \<Rightarrow> 'f vfs kres" where
  "read_inode sop i v =
    (case i_sb (islot v i) of
       None \<Rightarrow> Inl NullDeref
     | Some s \<Rightarrow> bindr (lock_inode i v) (\<lambda>v.
         Inr (unlock_inode i (upd i (\<lambda>n. so_read_inode sop n (s_fs (supers v s))) v))))"

text \<open>The loop of \<^verbatim>\<open>iput\<close> goes round again after each time it had to write the inode; one
  write leaves the inode clean, so two rounds are enough (\<open>iput_total\<close> below).\<close>

primrec iput_loop :: "'f super_operations \<Rightarrow> nat \<Rightarrow> nat \<Rightarrow> 'f vfs \<Rightarrow> 'f vfs kres" where
  "iput_loop sop 0 i v = Inl Stuck"
| "iput_loop sop (Suc n) i v =
    (if 1 < i_count (islot v i) then Inr (upd i (\<lambda>x. x\<lparr>i_count := i_count x - 1\<rparr>) v)
     else
       bindr (case i_sb (islot v i) of
                None \<Rightarrow> Inr (False, v)
              | Some s \<Rightarrow>
                  bindr (so_put_inode sop (islot v i) (s_fs (supers v s))) (\<lambda>(cleared, x, f).
                    let v = set_fs s f (upd i (\<lambda>_. x) v)
                    in bindr (if cleared then clear_inode i v else Inr v) (\<lambda>v. Inr (i_nlink (islot v i) = 0, v))))
         (\<lambda>(gone, v).
           if gone then Inr v
           else if i_dirt (islot v i) then
             bindr (write_inode sop i v) (\<lambda>v. bindr (wait_on_inode i v) (iput_loop sop n i))
           else Inr ((upd i (\<lambda>x. x\<lparr>i_count := i_count x - 1\<rparr>) v)\<lparr>nr_free_inodes := nr_free_inodes v + 1\<rparr>)))"

definition iput :: "'f super_operations \<Rightarrow> nat option \<Rightarrow> 'f vfs \<Rightarrow> 'f vfs kres" where
  "iput sop p v =
    (case p of
       None \<Rightarrow> Inr v
     | Some i \<Rightarrow> bindr (wait_on_inode i v) (\<lambda>v.
         if i_count (islot v i) = 0 then Inr v else iput_loop sop 2 i v))"

definition unused :: "minode \<Rightarrow> bool" where
  "unused n \<longleftrightarrow> i_count n = 0 \<and> \<not> i_lock n \<and> \<not> i_dirt n"

definition get_empty_inode :: "'f vfs \<Rightarrow> (nat \<times> 'f vfs) kres" where
  "get_empty_inode v =
    (case find (\<lambda>i. unused (islot v i)) [0..<NR_INODE] of
       None \<Rightarrow> Inl Asleep
     | Some i \<Rightarrow>
         bindr (clear_inode i v) (\<lambda>v.
           let v = upd i (\<lambda>n. n\<lparr>i_count := 1, i_nlink := 1\<rparr>) v;
               v = v\<lparr>last_ino := last_ino v + 1\<rparr>;
               v = upd i (\<lambda>n. n\<lparr>i_ino := last_ino v, i_dev := 0\<rparr>) v;
               free = nr_free_inodes v - 1
           in Inr (i, v\<lparr>nr_free_inodes := if free < 0 then 0 else free\<rparr>)))"

definition icache_find :: "u16 \<Rightarrow> u16 \<Rightarrow> 'f vfs \<Rightarrow> nat option" where
  "icache_find dev inr v = find (\<lambda>i. i_dev (islot v i) = dev \<and> i_ino (islot v i) = inr) [0..<NR_INODE]"

definition iget_found :: "'f super_operations \<Rightarrow> nat \<Rightarrow> nat option \<Rightarrow> 'f vfs \<Rightarrow> (nat \<times> 'f vfs) kres" where
  "iget_found sop i spare v =
    (let v = (if i_count (islot v i) = 0 then v\<lparr>nr_free_inodes := nr_free_inodes v - 1\<rparr> else v);
         v = upd i (\<lambda>n. n\<lparr>i_count := i_count n + 1\<rparr>) v
     in bindr (wait_on_inode i v) (\<lambda>v.
          bindr (case i_mount (islot v i) of
                   None \<Rightarrow> Inr (i, v)
                 | Some t \<Rightarrow>
                     bindr (iput sop (Some i) (upd t (\<lambda>n. n\<lparr>i_count := i_count n + 1\<rparr>) v)) (\<lambda>v.
                       bindr (wait_on_inode t v) (\<lambda>v. Inr (t, v))))
            (\<lambda>(r, v). bindr (iput sop spare v) (\<lambda>v. Inr (r, v)))))"

definition iget :: "'f super_operations \<Rightarrow> nat \<Rightarrow> u16 \<Rightarrow> 'f vfs \<Rightarrow> (nat \<times> 'f vfs) kres" where
  "iget sop s inr v =
    (case icache_find (s_dev (supers v s)) inr v of
       Some i \<Rightarrow> iget_found sop i None v
     | None \<Rightarrow>
         bindr (get_empty_inode v) (\<lambda>(e, v).
           case icache_find (s_dev (supers v s)) inr v of
             Some i \<Rightarrow> iget_found sop i (Some e) v
           | None \<Rightarrow>
               let v = upd e (\<lambda>n. n\<lparr>i_sb := Some s, i_dev := s_dev (supers v s), i_ino := inr, i_flags := s_flags (supers v s)\<rparr>) v
               in bindr (put_last_free e v) (\<lambda>v. bindr (read_inode sop e v) (\<lambda>v. Inr (e, v)))))"

section \<open>Walks over the list\<close>

primrec may_mount_loop :: "nat \<Rightarrow> u16 \<Rightarrow> nat option \<Rightarrow> 'f vfs \<Rightarrow> (bool \<times> 'f vfs) kres" where
  "may_mount_loop 0 dev p v = Inr (True, v)"
| "may_mount_loop (Suc k) dev p v =
    (case p of
       None \<Rightarrow> Inl NullDeref
     | Some i \<Rightarrow>
         let n = islot v i
         in if i_dev n \<noteq> dev then may_mount_loop k dev (i_next n) v
            else if i_count n \<noteq> 0 \<or> i_dirt n \<or> i_lock n then Inr (False, v)
            else bindr (clear_inode i v) (may_mount_loop k dev (i_next n)))"

definition fs_may_mount :: "u16 \<Rightarrow> 'f vfs \<Rightarrow> (bool \<times> 'f vfs) kres" where
  "fs_may_mount dev v = may_mount_loop NR_INODE dev (first_inode v) v"

primrec may_umount_loop :: "nat \<Rightarrow> u16 \<Rightarrow> nat \<Rightarrow> nat option \<Rightarrow> 'f vfs \<Rightarrow> bool kres" where
  "may_umount_loop 0 dev rooti p v = Inr True"
| "may_umount_loop (Suc k) dev rooti p v =
    (case p of
       None \<Rightarrow> Inl NullDeref
     | Some i \<Rightarrow>
         let n = islot v i
         in if i_dev n \<noteq> dev \<or> i_count n = 0 then may_umount_loop k dev rooti (i_next n) v
            else if i = rooti \<and> i_count n = 1 then may_umount_loop k dev rooti (i_next n) v
            else Inr False)"

definition fs_may_umount :: "u16 \<Rightarrow> nat \<Rightarrow> 'f vfs \<Rightarrow> bool kres" where
  "fs_may_umount dev rooti v = may_umount_loop NR_INODE dev rooti (first_inode v) v"

primrec invalidate_loop :: "nat \<Rightarrow> u16 \<Rightarrow> nat option \<Rightarrow> 'f vfs \<Rightarrow> 'f vfs kres" where
  "invalidate_loop 0 dev p v = Inr v"
| "invalidate_loop (Suc k) dev p v =
    (case p of
       None \<Rightarrow> Inl NullDeref
     | Some i \<Rightarrow>
         let n = islot v i
         in if i_dev n \<noteq> dev \<or> i_count n \<noteq> 0 \<or> i_dirt n \<or> i_lock n then invalidate_loop k dev (i_next n) v
            else bindr (clear_inode i v) (invalidate_loop k dev (i_next n)))"

definition invalidate_inodes :: "u16 \<Rightarrow> 'f vfs \<Rightarrow> 'f vfs kres" where
  "invalidate_inodes dev v = invalidate_loop NR_INODE dev (first_inode v) v"

primrec sync_inodes_loop :: "'f super_operations \<Rightarrow> nat \<Rightarrow> u16 \<Rightarrow> nat option \<Rightarrow> 'f vfs \<Rightarrow> 'f vfs kres" where
  "sync_inodes_loop sop 0 dev p v = Inr v"
| "sync_inodes_loop sop (Suc k) dev p v =
    (case p of
       None \<Rightarrow> Inl NullDeref
     | Some i \<Rightarrow>
         if dev \<noteq> 0 \<and> i_dev (islot v i) \<noteq> dev then sync_inodes_loop sop k dev (i_next (islot v i)) v
         else bindr (wait_on_inode i v) (\<lambda>v. bindr (if i_dirt (islot v i) then write_inode sop i v else Inr v)
                (\<lambda>v. sync_inodes_loop sop k dev (i_next (islot v i)) v)))"

definition sync_inodes :: "'f super_operations \<Rightarrow> u16 \<Rightarrow> 'f vfs \<Rightarrow> 'f vfs kres" where
  "sync_inodes sop dev v = sync_inodes_loop sop (NR_INODE * 2) dev (first_inode v) v"

section \<open>The Minix operations\<close>

definition minix_sops :: "minix_fs super_operations" where
  "minix_sops = \<lparr>so_read_inode = minix_read_inode, so_write_inode = minix_write_inode,
     so_put_inode = (\<lambda>ino fs. minix_put_inode ino [] fs)\<rparr>"

section \<open>The list stays a circle\<close>

abbreviation nxt :: "'f vfs \<Rightarrow> nat \<Rightarrow> nat option" where "nxt v \<equiv> \<lambda>i. i_next (islot v i)"
abbreviation prv :: "'f vfs \<Rightarrow> nat \<Rightarrow> nat option" where "prv v \<equiv> \<lambda>i. i_prev (islot v i)"

definition ring_on :: "nat set \<Rightarrow> 'f vfs \<Rightarrow> bool" where
  "ring_on A v \<longleftrightarrow> (\<exists>a xs. first_inode v = Some a \<and> distinct (a # xs) \<and> set (a # xs) = A \<and> dseg (nxt v) (prv v) a xs (Some a))"

text \<open>What an inode is apart from its place in the list.\<close>

definition body :: "minode \<Rightarrow> minode" where
  "body n = n\<lparr>i_next := None, i_prev := None\<rparr>"

lemma body_eqD:
  assumes "body m = body n"
  shows "i_mode m = i_mode n" "i_uid m = i_uid n" "i_size m = i_size n" "i_nlink m = i_nlink n" "i_zone m = i_zone n" "i_ino m = i_ino n"
    "i_dev m = i_dev n" "i_count m = i_count n" "i_dirt m = i_dirt n" "i_sb m = i_sb n" "i_lock m = i_lock n" "i_mount m = i_mount n"
  using assms by (cases m; cases n; simp add: body_def)+

lemma body_idem [simp]: "body (body n) = body n" "body (n\<lparr>i_next := x\<rparr>) = body n" "body (n\<lparr>i_prev := x\<rparr>) = body n" "body zero_inode = zero_inode"
  by (simp_all add: body_def zero_inode_def)

lemma zero_inode_simps [simp]:
  "i_lock zero_inode = False" "i_dev zero_inode = 0" "i_ino zero_inode = 0" "i_count zero_inode = 0" "i_dirt zero_inode = False"
  "i_nlink zero_inode = 0" "i_sb zero_inode = None" "i_mount zero_inode = None"
  by (simp_all add: zero_inode_def)

lemma iupd_simps [simp]:
  "islot (upd i f v) = (islot v)(i := f (islot v i))" "first_inode (upd i f v) = first_inode v"
  "nr_free_inodes (upd i f v) = nr_free_inodes v" "last_ino (upd i f v) = last_ino v" "supers (upd i f v) = supers v"
  by (simp_all add: upd_def)

lemma set_fs_simps [simp]:
  "islot (set_fs s f v) = islot v" "first_inode (set_fs s f v) = first_inode v" "nr_free_inodes (set_fs s f v) = nr_free_inodes v"
  "last_ino (set_fs s f v) = last_ino v" "s_dev (supers (set_fs s f v) t) = s_dev (supers v t)"
  by (simp_all add: set_fs_def)

lemma ring_cong:
  assumes "ring_on A v" and "first_inode v' = first_inode v" and "\<And>i. i_next (islot v' i) = i_next (islot v i)" "\<And>i. i_prev (islot v' i) = i_prev (islot v i)"
  shows "ring_on A v'"
  using assms unfolding ring_on_def by simp

lemma ring_from:
  assumes "dseg n p a xs (Some a)" "distinct (a # xs)" "i \<in> set (a # xs)"
  shows "\<exists>zs. dseg n p i zs (Some i) \<and> distinct (i # zs) \<and> set (i # zs) = set (a # xs)"
proof (cases "i = a")
  case False
  then obtain us ws where xs: "xs = us @ i # ws" using assms(3) by (auto simp: in_set_conv_decomp)
  then have "dseg n p a us (Some i)" "dseg n p i ws (Some a)" using assms(1) by (auto simp: dseg_append)
  then have "dseg n p i (ws @ a # us) (Some i)" by (simp add: dseg_append)
  then show ?thesis using assms(2) xs by (intro exI[of _ "ws @ a # us"]) auto
qed (use assms in auto)

lemma remove_ring:
  assumes "ring_on A v" and "i \<in> A" and "A \<noteq> {i}"
  shows "ring_on (A - {i}) (remove_inode_free i v)"
    and "body (islot (remove_inode_free i v) j) = body (islot v j)"
    and "nr_free_inodes (remove_inode_free i v) = nr_free_inodes v" "last_ino (remove_inode_free i v) = last_ino v"
      "supers (remove_inode_free i v) = supers v"
proof -
  obtain a xs where r: "first_inode v = Some a" "distinct (a # xs)" "set (a # xs) = A" "dseg (nxt v) (prv v) a xs (Some a)"
    using assms(1) by (auto simp: ring_on_def)
  obtain zs where z: "dseg (nxt v) (prv v) i zs (Some i)" "distinct (i # zs)" "set (i # zs) = A"
    using ring_from[OF r(4,2)] r(3) assms(2) by auto
  then obtain y ws where zs: "zs = y # ws" using assms(3) by (cases zs) auto
  let ?l = "last (y # ws)"
  have n: "nxt v i = Some y" "prv v i = Some ?l" "dseg (nxt v) (prv v) y ws (Some i)"
    using z(1) dseg_last[OF z(1)] zs by auto
  have yl: "y \<noteq> i" "?l \<noteq> i" using z(2) zs last_in_set[of "y # ws"] by auto
  let ?v = "remove_inode_free i v"
  let ?a = "if a = i then y else a"
  have sl: "islot ?v = (islot v)(y := (islot v y)\<lparr>i_prev := Some ?l\<rparr>, ?l := (((islot v)(y := (islot v y)\<lparr>i_prev := Some ?l\<rparr>)) ?l)\<lparr>i_next := Some y\<rparr>,
      i := (islot v i)\<lparr>i_next := None, i_prev := None\<rparr>)" and fi: "first_inode ?v = Some ?a"
    and rest: "nr_free_inodes ?v = nr_free_inodes v" "last_ino ?v = last_ino v" "supers ?v = supers v"
    using n yl r(1) by (auto simp: remove_inode_free_def Let_def)
  show "nr_free_inodes ?v = nr_free_inodes v" "last_ino ?v = last_ino v" "supers ?v = supers v" by (rule rest)+
  show "body (islot ?v j) = body (islot v j)" unfolding sl by (auto simp: body_def)
  have nx: "nxt ?v = (nxt v)(?l := Some y, i := None)" unfolding sl by (auto simp: fun_eq_iff)
  have pr: "prv ?v = (prv v)(y := Some ?l, i := None)" unfolding sl using yl by (auto simp: fun_eq_iff)
  have "dseg ((nxt v)(?l := Some y)) ((prv v)(y := Some ?l)) y ws (Some y)"
    using dseg_retarget[OF n(3), of y] z(2) zs by simp
  then have d: "dseg (nxt ?v) (prv ?v) y ws (Some y)" unfolding nx pr using z(2) zs by simp
  have dis: "distinct (y # ws)" and st: "set (y # ws) = A - {i}" using z(2,3) zs by auto
  have "?a \<in> set (y # ws)" using st r(3) assms(2) by auto
  from ring_from[OF d dis this] st fi show "ring_on (A - {i}) ?v" by (auto simp: ring_on_def)
qed

lemma insert_ring:
  assumes "ring_on A v" and "i \<notin> A"
  shows "\<exists>v'. insert_inode_free i v = Inr v' \<and> ring_on (insert i A) v' \<and> (\<forall>j. body (islot v' j) = body (islot v j)) \<and>
    nr_free_inodes v' = nr_free_inodes v \<and> last_ino v' = last_ino v \<and> supers v' = supers v"
proof -
  obtain f xs where r: "first_inode v = Some f" "distinct (f # xs)" "set (f # xs) = A" "dseg (nxt v) (prv v) f xs (Some f)"
    using assms(1) by (auto simp: ring_on_def)
  let ?l = "last (f # xs)"
  have p: "prv v f = Some ?l" by (rule dseg_last[OF r(4)])
  have ne: "f \<noteq> i" "?l \<noteq> i" "i \<notin> set (f # xs)" using r(3) assms(2) last_in_set[of "f # xs"] by auto
  define sl where "sl = (islot v)(i := (islot v i)\<lparr>i_next := Some f, i_prev := Some ?l\<rparr>, f := (islot v f)\<lparr>i_prev := Some i\<rparr>)"
  define v' where "v' = v\<lparr>islot := sl(?l := (sl ?l)\<lparr>i_next := Some i\<rparr>), first_inode := Some i\<rparr>"
  have ev: "insert_inode_free i v = Inr v'"
    using r(1) p ne by (auto simp: insert_inode_free_def Let_def v'_def sl_def upd_def)
  have nx: "nxt v' = (nxt v)(?l := Some i, i := Some f)" using ne by (auto simp: v'_def sl_def fun_eq_iff)
  have pr: "prv v' = (prv v)(i := Some ?l, f := Some i)" using ne by (auto simp: v'_def sl_def fun_eq_iff)
  have "dseg ((nxt v)(?l := Some i)) ((prv v)(i := Some ?l)) f xs (Some i)"
    using dseg_retarget[OF r(4), of i] r(2) ne(3) by simp
  then have "dseg (nxt v') (prv v') f xs (Some i)" unfolding nx pr using ne r(2) by simp
  moreover have "nxt v' i = Some f" "prv v' f = Some i" using fun_cong[OF nx, of i] fun_cong[OF pr, of f] by simp_all
  ultimately have "dseg (nxt v') (prv v') i (f # xs) (Some i)" by simp
  then have "ring_on (insert i A) v'" using r(2,3) ne(3) unfolding ring_on_def
    by (intro exI[of _ i] exI[of _ "f # xs"]) (simp add: v'_def)
  moreover have "body (islot v' j) = body (islot v j)" for j by (auto simp: v'_def sl_def body_def)
  ultimately show ?thesis using ev by (simp add: v'_def)
qed

lemma put_last_ring:
  assumes "ring_on A v" and "i \<in> A" and "A \<noteq> {i}"
  shows "\<exists>v'. put_last_free i v = Inr v' \<and> ring_on A v' \<and> (\<forall>j. body (islot v' j) = body (islot v j)) \<and>
    nr_free_inodes v' = nr_free_inodes v \<and> last_ino v' = last_ino v \<and> supers v' = supers v"
proof -
  let ?w = "remove_inode_free i v"
  note rm = remove_ring[OF assms]
  obtain f xs where r: "first_inode ?w = Some f" "distinct (f # xs)" "set (f # xs) = A - {i}" "dseg (nxt ?w) (prv ?w) f xs (Some f)"
    using rm(1) by (auto simp: ring_on_def)
  let ?l = "last (f # xs)"
  have p: "prv ?w f = Some ?l" by (rule dseg_last[OF r(4)])
  have ne: "f \<noteq> i" "?l \<noteq> i" "i \<notin> set (f # xs)" using r(3) last_in_set[of "f # xs"] by auto
  define sl where "sl = (islot ?w)(i := (islot ?w i)\<lparr>i_prev := Some ?l\<rparr>)"
  define v' where "v' = upd f (\<lambda>n. n\<lparr>i_prev := Some i\<rparr>) (upd i (\<lambda>n. n\<lparr>i_next := Some f\<rparr>) (upd ?l (\<lambda>n. n\<lparr>i_next := Some i\<rparr>) (?w\<lparr>islot := sl\<rparr>)))"
  have ev: "put_last_free i v = Inr v'"
    using r(1) p ne by (auto simp: put_last_free_def Let_def v'_def sl_def upd_def)
  have nx: "nxt v' = (nxt ?w)(?l := Some i, i := Some f)" using ne by (auto simp: v'_def sl_def fun_eq_iff)
  have pr: "prv v' = (prv ?w)(i := Some ?l, f := Some i)" using ne by (auto simp: v'_def sl_def fun_eq_iff)
  have "dseg ((nxt ?w)(?l := Some i)) ((prv ?w)(i := Some ?l)) f xs (Some i)"
    using dseg_retarget[OF r(4), of i] r(2) ne(3) by simp
  then have "dseg (nxt v') (prv v') f xs (Some i)" unfolding nx pr using ne r(2) by simp
  moreover have "nxt v' i = Some f" "prv v' f = Some i" using fun_cong[OF nx, of i] fun_cong[OF pr, of f] by simp_all
  ultimately have "dseg (nxt v') (prv v') f (xs @ [i]) (Some f)" by (simp add: dseg_append)
  moreover have "set (f # xs @ [i]) = A" using r(3) assms(2) by auto
  moreover have "first_inode v' = Some f" using r(1) by (simp add: v'_def)
  ultimately have "ring_on A v'" using r(2) ne(3) unfolding ring_on_def
    by (intro exI[of _ f] exI[of _ "xs @ [i]"]) simp
  moreover have "body (islot v' j) = body (islot v j)" for j
    using rm(2)[of j] rm(2)[of i] by (auto simp: v'_def sl_def)
  ultimately show ?thesis using ev rm(3-5) by (simp add: v'_def)
qed

section \<open>The invariant of the cache\<close>

definition icache_ok :: "'f vfs \<Rightarrow> bool" where
  "icache_ok v \<longleftrightarrow> ring_on {..<NR_INODE} v \<and> (\<forall>i. \<not> i_lock (islot v i)) \<and>
    (\<forall>i<NR_INODE. \<forall>j<NR_INODE. i_dev (islot v i) \<noteq> 0 \<and> i_dev (islot v j) = i_dev (islot v i) \<and> i_ino (islot v j) = i_ino (islot v i) \<longrightarrow> i = j)"

lemma icache_okD:
  assumes "icache_ok v"
  shows "ring_on {..<NR_INODE} v" "i_lock (islot v i) = False"
    "i < NR_INODE \<Longrightarrow> j < NR_INODE \<Longrightarrow> i_dev (islot v i) \<noteq> 0 \<Longrightarrow> i_dev (islot v j) = i_dev (islot v i) \<Longrightarrow>
      i_ino (islot v j) = i_ino (islot v i) \<Longrightarrow> i = j"
  using assms unfolding icache_ok_def by blast+

lemma ring_upd: "ring_on A v \<Longrightarrow> i_next (f (islot v i)) = i_next (islot v i) \<Longrightarrow> i_prev (f (islot v i)) = i_prev (islot v i) \<Longrightarrow> ring_on A (upd i f v)"
  by (erule ring_cong) auto

lemma not_single: "{..<NR_INODE} \<noteq> {i}"
proof
  assume "{..<NR_INODE} = {i}"
  then have "card {..<NR_INODE} = 1" by simp
  then show False by simp
qed

lemma clear_inode_spec:
  assumes ok: "icache_ok v" and i: "i < NR_INODE"
  shows "\<exists>v'. clear_inode i v = Inr v' \<and> icache_ok v' \<and> body (islot v' i) = zero_inode \<and> (\<forall>j. j \<noteq> i \<longrightarrow> body (islot v' j) = body (islot v j)) \<and>
    nr_free_inodes v' = nr_free_inodes v + (if i_count (islot v i) \<noteq> 0 then 1 else 0) \<and> last_ino v' = last_ino v \<and> supers v' = supers v"
proof -
  let ?w = "remove_inode_free i v"
  note rm = remove_ring[OF icache_okD(1)[OF ok] _ not_single, of i]
  have w: "ring_on ({..<NR_INODE} - {i}) ?w" using rm(1) i by simp
  let ?x = "upd i (\<lambda>_. zero_inode) (if i_count (islot ?w i) \<noteq> 0 then ?w\<lparr>nr_free_inodes := nr_free_inodes ?w + 1\<rparr> else ?w)"
  have "ring_on ({..<NR_INODE} - {i}) ?x"
  proof -
    obtain a xs where r: "first_inode ?w = Some a" "distinct (a # xs)" "set (a # xs) = {..<NR_INODE} - {i}" "dseg (nxt ?w) (prv ?w) a xs (Some a)"
      using w by (auto simp: ring_on_def)
    have "dseg (nxt ?x) (prv ?x) a xs (Some a) = dseg (nxt ?w) (prv ?w) a xs (Some a)"
      using r(3) by (intro dseg_cong) auto
    then show ?thesis using r unfolding ring_on_def by (intro exI[of _ a] exI[of _ xs]) auto
  qed
  from insert_ring[OF this, of i] obtain v' where v': "insert_inode_free i ?x = Inr v'" "ring_on {..<NR_INODE} v'"
      "\<forall>j. body (islot v' j) = body (islot ?x j)" "nr_free_inodes v' = nr_free_inodes ?x" "last_ino v' = last_ino ?x" "supers v' = supers ?x"
    using i by (auto simp: insert_absorb)
  have b: "body (islot v' j) = body (if j = i then zero_inode else islot v j)" for j
    using v'(3) rm(2)[of j] i by simp
  have "i_count (islot ?w i) = i_count (islot v i)" using body_eqD(8)[OF rm(2)[of i]] i by simp
  moreover have ev: "clear_inode i v = Inr v'"
    using icache_okD(2)[OF ok, of i] v'(1) by (simp add: clear_inode_def wait_on_inode_def Let_def)
  moreover have "icache_ok v'"
    unfolding icache_ok_def
  proof (intro conjI allI impI)
    show "\<not> i_lock (islot v' j)" for j
      using body_eqD(11)[OF b[of j]] icache_okD(2)[OF ok, of j] by simp
    fix j k
    assume a: "j < NR_INODE" "k < NR_INODE"
      "i_dev (islot v' j) \<noteq> 0 \<and> i_dev (islot v' k) = i_dev (islot v' j) \<and> i_ino (islot v' k) = i_ino (islot v' j)"
    have d: "i_dev (islot v' m) = (if m = i then 0 else i_dev (islot v m))" "i_ino (islot v' m) = (if m = i then 0 else i_ino (islot v m))" for m
      using body_eqD(6,7)[OF b[of m]] by simp_all
    show "j = k" using a icache_okD(3)[OF ok, of j k] by (auto simp: d split: if_splits)
  qed (rule v'(2))
  ultimately show ?thesis using b v'(4-6) rm(3-5) i by auto
qed

lemma icache_ok_cong:
  assumes "icache_ok v" and "ring_on {..<NR_INODE} v'" and "\<And>j. i_lock (islot v' j) = i_lock (islot v j)"
    and "\<And>j. j < NR_INODE \<Longrightarrow> i_dev (islot v' j) = i_dev (islot v j)" "\<And>j. j < NR_INODE \<Longrightarrow> i_ino (islot v' j) = i_ino (islot v j)"
  shows "icache_ok v'"
  using assms icache_okD[OF assms(1)] unfolding icache_ok_def by (metis (no_types, lifting))

lemma icache_ok_upd:
  assumes "icache_ok v" and "i_next (f (islot v i)) = i_next (islot v i)" "i_prev (f (islot v i)) = i_prev (islot v i)"
    "i_lock (f (islot v i)) = i_lock (islot v i)" "i_dev (f (islot v i)) = i_dev (islot v i)" "i_ino (f (islot v i)) = i_ino (islot v i)"
  shows "icache_ok (upd i f v)"
  by (rule icache_ok_cong[OF assms(1)]) (use assms ring_upd[OF icache_okD(1)[OF assms(1)]] in auto)

lemma icache_ok_free [simp]: "icache_ok (v\<lparr>nr_free_inodes := x\<rparr>) = icache_ok v" "icache_ok (v\<lparr>last_ino := y\<rparr>) = icache_ok v"
    "icache_ok (set_fs s f v) = icache_ok v"
  by (simp_all add: icache_ok_def ring_on_def)

lemma get_empty_spec:
  assumes ok: "icache_ok v" and f: "find (\<lambda>i. unused (islot v i)) [0..<NR_INODE] = Some i"
  shows "\<exists>v'. get_empty_inode v = Inr (i, v') \<and> i < NR_INODE \<and> icache_ok v' \<and> i_count (islot v' i) = 1 \<and> i_nlink (islot v' i) = 1 \<and>
    i_dev (islot v' i) = 0 \<and> i_sb (islot v' i) = None \<and> \<not> i_dirt (islot v' i) \<and> i_mount (islot v' i) = None \<and>
    (\<forall>j. j \<noteq> i \<longrightarrow> body (islot v' j) = body (islot v j)) \<and> supers v' = supers v"
proof -
  have i: "i < NR_INODE" using f by (auto simp: find_Some_iff)
  obtain v1 where c: "clear_inode i v = Inr v1" "icache_ok v1" "body (islot v1 i) = zero_inode" "\<forall>j. j \<noteq> i \<longrightarrow> body (islot v1 j) = body (islot v j)"
      "last_ino v1 = last_ino v" "supers v1 = supers v"
    using clear_inode_spec[OF ok i] by blast
  note z = body_eqD[of "islot v1 i" zero_inode, simplified, OF c(3)]
  define v2 where "v2 = upd i (\<lambda>n. n\<lparr>i_count := 1, i_nlink := 1, i_ino := last_ino v1 + 1, i_dev := 0\<rparr>) (v1\<lparr>last_ino := last_ino v1 + 1\<rparr>)"
  have ok2: "icache_ok v2"
  proof -
    have "ring_on {..<NR_INODE} v2"
      unfolding v2_def by (rule ring_cong[OF icache_okD(1)[OF c(2)]]) auto
    moreover have "i_dev (islot v2 j) = i_dev (islot v1 j)" "i_lock (islot v2 j) = i_lock (islot v1 j)" "j \<noteq> i \<Longrightarrow> islot v2 j = islot v1 j" for j
      using z by (auto simp: v2_def)
    ultimately show ?thesis using icache_okD[OF c(2)] z(7) unfolding icache_ok_def by metis
  qed
  have "get_empty_inode v = Inr (i, v2\<lparr>nr_free_inodes := if nr_free_inodes v2 - 1 < 0 then 0 else nr_free_inodes v2 - 1\<rparr>)"
    using f c(1) by (simp add: get_empty_inode_def Let_def v2_def upd_def)
  then show ?thesis using i ok2 z c(4,6) by (auto simp: v2_def)
qed

lemma inode_upds:
  "n\<lparr>i_dirt := a, i_count := b\<rparr> = n\<lparr>i_count := b, i_dirt := a\<rparr>"
  "\<not> i_lock n \<Longrightarrow> n\<lparr>i_dirt := a, i_lock := False\<rparr> = n\<lparr>i_dirt := a\<rparr>"
  "\<not> i_dirt n \<Longrightarrow> n\<lparr>i_count := b, i_dirt := False\<rparr> = n\<lparr>i_count := b\<rparr>"
  by (cases n; simp)+

section \<open>What the cache asks of a file system\<close>

text \<open>
  Reading and writing an inode leave its identity, its references and its links alone;
  writing makes it clean; giving up an inode that has links does nothing. In the locale:
  \<open>iput\<close> of a linked inode takes one reference back and returns, having gone round its
  loop twice at most, and \<open>iget\<close> finds the slot of an inode that is cached, or fills a
  free one.
\<close>

locale super_ops =
  fixes sop :: "'f super_operations"
  assumes read_keeps: "i_ino (so_read_inode sop n f) = i_ino n" "i_dev (so_read_inode sop n f) = i_dev n"
      "i_count (so_read_inode sop n f) = i_count n" "i_sb (so_read_inode sop n f) = i_sb n" "i_lock (so_read_inode sop n f) = i_lock n"
      "i_mount (so_read_inode sop n f) = i_mount n" "i_dirt (so_read_inode sop n f) = i_dirt n"
      "i_next (so_read_inode sop n f) = i_next n" "i_prev (so_read_inode sop n f) = i_prev n"
    and write_clean: "fst (so_write_inode sop n f) = n\<lparr>i_dirt := False\<rparr>"
    and put_linked: "i_nlink n \<noteq> 0 \<Longrightarrow> so_put_inode sop n f = Inr (False, n, f)"
begin

lemma write_inode_spec:
  assumes "icache_ok v"
  shows "\<exists>v'. write_inode sop i v = Inr v' \<and> icache_ok v' \<and> islot v' = (islot v)(i := (islot v i)\<lparr>i_dirt := False\<rparr>)"
proof -
  have l: "i_lock (islot v i) = False" by (rule icache_okD(2)[OF assms])
  show ?thesis
  proof (cases "i_dirt (islot v i)")
    case True
    have "write_inode sop i v = Inr (upd i (\<lambda>n. n\<lparr>i_dirt := False\<rparr>) v)" if "i_sb (islot v i) = None"
      using True l that by (simp add: write_inode_def wait_on_inode_def)
    moreover have "\<exists>f. write_inode sop i v = Inr (set_fs s f (upd i (\<lambda>n. n\<lparr>i_dirt := False\<rparr>) v))" if s: "i_sb (islot v i) = Some s" for s
    proof -
      let ?n = "(islot v i)\<lparr>i_lock := True\<rparr>"
      obtain m f where w: "so_write_inode sop ?n (s_fs (supers v s)) = (m, f)" by fastforce
      then have "m = ?n\<lparr>i_dirt := False\<rparr>" using write_clean[of ?n "s_fs (supers v s)"] by simp
      then have "write_inode sop i v = Inr (unlock_inode i (set_fs s f (upd i (\<lambda>_. ?n\<lparr>i_dirt := False\<rparr>) (upd i (\<lambda>n. n\<lparr>i_lock := True\<rparr>) v))))"
        using True l s w by (simp add: write_inode_def wait_on_inode_def)
      also have "\<dots> = Inr (set_fs s f (upd i (\<lambda>n. n\<lparr>i_dirt := False\<rparr>) v))"
        using l by (cases v) (simp add: unlock_inode_def upd_def set_fs_def inode_upds(2))
      finally show ?thesis by blast
    qed
    ultimately show ?thesis using icache_ok_upd[OF assms, of "\<lambda>n. n\<lparr>i_dirt := False\<rparr>" i]
      by (cases "i_sb (islot v i)") (fastforce simp: upd_def)+
  next
    case False
    then have "(islot v)(i := (islot v i)\<lparr>i_dirt := False\<rparr>) = islot v" by auto
    then show ?thesis using assms False by (simp add: write_inode_def)
  qed
qed

lemma put_step:
  assumes "\<not> 1 < i_count (islot v i)" "i_sb (islot v i) = None \<or> i_nlink (islot v i) \<noteq> 0"
  shows "iput_loop sop (Suc n) i v =
    (if i_dirt (islot v i) then bindr (write_inode sop i v) (\<lambda>v. bindr (wait_on_inode i v) (iput_loop sop n i))
     else Inr ((upd i (\<lambda>x. x\<lparr>i_count := i_count x - 1\<rparr>) v)\<lparr>nr_free_inodes := nr_free_inodes v + 1\<rparr>))"
proof (cases "i_sb (islot v i)")
  case (Some s)
  then have "i_nlink (islot v i) \<noteq> 0" using assms(2) by simp
  moreover have "set_fs s (s_fs (supers v s)) (upd i (\<lambda>_. islot v i) v) = v" by (simp add: set_fs_def upd_def)
  ultimately show ?thesis using assms(1) Some put_linked[of "islot v i"] by simp
qed (use assms(1) in simp)

lemma iput_total:
  assumes ok: "icache_ok v" and c: "i_count (islot v i) \<noteq> 0" and l: "i_sb (islot v i) = None \<or> i_nlink (islot v i) \<noteq> 0"
  shows "\<exists>v'. iput sop (Some i) v = Inr v' \<and> icache_ok v' \<and>
    islot v' = (islot v)(i := (islot v i)\<lparr>i_count := i_count (islot v i) - 1, i_dirt := (i_dirt (islot v i) \<and> 1 < i_count (islot v i))\<rparr>)"
proof -
  have w: "iput sop (Some i) v = iput_loop sop (Suc (Suc 0)) i v"
    using icache_okD(2)[OF ok, of i] c by (simp add: iput_def wait_on_inode_def numeral_2_eq_2)
  let ?dec = "\<lambda>x. x\<lparr>i_count := i_count x - 1\<rparr>"
  show ?thesis
  proof (cases "1 < i_count (islot v i)")
    case True
    then have "(islot v i)\<lparr>i_count := i_count (islot v i) - 1, i_dirt := (i_dirt (islot v i) \<and> 1 < i_count (islot v i))\<rparr> = ?dec (islot v i)" by simp
    then show ?thesis using w True icache_ok_upd[OF ok, of ?dec i] by (auto simp: upd_def)
  next
    case False
    show ?thesis
    proof (cases "i_dirt (islot v i)")
      case True
      obtain v1 where v1: "write_inode sop i v = Inr v1" "icache_ok v1" "islot v1 = (islot v)(i := (islot v i)\<lparr>i_dirt := False\<rparr>)"
        using write_inode_spec[OF ok] by blast
      let ?v = "(upd i ?dec v1)\<lparr>nr_free_inodes := nr_free_inodes v1 + 1\<rparr>"
      have "iput_loop sop (Suc 0) i v1 = Inr ?v" using False l v1(3) put_step[of v1 i 0] by simp
      then have "iput sop (Some i) v = Inr ?v"
        using w put_step[OF False l, of "Suc 0"] True v1(1) icache_okD(2)[OF v1(2), of i] by (simp add: wait_on_inode_def del: iput_loop.simps)
      then show ?thesis using icache_ok_upd[OF v1(2), of ?dec i] v1(3) False by (simp del: iupd_simps add: upd_def inode_upds(1))
    next
      case nd: False
      then show ?thesis using w put_step[OF False l, of "Suc 0"] icache_ok_upd[OF ok, of ?dec i] False
        by (simp del: iupd_simps iput_loop.simps add: upd_def inode_upds(3))
    qed
  qed
qed

lemma iget_hit:
  assumes ok: "icache_ok v" and f: "icache_find (s_dev (supers v s)) inr v = Some i" and m: "i_mount (islot v i) = None"
  shows "\<exists>v'. iget sop s inr v = Inr (i, v') \<and> icache_ok v' \<and> supers v' = supers v \<and>
    islot v' = (islot v)(i := (islot v i)\<lparr>i_count := i_count (islot v i) + 1\<rparr>)"
proof -
  let ?inc = "\<lambda>n. n\<lparr>i_count := i_count n + 1\<rparr>"
  let ?v = "if i_count (islot v i) = 0 then v\<lparr>nr_free_inodes := nr_free_inodes v - 1\<rparr> else v"
  have "iget sop s inr v = Inr (i, upd i ?inc ?v)"
    using f m icache_okD(2)[OF ok, of i] by (simp add: iget_def iget_found_def wait_on_inode_def iput_def Let_def)
  moreover have "icache_ok (upd i ?inc ?v)" using ok by (intro icache_ok_upd) auto
  ultimately show ?thesis by auto
qed

lemma iget_miss:
  assumes ok: "icache_ok v" and nf: "icache_find (s_dev (supers v s)) inr v = None" and d: "s_dev (supers v s) \<noteq> 0"
    and u: "find (\<lambda>i. unused (islot v i)) [0..<NR_INODE] = Some e"
  shows "\<exists>v' n. iget sop s inr v = Inr (e, v') \<and> icache_ok v' \<and> supers v' = supers v \<and> i_ino n = inr \<and> i_dev n = s_dev (supers v s) \<and>
    i_count n = 1 \<and> i_sb n = Some s \<and> i_mount n = None \<and> \<not> i_dirt n \<and>
    body (islot v' e) = body ((so_read_inode sop n (s_fs (supers v s)))\<lparr>i_lock := False\<rparr>) \<and> (\<forall>j. j \<noteq> e \<longrightarrow> body (islot v' j) = body (islot v j))"
proof -
  obtain v1 where v1: "get_empty_inode v = Inr (e, v1)" "e < NR_INODE" "icache_ok v1" "i_count (islot v1 e) = 1" "i_dev (islot v1 e) = 0"
      "i_mount (islot v1 e) = None" "\<not> i_dirt (islot v1 e)" "\<forall>j. j \<noteq> e \<longrightarrow> body (islot v1 j) = body (islot v j)" "supers v1 = supers v"
    using get_empty_spec[OF ok u] by blast
  have oth: "i_dev (islot v1 j) = i_dev (islot v j)" "i_ino (islot v1 j) = i_ino (islot v j)" if "j \<noteq> e" for j
    using body_eqD(6,7) v1(8) that by blast+
  have nj: "\<not> (i_dev (islot v1 j) = s_dev (supers v s) \<and> i_ino (islot v1 j) = inr)" if "j < NR_INODE" for j
    using nf that v1(5) d oth[of j] by (cases "j = e") (auto simp: icache_find_def find_None_iff)
  then have nf1: "icache_find (s_dev (supers v1 s)) inr v1 = None"
    unfolding icache_find_def find_None_iff using v1(9) by auto
  define g where "g n = n\<lparr>i_sb := Some s, i_dev := s_dev (supers v s), i_ino := inr, i_flags := s_flags (supers v s)\<rparr>" for n :: minode
  let ?v2 = "upd e g v1"
  have r2: "ring_on {..<NR_INODE} ?v2" by (rule ring_upd[OF icache_okD(1)[OF v1(3)]]) (simp_all add: g_def)
  obtain v3 where v3: "put_last_free e ?v2 = Inr v3" "ring_on {..<NR_INODE} v3" "\<forall>j. body (islot v3 j) = body (islot ?v2 j)" "supers v3 = supers v"
    using put_last_ring[OF r2 _ not_single, of e] v1(2,9) by auto
  note b3 = body_eqD[OF v3(3)[rule_format]]
  have l3: "i_lock (islot v3 j) = False" "i_sb (islot v3 e) = Some s" for j
    using b3(11)[of j] b3(10)[of e] icache_okD(2)[OF v1(3), of j] by (auto simp: g_def)
  let ?n = "(islot v3 e)\<lparr>i_lock := True\<rparr>" and ?f = "s_fs (supers v s)"
  let ?v4 = "upd e (\<lambda>_. (so_read_inode sop ?n ?f)\<lparr>i_lock := False\<rparr>) v3"
  have "read_inode sop e v3 = Inr ?v4"
    using l3 v3(4) by (simp add: read_inode_def lock_inode_def unlock_inode_def wait_on_inode_def upd_def)
  then have ev: "iget sop s inr v = Inr (e, ?v4)"
    using nf v1(1) nf1 v3(1) by (simp add: iget_def g_def[abs_def] v1(9) Let_def)
  have n: "i_ino ?n = inr" "i_dev ?n = s_dev (supers v s)" "i_count ?n = 1" "i_sb ?n = Some s" "i_mount ?n = None" "\<not> i_dirt ?n"
    using b3[of e] v1(4,6,7) by (simp_all add: g_def)
  have de: "i_dev (islot ?v4 j) = (if j = e then s_dev (supers v s) else i_dev (islot v1 j))"
      "i_ino (islot ?v4 j) = (if j = e then inr else i_ino (islot v1 j))" for j
    using n(1,2) b3(6,7)[of j] read_keeps(1,2)[of ?n ?f] by (simp_all add: g_def)
  have "icache_ok ?v4" unfolding icache_ok_def
  proof (intro conjI allI impI)
    show "ring_on {..<NR_INODE} ?v4" by (rule ring_upd[OF v3(2)]) (simp_all add: read_keeps)
    show "\<not> i_lock (islot ?v4 j)" for j using l3(1)[of j] by simp
    fix j k
    assume a: "j < NR_INODE" "k < NR_INODE"
      "i_dev (islot ?v4 j) \<noteq> 0 \<and> i_dev (islot ?v4 k) = i_dev (islot ?v4 j) \<and> i_ino (islot ?v4 k) = i_ino (islot ?v4 j)"
    then show "j = k" using nj[OF a(1)] nj[OF a(2)] icache_okD(3)[OF v1(3) a(1,2)] unfolding de by (auto split: if_splits)
  qed
  moreover have "body (islot ?v4 j) = body (islot v j)" if "j \<noteq> e" for j using that v3(3) v1(8) by simp
  ultimately show ?thesis using ev n v3(4) by (intro exI[of _ ?v4] exI[of _ ?n]) simp
qed

end

interpretation mx: super_ops minix_sops
proof
  fix n :: minode and f :: minix_fs
  show "i_ino (so_read_inode minix_sops n f) = i_ino n" "i_dev (so_read_inode minix_sops n f) = i_dev n"
    "i_count (so_read_inode minix_sops n f) = i_count n" "i_sb (so_read_inode minix_sops n f) = i_sb n"
    "i_lock (so_read_inode minix_sops n f) = i_lock n" "i_mount (so_read_inode minix_sops n f) = i_mount n"
    "i_dirt (so_read_inode minix_sops n f) = i_dirt n" "i_next (so_read_inode minix_sops n f) = i_next n"
    "i_prev (so_read_inode minix_sops n f) = i_prev n"
    by (simp_all add: minix_sops_def minix_read_inode_def load_raw_def Let_def)
  show "fst (so_write_inode minix_sops n f) = n\<lparr>i_dirt := False\<rparr>"
    by (simp add: minix_sops_def minix_write_inode_def minix_update_inode_def Let_def)
  show "i_nlink n \<noteq> 0 \<Longrightarrow> so_put_inode minix_sops n f = Inr (False, n, f)"
    by (simp add: minix_sops_def minix_put_inode_def)
qed

section \<open>Correctness of the cache\<close>

lemma icache_find_Some:
  assumes "icache_ok v" "i < NR_INODE" "i_dev (islot v i) = dev" "i_ino (islot v i) = inr" "dev \<noteq> 0"
  shows "icache_find dev inr v = Some i"
proof (cases "icache_find dev inr v")
  case None
  then show ?thesis using assms by (auto simp: icache_find_def find_None_iff)
next
  case (Some j)
  then have "j < NR_INODE" "i_dev (islot v j) = dev" "i_ino (islot v j) = inr"
    by (auto simp: icache_find_def find_Some_iff)
  then have "i = j" using icache_okD(3)[OF assms(1,2)] assms(3-5) by metis
  with Some show ?thesis by simp
qed

text \<open>C21: \<^verbatim>\<open>iget\<close> on a well-formed cache, when the inode is not covered by a mount and there
  is a free slot in case it is not cached: it returns the one slot of the inode, with one
  reference more than before (1 when it was not cached), leaves the other slots alone and the
  cache well-formed; and the next search for the inode finds this slot.\<close>

theorem iget_correct:
  fixes v :: "minix_fs vfs"
  assumes "icache_ok v" and "s_dev (supers v s) \<noteq> 0"
    and "\<forall>i. icache_find (s_dev (supers v s)) inr v = Some i \<longrightarrow> i_mount (islot v i) = None"
    and "icache_find (s_dev (supers v s)) inr v = None \<longrightarrow> (\<exists>e<NR_INODE. unused (islot v e))"
  shows "\<exists>i v'. iget minix_sops s inr v = Inr (i, v') \<and> i < NR_INODE \<and> icache_ok v' \<and>
    i_dev (islot v' i) = s_dev (supers v s) \<and> i_ino (islot v' i) = inr \<and>
    i_count (islot v' i) = (case icache_find (s_dev (supers v s)) inr v of None \<Rightarrow> 1 | Some i \<Rightarrow> i_count (islot v i) + 1) \<and>
    (\<forall>j. j \<noteq> i \<longrightarrow> body (islot v' j) = body (islot v j)) \<and> icache_find (s_dev (supers v s)) inr v' = Some i"
proof (cases "icache_find (s_dev (supers v s)) inr v")
  case (Some i)
  then have i: "i < NR_INODE" "i_dev (islot v i) = s_dev (supers v s)" "i_ino (islot v i) = inr"
    by (auto simp: icache_find_def find_Some_iff)
  obtain v' where v': "iget minix_sops s inr v = Inr (i, v')" "icache_ok v'"
      "islot v' = (islot v)(i := (islot v i)\<lparr>i_count := i_count (islot v i) + 1\<rparr>)"
    using mx.iget_hit[OF assms(1) Some] assms(3) Some by auto
  show ?thesis using v' i Some icache_find_Some[OF v'(2) i(1)] assms(2)
    by (intro exI[of _ i] exI[of _ v']) simp
next
  case None
  then have ne: "find (\<lambda>i. unused (islot v i)) [0..<NR_INODE] \<noteq> None"
    using assms(4) by (auto simp: find_None_iff)
  then obtain e where e: "find (\<lambda>i. unused (islot v i)) [0..<NR_INODE] = Some e" by blast
  then have en: "e < NR_INODE" by (auto simp: find_Some_iff)
  obtain v' n where g: "iget minix_sops s inr v = Inr (e, v')" "icache_ok v'" "i_ino n = inr" "i_dev n = s_dev (supers v s)" "i_count n = 1"
      "body (islot v' e) = body ((so_read_inode minix_sops n (s_fs (supers v s)))\<lparr>i_lock := False\<rparr>)"
      "\<forall>j. j \<noteq> e \<longrightarrow> body (islot v' j) = body (islot v j)"
    using mx.iget_miss[OF assms(1) None assms(2) e] by blast
  note b = body_eqD(6,7,8)[OF g(6)]
  have ids: "i_dev (islot v' e) = s_dev (supers v s)" "i_ino (islot v' e) = inr" "i_count (islot v' e) = 1"
    using b g(3-5) mx.read_keeps(1,2,3)[of n "s_fs (supers v s)"] by simp_all
  show ?thesis using g(1,2,7) en None ids icache_find_Some[OF g(2) en ids(1,2) assms(2)] by auto
qed

text \<open>C23: \<^verbatim>\<open>iput\<close> on an inode that has links returns: it takes back one reference; when that
  was the last one the inode has been written and is clean; its contents and the other slots
  are as before. The \<^verbatim>\<open>goto repeat\<close> in it is taken once at most.\<close>

theorem iput_returns:
  fixes v :: "minix_fs vfs"
  assumes "icache_ok v" and "i_count (islot v i) \<noteq> 0" and "i_nlink (islot v i) \<noteq> 0"
  shows "\<exists>v'. iput minix_sops (Some i) v = Inr v' \<and> icache_ok v' \<and>
    islot v' = (islot v)(i := (islot v i)\<lparr>i_count := i_count (islot v i) - 1, i_dirt := (i_dirt (islot v i) \<and> 1 < i_count (islot v i))\<rparr>)"
  using mx.iput_total[OF assms(1,2)] assms(3) by blast

section \<open>The last reference to a deleted file\<close>

definition ibit :: "minix_fs \<Rightarrow> nat \<Rightarrow> bool" where
  "ibit fs n \<longleftrightarrow> (case s_imap (sb fs) (n div 8192) of None \<Rightarrow> False | Some bh \<Rightarrow> bit_at (blk fs bh) (n mod 8192))"

definition imap_ok :: "minix_fs \<Rightarrow> bool" where
  "imap_ok fs \<longleftrightarrow> (\<forall>i j b. s_imap (sb fs) i = Some b \<longrightarrow> s_zmap (sb fs) j \<noteq> Some b) \<and>
    (\<forall>n. n \<le> unat (s_ninodes (sb fs)) \<longrightarrow> s_imap (sb fs) (n div 8192) \<noteq> None)"

lemma free_inode_spec:
  assumes "imap_ok fs" and "i_dev ino \<noteq> 0" "i_count ino = 1" "i_nlink ino = 0" "i_sb ino \<noteq> None" "i_ino ino \<noteq> 0" "i_ino ino \<le> s_ninodes (sb fs)"
  shows "\<exists>fs'. minix_free_inode ino fs = (True, fs') \<and> \<not> ibit fs' (unat (i_ino ino)) \<and> (\<forall>w. zone_used fs' w = zone_used fs w)"
proof -
  let ?n = "unat (i_ino ino)"
  have dn: "unat (drop_bit 13 (i_ino ino)) = ?n div 8192" by (simp add: drop_bit_eq_div unat_div)
  have an: "unat (i_ino ino AND 8191) = ?n mod 8192" using and_pow2_minus1[of 13 "i_ino ino"] by simp
  obtain bh where bh: "s_imap (sb fs) (?n div 8192) = Some bh"
    using assms(1,7) by (auto simp: imap_ok_def word_le_nat_alt)
  let ?fs = "put_blk bh (snd (clear_bit (i_ino ino AND 8191) (blk fs bh))) fs"
  have "\<not> i_ino ino < 1" using assms(6) by (simp add: word_less_nat_alt unat_eq_0)
  moreover have "\<not> i_ino ino > s_ninodes (sb fs)" using assms(7) by simp
  ultimately have "minix_free_inode ino fs = (True, ?fs)" using assms(2-6) bh by (simp add: minix_free_inode_def dn)
  moreover have "\<not> ibit ?fs ?n" using bh by (simp add: ibit_def clear_bit_at an)
  moreover have "zbit ?fs n = zbit fs n" for n
    using assms(1) bh by (auto simp: zbit_def imap_ok_def split: option.splits)
  then have "zone_used ?fs w = zone_used fs w" for w by (simp add: zone_used_def zone_no_def data_zone_def)
  ultimately show ?thesis by blast
qed

text \<open>C22: When the last reference to a file without links is given up by \<^verbatim>\<open>iput\<close>, the file
  disappears: its slot is cleared, its bit in the inode bitmap too, and of the zones exactly
  those of the file have become free. The file has no block above 32 MB (its double indirect
  block refers to none from entry 63 on), and nobody holds a buffer of the file system.\<close>

theorem iput_deletes:
  fixes v :: "minix_fs vfs"
  assumes "icache_ok v" and "i < NR_INODE" and "n = islot v i" and "i_count n = 1" "i_nlink n = 0" "i_sb n = Some s" "i_dev n \<noteq> 0"
    and "fs = s_fs (supers v s)" and "zmap_ok fs" "file_ok fs n" "imap_ok fs" "readable fs" "\<forall>b. \<not> held fs b"
    and "i_ino n \<noteq> 0" "i_ino n \<le> s_ninodes (sb fs)" and "S_ISREG (i_mode n) \<or> S_ISDIR (i_mode n) \<or> S_ISLNK (i_mode n)"
    and "\<forall>m. 63 \<le> m \<and> m < 512 \<longrightarrow> lookup fs n (Mid m) = 0"
  shows "\<exists>v' fs'. iput minix_sops (Some i) v = Inr v' \<and> icache_ok v' \<and> fs' = s_fs (supers v' s) \<and> body (islot v' i) = zero_inode \<and>
    \<not> ibit fs' (unat (i_ino n)) \<and>
    (\<forall>w. zone_used fs' w = (zone_used fs w \<and> \<not> (\<exists>p. valid p \<and> lookup fs n p \<noteq> 0 \<and> w = unat (lookup fs n p))))"
proof -
  let ?n0 = "n\<lparr>i_size := 0\<rparr>"
  have l0: "lookup fs ?n0 p = lookup fs n p" for p by (rule lookup_i_zone) simp
  have "file_ok fs ?n0" using assms(10) unfolding file_ok_def l0 .
  moreover have "S_ISREG (i_mode ?n0) \<or> S_ISDIR (i_mode ?n0) \<or> S_ISLNK (i_mode ?n0)" "i_size ?n0 = 0" using assms(16) by simp_all
  moreover have "\<forall>m. 63 \<le> m \<and> m < 512 \<longrightarrow> lookup fs ?n0 (Mid m) = 0" using assms(17) unfolding l0 .
  ultimately obtain n1 fs1 where t: "minix_truncate ?n0 [] fs = Inr (n1, fs1)" "sb fs1 = sb fs" "meta n1 = meta ?n0"
      "\<forall>w. zone_used fs1 w = (zone_used fs w \<and> \<not> (\<exists>p. valid p \<and> lookup fs n p \<noteq> 0 \<and> w = unat (lookup fs n p)))"
    using truncate_frees[of fs ?n0 "[]"] assms(9,12,13) unfolding l0 by blast
  note m = metaD[OF t(3)]
  have im: "imap_ok fs1" using assms(11) t(2) by (simp add: imap_ok_def)
  obtain fs2 where f: "minix_free_inode n1 fs1 = (True, fs2)" "\<not> ibit fs2 (unat (i_ino n))" "\<forall>w. zone_used fs2 w = zone_used fs1 w"
    using free_inode_spec[OF im, of n1] m assms(4-7,14,15) t(2) by auto
  let ?v1 = "set_fs s fs2 (upd i (\<lambda>_. n1) v)"
  have ok1: "icache_ok ?v1" using icache_ok_upd[OF assms(1), of "\<lambda>_. n1" i] m assms(3) by simp
  obtain v' where c: "clear_inode i ?v1 = Inr v'" "icache_ok v'" "body (islot v' i) = zero_inode" "supers v' = supers ?v1"
    using clear_inode_spec[OF ok1 assms(2)] by blast
  have nl: "i_nlink (islot v' i) = 0" using body_eqD(4)[of "islot v' i" zero_inode] c(3) by simp
  have "so_put_inode minix_sops n fs = Inr (True, n1, fs2)"
    using t(1) f(1) assms(5) by (simp add: minix_sops_def minix_put_inode_def)
  then have "iput minix_sops (Some i) v = Inr v'"
    using assms(3-6,8) icache_okD(2)[OF assms(1), of i] c(1) nl
    by (simp add: iput_def wait_on_inode_def numeral_2_eq_2 Let_def)
  moreover have "s_fs (supers v' s) = fs2" using c(4) by (simp add: set_fs_def)
  ultimately show ?thesis using c(2,3) f(2,3) t(4) by auto
qed

section \<open>A cache to try the operations on\<close>

definition empty_slot :: "nat \<Rightarrow> minode" where
  "empty_slot i = zero_inode\<lparr>i_next := Some (if i = 95 then 0 else i + 1), i_prev := Some (if i = 0 then 95 else i - 1)\<rparr>"

definition place :: "nat \<Rightarrow> minode \<Rightarrow> minode" where
  "place i n = n\<lparr>i_next := i_next (empty_slot i), i_prev := i_prev (empty_slot i)\<rparr>"

text \<open>Slot 5 holds a file, the others are free.\<close>

definition one_file :: "minode \<Rightarrow> minix_fs \<Rightarrow> minix_fs vfs" where
  "one_file n fs = \<lparr>islot = empty_slot(5 := place 5 n), first_inode = Some 0, nr_free_inodes = 95, last_ino = 1,
     supers = (\<lambda>_. \<lparr>s_dev = 3, s_flags = 0, s_covered = None, s_mounted = None, s_fs = fs\<rparr>)\<rparr>"

lemma dseg_upt:
  "(\<And>i. i < a + k \<Longrightarrow> n i = Some (i + 1)) \<Longrightarrow> (\<And>i. 0 < i \<Longrightarrow> i \<le> a + k \<Longrightarrow> p i = Some (i - 1)) \<Longrightarrow> n (a + k) = Some b \<Longrightarrow> p b = Some (a + k) \<Longrightarrow>
    dseg n p a [Suc a..<Suc (a + k)] (Some b)"
proof (induction k arbitrary: a)
  case (Suc k)
  have "[Suc a..<Suc (a + Suc k)] = Suc a # [Suc (Suc a)..<Suc (Suc a + k)]" by (simp add: upt_conv_Cons)
  moreover have "dseg n p (Suc a) [Suc (Suc a)..<Suc (Suc a + k)] (Some b)" using Suc.prems by (intro Suc.IH) auto
  ultimately show ?case using Suc.prems(1)[of a] Suc.prems(2)[of "Suc a"] by simp
qed simp

lemma one_file_ok:
  assumes "i_lock n = False"
  shows "icache_ok (one_file n fs)"
proof -
  let ?v = "one_file n fs"
  have s: "i_next (islot ?v i) = Some (if i = 95 then 0 else i + 1)" "i_prev (islot ?v i) = Some (if i = 0 then 95 else i - 1)"
    "i \<noteq> 5 \<Longrightarrow> i_dev (islot ?v i) = 0" for i
    by (auto simp: one_file_def place_def empty_slot_def)
  have "dseg (nxt ?v) (prv ?v) 0 [Suc 0..<Suc (0 + 95)] (Some 0)" by (rule dseg_upt) (auto simp: s)
  then have "ring_on {..<NR_INODE} ?v" unfolding ring_on_def
    by (intro exI[of _ 0] exI[of _ "[Suc 0..<Suc (0 + 95)]"]) (auto simp: one_file_def)
  moreover have "\<not> i_lock (islot ?v i)" for i using assms by (auto simp: one_file_def place_def empty_slot_def)
  ultimately show ?thesis unfolding icache_ok_def using s(3) by metis
qed

lemma one_file_facts:
  "islot (one_file n fs) 5 = place 5 n" "unused (islot (one_file n fs) 0)" "s_fs (supers (one_file n fs) s) = fs" "s_dev (supers (one_file n fs) s) = 3"
  "i_count (place 5 n) = i_count n" "i_nlink (place 5 n) = i_nlink n" "i_sb (place 5 n) = i_sb n" "i_dev (place 5 n) = i_dev n"
  "i_ino (place 5 n) = i_ino n" "i_mode (place 5 n) = i_mode n" "i_zone (place 5 n) = i_zone n" "i_mount (place 5 n) = i_mount n"
  by (simp_all add: one_file_def place_def empty_slot_def unused_def)

lemma empty_unlocked: "i_lock empty_ino = False" "i_lock (ind_ino\<lparr>i_nlink := 0\<rparr>) = False"
  by (simp_all add: empty_ino_def ind_ino_def)

theorem iget_correct_witness:
  "\<exists>i v'. iget minix_sops 0 2 (one_file empty_ino small_fs) = Inr (i, v') \<and> i_ino (islot v' i) = 2 \<and> icache_ok v'"
proof -
  let ?v = "one_file empty_ino small_fs"
  have "i_mount (islot ?v i) = None" for i by (auto simp: one_file_def place_def empty_slot_def empty_ino_def)
  then have a: "\<forall>i. icache_find (s_dev (supers ?v 0)) 2 ?v = Some i \<longrightarrow> i_mount (islot ?v i) = None" by blast
  have b: "icache_find (s_dev (supers ?v 0)) 2 ?v = None \<longrightarrow> (\<exists>e<NR_INODE. unused (islot ?v e))"
    using one_file_facts(2) by (intro impI exI[of _ 0]) simp
  have "s_dev (supers ?v 0) \<noteq> 0" by (simp add: one_file_facts)
  from iget_correct[OF one_file_ok[OF empty_unlocked(1)] this a b] show ?thesis by blast
qed

theorem iput_returns_witness:
  "\<exists>v'. iput minix_sops (Some 5) (one_file empty_ino small_fs) = Inr v' \<and> i_count (islot v' 5) = 0"
proof -
  have "i_count (islot (one_file empty_ino small_fs) 5) = 1" "i_nlink (islot (one_file empty_ino small_fs) 5) = 1"
    by (simp_all add: one_file_facts empty_ino_def)
  then obtain v' where "iput minix_sops (Some 5) (one_file empty_ino small_fs) = Inr v'"
    "islot v' = (islot (one_file empty_ino small_fs))(5 := (islot (one_file empty_ino small_fs) 5)\<lparr>i_count := 0, i_dirt := False\<rparr>)"
    using iput_returns[OF one_file_ok[OF empty_unlocked(1), of small_fs], of 5] by auto
  then show ?thesis by auto
qed

lemma full_imap: "imap_ok full_fs"
  by (auto simp: imap_ok_def full_fs_def small_fs_def small_sb_def split: if_splits)

theorem iput_deletes_witness:
  "\<exists>v'. iput minix_sops (Some 5) (one_file (ind_ino\<lparr>i_nlink := 0\<rparr>) full_fs) = Inr v' \<and> body (islot v' 5) = zero_inode \<and>
     \<not> zone_used (s_fs (supers v' 0)) 4"
proof -
  let ?m = "ind_ino\<lparr>i_nlink := 0\<rparr>" and ?v = "one_file (ind_ino\<lparr>i_nlink := 0\<rparr>) full_fs"
  let ?n = "islot ?v 5"
  have n: "i_count ?n = 1" "i_nlink ?n = 0" "i_sb ?n = Some 0" "i_dev ?n \<noteq> 0" "i_ino ?n \<noteq> 0" "i_ino ?n \<le> s_ninodes (sb full_fs)" "S_ISREG (i_mode ?n)"
    by (simp_all add: one_file_facts ind_ino_def empty_ino_def full_fs_def small_fs_def small_sb_def S_ISREG_def)
  have l: "lookup full_fs ?n p = lookup full_fs ind_ino p" for p by (rule lookup_i_zone) (simp add: one_file_facts)
  have f: "file_ok full_fs ?n" using ind_file_ok unfolding file_ok_def l .
  have md: "\<forall>m. 63 \<le> m \<and> m < 512 \<longrightarrow> lookup full_fs ?n (Mid m) = 0" unfolding l using ind_lookup[of "Mid _"] by simp
  have fs: "full_fs = s_fs (supers ?v 0)" by (simp add: one_file_facts)
  obtain v' where v': "iput minix_sops (Some 5) ?v = Inr v'" "body (islot v' 5) = zero_inode"
      "\<forall>w. zone_used (s_fs (supers v' 0)) w = (zone_used full_fs w \<and> \<not> (\<exists>p. valid p \<and> lookup full_fs ?n p \<noteq> 0 \<and> w = unat (lookup full_fs ?n p)))"
    using iput_deletes[OF one_file_ok[OF empty_unlocked(2)] _ refl n(1-4) fs full_ok(1) f full_imap full_ok(3,2) n(5,6) disjI1[OF n(7)] md] by auto
  have "\<exists>p. valid p \<and> lookup full_fs ?n p \<noteq> 0 \<and> 4 = unat (lookup full_fs ?n p)"
    unfolding l using ind_lookup[of "Via 0"] by (intro exI[of _ "Via 0"]) simp
  with v' show ?thesis by blast
qed

end
