(* ===== verification/MinixDir.thy ===== *)
theory MinixDir
  imports MinixFile Icache
begin

text \<open>
  Directories of the Minix file system, \<^verbatim>\<open>fs/minix/namei.c\<close> and \<^verbatim>\<open>fs/minix/dir.c\<close>: searching
  and adding entries, and the operations on names built on them. A name is the list of its
  bytes. \<^verbatim>\<open>int\<close> has 16 bits, so that \<^verbatim>\<open>block * BLOCK_SIZE\<close> in the search wraps around.
  The operations on the inode cache run on its whole state; \<open>euid\<close>, \<open>egid\<close> and \<open>umask\<close> are
  those of the current process.
\<close>

section \<open>Entries\<close>

abbreviation ENOENT :: int where "ENOENT \<equiv> 2"
abbreviation EACCES :: int where "EACCES \<equiv> 13"
abbreviation EEXIST :: int where "EEXIST \<equiv> 17"
abbreviation ENOTDIR :: int where "ENOTDIR \<equiv> 20"
abbreviation EISDIR :: int where "EISDIR \<equiv> 21"
abbreviation EMLINK :: int where "EMLINK \<equiv> 31"
abbreviation ENOTEMPTY :: int where "ENOTEMPTY \<equiv> 39"

abbreviation dot :: u8 where "dot \<equiv> 46"

definition minix_getblk :: "minode \<Rightarrow> u16 \<Rightarrow> bool \<Rightarrow> minix_fs \<Rightarrow> (nat option \<times> minode \<times> minix_fs) kres" where
  "minix_getblk ino block create fs =
    bindr (minix_bmap ino block create fs) (\<lambda>(z, ino, fs). Inr (if z \<noteq> 0 then Some (unat z) else None, ino, fs))"

definition minix_bread :: "minode \<Rightarrow> u16 \<Rightarrow> bool \<Rightarrow> minix_fs \<Rightarrow> (nat option \<times> minode \<times> minix_fs) kres" where
  "minix_bread ino block create fs =
    bindr (minix_getblk ino block create fs) (\<lambda>(r, ino, fs).
      Inr (case r of None \<Rightarrow> None | Some z \<Rightarrow> if bad fs z then None else Some z, ino, fs))"

definition namecompare :: "nat \<Rightarrow> nat \<Rightarrow> u8 list \<Rightarrow> bytes \<Rightarrow> nat \<Rightarrow> bool" where
  "namecompare len lim name d off \<longleftrightarrow>
    (if lim < len \<or> (len < lim \<and> d (off + len) \<noteq> 0) then False
     else list_all (\<lambda>i. name ! i = d (off + i)) [0..<len])"

definition minix_match :: "nat \<Rightarrow> u8 list \<Rightarrow> bytes \<Rightarrow> nat \<Rightarrow> minix_sb_info \<Rightarrow> bool" where
  "minix_match len name d off info \<longleftrightarrow>
    (if get16 d off = 0 \<or> unat (s_namelen info) < len then False
     else if len = 0 \<and> d (off + 2) = dot \<and> d (off + 3) = 0 then True
     else namecompare len (unat (s_namelen info)) name d (off + 2))"

text \<open>The loop of \<^verbatim>\<open>minix_find_entry\<close>. The result is the block and the offset of the entry.\<close>

primrec find_entry_loop :: "nat \<Rightarrow> minode \<Rightarrow> nat \<Rightarrow> u8 list \<Rightarrow> nat option \<Rightarrow> u16 \<Rightarrow> nat \<Rightarrow> minix_fs \<Rightarrow> (nat \<times> nat) option kres" where
  "find_entry_loop 0 dir len name bh block offset fs = Inl Stuck"
| "find_entry_loop (Suc n) dir len name bh block offset fs =
    (if \<not> unat (block * 1024) + offset < unat (i_size dir) then Inr None
     else
       bindr (case bh of Some z \<Rightarrow> Inr (Some z) | None \<Rightarrow> bindr (minix_bread dir block False fs) (\<lambda>(r, _, _). Inr r))
         (\<lambda>r. case r of
            None \<Rightarrow> find_entry_loop n dir len name None (block + 1) offset fs
          | Some z \<Rightarrow>
              if minix_match len name (blk fs z) offset (sb fs) then Inr (Some (z, offset))
              else
                let offset = offset + unat (s_dirsize (sb fs))
                in if offset < 1024 then find_entry_loop n dir len name (Some z) block offset fs
                   else find_entry_loop n dir len name None (block + 1) 0 fs))"

text \<open>The bound: a directory of less than 64 KB has at most 64 blocks of 64 entries.\<close>

definition minix_find_entry :: "minode \<Rightarrow> u8 list \<Rightarrow> minix_fs \<Rightarrow> (nat \<times> nat) option kres" where
  "minix_find_entry dir name fs =
    (if i_sb dir = None then Inr None
     else find_entry_loop 4200 dir (min (length name) (unat (s_namelen (sb fs)))) name None 0 0 fs)"

definition set_name :: "bytes \<Rightarrow> nat \<Rightarrow> nat \<Rightarrow> nat \<Rightarrow> u8 list \<Rightarrow> bytes" where
  "set_name d off lim len name =
    (\<lambda>k. if off \<le> k \<and> k < off + lim then (if k - off < len then name ! (k - off) else 0) else d k)"

primrec add_entry_loop ::
    "nat \<Rightarrow> minode \<Rightarrow> nat \<Rightarrow> u8 list \<Rightarrow> nat option \<Rightarrow> u16 \<Rightarrow> nat \<Rightarrow> minix_fs \<Rightarrow> ((int + nat \<times> nat) \<times> minode \<times> minix_fs) kres" where
  "add_entry_loop 0 dir len name bh block offset fs = Inl Stuck"
| "add_entry_loop (Suc n) dir len name bh block offset fs =
    bindr (case bh of Some z \<Rightarrow> Inr (Some z, dir, fs) | None \<Rightarrow> minix_bread dir block True fs) (\<lambda>(r, dir, fs).
      case r of
        None \<Rightarrow> Inr (Inl (- ENOSPC), dir, fs)
      | Some z \<Rightarrow>
          let de = offset;
              offset = offset + unat (s_dirsize (sb fs));
              grown = unat block * 1024 + offset > unat (i_size dir);
              fs = (if grown then fs\<lparr>blk := (blk fs)(z := put16 (blk fs z) de 0)\<rparr> else fs);
              dir = (if grown then dir\<lparr>i_size := of_nat (unat block * 1024 + offset), i_dirt := True\<rparr> else dir)
          in if get16 (blk fs z) de \<noteq> 0 then
               if namecompare len (unat (s_namelen (sb fs))) name (blk fs z) (de + 2) then Inr (Inl (- EEXIST), dir, fs)
               else if offset < 1024 then add_entry_loop n dir len name (Some z) block offset fs
               else add_entry_loop n dir len name None (block + 1) 0 fs
             else
               Inr (Inr (z, de), dir\<lparr>i_mtime := now fs, i_ctime := now fs, i_dirt := True\<rparr>,
                    put_blk z (set_name (blk fs z) (de + 2) (unat (s_namelen (sb fs))) len name) fs))"

definition minix_add_entry :: "minode \<Rightarrow> u8 list \<Rightarrow> minix_fs \<Rightarrow> ((int + nat \<times> nat) \<times> minode \<times> minix_fs) kres" where
  "minix_add_entry dir name fs =
    (if i_sb dir = None then Inr (Inl (- ENOENT), dir, fs)
     else
       let len = min (length name) (unat (s_namelen (sb fs)))
       in if len = 0 then Inr (Inl (- ENOENT), dir, fs)
          else add_entry_loop (unat (i_size dir) div 16 + 2) dir len name None 0 0 fs)"

text \<open>\<^verbatim>\<open>de->inode = ino; mark_buffer_dirty(bh, 1)\<close>\<close>

definition set_entry :: "nat \<times> nat \<Rightarrow> u16 \<Rightarrow> minix_fs \<Rightarrow> minix_fs" where
  "set_entry p ino fs = put_blk (fst p) (put16 (blk fs (fst p)) (snd p) ino) fs"

definition name_is :: "bytes \<Rightarrow> nat \<Rightarrow> u8 list \<Rightarrow> bool" where
  "name_is d off xs \<longleftrightarrow> list_all (\<lambda>i. d (off + i) = (xs @ [0]) ! i) [0..<length xs + 1]"

text \<open>\<^verbatim>\<open>empty_dir\<close> maps the first block of the directory only; \<open>l1\<close> says which buffers are
  mapped by chance. Through another buffer it reads through a null pointer.\<close>

primrec empty_dir_loop :: "nat \<Rightarrow> minode \<Rightarrow> (nat \<Rightarrow> bool) \<Rightarrow> nat option \<Rightarrow> u16 \<Rightarrow> nat \<Rightarrow> minix_fs \<Rightarrow> bool kres" where
  "empty_dir_loop 0 ino l1 bh block offset fs = Inl Stuck"
| "empty_dir_loop (Suc n) ino l1 bh block offset fs =
    (if \<not> unat block * 1024 + offset < unat (i_size ino) then Inr True
     else
       bindr (case bh of Some z \<Rightarrow> Inr (Some z) | None \<Rightarrow> bindr (minix_bread ino block False fs) (\<lambda>(r, _, _). Inr r))
         (\<lambda>r. case r of
            None \<Rightarrow> empty_dir_loop n ino l1 None (block + 1) offset fs
          | Some z \<Rightarrow>
              if block \<noteq> 0 \<and> \<not> l1 z then Inl NullDeref
              else if get16 (blk fs z) offset \<noteq> 0 then Inr False
              else
                let offset = offset + unat (s_dirsize (sb fs))
                in if offset < 1024 then empty_dir_loop n ino l1 (Some z) block offset fs
                   else empty_dir_loop n ino l1 None (block + 1) 0 fs))"

definition empty_dir :: "minode \<Rightarrow> (nat \<Rightarrow> bool) \<Rightarrow> minix_fs \<Rightarrow> bool kres" where
  "empty_dir ino l1 fs =
    (let ds = unat (s_dirsize (sb fs)) in
     if i_sb ino = None then Inr True
     else if unat (i_size ino AND ucast (s_dirsize (sb fs) - 1)) \<noteq> 0 \<or> unat (i_size ino) < 2 * ds then Inr True
     else bindr (minix_bread ino 0 False fs) (\<lambda>(r, _, _).
       case r of
         None \<Rightarrow> Inr True
       | Some z \<Rightarrow>
           if get16 (blk fs z) 0 = 0 \<or> \<not> name_is (blk fs z) 2 [dot] then Inr True
           else if get16 (blk fs z) ds = 0 \<or> \<not> name_is (blk fs z) (ds + 2) [dot, dot] then Inr True
           else empty_dir_loop (unat (i_size ino) div 16 + 65536) ino l1 (Some z) 0 (2 * ds) fs))"

section \<open>Operations on names\<close>

type_synonym mvfs = "minix_fs vfs"

definition on_inode :: "nat \<Rightarrow> (minode \<Rightarrow> minix_fs \<Rightarrow> ('a \<times> minode \<times> minix_fs) kres) \<Rightarrow> mvfs \<Rightarrow> ('a \<times> mvfs) kres" where
  "on_inode i f v =
    (case i_sb (islot v i) of
       None \<Rightarrow> Inl NullDeref
     | Some s \<Rightarrow> bindr (f (islot v i) (s_fs (supers v s))) (\<lambda>(r, n, fs). Inr (r, set_fs s fs (upd i (\<lambda>_. n) v))))"

definition on_fs :: "nat \<Rightarrow> (minix_fs \<Rightarrow> minix_fs) \<Rightarrow> mvfs \<Rightarrow> mvfs" where
  "on_fs i f v = (case i_sb (islot v i) of None \<Rightarrow> v | Some s \<Rightarrow> set_fs s (f (s_fs (supers v s))) v)"

definition find_in :: "nat \<Rightarrow> u8 list \<Rightarrow> mvfs \<Rightarrow> (nat \<times> nat) option kres" where
  "find_in d name v = (case i_sb (islot v d) of None \<Rightarrow> Inr None | Some s \<Rightarrow> minix_find_entry (islot v d) name (s_fs (supers v s)))"

definition add_in :: "nat \<Rightarrow> u8 list \<Rightarrow> mvfs \<Rightarrow> ((int + nat \<times> nat) \<times> mvfs) kres" where
  "add_in d name v = (if i_sb (islot v d) = None then Inr (Inl (- ENOENT), v) else on_inode d (\<lambda>n. minix_add_entry n name) v)"

definition entry_ino :: "nat \<Rightarrow> nat \<times> nat \<Rightarrow> mvfs \<Rightarrow> u16" where
  "entry_ino d p v = (case i_sb (islot v d) of None \<Rightarrow> 0 | Some s \<Rightarrow> get16 (blk (s_fs (supers v s)) (fst p)) (snd p))"

definition iput_all :: "nat list \<Rightarrow> mvfs \<Rightarrow> mvfs kres" where
  "iput_all is v = fold (\<lambda>i r. bindr r (iput minix_sops (Some i))) is (Inr v)"

text \<open>\<^verbatim>\<open>inode->i_nlink--; inode->i_dirt = 1; iput(inode)\<close>\<close>

definition drop_link :: "nat \<Rightarrow> mvfs \<Rightarrow> mvfs" where
  "drop_link i v = upd i (\<lambda>n. n\<lparr>i_nlink := i_nlink n - 1, i_dirt := True\<rparr>) v"

definition new_inode_in :: "nat \<Rightarrow> u16 \<Rightarrow> u16 \<Rightarrow> mvfs \<Rightarrow> (nat option \<times> mvfs) kres" where
  "new_inode_in d euid egid v =
    bindr (get_empty_inode v) (\<lambda>(e, v).
      case i_sb (islot v d) of
        None \<Rightarrow> Inl NullDeref
      | Some s \<Rightarrow>
          let (r, fs) = minix_new_inode (islot v e) (islot v d) (s_dev (supers v s)) (s_flags (supers v s)) euid egid (s_fs (supers v s));
              v = set_fs s fs v
          in case r of
               Inr n \<Rightarrow> Inr (Some e, upd e (\<lambda>_. n) v)
             | Inl n \<Rightarrow> bindr (iput minix_sops (Some e) (upd e (\<lambda>_. n) v)) (\<lambda>v. Inr (None, v)))"

definition minix_lookup :: "nat \<Rightarrow> u8 list \<Rightarrow> mvfs \<Rightarrow> (int \<times> nat option \<times> mvfs) kres" where
  "minix_lookup d name v =
    (if S_ISDIR (i_mode (islot v d)) then
       bindr (find_in d name v) (\<lambda>r.
         case r of
           None \<Rightarrow> bindr (iput minix_sops (Some d) v) (\<lambda>v. Inr (- ENOENT, None, v))
         | Some p \<Rightarrow>
             (case i_sb (islot v d) of
                None \<Rightarrow> Inl NullDeref
              | Some s \<Rightarrow> bindr (iget minix_sops s (entry_ino d p v) v) (\<lambda>(i, v).
                  bindr (iput minix_sops (Some d) v) (\<lambda>v. Inr (0, Some i, v)))))
     else bindr (iput minix_sops (Some d) v) (\<lambda>v. Inr (- ENOENT, None, v)))"

definition minix_create :: "nat \<Rightarrow> u8 list \<Rightarrow> u16 \<Rightarrow> u16 \<Rightarrow> u16 \<Rightarrow> mvfs \<Rightarrow> (int \<times> nat option \<times> mvfs) kres" where
  "minix_create d name mode euid egid v =
    bindr (new_inode_in d euid egid v) (\<lambda>(r, v).
      case r of
        None \<Rightarrow> bindr (iput minix_sops (Some d) v) (\<lambda>v. Inr (- ENOSPC, None, v))
      | Some i \<Rightarrow>
          bindr (add_in d name (upd i (\<lambda>n. n\<lparr>i_op := File_ops, i_mode := mode, i_dirt := True\<rparr>) v)) (\<lambda>(r, v).
            case r of
              Inl error \<Rightarrow> bindr (iput_all [i, d] (drop_link i v)) (\<lambda>v. Inr (error, None, v))
            | Inr p \<Rightarrow>
                bindr (iput minix_sops (Some d) (on_fs d (set_entry p (i_ino (islot v i))) v)) (\<lambda>v. Inr (0, Some i, v))))"

definition minix_mknod :: "nat \<Rightarrow> u8 list \<Rightarrow> u16 \<Rightarrow> u16 \<Rightarrow> u16 \<Rightarrow> u16 \<Rightarrow> mvfs \<Rightarrow> (int \<times> mvfs) kres" where
  "minix_mknod d name mode rdev euid egid v =
    bindr (find_in d name v) (\<lambda>r.
      if r \<noteq> None then bindr (iput minix_sops (Some d) v) (\<lambda>v. Inr (- EEXIST, v))
      else bindr (new_inode_in d euid egid v) (\<lambda>(r, v).
        case r of
          None \<Rightarrow> bindr (iput minix_sops (Some d) v) (\<lambda>v. Inr (- ENOSPC, v))
        | Some i \<Rightarrow>
            let sgid = i_mode (islot v d) AND 0x400 \<noteq> 0;
                v = upd i (\<lambda>n. minix_set_ops (n\<lparr>i_uid := euid, i_mode := mode, i_op := No_ops\<rparr>)) v;
                v = upd i (\<lambda>n. if S_ISDIR (i_mode n) \<and> sgid then n\<lparr>i_mode := i_mode n OR 0x400\<rparr> else n) v;
                v = upd i (\<lambda>n. (if S_ISBLK mode \<or> S_ISCHR mode then n\<lparr>i_rdev := rdev\<rparr> else n)\<lparr>i_dirt := True\<rparr>) v
            in bindr (add_in d name v) (\<lambda>(r, v).
                 case r of
                   Inl error \<Rightarrow> bindr (iput_all [i, d] (drop_link i v)) (\<lambda>v. Inr (error, v))
                 | Inr p \<Rightarrow> bindr (iput_all [d, i] (on_fs d (set_entry p (i_ino (islot v i))) v)) (\<lambda>v. Inr (0, v)))))"

definition dot_entries :: "u16 \<Rightarrow> u16 \<Rightarrow> nat \<Rightarrow> bytes \<Rightarrow> bytes" where
  "dot_entries self parent ds b =
    (let b = (put16 b 0 self)(2 := dot, 3 := 0)
     in (put16 b ds parent)(ds + 2 := dot, ds + 3 := dot, ds + 4 := 0))"

definition minix_mkdir :: "nat \<Rightarrow> u8 list \<Rightarrow> u16 \<Rightarrow> u16 \<Rightarrow> u16 \<Rightarrow> u16 \<Rightarrow> mvfs \<Rightarrow> (int \<times> mvfs) kres" where
  "minix_mkdir d name mode umask euid egid v =
    (case i_sb (islot v d) of
       None \<Rightarrow> bindr (iput minix_sops (Some d) v) (\<lambda>v. Inr (- EINVAL, v))
     | Some s \<Rightarrow>
         bindr (find_in d name v) (\<lambda>r.
           if r \<noteq> None then bindr (iput minix_sops (Some d) v) (\<lambda>v. Inr (- EEXIST, v))
           else if i_nlink (islot v d) \<ge> 250 then bindr (iput minix_sops (Some d) v) (\<lambda>v. Inr (- EMLINK, v))
           else bindr (new_inode_in d euid egid v) (\<lambda>(r, v).
             case r of
               None \<Rightarrow> bindr (iput minix_sops (Some d) v) (\<lambda>v. Inr (- ENOSPC, v))
             | Some i \<Rightarrow>
                 let ds = s_dirsize (sb (s_fs (supers v s)));
                     v = upd i (\<lambda>n. n\<lparr>i_op := Dir_ops, i_size := ucast (2 * ds)\<rparr>) v
                 in bindr (on_inode i (\<lambda>n. minix_bread n 0 True) v) (\<lambda>(blk0, v).
                      case blk0 of
                        None \<Rightarrow> bindr (iput_all [d] v) (\<lambda>v. bindr (iput_all [i] (drop_link i v)) (\<lambda>v. Inr (- ENOSPC, v)))
                      | Some z \<Rightarrow>
                          let v = on_fs i (\<lambda>fs. put_blk z (dot_entries (i_ino (islot v i)) (i_ino (islot v d)) (unat ds) (blk fs z)) fs) v;
                              m = 0x4000 OR (mode AND 0x1FF AND NOT umask);
                              m = (if i_mode (islot v d) AND 0x400 \<noteq> 0 then m OR 0x400 else m);
                              v = upd i (\<lambda>n. n\<lparr>i_nlink := 2, i_mode := m, i_dirt := True\<rparr>) v
                          in bindr (add_in d name v) (\<lambda>(r, v).
                               case r of
                                 Inl error \<Rightarrow>
                                   bindr (iput_all [d] v) (\<lambda>v. bindr (iput_all [i] (upd i (\<lambda>n. n\<lparr>i_nlink := 0\<rparr>) v)) (\<lambda>v. Inr (error, v)))
                               | Inr p \<Rightarrow>
                                   let v = on_fs d (set_entry p (i_ino (islot v i))) v;
                                       v = upd d (\<lambda>n. n\<lparr>i_nlink := i_nlink n + 1, i_dirt := True\<rparr>) v
                                   in bindr (iput_all [d, i] v) (\<lambda>v. Inr (0, v)))))))"

definition minix_rmdir :: "nat \<Rightarrow> u8 list \<Rightarrow> u16 \<Rightarrow> (nat \<Rightarrow> bool) \<Rightarrow> u32 \<Rightarrow> mvfs \<Rightarrow> (int \<times> mvfs) kres" where
  "minix_rmdir d name euid l1 time v =
    bindr (find_in d name v) (\<lambda>r.
      case (r, i_sb (islot v d)) of
        (Some p, Some s) \<Rightarrow>
          bindr (iget minix_sops s (entry_ino d p v) v) (\<lambda>(i, v).
            let n = islot v i; dn = islot v d;
                finish = (\<lambda>retval v. bindr (iput_all [d, i] v) (\<lambda>v. Inr (retval, v)))
            in if i_mode dn AND 0x200 \<noteq> 0 \<and> euid \<noteq> 0 \<and> euid \<noteq> i_uid n \<and> euid \<noteq> i_uid dn then finish (- EPERM) v
               else if i_dev n \<noteq> i_dev dn then finish (- EPERM) v
               else if i = d then finish (- EPERM) v
               else if \<not> S_ISDIR (i_mode n) then finish (- ENOTDIR) v
               else bindr (empty_dir n l1 (s_fs (supers v s))) (\<lambda>e.
                 if \<not> e then finish (- ENOTEMPTY) v
                 else if entry_ino d p v \<noteq> i_ino n then finish (- ENOENT) v
                 else if i_count n > 1 then finish (- EBUSY) v
                 else
                   let v = on_fs d (set_entry p 0) v;
                       v = upd i (\<lambda>n. n\<lparr>i_nlink := 0, i_dirt := True, i_ctime := time\<rparr>) v;
                       v = upd d (\<lambda>n. n\<lparr>i_ctime := time, i_mtime := time, i_nlink := i_nlink n - 1, i_dirt := True\<rparr>) v
                   in finish 0 v))
      | _ \<Rightarrow> bindr (iput_all [d] v) (\<lambda>v. Inr (- ENOENT, v)))"

definition minix_unlink :: "nat \<Rightarrow> u8 list \<Rightarrow> u16 \<Rightarrow> u32 \<Rightarrow> mvfs \<Rightarrow> (int \<times> mvfs) kres" where
  "minix_unlink d name euid time v =
    bindr (find_in d name v) (\<lambda>r.
      case (r, i_sb (islot v d)) of
        (Some p, Some s) \<Rightarrow>
          bindr (iget minix_sops s (entry_ino d p v) v) (\<lambda>(i, v).
            let n = islot v i; dn = islot v d;
                finish = (\<lambda>retval v. bindr (iput_all [i, d] v) (\<lambda>v. Inr (retval, v)))
            in if S_ISDIR (i_mode n) then finish (- EPERM) v
               else if entry_ino d p v \<noteq> i_ino n then Inl Stuck
               else if i_mode dn AND 0x200 \<noteq> 0 \<and> euid \<noteq> 0 \<and> euid \<noteq> i_uid n \<and> euid \<noteq> i_uid dn then finish (- EPERM) v
               else
                 let v = upd i (\<lambda>n. if i_nlink n = 0 then n\<lparr>i_nlink := 1\<rparr> else n) v;
                     v = on_fs d (set_entry p 0) v;
                     v = upd d (\<lambda>n. n\<lparr>i_ctime := time, i_mtime := time, i_dirt := True\<rparr>) v;
                     v = upd i (\<lambda>n. n\<lparr>i_nlink := i_nlink n - 1, i_ctime := time, i_dirt := True\<rparr>) v
                 in finish 0 v)
      | _ \<Rightarrow> bindr (iput_all [d] v) (\<lambda>v. Inr (- ENOENT, v)))"

definition minix_link :: "nat \<Rightarrow> nat \<Rightarrow> u8 list \<Rightarrow> u32 \<Rightarrow> mvfs \<Rightarrow> (int \<times> mvfs) kres" where
  "minix_link oldinode d name time v =
    (if S_ISDIR (i_mode (islot v oldinode)) then bindr (iput_all [oldinode, d] v) (\<lambda>v. Inr (- EPERM, v))
     else if i_nlink (islot v oldinode) \<ge> 250 then bindr (iput_all [oldinode, d] v) (\<lambda>v. Inr (- EMLINK, v))
     else bindr (find_in d name v) (\<lambda>r.
       if r \<noteq> None then bindr (iput_all [d, oldinode] v) (\<lambda>v. Inr (- EEXIST, v))
       else bindr (add_in d name v) (\<lambda>(r, v).
         case r of
           Inl error \<Rightarrow> bindr (iput_all [d, oldinode] v) (\<lambda>v. Inr (error, v))
         | Inr p \<Rightarrow>
             bindr (iput_all [d] (on_fs d (set_entry p (i_ino (islot v oldinode))) v)) (\<lambda>v.
               bindr (iput_all [oldinode] (upd oldinode (\<lambda>n. n\<lparr>i_nlink := i_nlink n + 1, i_ctime := time, i_dirt := True\<rparr>) v))
                 (\<lambda>v. Inr (0, v))))))"

section \<open>Reading directories and links\<close>

definition minix_dir_read :: int where "minix_dir_read = - EISDIR"

definition strnlen :: "bytes \<Rightarrow> nat \<Rightarrow> nat \<Rightarrow> nat" where
  "strnlen d off lim = length (takeWhile (\<lambda>i. d (off + i) \<noteq> 0) [0..<lim])"

primrec readdir_loop ::
    "nat \<Rightarrow> minode \<Rightarrow> ('d \<Rightarrow> u8 list \<Rightarrow> u32 \<Rightarrow> u16 \<Rightarrow> int \<times> 'd) \<Rightarrow> (nat \<times> nat) option \<Rightarrow> u32 \<Rightarrow> 'd \<Rightarrow> minix_fs \<Rightarrow> (u32 \<times> 'd) kres" where
  "readdir_loop 0 ino filldir cur pos dirent fs = Inl Stuck"
| "readdir_loop (Suc n) ino filldir cur pos dirent fs =
    (case cur of
       None \<Rightarrow>
         if \<not> sint pos < sint (i_size ino) then Inr (pos, dirent)
         else bindr (minix_bread ino (ucast (signed_drop_bit 10 pos)) False fs) (\<lambda>(r, _, _).
           case r of
             None \<Rightarrow> readdir_loop n ino filldir None (pos + (1024 - pos AND 1023)) dirent fs
           | Some z \<Rightarrow> readdir_loop n ino filldir (Some (z, unat (pos AND 1023))) pos dirent fs)
     | Some (z, offset) \<Rightarrow>
         let d = blk fs z;
             ds = s_dirsize (sb fs);
             (r, dirent) =
               (if get16 d offset \<noteq> 0 then
                  filldir dirent (map (\<lambda>i. d (offset + 2 + i)) [0..<strnlen d (offset + 2) (unat (s_namelen (sb fs)))]) pos (get16 d offset)
                else (0, dirent))
         in if r < 0 then Inr (pos, dirent)
            else
              let offset = offset + unat ds;
                  pos = pos + ucast ds
              in readdir_loop n ino filldir (if offset < 1024 \<and> sint pos < sint (i_size ino) then Some (z, offset) else None) pos dirent fs)"

definition minix_readdir ::
    "minode \<Rightarrow> kfile \<Rightarrow> ('d \<Rightarrow> u8 list \<Rightarrow> u32 \<Rightarrow> u16 \<Rightarrow> int \<times> 'd) \<Rightarrow> 'd \<Rightarrow> minix_fs \<Rightarrow> (int \<times> kfile \<times> 'd) kres" where
  "minix_readdir ino filp filldir dirent fs =
    (if i_sb ino = None \<or> \<not> S_ISDIR (i_mode ino) then Inr (- EBADF, filp, dirent)
     else if f_pos filp AND ucast (s_dirsize (sb fs) - 1) \<noteq> 0 then Inr (- EBADF, filp, dirent)
     else bindr (readdir_loop (2 * unat (i_size ino) + 2) ino filldir None (f_pos filp) dirent fs) (\<lambda>(pos, dirent).
       Inr (0, filp\<lparr>f_pos := pos\<rparr>, dirent)))"

definition minix_readlink :: "nat \<Rightarrow> int \<Rightarrow> mvfs \<Rightarrow> (int \<times> u8 list \<times> mvfs) kres" where
  "minix_readlink i buflen v =
    (if \<not> S_ISLNK (i_mode (islot v i)) then bindr (iput minix_sops (Some i) v) (\<lambda>v. Inr (- EINVAL, [], v))
     else
       let buflen = (if buflen > 1023 then 1023 else buflen)
       in bindr (on_inode i (\<lambda>n. minix_bread n 0 False) v) (\<lambda>(bh, v).
            bindr (iput minix_sops (Some i) v) (\<lambda>w.
              case (bh, i_sb (islot v i)) of
                (Some z, Some s) \<Rightarrow>
                  let d = blk (s_fs (supers w s)) z;
                      out = takeWhile (\<lambda>c. c \<noteq> 0) (map d [0..<nat buflen])
                  in Inr (int (length out), out, w)
              | _ \<Rightarrow> Inr (0, [], w))))"

end
