(* ===== verification/MinixEntries.thy ===== *)
theory MinixEntries
  imports MinixDir
begin

text \<open>
  What searching and adding directory entries amount to. A directory is the sequence of its
  entries, \<open>dino\<close> and \<open>dname\<close>, read off the bytes of the file; \<open>dfind\<close> is the reference
  search. The main results: \<^verbatim>\<open>minix_find_entry\<close> finds the first entry of a name in a directory of
  at most 63 blocks, and never ends when the name is missing from one of 64 KB or more;
  a name added is found, and every other name is found where it was.
\<close>

section \<open>The directory as a sequence of entries\<close>

definition dname :: "minix_fs \<Rightarrow> minode \<Rightarrow> nat \<Rightarrow> u8 list" where
  "dname fs dir k = takeWhile (\<lambda>c. c \<noteq> 0)
     (map (\<lambda>i. byte_at fs dir (k * unat (s_dirsize (sb fs)) + 2 + i)) [0..<unat (s_namelen (sb fs))])"

definition dino :: "minix_fs \<Rightarrow> minode \<Rightarrow> nat \<Rightarrow> u16" where
  "dino fs dir k = get16 (byte_at fs dir) (k * unat (s_dirsize (sb fs)))"

definition dcount :: "minix_fs \<Rightarrow> minode \<Rightarrow> nat" where
  "dcount fs dir = unat (i_size dir) div unat (s_dirsize (sb fs))"

definition dfind :: "minix_fs \<Rightarrow> minode \<Rightarrow> u8 list \<Rightarrow> nat option" where
  "dfind fs dir name = find (\<lambda>k. dino fs dir k \<noteq> 0 \<and> dname fs dir k = take (unat (s_namelen (sb fs))) name) [0..<dcount fs dir]"

definition dplace :: "minix_fs \<Rightarrow> minode \<Rightarrow> nat \<Rightarrow> nat \<times> nat" where
  "dplace fs dir k =
    (let p = k * unat (s_dirsize (sb fs)) in (unat (lookup fs dir (path_of (p div 1024))), p mod 1024))"

definition dir_fs :: "minix_fs \<Rightarrow> bool" where
  "dir_fs fs \<longleftrightarrow> readable fs \<and> unat (s_dirsize (sb fs)) = unat (s_namelen (sb fs)) + 2 \<and> unat (s_dirsize (sb fs)) \<in> {16, 32}"

definition is_name :: "u8 list \<Rightarrow> bool" where
  "is_name name \<longleftrightarrow> name \<noteq> [] \<and> 0 \<notin> set name"

lemma takeWhile_nz: "0 \<notin> set xs \<Longrightarrow> takeWhile (\<lambda>c. c \<noteq> (0 :: u8)) (xs @ ys) = xs @ takeWhile (\<lambda>c. c \<noteq> 0) ys"
  by (induction xs) auto

lemma namecompare_iff:
  assumes "0 \<notin> set name"
  shows "namecompare (min (length name) lim) lim name d off \<longleftrightarrow>
    takeWhile (\<lambda>c. c \<noteq> 0) (map (\<lambda>i. d (off + i)) [0..<lim]) = take lim name" (is "?l \<longleftrightarrow> takeWhile ?P ?ys = ?n")
proof -
  let ?len = "min (length name) lim"
  have n0: "0 \<notin> set ?n" using assms by (meson in_set_takeD)
  have l: "?l \<longleftrightarrow> (?len < lim \<longrightarrow> d (off + ?len) = 0) \<and> take ?len ?ys = ?n"
    by (auto simp: namecompare_def list_all_iff list_eq_iff_nth_eq)
  show ?thesis
  proof
    assume ?l
    then have t: "take ?len ?ys = ?n" and z: "?len < lim \<Longrightarrow> d (off + ?len) = 0" using l by auto
    have "takeWhile ?P (drop ?len ?ys) = []"
      using z by (cases "?len < lim") (simp_all add: Cons_nth_drop_Suc[symmetric])
    then show "takeWhile ?P ?ys = ?n"
      using takeWhile_nz[OF n0, of "drop ?len ?ys"] t by (metis append_Nil2 append_take_drop_id)
  next
    assume a: "takeWhile ?P ?ys = ?n"
    then have t: "take ?len ?ys = ?n" by (metis length_take takeWhile_eq_take)
    have "d (off + ?len) = 0" if "?len < lim"
    proof -
      have len: "length (takeWhile ?P ?ys) = ?len" unfolding a by simp
      have "?len < length ?ys" using that by simp
      from nth_length_takeWhile[of ?P ?ys, unfolded len, OF this] have "\<not> ?P (?ys ! ?len)" .
      moreover have "?ys ! ?len = d (off + ?len)" using that by (simp only: nth_map length_upt diff_zero nth_upt add_0)
      ultimately show ?thesis by simp
    qed
    with t l show ?l by blast
  qed
qed

lemma bread_get:
  assumes "readable fs"
  shows "minix_bread dir b False fs =
    Inr (let z = lookup fs dir (path_of (unat b)) in if z = 0 then None else Some (unat z), dir, fs)"
  using assms by (simp add: minix_bread_def minix_getblk_def bmap_reads readable_def Let_def)

text \<open>An entry lies within one block.\<close>

lemma entry_within:
  assumes "ds \<in> {16, 32}" and "k * ds = b * 1024 + off" and "off < 1024"
  shows "off + ds \<le> (1024 :: nat)"
proof -
  from assms(1) consider "ds = 16" | "ds = 32" by auto
  then show ?thesis
  proof cases
    case 1
    then have "16 dvd off" using assms(2) by presburger
    then show ?thesis using 1 assms(3) by (elim dvdE) simp
  next
    case 2
    then have "32 dvd off" using assms(2) by presburger
    then show ?thesis using 2 assms(3) by (elim dvdE) simp
  qed
qed

lemma entry_byte:
  assumes "k * ds = b * 1024 + off" and "off + j < (1024 :: nat)"
  shows "byte_at fs dir (k * ds + j) = content fs dir b (off + j)"
proof -
  have "k * ds + j = b * 1024 + (off + j)" using assms(1) by simp
  moreover have "(b * 1024 + (off + j)) div 1024 = b" "(b * 1024 + (off + j)) mod 1024 = off + j"
    using assms(2) by simp_all
  ultimately show ?thesis unfolding byte_at_def by metis
qed

text \<open>The state of the search: at entry \<open>k\<close>, which is at \<open>off\<close> in block \<open>b\<close>; \<open>bh\<close> is its buffer.\<close>

definition dir_at :: "minix_fs \<Rightarrow> minode \<Rightarrow> nat option \<Rightarrow> u16 \<Rightarrow> nat \<Rightarrow> nat \<Rightarrow> bool" where
  "dir_at fs dir bh b off k \<longleftrightarrow> k * unat (s_dirsize (sb fs)) = unat b * 1024 + off \<and> off < 1024 \<and> unat b \<le> 63 \<and>
    (case bh of None \<Rightarrow> off = 0
     | Some z \<Rightarrow> lookup fs dir (path_of (unat b)) \<noteq> 0 \<and> z = unat (lookup fs dir (path_of (unat b))))"

text \<open>Entry \<open>k\<close> of a directory, seen in its block.\<close>

lemma get16_slot:
  assumes fs: "dir_fs fs" and k: "k * unat (s_dirsize (sb fs)) = b * 1024 + off" "off < 1024"
    and z: "lookup fs dir (path_of b) \<noteq> 0" "z = unat (lookup fs dir (path_of b))"
  shows "get16 (blk fs z) off = dino fs dir k"
    and "0 \<notin> set name \<Longrightarrow> namecompare (min (length name) (unat (s_namelen (sb fs)))) (unat (s_namelen (sb fs))) name (blk fs z) (off + 2) \<longleftrightarrow>
      dname fs dir k = take (unat (s_namelen (sb fs))) name"
proof -
  let ?ds = "unat (s_dirsize (sb fs))" and ?lim = "unat (s_namelen (sb fs))"
  have d: "?ds \<in> {16, 32}" "?ds = ?lim + 2" using fs by (auto simp: dir_fs_def)
  have w: "off + ?ds \<le> 1024" by (rule entry_within[OF d(1) k])
  have c: "content fs dir b = blk fs z" using z by (simp add: content_def)
  have e: "byte_at fs dir (k * ?ds + j) = blk fs z (off + j)" if "j < ?ds" for j
    using entry_byte[OF k(1), of j fs dir] w that c by simp
  show "get16 (blk fs z) off = dino fs dir k"
    using e[of 0] e[of 1] d(2) by (simp add: dino_def get16_def)
  have n: "dname fs dir k = takeWhile (\<lambda>c. c \<noteq> 0) (map (\<lambda>i. blk fs z (off + 2 + i)) [0..<?lim])"
    unfolding dname_def using e[of "2 + _"] d(2) by (intro arg_cong[of _ _ "takeWhile _"] map_cong) (simp_all only: add.assoc set_upt atLeastLessThan_iff, simp)
  show "0 \<notin> set name \<Longrightarrow> namecompare (min (length name) ?lim) ?lim name (blk fs z) (off + 2) \<longleftrightarrow> dname fs dir k = take ?lim name"
    unfolding n by (rule namecompare_iff)
qed

lemma match_slot:
  assumes fs: "dir_fs fs" and name: "is_name name" and k: "k * unat (s_dirsize (sb fs)) = b * 1024 + off" "off < 1024"
    and z: "lookup fs dir (path_of b) \<noteq> 0" "z = unat (lookup fs dir (path_of b))"
  shows "minix_match (min (length name) (unat (s_namelen (sb fs)))) name (blk fs z) off (sb fs) \<longleftrightarrow>
    dino fs dir k \<noteq> 0 \<and> dname fs dir k = take (unat (s_namelen (sb fs))) name"
proof -
  have l: "\<not> (min (length name) (unat (s_namelen (sb fs))) = 0 \<and> P)" for P
    using name fs by (auto simp: is_name_def dir_fs_def)
  have "0 \<notin> set name" using name by (simp add: is_name_def)
  from get16_slot[OF fs k z] this show ?thesis unfolding minix_match_def if_not_P[OF l] by simp
qed

lemma get16_entry:
  assumes "dir_fs fs" and "dir_at fs dir (Some z) b off k"
  shows "get16 (blk fs z) off = dino fs dir k"
    and "0 \<notin> set name \<Longrightarrow> namecompare (min (length name) (unat (s_namelen (sb fs)))) (unat (s_namelen (sb fs))) name (blk fs z) (off + 2) \<longleftrightarrow>
      dname fs dir k = take (unat (s_namelen (sb fs))) name"
  using get16_slot[OF assms(1), of k "unat b" off dir z] assms(2) by (auto simp: dir_at_def)

lemma match_entry:
  assumes "dir_fs fs" and "is_name name" and "dir_at fs dir (Some z) b off k"
  shows "minix_match (min (length name) (unat (s_namelen (sb fs)))) name (blk fs z) off (sb fs) \<longleftrightarrow>
    dino fs dir k \<noteq> 0 \<and> dname fs dir k = take (unat (s_namelen (sb fs))) name"
  using assms by (intro match_slot[where b = "unat b"]) (auto simp: dir_at_def)

lemma hole_entry:
  assumes fs: "dir_fs fs" and k: "k * unat (s_dirsize (sb fs)) div 1024 = b" and z: "lookup fs dir (path_of b) = 0"
  shows "dino fs dir k = 0"
proof -
  let ?ds = "unat (s_dirsize (sb fs))" and ?off = "k * unat (s_dirsize (sb fs)) mod 1024"
  have d: "?ds \<in> {16, 32}" using fs by (auto simp: dir_fs_def)
  have e: "k * ?ds = b * 1024 + ?off" using k by auto
  have "?off + ?ds \<le> 1024" by (rule entry_within[OF d e]) simp
  then have "byte_at fs dir (k * ?ds + j) = 0" if "j < 2" for j
    using entry_byte[OF e, of j fs dir] that d z by (auto simp: content_def)
  from this[of 0] this[of 1] show ?thesis by (simp add: dino_def get16_def)
qed


lemma find_later: "\<forall>x \<in> set xs. \<not> P x \<Longrightarrow> find P (xs @ ys) = find P ys"
  by (induction xs) auto

lemma find_skip:
  assumes "\<And>i. k \<le> i \<Longrightarrow> i < m \<Longrightarrow> \<not> P i" and "k \<le> m"
  shows "find P [k..<n] = find P [m..<n]"
proof -
  have "find P [k..<n] = find P [m..<n]" if "m \<le> n"
  proof -
    have "[k..<n] = [k..<m] @ [m..<n]" using assms(2) that upt_add_eq_append[of k m "n - m"] by simp
    then show ?thesis using assms(1) by (simp add: find_later)
  qed
  moreover have "find P [k..<n] = find P [m..<n]" if "n < m"
    using assms(1) that by (auto simp: find_None_iff)
  ultimately show ?thesis by (cases "m \<le> n") auto
qed

definition small_dir :: "minix_fs \<Rightarrow> minode \<Rightarrow> bool" where
  "small_dir fs dir \<longleftrightarrow> unat (i_size dir) \<le> 64512 \<and> unat (s_dirsize (sb fs)) dvd unat (i_size dir)"

lemma block_bytes_u16: "unat (b :: u16) \<le> 63 \<Longrightarrow> unat (b * 1024) = unat b * 1024"
  by (simp add: unat_word_ariths)

lemma block_next_u16: "unat (b :: u16) \<le> 63 \<Longrightarrow> unat (b + 1) = unat b + 1"
  by (simp add: unat_word_ariths)

lemma dir_at_inside:
  assumes "small_dir fs dir" "dir_fs fs" "dir_at fs dir bh b off k"
  shows "unat (b * 1024) + off < unat (i_size dir) \<longleftrightarrow> k < dcount fs dir"
    and "k < dcount fs dir \<Longrightarrow> unat b \<le> 62"
proof -
  let ?ds = "unat (s_dirsize (sb fs))"
  have d: "?ds \<in> {16, 32}" using assms(2) by (auto simp: dir_fs_def)
  have s: "unat (i_size dir) = dcount fs dir * ?ds" using assms(1) by (auto simp: small_dir_def dcount_def)
  have k: "k * ?ds = unat b * 1024 + off" "unat b \<le> 63" using assms(3) by (auto simp: dir_at_def)
  have m: "k * ?ds < dcount fs dir * ?ds \<longleftrightarrow> k < dcount fs dir" using d by auto
  show "unat (b * 1024) + off < unat (i_size dir) \<longleftrightarrow> k < dcount fs dir"
    using m block_bytes_u16[OF k(2)] k(1) s by simp
  show "unat b \<le> 62" if "k < dcount fs dir"
  proof -
    have "unat b * 1024 + off < 64512" using that m k(1) s assms(1) by (simp add: small_dir_def)
    then show ?thesis by simp
  qed
qed

lemma dir_at_next:
  assumes "dir_fs fs" "dir_at fs dir (Some z) b off k" "unat b \<le> 62"
  shows "off + unat (s_dirsize (sb fs)) < 1024 \<Longrightarrow> dir_at fs dir (Some z) b (off + unat (s_dirsize (sb fs))) (Suc k)"
    and "\<not> off + unat (s_dirsize (sb fs)) < 1024 \<Longrightarrow> dir_at fs dir None (b + 1) 0 (Suc k)"
proof -
  let ?ds = "unat (s_dirsize (sb fs))"
  have d: "?ds \<in> {16, 32}" using assms(1) by (auto simp: dir_fs_def)
  have k: "k * ?ds = unat b * 1024 + off" "off < 1024" using assms(2) by (auto simp: dir_at_def)
  have w: "off + ?ds \<le> 1024" by (rule entry_within[OF d k])
  show "off + ?ds < 1024 \<Longrightarrow> dir_at fs dir (Some z) b (off + ?ds) (Suc k)"
    using assms(2) by (auto simp: dir_at_def)
  assume "\<not> off + ?ds < 1024"
  with w have "off + ?ds = 1024" by simp
  then show "dir_at fs dir None (b + 1) 0 (Suc k)"
    using k(1) assms(3) block_next_u16[of b] by (simp add: dir_at_def)
qed

lemma dir_at_hole:
  assumes "dir_fs fs" "dir_at fs dir None b off k" "unat b \<le> 62" and "lookup fs dir (path_of (unat b)) = 0"
  shows "\<exists>m > k. dir_at fs dir None (b + 1) off m \<and> (\<forall>i. k \<le> i \<and> i < m \<longrightarrow> dino fs dir i = 0)"
proof -
  let ?ds = "unat (s_dirsize (sb fs))"
  have d: "?ds \<in> {16, 32}" using assms(1) by (auto simp: dir_fs_def)
  then obtain c where c: "c * ?ds = 1024" "0 < c" by (auto intro: that[of 64] that[of 32])
  have k: "k * ?ds = unat b * 1024" "off = 0" using assms(2) by (auto simp: dir_at_def)
  have "dir_at fs dir None (b + 1) off (k + c)"
    using k c assms(3) block_next_u16[of b] by (simp add: dir_at_def add_mult_distrib)
  moreover have "dino fs dir i = 0" if "k \<le> i" "i < k + c" for i
  proof (rule hole_entry[OF assms(1) _ assms(4)])
    have "unat b * 1024 \<le> i * ?ds" using that(1) k(1) by (metis mult_le_mono1)
    moreover have "i * ?ds < (k + c) * ?ds" using that(2) d by auto
    then have "i * ?ds < unat b * 1024 + 1024" using k(1) c(1) by (simp add: add_mult_distrib)
    ultimately show "i * ?ds div 1024 = unat b" by simp
  qed
  ultimately show ?thesis using c(2) by (intro exI[of _ "k + c"]) auto
qed

lemma dplace_at: "dir_at fs dir (Some z) b off k \<Longrightarrow> dplace fs dir k = (z, off)"
  by (auto simp: dir_at_def dplace_def Let_def)

lemma find_loop:
  assumes fs: "dir_fs fs" "small_dir fs dir" "is_name name"
  shows "dir_at fs dir bh b off k \<Longrightarrow> dcount fs dir - k < n \<Longrightarrow>
    find_entry_loop n dir (min (length name) (unat (s_namelen (sb fs)))) name bh b off fs =
    Inr (map_option (dplace fs dir)
      (find (\<lambda>k. dino fs dir k \<noteq> 0 \<and> dname fs dir k = take (unat (s_namelen (sb fs))) name) [k..<dcount fs dir]))"
    (is "_ \<Longrightarrow> _ \<Longrightarrow> ?loop n bh b off = Inr (map_option _ (find ?P [k..<?N]))")
proof (induction n arbitrary: bh b off k)
  case 0
  then show ?case by simp
next
  case (Suc n)
  note ins = dir_at_inside[OF fs(2,1) Suc.prems(1)]
  have rd: "readable fs" using fs(1) by (simp add: dir_fs_def)
  show ?case
  proof (cases "k < ?N")
    case False
    then show ?thesis using ins(1) by simp
  next
    case True
    have b: "unat b \<le> 62" by (rule ins(2)[OF True])
    let ?z = "lookup fs dir (path_of (unat b))"
    let ?bh = "if ?z = 0 then None else Some (unat ?z)"
    have get: "(case bh of Some z \<Rightarrow> Inr (Some z) | None \<Rightarrow> bindr (minix_bread dir b False fs) (\<lambda>(r, _, _). Inr r)) = Inr ?bh"
      using Suc.prems(1) by (auto simp: dir_at_def bread_get[OF rd] Let_def split: option.splits)
    show ?thesis
    proof (cases "?z = 0")
      case z: True
      then have "bh = None" using Suc.prems(1) by (auto simp: dir_at_def split: option.splits)
      with Suc.prems(1) obtain m where m: "m > k" "dir_at fs dir None (b + 1) off m" "\<And>i. k \<le> i \<Longrightarrow> i < m \<Longrightarrow> dino fs dir i = 0"
        using dir_at_hole[OF fs(1) _ b z] by blast
      have "?loop (Suc n) bh b off = ?loop n None (b + 1) off"
        using True ins(1) get z by simp
      also have "\<dots> = Inr (map_option (dplace fs dir) (find ?P [m..<?N]))"
        using Suc.prems(2) m(1) True by (intro Suc.IH[OF m(2)]) simp
      also have "find ?P [m..<?N] = find ?P [k..<?N]"
        using m(1,3) by (intro find_skip[symmetric]) auto
      finally show ?thesis .
    next
      case z: False
      have at: "dir_at fs dir (Some (unat ?z)) b off k" using Suc.prems(1) z by (auto simp: dir_at_def split: option.splits)
      have mt: "minix_match (min (length name) (unat (s_namelen (sb fs)))) name (blk fs (unat ?z)) off (sb fs) \<longleftrightarrow> ?P k"
        by (rule match_entry[OF fs(1,3) at])
      have up: "[k..<?N] = k # [Suc k..<?N]" using True by (simp add: upt_conv_Cons)
      show ?thesis
      proof (cases "?P k")
        case P: True
        then show ?thesis using True ins(1) get z mt up dplace_at[OF at] by simp
      next
        case P: False
        let ?o = "off + unat (s_dirsize (sb fs))"
        have "?loop (Suc n) bh b off = (if ?o < 1024 then ?loop n (Some (unat ?z)) b ?o else ?loop n None (b + 1) 0)"
          using True ins(1) get z mt P by (simp add: Let_def)
        also have "\<dots> = Inr (map_option (dplace fs dir) (find ?P [Suc k..<?N]))"
          using Suc.IH[OF dir_at_next(1)[OF fs(1) at b]] Suc.IH[OF dir_at_next(2)[OF fs(1) at b]] Suc.prems(2) True by simp
        also have "find ?P [Suc k..<?N] = find ?P [k..<?N]" unfolding up find.simps if_not_P[OF P] ..
        finally show ?thesis .
      qed
    qed
  qed
qed

lemma find_entry_first:
  assumes "dir_fs fs" and "small_dir fs dir" and "is_name name" and "i_sb dir \<noteq> None"
  shows "minix_find_entry dir name fs = Inr (map_option (dplace fs dir) (dfind fs dir name))"
proof -
  have "dcount fs dir < 4200"
  proof -
    have "dcount fs dir \<le> unat (i_size dir) div 16" unfolding dcount_def using assms(1) by (auto simp: dir_fs_def)
    also have "\<dots> \<le> 64512 div 16" using assms(2) by (intro div_le_mono) (simp add: small_dir_def)
    finally show ?thesis by simp
  qed
  moreover have "dir_at fs dir None 0 0 0" by (simp add: dir_at_def)
  ultimately show ?thesis using find_loop[OF assms(1-3), of None 0 0 0 4200] assms(4)
    by (auto simp: minix_find_entry_def dfind_def simp del: find_entry_loop.simps)
qed

section \<open>Adding an entry\<close>

definition raw_slot :: "u16 \<Rightarrow> nat \<Rightarrow> u8 list \<Rightarrow> u8 list" where
  "raw_slot ino lim name = [of_nat (unat ino), of_nat (unat ino div 256)] @ take lim name @ replicate (lim - length name) 0"

lemma length_raw_slot [simp]: "length (raw_slot ino lim name) = lim + 2"
  by (simp add: raw_slot_def)

lemma get16_eq_0: "get16 d k = 0 \<longleftrightarrow> d k = 0 \<and> d (k + 1) = 0"
proof -
  have "unat (d k) + 256 * unat (d (k + 1)) < 65536"
    using unsigned_less[of "d k", where ?'a = nat] unsigned_less[of "d (k + 1)", where ?'a = nat] by simp
  from of_nat_u16_eq_0[OF this] show ?thesis by (simp add: get16_def unat_eq_0)
qed

text \<open>Clearing and naming the entry is one write of its bytes.\<close>

lemma set_name_copy_in:
  assumes "get16 d off = 0"
  shows "set_name d (off + 2) lim (min (length name) lim) name = copy_in d off (raw_slot 0 lim name)"
proof
  fix q
  have z: "d off = 0" "d (Suc off) = 0" using assms by (simp_all add: get16_eq_0)
  consider "q < off" | "q = off" | "q = Suc off" | "off + 2 \<le> q" "q < off + 2 + lim" | "off + 2 + lim \<le> q"
    by linarith
  then show "set_name d (off + 2) lim (min (length name) lim) name q = copy_in d off (raw_slot 0 lim name) q"
  proof cases
    case 4
    then obtain j where j: "q = off + 2 + j" "j < lim" using le_Suc_ex[OF 4(1)] by auto
    have "raw_slot 0 lim name ! (j + 2) = (if j < min (length name) lim then name ! j else 0)"
      using j(2) by (auto simp: raw_slot_def nth_append)
    with j show ?thesis by (simp add: set_name_def copy_in_def)
  next
    case 5
    then show ?thesis by (simp add: set_name_def copy_in_def)
  qed (use z in \<open>simp_all add: set_name_def copy_in_def raw_slot_def\<close>)
qed

lemma map_izone_i_sb: "map_izone ino k c fs = Inr (z, ino', fs') \<Longrightarrow> i_sb ino' = i_sb ino"
  unfolding map_izone_def Let_def bindr_def
  by (cases "minix_new_block fs") (force split: if_split_asm)+

lemma bmap_i_sb: "minix_bmap ino b c fs = Inr (z, ino', fs') \<Longrightarrow> i_sb ino' = i_sb ino"
  unfolding minix_bmap_def Let_def bindr_def
  by (simp split: if_split_asm sum.split_asm prod.split_asm; metis map_izone_i_sb)

lemma bread_create:
  assumes ok: "zmap_ok fs" "file_ok fs dir" "readable fs"
  shows "\<exists>z dir' fs'. minix_bread dir b True fs = Inr (if z = 0 then None else Some (unat z), dir', fs') \<and>
    lookup fs' dir' (path_of (unat b)) = z \<and> extends fs dir fs' dir' \<and> i_sb dir' = i_sb dir \<and> (z = 0 \<longrightarrow> zones_full fs')"
proof -
  obtain z dir' fs' where m: "minix_bmap dir b True fs = Inr (z, dir', fs')" "mapped True fs dir (path_of (unat b)) z dir' fs'"
    using bmap_mapped[OF ok, of b True] by blast
  then have e: "extends fs dir fs' dir'" by (simp add: mapped_def)
  have "readable fs'" by (rule readable_extends[OF e ok(3)])
  then have "minix_bread dir b True fs = Inr (if z = 0 then None else Some (unat z), dir', fs')"
    using m(1) by (simp add: minix_bread_def minix_getblk_def readable_def)
  then show ?thesis using m bmap_i_sb[OF m(1)] by (auto simp: mapped_def)
qed


text \<open>What the directory is after entry \<open>k\<close> was written.\<close>

definition added :: "nat \<Rightarrow> u16 \<Rightarrow> u8 list \<Rightarrow> minix_fs \<Rightarrow> minode \<Rightarrow> minix_fs \<Rightarrow> minode \<Rightarrow> bool" where
  "added k ino name fs dir fs' dir' \<longleftrightarrow>
    (let ds = unat (s_dirsize (sb fs)) in
     zmap_ok fs' \<and> file_ok fs' dir' \<and> readable fs' \<and> sb fs' = sb fs \<and> i_sb dir' = i_sb dir \<and>
     unat (i_size dir') = max (unat (i_size dir)) ((k + 1) * ds) \<and> lookup fs' dir' (path_of (k * ds div 1024)) \<noteq> 0 \<and>
     (\<forall>n<67108864. byte_at fs' dir' n =
        (if k * ds \<le> n \<and> n < k * ds + ds then raw_slot ino (unat (s_namelen (sb fs))) name ! (n - k * ds) else byte_at fs dir n)))"

lemma dino_extends:
  assumes "zmap_ok fs" "file_ok fs dir" "extends fs dir fs' dir'" "dir_fs fs" "k * unat (s_dirsize (sb fs)) \<le> 64512"
  shows "dino fs' dir' k = dino fs dir k" "dname fs' dir' k = dname fs dir k"
proof -
  have d: "unat (s_dirsize (sb fs)) = unat (s_namelen (sb fs)) + 2" "unat (s_dirsize (sb fs)) \<le> 32"
    using assms(4) by (auto simp: dir_fs_def)
  have sbs: "sb fs' = sb fs" using extendsD(3)[OF assms(3)] .
  have b: "byte_at fs' dir' n = byte_at fs dir n" if "n < 67108864" for n
    by (rule extends_byte_at[OF assms(1-3) that])
  show "dino fs' dir' k = dino fs dir k" using assms(5) by (simp add: dino_def get16_def sbs b)
  show "dname fs' dir' k = dname fs dir k" unfolding dname_def sbs
    using assms(5) d by (intro arg_cong[of _ _ "takeWhile _"] map_cong) (auto simp: b)
qed

lemma byte_at_i_zone: "i_zone ino' = i_zone ino \<Longrightarrow> byte_at fs ino' n = byte_at fs ino n"
  by (simp add: byte_at_def content_def lookup_i_zone[of ino' ino])

lemma file_ok_i_zone: "i_zone ino' = i_zone ino \<Longrightarrow> file_ok fs ino' = file_ok fs ino"
  by (simp add: file_ok_def lookup_i_zone[of ino' ino])

lemma uptodate_id: "\<not> bad fs z \<Longrightarrow> mark_uptodate z fs = fs"
  by (simp add: mark_uptodate_def fun_upd_idem)

text \<open>Writing the bytes of an entry into its block.\<close>

lemma write_slot:
  assumes ok: "zmap_ok fs0" "file_ok fs0 dir0" "dir_fs fs0" and e: "extends fs0 dir0 fs dir" "i_sb dir = i_sb dir0"
    and at: "dir_at fs dir (Some z) b off k"
    and len: "length xs \<le> unat (s_dirsize (sb fs0))" and fs': "fs' = put_blk z (copy_in (blk fs z) off xs) fs"
    and n: "n < 67108864"
  shows "zmap_ok fs'" "file_ok fs' dir" "readable fs'" "sb fs' = sb fs0"
    "lookup fs' dir (path_of (k * unat (s_dirsize (sb fs0)) div 1024)) \<noteq> 0" "dir_at fs' dir (Some z) b off k"
    "byte_at fs' dir n = (if k * unat (s_dirsize (sb fs0)) \<le> n \<and> n < k * unat (s_dirsize (sb fs0)) + length xs
       then xs ! (n - k * unat (s_dirsize (sb fs0))) else byte_at fs0 dir0 n)"
proof -
  let ?ds = "unat (s_dirsize (sb fs0))"
  have sbs: "sb fs = sb fs0" by (rule extendsD(3)[OF e(1)])
  have d: "?ds \<in> {16, 32}" using ok(3) by (auto simp: dir_fs_def)
  have k: "k * ?ds = unat b * 1024 + off" "off < 1024" and l: "lookup fs dir (path_of (unat b)) \<noteq> 0" "z = unat (lookup fs dir (path_of (unat b)))"
    using at by (auto simp: dir_at_def sbs)
  have w: "off + ?ds \<le> 1024" by (rule entry_within[OF d k])
  have rd: "readable fs" using readable_extends[OF e(1)] ok(3) by (simp add: dir_fs_def)
  have up: "fs' = mark_uptodate z (put_blk z (copy_in (blk fs z) off xs) fs)"
    using rd fs' by (subst uptodate_id) (simp_all add: readable_def put_blk_def)
  have b: "unat b < 65536" by (rule u16_less)
  note v = valid_path_of[OF b] and ok1 = extendsD(1,2)[OF e(1)]
  note pl = put_leaf[OF ok1 conjunct1[OF v] conjunct2[OF v] refl l(1) up[unfolded l(2)]]
  show "zmap_ok fs'" "file_ok fs' dir" by (rule pl(1), rule pl(2))
  show "readable fs'" by (rule pl(5)[OF rd])
  show "sb fs' = sb fs0" using sbs by (simp add: fs')
  have lk: "lookup fs' dir (path_of (unat b)) = lookup fs dir (path_of (unat b))" by (rule pl(3)[OF conjunct1[OF v]])
  have kb: "k * ?ds div 1024 = unat b" using k by simp
  show "lookup fs' dir (path_of (k * ?ds div 1024)) \<noteq> 0" unfolding kb lk by (rule l(1))
  show "dir_at fs' dir (Some z) b off k" using at lk by (simp add: dir_at_def fs')
  have r: "off + length xs \<le> 1024" using len w by simp
  have kk: "1024 * unat b + off = k * ?ds" using k(1) by simp
  show "byte_at fs' dir n = (if k * ?ds \<le> n \<and> n < k * ?ds + length xs then xs ! (n - k * ?ds) else byte_at fs0 dir0 n)"
    using put_leaf_bytes[OF ok1 b refl l(1) up[unfolded l(2)] r n, unfolded kk extends_byte_at[OF ok(1,2) e(1) n]] .
qed

definition add_post :: "minix_fs \<Rightarrow> minode \<Rightarrow> u8 list \<Rightarrow> int + nat \<times> nat \<Rightarrow> minode \<Rightarrow> minix_fs \<Rightarrow> bool" where
  "add_post fs dir name r dir' fs' \<longleftrightarrow>
    (case r of
       Inl e \<Rightarrow> extends fs dir fs' dir' \<and> i_sb dir' = i_sb dir \<and>
         (e = - EEXIST \<and> dfind fs dir name \<noteq> None \<or> e = - ENOSPC \<and> zones_full fs')
     | Inr p \<Rightarrow> (\<exists>k \<le> dcount fs dir. (k < dcount fs dir \<longrightarrow> dino fs dir k = 0) \<and>
         (\<forall>i<k. dino fs dir i \<noteq> 0 \<and> dname fs dir i \<noteq> take (unat (s_namelen (sb fs))) name) \<and>
         p = dplace fs' dir' k \<and> added k 0 name fs dir fs' dir'))"

lemma put_blk_over: "put_blk z d (fs\<lparr>blk := (blk fs)(z := x)\<rparr>) = put_blk z d fs"
  by (simp add: put_blk_def)

lemma copy_in_put16: "copy_in (put16 d off v) off (x # y # xs) = copy_in d off (x # y # xs)"
  by (auto simp: copy_in_def put16_def fun_eq_iff)

lemma set_name_cleared:
  assumes "f = (if g then put16 d off 0 else d)" and "get16 f off = 0"
  shows "set_name f (off + 2) lim (min (length name) lim) name = copy_in d off (raw_slot 0 lim name)"
  using set_name_copy_in[OF assms(2), of lim name] assms(1) by (auto simp: raw_slot_def copy_in_put16)

lemma added_slot:
  assumes ok: "zmap_ok fs0" "file_ok fs0 dir0" "dir_fs fs0" "small_dir fs0 dir0" and e: "extends fs0 dir0 fs dir" "i_sb dir = i_sb dir0"
    and at: "dir_at fs dir (Some z) b off k" and k: "k \<le> dcount fs0 dir0"
    and fs': "fs' = put_blk z (copy_in (blk fs z) off (raw_slot 0 (unat (s_namelen (sb fs0))) name)) fs"
    and dir': "i_zone dir' = i_zone dir" "i_sb dir' = i_sb dir"
      "i_size dir' = (if k = dcount fs0 dir0 then of_nat (unat b * 1024 + (off + unat (s_dirsize (sb fs0)))) else i_size dir)"
  shows "added k 0 name fs0 dir0 fs' dir'" "dplace fs' dir' k = (z, off)"
proof -
  let ?ds = "unat (s_dirsize (sb fs0))"
  have d: "?ds = unat (s_namelen (sb fs0)) + 2" "?ds \<in> {16, 32}" using ok(3) by (auto simp: dir_fs_def)
  have s: "unat (i_size dir0) = dcount fs0 dir0 * ?ds" "unat (i_size dir0) \<le> 64512"
    using ok(4) by (auto simp: small_dir_def dcount_def)
  have kk: "k * ?ds = unat b * 1024 + off" using at by (auto simp: dir_at_def extendsD(3)[OF e(1)])
  have sz: "unat (i_size dir') = max (unat (i_size dir0)) ((k + 1) * ?ds)"
  proof (cases "k = dcount fs0 dir0")
    case True
    have "unat b * 1024 + (off + ?ds) = (k + 1) * ?ds" using kk by simp
    moreover have "(k + 1) * ?ds < 4294967296" using True s d(2) by auto
    moreover have "i_size dir' = of_nat (unat b * 1024 + (off + ?ds))" using True dir'(3) by simp
    ultimately have "unat (i_size dir') = (k + 1) * ?ds" using unat_of_nat_u32 by metis
    then show ?thesis using True s by simp
  next
    case False
    then have "(k + 1) * ?ds \<le> dcount fs0 dir0 * ?ds" using k by (intro mult_le_mono1) simp
    then show ?thesis using False dir'(3) s extendsD(5)[OF e(1)] by simp
  qed
  have len: "length (raw_slot 0 (unat (s_namelen (sb fs0))) name) \<le> ?ds" using d(1) by simp
  have n0: "(0 :: nat) < 67108864" by simp
  note w0 = write_slot[OF ok(1-3) e at len fs' n0]
  have by_slot: "byte_at fs' dir' n = (if k * ?ds \<le> n \<and> n < k * ?ds + ?ds then raw_slot 0 (unat (s_namelen (sb fs0))) name ! (n - k * ?ds) else byte_at fs0 dir0 n)"
    if "n < 67108864" for n
    unfolding byte_at_i_zone[OF dir'(1)] using write_slot(7)[OF ok(1-3) e at len fs' that, unfolded length_raw_slot d(1)[symmetric]] .
  have l: "lookup fs' dir' q = lookup fs' dir q" for q using dir'(1) by (rule lookup_i_zone)
  have "file_ok fs' dir'" using w0(2) file_ok_i_zone[OF dir'(1)] by simp
  then show "added k 0 name fs0 dir0 fs' dir'"
    unfolding added_def Let_def using w0(1,3,4,5) sz dir'(2) e(2) by_slot l by simp
  show "dplace fs' dir' k = (z, off)"
    using dplace_at[OF w0(6)] by (simp add: dplace_def l)
qed

lemma add_loop:
  assumes ok: "zmap_ok fs0" "file_ok fs0 dir0" "dir_fs fs0" "small_dir fs0 dir0" "is_name name"
  shows "extends fs0 dir0 fs dir \<Longrightarrow> i_sb dir = i_sb dir0 \<Longrightarrow> dir_at fs dir bh b off k \<Longrightarrow> k \<le> dcount fs0 dir0 \<Longrightarrow>
    dcount fs0 dir0 - k < n \<Longrightarrow>
    (\<And>i. i < k \<Longrightarrow> dino fs0 dir0 i \<noteq> 0 \<and> dname fs0 dir0 i \<noteq> take (unat (s_namelen (sb fs0))) name) \<Longrightarrow>
    \<exists>r dir' fs'. add_entry_loop n dir (min (length name) (unat (s_namelen (sb fs0)))) name bh b off fs = Inr (r, dir', fs') \<and>
      add_post fs0 dir0 name r dir' fs'"
proof (induction n arbitrary: fs dir bh b off k)
  case 0
  then show ?case by simp
next
  case (Suc n)
  note e = Suc.prems(1)
  let ?ds = "unat (s_dirsize (sb fs0))" and ?lim = "unat (s_namelen (sb fs0))"
  let ?N = "dcount fs0 dir0" and ?len = "min (length name) ?lim"
  have sbs: "sb fs = sb fs0" by (rule extendsD(3)[OF e])
  have rd: "readable fs" using readable_extends[OF e] ok(3) by (simp add: dir_fs_def)
  obtain z dir1 fs1 where
    get: "(case bh of Some z \<Rightarrow> Inr (Some z, dir, fs) | None \<Rightarrow> minix_bread dir b True fs) = Inr (if z = 0 then None else Some (unat z), dir1, fs1)"
    and z: "lookup fs1 dir1 (path_of (unat b)) = z" and e1: "extends fs dir fs1 dir1" and i1: "i_sb dir1 = i_sb dir" and full: "z = 0 \<Longrightarrow> zones_full fs1"
  proof (cases bh)
    case None
    with bread_create[OF extendsD(1,2)[OF e] rd, of b] show ?thesis by (auto intro: that)
  next
    case (Some y)
    with Suc.prems(3) show ?thesis
      by (intro that[of "lookup fs dir (path_of (unat b))" dir fs] extends_refl extendsD(1,2)[OF e]) (auto simp: dir_at_def)
  qed
  have e2: "extends fs0 dir0 fs1 dir1" by (rule extends_trans[OF e e1])
  have sb1: "sb fs1 = sb fs0" by (rule extendsD(3)[OF e2])
  show ?case
  proof (cases "z = 0")
    case True
    then have "add_entry_loop (Suc n) dir ?len name bh b off fs = Inr (Inl (- ENOSPC), dir1, fs1)" using get by simp
    then show ?thesis using e2 i1 Suc.prems(2) full[OF True] by (auto simp: add_post_def)
  next
    case False
    let ?z = "unat z"
    have at: "dir_at fs1 dir1 (Some ?z) b off k" using Suc.prems(3) False z sb1 sbs by (auto simp: dir_at_def split: option.splits)
    have fs1: "dir_fs fs1" "small_dir fs1 dir1" "dcount fs1 dir1 = ?N"
      using ok(3,4) readable_extends[OF e2] extendsD(5)[OF e2] by (auto simp: dir_fs_def small_dir_def dcount_def sb1)
    have s: "unat (i_size dir0) = ?N * ?ds" "unat (i_size dir0) \<le> 64512" using ok(4) by (auto simp: small_dir_def dcount_def)
    have kN: "k * ?ds \<le> 64512" using s by (intro order_trans[OF mult_le_mono1[OF Suc.prems(4)]]) simp
    have kb: "k * ?ds = unat b * 1024 + off" using at by (simp add: dir_at_def sb1)
    have ds0: "0 < ?ds" using ok(3) by (auto simp: dir_fs_def)
    have g: "unat b * 1024 + (off + ?ds) > unat (i_size dir1) \<longleftrightarrow> k = ?N"
    proof -
      have "unat b * 1024 + (off + ?ds) = Suc k * ?ds" using kb by simp
      then have "unat b * 1024 + (off + ?ds) > unat (i_size dir1) \<longleftrightarrow> Suc k > ?N"
        using s(1) extendsD(5)[OF e2] ds0 by (simp only: mult_less_cancel2) simp
      then show ?thesis using Suc.prems(4) by auto
    qed
    note dn = dino_extends[OF ok(1,2) e2 ok(3) kN] and en = get16_entry[OF fs1(1) at, unfolded sb1]
    have nz: "0 \<notin> set name" using ok(5) by (simp add: is_name_def)
    have cmp: "namecompare ?len ?lim name (blk fs1 ?z) (off + 2) \<longleftrightarrow> dname fs0 dir0 k = take ?lim name"
      using en(2)[OF nz] dn(2) by simp
    show ?thesis
    proof (cases "k < ?N \<and> dino fs0 dir0 k \<noteq> 0")
      case live: True
      then have ng: "\<not> unat b * 1024 + (off + ?ds) > unat (i_size dir1)" using g by simp
      have nz16: "get16 (blk fs1 ?z) off \<noteq> 0" using en(1) dn(1) live by simp
      let ?o = "off + ?ds"
      have step: "add_entry_loop (Suc n) dir ?len name bh b off fs =
        (if dname fs0 dir0 k = take ?lim name then Inr (Inl (- EEXIST), dir1, fs1)
         else if ?o < 1024 then add_entry_loop n dir1 ?len name (Some ?z) b ?o fs1
         else add_entry_loop n dir1 ?len name None (b + 1) 0 fs1)"
        using get False ng nz16 cmp by (simp add: sb1 Let_def)
      show ?thesis
      proof (cases "dname fs0 dir0 k = take ?lim name")
        case True
        then have "dfind fs0 dir0 name \<noteq> None" using live by (auto simp: dfind_def find_None_iff)
        then show ?thesis using step True e2 i1 Suc.prems(2) by (simp add: add_post_def)
      next
        case nm: False
        have b62: "unat b \<le> 62" using dir_at_inside(2)[OF fs1(2,1) at] live fs1(3) by simp
        have pre: "dino fs0 dir0 i \<noteq> 0 \<and> dname fs0 dir0 i \<noteq> take ?lim name" if "i < Suc k" for i
          using Suc.prems(6)[of i] that live nm by (cases "i = k") auto
        have i2: "i_sb dir1 = i_sb dir0" using i1 Suc.prems(2) by simp
        have kn: "Suc k \<le> ?N" "?N - Suc k < n" using live Suc.prems(5) by auto
        note nx = dir_at_next[OF fs1(1) at b62, unfolded sb1]
        show ?thesis
        proof (cases "?o < 1024")
          case True
          show ?thesis unfolding step if_not_P[OF nm] if_P[OF True] by (rule Suc.IH[OF e2 i2 nx(1)[OF True] kn pre])
        next
          case o: False
          show ?thesis unfolding step if_not_P[OF nm] if_not_P[OF o] by (rule Suc.IH[OF e2 i2 nx(2)[OF o] kn pre])
        qed
      qed
    next
      case free: False
      define f where "f = (if k = ?N then put16 (blk fs1 ?z) off 0 else blk fs1 ?z)"
      have f0: "get16 f off = 0" using free Suc.prems(4) en(1) dn(1) by (auto simp: f_def get16_put16_same)
      define dir' where "dir' = (if k = ?N then dir1\<lparr>i_size := of_nat (unat b * 1024 + (off + ?ds)), i_dirt := True\<rparr> else dir1)
        \<lparr>i_mtime := now fs1, i_ctime := now fs1, i_dirt := True\<rparr>"
      define fs' where "fs' = put_blk ?z (copy_in (blk fs1 ?z) off (raw_slot 0 ?lim name)) fs1"
      have "add_entry_loop (Suc n) dir ?len name bh b off fs = Inr (Inr (?z, off), dir', fs')"
      proof (cases "k = ?N")
        case True
        then show ?thesis using get False g f0 set_name_cleared[OF f_def f0, of ?lim name]
          by (simp add: sb1 Let_def f_def dir'_def fs'_def put_blk_over)
      next
        case nN: False
        then show ?thesis using get False g f0 set_name_cleared[OF f_def f0, of ?lim name]
          by (simp add: sb1 Let_def f_def dir'_def fs'_def)
      qed
      moreover have i2: "i_sb dir1 = i_sb dir0" using i1 Suc.prems(2) by simp
      have "i_zone dir' = i_zone dir1" "i_sb dir' = i_sb dir1"
        "i_size dir' = (if k = ?N then of_nat (unat b * 1024 + (off + ?ds)) else i_size dir1)" by (simp_all add: dir'_def)
      note a = added_slot[OF ok(1-4) e2 i2 at Suc.prems(4) fs'_def this]
      have "add_post fs0 dir0 name (Inr (?z, off)) dir' fs'"
        using a free Suc.prems(4,6) by (auto simp: add_post_def intro!: exI[of _ k])
      ultimately show ?thesis by blast
    qed
  qed
qed


lemma add_entry_post:
  assumes "zmap_ok fs" "file_ok fs dir" "dir_fs fs" "small_dir fs dir" "is_name name" "i_sb dir \<noteq> None"
  shows "\<exists>r dir' fs'. minix_add_entry dir name fs = Inr (r, dir', fs') \<and> add_post fs dir name r dir' fs'"
proof -
  have d: "unat (s_dirsize (sb fs)) \<in> {16, 32}" "unat (s_dirsize (sb fs)) = unat (s_namelen (sb fs)) + 2"
    using assms(3) by (auto simp: dir_fs_def)
  have "dcount fs dir - 0 < unat (i_size dir) div 16 + 2"
    unfolding dcount_def using d(1) by auto
  from add_loop[OF assms(1-5) extends_refl[OF assms(1,2)] refl _ _ this, of None 0 0 ]
  have "\<exists>r dir' fs'. add_entry_loop (unat (i_size dir) div 16 + 2) dir (min (length name) (unat (s_namelen (sb fs)))) name None 0 0 fs =
      Inr (r, dir', fs') \<and> add_post fs dir name r dir' fs'" by (simp add: dir_at_def)
  moreover have "min (length name) (unat (s_namelen (sb fs))) \<noteq> 0"
    using assms(5) d by (auto simp: is_name_def)
  ultimately show ?thesis unfolding minix_add_entry_def Let_def if_not_P[OF assms(6)] by (simp only: if_False)
qed

text \<open>The number stored into an entry.\<close>

lemma added_set:
  assumes "added k 0 name fs dir fs' dir'" and "p = dplace fs' dir' k" and "dir_fs fs" "small_dir fs dir" and k: "k \<le> dcount fs dir"
  shows "added k ino name fs dir (set_entry p ino fs') dir'" "dplace (set_entry p ino fs') dir' k = p"
proof -
  let ?ds = "unat (s_dirsize (sb fs))" and ?lim = "unat (s_namelen (sb fs))"
  let ?b = "k * ?ds div 1024" and ?off = "k * ?ds mod 1024"
  note a = assms(1)[unfolded added_def Let_def]
  have d: "?ds \<in> {16, 32}" "?ds = ?lim + 2" using assms(3) by (auto simp: dir_fs_def)
  have ok: "zmap_ok fs'" "file_ok fs' dir'" "readable fs'" "sb fs' = sb fs" using a by auto
  have fs': "dir_fs fs'" using assms(3) ok(3) unfolding dir_fs_def ok(4) by blast
  have kN: "k * ?ds \<le> 64512"
  proof -
    have "k * ?ds \<le> dcount fs dir * ?ds" by (rule mult_le_mono1[OF k])
    also have "\<dots> \<le> 64512" using assms(4) by (auto simp: small_dir_def dcount_def)
    finally show ?thesis .
  qed
  then have b: "?b \<le> 63" by simp
  define z where "z = unat (lookup fs' dir' (path_of ?b))"
  have p: "p = (z, ?off)" by (simp add: assms(2) dplace_def ok(4) z_def Let_def)
  have at: "dir_at fs' dir' (Some z) (of_nat ?b) ?off k"
    using a b by (simp add: dir_at_def ok(4) z_def)
  have se: "set_entry p ino fs' = put_blk z (copy_in (blk fs' z) ?off [of_nat (unat ino), of_nat (unat ino div 256)]) fs'"
    by (simp add: set_entry_def p put16_def copy_in_def fun_eq_iff put_blk_def)
  have len: "length [of_nat (unat ino), of_nat (unat ino div 256)] \<le> unat (s_dirsize (sb fs'))" using d ok(4) by simp
  have n0: "(0 :: nat) < 67108864" by simp
  note w = write_slot[OF ok(1,2) fs' extends_refl[OF ok(1,2)] refl at len se]
  have "byte_at (set_entry p ino fs') dir' n = (if k * ?ds \<le> n \<and> n < k * ?ds + ?ds then raw_slot ino ?lim name ! (n - k * ?ds) else byte_at fs dir n)"
    if n: "n < 67108864" for n
  proof -
    have s0: "byte_at fs' dir' n = (if k * ?ds \<le> n \<and> n < k * ?ds + ?ds then raw_slot 0 ?lim name ! (n - k * ?ds) else byte_at fs dir n)"
      using a n by blast
    consider "n = k * ?ds" | "n = k * ?ds + 1" | "n < k * ?ds" | "k * ?ds + 2 \<le> n"
      by linarith
    then show ?thesis
    proof cases
      case 4
      then obtain j where j: "n = k * ?ds + 2 + j" using le_Suc_ex by blast
      have "raw_slot ino ?lim name ! (2 + j) = raw_slot 0 ?lim name ! (2 + j)" by (simp add: raw_slot_def)
      then show ?thesis using w(7)[OF n] s0 j by (simp add: ok(4))
    qed (use w(7)[OF n] s0 d(2) in \<open>simp_all add: ok(4) raw_slot_def\<close>)
  qed
  then show "added k ino name fs dir (set_entry p ino fs') dir'"
    using w(1-5)[OF n0] a by (simp add: added_def Let_def ok(4))
  show "dplace (set_entry p ino fs') dir' k = p"
    using dplace_at[OF w(6)[OF n0]] p by simp
qed


lemma added_entry:
  assumes "added k ino name fs dir fs' dir'" and "dir_fs fs" and "is_name name" and "k * unat (s_dirsize (sb fs)) \<le> 64512"
  shows "dino fs' dir' k = ino" "dname fs' dir' k = take (unat (s_namelen (sb fs))) name"
proof -
  let ?ds = "unat (s_dirsize (sb fs))" and ?lim = "unat (s_namelen (sb fs))"
  note a = assms(1)[unfolded added_def Let_def]
  have d: "?ds \<in> {16, 32}" "?ds = ?lim + 2" using assms(2) by (auto simp: dir_fs_def)
  have sbs: "sb fs' = sb fs" using a by blast
  have e: "byte_at fs' dir' (k * ?ds + j) = raw_slot ino ?lim name ! j" if "j < ?ds" for j
  proof -
    have "k * ?ds + j < 67108864" using assms(4) that d(1) by auto
    with a have "byte_at fs' dir' (k * ?ds + j) =
      (if k * ?ds \<le> k * ?ds + j \<and> k * ?ds + j < k * ?ds + ?ds then raw_slot ino ?lim name ! (k * ?ds + j - k * ?ds) else byte_at fs dir (k * ?ds + j))"
      by blast
    with that show ?thesis by (simp del: add_diff_cancel_left)
  qed
  have "get16 (byte_at fs' dir') (k * ?ds) = get16 (put16 (\<lambda>_. 0) 0 ino) 0"
    using e[of 0] e[of 1] d(2) by (simp add: get16_def put16_def raw_slot_def)
  then show "dino fs' dir' k = ino" by (simp add: dino_def sbs get16_put16_same)
  have r: "raw_slot ino ?lim name ! Suc (Suc i) = (take ?lim name @ replicate (?lim - length name) 0) ! i" for i
    by (simp add: raw_slot_def)
  have "map (\<lambda>i. byte_at fs' dir' (k * ?ds + 2 + i)) [0..<?lim] = take ?lim name @ replicate (?lim - length name) 0"
    using e[of "2 + _"] d(2) by (intro nth_equalityI) (simp_all only: length_map length_upt, simp_all add: r add.assoc)
  moreover have "0 \<notin> set (take ?lim name)" using assms(3) by (meson in_set_takeD is_name_def)
  ultimately show "dname fs' dir' k = take ?lim name"
    unfolding dname_def sbs by (simp add: takeWhile_nz takeWhile_replicate)
qed

lemma added_other:
  assumes "added k ino name fs dir fs' dir'" and "dir_fs fs" and "i \<noteq> k" "i * unat (s_dirsize (sb fs)) \<le> 64512"
  shows "dino fs' dir' i = dino fs dir i" "dname fs' dir' i = dname fs dir i"
proof -
  let ?ds = "unat (s_dirsize (sb fs))" and ?lim = "unat (s_namelen (sb fs))"
  note a = assms(1)[unfolded added_def Let_def]
  have d: "?ds \<in> {16, 32}" "?ds = ?lim + 2" using assms(2) by (auto simp: dir_fs_def)
  have sbs: "sb fs' = sb fs" using a by blast
  have e: "byte_at fs' dir' (i * ?ds + j) = byte_at fs dir (i * ?ds + j)" if "j < ?ds" for j
  proof -
    have n: "i * ?ds + j < 67108864" using assms(4) that d(1) by auto
    consider "i < k" | "k < i" using assms(3) by linarith
    then have "\<not> (k * ?ds \<le> i * ?ds + j \<and> i * ?ds + j < k * ?ds + ?ds)"
    proof cases
      case 1
      then have "Suc i * ?ds \<le> k * ?ds" by (intro mult_le_mono1) simp
      with that show ?thesis by simp
    next
      case 2
      then have "Suc k * ?ds \<le> i * ?ds" by (intro mult_le_mono1) simp
      then show ?thesis by simp
    qed
    with a n show ?thesis by presburger
  qed
  show "dino fs' dir' i = dino fs dir i"
    using e[of 0] e[of 1] d(2) by (simp add: dino_def sbs get16_def)
  show "dname fs' dir' i = dname fs dir i"
    unfolding dname_def sbs using e[of "2 + _"] d(2)
    by (intro arg_cong[of _ _ "takeWhile _"] map_cong) (simp_all only: add.assoc set_upt atLeastLessThan_iff, simp)
qed


lemma find_append_None: "find Q ys = None \<Longrightarrow> find Q (xs @ ys) = find Q xs"
  by (induction xs) auto

lemma find_agree:
  assumes "\<And>i. i < n \<Longrightarrow> Q i = P i" and "\<And>i. n \<le> i \<Longrightarrow> i < m \<Longrightarrow> \<not> Q i" and "n \<le> m"
  shows "find Q [0..<m] = find P [0..<n]"
proof -
  have "find Q [n..<m] = None" using assms(2) by (simp add: find_None_iff)
  moreover have "[0..<m] = [0..<n] @ [n..<m]" using assms(3) upt_add_eq_append[of 0 n "m - n"] by simp
  ultimately have "find Q [0..<m] = find Q [0..<n]" by (simp add: find_append_None)
  also have "\<dots> = find P [0..<n]" using assms(1) by (intro find_cong) simp_all
  finally show ?thesis .
qed

lemma added_dir:
  assumes a: "added k ino name fs dir fs' dir'" and "dir_fs fs" "small_dir fs dir" "unat (i_size dir) < 64512" and k: "k \<le> dcount fs dir"
  shows "dir_fs fs'" "small_dir fs' dir'" "dcount fs' dir' = max (dcount fs dir) (Suc k)"
    "i < dcount fs' dir' \<Longrightarrow> i * unat (s_dirsize (sb fs)) \<le> 64512"
proof -
  let ?ds = "unat (s_dirsize (sb fs))"
  note a = a[unfolded added_def Let_def]
  have d: "?ds \<in> {16, 32}" using assms(2) by (auto simp: dir_fs_def)
  have s: "unat (i_size dir) = dcount fs dir * ?ds" using assms(3) by (auto simp: small_dir_def dcount_def)
  have sbs: "sb fs' = sb fs" using a by blast
  have top: "Suc (dcount fs dir) * ?ds \<le> 64512" using d s assms(4) by auto
  have sz: "unat (i_size dir') = max (dcount fs dir) (Suc k) * ?ds" using a s by (simp add: nat_mult_max_left)
  have "max (dcount fs dir) (Suc k) * ?ds \<le> Suc (dcount fs dir) * ?ds" using k by (intro mult_le_mono1) simp
  then have le: "unat (i_size dir') \<le> 64512" unfolding sz using top by (rule order_trans)
  show "dir_fs fs'" using assms(2) a unfolding dir_fs_def sbs by blast
  show "small_dir fs' dir'" using le sz by (simp add: small_dir_def sbs)
  show c: "dcount fs' dir' = max (dcount fs dir) (Suc k)" using sz d by (auto simp: dcount_def sbs)
  assume "i < dcount fs' dir'"
  then have "i * ?ds \<le> max (dcount fs dir) (Suc k) * ?ds" unfolding c by (intro mult_le_mono1) simp
  also have "\<dots> \<le> 64512" using le unfolding sz .
  finally show "i * ?ds \<le> 64512" .
qed

lemma add_then_find:
  assumes ok: "zmap_ok fs" "file_ok fs dir" "dir_fs fs" "small_dir fs dir" "unat (i_size dir) < 64512" "i_sb dir \<noteq> None"
    and name: "is_name name" and ino: "ino \<noteq> 0" and add: "minix_add_entry dir name fs = Inr (Inr p, dir', fs')"
    and fs2: "fs2 = set_entry p ino fs'"
  shows "minix_find_entry dir' name fs2 = Inr (Some p)"
    "is_name other \<Longrightarrow> take (unat (s_namelen (sb fs))) other \<noteq> take (unat (s_namelen (sb fs))) name \<Longrightarrow>
      minix_find_entry dir' other fs2 = Inr (map_option (dplace fs2 dir') (dfind fs dir other))"
proof -
  let ?lim = "unat (s_namelen (sb fs))"
  have "add_post fs dir name (Inr p) dir' fs'" using add_entry_post[OF ok(1-4) name ok(6)] add by auto
  then obtain k where k: "k \<le> dcount fs dir" "k < dcount fs dir \<Longrightarrow> dino fs dir k = 0" "p = dplace fs' dir' k" "added k 0 name fs dir fs' dir'"
    and pre: "\<And>i. i < k \<Longrightarrow> dino fs dir i \<noteq> 0 \<and> dname fs dir i \<noteq> take ?lim name"
    by (auto simp: add_post_def)
  note a = added_set[OF k(4,3) ok(3,4) k(1), of ino, folded fs2]
  note d = added_dir[OF a(1) ok(3-5) k(1)]
  have sbs: "sb fs2 = sb fs" "i_sb dir' = i_sb dir" using a(1) by (auto simp: added_def Let_def)
  have kd: "k * unat (s_dirsize (sb fs)) \<le> 64512" using d(3) by (intro d(4)) simp
  note e = added_entry[OF a(1) ok(3) name kd] and o = added_other[OF a(1) ok(3)]
  have find: "minix_find_entry dir' nm fs2 = Inr (map_option (dplace fs2 dir') (dfind fs2 dir' nm))" if "is_name nm" for nm
    using find_entry_first[OF d(1,2) that] sbs(2) ok(6) by simp
  let ?P = "\<lambda>nm i. dino fs2 dir' i \<noteq> 0 \<and> dname fs2 dir' i = take ?lim nm"
  have "find (?P name) [0..<dcount fs2 dir'] = find (?P name) [k..<dcount fs2 dir']"
  proof (rule find_skip)
    fix i
    assume i: "i < k"
    show "\<not> ?P name i" using pre[OF i] o[of i] d(4)[of i] d(3) i by auto
  qed simp
  also have "\<dots> = Some k" using e ino d(3) by (simp add: upt_conv_Cons)
  finally have "dfind fs2 dir' name = Some k" by (simp add: dfind_def sbs(1))
  then show "minix_find_entry dir' name fs2 = Inr (Some p)" using find[OF name] a(2) by simp
  assume other: "is_name other" "take ?lim other \<noteq> take ?lim name"
  have "find (?P other) [0..<dcount fs2 dir'] = find (\<lambda>i. dino fs dir i \<noteq> 0 \<and> dname fs dir i = take ?lim other) [0..<dcount fs dir]"
  proof (rule find_agree)
    fix i
    assume i: "i < dcount fs dir"
    then show "?P other i = (dino fs dir i \<noteq> 0 \<and> dname fs dir i = take ?lim other)"
      using o[of i] d(3) d(4)[of i] e(2) other(2) k(2) by (cases "i = k") auto
  next
    fix i
    assume "dcount fs dir \<le> i" "i < dcount fs2 dir'"
    then have "i = k" using d(3) k(1) by auto
    then show "\<not> ?P other i" using e(2) other(2) by simp
  next
    show "dcount fs dir \<le> dcount fs2 dir'" using d(3) by simp
  qed
  then have "dfind fs2 dir' other = dfind fs dir other" by (simp add: dfind_def sbs(1))
  then show "minix_find_entry dir' other fs2 = Inr (map_option (dplace fs2 dir') (dfind fs dir other))"
    using find[OF other(1)] by simp
qed

section \<open>Directories of 64 KB\<close>

lemma find_loop_hangs:
  assumes "readable fs" and "65536 \<le> unat (i_size dir)"
    and no: "\<And>b off. b < 65536 \<Longrightarrow> lookup fs dir (path_of b) \<noteq> 0 \<Longrightarrow> off < 1024 \<Longrightarrow> unat (s_dirsize (sb fs)) dvd off \<Longrightarrow>
      \<not> minix_match len name (blk fs (unat (lookup fs dir (path_of b)))) off (sb fs)"
  shows "off < 1024 \<Longrightarrow> unat (s_dirsize (sb fs)) dvd off \<Longrightarrow>
    (case bh of None \<Rightarrow> off = 0 | Some z \<Rightarrow> lookup fs dir (path_of (unat b)) \<noteq> 0 \<and> z = unat (lookup fs dir (path_of (unat b)))) \<Longrightarrow>
    find_entry_loop n dir len name bh b off fs = Inl Stuck"
proof (induction n arbitrary: bh b off)
  case 0
  then show ?case by simp
next
  case (Suc n)
  let ?z = "lookup fs dir (path_of (unat b))"
  have in_dir: "unat (b * 1024) + off < unat (i_size dir)"
  proof -
    have "1024 dvd unat (b * 1024)"
    proof -
      have "unat (b * 1024) = unat b * 1024 mod 65536" by (simp add: unat_word_ariths)
      then show ?thesis by (simp add: dvd_mod)
    qed
    moreover have "unat (b * 1024) < 65536" by (rule u16_less)
    ultimately have "unat (b * 1024) \<le> 64512" by (elim dvdE) simp
    then show ?thesis using assms(2) Suc.prems(1) by simp
  qed
  have get: "(case bh of Some z \<Rightarrow> Inr (Some z) | None \<Rightarrow> bindr (minix_bread dir b False fs) (\<lambda>(r, _, _). Inr r)) = Inr (if ?z = 0 then None else Some (unat ?z))"
    using Suc.prems(3) by (auto simp: bread_get[OF assms(1)] Let_def split: option.splits)
  show ?case
  proof (cases "?z = 0")
    case True
    with Suc.prems(3) have "bh = None" "off = 0" by (auto split: option.splits)
    with True get in_dir Suc.IH[where off = 0 and bh = None and b = "b + 1"] show ?thesis by simp
  next
    case False
    have "\<not> minix_match len name (blk fs (unat ?z)) off (sb fs)" by (rule no[OF u16_less False Suc.prems(1,2)])
    with False get in_dir Suc.IH[where off = "off + unat (s_dirsize (sb fs))" and bh = "Some (unat ?z)" and b = b] Suc.IH[where off = 0 and bh = None and b = "b + 1"]
    show ?thesis using Suc.prems(2) by (simp add: Let_def)
  qed
qed

text \<open>A name that no entry has is matched at no entry of any block.\<close>

lemma dfind_none_match:
  assumes fs: "dir_fs fs" and name: "is_name name" and "dfind fs dir name = None"
    and out: "\<And>k. dcount fs dir \<le> k \<Longrightarrow> k * unat (s_dirsize (sb fs)) < 65536 * 1024 \<Longrightarrow> dino fs dir k = 0"
    and b: "b < 65536" "lookup fs dir (path_of b) \<noteq> 0" "off < 1024" "unat (s_dirsize (sb fs)) dvd off"
  shows "\<not> minix_match (min (length name) (unat (s_namelen (sb fs)))) name (blk fs (unat (lookup fs dir (path_of b)))) off (sb fs)"
proof -
  let ?ds = "unat (s_dirsize (sb fs))"
  have "?ds dvd 1024" using fs by (auto simp: dir_fs_def)
  then have "?ds dvd b * 1024 + off" using b(4) by (simp add: dvd_add dvd_mult)
  then obtain k where k: "k * ?ds = b * 1024 + off" by (metis dvdE mult.commute)
  then have lim: "k * ?ds < 65536 * 1024" using b(1,3) by simp
  have "\<not> (dino fs dir k \<noteq> 0 \<and> dname fs dir k = take (unat (s_namelen (sb fs))) name)"
  proof (cases "k < dcount fs dir")
    case True
    with assms(3) show ?thesis by (simp add: dfind_def find_None_iff)
  next
    case False
    with out[of k] lim show ?thesis by simp
  qed
  then show ?thesis using match_slot[OF fs name k b(3,2) refl] by simp
qed

section \<open>Properties\<close>

text \<open>A directory with the entries \<^verbatim>\<open>.\<close>, \<^verbatim>\<open>..\<close>, a removed one and \<^verbatim>\<open>ab\<close>.\<close>

definition dir_block :: bytes where
  "dir_block = (\<lambda>_. 0)(0 := 5, 2 := 46, 16 := 1, 18 := 46, 19 := 46, 34 := 97, 48 := 7, 50 := 97, 51 := 98)"

definition dir_ino :: minode where
  "dir_ino = empty_ino\<lparr>i_mode := 0x41FF, i_size := 64, i_zone := (\<lambda>_. 0)(0 := 2), i_op := Dir_ops\<rparr>"

definition dir_disk :: minix_fs where
  "dir_disk = put_blk 2 dir_block small_fs"

lemma dir_disk_ok: "dir_fs dir_disk" "small_dir dir_disk dir_ino" "i_sb dir_ino \<noteq> None" "is_name [97, 98]" "is_name [99]"
  by (simp_all add: dir_fs_def readable_def dir_disk_def small_fs_def small_sb_def small_dir_def dir_ino_def empty_ino_def is_name_def)

lemma dir_disk_byte: "n < 64 \<Longrightarrow> byte_at dir_disk dir_ino n = dir_block n"
  by (simp add: byte_at_def content_def dir_disk_def dir_ino_def path_of_def)

lemma dir_disk_find: "dfind dir_disk dir_ino [97, 98] = Some 3" "dplace dir_disk dir_ino 3 = (2, 48)"
proof -
  have s: "sb dir_disk = small_sb" by (simp add: dir_disk_def small_fs_def)
  have n: "unat (s_dirsize small_sb) = 16" "unat (s_namelen small_sb) = 14" "dcount dir_disk dir_ino = 4"
    by (simp_all add: s small_sb_def dcount_def dir_ino_def)
  have k: "[0..<14] = [0, 1, 2, 3, 4, 5, 6, 7, 8, 9, 10, 11, 12, 13 :: nat]" "[0..<4] = [0, 1, 2, 3 :: nat]" by (simp_all add: upt_rec)
  show "dfind dir_disk dir_ino [97, 98] = Some 3"
    by (simp add: dfind_def dino_def dname_def s n k get16_def dir_disk_byte dir_block_def)
  show "dplace dir_disk dir_ino 3 = (2, 48)"
    by (simp add: dplace_def s n dir_ino_def path_of_def)
qed

lemma small_add: "\<exists>p dir' fs'. minix_add_entry empty_ino [97] small_fs = Inr (Inr p, dir', fs')"
proof -
  have "\<not> zones_full small_fs" unfolding zones_full_def zone_used_def data_zone_def small_zbit
    by (auto simp: small_fs_def small_sb_def zone_no_def intro!: exI[of _ 2])
  then obtain z fs1 where n: "minix_new_block small_fs = Inr (z, fs1)" "fresh_zone small_fs z fs1" using new_block_cases[OF small_ok(1)] by blast
  have f: "z \<noteq> 0" "\<not> bad fs1 (unat z)" "sb fs1 = small_sb" "blk fs1 (unat z) = (\<lambda>_. 0)"
    using fresh_zoneD(1,7,5,9)[OF n(2)] small_ok(3) by (auto simp: readable_def small_fs_def)
  have "minix_bmap empty_ino 0 True small_fs = Inr (z, empty_ino\<lparr>i_zone := (\<lambda>_. 0)(0 := z), i_ctime := now fs1, i_dirt := True\<rparr>, fs1)"
    using n(1) f(1) by (simp add: minix_bmap_def map_izone_def empty_ino_def)
  then have "minix_bread empty_ino 0 True small_fs = Inr (Some (unat z), empty_ino\<lparr>i_zone := (\<lambda>_. 0)(0 := z), i_ctime := now fs1, i_dirt := True\<rparr>, fs1)"
    using f by (simp add: minix_bread_def minix_getblk_def)
  then have l: "\<exists>p dir' fs'. add_entry_loop (Suc 1) empty_ino 1 [97] None 0 0 small_fs = Inr (Inr p, dir', fs')"
    using f by (simp add: Let_def small_sb_def empty_ino_def get16_put16_same)
  have e: "unat (i_size empty_ino) div 16 + 2 = Suc 1" "min (length [97 :: u8]) (unat (s_namelen (sb small_fs))) = 1" "i_sb empty_ino \<noteq> None"
    by (simp_all add: empty_ino_def small_fs_def small_sb_def)
  show ?thesis unfolding minix_add_entry_def Let_def e(1,2) if_not_P[OF e(3)] using l by (simp del: add_entry_loop.simps)
qed

text \<open>C24: \<^verbatim>\<open>minix_find_entry\<close> refines the search in the sequence of entries: for a directory of at most
  63 blocks, with or without holes, and a name cut to the length the file system allows,
  it returns the place of the first live entry of that name, or nothing when there is none.\<close>

theorem minix_find_entry_first:
  assumes "dir_fs fs" and "small_dir fs dir" and "is_name name" and "i_sb dir \<noteq> None"
  shows "minix_find_entry dir name fs = Inr (map_option (dplace fs dir) (dfind fs dir name))"
  by (rule find_entry_first[OF assms])

theorem minix_find_entry_first_witness:
  "minix_find_entry dir_ino [97, 98] dir_disk = Inr (Some (2, 48))"
  using minix_find_entry_first[OF dir_disk_ok(1,2,4,3)] by (simp add: dir_disk_find)

text \<open>C25: Adding and finding: when \<^verbatim>\<open>minix_add_entry\<close> gives a place for a name and the number of an
  inode is stored there, the name is found at that place, and every other name is found
  at the entry where it was before, or still not found.\<close>

theorem minix_add_find:
  assumes "zmap_ok fs" and "file_ok fs dir" and "dir_fs fs" and "small_dir fs dir" and "unat (i_size dir) < 64512"
    and "i_sb dir \<noteq> None" and "is_name name" and "ino \<noteq> 0" and "minix_add_entry dir name fs = Inr (Inr p, dir', fs')"
  shows "minix_find_entry dir' name (set_entry p ino fs') = Inr (Some p) \<and>
    (\<forall>other. is_name other \<and> take (unat (s_namelen (sb fs))) other \<noteq> take (unat (s_namelen (sb fs))) name \<longrightarrow>
      minix_find_entry dir' other (set_entry p ino fs') =
        Inr (map_option (dplace (set_entry p ino fs') dir') (dfind fs dir other)))"
  using add_then_find[OF assms refl] by blast

theorem minix_add_find_witness:
  "\<exists>p dir' fs'. minix_add_entry empty_ino [97] small_fs = Inr (Inr p, dir', fs') \<and>
     minix_find_entry dir' [97] (set_entry p 9 fs') = Inr (Some p) \<and> minix_find_entry dir' [98] (set_entry p 9 fs') = Inr None"
proof -
  obtain p dir' fs' where a: "minix_add_entry empty_ino [97] small_fs = Inr (Inr p, dir', fs')" using small_add by blast
  have h: "dir_fs small_fs" "small_dir small_fs empty_ino" "unat (i_size empty_ino) < 64512" "i_sb empty_ino \<noteq> None" "is_name [97]"
      "is_name [98]" "(9 :: u16) \<noteq> 0" "take (unat (s_namelen (sb small_fs))) [98] \<noteq> take (unat (s_namelen (sb small_fs))) [97 :: u8]"
    by (simp_all add: dir_fs_def readable_def small_fs_def small_sb_def small_dir_def empty_ino_def is_name_def)
  have "dfind small_fs empty_ino [98] = None" by (simp add: dfind_def dcount_def empty_ino_def)
  with minix_add_find[OF small_ok(1,2) h(1-5,7) a] h(6,8) a show ?thesis by auto
qed


text \<open>C26: \<^verbatim>\<open>minix_find_entry\<close> does not return when no entry of a directory of 64 KB or more has
  the name (\<open>dfind\<close> finds none, and the slots past the end of the directory, up to the last
  block a 16-bit number reaches, are unused): \<^verbatim>\<open>block * BLOCK_SIZE\<close> is a 16-bit product, which
  never reaches the size. No number of turns is enough.\<close>

theorem minix_find_entry_hangs:
  assumes "dir_fs fs" and "is_name name" and "i_sb dir \<noteq> None" and "65536 \<le> unat (i_size dir)"
    and "dfind fs dir name = None"
    and "\<And>k. dcount fs dir \<le> k \<Longrightarrow> k * unat (s_dirsize (sb fs)) < 65536 * 1024 \<Longrightarrow> dino fs dir k = 0"
  shows "minix_find_entry dir name fs = Inl Stuck \<and>
    find_entry_loop n dir (min (length name) (unat (s_namelen (sb fs)))) name None 0 0 fs = Inl Stuck"
proof -
  have "readable fs" using assms(1) by (simp add: dir_fs_def)
  from find_loop_hangs[OF this assms(4) dfind_none_match[OF assms(1,2,5,6)], where off = 0 and bh = None and b = 0]
  show ?thesis using assms(3) by (simp add: minix_find_entry_def del: find_entry_loop.simps)
qed

text \<open>The witness: the directory holds the name \<^verbatim>\<open>ab\<close>, and \<^verbatim>\<open>b\<close> is looked up.\<close>

theorem minix_find_entry_hangs_witness:
  "minix_find_entry (dir_ino\<lparr>i_size := 65536\<rparr>) [98] dir_disk = Inl Stuck"
proof -
  let ?d = "dir_ino\<lparr>i_size := 65536\<rparr>"
  have s: "sb dir_disk = small_sb" by (simp add: dir_disk_def small_fs_def)
  have n: "unat (s_dirsize small_sb) = 16" "unat (s_namelen small_sb) = 14" by (simp_all add: small_sb_def)
  have ok: "dir_fs dir_disk" "is_name [98]" "i_sb ?d \<noteq> None" "65536 \<le> unat (i_size ?d)"
    using dir_disk_ok(1,3) by (simp_all add: is_name_def)
  have by1: "byte_at dir_disk ?d m = (if m < 1024 then dir_block m else 0)" for m
    by (cases "m < 1024") (simp_all add: byte_at_def content_def dir_disk_def dir_ino_def path_of_def entry_def div_eq_0_iff)
  have e: "dino dir_disk ?d k \<noteq> 0 \<Longrightarrow> k \<in> {0, 1, 3}" for k
    by (auto simp: dino_def get16_def by1 s n dir_block_def split: if_splits)
  moreover have "dname dir_disk ?d k \<noteq> [98]" if "k \<in> {0, 1, 3}" for k
    using that by (auto simp: dname_def by1 s n dir_block_def upt_rec)
  ultimately have "dfind dir_disk ?d [98] = None" by (auto simp: dfind_def find_None_iff s n)
  moreover have "dino dir_disk ?d k = 0" if "dcount dir_disk ?d \<le> k" for k
    using e[of k] that by (auto simp: dcount_def s n)
  ultimately show ?thesis using minix_find_entry_hangs[OF ok] by blast
qed

end
