(* ===== verification/Buffer.thy ===== *)
theory Buffer
  imports Bitops Links
begin

text \<open>
  The block layer: the buffer cache (\<^verbatim>\<open>fs/buffer.c\<close>, with \<^verbatim>\<open>CONFIG_FS_EXTERNAL_BUFFER\<close>) and the
  request queue (\<^verbatim>\<open>arch/i86/drivers/block/ll_rw_blk.c\<close> and \<^verbatim>\<open>end_request\<close> of \<^verbatim>\<open>blk.h\<close>).
  There are 64 buffer heads; the data of buffer \<open>i\<close> is at home in area \<open>i\<close> of a far
  segment (\<open>l2\<close>) and is copied into one of eight areas of the kernel's data segment
  (\<open>bufmem\<close>) while it is mapped. Buffers and requests are named by their index in
  \<^verbatim>\<open>buffers[]\<close> and \<^verbatim>\<open>all_requests[]\<close>, \<open>None\<close> is NULL. \<^verbatim>\<open>b_seg\<close> and \<^verbatim>\<open>rq_seg\<close>, which are always the
  kernel's data segment when swapping is not configured, are left out, and so are the
  wake-ups: nobody else runs in between, and a process that has to wait does not wake up
  again (\<open>Asleep\<close>). The drivers are a table of functions, as \<^verbatim>\<open>blk_dev[].request_fn\<close> is; \<open>devs\<close> is
  their own data.
\<close>

section \<open>State\<close>

record buffer_head =
  b_data :: "nat option"
  b_blocknr :: u16
  b_dev :: u16
  b_next :: "nat option"
  b_next_lru :: "nat option"
  b_prev_lru :: "nat option"
  b_count :: u16
  b_uptodate :: bool
  b_dirty :: bool
  b_lock :: bool
  b_mapcount :: u16

datatype rw_cmd = READ | WRITE

record request =
  rq_dev :: u16
  rq_cmd :: rw_cmd
  rq_active :: bool
  rq_sector :: u32
  rq_buffer :: nat
  rq_bh :: nat
  rq_next :: "nat option"

record 'd bcache =
  buffers :: "nat \<Rightarrow> buffer_head"
  bh_chain :: "nat option"
  bh_lru :: "nat option"
  bh_llru :: "nat option"
  bufmem :: "nat \<Rightarrow> bytes"
  l2 :: "nat \<Rightarrow> bytes"
  bufmem_map :: "nat \<Rightarrow> nat option"
  lastumap :: nat
  all_requests :: "nat \<Rightarrow> request"
  prev_found :: nat
  prev_limit :: nat
  current_request :: "u16 \<Rightarrow> nat option"
  devs :: 'd

type_synonym 'd drivers = "u16 \<Rightarrow> ('d bcache \<Rightarrow> 'd bcache kres) option"

abbreviation NR_BUFFERS :: nat where "NR_BUFFERS \<equiv> 64"
abbreviation NR_MAPBUFS :: nat where "NR_MAPBUFS \<equiv> 8"
abbreviation NR_REQUEST :: nat where "NR_REQUEST \<equiv> 20"
abbreviation MAX_BLKDEV :: u16 where "MAX_BLKDEV \<equiv> 8"

definition updb :: "nat \<Rightarrow> (buffer_head \<Rightarrow> buffer_head) \<Rightarrow> 'd bcache \<Rightarrow> 'd bcache" where
  "updb b f s = s\<lparr>buffers := (buffers s)(b := f (buffers s b))\<rparr>"

definition updr :: "nat \<Rightarrow> (request \<Rightarrow> request) \<Rightarrow> 'd bcache \<Rightarrow> 'd bcache" where
  "updr r f s = s\<lparr>all_requests := (all_requests s)(r := f (all_requests s r))\<rparr>"

definition buffer_init :: "'d bcache \<Rightarrow> 'd bcache" where
  "buffer_init s =
    s\<lparr>lastumap := 0, bufmem_map := (\<lambda>i. if i < NR_MAPBUFS then None else bufmem_map s i),
      buffers := (\<lambda>i. if i < NR_BUFFERS
        then (buffers s i)\<lparr>b_data := None, b_mapcount := 0,
               b_prev_lru := (if i = 0 then None else Some (i - 1)),
               b_next_lru := (if i = NR_BUFFERS - 1 then None else Some (i + 1)),
               b_next := (if i = NR_BUFFERS - 1 then None else Some (i + 1))\<rparr>
        else buffers s i),
      bh_chain := Some 0, bh_lru := Some 0, bh_llru := Some (NR_BUFFERS - 1)\<rparr>"

section \<open>Waiting, mapping\<close>

definition wait_on_buffer :: "nat \<Rightarrow> 'd bcache \<Rightarrow> 'd bcache kres" where
  "wait_on_buffer b s = (if b_lock (buffers s b) then Inl Asleep else Inr s)"

text \<open>The turns of \<^verbatim>\<open>map_buffer\<close>: a free area is taken; otherwise the areas after the one that was
  freed last are searched for one that is not in use, which is copied back and freed.
  The area freed last is not looked at. After an area was freed the next turn succeeds.\<close>

primrec map_loop :: "nat \<Rightarrow> nat \<Rightarrow> 'd bcache \<Rightarrow> 'd bcache kres" where
  "map_loop 0 b s = Inl Stuck"
| "map_loop (Suc n) b s =
    (case find (\<lambda>i. bufmem_map s i = None) [0..<NR_MAPBUFS] of
       Some i \<Rightarrow>
         Inr (updb b (\<lambda>h. h\<lparr>b_data := Some i, b_mapcount := b_mapcount h + 1\<rparr>)
               (s\<lparr>bufmem_map := (bufmem_map s)(i := Some b), bufmem := (bufmem s)(i := l2 s b)\<rparr>))
     | None \<Rightarrow>
         (case find (\<lambda>i. case bufmem_map s i of None \<Rightarrow> False | Some c \<Rightarrow> b_mapcount (buffers s c) = 0)
                 (map (\<lambda>k. (lastumap s + k) mod NR_MAPBUFS) [1..<NR_MAPBUFS]) of
            None \<Rightarrow> Inl Asleep
          | Some i \<Rightarrow>
              (case bufmem_map s i of
                 None \<Rightarrow> Inl NullDeref
               | Some c \<Rightarrow>
                   map_loop n b (updb c (\<lambda>h. h\<lparr>b_data := None\<rparr>)
                     (s\<lparr>l2 := (l2 s)(c := bufmem s i), bufmem_map := (bufmem_map s)(i := None), lastumap := i\<rparr>)))))"

definition map_buffer :: "nat \<Rightarrow> 'd bcache \<Rightarrow> 'd bcache kres" where
  "map_buffer b s =
    (if b_data (buffers s b) \<noteq> None then Inr (updb b (\<lambda>h. h\<lparr>b_mapcount := b_mapcount h + 1\<rparr>) s)
     else map_loop 2 b s)"

definition unmap_buffer :: "nat \<Rightarrow> 'd bcache \<Rightarrow> 'd bcache" where
  "unmap_buffer b s =
    updb b (\<lambda>h. if b_mapcount h \<le> 0 then h\<lparr>b_mapcount := 0\<rparr> else h\<lparr>b_mapcount := b_mapcount h - 1\<rparr>) s"

definition lock_buffer :: "nat \<Rightarrow> 'd bcache \<Rightarrow> 'd bcache kres" where
  "lock_buffer b s = bindr (wait_on_buffer b s) (\<lambda>s. map_buffer b (updb b (\<lambda>h. h\<lparr>b_lock := True\<rparr>) s))"

definition unlock_buffer :: "nat \<Rightarrow> 'd bcache \<Rightarrow> 'd bcache" where
  "unlock_buffer b s = unmap_buffer b (updb b (\<lambda>h. h\<lparr>b_lock := False\<rparr>) s)"

definition mark_buffer_uptodate :: "nat \<Rightarrow> bool \<Rightarrow> 'd bcache \<Rightarrow> 'd bcache" where
  "mark_buffer_uptodate b on s = updb b (\<lambda>h. h\<lparr>b_uptodate := on\<rparr>) s"

definition put_last_lru :: "nat \<Rightarrow> 'd bcache \<Rightarrow> 'd bcache kres" where
  "put_last_lru b s =
    (if bh_llru s = Some b then Inr s
     else
       let bhn = b_next_lru (buffers s b);
           s = (case bhn of None \<Rightarrow> s | Some n \<Rightarrow> updb n (\<lambda>h. h\<lparr>b_prev_lru := b_prev_lru (buffers s b)\<rparr>) s);
           s = (case b_prev_lru (buffers s b) of None \<Rightarrow> s | Some p \<Rightarrow> updb p (\<lambda>h. h\<lparr>b_next_lru := bhn\<rparr>) s);
           s = (if bh_lru s = Some b then s\<lparr>bh_lru := bhn\<rparr> else s);
           s = updb b (\<lambda>h. h\<lparr>b_next_lru := None, b_prev_lru := bh_llru s\<rparr>) s
       in case bh_llru s of
            None \<Rightarrow> Inl NullDeref
          | Some l \<Rightarrow> Inr ((updb l (\<lambda>h. h\<lparr>b_next_lru := Some b\<rparr>) s)\<lparr>bh_llru := Some b\<rparr>))"

section \<open>The request queue\<close>

definition MAJOR :: "u16 \<Rightarrow> u16" where "MAJOR dev = drop_bit 8 dev"

text \<open>The search of a free request, downwards from the one found last; \<open>req\<close> is one above the
  request that is looked at next.\<close>

primrec get_request_loop :: "nat \<Rightarrow> nat \<Rightarrow> nat \<Rightarrow> nat \<Rightarrow> (nat \<Rightarrow> request) \<Rightarrow> nat option kres" where
  "get_request_loop 0 limit prev req rqs = Inl Stuck"
| "get_request_loop (Suc n) limit prev req rqs =
    (let req = (if req > 0 then req else limit) - 1
     in if \<not> rq_active (rqs req) then Inr (Some req)
        else if req = prev then Inr None
        else get_request_loop n limit prev req rqs)"

definition get_request :: "nat \<Rightarrow> u16 \<Rightarrow> 'd bcache \<Rightarrow> (nat option \<times> 'd bcache) kres" where
  "get_request n dev s =
    (let s = (if n \<noteq> prev_limit s then s\<lparr>prev_limit := n, prev_found := 0\<rparr> else s)
     in bindr (get_request_loop (n + 1) n (prev_found s) (prev_found s) (all_requests s)) (\<lambda>r.
          case r of
            None \<Rightarrow> Inr (None, s)
          | Some req \<Rightarrow> Inr (Some req, updr req (\<lambda>q. q\<lparr>rq_active := True, rq_dev := dev\<rparr>) (s\<lparr>prev_found := req\<rparr>))))"

definition IN_ORDER :: "request \<Rightarrow> request \<Rightarrow> bool" where
  "IN_ORDER s1 s2 \<longleftrightarrow>
    (rq_cmd s1 = WRITE \<and> rq_cmd s2 = READ) \<or>
    (rq_cmd s1 = rq_cmd s2 \<and> (rq_dev s1 < rq_dev s2 \<or> (rq_dev s1 = rq_dev s2 \<and> rq_sector s1 < rq_sector s2)))"

primrec elevator :: "nat \<Rightarrow> nat \<Rightarrow> nat \<Rightarrow> (nat \<Rightarrow> request) \<Rightarrow> nat kres" where
  "elevator 0 tmp req rqs = Inl Stuck"
| "elevator (Suc n) tmp req rqs =
    (case rq_next (rqs tmp) of
       None \<Rightarrow> Inr tmp
     | Some nx \<Rightarrow>
         if (IN_ORDER (rqs tmp) (rqs req) \<or> \<not> IN_ORDER (rqs tmp) (rqs nx)) \<and> IN_ORDER (rqs req) (rqs nx) then Inr tmp
         else elevator n nx req rqs)"

definition add_request :: "'d drivers \<Rightarrow> u16 \<Rightarrow> nat \<Rightarrow> 'd bcache \<Rightarrow> 'd bcache kres" where
  "add_request drv major req s =
    (let s = updb (rq_bh (all_requests s req)) (\<lambda>h. h\<lparr>b_dirty := False\<rparr>) s
     in case current_request s major of
          None \<Rightarrow>
            (case drv major of
               None \<Rightarrow> Inl NullDeref
             | Some request_fn \<Rightarrow> request_fn (s\<lparr>current_request := (current_request s)(major := Some req)\<rparr>))
        | Some tmp \<Rightarrow>
            bindr (elevator (NR_REQUEST + 1) tmp req (all_requests s)) (\<lambda>tmp.
              Inr (updr tmp (\<lambda>q. q\<lparr>rq_next := Some req\<rparr>)
                    (updr req (\<lambda>q. q\<lparr>rq_next := rq_next (all_requests s tmp)\<rparr>) s))))"

definition make_request :: "'d drivers \<Rightarrow> u16 \<Rightarrow> rw_cmd \<Rightarrow> nat \<Rightarrow> 'd bcache \<Rightarrow> 'd bcache kres" where
  "make_request drv major rw b s =
    (let sector = ucast (b_blocknr (buffers s b)) * 2
     in if b_lock (buffers s b) then Inr s
        else
          bindr (map_buffer b (updb b (\<lambda>h. h\<lparr>b_lock := True\<rparr>) s)) (\<lambda>s.
            if rw = READ \<and> b_uptodate (buffers s b) then Inr (unlock_buffer b s)
            else if rw = WRITE \<and> \<not> b_dirty (buffers s b) then Inr (unlock_buffer b s)
            else
              let max_req = (case rw of READ \<Rightarrow> NR_REQUEST | WRITE \<Rightarrow> NR_REQUEST * 2 div 3)
              in bindr (get_request max_req (b_dev (buffers s b)) s) (\<lambda>(r, s).
                   case r of
                     None \<Rightarrow> Inl (Panic ''Can't get request.'')
                   | Some req \<Rightarrow>
                       bindr (deref (b_data (buffers s b))) (\<lambda>data.
                         add_request drv major req
                           (updr req (\<lambda>q. q\<lparr>rq_cmd := rw, rq_sector := sector, rq_buffer := data, rq_bh := b, rq_next := None\<rparr>) s)))))"

definition ll_rw_blk :: "'d drivers \<Rightarrow> rw_cmd \<Rightarrow> nat \<Rightarrow> 'd bcache \<Rightarrow> 'd bcache kres" where
  "ll_rw_blk drv rw b s =
    (let major = MAJOR (b_dev (buffers s b))
     in if \<not> major < MAX_BLKDEV \<or> drv major = None
        then Inr (updb b (\<lambda>h. h\<lparr>b_dirty := False, b_uptodate := False\<rparr>) s)
        else make_request drv major rw b s)"

definition end_request :: "bool \<Rightarrow> u16 \<Rightarrow> 'd bcache \<Rightarrow> 'd bcache kres" where
  "end_request uptodate major s =
    bindr (deref (current_request s major)) (\<lambda>req.
      let b = rq_bh (all_requests s req);
          s = unlock_buffer b (updb b (\<lambda>h. h\<lparr>b_uptodate := uptodate\<rparr>) s);
          s = s\<lparr>current_request := (current_request s)(major := rq_next (all_requests s req))\<rparr>
      in Inr (updr req (\<lambda>q. q\<lparr>rq_dev := - 1, rq_active := False\<rparr>) s))"

section \<open>The buffer cache\<close>

text \<open>Walks over the list of all buffers are bounded by their number.\<close>

primrec sync_loop :: "nat \<Rightarrow> 'd drivers \<Rightarrow> u16 \<Rightarrow> bool \<Rightarrow> nat option \<Rightarrow> 'd bcache \<Rightarrow> 'd bcache kres" where
  "sync_loop 0 drv dev wait p s = (if p = None then Inr s else Inl Stuck)"
| "sync_loop (Suc n) drv dev wait p s =
    (case p of
       None \<Rightarrow> Inr s
     | Some b \<Rightarrow>
         bindr
           (if dev \<noteq> 0 \<and> b_dev (buffers s b) \<noteq> dev then Inr s
            else if \<not> b_dirty (buffers s b) then Inr s
            else if b_lock (buffers s b) \<and> wait then Inr s
            else
              bindr (wait_on_buffer b s) (\<lambda>s.
                bindr (ll_rw_blk drv WRITE b (updb b (\<lambda>h. h\<lparr>b_count := b_count h + 1\<rparr>) s)) (\<lambda>s.
                  Inr (updb b (\<lambda>h. h\<lparr>b_count := b_count h - 1\<rparr>) s))))
           (\<lambda>s. sync_loop n drv dev wait (b_next (buffers s b)) s))"

definition sync_buffers :: "'d drivers \<Rightarrow> u16 \<Rightarrow> bool \<Rightarrow> 'd bcache \<Rightarrow> 'd bcache kres" where
  "sync_buffers drv dev wait s = sync_loop NR_BUFFERS drv dev wait (bh_chain s) s"

primrec invalidate_buffers_loop :: "nat \<Rightarrow> u16 \<Rightarrow> nat option \<Rightarrow> 'd bcache \<Rightarrow> 'd bcache kres" where
  "invalidate_buffers_loop 0 dev p s = (if p = None then Inr s else Inl Stuck)"
| "invalidate_buffers_loop (Suc n) dev p s =
    (case p of
       None \<Rightarrow> Inr s
     | Some b \<Rightarrow>
         bindr
           (if b_dev (buffers s b) \<noteq> dev then Inr s
            else bindr (wait_on_buffer b s) (\<lambda>s.
              if b_dev (buffers s b) \<noteq> dev then Inr s
              else if b_count (buffers s b) \<noteq> 0 then Inr s
              else Inr (updb b (\<lambda>h. h\<lparr>b_uptodate := False, b_dirty := False, b_lock := False\<rparr>) s)))
           (\<lambda>s. invalidate_buffers_loop n dev (b_next (buffers s b)) s))"

definition invalidate_buffers :: "u16 \<Rightarrow> 'd bcache \<Rightarrow> 'd bcache kres" where
  "invalidate_buffers dev s = invalidate_buffers_loop NR_BUFFERS dev (bh_chain s) s"

definition find_buffer :: "u16 \<Rightarrow> u16 \<Rightarrow> 'd bcache \<Rightarrow> nat option" where
  "find_buffer dev block s =
    find (\<lambda>b. b_blocknr (buffers s b) = block \<and> b_dev (buffers s b) = dev)
      (chase (\<lambda>b. b_next (buffers s b)) NR_BUFFERS (bh_chain s))"

text \<open>A buffer that can be given to another block.\<close>

definition idle :: "'d bcache \<Rightarrow> nat \<Rightarrow> bool" where
  "idle s b \<longleftrightarrow> b_count (buffers s b) = 0 \<and> \<not> b_dirty (buffers s b) \<and> \<not> b_lock (buffers s b) \<and> b_data (buffers s b) = None"

text \<open>When no buffer is idle the dirty ones are written; when none is idle after that, nothing
  changes any more and the loop does not end.\<close>

primrec get_free_loop :: "nat \<Rightarrow> 'd drivers \<Rightarrow> 'd bcache \<Rightarrow> (nat \<times> 'd bcache) kres" where
  "get_free_loop 0 drv s = Inl Stuck"
| "get_free_loop (Suc n) drv s =
    (case find (idle s) (chase (\<lambda>b. b_next_lru (buffers s b)) NR_BUFFERS (bh_lru s)) of
       Some b \<Rightarrow> bindr (put_last_lru b s) (\<lambda>s. Inr (b, s))
     | None \<Rightarrow> bindr (sync_buffers drv 0 False s) (\<lambda>s. get_free_loop n drv s))"

definition get_free_buffer :: "'d drivers \<Rightarrow> 'd bcache \<Rightarrow> (nat \<times> 'd bcache) kres" where
  "get_free_buffer drv s = get_free_loop 2 drv s"

definition get_hash_table :: "u16 \<Rightarrow> u16 \<Rightarrow> 'd bcache \<Rightarrow> (nat option \<times> 'd bcache) kres" where
  "get_hash_table dev block s =
    (case find_buffer dev block s of
       None \<Rightarrow> Inr (None, s)
     | Some b \<Rightarrow>
         bindr (wait_on_buffer b (updb b (\<lambda>h. h\<lparr>b_count := b_count h + 1\<rparr>) s)) (\<lambda>s.
           if b_dev (buffers s b) = dev \<and> b_blocknr (buffers s b) = block then Inr (Some b, s) else Inl Stuck))"

definition getblk :: "'d drivers \<Rightarrow> u16 \<Rightarrow> u16 \<Rightarrow> 'd bcache \<Rightarrow> (nat \<times> 'd bcache) kres" where
  "getblk drv dev block s =
    bindr (get_hash_table dev block s) (\<lambda>(r, s).
      case r of
        Some b \<Rightarrow>
          if \<not> b_dirty (buffers s b) \<and> b_uptodate (buffers s b)
          then bindr (put_last_lru b s) (\<lambda>s. Inr (b, s))
          else Inr (b, s)
      | None \<Rightarrow>
          if find_buffer dev block s \<noteq> None then Inl Stuck
          else
            bindr (get_free_buffer drv s) (\<lambda>(b, s).
              Inr (b, updb b (\<lambda>h. h\<lparr>b_count := 1, b_dirty := False, b_lock := False, b_uptodate := False,
                                    b_dev := dev, b_blocknr := block\<rparr>) s)))"

definition brelse :: "nat \<Rightarrow> 'd bcache \<Rightarrow> 'd bcache kres" where
  "brelse b s =
    bindr (wait_on_buffer b s) (\<lambda>s.
      if b_count (buffers s b) \<noteq> 0 then Inr (updb b (\<lambda>h. h\<lparr>b_count := b_count h - 1\<rparr>) s)
      else Inl (Panic ''brelse''))"

definition unmap_brelse :: "nat option \<Rightarrow> 'd bcache \<Rightarrow> 'd bcache kres" where
  "unmap_brelse p s = (case p of None \<Rightarrow> Inr s | Some b \<Rightarrow> brelse b (unmap_buffer b s))"

definition readbuf :: "'d drivers \<Rightarrow> nat \<Rightarrow> 'd bcache \<Rightarrow> (nat option \<times> 'd bcache) kres" where
  "readbuf drv b s =
    (if b_uptodate (buffers s b) then Inr (Some b, s)
     else
       bindr (ll_rw_blk drv READ b s) (\<lambda>s.
         bindr (wait_on_buffer b s) (\<lambda>s.
           if b_uptodate (buffers s b) then Inr (Some b, s)
           else bindr (brelse b s) (\<lambda>s. Inr (None, s)))))"

definition bread :: "'d drivers \<Rightarrow> u16 \<Rightarrow> u16 \<Rightarrow> 'd bcache \<Rightarrow> (nat option \<times> 'd bcache) kres" where
  "bread drv dev block s = bindr (getblk drv dev block s) (\<lambda>(b, s). readbuf drv b s)"

end
