(* ===== verification/BufferCache.thy ===== *)
theory BufferCache
  imports Buffer
begin

text \<open>
  What the buffer cache promises. \<open>view\<close> is a block as the rest of the kernel sees it, the data
  of its valid buffer or what is on the disk; the operations of the cache keep it, and
  keep the invariant \<open>cache_ok\<close>. The drivers are the locale \<open>block_driver\<close>: the law is that
  the request function of a registered device serves the request at the head of an otherwise
  empty queue.
\<close>

section \<open>Updates\<close>

lemma updb_simps [simp]:
  "buffers (updb b f s) c = (if c = b then f (buffers s b) else buffers s c)"
  "bh_chain (updb b f s) = bh_chain s" "bh_lru (updb b f s) = bh_lru s" "bh_llru (updb b f s) = bh_llru s"
  "bufmem (updb b f s) = bufmem s" "l2 (updb b f s) = l2 s" "bufmem_map (updb b f s) = bufmem_map s" "lastumap (updb b f s) = lastumap s"
  "all_requests (updb b f s) = all_requests s" "prev_found (updb b f s) = prev_found s" "prev_limit (updb b f s) = prev_limit s"
  "current_request (updb b f s) = current_request s" "devs (updb b f s) = devs s"
  by (simp_all add: updb_def)

lemma updr_simps [simp]:
  "all_requests (updr r g s) q = (if q = r then g (all_requests s r) else all_requests s q)"
  "buffers (updr r g s) = buffers s"
  "bh_chain (updr r g s) = bh_chain s" "bh_lru (updr r g s) = bh_lru s" "bh_llru (updr r g s) = bh_llru s"
  "bufmem (updr r g s) = bufmem s" "l2 (updr r g s) = l2 s" "bufmem_map (updr r g s) = bufmem_map s" "lastumap (updr r g s) = lastumap s"
  "prev_found (updr r g s) = prev_found s" "prev_limit (updr r g s) = prev_limit s"
  "current_request (updr r g s) = current_request s" "devs (updr r g s) = devs s"
  by (simp_all add: updr_def)

section \<open>The areas of the kernel's data segment\<close>

definition clip :: "bytes \<Rightarrow> bytes" where
  "clip d = (\<lambda>i. if i < 1024 then d i else 0)"

definition data_of :: "'d bcache \<Rightarrow> nat \<Rightarrow> bytes" where
  "data_of s b = clip (case b_data (buffers s b) of Some i \<Rightarrow> bufmem s i | None \<Rightarrow> l2 s b)"

definition l1_ok :: "'d bcache \<Rightarrow> bool" where
  "l1_ok s \<longleftrightarrow> lastumap s < NR_MAPBUFS \<and>
    (\<forall>i b. i < NR_MAPBUFS \<and> bufmem_map s i = Some b \<longrightarrow> b < NR_BUFFERS \<and> b_data (buffers s b) = Some i) \<and>
    (\<forall>i b. b < NR_BUFFERS \<and> b_data (buffers s b) = Some i \<longrightarrow> i < NR_MAPBUFS \<and> bufmem_map s i = Some b) \<and>
    (\<forall>b. b < NR_BUFFERS \<and> b_mapcount (buffers s b) \<noteq> 0 \<longrightarrow> b_data (buffers s b) \<noteq> None)"

definition pinned :: "'d bcache \<Rightarrow> nat set" where
  "pinned s = {b. b < NR_BUFFERS \<and> b_mapcount (buffers s b) \<noteq> 0}"

definition noslot :: "buffer_head \<Rightarrow> buffer_head" where
  "noslot h = h\<lparr>b_data := None\<rparr>"

text \<open>What does not change when buffers are moved between the two areas.\<close>

definition same_but_slots :: "'d bcache \<Rightarrow> 'd bcache \<Rightarrow> bool" where
  "same_but_slots s s' \<longleftrightarrow> (\<forall>c. noslot (buffers s' c) = noslot (buffers s c)) \<and> (\<forall>c < NR_BUFFERS. data_of s' c = data_of s c) \<and>
    bh_chain s' = bh_chain s \<and> bh_lru s' = bh_lru s \<and> bh_llru s' = bh_llru s \<and> all_requests s' = all_requests s \<and>
    prev_found s' = prev_found s \<and> prev_limit s' = prev_limit s \<and> current_request s' = current_request s \<and> devs s' = devs s"

lemma noslot_eqD:
  assumes "noslot h = noslot k"
  shows "b_blocknr h = b_blocknr k" "b_dev h = b_dev k" "b_next h = b_next k" "b_next_lru h = b_next_lru k" "b_prev_lru h = b_prev_lru k"
    "b_count h = b_count k" "b_uptodate h = b_uptodate k" "b_dirty h = b_dirty k" "b_lock h = b_lock k" "b_mapcount h = b_mapcount k"
  using assms by (cases h; cases k; simp add: noslot_def)+

lemma noslot_upds [simp]:
  "noslot (h\<lparr>b_data := x\<rparr>) = noslot h"
  "noslot (h\<lparr>b_data := x, b_mapcount := n\<rparr>) = noslot (h\<lparr>b_mapcount := n\<rparr>)"
  by (simp_all add: noslot_def)

lemma l1_okD:
  assumes "l1_ok s"
  shows "lastumap s < NR_MAPBUFS" "i < NR_MAPBUFS \<Longrightarrow> bufmem_map s i = Some b \<Longrightarrow> b < NR_BUFFERS \<and> b_data (buffers s b) = Some i"
    "b < NR_BUFFERS \<Longrightarrow> b_data (buffers s b) = Some i \<Longrightarrow> i < NR_MAPBUFS \<and> bufmem_map s i = Some b"
    "b < NR_BUFFERS \<Longrightarrow> b_mapcount (buffers s b) \<noteq> 0 \<Longrightarrow> b_data (buffers s b) \<noteq> None"
  using assms unfolding l1_ok_def by blast+

text \<open>A buffer put into a free area.\<close>

lemma map_free:
  assumes ok: "l1_ok s" and b: "b < NR_BUFFERS" "b_data (buffers s b) = None" and i: "i < NR_MAPBUFS" "bufmem_map s i = None"
    and s': "s' = updb b (\<lambda>h. h\<lparr>b_data := Some i\<rparr>) (s\<lparr>bufmem_map := (bufmem_map s)(i := Some b), bufmem := (bufmem s)(i := l2 s b)\<rparr>)"
  shows "l1_ok s'" "same_but_slots s s'" "b_data (buffers s' b) = Some i"
proof -
  have other: "b_data (buffers s c) \<noteq> Some i" if "c < NR_BUFFERS" for c
    using l1_okD(3)[OF ok that, of i] i(2) by auto
  show "b_data (buffers s' b) = Some i" by (simp add: s')
  show "l1_ok s'" unfolding l1_ok_def s'
  proof (intro conjI allI impI)
    fix j c
    assume "j < NR_MAPBUFS \<and> bufmem_map (updb b (\<lambda>h. h\<lparr>b_data := Some i\<rparr>) (s\<lparr>bufmem_map := (bufmem_map s)(i := Some b), bufmem := (bufmem s)(i := l2 s b)\<rparr>)) j = Some c"
    then show "c < NR_BUFFERS" "b_data (buffers (updb b (\<lambda>h. h\<lparr>b_data := Some i\<rparr>) (s\<lparr>bufmem_map := (bufmem_map s)(i := Some b), bufmem := (bufmem s)(i := l2 s b)\<rparr>)) c) = Some j"
      using l1_okD(2)[OF ok, of j c] b by (auto split: if_splits)
  next
    fix j c
    assume "c < NR_BUFFERS \<and> b_data (buffers (updb b (\<lambda>h. h\<lparr>b_data := Some i\<rparr>) (s\<lparr>bufmem_map := (bufmem_map s)(i := Some b), bufmem := (bufmem s)(i := l2 s b)\<rparr>)) c) = Some j"
    then show "j < NR_MAPBUFS" "bufmem_map (updb b (\<lambda>h. h\<lparr>b_data := Some i\<rparr>) (s\<lparr>bufmem_map := (bufmem_map s)(i := Some b), bufmem := (bufmem s)(i := l2 s b)\<rparr>)) j = Some c"
      using l1_okD(3)[OF ok, of c j] i other[of c] by (auto split: if_splits)
  qed (use l1_okD(1,4)[OF ok] in \<open>auto split: if_splits\<close>)
  show "same_but_slots s s'" using other b(2)
    by (auto simp: same_but_slots_def s' data_of_def split: option.splits)
qed


lemma same_but_slots_refl: "same_but_slots s s"
  by (simp add: same_but_slots_def)

lemma same_but_slots_trans: "same_but_slots s t \<Longrightarrow> same_but_slots t u \<Longrightarrow> same_but_slots s u"
  by (simp add: same_but_slots_def)

lemma same_but_slotsD:
  assumes "same_but_slots s s'"
  shows "noslot (buffers s' c) = noslot (buffers s c)" "c < NR_BUFFERS \<Longrightarrow> data_of s' c = data_of s c"
    "bh_chain s' = bh_chain s" "bh_lru s' = bh_lru s" "bh_llru s' = bh_llru s" "all_requests s' = all_requests s"
    "prev_found s' = prev_found s" "prev_limit s' = prev_limit s" "current_request s' = current_request s" "devs s' = devs s"
  using assms by (simp_all add: same_but_slots_def)

text \<open>A buffer copied back to its home.\<close>

lemma evict:
  assumes ok: "l1_ok s" and i: "i < NR_MAPBUFS" "bufmem_map s i = Some c" "b_mapcount (buffers s c) = 0"
    and s': "s' = updb c (\<lambda>h. h\<lparr>b_data := None\<rparr>) (s\<lparr>l2 := (l2 s)(c := bufmem s i), bufmem_map := (bufmem_map s)(i := None), lastumap := i\<rparr>)"
  shows "l1_ok s'" "same_but_slots s s'" "bufmem_map s' i = None"
proof -
  have c: "c < NR_BUFFERS" "b_data (buffers s c) = Some i" using l1_okD(2)[OF ok i(1,2)] by auto
  have other: "b_data (buffers s d) \<noteq> Some i" if "d < NR_BUFFERS" "d \<noteq> c" for d
    using l1_okD(3)[OF ok that(1), of i] i(2) that(2) by auto
  have backp: "bufmem_map s j \<noteq> Some c" if "j < NR_MAPBUFS" "j \<noteq> i" for j
    using l1_okD(2)[OF ok that(1), of c] c(2) that(2) by auto
  show "bufmem_map s' i = None" by (simp add: s')
  have map': "bufmem_map s' j = (if j = i then None else bufmem_map s j)" and data': "b_data (buffers s' d) = (if d = c then None else b_data (buffers s d))" for j d
    by (simp_all add: s')
  have cnt': "b_mapcount (buffers s' d) = b_mapcount (buffers s d)" for d by (simp add: s')
  have last': "lastumap s' = i" by (simp add: s')
  show "l1_ok s'" unfolding l1_ok_def map' data' cnt' last'
  proof (intro conjI allI impI)
    fix j d
    assume "j < NR_MAPBUFS \<and> (if j = i then None else bufmem_map s j) = Some d"
    then have j: "j < NR_MAPBUFS" "j \<noteq> i" "bufmem_map s j = Some d" by (auto split: if_splits)
    then show "d < NR_BUFFERS" "(if d = c then None else b_data (buffers s d)) = Some j"
      using l1_okD(2)[OF ok j(1,3)] backp[OF j(1,2)] by auto
  next
    fix j d
    assume "d < NR_BUFFERS \<and> (if d = c then None else b_data (buffers s d)) = Some j"
    then have d: "d < NR_BUFFERS" "d \<noteq> c" "b_data (buffers s d) = Some j" by (auto split: if_splits)
    then show "j < NR_MAPBUFS" "(if j = i then None else bufmem_map s j) = Some d"
      using l1_okD(3)[OF ok d(1,3)] other[OF d(1,2)] by auto
  qed (use i l1_okD(4)[OF ok] in auto)
  have "data_of s' d = data_of s d" if "d < NR_BUFFERS" for d
  proof (cases "d = c")
    case True
    then show ?thesis using c(2) by (simp add: data_of_def s')
  next
    case False
    then show ?thesis by (simp add: data_of_def s' cong: option.case_cong)
  qed
  moreover have "noslot (buffers s' d) = noslot (buffers s d)" for d by (simp add: s')
  ultimately show "same_but_slots s s'" unfolding same_but_slots_def by (simp add: s')
qed

lemma mod8_le: "j \<le> k \<Longrightarrow> k < j + 8 \<Longrightarrow> ((l :: nat) + k) mod 8 = (l + j) mod 8 \<Longrightarrow> j = k"
  using mod_eq_dvd_iff_nat[of "l + j" "l + k" 8] by (auto dest: dvd_imp_le)

lemma mod8_inj: "j < 8 \<Longrightarrow> k < 8 \<Longrightarrow> ((l :: nat) + j) mod 8 = (l + k) mod 8 \<Longrightarrow> j = k"
  using mod8_le[of j k l] mod8_le[of k j l] by (cases "j \<le> k") auto

text \<open>With at least two areas not in use, one of those searched is not in use.\<close>

lemma evictable:
  assumes ok: "l1_ok s" and room: "card (pinned s) \<le> 6" and full: "\<And>i. i < NR_MAPBUFS \<Longrightarrow> bufmem_map s i \<noteq> None"
  shows "\<exists>i \<in> set (map (\<lambda>k. (lastumap s + k) mod NR_MAPBUFS) [1..<NR_MAPBUFS]).
    case bufmem_map s i of None \<Rightarrow> False | Some c \<Rightarrow> b_mapcount (buffers s c) = 0"
proof (rule ccontr)
  assume no: "\<not> ?thesis"
  let ?f = "\<lambda>k. (lastumap s + k) mod NR_MAPBUFS"
  let ?g = "\<lambda>k. the (bufmem_map s (?f k))"
  have g: "bufmem_map s (?f k) = Some (?g k)" for k using full[of "?f k"] by auto
  have pin: "?g k \<in> pinned s" if "k \<in> {1..<NR_MAPBUFS}" for k
  proof -
    have "?f k \<in> set (map ?f [1..<NR_MAPBUFS])" using that by (simp only: set_map set_upt) blast
    then have "\<not> (case bufmem_map s (?f k) of None \<Rightarrow> False | Some c \<Rightarrow> b_mapcount (buffers s c) = 0)" using no by blast
    moreover obtain c where "bufmem_map s (?f k) = Some c" using g by blast
    ultimately have "b_mapcount (buffers s (?g k)) \<noteq> 0" by simp
    moreover have "?g k < NR_BUFFERS" using l1_okD(2)[OF ok _ g[of k]] by simp
    ultimately show ?thesis by (simp add: pinned_def)
  qed
  have inj: "inj_on ?g {1..<NR_MAPBUFS}"
  proof (rule inj_onI)
    fix j k
    assume jk: "j \<in> {1..<NR_MAPBUFS}" "k \<in> {1..<NR_MAPBUFS}" "?g j = ?g k"
    have "b_data (buffers s (?g j)) = Some (?f j)" "b_data (buffers s (?g k)) = Some (?f k)"
      using l1_okD(2)[OF ok _ g[of j]] l1_okD(2)[OF ok _ g[of k]] by simp_all
    then have "?f j = ?f k" unfolding jk(3) by simp
    then show "j = k" using jk(1,2) by (intro mod8_inj[of j k "lastumap s"]) (simp_all only: atLeastLessThan_iff)
  qed
  have "card (?g ` {1..<NR_MAPBUFS}) \<le> card (pinned s)"
    using pin by (intro card_mono) (auto simp: pinned_def)
  then show False using room card_image[OF inj] by simp
qed

lemma same_pinned: "same_but_slots s s' \<Longrightarrow> pinned s' = pinned s"
  using noslot_eqD(10)[OF same_but_slotsD(1), of s s'] by (simp add: pinned_def)

lemma map_loop_ok:
  assumes ok: "l1_ok s" and room: "card (pinned s) \<le> 6" and b: "b < NR_BUFFERS" "b_data (buffers s b) = None"
  shows "\<exists>s1 i. map_loop 2 b s = Inr (updb b (\<lambda>h. h\<lparr>b_mapcount := b_mapcount h + 1\<rparr>) s1) \<and>
    l1_ok s1 \<and> same_but_slots s s1 \<and> b_data (buffers s1 b) = Some i"
proof -
  have take_free: "\<exists>s1 i. map_loop (Suc n) b t = Inr (updb b (\<lambda>h. h\<lparr>b_mapcount := b_mapcount h + 1\<rparr>) s1) \<and>
      l1_ok s1 \<and> same_but_slots t s1 \<and> b_data (buffers s1 b) = Some i"
    if t: "l1_ok t" "b_data (buffers t b) = None" and f: "find (\<lambda>i. bufmem_map t i = None) [0..<NR_MAPBUFS] = Some i" for t :: "'d bcache" and i n
  proof -
    have i: "i < NR_MAPBUFS" "bufmem_map t i = None" using f by (auto simp: find_Some_iff)
    note m = map_free[OF t(1) b(1) t(2) i refl]
    show ?thesis
      by (rule exI[of _ "updb b (\<lambda>h. h\<lparr>b_data := Some i\<rparr>) (t\<lparr>bufmem_map := (bufmem_map t)(i := Some b), bufmem := (bufmem t)(i := l2 t b)\<rparr>)"],
          rule exI[of _ i], unfold map_loop.simps f)
        (use m in \<open>simp add: updb_def\<close>)
  qed
  show ?thesis
  proof (cases "find (\<lambda>i. bufmem_map s i = None) [0..<NR_MAPBUFS]")
    case (Some i)
    show ?thesis using take_free[OF ok b(2) Some, of 1, unfolded Suc_1] .
  next
    case None
    then have full: "bufmem_map s i \<noteq> None" if "i < NR_MAPBUFS" for i using that by (auto simp: find_None_iff)
    let ?P = "\<lambda>i. case bufmem_map s i of None \<Rightarrow> False | Some c \<Rightarrow> b_mapcount (buffers s c) = 0"
    let ?l = "map (\<lambda>k. (lastumap s + k) mod NR_MAPBUFS) [1..<NR_MAPBUFS]"
    have "find ?P ?l \<noteq> None" using evictable[OF ok room full] by (simp only: find_None_iff) blast
    then obtain i where i: "find ?P ?l = Some i" by blast
    then have "i \<in> set ?l" "?P i" unfolding find_Some_iff using nth_mem by blast+
    then obtain c where c: "i < NR_MAPBUFS" "bufmem_map s i = Some c" "b_mapcount (buffers s c) = 0" by (auto split: option.splits)
    define t where "t = updb c (\<lambda>h. h\<lparr>b_data := None\<rparr>) (s\<lparr>l2 := (l2 s)(c := bufmem s i), bufmem_map := (bufmem_map s)(i := None), lastumap := i\<rparr>)"
    note e = evict[OF ok c t_def]
    have bt: "b_data (buffers t b) = None" using b(2) by (simp add: t_def)
    have "find (\<lambda>i. bufmem_map t i = None) [0..<NR_MAPBUFS] \<noteq> None" using e(3) c(1) by (auto simp: find_None_iff)
    then obtain j where j: "find (\<lambda>i. bufmem_map t i = None) [0..<NR_MAPBUFS] = Some j" by blast
    have "map_loop 2 b s = map_loop (Suc 0) b t"
      by (simp only: numeral_2_eq_2 map_loop.simps(2)[of "Suc 0"] None i c(2) option.case t_def)
    moreover obtain s1 k where "map_loop (Suc 0) b t = Inr (updb b (\<lambda>h. h\<lparr>b_mapcount := b_mapcount h + 1\<rparr>) s1)"
        "l1_ok s1" "same_but_slots t s1" "b_data (buffers s1 b) = Some k"
      using take_free[OF e(1) bt j, of 0] by blast
    ultimately show ?thesis using same_but_slots_trans[OF e(2)] by auto
  qed
qed

lemma map_buffer_ok:
  assumes ok: "l1_ok s" and room: "card (pinned s) \<le> 6" and b: "b < NR_BUFFERS"
  shows "\<exists>s1 i. map_buffer b s = Inr (updb b (\<lambda>h. h\<lparr>b_mapcount := b_mapcount h + 1\<rparr>) s1) \<and>
    l1_ok s1 \<and> same_but_slots s s1 \<and> b_data (buffers s1 b) = Some i"
proof (cases "b_data (buffers s b)")
  case None
  then show ?thesis using map_loop_ok[OF ok room b] by (simp add: map_buffer_def)
next
  case (Some i)
  then show ?thesis using ok same_but_slots_refl[of s] by (auto simp: map_buffer_def)
qed

section \<open>The list of least recently used buffers\<close>

abbreviation nlru :: "'d bcache \<Rightarrow> nat \<Rightarrow> nat option" where "nlru s \<equiv> \<lambda>c. b_next_lru (buffers s c)"
abbreviation plru :: "'d bcache \<Rightarrow> nat \<Rightarrow> nat option" where "plru s \<equiv> \<lambda>c. b_prev_lru (buffers s c)"

definition lru_list :: "'d bcache \<Rightarrow> nat list \<Rightarrow> bool" where
  "lru_list s xs \<longleftrightarrow> xs \<noteq> [] \<and> distinct xs \<and> bh_lru s = Some (hd xs) \<and> bh_llru s = Some (last xs) \<and> plru s (hd xs) = None \<and>
    dseg (nlru s) (plru s) (hd xs) (tl xs) None"

definition nolru :: "buffer_head \<Rightarrow> buffer_head" where
  "nolru h = h\<lparr>b_next_lru := None, b_prev_lru := None\<rparr>"

definition same_but_lru :: "'d bcache \<Rightarrow> 'd bcache \<Rightarrow> bool" where
  "same_but_lru s s' \<longleftrightarrow> (\<forall>c. nolru (buffers s' c) = nolru (buffers s c)) \<and>
    bh_chain s' = bh_chain s \<and> bufmem s' = bufmem s \<and> l2 s' = l2 s \<and> bufmem_map s' = bufmem_map s \<and> lastumap s' = lastumap s \<and>
    all_requests s' = all_requests s \<and> prev_found s' = prev_found s \<and> prev_limit s' = prev_limit s \<and>
    current_request s' = current_request s \<and> devs s' = devs s"

lemma nolru_eqD:
  assumes "nolru h = nolru k"
  shows "b_data h = b_data k" "b_blocknr h = b_blocknr k" "b_dev h = b_dev k" "b_next h = b_next k"
    "b_count h = b_count k" "b_uptodate h = b_uptodate k" "b_dirty h = b_dirty k" "b_lock h = b_lock k" "b_mapcount h = b_mapcount k"
  using assms by (cases h; cases k; simp add: nolru_def)+

lemma nolru_upds [simp]:
  "nolru (h\<lparr>b_next_lru := x\<rparr>) = nolru h" "nolru (h\<lparr>b_prev_lru := x\<rparr>) = nolru h"
  by (simp_all add: nolru_def)

lemma nolru_updb: "(\<And>h. nolru (f h) = nolru h) \<Longrightarrow> nolru (buffers (updb b f s) c) = nolru (buffers s c)"
  by simp

lemma dseg_chain: "dseg nxt prv a xs None \<Longrightarrow> chain nxt (Some a) (a # xs)"
  by (induction xs arbitrary: a) auto

lemma lru_walk: "lru_list s xs \<Longrightarrow> length xs \<le> n \<Longrightarrow> chase (nlru s) n (bh_lru s) = xs"
  using dseg_chain[of "nlru s" "plru s" "hd xs" "tl xs"] by (intro chase_chain) (auto simp: lru_list_def)

text \<open>Appending a node to a list.\<close>

lemma dseg_snoc:
  assumes "dseg nxt prv a xs None" and "distinct (a # xs)" and "b \<notin> set (a # xs)"
  shows "dseg (nxt(b := None, last (a # xs) := Some b)) (prv(b := Some (last (a # xs)))) a (xs @ [b]) None"
proof -
  have l: "last (a # xs) \<noteq> b" using assms(3) last_in_set[of "a # xs"] by force
  have "dseg (nxt(last (a # xs) := Some b)) (prv(b := Some (last (a # xs)))) a xs (Some b)"
    using dseg_retarget[OF assms(1,2), of b] assms(3) by simp
  then have "dseg (nxt(last (a # xs) := Some b, b := None)) (prv(b := Some (last (a # xs)))) a xs (Some b)"
    using assms(3) by simp
  then show ?thesis using l by (simp add: dseg_append fun_upd_twist)
qed

lemma lru_moved:
  assumes "bh_lru t = Some (hd xs)" and "bh_llru t = Some b" and "distinct xs" "xs \<noteq> []" "b \<notin> set xs"
    and "dseg nxt prv (hd xs) (tl xs) None" "prv (hd xs) = None"
    and "nlru t = nxt(b := None, last xs := Some b)" and "plru t = prv(b := Some (last xs))"
  shows "lru_list t (xs @ [b])"
proof -
  obtain a ys where xs: "xs = a # ys" using assms(4) by (cases xs) auto
  have "dseg (nlru t) (plru t) a (ys @ [b]) None"
    unfolding assms(8,9) using dseg_snoc[of nxt prv a ys b] assms(3,5,6) xs by simp
  moreover have "plru t a = None" using fun_cong[OF assms(9), of a] assms(5,7) xs by auto
  ultimately show ?thesis using assms(1-5) xs by (auto simp: lru_list_def)
qed

lemma put_last_lru_ok:
  assumes l: "lru_list s xs" and b: "b \<in> set xs"
  shows "\<exists>s'. put_last_lru b s = Inr s' \<and> lru_list s' (remove1 b xs @ [b]) \<and> same_but_lru s s'"
proof (cases "last xs = b")
  case True
  then obtain ys where "xs = ys @ [b]" using l by (metis append_butlast_last_id lru_list_def)
  then have "remove1 b xs @ [b] = xs" using l by (auto simp: lru_list_def remove1_append remove1_idem)
  then show ?thesis using True l by (auto simp: put_last_lru_def lru_list_def same_but_lru_def)
next
  case False
  obtain a ys where xs: "xs = a # ys" using l by (cases xs) (auto simp: lru_list_def)
  have d: "distinct (a # ys)" "dseg (nlru s) (plru s) a ys None" "plru s a = None" "bh_lru s = Some a" "bh_llru s = Some (last (a # ys))"
    using l by (auto simp: lru_list_def xs)
  show ?thesis
  proof (cases "b = a")
    case True
    then obtain y zs where ys: "ys = y # zs" using False xs by (cases ys) auto
    have n: "nlru s a = Some y" using d(2) ys by simp
    define s' where "s' = (updb (last ys) (\<lambda>h. h\<lparr>b_next_lru := Some a\<rparr>)
      (updb a (\<lambda>h. h\<lparr>b_next_lru := None, b_prev_lru := Some (last ys)\<rparr>) ((updb y (\<lambda>h. h\<lparr>b_prev_lru := None\<rparr>) s)\<lparr>bh_lru := Some y\<rparr>)))\<lparr>bh_llru := Some a\<rparr>"
    have ya: "y \<noteq> a" "last ys \<noteq> a" using d(1) ys last_in_set[of ys] by auto
    have "put_last_lru a s = Inr s'"
      using False True n ya d(3-5) ys xs by (simp add: put_last_lru_def Let_def s'_def)
    moreover have "lru_list s' (ys @ [a])"
    proof (rule lru_moved)
      show "dseg (nlru s) ((plru s)(y := None)) (hd ys) (tl ys) None" using d(1,2) ys by simp
      show "nlru s' = (nlru s)(a := None, last ys := Some a)" using ya by (auto simp: s'_def fun_eq_iff)
      show "plru s' = ((plru s)(y := None))(a := Some (last ys))" using ya by (auto simp: s'_def fun_eq_iff)
    qed (use d ys in \<open>auto simp: s'_def\<close>)
    moreover have "same_but_lru s s'" by (simp add: same_but_lru_def s'_def nolru_updb del: updb_simps(1))
    ultimately show ?thesis using True xs by auto
  next
    case ba: False
    then have "b \<in> set ys" using b xs by simp
    then obtain us vs where ys: "ys = us @ b # vs" by (auto simp: in_set_conv_decomp)
    moreover obtain v ws where vs: "vs = v # ws" using False xs ys by (cases vs) auto
    ultimately have ys: "ys = us @ b # v # ws" by simp
    define p where "p = last (a # us)"
    define l where "l = last (v # ws)"
    have last: "last (a # us @ v # ws) = l" by (simp add: l_def)
    have pb: "plru s b = Some p" "nlru s b = Some v" using d(2) dseg_last[of "nlru s" "plru s" a us b] by (auto simp: ys dseg_simps p_def)
    have p: "p \<in> set (a # us)" unfolding p_def by (rule last_in_set) simp
    have lin: "l \<in> set (v # ws)" unfolding l_def by (rule last_in_set) simp
    have ne: "p \<noteq> b" "p \<noteq> v" "v \<noteq> b" "l \<noteq> b" "l \<noteq> p" "b \<noteq> a" using p lin d(1) ys by auto
    define s' where "s' = (updb l (\<lambda>h. h\<lparr>b_next_lru := Some b\<rparr>)
      (updb b (\<lambda>h. h\<lparr>b_next_lru := None, b_prev_lru := Some l\<rparr>)
        (updb p (\<lambda>h. h\<lparr>b_next_lru := Some v\<rparr>) (updb v (\<lambda>h. h\<lparr>b_prev_lru := Some p\<rparr>) s))))\<lparr>bh_llru := Some b\<rparr>"
    have llru: "bh_llru s = Some l" using d(5) ys by (simp add: l_def)
    have "put_last_lru b s = Inr s'"
      using pb ne d(4) llru unfolding put_last_lru_def Let_def s'_def by simp
    moreover have "lru_list s' ((a # us @ v # ws) @ [b])"
    proof (rule lru_moved)
      show "dseg ((nlru s)(p := Some v)) ((plru s)(v := Some p)) (hd (a # us @ v # ws)) (tl (a # us @ v # ws)) None"
        using dseg_unlink[of "nlru s" "plru s" a us b "v # ws" None] d(1,2) pb(2) ys by (simp add: p_def)
      show "nlru s' = ((nlru s)(p := Some v))(b := None, last (a # us @ v # ws) := Some b)"
        unfolding last using ne by (auto simp: s'_def fun_eq_iff)
      show "plru s' = ((plru s)(v := Some p))(b := Some (last (a # us @ v # ws)))"
        unfolding last using ne by (auto simp: s'_def fun_eq_iff)
      show "((plru s)(v := Some p)) (hd (a # us @ v # ws)) = None" using d(1,3) ys by auto
    qed (use d(1,4) ys last in \<open>auto simp: s'_def\<close>)
    moreover have "same_but_lru s s'" by (simp add: same_but_lru_def s'_def nolru_updb del: updb_simps(1))
    moreover have "remove1 b xs = a # us @ v # ws" using d(1) ys xs by (auto simp: remove1_append)
    ultimately show ?thesis by auto
  qed
qed

section \<open>Drivers\<close>

text \<open>A request at the head of an otherwise empty queue: its buffer is locked, and the sector is
  that of block \<open>block\<close> of \<open>dev\<close>.\<close>

definition pending :: "'d bcache \<Rightarrow> u16 \<Rightarrow> nat \<Rightarrow> u16 \<Rightarrow> u16 \<Rightarrow> bool" where
  "pending s major r dev block \<longleftrightarrow> current_request s major = Some r \<and> rq_dev (all_requests s r) = dev \<and> MAJOR dev = major \<and>
    rq_next (all_requests s r) = None \<and> rq_sector (all_requests s r) = ucast block * 2 \<and> b_lock (buffers s (rq_bh (all_requests s r)))"

text \<open>What a driver does for a request: data go from the disk to the buffer area or back, if the
  disk has the block, and nothing else is touched.\<close>

definition moved :: "('d \<Rightarrow> u16 \<Rightarrow> u16 \<Rightarrow> bytes option) \<Rightarrow> request \<Rightarrow> u16 \<Rightarrow> 'd \<Rightarrow> (nat \<Rightarrow> bytes) \<Rightarrow> 'd \<Rightarrow> (nat \<Rightarrow> bytes) \<Rightarrow> bool" where
  "moved disk q block d mem d' mem' \<longleftrightarrow> (\<forall>j. j \<noteq> rq_buffer q \<longrightarrow> mem' j = mem j) \<and>
    (case rq_cmd q of
       READ \<Rightarrow> disk d' = disk d \<and> (\<forall>x. disk d (rq_dev q) block = Some x \<longrightarrow> clip (mem' (rq_buffer q)) = x)
     | WRITE \<Rightarrow> mem' (rq_buffer q) = mem (rq_buffer q) \<and>
         disk d' = (if disk d (rq_dev q) block = None then disk d
           else (disk d)(rq_dev q := (disk d (rq_dev q))(block := Some (clip (mem (rq_buffer q)))))))"

locale block_driver =
  fixes drv :: "'d drivers" and disk :: "'d \<Rightarrow> u16 \<Rightarrow> u16 \<Rightarrow> bytes option" and addr :: "u16 \<Rightarrow> u16 \<Rightarrow> bool" and dev_ok :: "'d \<Rightarrow> bool"
  assumes registered: "addr dev block \<Longrightarrow> MAJOR dev < MAX_BLKDEV \<and> drv (MAJOR dev) \<noteq> None"
    and served: "drv major = Some f \<Longrightarrow> dev_ok (devs s) \<Longrightarrow> addr dev block \<Longrightarrow> pending s major r dev block \<Longrightarrow>
      \<exists>mem d. f s = end_request (disk (devs s) dev block \<noteq> None) major (s\<lparr>bufmem := mem, devs := d\<rparr>) \<and> dev_ok d \<and>
        moved disk (all_requests s r) block (devs s) (bufmem s) d mem"

section \<open>Requests\<close>

definition no_requests :: "'d bcache \<Rightarrow> bool" where
  "no_requests s \<longleftrightarrow> (\<forall>r. \<not> rq_active (all_requests s r)) \<and> (\<forall>m. current_request s m = None) \<and> prev_found s \<le> NR_REQUEST"

lemma get_request_ok:
  assumes "no_requests s" and "0 < n"
  shows "\<exists>r pf pl. get_request n dev s =
    Inr (Some r, updr r (\<lambda>q. q\<lparr>rq_active := True, rq_dev := dev\<rparr>) (s\<lparr>prev_limit := pl, prev_found := pf\<rparr>)) \<and> pf \<le> max n NR_REQUEST"
proof -
  let ?s = "if n \<noteq> prev_limit s then s\<lparr>prev_limit := n, prev_found := 0\<rparr> else s"
  let ?r = "(if prev_found ?s > 0 then prev_found ?s else n) - 1"
  have a: "\<not> rq_active (all_requests s r)" for r using assms(1) by (simp add: no_requests_def)
  then have "get_request_loop (n + 1) n (prev_found ?s) (prev_found ?s) (all_requests ?s) = Inr (Some ?r)"
    by (simp add: Let_def)
  then have "get_request n dev s = Inr (Some ?r, updr ?r (\<lambda>q. q\<lparr>rq_active := True, rq_dev := dev\<rparr>) (?s\<lparr>prev_found := ?r\<rparr>))"
    unfolding get_request_def Let_def by simp
  moreover have "?s\<lparr>prev_found := ?r\<rparr> = s\<lparr>prev_limit := n, prev_found := ?r\<rparr>" by simp
  moreover have "?r \<le> max n NR_REQUEST" using assms(1) by (auto simp: no_requests_def)
  ultimately show ?thesis by metis
qed

text \<open>The result of a transfer: the buffer is clean, it is valid if the disk has the block, and
  everything but the disk, the data of the buffer and the places in memory is as before.\<close>

definition rw_done :: "nat \<Rightarrow> bool \<Rightarrow> 'd bcache \<Rightarrow> 'd bcache \<Rightarrow> bool" where
  "rw_done b ok s s' \<longleftrightarrow> l1_ok s' \<and> no_requests s' \<and> bh_chain s' = bh_chain s \<and> bh_lru s' = bh_lru s \<and> bh_llru s' = bh_llru s \<and>
    (\<forall>c. noslot (buffers s' c) = noslot (if c = b then (buffers s b)\<lparr>b_dirty := False, b_uptodate := ok\<rparr> else buffers s c)) \<and>
    (\<forall>c < NR_BUFFERS. c \<noteq> b \<longrightarrow> data_of s' c = data_of s c)"

lemma l1_ok_cong:
  assumes "l1_ok s" and "\<And>c. b_data (buffers s' c) = b_data (buffers s c)" "\<And>c. b_mapcount (buffers s' c) = b_mapcount (buffers s c)"
    and "bufmem_map s' = bufmem_map s" "lastumap s' = lastumap s"
  shows "l1_ok s'"
  using assms(1) unfolding l1_ok_def assms(2-5) .

lemma pinned_cong: "(\<And>c. b_mapcount (buffers s' c) = b_mapcount (buffers s c)) \<Longrightarrow> pinned s' = pinned s"
  by (simp add: pinned_def)

lemma word_inc_pos: "(x :: u16) \<noteq> - 1 \<Longrightarrow> \<not> x + 1 \<le> 0"
  by (metis add.commute add_eq_0_iff word_le_0_iff)

lemma noslot_done:
  "noslot h1 = noslot (h\<lparr>b_lock := True\<rparr>) \<Longrightarrow> \<not> b_lock h \<Longrightarrow>
   noslot (h1\<lparr>b_dirty := False, b_uptodate := ok, b_lock := False, b_mapcount := b_mapcount h\<rparr>) = noslot (h\<lparr>b_dirty := False, b_uptodate := ok\<rparr>)"
  by (cases h1; cases h; simp add: noslot_def)

text \<open>The end of a request, seen from its buffer.\<close>

lemma end_request_eval:
  assumes "current_request s major = Some r" "rq_bh (all_requests s r) = b" "rq_next (all_requests s r) = None"
    and "b_mapcount (buffers s b) = n + 1" "n \<noteq> - 1"
  shows "\<exists>s'. end_request ok major s = Inr s' \<and>
    buffers s' = (buffers s)(b := (buffers s b)\<lparr>b_uptodate := ok, b_lock := False, b_mapcount := n\<rparr>) \<and>
    current_request s' = (current_request s)(major := None) \<and>
    (\<forall>q. rq_active (all_requests s' q) = (q \<noteq> r \<and> rq_active (all_requests s q))) \<and>
    bh_chain s' = bh_chain s \<and> bh_lru s' = bh_lru s \<and> bh_llru s' = bh_llru s \<and> bufmem s' = bufmem s \<and> l2 s' = l2 s \<and>
    bufmem_map s' = bufmem_map s \<and> lastumap s' = lastumap s \<and> prev_found s' = prev_found s \<and> devs s' = devs s"
  using assms(1-4) word_inc_pos[OF assms(5)]
  by (auto simp: end_request_def Let_def unlock_buffer_def unmap_buffer_def fun_eq_iff)

context block_driver
begin

lemma transfer:
  assumes l1: "l1_ok s" "card (pinned s) \<le> 6" and b: "b < NR_BUFFERS" "\<not> b_lock (buffers s b)" "b_mapcount (buffers s b) \<noteq> - 1"
    and nr: "no_requests s" and dev: "dev_ok (devs s)" "addr (b_dev (buffers s b)) (b_blocknr (buffers s b))"
    and cmd: "case rw of READ \<Rightarrow> \<not> b_uptodate (buffers s b) | WRITE \<Rightarrow> b_dirty (buffers s b)"
  defines "dv \<equiv> b_dev (buffers s b)" and "bk \<equiv> b_blocknr (buffers s b)"
  shows "\<exists>s'. ll_rw_blk drv rw b s = Inr s' \<and> rw_done b (disk (devs s) dv bk \<noteq> None) s s' \<and> dev_ok (devs s') \<and>
    (case rw of
       READ \<Rightarrow> disk (devs s') = disk (devs s) \<and> (\<forall>x. disk (devs s) dv bk = Some x \<longrightarrow> data_of s' b = x)
     | WRITE \<Rightarrow> data_of s' b = data_of s b \<and>
         disk (devs s') = (if disk (devs s) dv bk = None then disk (devs s)
           else (disk (devs s))(dv := (disk (devs s) dv)(bk := Some (data_of s b)))))"
proof -
  let ?major = "MAJOR dv"
  have reg: "?major < MAX_BLKDEV" "drv ?major \<noteq> None" using registered[OF dev(2)] by (auto simp: dv_def)
  then obtain f where f: "drv ?major = Some f" by blast
  define s0 where "s0 = updb b (\<lambda>h. h\<lparr>b_lock := True\<rparr>) s"
  have l10: "l1_ok s0" using l1(1) by (rule l1_ok_cong) (simp_all add: s0_def)
  have "pinned s0 = pinned s" by (rule pinned_cong) (simp add: s0_def)
  with l1(2) have "card (pinned s0) \<le> 6" by simp
  from map_buffer_ok[OF l10 this b(1)] obtain s1 i where
    m: "map_buffer b s0 = Inr (updb b (\<lambda>h. h\<lparr>b_mapcount := b_mapcount h + 1\<rparr>) s1)" "l1_ok s1" "same_but_slots s0 s1" "b_data (buffers s1 b) = Some i"
    by blast
  define s2 where "s2 = updb b (\<lambda>h. h\<lparr>b_mapcount := b_mapcount h + 1\<rparr>) s1"
  note sb = same_but_slotsD[OF m(3)]
  have nb: "noslot (buffers s1 c) = noslot (buffers s0 c)" for c by (rule sb(1))
  note h1 = noslot_eqD[OF nb[of b]]
  have sel: "b_dev (buffers s2 b) = dv" "b_uptodate (buffers s2 b) = b_uptodate (buffers s b)" "b_dirty (buffers s2 b) = b_dirty (buffers s b)"
    "b_data (buffers s2 b) = Some i" "b_mapcount (buffers s2 b) = b_mapcount (buffers s b) + 1" "b_lock (buffers s2 b)"
    using h1 m(4) by (simp_all add: s2_def s0_def dv_def)
  have nr2: "no_requests s2" using nr sb by (simp add: no_requests_def s2_def s0_def)
  let ?n = "case rw of READ \<Rightarrow> NR_REQUEST | WRITE \<Rightarrow> NR_REQUEST * 2 div 3"
  have "0 < ?n" by (cases rw) auto
  from get_request_ok[OF nr2 this, of dv] obtain r pf pl where
    g: "get_request ?n dv s2 = Inr (Some r, updr r (\<lambda>q. q\<lparr>rq_active := True, rq_dev := dv\<rparr>) (s2\<lparr>prev_limit := pl, prev_found := pf\<rparr>))" "pf \<le> max ?n NR_REQUEST"
    by blast
  define q where "q = (all_requests s2 r)\<lparr>rq_active := True, rq_dev := dv, rq_cmd := rw, rq_sector := ucast bk * 2, rq_buffer := i, rq_bh := b, rq_next := None\<rparr>"
  define s3 where "s3 = (updb b (\<lambda>h. h\<lparr>b_dirty := False\<rparr>) (s2\<lparr>prev_limit := pl, prev_found := pf, all_requests := (all_requests s2)(r := q)\<rparr>))
    \<lparr>current_request := (current_request s2)(?major := Some r)\<rparr>"
  have cr: "current_request s2 m = None" for m using nr2 by (simp add: no_requests_def)
  have run: "ll_rw_blk drv rw b s = f s3"
  proof -
    let ?s = "updr r (\<lambda>q. q\<lparr>rq_cmd := rw, rq_sector := ucast bk * 2, rq_buffer := i, rq_bh := b, rq_next := None\<rparr>)
      (updr r (\<lambda>q. q\<lparr>rq_active := True, rq_dev := dv\<rparr>) (s2\<lparr>prev_limit := pl, prev_found := pf\<rparr>))"
    have "make_request drv ?major rw b s = add_request drv ?major r ?s"
      using b(2) m(1)[folded s2_def] sel cmd g(1) unfolding make_request_def Let_def s0_def[symmetric] bk_def[symmetric]
      by (cases rw) simp_all
    also have "\<dots> = f s3"
      using cr f by (simp add: add_request_def Let_def s3_def q_def updr_def updb_def)
    finally have "make_request drv ?major rw b s = f s3" .
    then show ?thesis using reg(1) f by (simp add: ll_rw_blk_def Let_def dv_def)
  qed
  have rq: "all_requests s3 r = q" by (simp add: s3_def)
  have pend: "pending s3 ?major r dv bk"
    using sel(6) by (simp add: pending_def rq) (simp add: s3_def q_def)
  have dv3: "devs s3 = devs s" "bufmem s3 = bufmem s1" using sb(10) by (simp_all add: s3_def s2_def s0_def)
  obtain mem d where sv: "f s3 = end_request (disk (devs s) dv bk \<noteq> None) ?major (s3\<lparr>bufmem := mem, devs := d\<rparr>)" "dev_ok d"
      "moved disk q bk (devs s) (bufmem s1) d mem"
    using served[OF f _ dev(2)[folded dv_def bk_def] pend] dev(1) unfolding dv3 rq by blast
  let ?ok = "disk (devs s) dv bk \<noteq> None"
  have pre: "current_request (s3\<lparr>bufmem := mem, devs := d\<rparr>) ?major = Some r" "rq_bh (all_requests (s3\<lparr>bufmem := mem, devs := d\<rparr>) r) = b"
    "rq_next (all_requests (s3\<lparr>bufmem := mem, devs := d\<rparr>) r) = None" "b_mapcount (buffers (s3\<lparr>bufmem := mem, devs := d\<rparr>) b) = b_mapcount (buffers s b) + 1"
    using sel(5) by (simp_all add: s3_def q_def)
  obtain s' where e: "end_request ?ok ?major (s3\<lparr>bufmem := mem, devs := d\<rparr>) = Inr s'"
    and bu: "buffers s' = (buffers s3)(b := (buffers s3 b)\<lparr>b_uptodate := ?ok, b_lock := False, b_mapcount := b_mapcount (buffers s b)\<rparr>)"
    and cu: "current_request s' = (current_request s3)(?major := None)"
    and ac: "\<And>q. rq_active (all_requests s' q) = (q \<noteq> r \<and> rq_active (all_requests s3 q))"
    and fr: "bh_chain s' = bh_chain s3" "bh_lru s' = bh_lru s3" "bh_llru s' = bh_llru s3" "bufmem s' = mem" "l2 s' = l2 s3"
      "bufmem_map s' = bufmem_map s3" "lastumap s' = lastumap s3" "prev_found s' = prev_found s3" "devs s' = d"
    using end_request_eval[OF pre b(3), of ?ok] by auto
  have hb: "buffers s' c = (if c = b then (buffers s1 b)\<lparr>b_dirty := False, b_uptodate := ?ok, b_lock := False, b_mapcount := b_mapcount (buffers s b)\<rparr> else buffers s1 c)" for c
    by (simp add: bu s3_def s2_def)
  have mc: "b_mapcount (buffers s1 c) = b_mapcount (buffers s c)" for c using noslot_eqD(10)[OF nb[of c]] by (simp add: s0_def)
  have l1': "l1_ok s'" using m(2) by (rule l1_ok_cong) (simp_all add: hb mc fr s3_def s2_def)
  have nr': "no_requests s'"
    using nr2 ac cu g(2) unfolding no_requests_def fr by (cases rw) (auto simp: s3_def cr)
  have d0: "data_of s0 c = data_of s c" for c by (simp add: data_of_def s0_def cong: option.case_cong)
  have others: "data_of s' c = data_of s c" if c: "c < NR_BUFFERS" "c \<noteq> b" for c
  proof -
    have ne: "b_data (buffers s1 c) \<noteq> Some i" using l1_okD(3)[OF m(2) c(1), of i] l1_okD(3)[OF m(2) b(1) m(4)] c(2) by auto
    have "mem j = bufmem s1 j" if "j \<noteq> i" for j using sv(3) that by (simp add: moved_def q_def)
    then have "data_of s' c = data_of s1 c" using ne c(2) by (auto simp: data_of_def hb fr s3_def s2_def split: option.splits)
    also have "\<dots> = data_of s c" using sb(2)[OF c(1)] d0 by simp
    finally show ?thesis .
  qed
  have here: "data_of s' b = clip (mem i)" using m(4) by (simp add: data_of_def hb fr)
  have home: "clip (bufmem s1 i) = data_of s b"
    using sb(2)[OF b(1)] m(4) d0[of b] by (simp add: data_of_def)
  have rwd: "rw_done b ?ok s s'"
  proof -
    have "noslot (buffers s' c) = noslot (if c = b then (buffers s b)\<lparr>b_dirty := False, b_uptodate := ?ok\<rparr> else buffers s c)" for c
      using nb[of c] noslot_done[OF _ b(2), of "buffers s1 b" ?ok] unfolding hb by (cases "c = b") (simp_all add: s0_def)
    moreover have "bh_chain s' = bh_chain s" "bh_lru s' = bh_lru s" "bh_llru s' = bh_llru s"
      using fr(1-3) sb(3-5) by (simp_all add: s3_def s2_def s0_def)
    ultimately show ?thesis unfolding rw_done_def using l1' nr' others by blast
  qed
  show ?thesis
  proof (intro exI conjI)
    show "ll_rw_blk drv rw b s = Inr s'" using run sv(1) e by simp
    show "rw_done b ?ok s s'" by (rule rwd)
    show "dev_ok (devs s')" using sv(2) fr by simp
  qed (use sv(3) home here fr in \<open>cases rw; auto simp: moved_def q_def\<close>)
qed

end

section \<open>What the cache means\<close>

text \<open>A block as the rest of the kernel sees it: the data of its buffer, when that is valid, or what
  is on the disk.\<close>

definition view :: "('d \<Rightarrow> u16 \<Rightarrow> u16 \<Rightarrow> bytes option) \<Rightarrow> 'd bcache \<Rightarrow> u16 \<Rightarrow> u16 \<Rightarrow> bytes option" where
  "view disk s dev block =
    (case find (\<lambda>b. b_dev (buffers s b) = dev \<and> b_blocknr (buffers s b) = block \<and> b_uptodate (buffers s b)) [0..<NR_BUFFERS] of
       Some b \<Rightarrow> Some (data_of s b)
     | None \<Rightarrow> disk (devs s) dev block)"

text \<open>The links: the list of all buffers, the list by use, the areas, and nothing under way.\<close>

definition links_ok :: "'d bcache \<Rightarrow> bool" where
  "links_ok s \<longleftrightarrow> bh_chain s = Some 0 \<and> (\<forall>b < NR_BUFFERS. b_next (buffers s b) = (if b = NR_BUFFERS - 1 then None else Some (b + 1))) \<and>
    (\<exists>xs. lru_list s xs \<and> set xs = {..<NR_BUFFERS}) \<and> l1_ok s \<and> no_requests s \<and>
    (\<forall>b < NR_BUFFERS. \<not> b_lock (buffers s b) \<and> b_mapcount (buffers s b) \<noteq> - 1)"

text \<open>The contents: no block has two buffers; a buffer that is valid and clean agrees with the disk; a
  dirty one is valid, and the disk has its block.\<close>

definition buf_ok :: "(u16 \<Rightarrow> u16 \<Rightarrow> bytes option) \<Rightarrow> (u16 \<Rightarrow> u16 \<Rightarrow> bool) \<Rightarrow> u16 \<times> u16 \<times> bool \<times> bool \<times> bytes \<Rightarrow> bool" where
  "buf_ok dsk addr x \<longleftrightarrow> (case x of (dev, block, uptodate, dirty, data) \<Rightarrow>
    (if dev = 0 then \<not> uptodate \<and> \<not> dirty else addr dev block) \<and>
    (dirty \<longrightarrow> uptodate \<and> dsk dev block \<noteq> None) \<and> (uptodate \<and> \<not> dirty \<longrightarrow> dsk dev block = Some data))"

definition abs_buf :: "'d bcache \<Rightarrow> nat \<Rightarrow> u16 \<times> u16 \<times> bool \<times> bool \<times> bytes" where
  "abs_buf s b = (b_dev (buffers s b), b_blocknr (buffers s b), b_uptodate (buffers s b), b_dirty (buffers s b), data_of s b)"

definition contents_ok :: "('d \<Rightarrow> u16 \<Rightarrow> u16 \<Rightarrow> bytes option) \<Rightarrow> (u16 \<Rightarrow> u16 \<Rightarrow> bool) \<Rightarrow> 'd bcache \<Rightarrow> bool" where
  "contents_ok disk addr s \<longleftrightarrow> (\<forall>b < NR_BUFFERS. buf_ok (disk (devs s)) addr (abs_buf s b)) \<and>
    (\<forall>b < NR_BUFFERS. \<forall>c < NR_BUFFERS. b_dev (buffers s b) \<noteq> 0 \<and> b_dev (buffers s b) = b_dev (buffers s c) \<and>
       b_blocknr (buffers s b) = b_blocknr (buffers s c) \<longrightarrow> b = c)"

definition cache_ok :: "('d \<Rightarrow> u16 \<Rightarrow> u16 \<Rightarrow> bytes option) \<Rightarrow> (u16 \<Rightarrow> u16 \<Rightarrow> bool) \<Rightarrow> 'd bcache \<Rightarrow> bool" where
  "cache_ok disk addr s \<longleftrightarrow> links_ok s \<and> contents_ok disk addr s"

lemma abs_buf_eqD:
  "abs_buf s' b = abs_buf s b \<Longrightarrow> b_dev (buffers s' b) = b_dev (buffers s b) \<and> b_blocknr (buffers s' b) = b_blocknr (buffers s b) \<and>
   b_uptodate (buffers s' b) = b_uptodate (buffers s b) \<and> b_dirty (buffers s' b) = b_dirty (buffers s b) \<and> data_of s' b = data_of s b"
  by (simp add: abs_buf_def)

lemma contents_cong:
  assumes "\<And>b. b < NR_BUFFERS \<Longrightarrow> abs_buf s' b = abs_buf s b" and "disk (devs s') = disk (devs s)"
  shows "contents_ok disk addr s' = contents_ok disk addr s" "view disk s' = view disk s"
proof -
  show "contents_ok disk addr s' = contents_ok disk addr s"
    using assms abs_buf_eqD[OF assms(1)] unfolding contents_ok_def by (simp cong: conj_cong)
  show "view disk s' = view disk s"
  proof (intro ext)
    fix dev block
    let ?F = "\<lambda>t b. b_dev (buffers t b) = dev \<and> b_blocknr (buffers t b) = block \<and> b_uptodate (buffers t b)"
    have f: "find (?F s') [0..<NR_BUFFERS] = find (?F s) [0..<NR_BUFFERS]" using abs_buf_eqD[OF assms(1)] by (intro find_cong) auto
    show "view disk s' dev block = view disk s dev block"
    proof (cases "find (?F s) [0..<NR_BUFFERS]")
      case None
      then show ?thesis unfolding view_def f using assms(2) by simp
    next
      case (Some b)
      then have "b < NR_BUFFERS" by (auto simp: find_Some_iff)
      with Some show ?thesis unfolding view_def f using abs_buf_eqD[OF assms(1)] by simp
    qed
  qed
qed

lemma contents_okD:
  assumes "contents_ok disk addr s" "b < NR_BUFFERS"
  shows "b_dev (buffers s b) \<noteq> 0 \<Longrightarrow> addr (b_dev (buffers s b)) (b_blocknr (buffers s b))"
    "b_dev (buffers s b) = 0 \<Longrightarrow> \<not> b_uptodate (buffers s b)"
    "b_dirty (buffers s b) \<Longrightarrow> b_uptodate (buffers s b) \<and> b_dev (buffers s b) \<noteq> 0 \<and> disk (devs s) (b_dev (buffers s b)) (b_blocknr (buffers s b)) \<noteq> None"
    "b_uptodate (buffers s b) \<Longrightarrow> \<not> b_dirty (buffers s b) \<Longrightarrow> disk (devs s) (b_dev (buffers s b)) (b_blocknr (buffers s b)) = Some (data_of s b)"
    "c < NR_BUFFERS \<Longrightarrow> b_dev (buffers s b) \<noteq> 0 \<Longrightarrow> b_dev (buffers s b) = b_dev (buffers s c) \<Longrightarrow> b_blocknr (buffers s b) = b_blocknr (buffers s c) \<Longrightarrow> b = c"
  using assms unfolding contents_ok_def buf_ok_def abs_buf_def by (auto split: if_splits)

lemma view_cached:
  assumes "contents_ok disk addr s" "b < NR_BUFFERS" "b_uptodate (buffers s b)"
  shows "view disk s (b_dev (buffers s b)) (b_blocknr (buffers s b)) = Some (data_of s b)"
proof -
  let ?P = "\<lambda>c. b_dev (buffers s c) = b_dev (buffers s b) \<and> b_blocknr (buffers s c) = b_blocknr (buffers s b) \<and> b_uptodate (buffers s c)"
  have "find ?P [0..<NR_BUFFERS] \<noteq> None" using assms(2,3) by (auto simp: find_None_iff)
  then obtain c where c: "find ?P [0..<NR_BUFFERS] = Some c" by blast
  then have "c < NR_BUFFERS" "?P c" by (auto simp: find_Some_iff)
  then have "c = b" using contents_okD(5)[OF assms(1) \<open>c < NR_BUFFERS\<close> assms(2)] contents_okD(2)[OF assms(1,2)] assms(3) by auto
  with c show ?thesis by (simp add: view_def)
qed

lemma view_disk:
  assumes "\<And>b. b < NR_BUFFERS \<Longrightarrow> b_dev (buffers s b) = dev \<Longrightarrow> b_blocknr (buffers s b) = block \<Longrightarrow> \<not> b_uptodate (buffers s b)"
  shows "view disk s dev block = disk (devs s) dev block"
proof -
  have "find (\<lambda>b. b_dev (buffers s b) = dev \<and> b_blocknr (buffers s b) = block \<and> b_uptodate (buffers s b)) [0..<NR_BUFFERS] = None"
    using assms by (auto simp: find_None_iff)
  then show ?thesis by (simp add: view_def)
qed

text \<open>A buffer whose bytes the disk has is seen like the disk.\<close>

lemma view_clean:
  assumes "contents_ok disk addr s" "b < NR_BUFFERS" "\<not> b_dirty (buffers s b)"
  shows "view disk s (b_dev (buffers s b)) (b_blocknr (buffers s b)) = disk (devs s) (b_dev (buffers s b)) (b_blocknr (buffers s b))"
proof (cases "b_uptodate (buffers s b)")
  case True
  then show ?thesis using view_cached[OF assms(1,2)] contents_okD(4)[OF assms(1,2)] assms(3) by simp
next
  case False
  show ?thesis
  proof (cases "b_dev (buffers s b) = 0")
    case True
    then show ?thesis using contents_okD(2)[OF assms(1)] by (intro view_disk) metis
  next
    case nz: False
    then show ?thesis using contents_okD(5)[OF assms(1,2) _ nz] False by (intro view_disk) metis
  qed
qed

text \<open>Links are kept by what only moves data.\<close>

lemma links_cong:
  assumes l: "links_ok s" and "l1_ok s'" "no_requests s'" "bh_chain s' = bh_chain s" "bh_lru s' = bh_lru s" "bh_llru s' = bh_llru s"
    and b: "\<And>c. b_next (buffers s' c) = b_next (buffers s c)" "\<And>c. b_next_lru (buffers s' c) = b_next_lru (buffers s c)"
      "\<And>c. b_prev_lru (buffers s' c) = b_prev_lru (buffers s c)" "\<And>c. b_lock (buffers s' c) = b_lock (buffers s c)"
      "\<And>c. b_mapcount (buffers s' c) = b_mapcount (buffers s c)"
  shows "links_ok s'"
  using assms unfolding links_ok_def lru_list_def by simp



section \<open>Operations of the cache\<close>

text \<open>Writing a dirty buffer: it is clean now, and no block looks different.\<close>

definition settled :: "(nat \<Rightarrow> bool) \<Rightarrow> 'd bcache \<Rightarrow> 'd bcache \<Rightarrow> bool" where
  "settled P s s' \<longleftrightarrow> (\<forall>c < NR_BUFFERS. noslot (buffers s' c) = noslot ((buffers s c)\<lparr>b_dirty := b_dirty (buffers s c) \<and> \<not> P c\<rparr>))"

lemma links_okD:
  assumes "links_ok s"
  shows "l1_ok s" "no_requests s" "bh_chain s = Some 0" "\<exists>xs. lru_list s xs \<and> set xs = {..<NR_BUFFERS}"
    "b < NR_BUFFERS \<Longrightarrow> b_next (buffers s b) = (if b = NR_BUFFERS - 1 then None else Some (b + 1))"
    "b < NR_BUFFERS \<Longrightarrow> \<not> b_lock (buffers s b)" "b < NR_BUFFERS \<Longrightarrow> b_mapcount (buffers s b) \<noteq> - 1"
  using assms by (auto simp: links_ok_def)

lemma rw_doneD:
  assumes "rw_done b ok s s'"
  shows "l1_ok s'" "no_requests s'" "bh_chain s' = bh_chain s" "bh_lru s' = bh_lru s" "bh_llru s' = bh_llru s"
    "noslot (buffers s' b) = noslot ((buffers s b)\<lparr>b_dirty := False, b_uptodate := ok\<rparr>)"
    "c \<noteq> b \<Longrightarrow> noslot (buffers s' c) = noslot (buffers s c)" "c < NR_BUFFERS \<Longrightarrow> c \<noteq> b \<Longrightarrow> data_of s' c = data_of s c"
  using assms by (auto simp: rw_done_def)

lemma rw_links:
  assumes "links_ok s" and "rw_done b ok s s'"
  shows "links_ok s'"
proof -
  note r = rw_doneD[OF assms(2)]
  have f: "b_next (buffers s' c) = b_next (buffers s c)" "b_next_lru (buffers s' c) = b_next_lru (buffers s c)"
    "b_prev_lru (buffers s' c) = b_prev_lru (buffers s c)" "b_lock (buffers s' c) = b_lock (buffers s c)"
    "b_mapcount (buffers s' c) = b_mapcount (buffers s c)" for c
    using noslot_eqD[OF r(6)] noslot_eqD[OF r(7)[of c]] by (cases "c = b"; simp)+
  show ?thesis by (rule links_cong[OF assms(1) r(1-5) f])
qed

lemma rw_abs:
  assumes "rw_done b ok s s'" and "c < NR_BUFFERS" "c \<noteq> b"
  shows "abs_buf s' c = abs_buf s c"
  using noslot_eqD[OF rw_doneD(7)[OF assms(1,3)]] rw_doneD(8)[OF assms] by (simp add: abs_buf_def)

text \<open>Changing the use count of a buffer changes nothing else.\<close>

lemma count_ok:
  assumes "cache_ok disk addr s"
  shows "cache_ok disk addr (updb b (\<lambda>h. h\<lparr>b_count := f h\<rparr>) s)" "view disk (updb b (\<lambda>h. h\<lparr>b_count := f h\<rparr>) s) = view disk s"
proof -
  let ?s = "updb b (\<lambda>h. h\<lparr>b_count := f h\<rparr>) s"
  have a: "abs_buf ?s c = abs_buf s c" for c by (simp add: abs_buf_def data_of_def cong: option.case_cong)
  have l: "links_ok s" using assms by (simp add: cache_ok_def)
  have "l1_ok ?s" by (rule l1_ok_cong[OF links_okD(1)[OF l]]) simp_all
  moreover have "no_requests ?s" using links_okD(2)[OF l] by (simp add: no_requests_def)
  ultimately have "links_ok ?s" by (intro links_cong[OF l]) simp_all
  then show "cache_ok disk addr ?s" using assms contents_cong(1)[of ?s s disk addr] a by (simp add: cache_ok_def)
  show "view disk ?s = view disk s" by (rule contents_cong(2)) (simp_all add: a)
qed

lemma settledD:
  assumes "settled P s s'" "c < NR_BUFFERS"
  shows "b_dev (buffers s' c) = b_dev (buffers s c)" "b_blocknr (buffers s' c) = b_blocknr (buffers s c)" "b_count (buffers s' c) = b_count (buffers s c)"
    "b_uptodate (buffers s' c) = b_uptodate (buffers s c)" "b_mapcount (buffers s' c) = b_mapcount (buffers s c)"
    "b_dirty (buffers s' c) \<longleftrightarrow> b_dirty (buffers s c) \<and> \<not> P c"
  using noslot_eqD[of "buffers s' c" "(buffers s c)\<lparr>b_dirty := b_dirty (buffers s c) \<and> \<not> P c\<rparr>"] assms by (simp_all add: settled_def)

lemma settled_pinned: "settled P s s' \<Longrightarrow> pinned s' = pinned s"
  by (auto simp: pinned_def settledD(5))

lemma settled_count:
  assumes "settled P (updb b (\<lambda>h. h\<lparr>b_count := b_count h + 1\<rparr>) s) s'"
  shows "settled P s (updb b (\<lambda>h. h\<lparr>b_count := b_count h - 1\<rparr>) s')"
  unfolding settled_def
proof (intro allI impI)
  fix c
  assume c: "c < NR_BUFFERS"
  have e: "noslot (buffers s' c) = noslot ((buffers (updb b (\<lambda>h. h\<lparr>b_count := b_count h + 1\<rparr>) s) c)\<lparr>b_dirty := b_dirty (buffers s c) \<and> \<not> P c\<rparr>)"
    using assms c by (simp add: settled_def)
  show "noslot (buffers (updb b (\<lambda>h. h\<lparr>b_count := b_count h - 1\<rparr>) s') c) = noslot ((buffers s c)\<lparr>b_dirty := b_dirty (buffers s c) \<and> \<not> P c\<rparr>)"
    using e by (cases "buffers s' c"; cases "buffers s c") (auto simp: noslot_def)
qed

lemma noslot_dirty_trans:
  "noslot t = noslot (s\<lparr>b_dirty := b_dirty s \<and> \<not> p\<rparr>) \<Longrightarrow> noslot u = noslot (t\<lparr>b_dirty := b_dirty t \<and> \<not> q\<rparr>) \<Longrightarrow>
   noslot u = noslot (s\<lparr>b_dirty := b_dirty s \<and> \<not> (p \<or> q)\<rparr>)"
  by (cases s; cases t; cases u; simp add: noslot_def)

lemma settled_trans: "settled P s t \<Longrightarrow> settled Q t u \<Longrightarrow> settled (\<lambda>c. P c \<or> Q c) s u"
  unfolding settled_def using noslot_dirty_trans by blast

context block_driver
begin

lemma write_back:
  assumes c: "cache_ok disk addr s" and d: "dev_ok (devs s)" and room: "card (pinned s) \<le> 6" and b: "b < NR_BUFFERS" "b_dirty (buffers s b)"
  shows "\<exists>s'. ll_rw_blk drv WRITE b s = Inr s' \<and> cache_ok disk addr s' \<and> dev_ok (devs s') \<and> view disk s' = view disk s \<and>
    settled (\<lambda>c. c = b) s s' \<and> bh_lru s' = bh_lru s \<and> bh_llru s' = bh_llru s"
proof -
  have l: "links_ok s" and t: "contents_ok disk addr s" using c by (auto simp: cache_ok_def)
  note lk = links_okD[OF l] and ct = contents_okD[OF t b(1)]
  let ?dv = "b_dev (buffers s b)" and ?bk = "b_blocknr (buffers s b)"
  have up: "b_uptodate (buffers s b)" "?dv \<noteq> 0" "disk (devs s) ?dv ?bk \<noteq> None" using ct(3)[OF b(2)] by auto
  have "case WRITE of READ \<Rightarrow> \<not> b_uptodate (buffers s b) | WRITE \<Rightarrow> b_dirty (buffers s b)" using b(2) by simp
  from transfer[OF lk(1) room b(1) lk(6,7)[OF b(1)] lk(2) d ct(1)[OF up(2)] this] up(3)
  obtain s' where r: "ll_rw_blk drv WRITE b s = Inr s'" "rw_done b True s s'" "dev_ok (devs s')" "data_of s' b = data_of s b"
      "disk (devs s') = (disk (devs s))(?dv := (disk (devs s) ?dv)(?bk := Some (data_of s b)))" by auto
  note f = noslot_eqD[OF rw_doneD(6)[OF r(2)]]
  have bb: "abs_buf s' b = (?dv, ?bk, True, False, data_of s b)" using f r(4) by (simp add: abs_buf_def)
  have oth: "abs_buf s' c = abs_buf s c" if "c < NR_BUFFERS" "c \<noteq> b" for c by (rule rw_abs[OF r(2) that])
  have key: "b_dev (buffers s' c) = b_dev (buffers s c)" "b_blocknr (buffers s' c) = b_blocknr (buffers s c)" "b_uptodate (buffers s' c) = b_uptodate (buffers s c)"
    if "c < NR_BUFFERS" for c
    using abs_buf_eqD[OF oth[OF that]] f up(1) by (cases "c = b"; simp)+
  have ds: "disk (devs s') (b_dev (buffers s c)) (b_blocknr (buffers s c)) = disk (devs s) (b_dev (buffers s c)) (b_blocknr (buffers s c))"
    if "c < NR_BUFFERS" "c \<noteq> b" "b_dev (buffers s c) \<noteq> 0" for c
    using contents_okD(5)[OF t that(1) b(1) that(3)] that(2) unfolding r(5) by auto
  have "contents_ok disk addr s'"
    unfolding contents_ok_def
  proof (intro conjI allI impI)
    fix c
    assume cb: "c < NR_BUFFERS"
    show "buf_ok (disk (devs s')) addr (abs_buf s' c)"
    proof (cases "c = b")
      case True
      then show ?thesis using bb up(2) ct(1) r(5) by (simp add: buf_ok_def)
    next
      case False
      have "buf_ok (disk (devs s)) addr (abs_buf s c)" using t cb by (simp add: contents_ok_def)
      then show ?thesis using oth[OF cb False] ds[OF cb False] by (auto simp: buf_ok_def abs_buf_def split: if_splits)
    qed
  next
    fix c e
    assume "c < NR_BUFFERS" "e < NR_BUFFERS"
      "b_dev (buffers s' c) \<noteq> 0 \<and> b_dev (buffers s' c) = b_dev (buffers s' e) \<and> b_blocknr (buffers s' c) = b_blocknr (buffers s' e)"
    then show "c = e" using contents_okD(5)[OF t, of c e] key(1,2) by metis
  qed
  moreover have "view disk s' = view disk s"
  proof (intro ext)
    fix dev block
    show "view disk s' dev block = view disk s dev block"
    proof (cases "\<exists>c < NR_BUFFERS. b_dev (buffers s c) = dev \<and> b_blocknr (buffers s c) = block \<and> b_uptodate (buffers s c)")
      case True
      then obtain c where cc: "c < NR_BUFFERS" "b_dev (buffers s c) = dev" "b_blocknr (buffers s c) = block" "b_uptodate (buffers s c)" by blast
      have "data_of s' c = data_of s c" using abs_buf_eqD[OF oth[OF cc(1)]] r(4) by (cases "c = b") auto
      then show ?thesis using view_cached[OF t cc(1,4)] view_cached[OF \<open>contents_ok disk addr s'\<close> cc(1)] key[OF cc(1)] cc by simp
    next
      case False
      then have "\<not> (dev = ?dv \<and> block = ?bk)" using b(1) up(1) by blast
      then have "disk (devs s') dev block = disk (devs s) dev block" unfolding r(5) by auto
      then show ?thesis using False key view_disk[of s dev block disk] view_disk[of s' dev block disk] by metis
    qed
  qed
  moreover have "settled (\<lambda>c. c = b) s s'"
  proof -
    have "noslot (buffers s' c) = noslot ((buffers s c)\<lparr>b_dirty := b_dirty (buffers s c) \<and> c \<noteq> b\<rparr>)" for c
    proof (cases "c = b")
      case True
      have "(buffers s b)\<lparr>b_dirty := False, b_uptodate := True\<rparr> = (buffers s b)\<lparr>b_dirty := False\<rparr>" using up(1) by (cases "buffers s b") simp
      then show ?thesis using rw_doneD(6)[OF r(2)] True by simp
    next
      case False
      then show ?thesis using rw_doneD(7)[OF r(2) False] by (simp add: noslot_def)
    qed
    then show ?thesis by (simp add: settled_def)
  qed
  ultimately show ?thesis using r(1,3) rw_links[OF l r(2)] rw_doneD(4,5)[OF r(2)] by (auto simp: cache_ok_def)
qed

lemma sync_walk:
  assumes "cache_ok disk addr s" "dev_ok (devs s)" "card (pinned s) \<le> 6" "k \<le> NR_BUFFERS" "n = NR_BUFFERS - k"
  shows "\<exists>s'. sync_loop n drv dev wait (if k < NR_BUFFERS then Some k else None) s = Inr s' \<and> cache_ok disk addr s' \<and> dev_ok (devs s') \<and>
    view disk s' = view disk s \<and> settled (\<lambda>c. k \<le> c \<and> (dev = 0 \<or> b_dev (buffers s c) = dev)) s s' \<and> bh_lru s' = bh_lru s \<and> bh_llru s' = bh_llru s"
  using assms
proof (induction n arbitrary: k s)
  case 0
  then have "settled (\<lambda>c. k \<le> c \<and> (dev = 0 \<or> b_dev (buffers s c) = dev)) s s" by (auto simp: settled_def)
  with 0 show ?case by simp
next
  case (Suc n)
  then have k: "k < NR_BUFFERS" by simp
  let ?todo = "(dev = 0 \<or> b_dev (buffers s k) = dev) \<and> b_dirty (buffers s k)"
  have lk: "\<not> b_lock (buffers s k)" using links_okD(6) Suc.prems(1) k by (auto simp: cache_ok_def)
  let ?s = "updb k (\<lambda>h. h\<lparr>b_count := b_count h + 1\<rparr>) s"
  have "\<exists>t. (if dev \<noteq> 0 \<and> b_dev (buffers s k) \<noteq> dev then Inr s
      else if \<not> b_dirty (buffers s k) then Inr s
      else if b_lock (buffers s k) \<and> wait then Inr s
      else bindr (wait_on_buffer k s) (\<lambda>s. bindr (ll_rw_blk drv WRITE k (updb k (\<lambda>h. h\<lparr>b_count := b_count h + 1\<rparr>) s)) (\<lambda>s. Inr (updb k (\<lambda>h. h\<lparr>b_count := b_count h - 1\<rparr>) s)))) = Inr t \<and>
    cache_ok disk addr t \<and> dev_ok (devs t) \<and> view disk t = view disk s \<and> settled (\<lambda>c. c = k \<and> ?todo) s t \<and> bh_lru t = bh_lru s \<and> bh_llru t = bh_llru s"
  proof (cases ?todo)
    case False
    then have "settled (\<lambda>c. c = k \<and> ?todo) s s" by (auto simp: settled_def)
    then show ?thesis using False Suc.prems by auto
  next
    case True
    have "pinned ?s = pinned s" by (rule pinned_cong) simp
    then obtain t where t: "ll_rw_blk drv WRITE k ?s = Inr t" "cache_ok disk addr t" "dev_ok (devs t)" "view disk t = view disk ?s"
        "settled (\<lambda>c. c = k) ?s t" "bh_lru t = bh_lru s" "bh_llru t = bh_llru s"
      using write_back[of ?s k] count_ok(1)[OF Suc.prems(1)] Suc.prems(2,3) k True by auto
    note cu = count_ok[OF t(2), of k "\<lambda>h. b_count h - 1"]
    have "settled (\<lambda>c. c = k \<and> ?todo) s (updb k (\<lambda>h. h\<lparr>b_count := b_count h - 1\<rparr>) t)"
      using settled_count[OF t(5)] True by simp
    then show ?thesis using True t cu lk count_ok(2)[OF Suc.prems(1)] by (auto simp: wait_on_buffer_def)
  qed
  then obtain t where t: "cache_ok disk addr t" "dev_ok (devs t)" "view disk t = view disk s" "settled (\<lambda>c. c = k \<and> ?todo) s t" "bh_lru t = bh_lru s" "bh_llru t = bh_llru s"
    and run: "sync_loop (Suc n) drv dev wait (Some k) s = sync_loop n drv dev wait (b_next (buffers t k)) t" by auto
  have "b_next (buffers t k) = (if k = NR_BUFFERS - 1 then None else Some (k + 1))"
    using links_okD(5)[of t k] t(1) k by (simp add: cache_ok_def)
  then have nx: "b_next (buffers t k) = (if Suc k < NR_BUFFERS then Some (Suc k) else None)" using k by auto
  have pt: "card (pinned t) \<le> 6" using settled_pinned[OF t(4)] Suc.prems(3) by simp
  have nk: "Suc k \<le> NR_BUFFERS" "n = NR_BUFFERS - Suc k" using Suc.prems(5) k by auto
  obtain u where u: "sync_loop n drv dev wait (b_next (buffers t k)) t = Inr u" "cache_ok disk addr u" "dev_ok (devs u)" "view disk u = view disk t"
      "settled (\<lambda>c. Suc k \<le> c \<and> (dev = 0 \<or> b_dev (buffers t c) = dev)) t u" "bh_lru u = bh_lru t" "bh_llru u = bh_llru t"
    using Suc.IH[OF t(1,2) pt nk] unfolding nx by blast
  have dv: "b_dev (buffers t c) = b_dev (buffers s c)" if "c < NR_BUFFERS" for c
    by (rule settledD(1)[OF t(4) that])
  have "settled (\<lambda>c. k \<le> c \<and> (dev = 0 \<or> b_dev (buffers s c) = dev)) s u"
  proof -
    have "b_dirty (buffers s c) \<and> \<not> ((c = k \<and> ?todo) \<or> Suc k \<le> c \<and> (dev = 0 \<or> b_dev (buffers t c) = dev)) \<longleftrightarrow>
      b_dirty (buffers s c) \<and> \<not> (k \<le> c \<and> (dev = 0 \<or> b_dev (buffers s c) = dev))" if "c < NR_BUFFERS" for c
      using dv[OF that] by (cases "c = k") auto
    then show ?thesis using settled_trans[OF t(4) u(5)] by (simp add: settled_def)
  qed
  then show ?case using run u t k by simp
qed

end

lemma chain_all:
  assumes "links_ok s" and "k \<le> NR_BUFFERS"
  shows "chain (\<lambda>b. b_next (buffers s b)) (if k < NR_BUFFERS then Some k else None) [k..<NR_BUFFERS]"
  using assms(2)
proof (induction rule: inc_induct)
  case (step k)
  have "b_next (buffers s k) = (if Suc k < NR_BUFFERS then Some (Suc k) else None)"
    using links_okD(5)[OF assms(1), of k] step(2) by auto
  then show ?case using step by (simp add: upt_conv_Cons del: upt_Suc)
qed simp

lemma find_buffer_all:
  assumes "links_ok s"
  shows "find_buffer dev block s = find (\<lambda>b. b_blocknr (buffers s b) = block \<and> b_dev (buffers s b) = dev) [0..<NR_BUFFERS]"
proof -
  have "chase (\<lambda>b. b_next (buffers s b)) NR_BUFFERS (bh_chain s) = [0..<NR_BUFFERS]"
    using chain_all[OF assms, of 0] links_okD(3)[OF assms] by (intro chase_chain) simp_all
  then show ?thesis by (simp only: find_buffer_def)
qed

lemma mapped_few:
  assumes "l1_ok s"
  shows "card {b. b < NR_BUFFERS \<and> b_data (buffers s b) \<noteq> None} \<le> NR_MAPBUFS"
proof -
  let ?A = "{b. b < NR_BUFFERS \<and> b_data (buffers s b) \<noteq> None}" and ?f = "\<lambda>b. the (b_data (buffers s b))"
  have "inj_on ?f ?A"
  proof (rule inj_onI)
    fix b c
    assume bc: "b \<in> ?A" "c \<in> ?A" "?f b = ?f c"
    then obtain i where "b_data (buffers s b) = Some i" "b_data (buffers s c) = Some i" by auto
    then show "b = c" using l1_okD(3)[OF assms, of b i] l1_okD(3)[OF assms, of c i] bc(1,2) by auto
  qed
  moreover have "?f ` ?A \<subseteq> {..<NR_MAPBUFS}" using l1_okD(3)[OF assms] by auto
  ultimately show ?thesis using card_inj_on_le[of ?f ?A "{..<NR_MAPBUFS}"] by simp
qed

text \<open>More than eight unused buffers: one of them is not in an area of the data segment.\<close>

lemma some_idle:
  assumes "links_ok s" and "card {b. b < NR_BUFFERS \<and> b_count (buffers s b) = 0} \<ge> 9" and "\<And>b. b < NR_BUFFERS \<Longrightarrow> \<not> b_dirty (buffers s b)"
  shows "\<exists>b < NR_BUFFERS. idle s b"
proof (rule ccontr)
  assume no: "\<not> ?thesis"
  have "{b. b < NR_BUFFERS \<and> b_count (buffers s b) = 0} \<subseteq> {b. b < NR_BUFFERS \<and> b_data (buffers s b) \<noteq> None}"
    using no assms(3) links_okD(6)[OF assms(1)] by (auto simp: idle_def)
  then have "card {b. b < NR_BUFFERS \<and> b_count (buffers s b) = 0} \<le> card {b. b < NR_BUFFERS \<and> b_data (buffers s b) \<noteq> None}"
    by (intro card_mono) auto
  then show False using assms(2) mapped_few[OF links_okD(1)[OF assms(1)]] by linarith
qed

definition same_keys :: "'d bcache \<Rightarrow> 'd bcache \<Rightarrow> bool" where
  "same_keys s s' \<longleftrightarrow> (\<forall>c < NR_BUFFERS. b_dev (buffers s' c) = b_dev (buffers s c) \<and> b_blocknr (buffers s' c) = b_blocknr (buffers s c) \<and>
     b_count (buffers s' c) = b_count (buffers s c) \<and> b_uptodate (buffers s' c) = b_uptodate (buffers s c) \<and> b_mapcount (buffers s' c) = b_mapcount (buffers s c))"

lemma same_keys_trans: "same_keys s t \<Longrightarrow> same_keys t u \<Longrightarrow> same_keys s u"
  by (simp add: same_keys_def)

lemma put_last_ok:
  assumes c: "cache_ok disk addr s" and b: "b < NR_BUFFERS"
  shows "\<exists>s'. put_last_lru b s = Inr s' \<and> cache_ok disk addr s' \<and> view disk s' = view disk s \<and> same_but_lru s s'"
proof -
  have l: "links_ok s" using c by (simp add: cache_ok_def)
  obtain xs where xs: "lru_list s xs" "set xs = {..<NR_BUFFERS}" using links_okD(4)[OF l] by blast
  then obtain s' where s': "put_last_lru b s = Inr s'" "lru_list s' (remove1 b xs @ [b])" "same_but_lru s s'"
    using put_last_lru_ok[OF xs(1)] b by auto
  note f = nolru_eqD[of "buffers s' _" "buffers s _"] and sl = s'(3)[unfolded same_but_lru_def]
  have g: "nolru (buffers s' c) = nolru (buffers s c)" for c using sl by blast
  have "set (remove1 b xs @ [b]) = {..<NR_BUFFERS}" using xs b by (auto simp: lru_list_def set_remove1_eq)
  moreover have "l1_ok s'" using sl by (intro l1_ok_cong[OF links_okD(1)[OF l]]) (simp_all add: nolru_eqD(1,9)[OF g])
  moreover have "no_requests s'" using links_okD(2)[OF l] sl by (simp add: no_requests_def)
  ultimately have "links_ok s'"
    using s'(2) sl links_okD(3,5,6,7)[OF l] unfolding links_ok_def by (auto simp: nolru_eqD(4,8,9)[OF g])
  moreover have a: "abs_buf s' c = abs_buf s c" for c
    using sl by (simp add: abs_buf_def data_of_def nolru_eqD(1,2,3,6,7)[OF g] cong: option.case_cong)
  have "disk (devs s') = disk (devs s)" using sl by simp
  note cc = contents_cong[of s' s disk, OF a this]
  ultimately show ?thesis using s'(1,3) c cc by (auto simp: cache_ok_def)
qed

lemma same_lru_keys: "same_but_lru s s' \<Longrightarrow> same_keys s s'"
  using nolru_eqD[of "buffers s' _" "buffers s _"] by (auto simp: same_but_lru_def same_keys_def)

lemma same_lru_idle: "same_but_lru s s' \<Longrightarrow> idle s' b = idle s b"
  using nolru_eqD[of "buffers s' b" "buffers s b"] by (auto simp: same_but_lru_def idle_def)

lemma settled_keys: "settled P s s' \<Longrightarrow> same_keys s s'"
  by (auto simp: same_keys_def settledD)

context block_driver
begin

lemma sync_ok:
  assumes "cache_ok disk addr s" "dev_ok (devs s)" "card (pinned s) \<le> 6"
  shows "\<exists>s'. sync_buffers drv dev wait s = Inr s' \<and> cache_ok disk addr s' \<and> dev_ok (devs s') \<and> view disk s' = view disk s \<and>
    settled (\<lambda>c. dev = 0 \<or> b_dev (buffers s c) = dev) s s'"
proof -
  have "bh_chain s = Some 0" using assms(1) by (intro links_okD(3)) (simp add: cache_ok_def)
  then show ?thesis using sync_walk[OF assms, of 0 NR_BUFFERS dev wait] unfolding sync_buffers_def by auto
qed

lemma get_free_ok:
  assumes c: "cache_ok disk addr s" "dev_ok (devs s)" "card (pinned s) \<le> 6" and many: "card {b. b < NR_BUFFERS \<and> b_count (buffers s b) = 0} \<ge> 9"
  shows "\<exists>b s'. get_free_buffer drv s = Inr (b, s') \<and> b < NR_BUFFERS \<and> cache_ok disk addr s' \<and> dev_ok (devs s') \<and> view disk s' = view disk s \<and>
    idle s' b \<and> same_keys s s'"
proof -
  have walk: "chase (\<lambda>b. b_next_lru (buffers t b)) NR_BUFFERS (bh_lru t) = xs" "set xs = {..<NR_BUFFERS}" if "cache_ok disk addr t" "lru_list t xs" "set xs = {..<NR_BUFFERS}" for t xs
  proof -
    have "length xs = NR_BUFFERS" using that(2,3) distinct_card[of xs] by (simp add: lru_list_def)
    then show "chase (\<lambda>b. b_next_lru (buffers t b)) NR_BUFFERS (bh_lru t) = xs" by (intro lru_walk[OF that(2)]) simp
  qed (rule that(3))
  have step: "\<exists>b s'. get_free_loop (Suc n) drv t = Inr (b, s') \<and> b < NR_BUFFERS \<and> cache_ok disk addr s' \<and> dev_ok (devs s') \<and> view disk s' = view disk t \<and>
      idle s' b \<and> same_keys t s'" if t: "cache_ok disk addr t" "dev_ok (devs t)" and b: "b < NR_BUFFERS" "idle t b" for t b n
  proof -
    have l: "links_ok t" using t by (simp add: cache_ok_def)
    then obtain xs where xs: "lru_list t xs" "set xs = {..<NR_BUFFERS}" using links_okD(4) by blast
    note w = walk[OF t(1) xs]
    obtain e where e: "find (idle t) xs = Some e" using b w(2) by (cases "find (idle t) xs") (auto simp: find_None_iff)
    then have eb: "e < NR_BUFFERS" "idle t e" using w(2) by (auto simp: find_Some_iff)
    from put_last_ok[OF t(1) eb(1)] obtain s' where "put_last_lru e t = Inr s'" "cache_ok disk addr s'" "view disk s' = view disk t" "same_but_lru t s'" by blast
    moreover from this(4) have "devs s' = devs t" by (simp add: same_but_lru_def)
    ultimately show ?thesis using e eb t(2) same_lru_idle[of t s' e] same_lru_keys[of t s'] unfolding get_free_loop.simps w(1) by auto
  qed
  show ?thesis
  proof (cases "\<exists>b < NR_BUFFERS. idle s b")
    case True
    then show ?thesis using step[OF c(1,2)] unfolding get_free_buffer_def Suc_1[symmetric] by blast
  next
    case False
    have l: "links_ok s" using c by (simp add: cache_ok_def)
    then obtain xs where xs: "lru_list s xs" "set xs = {..<NR_BUFFERS}" using links_okD(4) by blast
    note w = walk[OF c(1) xs]
    have none: "find (idle s) xs = None" using False w(2) by (auto simp: find_None_iff)
    obtain t where t: "sync_buffers drv 0 False s = Inr t" "cache_ok disk addr t" "dev_ok (devs t)" "view disk t = view disk s" "settled (\<lambda>c. True) s t"
      using sync_ok[OF c, of 0 False] by auto
    have "{b. b < NR_BUFFERS \<and> b_count (buffers t b) = 0} = {b. b < NR_BUFFERS \<and> b_count (buffers s b) = 0}" using settledD(3)[OF t(5)] by auto
    then obtain b where b: "b < NR_BUFFERS" "idle t b"
      using some_idle[of t] many settledD(6)[OF t(5)] t(2) by (auto simp: cache_ok_def)
    have "get_free_buffer drv s = get_free_loop (Suc 0) drv t"
      unfolding get_free_buffer_def numeral_2_eq_2 get_free_loop.simps(2)[of "Suc 0"] w(1) none by (simp add: t(1) del: get_free_loop.simps)
    with step[OF t(2,3) b, of 0] t(4) same_keys_trans[OF settled_keys[OF t(5)]] show ?thesis by auto
  qed
qed

end

lemma find_buffer_None:
  "links_ok s \<Longrightarrow> find_buffer dev block s = None \<longleftrightarrow> (\<forall>b < NR_BUFFERS. \<not> (b_dev (buffers s b) = dev \<and> b_blocknr (buffers s b) = block))"
  by (auto simp: find_buffer_all find_None_iff)

lemma find_buffer_Some:
  "links_ok s \<Longrightarrow> find_buffer dev block s = Some b \<Longrightarrow> b < NR_BUFFERS \<and> b_dev (buffers s b) = dev \<and> b_blocknr (buffers s b) = block"
  by (auto simp: find_buffer_all find_Some_iff)

text \<open>Giving an idle buffer to a block that has none.\<close>

lemma reuse_ok:
  assumes c: "cache_ok disk addr s" and b: "b < NR_BUFFERS" "idle s b" and new: "\<And>c. c < NR_BUFFERS \<Longrightarrow> \<not> (b_dev (buffers s c) = dev \<and> b_blocknr (buffers s c) = block)"
    and dev: "dev \<noteq> 0" "addr dev block"
    and s': "s' = updb b (\<lambda>h. h\<lparr>b_count := 1, b_dirty := False, b_lock := False, b_uptodate := False, b_dev := dev, b_blocknr := block\<rparr>) s"
  shows "cache_ok disk addr s'" "view disk s' = view disk s"
proof -
  have l: "links_ok s" and t: "contents_ok disk addr s" using c by (auto simp: cache_ok_def)
  have lk: "\<not> b_lock (buffers s b)" using links_okD(6)[OF l b(1)] .
  have "l1_ok s'" unfolding s' by (rule l1_ok_cong[OF links_okD(1)[OF l]]) simp_all
  moreover have "no_requests s'" using links_okD(2)[OF l] by (simp add: no_requests_def s')
  ultimately have l': "links_ok s'" using lk by (intro links_cong[OF l]) (simp_all add: s')
  have dat: "data_of s' c = data_of s c" for c by (simp add: s' data_of_def cong: option.case_cong)
  have oth: "abs_buf s' c = abs_buf s c" if "c \<noteq> b" for c using that dat by (simp add: abs_buf_def s')
  have t': "contents_ok disk addr s'"
    unfolding contents_ok_def
  proof (intro conjI allI impI)
    fix c
    assume cb: "c < NR_BUFFERS"
    show "buf_ok (disk (devs s')) addr (abs_buf s' c)"
    proof (cases "c = b")
      case True
      then show ?thesis using dev by (simp add: buf_ok_def abs_buf_def s')
    next
      case False
      then show ?thesis using t cb oth[OF False] by (simp add: contents_ok_def s')
    qed
  next
    fix c e
    assume "c < NR_BUFFERS" "e < NR_BUFFERS"
      "b_dev (buffers s' c) \<noteq> 0 \<and> b_dev (buffers s' c) = b_dev (buffers s' e) \<and> b_blocknr (buffers s' c) = b_blocknr (buffers s' e)"
    then show "c = e" using contents_okD(5)[OF t, of c e] new[of c] new[of e] by (auto simp: s' split: if_splits)
  qed
  show "cache_ok disk addr s'" using l' t' by (simp add: cache_ok_def)
  have old: "view disk s (b_dev (buffers s b)) (b_blocknr (buffers s b)) = disk (devs s) (b_dev (buffers s b)) (b_blocknr (buffers s b))"
    using view_clean[OF t b(1)] b(2) by (simp add: idle_def)
  show "view disk s' = view disk s"
  proof (intro ext)
    fix x y
    show "view disk s' x y = view disk s x y"
    proof (cases "\<exists>c < NR_BUFFERS. c \<noteq> b \<and> b_dev (buffers s c) = x \<and> b_blocknr (buffers s c) = y \<and> b_uptodate (buffers s c)")
      case True
      then obtain c where cc: "c < NR_BUFFERS" "c \<noteq> b" "b_dev (buffers s c) = x" "b_blocknr (buffers s c) = y" "b_uptodate (buffers s c)" by blast
      then show ?thesis using view_cached[OF t cc(1,5)] view_cached[OF t' cc(1)] dat[of c] by (simp add: s')
    next
      case False
      have "view disk s' x y = disk (devs s') x y" using False by (intro view_disk) (auto simp: s' split: if_splits)
      moreover have "view disk s x y = disk (devs s) x y"
        using False old by (cases "b_dev (buffers s b) = x \<and> b_blocknr (buffers s b) = y") (auto intro!: view_disk)
      ultimately show ?thesis by (simp add: s')
    qed
  qed
qed

context block_driver
begin

lemma getblk_ok:
  assumes c: "cache_ok disk addr s" "dev_ok (devs s)" "card (pinned s) \<le> 6" and many: "card {b. b < NR_BUFFERS \<and> b_count (buffers s b) = 0} \<ge> 9"
    and dev: "dev \<noteq> 0" "addr dev block"
  shows "\<exists>b s'. getblk drv dev block s = Inr (b, s') \<and> b < NR_BUFFERS \<and> b_dev (buffers s' b) = dev \<and> b_blocknr (buffers s' b) = block \<and>
    b_count (buffers s' b) = (if find_buffer dev block s = Some b then b_count (buffers s b) + 1 else 1) \<and>
    cache_ok disk addr s' \<and> dev_ok (devs s') \<and> view disk s' = view disk s \<and>
    (\<forall>e < NR_BUFFERS. b_mapcount (buffers s' e) = b_mapcount (buffers s e) \<and> (e \<noteq> b \<longrightarrow> b_count (buffers s' e) = b_count (buffers s e)))"
proof (cases "find_buffer dev block s")
  case (Some b)
  have l: "links_ok s" using c(1) by (simp add: cache_ok_def)
  have b: "b < NR_BUFFERS" "b_dev (buffers s b) = dev" "b_blocknr (buffers s b) = block" using find_buffer_Some[OF l Some] by auto
  let ?s = "updb b (\<lambda>h. h\<lparr>b_count := b_count h + 1\<rparr>) s"
  note cu = count_ok[OF c(1), of b "\<lambda>h. b_count h + 1"]
  have h: "get_hash_table dev block s = Inr (Some b, ?s)"
    using Some b links_okD(6)[OF l b(1)] by (simp add: get_hash_table_def wait_on_buffer_def)
  show ?thesis
  proof (cases "\<not> b_dirty (buffers s b) \<and> b_uptodate (buffers s b)")
    case True
    obtain s' where p: "put_last_lru b ?s = Inr s'" "cache_ok disk addr s'" "view disk s' = view disk ?s" "same_but_lru ?s s'"
      using put_last_ok[OF cu(1) b(1)] by blast
    have "devs s' = devs s" using p(4) by (simp add: same_but_lru_def)
    then show ?thesis using True h p cu(2) Some b c(2) same_lru_keys[OF p(4)] by (auto simp: getblk_def same_keys_def)
  next
    case False
    then have "getblk drv dev block s = Inr (b, ?s)" using h by (auto simp: getblk_def)
    then show ?thesis using cu Some b c(2) by auto
  qed
next
  case None
  have l: "links_ok s" using c(1) by (simp add: cache_ok_def)
  obtain b t where t: "get_free_buffer drv s = Inr (b, t)" "b < NR_BUFFERS" "cache_ok disk addr t" "dev_ok (devs t)" "view disk t = view disk s" "idle t b" "same_keys s t"
    using get_free_ok[OF c many] by blast
  have new: "\<not> (b_dev (buffers t e) = dev \<and> b_blocknr (buffers t e) = block)" if "e < NR_BUFFERS" for e
    using None find_buffer_None[OF l] t(7) that by (auto simp: same_keys_def)
  let ?s = "updb b (\<lambda>h. h\<lparr>b_count := 1, b_dirty := False, b_lock := False, b_uptodate := False, b_dev := dev, b_blocknr := block\<rparr>) t"
  have "getblk drv dev block s = Inr (b, ?s)" using None t(1) by (simp add: getblk_def get_hash_table_def)
  moreover note reuse_ok[OF t(3,2,6) new dev refl]
  ultimately show ?thesis using t None by (intro exI[of _ b] exI[of _ ?s]) (auto simp: same_keys_def)
qed

end

text \<open>One buffer gets another state, and its block the meaning that goes with it.\<close>

lemma contents_change:
  assumes t: "contents_ok disk addr s" and b: "b < NR_BUFFERS" "b_dev (buffers s b) \<noteq> 0"
    and oth: "\<And>c. c < NR_BUFFERS \<Longrightarrow> c \<noteq> b \<Longrightarrow> abs_buf s' c = abs_buf s c" and ds: "disk (devs s') = disk (devs s)"
    and k: "b_dev (buffers s' b) = b_dev (buffers s b)" "b_blocknr (buffers s' b) = b_blocknr (buffers s b)"
    and ok: "buf_ok (disk (devs s)) addr (abs_buf s' b)"
  shows "contents_ok disk addr s'"
    and "view disk s' = (view disk s)(b_dev (buffers s b) := (view disk s (b_dev (buffers s b)))(b_blocknr (buffers s b) :=
      (if b_uptodate (buffers s' b) then Some (data_of s' b) else disk (devs s) (b_dev (buffers s b)) (b_blocknr (buffers s b)))))"
proof -
  have key: "b_dev (buffers s' c) = b_dev (buffers s c)" "b_blocknr (buffers s' c) = b_blocknr (buffers s c)" if "c < NR_BUFFERS" for c
    using abs_buf_eqD[OF oth[OF that]] k by (cases "c = b"; simp)+
  show t': "contents_ok disk addr s'"
    unfolding contents_ok_def
  proof (intro conjI allI impI)
    fix c
    assume cb: "c < NR_BUFFERS"
    show "buf_ok (disk (devs s')) addr (abs_buf s' c)"
      using t cb oth[OF cb] ok ds by (cases "c = b") (simp_all add: contents_ok_def)
  next
    fix c e
    assume "c < NR_BUFFERS" "e < NR_BUFFERS"
      "b_dev (buffers s' c) \<noteq> 0 \<and> b_dev (buffers s' c) = b_dev (buffers s' e) \<and> b_blocknr (buffers s' c) = b_blocknr (buffers s' e)"
    then show "c = e" using contents_okD(5)[OF t, of c e] key by metis
  qed
  show "view disk s' = (view disk s)(b_dev (buffers s b) := (view disk s (b_dev (buffers s b)))(b_blocknr (buffers s b) :=
      (if b_uptodate (buffers s' b) then Some (data_of s' b) else disk (devs s) (b_dev (buffers s b)) (b_blocknr (buffers s b)))))"
    (is "_ = ?v")
  proof (intro ext)
    fix x y
    show "view disk s' x y = ?v x y"
    proof (cases "x = b_dev (buffers s b) \<and> y = b_blocknr (buffers s b)")
      case True
      show ?thesis
      proof (cases "b_uptodate (buffers s' b)")
        case up: True
        then show ?thesis using True view_cached[OF t' b(1) up] k by simp
      next
        case False
        have "view disk s' x y = disk (devs s') x y"
          using False True contents_okD(5)[OF t' _ b(1)] k b(2) by (intro view_disk) metis
        then show ?thesis using True False ds by simp
      qed
    next
      case ne: False
      show ?thesis
      proof (cases "\<exists>c < NR_BUFFERS. b_dev (buffers s c) = x \<and> b_blocknr (buffers s c) = y \<and> b_uptodate (buffers s c)")
        case True
        then obtain c where cc: "c < NR_BUFFERS" "b_dev (buffers s c) = x" "b_blocknr (buffers s c) = y" "b_uptodate (buffers s c)" by blast
        then have cb: "c \<noteq> b" using ne by auto
        note a = abs_buf_eqD[OF oth[OF cc(1) cb]]
        show ?thesis using view_cached[OF t cc(1,4)] view_cached[OF t' cc(1)] a cc ne by auto
      next
        case False
        have "view disk s' x y = disk (devs s') x y"
        proof (rule view_disk)
          fix c
          assume cc: "c < NR_BUFFERS" "b_dev (buffers s' c) = x" "b_blocknr (buffers s' c) = y"
          then have "c \<noteq> b" using ne key[OF b(1)] by auto
          then show "\<not> b_uptodate (buffers s' c)" using abs_buf_eqD[OF oth[OF cc(1)]] False cc by metis
        qed
        moreover have "view disk s x y = disk (devs s) x y" using False by (intro view_disk) metis
        ultimately show ?thesis using ne ds by auto
      qed
    qed
  qed
qed

lemma view_same: "v x y = z \<Longrightarrow> v(x := (v x)(y := z)) = v"
  by auto

context block_driver
begin

lemma readbuf_ok:
  assumes c: "cache_ok disk addr s" "dev_ok (devs s)" "card (pinned s) \<le> 6"
    and b: "b < NR_BUFFERS" "b_dev (buffers s b) = dev" "b_blocknr (buffers s b) = block" "b_count (buffers s b) \<noteq> 0" "dev \<noteq> 0"
  shows "\<exists>r s'. readbuf drv b s = Inr (r, s') \<and> cache_ok disk addr s' \<and> dev_ok (devs s') \<and> view disk s' = view disk s \<and>
    (case view disk s dev block of
       None \<Rightarrow> r = None
     | Some x \<Rightarrow> r = Some b \<and> b_uptodate (buffers s' b) \<and> data_of s' b = x \<and> b_dev (buffers s' b) = dev \<and> b_blocknr (buffers s' b) = block)"
proof (cases "b_uptodate (buffers s b)")
  case True
  then show ?thesis using view_cached[of disk addr s b] c b by (simp add: readbuf_def cache_ok_def)
next
  case False
  have l: "links_ok s" and t: "contents_ok disk addr s" using c by (auto simp: cache_ok_def)
  note lk = links_okD[OF l]
  have nd: "\<not> b_dirty (buffers s b)" using contents_okD(3)[OF t b(1)] False by blast
  have ad: "addr dev block" using contents_okD(1)[OF t b(1)] b by simp
  let ?ok = "disk (devs s) dev block \<noteq> None"
  have cmd: "case READ of READ \<Rightarrow> \<not> b_uptodate (buffers s b) | WRITE \<Rightarrow> b_dirty (buffers s b)" using False by simp
  obtain s' where r: "ll_rw_blk drv READ b s = Inr s'" "rw_done b ?ok s s'" "dev_ok (devs s')" "disk (devs s') = disk (devs s)"
      "\<And>x. disk (devs s) dev block = Some x \<Longrightarrow> data_of s' b = x"
    using transfer[OF lk(1) c(3) b(1) lk(6,7)[OF b(1)] lk(2) c(2) _ cmd] ad b by auto
  note f = noslot_eqD[OF rw_doneD(6)[OF r(2)]]
  have l': "links_ok s'" by (rule rw_links[OF l r(2)])
  have oth: "abs_buf s' e = abs_buf s e" if "e < NR_BUFFERS" "e \<noteq> b" for e by (rule rw_abs[OF r(2) that])
  have bo: "buf_ok (disk (devs s)) addr (abs_buf s' b)" using f b ad r(5) by (auto simp: buf_ok_def abs_buf_def)
  note cc = contents_change[where disk = disk, OF t b(1) _ oth r(4) _ _ bo]
  have c': "contents_ok disk addr s'" using cc(1) f b by auto
  have vd: "view disk s dev block = disk (devs s) dev block" using view_clean[OF t b(1) nd] b by simp
  have v': "view disk s' = view disk s"
  proof -
    have "view disk s' = (view disk s)(dev := (view disk s dev)(block := (if ?ok then Some (data_of s' b) else disk (devs s) dev block)))"
      using cc(2) f b by auto
    also have "\<dots> = view disk s" using vd r(5) by (intro view_same) auto
    finally show ?thesis .
  qed
  have ck: "cache_ok disk addr s'" using l' c' by (simp add: cache_ok_def)
  have w: "wait_on_buffer b s' = Inr s'" using links_okD(6)[OF l' b(1)] by (simp add: wait_on_buffer_def)
  have cnt: "b_count (buffers s' b) \<noteq> 0" using f b by simp
  show ?thesis
  proof (cases "disk (devs s) dev block")
    case None
    then have "readbuf drv b s = Inr (None, updb b (\<lambda>h. h\<lparr>b_count := b_count h - 1\<rparr>) s')"
      using False r(1) w f cnt by (simp add: readbuf_def brelse_def)
    then show ?thesis using None vd count_ok[OF ck] r(3) v' by simp
  next
    case (Some x)
    then have "readbuf drv b s = Inr (Some b, s')" using False r(1) w f by (simp add: readbuf_def)
    then show ?thesis using Some vd ck r(3,5) v' f b by simp
  qed
qed

lemma bread_ok:
  assumes c: "cache_ok disk addr s" "dev_ok (devs s)" "card (pinned s) \<le> 6" and many: "card {b. b < NR_BUFFERS \<and> b_count (buffers s b) = 0} \<ge> 9"
    and cnt: "\<And>b. b < NR_BUFFERS \<Longrightarrow> b_count (buffers s b) \<noteq> - 1" and dev: "dev \<noteq> 0" "addr dev block"
  shows "\<exists>r s'. bread drv dev block s = Inr (r, s') \<and> cache_ok disk addr s' \<and> dev_ok (devs s') \<and> view disk s' = view disk s \<and>
    (case view disk s dev block of
       None \<Rightarrow> r = None
     | Some x \<Rightarrow> \<exists>b < NR_BUFFERS. r = Some b \<and> b_uptodate (buffers s' b) \<and> data_of s' b = x \<and> b_dev (buffers s' b) = dev \<and> b_blocknr (buffers s' b) = block)"
proof -
  obtain b t where t: "getblk drv dev block s = Inr (b, t)" "b < NR_BUFFERS" "b_dev (buffers t b) = dev" "b_blocknr (buffers t b) = block"
      "b_count (buffers t b) = (if find_buffer dev block s = Some b then b_count (buffers s b) + 1 else 1)"
      "cache_ok disk addr t" "dev_ok (devs t)" "view disk t = view disk s" "\<And>e. e < NR_BUFFERS \<Longrightarrow> b_mapcount (buffers t e) = b_mapcount (buffers s e)"
    using getblk_ok[OF c many dev] by blast
  have nz: "b_count (buffers t b) \<noteq> 0" using t(5) cnt[OF t(2)] by (auto simp: add_eq_0_iff add.commute)
  have "pinned t = pinned s" using t(9) by (auto simp: pinned_def)
  then have "card (pinned t) \<le> 6" using c(3) by simp
  from readbuf_ok[OF t(6,7) this t(2,3,4) nz dev(1)] t(1,2,8) show ?thesis
    by (auto simp: bread_def split: option.splits)
qed

end

text \<open>A client that writes into the area of a mapped buffer and marks it.\<close>

lemma modify_ok:
  assumes c: "cache_ok disk addr s" and b: "b < NR_BUFFERS" "b_data (buffers s b) = Some i" "b_dev (buffers s b) \<noteq> 0"
    and d: "disk (devs s) (b_dev (buffers s b)) (b_blocknr (buffers s b)) \<noteq> None"
    and s': "s' = updb b (\<lambda>h. h\<lparr>b_uptodate := True, b_dirty := True\<rparr>) (s\<lparr>bufmem := (bufmem s)(i := d)\<rparr>)"
  shows "cache_ok disk addr s'"
    "view disk s' = (view disk s)(b_dev (buffers s b) := (view disk s (b_dev (buffers s b)))(b_blocknr (buffers s b) := Some (clip d)))"
proof -
  have l: "links_ok s" and t: "contents_ok disk addr s" using c by (auto simp: cache_ok_def)
  have "l1_ok s'" unfolding s' by (rule l1_ok_cong[OF links_okD(1)[OF l]]) simp_all
  moreover have "no_requests s'" using links_okD(2)[OF l] by (simp add: no_requests_def s')
  ultimately have l': "links_ok s'" by (intro links_cong[OF l]) (simp_all add: s')
  have oth: "abs_buf s' e = abs_buf s e" if "e < NR_BUFFERS" "e \<noteq> b" for e
  proof -
    have "b_data (buffers s e) \<noteq> Some i"
      using l1_okD(3)[OF links_okD(1)[OF l] that(1), of i] l1_okD(3)[OF links_okD(1)[OF l] b(1,2)] that(2) by auto
    then show ?thesis using that(2) by (auto simp: abs_buf_def data_of_def s' split: option.splits)
  qed
  have ab: "abs_buf s' b = (b_dev (buffers s b), b_blocknr (buffers s b), True, True, clip d)" using b(2) by (simp add: abs_buf_def data_of_def s')
  have "buf_ok (disk (devs s)) addr (abs_buf s' b)" using contents_okD(1)[OF t b(1,3)] d b(3) by (simp add: buf_ok_def ab)
  note cc = contents_change[where disk = disk, OF t b(1,3) oth _ _ _ this]
  have "contents_ok disk addr s'" by (rule cc(1)) (simp_all add: s')
  then show "cache_ok disk addr s'" using l' by (simp add: cache_ok_def)
  have "b_uptodate (buffers s' b)" "data_of s' b = clip d" using ab by (simp_all add: abs_buf_def)
  then show "view disk s' = (view disk s)(b_dev (buffers s b) := (view disk s (b_dev (buffers s b)))(b_blocknr (buffers s b) := Some (clip d)))"
    using cc(2) by (simp add: s')
qed

text \<open>When nothing is dirty the disk is what the kernel sees.\<close>

lemma view_all_clean:
  assumes "contents_ok disk addr s" and "\<And>b. b < NR_BUFFERS \<Longrightarrow> \<not> b_dirty (buffers s b)"
  shows "view disk s dev block = disk (devs s) dev block"
proof (cases "\<exists>b < NR_BUFFERS. b_dev (buffers s b) = dev \<and> b_blocknr (buffers s b) = block")
  case True
  then show ?thesis using view_clean[OF assms(1)] assms(2) by auto
next
  case False
  then show ?thesis by (intro view_disk) auto
qed

text \<open>Mapping a buffer changes neither the view nor the reference counts.\<close>

lemma links_mapped:
  assumes l: "links_ok s" and "l1_ok s'" "no_requests s'" "bh_chain s' = bh_chain s" "bh_lru s' = bh_lru s" "bh_llru s' = bh_llru s"
    and b: "\<And>c. b_next (buffers s' c) = b_next (buffers s c)" "\<And>c. b_next_lru (buffers s' c) = b_next_lru (buffers s c)"
      "\<And>c. b_prev_lru (buffers s' c) = b_prev_lru (buffers s c)" "\<And>c. b_lock (buffers s' c) = b_lock (buffers s c)"
      "\<And>c. c < NR_BUFFERS \<Longrightarrow> b_mapcount (buffers s' c) \<noteq> - 1"
  shows "links_ok s'"
  using assms unfolding links_ok_def lru_list_def by simp

lemma map_keeps:
  assumes c: "cache_ok disk addr s" and room: "card (pinned s) \<le> 6" and b: "b < NR_BUFFERS" "b_mapcount (buffers s b) + 1 \<noteq> - 1"
  shows "\<exists>s' i. map_buffer b s = Inr s' \<and> cache_ok disk addr s' \<and> view disk s' = view disk s \<and> b_data (buffers s' b) = Some i \<and>
    devs s' = devs s \<and> (\<forall>e < NR_BUFFERS. b_count (buffers s' e) = b_count (buffers s e) \<and> b_dev (buffers s' e) = b_dev (buffers s e) \<and>
      b_blocknr (buffers s' e) = b_blocknr (buffers s e) \<and> b_mapcount (buffers s' e) = (if e = b then b_mapcount (buffers s b) + 1 else b_mapcount (buffers s e)))"
proof -
  have l: "links_ok s" using c by (simp add: cache_ok_def)
  obtain t i where t: "map_buffer b s = Inr (updb b (\<lambda>h. h\<lparr>b_mapcount := b_mapcount h + 1\<rparr>) t)" "l1_ok t" "same_but_slots s t" "b_data (buffers t b) = Some i"
    using map_buffer_ok[OF links_okD(1)[OF l] room b(1)] by blast
  note sb = same_but_slotsD[OF t(3)]
  note f = noslot_eqD[OF sb(1)]
  let ?s = "updb b (\<lambda>h. h\<lparr>b_mapcount := b_mapcount h + 1\<rparr>) t"
  have dt: "b_data (buffers ?s e) = b_data (buffers t e)" "bufmem_map ?s = bufmem_map t" "lastumap ?s = lastumap t" for e by simp_all
  have mc: "b_data (buffers t e) \<noteq> None" if "e < NR_BUFFERS" "b_mapcount (buffers ?s e) \<noteq> 0" for e
    using l1_okD(4)[OF t(2) that(1)] that(2) t(4) by (cases "e = b") simp_all
  have "l1_ok ?s" using t(2) mc unfolding l1_ok_def dt by blast
  moreover have "no_requests ?s" using links_okD(2)[OF l] sb by (simp add: no_requests_def)
  ultimately have "links_ok ?s" using sb b(2) links_okD(7)[OF l] by (intro links_mapped[OF l]) (simp_all add: f)
  moreover have dd: "data_of ?s e = data_of t e" for e by (simp add: data_of_def cong: option.case_cong)
  have a: "abs_buf ?s e = abs_buf s e" if "e < NR_BUFFERS" for e
    using sb(2)[OF that] by (simp add: abs_buf_def f dd)
  have "disk (devs ?s) = disk (devs s)" using sb(10) by simp
  note cc = contents_cong[of ?s s disk, OF a this]
  ultimately show ?thesis using t(1,4) c cc sb(10) by (auto simp: cache_ok_def f)
qed

section \<open>The cache at boot\<close>

text \<open>The state after \<^verbatim>\<open>buffer_init\<close>: the heads are cleared memory.\<close>

definition cleared :: "'d bcache \<Rightarrow> bool" where
  "cleared s \<longleftrightarrow> no_requests s \<and> (\<forall>b < NR_BUFFERS. b_dev (buffers s b) = 0 \<and> b_count (buffers s b) = 0 \<and>
     \<not> b_uptodate (buffers s b) \<and> \<not> b_dirty (buffers s b) \<and> \<not> b_lock (buffers s b))"

lemma buffer_init_lru: "k < NR_BUFFERS \<Longrightarrow> dseg (nlru (buffer_init s)) (plru (buffer_init s)) k [Suc k..<NR_BUFFERS] None"
proof (induction "NR_BUFFERS - k" arbitrary: k)
  case (Suc n)
  show ?case
  proof (cases "Suc k < NR_BUFFERS")
    case True
    then have "[Suc k..<NR_BUFFERS] = Suc k # [Suc (Suc k)..<NR_BUFFERS]" by (simp add: upt_conv_Cons)
    then show ?thesis using Suc.hyps(1)[of "Suc k"] Suc.hyps(2) True by (auto simp: buffer_init_def)
  next
    case False
    then have "k = 63" using Suc.prems by simp
    then show ?thesis by (simp add: buffer_init_def)
  qed
qed simp

lemma buffer_init_ok:
  assumes "cleared s"
  shows "cache_ok disk addr (buffer_init s)" "pinned (buffer_init s) = {}" "b < NR_BUFFERS \<Longrightarrow> b_count (buffers (buffer_init s) b) = 0"
    "devs (buffer_init s) = devs s"
proof -
  have u: "[0..<NR_BUFFERS] = 0 # [Suc 0..<NR_BUFFERS]" by (simp only: upt_conv_Cons)
  have "lru_list (buffer_init s) [0..<NR_BUFFERS]"
    unfolding lru_list_def
  proof (intro conjI)
    show "dseg (nlru (buffer_init s)) (plru (buffer_init s)) (hd [0..<NR_BUFFERS]) (tl [0..<NR_BUFFERS]) None"
      unfolding u list.sel by (rule buffer_init_lru) simp
  qed (simp_all add: buffer_init_def last_upt hd_upt)
  moreover have "set [0..<NR_BUFFERS] = {..<NR_BUFFERS}" by (simp only: set_upt atLeast_upt)
  moreover have "l1_ok (buffer_init s)" by (auto simp: l1_ok_def buffer_init_def)
  moreover have "no_requests (buffer_init s)" using assms by (simp add: cleared_def no_requests_def buffer_init_def)
  ultimately have "links_ok (buffer_init s)"
    using assms unfolding links_ok_def by (auto simp: buffer_init_def cleared_def)
  moreover have "contents_ok disk addr (buffer_init s)"
    using assms by (auto simp: contents_ok_def buf_ok_def abs_buf_def buffer_init_def cleared_def)
  ultimately show "cache_ok disk addr (buffer_init s)" by (simp add: cache_ok_def)
  show "pinned (buffer_init s) = {}" by (auto simp: pinned_def buffer_init_def)
  show "b < NR_BUFFERS \<Longrightarrow> b_count (buffers (buffer_init s) b) = 0" using assms by (simp add: buffer_init_def cleared_def)
  show "devs (buffer_init s) = devs s" by (simp add: buffer_init_def)
qed

end
