(* ===== verification/Segments.thy ===== *)
theory Segments
  imports Prelude
begin

text \<open>
  What the segment allocator promises, without slots, words or links: memory
  between two paragraph numbers is tiled by segments, each free or owned by a
  positive number of users. Allocation carves the smallest free segment that
  is large enough, the first of them where several have this size; the last
  release of a segment frees it and merges neighbouring free segments.
\<close>

record seg =
  sbase :: nat
  sext :: nat
  sfree :: bool
  sref :: nat

fun tiles :: "nat \<Rightarrow> seg list \<Rightarrow> nat \<Rightarrow> bool" where
  "tiles lo [] hi = (lo = hi)"
| "tiles lo (x # xs) hi = (sbase x = lo \<and> 0 < sext x \<and> tiles (lo + sext x) xs hi)"

fun coalesced :: "seg list \<Rightarrow> bool" where
  "coalesced (x # y # xs) = (\<not> (sfree x \<and> sfree y) \<and> coalesced (y # xs))"
| "coalesced xs = True"

definition counted :: "seg list \<Rightarrow> bool" where
  "counted xs \<longleftrightarrow> (\<forall>x\<in>set xs. sfree x = (sref x = 0))"

definition merge_seg :: "seg \<Rightarrow> seg \<Rightarrow> seg" where
  "merge_seg x y = x\<lparr>sext := sext x + sext y\<rparr>"

function coalesce :: "seg list \<Rightarrow> seg list" where
  "coalesce [] = []"
| "coalesce [x] = [x]"
| "coalesce (x # y # xs) =
     (if sfree x \<and> sfree y then coalesce (merge_seg x y # xs) else x # coalesce (y # xs))"
  by pat_completeness auto
termination by (relation "measure length") auto

definition fits :: "nat \<Rightarrow> seg \<Rightarrow> bool" where
  "fits n x \<longleftrightarrow> sfree x \<and> n \<le> sext x"

definition carve :: "nat \<Rightarrow> seg \<Rightarrow> seg list" where
  "carve n x =
     x\<lparr>sext := n, sfree := False, sref := 1\<rparr> #
     (if sext x = n then []
      else [\<lparr>sbase = sbase x + n, sext = sext x - n, sfree = True, sref = 0\<rparr>])"

definition alloc_spec :: "seg list \<Rightarrow> nat \<Rightarrow> nat \<Rightarrow> seg list \<Rightarrow> bool" where
  "alloc_spec xs n base ys \<longleftrightarrow>
     (\<exists>pre x post. xs = pre @ x # post \<and> fits n x \<and> sbase x = base \<and>
        (\<forall>y\<in>set pre. fits n y \<longrightarrow> sext x < sext y) \<and>
        (\<forall>y\<in>set post. fits n y \<longrightarrow> sext x \<le> sext y) \<and>
        ys = pre @ carve n x @ post)"

definition release_seg :: "seg \<Rightarrow> seg" where
  "release_seg x = x\<lparr>sref := sref x - 1, sfree := (sref x = 1)\<rparr>"

definition free_spec :: "seg list \<Rightarrow> nat \<Rightarrow> seg list \<Rightarrow> bool" where
  "free_spec xs base ys \<longleftrightarrow>
     (\<exists>pre x post. xs = pre @ x # post \<and> \<not> sfree x \<and> sbase x = base \<and>
        ys = (if sref x = 1 then coalesce (pre @ release_seg x # post)
              else pre @ release_seg x # post))"

definition share_spec :: "seg list \<Rightarrow> nat \<Rightarrow> seg list \<Rightarrow> bool" where
  "share_spec xs base ys \<longleftrightarrow>
     (\<exists>pre x post. xs = pre @ x # post \<and> \<not> sfree x \<and> sbase x = base \<and>
        ys = pre @ x\<lparr>sref := Suc (sref x)\<rparr> # post)"

text \<open>The paragraphs a segment covers, and those in use by somebody.\<close>

definition span :: "seg \<Rightarrow> nat set" where
  "span x = {sbase x ..< sbase x + sext x}"

definition used_area :: "seg list \<Rightarrow> nat set" where
  "used_area xs = \<Union> (span ` {x \<in> set xs. \<not> sfree x})"

definition free_total :: "seg list \<Rightarrow> nat" where
  "free_total xs = sum_list (map sext (filter sfree xs))"

definition used_total :: "seg list \<Rightarrow> nat" where
  "used_total xs = sum_list (map sext (filter (Not \<circ> sfree) xs))"

section \<open>Tilings\<close>

lemma tiles_append:
  "tiles lo (xs @ ys) hi \<longleftrightarrow> (\<exists>mid. tiles lo xs mid \<and> tiles mid ys hi)"
  by (induction xs arbitrary: lo) auto

lemma tiles_le: "tiles lo xs hi \<Longrightarrow> lo \<le> hi"
  by (induction xs arbitrary: lo) force+

lemma tiles_mem:
  "tiles lo xs hi \<Longrightarrow> x \<in> set xs \<Longrightarrow> lo \<le> sbase x \<and> sbase x + sext x \<le> hi \<and> 0 < sext x"
  by (induction xs arbitrary: lo) (auto dest: tiles_le, force+)

lemma tiles_inj:
  "tiles lo xs hi \<Longrightarrow> x \<in> set xs \<Longrightarrow> y \<in> set xs \<Longrightarrow> sbase x = sbase y \<Longrightarrow> x = y"
proof (induction xs arbitrary: lo)
  case (Cons a xs)
  from Cons.prems(1) have later: "\<And>z. z \<in> set xs \<Longrightarrow> sbase a < sbase z"
    using tiles_mem by fastforce
  with Cons show ?case by fastforce
qed simp

lemma tiles_disjoint:
  assumes "tiles lo (xs @ x # ys) hi" and "y \<in> set (xs @ ys)"
  shows "span x \<inter> span y = {}"
proof -
  from assms(1) obtain mid where
    xs: "tiles lo xs mid" and x: "sbase x = mid" and ys: "tiles (mid + sext x) ys hi"
    by (auto simp: tiles_append)
  from assms(2) consider "y \<in> set xs" | "y \<in> set ys" by auto
  then show ?thesis
  proof cases
    case 1
    with xs x show ?thesis using tiles_mem[OF xs 1] by (auto simp: span_def)
  next
    case 2
    with ys x show ?thesis using tiles_mem[OF ys 2] by (auto simp: span_def)
  qed
qed

lemma tiles_distinct: "tiles lo xs hi \<Longrightarrow> distinct xs"
  by (induction xs arbitrary: lo) (auto dest: tiles_mem)

text \<open>A segment is found again by its base: the split around it is unique.\<close>

lemma tiles_split_unique:
  assumes "tiles lo (xs @ x # ys) hi" and "xs @ x # ys = xs' @ x' # ys'" and "sbase x' = sbase x"
  shows "xs' = xs \<and> x' = x \<and> ys' = ys"
proof -
  have "x' \<in> set (xs @ x # ys)" by (simp add: assms(2))
  then have "x' = x" using tiles_inj[OF assms(1)] assms(3) by simp
  moreover have "distinct (xs @ x # ys)" by (rule tiles_distinct[OF assms(1)])
  ultimately show ?thesis
    using assms(2) by (auto simp: append_eq_append_conv2 append_eq_Cons_conv Cons_eq_append_conv)
qed

lemma tiles_cong:
  "map sbase xs = map sbase ys \<Longrightarrow> map sext xs = map sext ys \<Longrightarrow> tiles lo xs hi = tiles lo ys hi"
proof (induction xs arbitrary: ys lo)
  case Nil
  then show ?case by simp
next
  case (Cons x xs)
  then obtain y ys' where "ys = y # ys'" by (cases ys) auto
  with Cons show ?case by auto
qed

lemma tiles_total: "tiles lo xs hi \<Longrightarrow> free_total xs + used_total xs + lo = hi"
  by (induction xs arbitrary: lo) (auto simp: free_total_def used_total_def, force+)

lemma used_area_simps [simp]:
  "used_area [] = {}"
  "used_area (x # xs) = (if sfree x then {} else span x) \<union> used_area xs"
  "used_area (xs @ ys) = used_area xs \<union> used_area ys"
  by (auto simp: used_area_def)

section \<open>Allocation\<close>

lemma tiles_carve:
  assumes "tiles lo (xs @ x # ys) hi" and "0 < n" and "n \<le> sext x"
  shows "tiles lo (xs @ carve n x @ ys) hi"
  using assms by (auto simp: tiles_append carve_def)

lemma coalesced_append:
  "coalesced (xs @ y # ys) \<longleftrightarrow>
     coalesced xs \<and> coalesced (y # ys) \<and> (xs \<noteq> [] \<longrightarrow> \<not> (sfree (last xs) \<and> sfree y))"
  by (induction xs rule: coalesced.induct) auto

lemma coalesced_tail: "coalesced (x # xs) \<Longrightarrow> coalesced xs"
  by (cases xs) auto

lemma coalesced_carve:
  assumes "coalesced (xs @ x # ys)" and "sfree x"
  shows "coalesced (xs @ carve n x @ ys)"
proof -
  from assms have "coalesced ys" "ys \<noteq> [] \<Longrightarrow> \<not> sfree (hd ys)" "coalesced xs"
    by (cases ys; auto simp: coalesced_append)+
  then show ?thesis
    by (cases ys) (auto simp: coalesced_append carve_def)
qed

lemma counted_carve:
  "counted (xs @ x # ys) \<Longrightarrow> counted (xs @ carve n x @ ys)"
  by (auto simp: counted_def carve_def)

lemma alloc_spec_tiles:
  "alloc_spec xs n base ys \<Longrightarrow> 0 < n \<Longrightarrow> tiles lo xs hi \<Longrightarrow> tiles lo ys hi"
  by (auto simp: alloc_spec_def fits_def intro: tiles_carve)

lemma alloc_spec_coalesced: "alloc_spec xs n base ys \<Longrightarrow> coalesced xs \<Longrightarrow> coalesced ys"
  by (auto simp: alloc_spec_def fits_def intro: coalesced_carve)

lemma alloc_spec_counted: "alloc_spec xs n base ys \<Longrightarrow> counted xs \<Longrightarrow> counted ys"
  by (auto simp: alloc_spec_def intro: counted_carve)

text \<open>The new segment is taken from unused memory and nothing else changes hands.\<close>

lemma alloc_spec_area:
  assumes "alloc_spec xs n base ys" and "tiles lo xs hi"
  shows "{base ..< base + n} \<inter> used_area xs = {}"
    and "used_area ys = used_area xs \<union> {base ..< base + n}"
    and "lo \<le> base \<and> base + n \<le> hi"
proof -
  from assms(1) obtain pre x post where
    xs: "xs = pre @ x # post" and x: "fits n x" "sbase x = base" and
    ys: "ys = pre @ carve n x @ post"
    by (auto simp: alloc_spec_def)
  have sub: "{base ..< base + n} \<subseteq> span x" using x by (auto simp: span_def fits_def)
  have "\<And>y. y \<in> set (pre @ post) \<Longrightarrow> span x \<inter> span y = {}"
    using assms(2) tiles_disjoint unfolding xs by blast
  then have "\<And>y. y \<in> set (pre @ post) \<Longrightarrow> {base ..< base + n} \<inter> span y = {}"
    using sub by blast
  moreover have "{y \<in> set xs. \<not> sfree y} \<subseteq> set (pre @ post)"
    using x(1) by (auto simp: xs fits_def)
  ultimately show "{base ..< base + n} \<inter> used_area xs = {}"
    unfolding used_area_def by blast
  show "used_area ys = used_area xs \<union> {base ..< base + n}"
    using x by (auto simp: xs ys fits_def carve_def span_def)
  show "lo \<le> base \<and> base + n \<le> hi"
    using tiles_mem[OF assms(2), of x] x xs by (auto simp: fits_def)
qed

lemma alloc_spec_total:
  assumes "alloc_spec xs n base ys"
  shows "free_total xs = free_total ys + n" and "used_total ys = used_total xs + n"
  using assms by (auto simp: alloc_spec_def fits_def carve_def free_total_def used_total_def)

lemma alloc_spec_unique:
  assumes "alloc_spec xs n b1 ys1" and "alloc_spec xs n b2 ys2"
  shows "b1 = b2 \<and> ys1 = ys2"
proof -
  obtain p1 x1 q1 where 1: "xs = p1 @ x1 # q1" "fits n x1" "b1 = sbase x1"
    "\<forall>y\<in>set p1. fits n y \<longrightarrow> sext x1 < sext y" "\<forall>y\<in>set q1. fits n y \<longrightarrow> sext x1 \<le> sext y"
    "ys1 = p1 @ carve n x1 @ q1"
    using assms(1) by (auto simp: alloc_spec_def)
  obtain p2 x2 q2 where 2: "xs = p2 @ x2 # q2" "fits n x2" "b2 = sbase x2"
    "\<forall>y\<in>set p2. fits n y \<longrightarrow> sext x2 < sext y" "\<forall>y\<in>set q2. fits n y \<longrightarrow> sext x2 \<le> sext y"
    "ys2 = p2 @ carve n x2 @ q2"
    using assms(2) by (auto simp: alloc_spec_def)
  from 1(1) 2(1) consider
    us where "p1 = p2 @ x2 # us" "q2 = us @ x1 # q1"
    | us where "p2 = p1 @ x1 # us" "q1 = us @ x2 # q2"
    | "p1 = p2" "x1 = x2" "q1 = q2"
    by (auto simp: append_eq_append_conv2 append_eq_Cons_conv Cons_eq_append_conv)
  then show ?thesis
  proof cases
    case 1
    with \<open>fits n x1\<close> \<open>fits n x2\<close> have "sext x1 < sext x2" "sext x2 \<le> sext x1"
      using \<open>\<forall>y\<in>set p1. fits n y \<longrightarrow> sext x1 < sext y\<close>
        \<open>\<forall>y\<in>set q2. fits n y \<longrightarrow> sext x2 \<le> sext y\<close> by auto
    then show ?thesis by simp
  next
    case 2
    with \<open>fits n x1\<close> \<open>fits n x2\<close> have "sext x2 < sext x1" "sext x1 \<le> sext x2"
      using \<open>\<forall>y\<in>set p2. fits n y \<longrightarrow> sext x2 < sext y\<close>
        \<open>\<forall>y\<in>set q1. fits n y \<longrightarrow> sext x1 \<le> sext y\<close> by auto
    then show ?thesis by simp
  next
    case 3
    with 1 2 show ?thesis by simp
  qed
qed

section \<open>Merging\<close>

lemma tiles_coalesce: "tiles lo xs hi \<Longrightarrow> tiles lo (coalesce xs) hi"
  by (induction xs arbitrary: lo rule: coalesce.induct) (auto simp: merge_seg_def add.assoc)

lemma coalesce_hd: "xs \<noteq> [] \<Longrightarrow> coalesce xs \<noteq> [] \<and> sfree (hd (coalesce xs)) = sfree (hd xs)"
  by (induction xs rule: coalesce.induct) (auto simp: merge_seg_def)

lemma coalesced_coalesce: "coalesced (coalesce xs)"
proof (induction xs rule: coalesce.induct)
  case (3 x y xs)
  then show ?case
    using coalesce_hd[of "y # xs"] by (cases "coalesce (y # xs)") auto
qed auto

lemma counted_simps [simp]:
  "counted []" "counted (x # xs) \<longleftrightarrow> sfree x = (sref x = 0) \<and> counted xs"
  "counted (xs @ ys) \<longleftrightarrow> counted xs \<and> counted ys"
  by (auto simp: counted_def)

lemma counted_coalesce: "counted xs \<Longrightarrow> counted (coalesce xs)"
  by (induction xs rule: coalesce.induct) (auto simp: merge_seg_def)

lemma coalesce_id: "coalesced xs \<Longrightarrow> coalesce xs = xs"
  by (induction xs rule: coalesce.induct) auto

lemma used_coalesce:
  "filter (Not \<circ> sfree) (coalesce xs) = filter (Not \<circ> sfree) xs"
  by (induction xs rule: coalesce.induct) (auto simp: merge_seg_def)

lemma coalesce_free_total: "free_total (coalesce xs) = free_total xs"
  by (induction xs rule: coalesce.induct) (auto simp: merge_seg_def free_total_def)

lemma used_area_filter: "used_area xs = \<Union> (span ` set (filter (Not \<circ> sfree) xs))"
  by (simp add: used_area_def)

section \<open>Release and sharing\<close>

lemma free_spec_tiles:
  assumes "free_spec xs base ys" and "tiles lo xs hi"
  shows "tiles lo ys hi"
proof -
  from assms(1) obtain pre x post where
    xs: "xs = pre @ x # post" and
    ys: "ys = (if sref x = 1 then coalesce (pre @ release_seg x # post)
               else pre @ release_seg x # post)"
    by (auto simp: free_spec_def)
  have "tiles lo (pre @ release_seg x # post) hi"
    using assms(2) tiles_cong[of xs "pre @ release_seg x # post"]
    by (auto simp: xs release_seg_def)
  then show ?thesis by (auto simp: ys tiles_coalesce)
qed

lemma free_spec_coalesced:
  assumes "free_spec xs base ys" and "coalesced xs" and "counted xs"
  shows "coalesced ys"
proof -
  from assms obtain pre x post where
    xs: "xs = pre @ x # post" and x: "\<not> sfree x" and
    ys: "ys = (if sref x = 1 then coalesce (pre @ release_seg x # post)
               else pre @ release_seg x # post)"
    by (auto simp: free_spec_def)
  show ?thesis
  proof (cases "sref x = 1")
    case True
    then show ?thesis by (simp add: ys coalesced_coalesce)
  next
    case False
    with assms(2) x show ?thesis
      by (cases post) (auto simp: ys xs coalesced_append release_seg_def)
  qed
qed

lemma free_spec_counted:
  "free_spec xs base ys \<Longrightarrow> counted xs \<Longrightarrow> counted ys"
  by (auto simp: free_spec_def release_seg_def intro!: counted_coalesce)

lemma share_spec_keeps:
  assumes "share_spec xs base ys"
  shows "tiles lo xs hi \<Longrightarrow> tiles lo ys hi" and "coalesced xs \<Longrightarrow> coalesced ys"
    and "counted xs \<Longrightarrow> counted ys" and "used_area ys = used_area xs"
proof -
  from assms obtain pre x post where
    xs: "xs = pre @ x # post" and x: "\<not> sfree x" and
    ys: "ys = pre @ x\<lparr>sref := Suc (sref x)\<rparr> # post"
    by (auto simp: share_spec_def)
  show "tiles lo xs hi \<Longrightarrow> tiles lo ys hi"
    using tiles_cong[of xs ys] by (auto simp: xs ys)
  show "coalesced xs \<Longrightarrow> coalesced ys"
    using x by (cases post) (auto simp: xs ys coalesced_append)
  show "counted xs \<Longrightarrow> counted ys"
    using x by (auto simp: xs ys counted_def)
  show "used_area ys = used_area xs"
    using x by (auto simp: xs ys used_area_def span_def)
qed

lemma share_free_inverse:
  assumes "share_spec xs base ys" and "free_spec ys base zs" and "tiles lo xs hi"
    and "counted xs"
  shows "zs = xs"
proof -
  from assms(1) obtain pre x post where
    xs: "xs = pre @ x # post" and x: "\<not> sfree x" "sbase x = base" and
    ys: "ys = pre @ x\<lparr>sref := Suc (sref x)\<rparr> # post"
    by (auto simp: share_spec_def)
  from assms(2) obtain pre' x' post' where
    ys': "ys = pre' @ x' # post'" and x': "sbase x' = base" and
    zs: "zs = (if sref x' = 1 then coalesce (pre' @ release_seg x' # post')
               else pre' @ release_seg x' # post')"
    by (auto simp: free_spec_def)
  have t: "tiles lo ys hi" using share_spec_keeps(1)[OF assms(1,3)] .
  then have eq: "pre' = pre \<and> x' = x\<lparr>sref := Suc (sref x)\<rparr> \<and> post' = post"
    using ys' x' x unfolding ys by (intro tiles_split_unique) auto
  moreover have "sref x \<noteq> 0" using assms(4) x by (auto simp: counted_def xs)
  ultimately show ?thesis
    using eq x by (auto simp: zs xs release_seg_def)
qed

lemma coalesce_undo:
  assumes "coalesced (pre @ merge_seg a b # post)" and "sfree a" and "sfree b"
  shows "coalesce (pre @ a # b # post) = pre @ merge_seg a b # post"
  using assms
proof (induction pre)
  case Nil
  then show ?case by (simp add: coalesce_id)
next
  case (Cons p pre)
  then show ?case by (cases pre) (auto simp: merge_seg_def)
qed

lemma alloc_free_inverse:
  assumes "alloc_spec xs n base ys" and "free_spec ys base zs" and "0 < n"
    and "tiles lo xs hi" and "coalesced xs" and "counted xs"
  shows "zs = xs"
proof -
  from assms(1) obtain pre x post where
    xs: "xs = pre @ x # post" and x: "fits n x" "sbase x = base" and
    ys: "ys = pre @ carve n x @ post"
    by (auto simp: alloc_spec_def)
  define u where "u = x\<lparr>sext := n, sfree := False, sref := 1\<rparr>"
  define rest where "rest = (if sext x = n then []
      else [\<lparr>sbase = sbase x + n, sext = sext x - n, sfree = True, sref = 0\<rparr>])"
  have ys: "ys = pre @ u # rest @ post" by (simp add: ys carve_def u_def rest_def)
  from assms(2) obtain pre' x' post' where
    ys': "ys = pre' @ x' # post'" and x': "sbase x' = base" and
    zs: "zs = (if sref x' = 1 then coalesce (pre' @ release_seg x' # post')
               else pre' @ release_seg x' # post')"
    by (auto simp: free_spec_def)
  have "tiles lo ys hi" using alloc_spec_tiles[OF assms(1,3,4)] .
  then have eq: "pre' = pre \<and> x' = u \<and> post' = rest @ post"
    using ys' x' x(2) unfolding ys by (intro tiles_split_unique[of lo pre u "rest @ post" hi]) (auto simp: u_def)
  have x0: "sfree x" "sref x = 0" using x(1) assms(6) by (auto simp: fits_def xs)
  have zs': "zs = coalesce (pre @ release_seg u # rest @ post)"
    using eq by (simp add: zs u_def)
  show ?thesis
  proof (cases "sext x = n")
    case True
    then have "release_seg u = x" using x0 by (simp add: release_seg_def u_def)
    with True show ?thesis using assms(5) by (simp add: zs' rest_def xs coalesce_id)
  next
    case False
    let ?r = "\<lparr>sbase = sbase x + n, sext = sext x - n, sfree = True, sref = 0\<rparr> :: seg"
    have m: "merge_seg (release_seg u) ?r = x"
      using x0 x(1) by (simp add: merge_seg_def release_seg_def u_def fits_def)
    have "coalesce (pre @ release_seg u # ?r # post) = pre @ x # post"
      using coalesce_undo[of pre "release_seg u" ?r post] assms(5)
      by (simp add: m xs) (simp add: release_seg_def u_def)
    with False show ?thesis by (simp add: zs' rest_def xs)
  qed
qed

text \<open>Merged lists are short: at most one free segment beside each used one.\<close>

lemma coalesced_length:
  "coalesced xs \<Longrightarrow> length xs \<le> 2 * length (filter (Not \<circ> sfree) xs) + (if xs \<noteq> [] \<and> sfree (hd xs) then 1 else 0)"
  by (induction xs rule: coalesced.induct) auto

section \<open>The interface to the allocator's clients\<close>

text \<open>
  What \<^verbatim>\<open>do_fork\<close>, \<^verbatim>\<open>sys_execve\<close> and \<^verbatim>\<open>do_exit\<close> rely on: a pool whose
  state abstracts to segments, with the three operations that change it.
  A result 0 of \<open>alloc\<close> is NULL.
\<close>

locale segment_pool =
  fixes pool_inv :: "nat \<Rightarrow> nat \<Rightarrow> 's \<Rightarrow> bool"
    and pool_segs :: "'s \<Rightarrow> seg list"
    and alloc :: "'s \<Rightarrow> u16 \<Rightarrow> (u16 \<times> 's) kres"
    and share :: "'s \<Rightarrow> u16 \<Rightarrow> (u16 \<times> 's) kres"
    and release :: "'s \<Rightarrow> u16 \<Rightarrow> 's kres"
  assumes pool_wf: "pool_inv lo hi s \<Longrightarrow>
      tiles lo (pool_segs s) hi \<and> coalesced (pool_segs s) \<and> counted (pool_segs s)"
    and alloc_law: "pool_inv lo hi s \<Longrightarrow> n \<noteq> 0 \<Longrightarrow> alloc s n = Inr (r, s') \<Longrightarrow> r \<noteq> 0 \<Longrightarrow>
      alloc_spec (pool_segs s) (unat n) (unat r) (pool_segs s') \<and> pool_inv lo hi s'"
    and alloc_null: "pool_inv lo hi s \<Longrightarrow> n \<noteq> 0 \<Longrightarrow> alloc s n = Inr (0, s') \<Longrightarrow> s' = s"
    and share_law: "pool_inv lo hi s \<Longrightarrow> x \<in> set (pool_segs s) \<Longrightarrow> sbase x = unat b \<Longrightarrow>
      \<not> sfree x \<Longrightarrow> sref x < 255 \<Longrightarrow>
      \<exists>s'. share s b = Inr (b, s') \<and> share_spec (pool_segs s) (unat b) (pool_segs s') \<and>
           pool_inv lo hi s'"
    and release_law: "pool_inv lo hi s \<Longrightarrow> x \<in> set (pool_segs s) \<Longrightarrow> sbase x = unat b \<Longrightarrow>
      \<not> sfree x \<Longrightarrow>
      \<exists>s'. release s b = Inr s' \<and> free_spec (pool_segs s) (unat b) (pool_segs s') \<and>
           pool_inv lo hi s'"
begin

lemma alloc_new_area:
  assumes "pool_inv lo hi s" and "n \<noteq> 0" and "alloc s n = Inr (r, s')" and "r \<noteq> 0"
  shows "{unat r ..< unat r + unat n} \<inter> used_area (pool_segs s) = {}"
    and "used_area (pool_segs s') = used_area (pool_segs s) \<union> {unat r ..< unat r + unat n}"
    and "lo \<le> unat r \<and> unat r + unat n \<le> hi"
    and "free_total (pool_segs s) = free_total (pool_segs s') + unat n"
  using alloc_spec_area[of _ _ _ _ lo hi] alloc_spec_total(1) alloc_law[OF assms] pool_wf[OF assms(1)]
  by blast+

lemma alloc_release:
  assumes "pool_inv lo hi s" and "n \<noteq> 0" and "alloc s n = Inr (r, s')" and "r \<noteq> 0"
  shows "\<exists>s''. release s' r = Inr s'' \<and> pool_segs s'' = pool_segs s \<and> pool_inv lo hi s''"
proof -
  have a: "alloc_spec (pool_segs s) (unat n) (unat r) (pool_segs s')" and inv': "pool_inv lo hi s'"
    using alloc_law[OF assms] by auto
  from a obtain pre x post where "pool_segs s' = pre @ carve (unat n) x @ post" "sbase x = unat r"
    by (auto simp: alloc_spec_def)
  then have "x\<lparr>sext := unat n, sfree := False, sref := 1\<rparr> \<in> set (pool_segs s')"
    by (simp add: carve_def)
  from release_law[OF inv' this] \<open>sbase x = unat r\<close> obtain s'' where
    "release s' r = Inr s''" "free_spec (pool_segs s') (unat r) (pool_segs s'')" "pool_inv lo hi s''"
    by auto
  moreover have "pool_segs s'' = pool_segs s"
    using alloc_free_inverse[OF a calculation(2), of lo hi] pool_wf[OF assms(1)] assms(2)
    by (simp add: unat_gt_0)
  ultimately show ?thesis by blast
qed

lemma share_release:
  assumes "pool_inv lo hi s" and "x \<in> set (pool_segs s)" and "sbase x = unat b"
    and "\<not> sfree x" and "sref x < 255"
  shows "\<exists>s' s''. share s b = Inr (b, s') \<and> release s' b = Inr s'' \<and>
           pool_segs s'' = pool_segs s \<and> used_area (pool_segs s') = used_area (pool_segs s)"
proof -
  from share_law[OF assms] obtain s' where s': "share s b = Inr (b, s')"
    "share_spec (pool_segs s) (unat b) (pool_segs s')" "pool_inv lo hi s'"
    by blast
  from s'(2) obtain y where y: "y \<in> set (pool_segs s')" "sbase y = unat b" "\<not> sfree y"
    by (fastforce simp: share_spec_def)
  from release_law[OF s'(3) y] obtain s'' where s'': "release s' b = Inr s''"
    "free_spec (pool_segs s') (unat b) (pool_segs s'')"
    by blast
  have "pool_segs s'' = pool_segs s"
    using share_free_inverse[OF s'(2) s''(2)] pool_wf[OF assms(1)] by blast
  with s' s'' share_spec_keeps(4)[OF s'(2)] show ?thesis by blast
qed

end

end
