(* ===== verification/Malloc.thy ===== *)
theory Malloc
  imports Segments
begin

text \<open>
  The segment allocator of \<^verbatim>\<open>arch/i86/mm/malloc.c\<close>: user memory is a list of
  holes, threaded in memory order through the static array \<^verbatim>\<open>holes[]\<close>, each free
  or used by a counted number of owners. The array is a store from slot numbers
  to hole descriptors, a pointer is a slot number or NULL, and the loops that
  follow \<^verbatim>\<open>next\<close> are bounded by one more than the number of slots, which a list
  without cycles never exhausts (shown below from the invariant). Segment
  numbers and extents are 16-bit words, counted in paragraphs of 16 bytes.
  This is the kernel built without \<^verbatim>\<open>CONFIG_SWAP\<close>, the default configuration.
\<close>

section \<open>Data\<close>

type_synonym seg_t = u16
type_synonym segext_t = u16

abbreviation HOLE_USED :: u8 where "HOLE_USED \<equiv> 1"
abbreviation HOLE_FREE :: u8 where "HOLE_FREE \<equiv> 2"
abbreviation HOLE_SPARE :: u8 where "HOLE_SPARE \<equiv> 3"

abbreviation MAX_SEGMENTS :: nat where "MAX_SEGMENTS \<equiv> 8 + 15 * 2"

record malloc_hole =
  page_base :: seg_t
  extent :: segext_t
  hnext :: "nat option"
  refcount :: u8
  hflags :: u8

record malloc_head =
  holes :: "nat \<Rightarrow> malloc_hole"
  mh_size :: nat

text \<open>Linear address of \<^verbatim>\<open>seg:off\<close> on the 20-bit address bus.\<close>

definition lin :: "seg_t \<Rightarrow> u16 \<Rightarrow> nat" where
  "lin seg off = (unat seg * 16 + unat off) mod 2 ^ 20"

type_synonym memory = "nat \<Rightarrow> u8"

text \<open>\<^verbatim>\<open>rep movsb\<close>, upwards, \<open>n\<close> times, with the 16-bit index registers.\<close>

primrec fmemcpy :: "nat \<Rightarrow> memory \<Rightarrow> seg_t \<Rightarrow> u16 \<Rightarrow> seg_t \<Rightarrow> u16 \<Rightarrow> memory" where
  "fmemcpy 0 mem dseg dest sseg src = mem"
| "fmemcpy (Suc n) mem dseg dest sseg src =
     fmemcpy n (mem(lin dseg dest := mem (lin sseg src))) dseg (dest + 1) sseg (src + 1)"

section \<open>Operations on the hole list\<close>

definition upd_hole :: "nat \<Rightarrow> (malloc_hole \<Rightarrow> malloc_hole) \<Rightarrow> malloc_head \<Rightarrow> malloc_head" where
  "upd_hole i f mh = mh\<lparr>holes := (holes mh)(i := f (holes mh i))\<rparr>"

definition alloc_hole :: "malloc_head \<Rightarrow> nat kres" where
  "alloc_hole mh =
     (case find (\<lambda>i. hflags (holes mh i) = HOLE_SPARE) [0..<mh_size mh] of
        Some i \<Rightarrow> Inr i
      | None \<Rightarrow> Inl (Panic ''mm: too many holes''))"

definition split_hole :: "malloc_head \<Rightarrow> nat \<Rightarrow> segext_t \<Rightarrow> malloc_head kres" where
  "split_hole mh m len =
     (let spare = extent (holes mh m) - len in
      if spare = 0 then Inr mh
      else let mh = upd_hole m (extent_update (\<lambda>_. len)) mh in
        bindr (alloc_hole mh) (\<lambda>n.
          let mh = upd_hole n (\<lambda>h. h\<lparr>page_base := page_base (holes mh m) + len,
                                     extent := spare,
                                     hnext := hnext (holes mh m)\<rparr>) mh;
              mh = upd_hole m (hnext_update (\<lambda>_. Some n)) mh
          in Inr (upd_hole n (hflags_update (\<lambda>_. HOLE_FREE)) mh)))"

fun sweep_loop :: "nat \<Rightarrow> malloc_head \<Rightarrow> nat option \<Rightarrow> malloc_head kres" where
  "sweep_loop 0 mh p = Inl Stuck"
| "sweep_loop (Suc fuel) mh None = Inr mh"
| "sweep_loop (Suc fuel) mh (Some m) =
     (case hnext (holes mh m) of
        None \<Rightarrow> Inr mh
      | Some n \<Rightarrow>
          if hflags (holes mh m) = HOLE_FREE \<and> hflags (holes mh n) = HOLE_FREE \<and>
             page_base (holes mh m) + extent (holes mh m) = page_base (holes mh n)
          then let mh = upd_hole m (\<lambda>h. h\<lparr>extent := extent h + extent (holes mh n)\<rparr>) mh;
                   mh = upd_hole n (hflags_update (\<lambda>_. HOLE_SPARE)) mh;
                   mh = upd_hole m (hnext_update (\<lambda>_. hnext (holes mh n))) mh
               in sweep_loop fuel mh (Some m)
          else sweep_loop fuel mh (Some n))"

definition sweep_holes :: "malloc_head \<Rightarrow> malloc_head kres" where
  "sweep_holes mh = sweep_loop (Suc (mh_size mh)) mh (Some 0)"

fun best_fit_loop ::
  "nat \<Rightarrow> malloc_head \<Rightarrow> segext_t \<Rightarrow> nat option \<Rightarrow> nat option \<Rightarrow> nat option kres" where
  "best_fit_loop 0 mh sz p best = Inl Stuck"
| "best_fit_loop (Suc fuel) mh sz None best = Inr best"
| "best_fit_loop (Suc fuel) mh sz (Some m) best =
     best_fit_loop fuel mh sz (hnext (holes mh m))
       (if sz \<le> extent (holes mh m) \<and> hflags (holes mh m) = HOLE_FREE \<and>
           (case best of None \<Rightarrow> True
            | Some b \<Rightarrow> extent (holes mh m) < extent (holes mh b))
        then Some m else best)"

definition best_fit_hole :: "malloc_head \<Rightarrow> segext_t \<Rightarrow> nat option kres" where
  "best_fit_hole mh sz = best_fit_loop (Suc (mh_size mh)) mh sz (Some 0) None"

fun find_loop :: "nat \<Rightarrow> malloc_head \<Rightarrow> seg_t \<Rightarrow> nat option \<Rightarrow> nat option kres" where
  "find_loop 0 mh base p = Inl Stuck"
| "find_loop (Suc fuel) mh base None = Inr None"
| "find_loop (Suc fuel) mh base (Some m) =
     (if page_base (holes mh m) \<noteq> base then find_loop fuel mh base (hnext (holes mh m))
      else Inr (Some m))"

definition find_hole :: "malloc_head \<Rightarrow> seg_t \<Rightarrow> nat option kres" where
  "find_hole mh base = find_loop (Suc (mh_size mh)) mh base (Some 0)"

section \<open>The allocator's entry points\<close>

text \<open>The segment returned is 0, that is NULL, when no hole is large enough.\<close>

definition mm_alloc :: "malloc_head \<Rightarrow> segext_t \<Rightarrow> (seg_t \<times> malloc_head) kres" where
  "mm_alloc mh pages =
     bindr (best_fit_hole mh pages) (\<lambda>best. case best of
       None \<Rightarrow> Inr (0, mh)
     | Some m \<Rightarrow>
         bindr (split_hole mh m pages) (\<lambda>mh.
           let mh = upd_hole m (\<lambda>h. h\<lparr>hflags := HOLE_USED, refcount := 1\<rparr>) mh
           in Inr (page_base (holes mh m), mh)))"

definition mm_realloc :: "malloc_head \<Rightarrow> seg_t \<Rightarrow> (seg_t \<times> malloc_head) kres" where
  "mm_realloc mh base =
     bindr (find_hole mh base) (\<lambda>p.
     bindr (deref p) (\<lambda>m.
       let mh = upd_hole m (\<lambda>h. h\<lparr>refcount := refcount h + 1\<rparr>) mh
       in Inr (page_base (holes mh m), mh)))"

definition mm_free :: "malloc_head \<Rightarrow> seg_t \<Rightarrow> malloc_head kres" where
  "mm_free mh base =
     bindr (find_hole mh base) (\<lambda>p. case p of
       None \<Rightarrow> Inl (Panic ''mm corruption'')
     | Some m \<Rightarrow>
         if hflags (holes mh m) AND 3 \<noteq> HOLE_USED then Inl (Panic ''double free'')
         else let mh = upd_hole m (\<lambda>h. h\<lparr>refcount := refcount h - 1\<rparr>) mh
              in if refcount (holes mh m) = 0
                 then sweep_holes (upd_hole m (hflags_update (\<lambda>_. HOLE_FREE)) mh)
                 else Inr mh)"

definition mm_dup ::
  "malloc_head \<Rightarrow> memory \<Rightarrow> seg_t \<Rightarrow> (seg_t \<times> malloc_head \<times> memory) kres" where
  "mm_dup mh mem base =
     bindr (find_hole mh base) (\<lambda>p.
     bindr (deref p) (\<lambda>ob.
       if hflags (holes mh ob) \<noteq> HOLE_USED then Inl (Panic ''bad/swapped hole'')
       else bindr (best_fit_hole mh (extent (holes mh ob))) (\<lambda>best. case best of
         None \<Rightarrow> Inr (0, mh, mem)
       | Some m \<Rightarrow>
           bindr (split_hole mh m (extent (holes mh ob))) (\<lambda>mh.
             let mh = upd_hole m (\<lambda>h. h\<lparr>hflags := HOLE_USED, refcount := 1\<rparr>) mh;
                 i = push_bit 4 (extent (holes mh ob)) :: u16;
                 mem = fmemcpy (unat i) mem (page_base (holes mh m)) 0
                         (page_base (holes mh ob)) 0
             in Inr (page_base (holes mh m), mh, mem)))))"

fun usage_loop :: "nat \<Rightarrow> malloc_head \<Rightarrow> u8 \<Rightarrow> nat option \<Rightarrow> u16 \<Rightarrow> u16 kres" where
  "usage_loop 0 mh flag p ret = Inl Stuck"
| "usage_loop (Suc fuel) mh flag None ret = Inr ret"
| "usage_loop (Suc fuel) mh flag (Some m) ret =
     usage_loop fuel mh flag (hnext (holes mh m))
       (if hflags (holes mh m) = flag then ret + extent (holes mh m) else ret)"

definition mm_get_usage :: "malloc_head \<Rightarrow> bool \<Rightarrow> u16 kres" where
  "mm_get_usage mh used =
     bindr (usage_loop (Suc (mh_size mh)) mh (if used then HOLE_USED else HOLE_FREE) (Some 0) 0)
       (\<lambda>ret. Inr (drop_bit 6 ret))"

text \<open>
  Growing a hole in place. \<open>advanced_mm\<close> is \<^verbatim>\<open>CONFIG_ADVANCED_MM\<close>. The
  comparison \<^verbatim>\<open>next->flags == HOLE_SPARE\<close> of the source is an expression without
  effect, so an emptied neighbour leaves the list without becoming spare.
\<close>

definition mm_resize ::
  "bool \<Rightarrow> malloc_head \<Rightarrow> memory \<Rightarrow> nat \<Rightarrow> segext_t \<Rightarrow>
   (nat option \<times> malloc_head \<times> memory) kres" where
  "mm_resize advanced_mm mh mem m pages =
     (if pages \<le> extent (holes mh m) then Inr (Some m, mh, mem)
      else let ext = pages - extent (holes mh m) in
       bindr (deref (hnext (holes mh m))) (\<lambda>n.
         if hflags (holes mh n) = HOLE_FREE \<and> ext \<le> extent (holes mh n)
         then let mh = upd_hole m (\<lambda>h. h\<lparr>extent := extent h + ext\<rparr>) mh;
                  mh = upd_hole n (\<lambda>h. h\<lparr>extent := extent h - ext,
                                          page_base := page_base h + ext\<rparr>) mh
              in if extent (holes mh n) = 0
                 then Inr (Some m, upd_hole m (hnext_update (\<lambda>_. hnext (holes mh n))) mh, mem)
                 else Inr (Some m, mh, mem)
         else if advanced_mm then
           bindr (mm_alloc mh pages) (\<lambda>(base, mh).
             let mem = fmemcpy (unat (push_bit 4 (extent (holes mh m)) :: u16)) mem base 0
                         (page_base (holes mh m)) 0
             in bindr (find_hole mh base) (\<lambda>q.
                bindr (deref q) (\<lambda>n.
                  let mh = upd_hole n (refcount_update (\<lambda>_. refcount (holes mh m))) mh
                  in bindr (sweep_holes (upd_hole m (hflags_update (\<lambda>_. HOLE_FREE)) mh)) (\<lambda>mh.
                     Inr (Some n, mh, mem)))))
         else Inr (None, mh, mem)))"

definition mm_init :: "malloc_head \<Rightarrow> seg_t \<Rightarrow> seg_t \<Rightarrow> malloc_head" where
  "mm_init mh start fin =
     (let mh = mh\<lparr>holes := (\<lambda>i. if 1 \<le> i \<and> i < MAX_SEGMENTS
                             then (holes mh i)\<lparr>hflags := HOLE_SPARE\<rparr> else holes mh i)\<rparr>
      in upd_hole 0 (\<lambda>h. \<lparr>page_base = start, extent = fin - start, hnext = None,
                           refcount = 0, hflags = HOLE_FREE\<rparr>) mh)"

section \<open>Abstraction and invariant\<close>

definition nx :: "malloc_head \<Rightarrow> nat \<Rightarrow> nat option" where
  "nx mh i = hnext (holes mh i)"

definition seg_of :: "malloc_hole \<Rightarrow> seg" where
  "seg_of h = \<lparr>sbase = unat (page_base h), sext = unat (extent h),
               sfree = (hflags h = HOLE_FREE),
               sref = (if hflags h = HOLE_FREE then 0 else unat (refcount h))\<rparr>"

definition sg :: "malloc_head \<Rightarrow> nat \<Rightarrow> seg" where
  "sg mh i = seg_of (holes mh i)"

definition mm_chain :: "malloc_head \<Rightarrow> nat list" where
  "mm_chain mh = chase (nx mh) (mh_size mh) (Some 0)"

definition segs :: "malloc_head \<Rightarrow> seg list" where
  "segs mh = map (sg mh) (mm_chain mh)"

text \<open>
  The invariant: the list starts in slot 0, ends, and stays inside the array;
  listed holes are free or used and tile the memory from \<open>lo\<close> to \<open>hi\<close>; no two
  free holes are neighbours; reference counts are positive exactly on used
  holes. Every other slot is spare (\<open>mm_tidy\<close>, which growing a hole can break).
\<close>

definition mm_inv :: "nat \<Rightarrow> nat \<Rightarrow> malloc_head \<Rightarrow> bool" where
  "mm_inv lo hi mh \<longleftrightarrow>
     chain (nx mh) (Some 0) (mm_chain mh) \<and>
     (\<forall>i\<in>set (mm_chain mh). i < mh_size mh \<and>
        (hflags (holes mh i) = HOLE_FREE \<or> hflags (holes mh i) = HOLE_USED)) \<and>
     tiles lo (segs mh) hi \<and> coalesced (segs mh) \<and> counted (segs mh) \<and>
     0 < lo \<and> hi < 2 ^ 16"

definition mm_tidy :: "malloc_head \<Rightarrow> bool" where
  "mm_tidy mh \<longleftrightarrow>
     (\<forall>i<mh_size mh. i \<notin> set (mm_chain mh) \<longrightarrow> hflags (holes mh i) = HOLE_SPARE)"

lemma upd_hole_simps [simp]:
  "mh_size (upd_hole i f mh) = mh_size mh"
  "holes (upd_hole i f mh) = (holes mh)(i := f (holes mh i))"
  by (simp_all add: upd_hole_def)

lemma nx_upd_hole [simp]:
  "nx (upd_hole i f mh) = (nx mh)(i := hnext (f (holes mh i)))"
  by (auto simp: nx_def)

lemma sg_upd_hole [simp]:
  "sg (upd_hole i f mh) = (sg mh)(i := seg_of (f (holes mh i)))"
  by (auto simp: sg_def)

lemma map_fun_upd_notin [simp]: "i \<notin> set is \<Longrightarrow> map (f(i := v)) is = map f is"
  by (induction "is") auto

lemma chain_nx_Some:
  "chain (nx mh) (Some m) is \<longleftrightarrow> (\<exists>js. is = m # js \<and> chain (nx mh) (hnext (holes mh m)) js)"
  unfolding chain_Some by (simp only: nx_def[of mh m])

text \<open>From a chain of slots inside the array to the computed one.\<close>

lemma mm_chainI:
  assumes "chain (nx mh) (Some 0) is" and "\<And>i. i \<in> set is \<Longrightarrow> i < mh_size mh"
  shows "mm_chain mh = is"
  unfolding mm_chain_def
  by (rule chase_chain[OF assms(1)])
    (rule distinct_bounded_length[OF chain_distinct[OF assms(1)] assms(2)])

lemma mm_inv_length:
  assumes "mm_inv lo hi mh"
  shows "length (mm_chain mh) \<le> mh_size mh"
  using assms by (auto simp: mm_inv_def intro: distinct_bounded_length chain_distinct)

lemma mm_invI:
  assumes "chain (nx mh) (Some 0) is"
    and "\<And>i. i \<in> set is \<Longrightarrow> i < mh_size mh \<and>
           (hflags (holes mh i) = HOLE_FREE \<or> hflags (holes mh i) = HOLE_USED)"
    and "tiles lo (map (sg mh) is) hi" and "coalesced (map (sg mh) is)"
    and "counted (map (sg mh) is)" and "0 < lo" and "hi < 2 ^ 16"
  shows "mm_inv lo hi mh" and "segs mh = map (sg mh) is" and "mm_chain mh = is"
proof -
  show c: "mm_chain mh = is" using assms(1,2) by (intro mm_chainI) auto
  then show s: "segs mh = map (sg mh) is" by (simp add: segs_def)
  show "mm_inv lo hi mh" using assms by (simp add: mm_inv_def c s)
qed

section \<open>The loops walk the chain\<close>

definition bf_step :: "malloc_head \<Rightarrow> segext_t \<Rightarrow> nat \<Rightarrow> nat option \<Rightarrow> nat option" where
  "bf_step mh sz m best =
     (if sz \<le> extent (holes mh m) \<and> hflags (holes mh m) = HOLE_FREE \<and>
         (case best of None \<Rightarrow> True | Some b \<Rightarrow> extent (holes mh m) < extent (holes mh b))
      then Some m else best)"

lemma best_fit_loop_chain:
  "chain (nx mh) p is \<Longrightarrow> length is < fuel \<Longrightarrow>
   best_fit_loop fuel mh sz p best = Inr (fold (bf_step mh sz) is best)"
proof (induction fuel mh sz p best arbitrary: "is" rule: best_fit_loop.induct)
  case (3 fuel mh sz m best)
  then obtain js where "is = m # js" "chain (nx mh) (hnext (holes mh m)) js"
    by (auto simp: chain_nx_Some)
  with 3 show ?case by (simp add: bf_step_def)
qed auto

lemma find_loop_chain:
  "chain (nx mh) p is \<Longrightarrow> length is < fuel \<Longrightarrow>
   find_loop fuel mh base p = Inr (find (\<lambda>i. page_base (holes mh i) = base) is)"
proof (induction fuel mh base p arbitrary: "is" rule: find_loop.induct)
  case (3 fuel mh base m)
  then obtain js where "is = m # js" "chain (nx mh) (hnext (holes mh m)) js"
    by (auto simp: chain_nx_Some)
  with 3 show ?case by auto
qed auto

lemma usage_loop_chain:
  "chain (nx mh) p is \<Longrightarrow> length is < fuel \<Longrightarrow>
   usage_loop fuel mh flag p ret =
     Inr (ret + sum_list (map (\<lambda>i. extent (holes mh i)) (filter (\<lambda>i. hflags (holes mh i) = flag) is)))"
proof (induction fuel mh flag p ret arbitrary: "is" rule: usage_loop.induct)
  case (3 fuel mh flag m ret)
  then obtain js where "is = m # js" "chain (nx mh) (hnext (holes mh m)) js"
    by (auto simp: chain_nx_Some)
  with 3 show ?case by (auto simp: add.assoc)
qed auto

lemma find_hole_inv:
  assumes "mm_inv lo hi mh"
  shows "find_hole mh base = Inr (find (\<lambda>i. page_base (holes mh i) = base) (mm_chain mh))"
  unfolding find_hole_def
  by (rule find_loop_chain) (use assms mm_inv_length[OF assms] in \<open>auto simp: mm_inv_def\<close>)

lemma best_fit_hole_inv:
  assumes "mm_inv lo hi mh"
  shows "best_fit_hole mh sz = Inr (fold (bf_step mh sz) (mm_chain mh) None)"
  unfolding best_fit_hole_def
  by (rule best_fit_loop_chain) (use assms mm_inv_length[OF assms] in \<open>auto simp: mm_inv_def\<close>)

text \<open>The accumulator of the best-fit loop, read off the segments.\<close>

lemma fits_sg:
  "fits (unat sz) (sg mh i) \<longleftrightarrow> sz \<le> extent (holes mh i) \<and> hflags (holes mh i) = HOLE_FREE"
  by (auto simp: fits_def sg_def seg_of_def word_le_nat_alt)

lemma bf_step_None:
  "bf_step mh sz j None = (if fits (unat sz) (sg mh j) then Some j else None)"
  by (auto simp: bf_step_def fits_sg)

lemma bf_step_Some:
  "bf_step mh sz j (Some m) =
     (if fits (unat sz) (sg mh j) \<and> sext (sg mh j) < sext (sg mh m) then Some j else Some m)"
  by (auto simp: bf_step_def fits_sg word_less_nat_alt) (auto simp: sg_def seg_of_def)

definition is_best :: "malloc_head \<Rightarrow> segext_t \<Rightarrow> nat list \<Rightarrow> nat \<Rightarrow> bool" where
  "is_best mh sz is m \<longleftrightarrow>
     (\<exists>xs ys. is = xs @ m # ys \<and> fits (unat sz) (sg mh m) \<and>
        (\<forall>i\<in>set xs. fits (unat sz) (sg mh i) \<longrightarrow> sext (sg mh m) < sext (sg mh i)) \<and>
        (\<forall>i\<in>set ys. fits (unat sz) (sg mh i) \<longrightarrow> sext (sg mh m) \<le> sext (sg mh i)))"

lemma is_best_new:
  assumes "fits (unat sz) (sg mh j)"
    and "\<And>i. i \<in> set js \<Longrightarrow> fits (unat sz) (sg mh i) \<Longrightarrow> sext (sg mh j) < sext (sg mh i)"
  shows "is_best mh sz (js @ [j]) j"
  using assms unfolding is_best_def by (intro exI[of _ js] exI[of _ "[]"]) auto

lemma is_best_keep:
  assumes "is_best mh sz js m" and "fits (unat sz) (sg mh j) \<Longrightarrow> sext (sg mh m) \<le> sext (sg mh j)"
  shows "is_best mh sz (js @ [j]) m"
  using assms unfolding is_best_def by fastforce

lemma is_best_least:
  "is_best mh sz js m \<Longrightarrow> i \<in> set js \<Longrightarrow> fits (unat sz) (sg mh i) \<Longrightarrow> sext (sg mh m) \<le> sext (sg mh i)"
  unfolding is_best_def by (fastforce intro: less_imp_le)

lemma bf_fold_spec:
  "case fold (bf_step mh sz) is None of
     None \<Rightarrow> \<forall>i\<in>set is. \<not> fits (unat sz) (sg mh i)
   | Some m \<Rightarrow> is_best mh sz is m"
proof (induction "is" rule: rev_induct)
  case (snoc j js)
  show ?case
  proof (cases "fold (bf_step mh sz) js None")
    case None
    with snoc show ?thesis by (auto simp: bf_step_None intro!: is_best_new)
  next
    case (Some m)
    with snoc have m: "is_best mh sz js m" by simp
    show ?thesis
    proof (cases "fits (unat sz) (sg mh j) \<and> sext (sg mh j) < sext (sg mh m)")
      case True
      then have "is_best mh sz (js @ [j]) j"
        using is_best_least[OF m] by (intro is_best_new) fastforce+
      with True Some show ?thesis by (simp add: bf_step_Some)
    next
      case False
      then have "is_best mh sz (js @ [j]) m" by (intro is_best_keep[OF m]) auto
      with False Some show ?thesis by (auto simp: bf_step_Some)
    qed
  qed
qed simp

section \<open>Merging free holes\<close>

definition swept ::
  "malloc_head \<Rightarrow> nat list \<Rightarrow> nat \<Rightarrow> nat list \<Rightarrow> malloc_head \<Rightarrow> nat list \<Rightarrow> bool" where
  "swept mh xs m ys mh' zs \<longleftrightarrow>
     chain (nx mh') (Some 0) (xs @ m # zs) \<and> set zs \<subseteq> set ys \<and>
     map (sg mh') (m # zs) = coalesce (map (sg mh) (m # ys)) \<and>
     mh_size mh' = mh_size mh \<and>
     (\<forall>i. i \<notin> set (m # ys) \<longrightarrow> holes mh' i = holes mh i) \<and>
     (\<forall>i\<in>set (m # zs). hflags (holes mh' i) = hflags (holes mh i)) \<and>
     (\<forall>i\<in>set ys - set zs. hflags (holes mh' i) = HOLE_SPARE)"

lemma sg_simps [simp]:
  "sbase (sg mh i) = unat (page_base (holes mh i))"
  "sext (sg mh i) = unat (extent (holes mh i))"
  "sfree (sg mh i) \<longleftrightarrow> hflags (holes mh i) = HOLE_FREE"
  by (simp_all add: sg_def seg_of_def)

lemma u16_add_unat:
  "unat a + unat b < 2 ^ 16 \<Longrightarrow> unat (a + b :: u16) = unat a + unat b"
  by (simp add: unat_word_ariths)

lemma adjacent_words:
  assumes "tiles lo (sg mh m # sg mh n # map (sg mh) ys) hi" and "hi < 2 ^ 16"
  shows "page_base (holes mh m) + extent (holes mh m) = page_base (holes mh n)"
    and "unat (extent (holes mh m) + extent (holes mh n)) =
         unat (extent (holes mh m)) + unat (extent (holes mh n))"
proof -
  from assms(1) have b: "unat (page_base (holes mh n)) =
      unat (page_base (holes mh m)) + unat (extent (holes mh m))"
    and t: "tiles (unat (page_base (holes mh n)) + unat (extent (holes mh n))) (map (sg mh) ys) hi"
    by auto
  have le: "unat (page_base (holes mh n)) + unat (extent (holes mh n)) < 2 ^ 16"
    using tiles_le[OF t] assms(2) by simp
  show "page_base (holes mh m) + extent (holes mh m) = page_base (holes mh n)"
    using b le by (intro word_unat_eq_iff[THEN iffD2]) (simp add: u16_add_unat)
  show "unat (extent (holes mh m) + extent (holes mh n)) =
         unat (extent (holes mh m)) + unat (extent (holes mh n))"
    using b le by (intro u16_add_unat) simp
qed

lemma swept_merge:
  assumes sw: "swept mh3 xs m ys mh' zs"
    and m3: "sg mh3 m = merge_seg (sg mh m) (sg mh n)"
    and ys3: "map (sg mh3) ys = map (sg mh) ys"
    and h3: "\<And>i. i \<noteq> m \<Longrightarrow> i \<noteq> n \<Longrightarrow> holes mh3 i = holes mh i"
    and f3: "hflags (holes mh3 m) = hflags (holes mh m)" "hflags (holes mh3 n) = HOLE_SPARE"
    and sz: "mh_size mh3 = mh_size mh"
    and dist: "distinct (m # n # ys)"
    and free: "hflags (holes mh m) = HOLE_FREE \<and> hflags (holes mh n) = HOLE_FREE"
  shows "swept mh xs m (n # ys) mh' zs"
  unfolding swept_def
proof (intro conjI ballI allI impI)
  note sw' = sw[unfolded swept_def]
  show "chain (nx mh') (Some 0) (xs @ m # zs)" using sw' by blast
  show sub: "set zs \<subseteq> set (n # ys)" using sw' by auto
  show "map (sg mh') (m # zs) = coalesce (map (sg mh) (m # n # ys))"
    using sw' free by (simp add: m3 ys3)
  show "mh_size mh' = mh_size mh" using sw' sz by simp
  fix i
  show "holes mh' i = holes mh i" if "i \<notin> set (m # n # ys)"
    using that sw' h3[of i] by simp
  show "hflags (holes mh' i) = hflags (holes mh i)" if "i \<in> set (m # zs)"
  proof -
    from that have "hflags (holes mh' i) = hflags (holes mh3 i)" using sw' by blast
    moreover have "i \<noteq> n" using that sw' dist by auto
    ultimately show ?thesis using f3 h3[of i] by (cases "i = m") auto
  qed
  show "hflags (holes mh' i) = HOLE_SPARE" if "i \<in> set (n # ys) - set zs"
  proof (cases "i = n")
    case True
    then have "holes mh' i = holes mh3 i" using sw' dist by auto
    with True f3 show ?thesis by simp
  next
    case False
    with that sw' show ?thesis by auto
  qed
qed

lemma sweep_loop_chain:
  assumes "chain (nx mh) (Some 0) (xs @ m # ys)" and "length ys < fuel"
    and "tiles lo (map (sg mh) (m # ys)) hi" and "hi < 2 ^ 16"
  shows "\<exists>mh' zs. sweep_loop fuel mh (Some m) = Inr mh' \<and> swept mh xs m ys mh' zs"
  using assms
proof (induction fuel arbitrary: mh xs m ys lo)
  case 0
  then show ?case by simp
next
  case (Suc fuel)
  have last: "hnext (holes mh m) = (case ys of [] \<Rightarrow> None | n # _ \<Rightarrow> Some n)"
    using chain_append[OF Suc.prems(1)] by (cases ys) (auto simp: nx_def)
  show ?case
  proof (cases ys)
    case Nil
    with last Suc.prems(1) show ?thesis by (auto simp: swept_def)
  next
    case (Cons n ys')
    have dist: "distinct (xs @ m # n # ys')"
      using chain_distinct[OF Suc.prems(1)] by (simp add: Cons)
    have adj: "page_base (holes mh m) + extent (holes mh m) = page_base (holes mh n)"
      "unat (extent (holes mh m) + extent (holes mh n)) =
       unat (extent (holes mh m)) + unat (extent (holes mh n))"
      using adjacent_words[of lo mh m n ys' hi] Suc.prems(3,4) by (simp_all add: Cons)
    show ?thesis
    proof (cases "hflags (holes mh m) = HOLE_FREE \<and> hflags (holes mh n) = HOLE_FREE")
      case True
      define mh1 where "mh1 = upd_hole m (\<lambda>h. h\<lparr>extent := extent h + extent (holes mh n)\<rparr>) mh"
      define mh2 where "mh2 = upd_hole n (hflags_update (\<lambda>_. HOLE_SPARE)) mh1"
      define mh3 where "mh3 = upd_hole m (hnext_update (\<lambda>_. hnext (holes mh2 n))) mh2"
      note defs = mh1_def mh2_def mh3_def
      have run: "sweep_loop (Suc fuel) mh (Some m) = sweep_loop fuel mh3 (Some m)"
        using True adj last by (simp add: Cons Let_def defs)
      have nx3: "nx mh3 = (nx mh)(m := nx mh n)"
        using dist by (auto simp: nx_def defs)
      have ch3: "chain (nx mh3) (Some 0) (xs @ m # ys')"
        using chain_drop_after[of "nx mh" "Some 0" xs m n ys'] Suc.prems(1) by (simp add: Cons nx3)
      have m3: "sg mh3 m = merge_seg (sg mh m) (sg mh n)"
        using dist True adj(2) by (auto simp: defs merge_seg_def) (simp add: sg_def seg_of_def)
      have ys3: "map (sg mh3) ys' = map (sg mh) ys'"
        using dist by (auto simp: defs sg_def)
      have t3: "tiles lo (map (sg mh3) (m # ys')) hi"
        using Suc.prems(3) by (simp add: Cons m3 ys3 merge_seg_def add.assoc)
      from Suc.IH[OF ch3 _ t3 Suc.prems(4)] Suc.prems(2) obtain mh' zs where
        r: "sweep_loop fuel mh3 (Some m) = Inr mh'" and sw: "swept mh3 xs m ys' mh' zs"
        by (auto simp: Cons)
      have h3: "holes mh3 i = holes mh i" if "i \<noteq> m" "i \<noteq> n" for i
        using that by (simp add: defs)
      have sz3: "mh_size mh3 = mh_size mh" by (simp add: defs)
      have f3: "hflags (holes mh3 m) = hflags (holes mh m)" "hflags (holes mh3 n) = HOLE_SPARE"
        using dist by (simp_all add: defs)
      have "swept mh xs m ys mh' zs"
        unfolding Cons by (rule swept_merge[OF sw m3 ys3 h3 f3 sz3]) (use dist True in simp_all)
      with run r show ?thesis by auto
    next
      case False
      have run: "sweep_loop (Suc fuel) mh (Some m) = sweep_loop fuel mh (Some n)"
        using False last by (auto simp: Cons)
      have t': "tiles (lo + sext (sg mh m)) (map (sg mh) (n # ys')) hi"
        using Suc.prems(3) by (simp add: Cons)
      from Suc.IH[of mh "xs @ [m]" n ys', OF _ _ t' Suc.prems(4)] Suc.prems(1,2)
      obtain mh' zs where r: "sweep_loop fuel mh (Some n) = Inr mh'"
        and sw: "swept mh (xs @ [m]) n ys' mh' zs"
        by (auto simp: Cons)
      have "sg mh' m = sg mh m" using sw dist by (simp add: swept_def sg_def)
      then have "swept mh xs m ys mh' (n # zs)"
        using sw dist False unfolding swept_def Cons by auto
      with run r show ?thesis by auto
    qed
  qed
qed

lemma sweep_holes_ok:
  assumes "chain (nx mh) (Some 0) cs"
    and "\<And>i. i \<in> set cs \<Longrightarrow> i < mh_size mh \<and>
           (hflags (holes mh i) = HOLE_FREE \<or> hflags (holes mh i) = HOLE_USED)"
    and "tiles lo (map (sg mh) cs) hi" and "counted (map (sg mh) cs)"
    and "0 < lo" and "hi < 2 ^ 16"
  obtains mh' where "sweep_holes mh = Inr mh'" and "mm_inv lo hi mh'"
    and "segs mh' = coalesce (map (sg mh) cs)" and "mh_size mh' = mh_size mh"
    and "mm_tidy mh \<Longrightarrow> mm_tidy mh'"
proof -
  from assms(1) obtain ys where cs: "cs = 0 # ys" by (auto simp: chain_Some)
  have c: "mm_chain mh = cs" using assms(1,2) by (intro mm_chainI) auto
  have "length cs \<le> mh_size mh"
    using assms(1,2) by (auto intro: distinct_bounded_length chain_distinct)
  then obtain mh' zs where r: "sweep_holes mh = Inr mh'" and sw: "swept mh [] 0 ys mh' zs"
    using sweep_loop_chain[of mh "[]" 0 ys "Suc (mh_size mh)" lo hi] assms(1,3,6)
    by (auto simp: cs sweep_holes_def)
  note sw' = sw[unfolded swept_def]
  have s: "map (sg mh') (0 # zs) = coalesce (map (sg mh) cs)" using sw' by (simp add: cs)
  have sub: "set (0 # zs) \<subseteq> set cs" using sw' by (auto simp: cs)
  have fl: "\<And>i. i \<in> set (0 # zs) \<Longrightarrow> hflags (holes mh' i) = hflags (holes mh i)"
    using sw' by blast
  have ch: "chain (nx mh') (Some 0) (0 # zs)" and sz: "mh_size mh' = mh_size mh"
    using sw' by simp_all
  have ok: "i < mh_size mh' \<and> (hflags (holes mh' i) = HOLE_FREE \<or> hflags (holes mh' i) = HOLE_USED)"
    if "i \<in> set (0 # zs)" for i
    using assms(2)[of i] fl[OF that] sub that sz by auto
  have abs: "tiles lo (map (sg mh') (0 # zs)) hi" "coalesced (map (sg mh') (0 # zs))"
    "counted (map (sg mh') (0 # zs))"
    unfolding s by (rule tiles_coalesce[OF assms(3)] coalesced_coalesce counted_coalesce[OF assms(4)])+
  have inv: "mm_inv lo hi mh'" "segs mh' = coalesce (map (sg mh) cs)" "mm_chain mh' = 0 # zs"
    using mm_invI[OF ch ok abs assms(5,6)] s by simp_all
  have "mm_tidy mh'" if "mm_tidy mh"
    using that sw' unfolding mm_tidy_def c inv(3) cs by (metis DiffI set_ConsD list.set_intros)
  with that r inv(1,2) sz show ?thesis by blast
qed

section \<open>Taking a hole\<close>

definition use_hole :: "nat \<Rightarrow> malloc_head \<Rightarrow> malloc_head" where
  "use_hole m = upd_hole m (\<lambda>h. h\<lparr>hflags := HOLE_USED, refcount := 1\<rparr>)"

lemma alloc_hole_Inr:
  assumes "alloc_hole mh = Inr k"
  shows "k < mh_size mh" and "hflags (holes mh k) = HOLE_SPARE"
  using assms by (auto simp: alloc_hole_def find_Some_iff split: option.splits)

lemma alloc_hole_upd:
  "(\<And>h. hflags (f h) = hflags h) \<Longrightarrow> alloc_hole (upd_hole i f mh) = alloc_hole mh"
proof -
  assume "\<And>h. hflags (f h) = hflags h"
  then have "(\<lambda>j. hflags (holes (upd_hole i f mh) j) = HOLE_SPARE) =
      (\<lambda>j. hflags (holes mh j) = HOLE_SPARE)"
    by auto
  then show ?thesis by (simp add: alloc_hole_def)
qed

lemma alloc_hole_cases:
  "alloc_hole mh = Inl (Panic ''mm: too many holes'') \<or> (\<exists>k. alloc_hole mh = Inr k)"
  by (auto simp: alloc_hole_def split: option.splits)

lemma split_exact: "extent (holes mh m) = n \<Longrightarrow> split_hole mh m n = Inr mh"
  by (simp add: split_hole_def)

lemma split_panic:
  "extent (holes mh m) \<noteq> n \<Longrightarrow> alloc_hole mh = Inl e \<Longrightarrow> split_hole mh m n = Inl e"
  by (simp add: split_hole_def alloc_hole_upd)

text \<open>The state after a hole is split and its first part marked used.\<close>

lemma split_use:
  assumes "extent (holes mh m) \<noteq> n" and "alloc_hole mh = Inr k" and "k \<noteq> m"
  obtains mh' where "split_hole mh m n = Inr mh'"
    and "mh_size (use_hole m mh') = mh_size mh"
    and "nx (use_hole m mh') = (nx mh)(k := nx mh m, m := Some k)"
    and "holes (use_hole m mh') m =
           (holes mh m)\<lparr>extent := n, hnext := Some k, hflags := HOLE_USED, refcount := 1\<rparr>"
    and "holes (use_hole m mh') k =
           (holes mh k)\<lparr>page_base := page_base (holes mh m) + n,
                        extent := extent (holes mh m) - n, hnext := hnext (holes mh m),
                        hflags := HOLE_FREE\<rparr>"
    and "\<And>i. i \<noteq> m \<Longrightarrow> i \<noteq> k \<Longrightarrow> holes (use_hole m mh') i = holes mh i"
proof -
  have "\<exists>mh'. split_hole mh m n = Inr mh' \<and> mh_size mh' = mh_size mh \<and>
    holes mh' = (holes mh)
      (m := (holes mh m)\<lparr>extent := n, hnext := Some k\<rparr>,
       k := (holes mh k)\<lparr>page_base := page_base (holes mh m) + n,
              extent := extent (holes mh m) - n, hnext := hnext (holes mh m),
              hflags := HOLE_FREE\<rparr>)"
    using assms by (auto simp: split_hole_def alloc_hole_upd Let_def fun_eq_iff)
  then obtain mh' where mh': "split_hole mh m n = Inr mh'" "mh_size mh' = mh_size mh"
    "holes mh' = (holes mh)
      (m := (holes mh m)\<lparr>extent := n, hnext := Some k\<rparr>,
       k := (holes mh k)\<lparr>page_base := page_base (holes mh m) + n,
              extent := extent (holes mh m) - n, hnext := hnext (holes mh m),
              hflags := HOLE_FREE\<rparr>)"
    by blast
  show ?thesis
    by (rule that[OF mh'(1)]) (use assms(3) in \<open>auto simp: use_hole_def mh'(2,3) nx_def fun_eq_iff\<close>)
qed

lemma u16_sub_unat: "b \<le> a \<Longrightarrow> unat (a - b :: u16) = unat a - unat b"
  by (simp add: unat_sub)

lemma split_chain_flags:
  assumes "mm_inv lo hi mh" and "mm_chain mh = xs @ m # ys"
  shows "chain (nx mh) (Some 0) (xs @ m # ys)" and "distinct (xs @ m # ys)"
    and "\<And>i. i \<in> set (xs @ m # ys) \<Longrightarrow> i < mh_size mh \<and>
           (hflags (holes mh i) = HOLE_FREE \<or> hflags (holes mh i) = HOLE_USED)"
    and "segs mh = map (sg mh) xs @ sg mh m # map (sg mh) ys"
    and "tiles lo (map (sg mh) xs @ sg mh m # map (sg mh) ys) hi"
    and "coalesced (map (sg mh) xs @ sg mh m # map (sg mh) ys)"
    and "counted (map (sg mh) xs @ sg mh m # map (sg mh) ys)" and "0 < lo" and "hi < 2 ^ 16"
proof -
  show ch: "chain (nx mh) (Some 0) (xs @ m # ys)" using assms by (simp add: mm_inv_def)
  then show "distinct (xs @ m # ys)" by (rule chain_distinct)
  show "\<And>i. i \<in> set (xs @ m # ys) \<Longrightarrow> i < mh_size mh \<and>
           (hflags (holes mh i) = HOLE_FREE \<or> hflags (holes mh i) = HOLE_USED)"
    using assms unfolding mm_inv_def by metis
  show s: "segs mh = map (sg mh) xs @ sg mh m # map (sg mh) ys"
    by (simp add: segs_def assms(2))
  show "tiles lo (map (sg mh) xs @ sg mh m # map (sg mh) ys) hi"
    "coalesced (map (sg mh) xs @ sg mh m # map (sg mh) ys)"
    "counted (map (sg mh) xs @ sg mh m # map (sg mh) ys)" "0 < lo" "hi < 2 ^ 16"
    using assms(1) by (simp_all add: mm_inv_def s)
qed

text \<open>
  A free hole that is large enough can be taken unless it has to be split and
  no descriptor is spare; then the segments are those of the specification.
\<close>

lemma take_hole_ok:
  assumes inv: "mm_inv lo hi mh" and c: "mm_chain mh = xs @ m # ys"
    and fit: "fits (unat n) (sg mh m)" and n: "n \<noteq> 0"
    and spare: "extent (holes mh m) = n \<or> alloc_hole mh = Inr k"
  obtains mh' where "split_hole mh m n = Inr mh'" and "mm_inv lo hi (use_hole m mh')"
    and "segs (use_hole m mh') = map (sg mh) xs @ carve (unat n) (sg mh m) @ map (sg mh) ys"
    and "page_base (holes (use_hole m mh') m) = page_base (holes mh m)"
    and "extent (holes (use_hole m mh') m) = n"
    and "\<And>i. i \<in> set (xs @ ys) \<Longrightarrow> holes (use_hole m mh') i = holes mh i"
    and "mh_size (use_hole m mh') = mh_size mh" and "mm_tidy mh \<Longrightarrow> mm_tidy (use_hole m mh')"
proof -
  note f = split_chain_flags[OF inv c]
  from fit have le: "n \<le> extent (holes mh m)" and free: "hflags (holes mh m) = HOLE_FREE"
    by (simp_all add: fits_sg)
  have n0: "0 < unat n" using n by (simp add: unat_gt_0)
  have le': "unat n \<le> sext (sg mh m)" and free': "sfree (sg mh m)"
    using fit by (simp_all add: fits_def)
  note abs = tiles_carve[OF f(5) n0 le'] coalesced_carve[OF f(6) free', of "unat n"]
    counted_carve[OF f(7), of "unat n"] f(8,9)
  show ?thesis
  proof (cases "extent (holes mh m) = n")
    case True
    have s: "map (sg (use_hole m mh)) (xs @ m # ys) =
        map (sg mh) xs @ carve (unat n) (sg mh m) @ map (sg mh) ys"
      using f(2) True by (auto simp: use_hole_def carve_def) (simp add: sg_def seg_of_def)
    have ch: "chain (nx (use_hole m mh)) (Some 0) (xs @ m # ys)"
      using f(1) by (simp add: use_hole_def nx_def[symmetric])
    have ok: "i < mh_size (use_hole m mh) \<and> (hflags (holes (use_hole m mh) i) = HOLE_FREE \<or>
        hflags (holes (use_hole m mh) i) = HOLE_USED)" if "i \<in> set (xs @ m # ys)" for i
      using f(3)[OF that] by (simp add: use_hole_def)
    note inv' = mm_invI[OF ch ok, unfolded s, OF _ abs, simplified]
    show ?thesis
      by (rule that[OF split_exact[OF True] inv'(1) inv'(2)])
        (use f(2) True c inv'(3) in \<open>auto simp: use_hole_def mm_tidy_def\<close>)
  next
    case False
    with spare have k: "alloc_hole mh = Inr k" by simp
    have kc: "k \<notin> set (xs @ m # ys)" using alloc_hole_Inr[OF k] f(3)[of k] by auto
    then have km: "k \<noteq> m" by auto
    from split_use[OF False k km] obtain mh' where
      run: "split_hole mh m n = Inr mh'" and sz: "mh_size (use_hole m mh') = mh_size mh"
      and nxu: "nx (use_hole m mh') = (nx mh)(k := nx mh m, m := Some k)"
      and hm: "holes (use_hole m mh') m =
           (holes mh m)\<lparr>extent := n, hnext := Some k, hflags := HOLE_USED, refcount := 1\<rparr>"
      and hk: "holes (use_hole m mh') k =
           (holes mh k)\<lparr>page_base := page_base (holes mh m) + n,
                        extent := extent (holes mh m) - n, hnext := hnext (holes mh m),
                        hflags := HOLE_FREE\<rparr>"
      and ho: "\<And>i. i \<noteq> m \<Longrightarrow> i \<noteq> k \<Longrightarrow> holes (use_hole m mh') i = holes mh i"
      by blast
    let ?u = "use_hole m mh'"
    have ch: "chain (nx ?u) (Some 0) (xs @ m # k # ys)"
      unfolding nxu by (rule chain_insert_after[OF f(1) kc])
    have bnd: "unat (page_base (holes mh m)) + unat (extent (holes mh m)) < 2 ^ 16"
      using tiles_mem[OF f(5), of "sg mh m"] f(9) by simp
    have "unat (page_base (holes mh m) + n) = unat (page_base (holes mh m)) + unat n"
      using bnd le by (intro u16_add_unat) (simp add: word_le_nat_alt)
    then have sk: "sg ?u k = \<lparr>sbase = sbase (sg mh m) + unat n,
        sext = sext (sg mh m) - unat n, sfree = True, sref = 0\<rparr>"
      using le by (simp add: sg_def seg_of_def hk u16_sub_unat)
    have sm: "sg ?u m = (sg mh m)\<lparr>sext := unat n, sfree := False, sref := 1\<rparr>"
      by (simp add: sg_def seg_of_def hm)
    have ho': "holes ?u i = holes mh i" if "i \<in> set (xs @ ys)" for i
      using that kc f(2) by (intro ho) auto
    then have so: "map (sg ?u) xs = map (sg mh) xs" "map (sg ?u) ys = map (sg mh) ys"
      by (auto simp: sg_def)
    have s: "map (sg ?u) (xs @ m # k # ys) =
        map (sg mh) xs @ carve (unat n) (sg mh m) @ map (sg mh) ys"
      using False by (simp add: so sm sk carve_def word_unat_eq_iff)
    have ok: "i < mh_size ?u \<and> (hflags (holes ?u i) = HOLE_FREE \<or> hflags (holes ?u i) = HOLE_USED)"
      if "i \<in> set (xs @ m # k # ys)" for i
      using that f(3)[of i] alloc_hole_Inr(1)[OF k] ho[of i] hm hk sz
      by (cases "i = m"; cases "i = k") auto
    note inv' = mm_invI[OF ch ok, unfolded s, OF _ abs, simplified]
    show ?thesis
    proof (rule that[OF run inv'(1) inv'(2)])
      show "mm_tidy ?u" if "mm_tidy mh"
        using that ho unfolding mm_tidy_def c inv'(3) sz by auto
    qed (use hm ho' sz in auto)
  qed
qed

section \<open>Allocation, release and sharing meet the specification\<close>

lemma segs_base_neq0:
  "mm_inv lo hi mh \<Longrightarrow> x \<in> set (segs mh) \<Longrightarrow> 0 < sbase x"
  using tiles_mem by (fastforce simp: mm_inv_def)

lemma best_spec:
  assumes "is_best mh n (mm_chain mh) m"
  obtains xs ys where "mm_chain mh = xs @ m # ys" and "fits (unat n) (sg mh m)"
    and "alloc_spec (segs mh) (unat n) (unat (page_base (holes mh m)))
           (map (sg mh) xs @ carve (unat n) (sg mh m) @ map (sg mh) ys)"
proof -
  from assms obtain xs ys where c: "mm_chain mh = xs @ m # ys" "fits (unat n) (sg mh m)"
    "\<forall>i\<in>set xs. fits (unat n) (sg mh i) \<longrightarrow> sext (sg mh m) < sext (sg mh i)"
    "\<forall>i\<in>set ys. fits (unat n) (sg mh i) \<longrightarrow> sext (sg mh m) \<le> sext (sg mh i)"
    unfolding is_best_def by auto
  then show ?thesis
    by (intro that[OF c(1,2)], unfold alloc_spec_def)
      (rule exI[of _ "map (sg mh) xs"], rule exI[of _ "sg mh m"], rule exI[of _ "map (sg mh) ys"],
        auto simp: segs_def)
qed

text \<open>
  The three outcomes of an allocation: nothing fits, a descriptor is missing,
  or the specified segment is handed out.
\<close>

lemma mm_alloc_outcome:
  assumes inv: "mm_inv lo hi mh" and n: "n \<noteq> 0"
  obtains (none) "\<forall>x\<in>set (segs mh). \<not> fits (unat n) x" "mm_alloc mh n = Inr (0, mh)"
  | (panic) "alloc_hole mh = Inl (Panic ''mm: too many holes'')"
      "mm_alloc mh n = Inl (Panic ''mm: too many holes'')"
      "\<exists>x\<in>set (segs mh). fits (unat n) x"
  | (got) m r mh' where "mm_alloc mh n = Inr (r, mh')" "r \<noteq> 0"
      "alloc_spec (segs mh) (unat n) (unat r) (segs mh')" "mm_inv lo hi mh'"
      "mm_tidy mh \<Longrightarrow> mm_tidy mh'" "mh_size mh' = mh_size mh"
proof (cases "fold (bf_step mh n) (mm_chain mh) None")
  case None
  then have "\<forall>x\<in>set (segs mh). \<not> fits (unat n) x"
    using bf_fold_spec[of "mm_chain mh" n mh] by (simp add: segs_def)
  moreover have "mm_alloc mh n = Inr (0, mh)"
    using None by (simp add: mm_alloc_def best_fit_hole_inv[OF inv])
  ultimately show ?thesis by (rule none)
next
  case (Some m)
  then have "is_best mh n (mm_chain mh) m"
    using bf_fold_spec[of "mm_chain mh" n mh] by simp
  then obtain xs ys where c: "mm_chain mh = xs @ m # ys" and fit: "fits (unat n) (sg mh m)"
    and spec: "alloc_spec (segs mh) (unat n) (unat (page_base (holes mh m)))
           (map (sg mh) xs @ carve (unat n) (sg mh m) @ map (sg mh) ys)"
    by (rule best_spec)
  have run: "mm_alloc mh n = bindr (split_hole mh m n)
      (\<lambda>mh'. Inr (page_base (holes (use_hole m mh') m), use_hole m mh'))"
    by (simp add: mm_alloc_def best_fit_hole_inv[OF inv] Some use_hole_def Let_def)
  have m: "sg mh m \<in> set (segs mh)" by (simp add: segs_def c)
  have b0: "page_base (holes mh m) \<noteq> 0"
    using segs_base_neq0[OF inv m] by (auto simp: unat_gt_0[symmetric])
  show ?thesis
  proof (cases "extent (holes mh m) = n \<or> (\<exists>k. alloc_hole mh = Inr k)")
    case True
    then obtain k where k: "extent (holes mh m) = n \<or> alloc_hole mh = Inr k" by blast
    from take_hole_ok[OF inv c fit n k] obtain mh' where mh': "split_hole mh m n = Inr mh'"
      "mm_inv lo hi (use_hole m mh')"
      "segs (use_hole m mh') = map (sg mh) xs @ carve (unat n) (sg mh m) @ map (sg mh) ys"
      "page_base (holes (use_hole m mh') m) = page_base (holes mh m)"
      "mh_size (use_hole m mh') = mh_size mh" "mm_tidy mh \<Longrightarrow> mm_tidy (use_hole m mh')"
      by metis
    show ?thesis
      by (rule got[of "page_base (holes mh m)" "use_hole m mh'"])
        (use run mh' b0 spec in simp_all)
  next
    case False
    then have e: "alloc_hole mh = Inl (Panic ''mm: too many holes'')"
      using alloc_hole_cases[of mh] by blast
    show ?thesis
      by (rule panic[OF e]) (use False run split_panic[OF _ e] fit m in auto)
  qed
qed

lemma spare_exists:
  assumes "mm_inv lo hi mh" and "mm_tidy mh" and "length (segs mh) < mh_size mh"
  shows "\<exists>k. alloc_hole mh = Inr k"
proof (rule ccontr)
  assume "\<nexists>k. alloc_hole mh = Inr k"
  then have "\<forall>i<mh_size mh. hflags (holes mh i) \<noteq> HOLE_SPARE"
    by (auto simp: alloc_hole_def find_None_iff split: option.splits)
  with assms(2) have "{..<mh_size mh} \<subseteq> set (mm_chain mh)" by (auto simp: mm_tidy_def)
  then have "card {..<mh_size mh} \<le> card (set (mm_chain mh))" by (rule card_mono[rotated]) simp
  also have "\<dots> \<le> length (segs mh)" by (simp add: segs_def card_length)
  finally show False using assms(3) by simp
qed

lemma find_hole_used:
  assumes inv: "mm_inv lo hi mh" and x: "x \<in> set (segs mh)" and b: "sbase x = unat b"
  obtains m xs ys where "find_hole mh b = Inr (Some m)" and "mm_chain mh = xs @ m # ys"
    and "sg mh m = x" and "page_base (holes mh m) = b"
proof -
  from x obtain i where i: "i \<in> set (mm_chain mh)" "x = sg mh i" by (auto simp: segs_def)
  with b have "page_base (holes mh i) = b" by (simp add: word_unat_eq_iff)
  with i obtain m where m: "find (\<lambda>j. page_base (holes mh j) = b) (mm_chain mh) = Some m"
    by (metis (mono_tags, lifting) find_None_iff not_None_eq)
  then have mc: "m \<in> set (mm_chain mh)" and mb: "page_base (holes mh m) = b"
    by (auto simp: find_Some_iff)
  obtain xs ys where c: "mm_chain mh = xs @ m # ys" using split_list[OF mc] by blast
  have "sg mh m = x"
    by (rule tiles_inj[of lo "segs mh" hi]) (use inv mc i b mb in \<open>auto simp: mm_inv_def segs_def\<close>)
  with that m c mb show ?thesis by (simp add: find_hole_inv[OF inv])
qed

lemma find_hole_absent:
  assumes "mm_inv lo hi mh" and "\<forall>x\<in>set (segs mh). sbase x \<noteq> unat b"
  shows "find_hole mh b = Inr None"
  using assms(2) by (auto simp: find_hole_inv[OF assms(1)] segs_def find_None_iff)

lemma used_flag:
  assumes "mm_inv lo hi mh" and "mm_chain mh = xs @ m # ys" and "\<not> sfree (sg mh m)"
  shows "hflags (holes mh m) = HOLE_USED" and "0 < unat (refcount (holes mh m))"
    and "sref (sg mh m) = unat (refcount (holes mh m))"
proof -
  show u: "hflags (holes mh m) = HOLE_USED" using split_chain_flags(3)[OF assms(1,2)] assms(3) by auto
  then show r: "sref (sg mh m) = unat (refcount (holes mh m))" by (simp add: sg_def seg_of_def)
  show "0 < unat (refcount (holes mh m))"
    using split_chain_flags(7)[OF assms(1,2)] assms(3) u by (simp add: r)
qed

text \<open>Changing the reference count of a used hole, and nothing else.\<close>

lemma recount_ok:
  assumes inv: "mm_inv lo hi mh" and c: "mm_chain mh = xs @ m # ys" and u: "\<not> sfree (sg mh m)"
    and r: "r \<noteq> 0"
  shows "mm_inv lo hi (upd_hole m (refcount_update (\<lambda>_. r)) mh)"
    and "segs (upd_hole m (refcount_update (\<lambda>_. r)) mh) =
           map (sg mh) xs @ (sg mh m)\<lparr>sref := unat r\<rparr> # map (sg mh) ys"
    and "mm_tidy mh \<Longrightarrow> mm_tidy (upd_hole m (refcount_update (\<lambda>_. r)) mh)"
proof -
  note f = split_chain_flags[OF inv c]
  let ?u = "upd_hole m (refcount_update (\<lambda>_. r)) mh"
  have flag: "hflags (holes mh m) = HOLE_USED" by (rule used_flag[OF inv c u])
  have s: "map (sg ?u) (xs @ m # ys) = map (sg mh) xs @ (sg mh m)\<lparr>sref := unat r\<rparr> # map (sg mh) ys"
    using f(2) flag by (auto simp: sg_def seg_of_def)
  have ch: "chain (nx ?u) (Some 0) (xs @ m # ys)" using f(1) by (simp add: nx_def[symmetric])
  have ok: "i < mh_size ?u \<and> (hflags (holes ?u i) = HOLE_FREE \<or> hflags (holes ?u i) = HOLE_USED)"
    if "i \<in> set (xs @ m # ys)" for i
    using f(3)[OF that] by auto
  have abs: "tiles lo (map (sg ?u) (xs @ m # ys)) hi" "coalesced (map (sg ?u) (xs @ m # ys))"
    "counted (map (sg ?u) (xs @ m # ys))"
    using f(5,6,7) u r unfolding s
    by (auto simp: tiles_append coalesced_append word_unat_eq_iff, (cases ys; auto)+)
  note inv' = mm_invI[OF ch ok abs f(8,9)]
  show "mm_inv lo hi ?u" by (rule inv'(1))
  show "segs ?u = map (sg mh) xs @ (sg mh m)\<lparr>sref := unat r\<rparr> # map (sg mh) ys"
    by (simp only: inv'(2) s)
  show "mm_tidy ?u" if "mm_tidy mh" using that inv'(3) c by (auto simp: mm_tidy_def)
qed

lemma mm_realloc_ok:
  assumes inv: "mm_inv lo hi mh" and x: "x \<in> set (segs mh)" "sbase x = unat b" "\<not> sfree x"
    and r: "sref x < 255"
  shows "\<exists>mh'. mm_realloc mh b = Inr (b, mh') \<and> share_spec (segs mh) (unat b) (segs mh') \<and>
     mm_inv lo hi mh' \<and> (mm_tidy mh \<longrightarrow> mm_tidy mh') \<and> mh_size mh' = mh_size mh"
proof -
  from find_hole_used[OF inv x(1,2)] obtain m xs ys where
    fh: "find_hole mh b = Inr (Some m)" and c: "mm_chain mh = xs @ m # ys"
    and sm: "sg mh m = x" and pb: "page_base (holes mh m) = b" by metis
  have u: "\<not> sfree (sg mh m)" using sm x(3) by simp
  let ?r = "refcount (holes mh m) + 1"
  have rx: "sref x = unat (refcount (holes mh m))" using used_flag(3)[OF inv c u] sm by simp
  have ur: "unat ?r = Suc (sref x)"
    using r by (simp add: rx unat_word_ariths)
  then have r0: "?r \<noteq> 0" by (metis unat_0 Zero_not_Suc)
  have eq: "upd_hole m (\<lambda>h. h\<lparr>refcount := refcount h + 1\<rparr>) mh =
      upd_hole m (refcount_update (\<lambda>_. ?r)) mh"
    by (simp add: upd_hole_def)
  have run: "mm_realloc mh b = Inr (b, upd_hole m (refcount_update (\<lambda>_. ?r)) mh)"
    using pb by (simp add: mm_realloc_def fh eq)
  have "share_spec (segs mh) (unat b) (segs (upd_hole m (refcount_update (\<lambda>_. ?r)) mh))"
    unfolding share_spec_def recount_ok(2)[OF inv c u r0] split_chain_flags(4)[OF inv c]
    using x(2,3) ur by (intro exI[of _ "map (sg mh) xs"] exI[of _ x] exI[of _ "map (sg mh) ys"]) (simp add: sm)
  with run recount_ok(1,3)[OF inv c u r0] show ?thesis by auto
qed

lemma mm_free_ok:
  assumes inv: "mm_inv lo hi mh" and x: "x \<in> set (segs mh)" "sbase x = unat b" "\<not> sfree x"
  shows "\<exists>mh'. mm_free mh b = Inr mh' \<and> free_spec (segs mh) (unat b) (segs mh') \<and>
     mm_inv lo hi mh' \<and> (mm_tidy mh \<longrightarrow> mm_tidy mh') \<and> mh_size mh' = mh_size mh"
proof -
  from find_hole_used[OF inv x(1,2)] obtain m xs ys where
    fh: "find_hole mh b = Inr (Some m)" and c: "mm_chain mh = xs @ m # ys"
    and sm: "sg mh m = x" and pb: "page_base (holes mh m) = b" by metis
  note f = split_chain_flags[OF inv c]
  have u: "\<not> sfree (sg mh m)" using sm x(3) by simp
  note uf = used_flag[OF inv c u]
  let ?r = "refcount (holes mh m) - 1"
  let ?mh = "upd_hole m (refcount_update (\<lambda>_. ?r)) mh"
  have ur: "unat ?r = sref x - 1"
    using uf(2,3) sm by (simp add: unat_sub word_le_nat_alt)
  have eq: "upd_hole m (\<lambda>h. h\<lparr>refcount := refcount h - 1\<rparr>) mh = ?mh" by (simp add: upd_hole_def)
  have run: "mm_free mh b = (if ?r = 0 then sweep_holes (upd_hole m (hflags_update (\<lambda>_. HOLE_FREE)) ?mh)
      else Inr ?mh)"
    using uf(1) by (simp add: mm_free_def fh eq)
  have r0: "?r = 0 \<longleftrightarrow> sref x = 1"
    using ur uf(2,3) sm by (auto simp: unat_eq_0[symmetric])
  have spec: "free_spec (segs mh) (unat b) ys'"
    if "ys' = (if sref x = 1 then coalesce (map (sg mh) xs @ release_seg x # map (sg mh) ys)
        else map (sg mh) xs @ release_seg x # map (sg mh) ys)" for ys'
    unfolding free_spec_def f(4) that sm using x(2,3) by blast
  show ?thesis
  proof (cases "sref x = 1")
    case True
    let ?f = "upd_hole m (hflags_update (\<lambda>_. HOLE_FREE)) ?mh"
    have s: "map (sg ?f) (xs @ m # ys) = map (sg mh) xs @ release_seg x # map (sg mh) ys"
      using f(2) True sm[symmetric] by (auto simp: release_seg_def) (simp add: sg_def seg_of_def)
    have ch: "chain (nx ?f) (Some 0) (xs @ m # ys)" using f(1) by (simp add: nx_def[symmetric])
    have ok: "i < mh_size ?f \<and> (hflags (holes ?f i) = HOLE_FREE \<or> hflags (holes ?f i) = HOLE_USED)"
      if "i \<in> set (xs @ m # ys)" for i
      using f(3)[OF that] by simp
    have abs: "tiles lo (map (sg ?f) (xs @ m # ys)) hi" "counted (map (sg ?f) (xs @ m # ys))"
      using f(5,7) True sm unfolding s
      by (auto simp: tiles_append release_seg_def)
    from sweep_holes_ok[OF ch ok abs f(8,9)] obtain mh' where mh': "sweep_holes ?f = Inr mh'"
      "mm_inv lo hi mh'" "segs mh' = coalesce (map (sg ?f) (xs @ m # ys))"
      "mh_size mh' = mh_size ?f" "mm_tidy ?f \<Longrightarrow> mm_tidy mh'" by metis
    have "mm_tidy ?f" if "mm_tidy mh"
      using that c mm_chainI[OF ch] ok by (auto simp: mm_tidy_def)
    moreover have "mm_free mh b = Inr mh'" using run r0 True mh'(1) by simp
    moreover have "free_spec (segs mh) (unat b) (segs mh')" 
      by (rule spec) (simp only: mh'(3) s True simp_thms if_True)
    ultimately show ?thesis using mh'(2,4,5) by auto
  next
    case False
    then have nz: "?r \<noteq> 0" using r0 by simp
    have "release_seg x = x\<lparr>sref := unat ?r\<rparr>" using False x(3) ur by (simp add: release_seg_def)
    then have "free_spec (segs mh) (unat b) (segs ?mh)"
      using spec False recount_ok(2)[OF inv c u nz] sm by simp
    with run nz recount_ok(1,3)[OF inv c u nz] show ?thesis by auto
  qed
qed

interpretation mp: segment_pool mm_inv segs mm_alloc mm_realloc mm_free
proof
  fix lo hi :: nat and mh mh' :: malloc_head and n r b :: u16 and x :: seg
  show "mm_inv lo hi mh \<Longrightarrow> tiles lo (segs mh) hi \<and> coalesced (segs mh) \<and> counted (segs mh)"
    by (simp add: mm_inv_def)
  show "mm_inv lo hi mh \<Longrightarrow> n \<noteq> 0 \<Longrightarrow> mm_alloc mh n = Inr (r, mh') \<Longrightarrow> r \<noteq> 0 \<Longrightarrow>
      alloc_spec (segs mh) (unat n) (unat r) (segs mh') \<and> mm_inv lo hi mh'"
    by (erule mm_alloc_outcome[of lo hi mh n]) auto
  show "mm_inv lo hi mh \<Longrightarrow> n \<noteq> 0 \<Longrightarrow> mm_alloc mh n = Inr (0, mh') \<Longrightarrow> mh' = mh"
    by (erule mm_alloc_outcome[of lo hi mh n]) auto
  show "mm_inv lo hi mh \<Longrightarrow> x \<in> set (segs mh) \<Longrightarrow> sbase x = unat b \<Longrightarrow> \<not> sfree x \<Longrightarrow> sref x < 255 \<Longrightarrow>
      \<exists>s'. mm_realloc mh b = Inr (b, s') \<and> share_spec (segs mh) (unat b) (segs s') \<and> mm_inv lo hi s'"
    using mm_realloc_ok by blast
  show "mm_inv lo hi mh \<Longrightarrow> x \<in> set (segs mh) \<Longrightarrow> sbase x = unat b \<Longrightarrow> \<not> sfree x \<Longrightarrow>
      \<exists>s'. mm_free mh b = Inr s' \<and> free_spec (segs mh) (unat b) (segs s') \<and> mm_inv lo hi s'"
    using mm_free_ok by blast
qed

section \<open>Initialisation and usage\<close>

lemma mm_init_ok:
  assumes "mh_size mh = MAX_SEGMENTS" and "0 < start" and "start < fin"
  shows "mm_inv (unat start) (unat fin) (mm_init mh start fin)"
    and "segs (mm_init mh start fin) =
           [\<lparr>sbase = unat start, sext = unat fin - unat start, sfree = True, sref = 0\<rparr>]"
    and "mm_tidy (mm_init mh start fin)" and "mh_size (mm_init mh start fin) = MAX_SEGMENTS"
proof -
  let ?mh = "mm_init mh start fin"
  have ext: "unat (fin - start) = unat fin - unat start"
    using assms(3) by (simp add: u16_sub_unat less_imp_le)
  have h0: "holes ?mh 0 = \<lparr>page_base = start, extent = fin - start, hnext = None,
      refcount = 0, hflags = HOLE_FREE\<rparr>"
    by (simp add: mm_init_def Let_def)
  show sz: "mh_size ?mh = MAX_SEGMENTS" using assms(1) by (simp add: mm_init_def Let_def)
  have s: "sg ?mh 0 = \<lparr>sbase = unat start, sext = unat fin - unat start, sfree = True, sref = 0\<rparr>"
    by (simp add: sg_def h0 seg_of_def ext)
  have lt: "unat start < unat fin" "0 < unat start" "unat fin < 2 ^ 16"
    using assms(2,3) unsigned_less[of fin, where ?'a = nat] by (auto simp: word_less_nat_alt)
  have ch: "chain (nx ?mh) (Some 0) [0]" by (simp add: nx_def h0)
  have ok: "i < mh_size ?mh \<and> (hflags (holes ?mh i) = HOLE_FREE \<or> hflags (holes ?mh i) = HOLE_USED)"
    if "i \<in> set [0]" for i
    using that by (simp add: h0 sz)
  have abs: "tiles (unat start) (map (sg ?mh) [0]) (unat fin)" "coalesced (map (sg ?mh) [0])"
    "counted (map (sg ?mh) [0])"
    using lt by (simp_all add: s)
  note inv' = mm_invI[OF ch ok abs lt(2,3)]
  from inv' show "mm_inv (unat start) (unat fin) ?mh"
    "segs ?mh = [\<lparr>sbase = unat start, sext = unat fin - unat start, sfree = True, sref = 0\<rparr>]"
    by (simp_all add: s)
  show "mm_tidy ?mh"
    unfolding mm_tidy_def using inv'(3) assms(1) by (simp only: set_simps) (auto simp: mm_init_def Let_def)
qed

lemma sum_list_unat:
  "sum_list (map (\<lambda>i. unat (f i)) is) < 2 ^ 16 \<Longrightarrow>
   unat (sum_list (map f is) :: u16) = sum_list (map (\<lambda>i. unat (f i)) is)"
  by (induction "is") (auto simp: u16_add_unat)

lemma mm_get_usage_ok:
  assumes inv: "mm_inv lo hi mh"
  shows "\<exists>r. mm_get_usage mh used = Inr r \<and>
    unat r = (if used then used_total (segs mh) else free_total (segs mh)) div 64"
proof -
  let ?fl = "if used then HOLE_USED else HOLE_FREE"
  let ?is = "filter (\<lambda>i. hflags (holes mh i) = ?fl) (mm_chain mh)"
  have fl: "\<forall>i\<in>set (mm_chain mh). hflags (holes mh i) = HOLE_USED \<or> hflags (holes mh i) = HOLE_FREE"
    using inv by (auto simp: mm_inv_def)
  have "(if used then used_total (segs mh) else free_total (segs mh)) =
      sum_list (map (\<lambda>i. unat (extent (holes mh i))) ?is)"
    using fl by (auto simp: used_total_def free_total_def segs_def filter_map comp_def
        intro!: arg_cong[where f = sum_list] map_cong filter_cong)
  moreover have "(if used then used_total (segs mh) else free_total (segs mh)) < 2 ^ 16"
    using tiles_total[of lo "segs mh" hi] inv by (auto simp: mm_inv_def)
  ultimately have "unat (sum_list (map (\<lambda>i. extent (holes mh i)) ?is)) =
      (if used then used_total (segs mh) else free_total (segs mh))"
    by (simp add: sum_list_unat)
  moreover have "mm_get_usage mh used = Inr (drop_bit 6 (sum_list (map (\<lambda>i. extent (holes mh i)) ?is)))"
    using usage_loop_chain[of mh "Some 0" "mm_chain mh" "Suc (mh_size mh)" ?fl 0]
      inv mm_inv_length[OF inv]
    by (simp add: mm_get_usage_def mm_inv_def)
  ultimately show ?thesis by (auto simp: drop_bit_eq_div unat_div)
qed

section \<open>Duplicating a segment\<close>

lemma fmemcpy_spec:
  assumes "unat dest + n \<le> 2 ^ 16" and "unat src + n \<le> 2 ^ 16"
    and "D = unat dseg * 16 + unat dest" and "S = unat sseg * 16 + unat src"
    and "D + n \<le> 2 ^ 20" and "S + n \<le> 2 ^ 20" and "D + n \<le> S \<or> S + n \<le> D"
  shows "fmemcpy n mem dseg dest sseg src a =
    (if D \<le> a \<and> a < D + n then mem (S + (a - D)) else mem a)"
  using assms
proof (induction n arbitrary: mem dest src D S)
  case 0
  then show ?case by auto
next
  case (Suc n)
  have lins: "lin dseg dest = D" "lin sseg src = S" using Suc.prems by (auto simp: lin_def)
  show ?case
  proof (cases n)
    case 0
    then show ?thesis by (simp add: lins)
  next
    case n: (Suc k)
    have u: "unat (dest + 1) = unat dest + 1" "unat (src + 1) = unat src + 1"
      using Suc.prems(1,2) n by (simp_all add: unat_word_ariths)
    have "fmemcpy (Suc n) mem dseg dest sseg src a =
        (if D + 1 \<le> a \<and> a < D + 1 + n then (mem(D := mem S)) (S + 1 + (a - (D + 1)))
         else (mem(D := mem S)) a)"
      unfolding fmemcpy.simps lins using Suc.prems u
      by (intro Suc.IH[of "dest + 1" "src + 1" "D + 1" "S + 1"]) auto
    also have "\<dots> = (if D \<le> a \<and> a < D + Suc n then mem (S + (a - D)) else mem a)"
    proof (cases "D + 1 \<le> a \<and> a < D + 1 + n")
      case True
      then have "S + 1 + (a - (D + 1)) = S + (a - D)" and "S + (a - D) \<noteq> D"
        using Suc.prems(7) by auto
      with True show ?thesis by simp
    qed auto
    finally show ?thesis .
  qed
qed

lemma mm_dup_alloc:
  assumes inv: "mm_inv lo hi mh" and x: "x \<in> set (segs mh)" "sbase x = unat b" "\<not> sfree x"
    and e: "unat e = sext x"
  shows "mm_dup mh mem b = bindr (mm_alloc mh e) (\<lambda>(r, mh'). Inr (r, mh',
     if r = 0 then mem else fmemcpy (unat (push_bit 4 e :: u16)) mem r 0 b 0))"
proof -
  from find_hole_used[OF inv x(1,2)] obtain ob us vs where
    fh: "find_hole mh b = Inr (Some ob)" and ob: "mm_chain mh = us @ ob # vs"
    and so: "sg mh ob = x" and pb: "page_base (holes mh ob) = b" by metis
  have u: "\<not> sfree (sg mh ob)" using so x(3) by simp
  have flag: "hflags (holes mh ob) = HOLE_USED" by (rule used_flag[OF inv ob u])
  have ext: "extent (holes mh ob) = e"
    using so e by (auto simp: word_unat_eq_iff)
  have e0: "e \<noteq> 0"
    using tiles_mem[of lo "segs mh" hi x] inv x(1) e by (auto simp: mm_inv_def unat_gt_0[symmetric])
  let ?best = "fold (bf_step mh e) (mm_chain mh) None"
  show ?thesis
  proof (cases ?best)
    case None
    then show ?thesis
      by (simp add: mm_dup_def mm_alloc_def fh flag ext best_fit_hole_inv[OF inv])
  next
    case (Some m)
    then have "is_best mh e (mm_chain mh) m" using bf_fold_spec[of "mm_chain mh" e mh] by simp
    then obtain xs ys where c: "mm_chain mh = xs @ m # ys" and fit: "fits (unat e) (sg mh m)"
      by (rule best_spec)
    have "ob \<in> set (xs @ ys)" using ob c fit u by (metis fits_def in_set_conv_decomp set_append set_ConsD Un_iff)
    have m0: "page_base (holes mh m) \<noteq> 0"
      using segs_base_neq0[OF inv, of "sg mh m"] by (auto simp: segs_def c unat_gt_0[symmetric])
    show ?thesis
    proof (cases "split_hole mh m e")
      case (Inl f)
      then show ?thesis
        by (simp add: mm_dup_def mm_alloc_def fh flag ext best_fit_hole_inv[OF inv] Some)
    next
      case (Inr mh')
      then have "extent (holes mh m) = e \<or> (\<exists>k. alloc_hole mh = Inr k)"
        using split_panic[of mh m e] by (cases "alloc_hole mh") auto
      then obtain k where "extent (holes mh m) = e \<or> alloc_hole mh = Inr k" by blast
      from take_hole_ok[OF inv c fit e0 this] Inr have
        "holes (use_hole m mh') ob = holes mh ob" "page_base (holes (use_hole m mh') m) = page_base (holes mh m)"
        using \<open>ob \<in> set (xs @ ys)\<close> by (metis sum.inject(2))+
      then show ?thesis
        using Inr m0 ext pb
        by (simp add: mm_dup_def mm_alloc_def fh flag best_fit_hole_inv[OF inv] Some
            use_hole_def[symmetric] Let_def)
    qed
  qed
qed

lemma unat_push4: "unat e < 4096 \<Longrightarrow> unat (push_bit 4 e :: u16) = 16 * unat e"
  by (simp add: push_bit_eq_mult unat_word_ariths)

lemma push4_64k: "unat e = 4096 \<Longrightarrow> (push_bit 4 e :: u16) = 0"
  by (simp add: push_bit_eq_mult word_unat_eq_iff unat_word_ariths)

lemma intervals_disjoint:
  assumes "{a ..< a + n} \<inter> {b ..< b + n} = {}" and "0 < (n::nat)"
  shows "a + n \<le> b \<or> b + n \<le> a"
proof (rule ccontr)
  assume "\<not> (a + n \<le> b \<or> b + n \<le> a)"
  then have "max a b \<in> {a ..< a + n} \<inter> {b ..< b + n}" using assms(2) by auto
  with assms(1) show False by blast
qed

lemma mm_dup_memory:
  assumes inv: "mm_inv lo hi mh" and x: "x \<in> set (segs mh)" "sbase x = unat b" "\<not> sfree x"
    and e: "sext x < 4096" and run: "mm_dup mh mem b = Inr (r, mh', mem')" and r: "r \<noteq> 0"
  shows "alloc_spec (segs mh) (sext x) (unat r) (segs mh')" and "mm_inv lo hi mh'"
    and "mem' a = (if unat r * 16 \<le> a \<and> a < (unat r + sext x) * 16
                   then mem (unat b * 16 + (a - unat r * 16)) else mem a)"
proof -
  define e where "e = (of_nat (sext x) :: u16)"
  have ue: "unat e = sext x" using assms(5) by (simp add: e_def unat_of_nat)
  have tm: "lo \<le> sbase x \<and> sbase x + sext x \<le> hi \<and> 0 < sext x" and hi: "hi < 2 ^ 16"
    using tiles_mem[of lo "segs mh" hi x] inv x(1) by (auto simp: mm_inv_def)
  then have e0: "e \<noteq> 0" using ue by (auto simp: unat_gt_0[symmetric])
  from run r have al: "mm_alloc mh e = Inr (r, mh')"
    and mem': "mem' = fmemcpy (unat (push_bit 4 e :: u16)) mem r 0 b 0"
    by (auto simp: mm_dup_alloc[OF inv x ue] bindr_Inr_iff)
  note a = mp.alloc_law[OF inv e0 al r] mp.alloc_new_area[OF inv e0 al r]
  show "alloc_spec (segs mh) (sext x) (unat r) (segs mh')" "mm_inv lo hi mh'"
    using a(1) ue by simp_all
  have "span x \<subseteq> used_area (segs mh)" using x by (auto simp: used_area_def)
  then have "{unat r ..< unat r + sext x} \<inter> {unat b ..< unat b + sext x} = {}"
    using a(2) unfolding ue x(2)[symmetric] span_def by blast
  then have dis: "unat r + sext x \<le> unat b \<or> unat b + sext x \<le> unat r"
    using tm by (auto dest: intervals_disjoint)
  have "unat r + sext x \<le> hi" using a(4) ue by simp
  with tm hi dis ue show "mem' a = (if unat r * 16 \<le> a \<and> a < (unat r + sext x) * 16
                   then mem (unat b * 16 + (a - unat r * 16)) else mem a)"
    unfolding mem' unat_push4[of e, unfolded ue, OF assms(5)]
    by (subst fmemcpy_spec[of 0 "16 * sext x" 0 "unat r * 16" r "unat b * 16" b])
      (use assms(5) x(2) in \<open>auto simp: algebra_simps\<close>)
qed

section \<open>Runs of the allocator\<close>

text \<open>The statically allocated, zeroed array behind \<^verbatim>\<open>memmap\<close>.\<close>

definition memmap0 :: malloc_head where
  "memmap0 = \<lparr>holes = (\<lambda>_. \<lparr>page_base = 0, extent = 0, hnext = None, refcount = 0, hflags = 0\<rparr>),
              mh_size = MAX_SEGMENTS\<rparr>"

text \<open>One call by the kernel: only an owned segment is shared, at most 254 times more.\<close>

inductive mm_step :: "malloc_head \<Rightarrow> malloc_head \<Rightarrow> bool" where
  step_alloc: "n \<noteq> 0 \<Longrightarrow> mm_alloc mh n = Inr (r, mh') \<Longrightarrow> mm_step mh mh'"
| step_share: "x \<in> set (segs mh) \<Longrightarrow> sbase x = unat b \<Longrightarrow> \<not> sfree x \<Longrightarrow> sref x < 255 \<Longrightarrow>
     mm_realloc mh b = Inr (r, mh') \<Longrightarrow> mm_step mh mh'"
| step_free: "mm_free mh b = Inr mh' \<Longrightarrow> mm_step mh mh'"

inductive mm_reach :: "seg_t \<Rightarrow> seg_t \<Rightarrow> malloc_head \<Rightarrow> bool" for start fin where
  reach_init: "mm_reach start fin (mm_init memmap0 start fin)"
| reach_step: "mm_reach start fin mh \<Longrightarrow> mm_step mh mh' \<Longrightarrow> mm_reach start fin mh'"

inductive_cases mm_stepE: "mm_step mh mh'"

lemma mm_free_owned: "mm_free mh b = Inr mh' \<Longrightarrow> mm_inv lo hi mh \<Longrightarrow>
    \<exists>x\<in>set (segs mh). sbase x = unat b \<and> \<not> sfree x"
proof -
  assume run: "mm_free mh b = Inr mh'" and inv: "mm_inv lo hi mh"
  have "\<exists>x\<in>set (segs mh). sbase x = unat b"
    using find_hole_absent[OF inv] run by (force simp: mm_free_def)
  then obtain x where x: "x \<in> set (segs mh)" "sbase x = unat b" by blast
  from find_hole_used[OF inv x] obtain m xs ys where
    fh: "find_hole mh b = Inr (Some m)" and c: "mm_chain mh = xs @ m # ys" and sm: "sg mh m = x" by metis
  have "hflags (holes mh m) \<noteq> HOLE_FREE" using run by (auto simp: mm_free_def fh split: if_splits)
  with sm x show ?thesis by force
qed

lemma mm_step_ok:
  assumes "mm_step mh mh'" and inv: "mm_inv lo hi mh" and tidy: "mm_tidy mh"
  shows "mm_inv lo hi mh' \<and> mm_tidy mh' \<and> mh_size mh' = mh_size mh"
  using assms(1)
proof (cases rule: mm_step.cases)
  case (step_alloc n r)
  from inv step_alloc(1) show ?thesis
    by (rule mm_alloc_outcome) (use step_alloc inv tidy in auto)
next
  case (step_share x b r)
  then show ?thesis using mm_realloc_ok[OF inv step_share(1-4)] tidy by auto
next
  case (step_free b)
  then show ?thesis using mm_free_owned[OF step_free inv] mm_free_ok[OF inv] tidy by fastforce
qed

lemma mm_alloc_panic_tidy:
  assumes inv: "mm_inv lo hi mh" and tidy: "mm_tidy mh" and n: "n \<noteq> 0"
    and "mm_alloc mh n = Inl e"
  shows "e = Panic ''mm: too many holes'' \<and> length (segs mh) = mh_size mh"
  using inv n
proof (rule mm_alloc_outcome)
  assume "alloc_hole mh = Inl (Panic ''mm: too many holes'')"
    "mm_alloc mh n = Inl (Panic ''mm: too many holes'')"
  then show ?thesis
    using assms(4) spare_exists[OF inv tidy] mm_inv_length[OF inv] by (fastforce simp: segs_def)
qed (use assms(4) in auto)

section \<open>Growing a hole in place\<close>

text \<open>The two ways the room of the next hole is used: all of it, or a part.\<close>

lemma grow_all_inv:
  assumes inv: "mm_inv lo hi mh" and c: "mm_chain mh = xs @ m # n # ys"
    and used: "\<not> sfree (sg mh m)" and free: "sfree (sg mh n)"
    and h: "mh_size mh' = mh_size mh" "nx mh' = (nx mh)(m := nx mh n)"
      "sg mh' m = (sg mh m)\<lparr>sext := sext (sg mh m) + sext (sg mh n)\<rparr>"
      "hflags (holes mh' m) = hflags (holes mh m)" "hflags (holes mh' n) = HOLE_FREE"
      "\<And>i. i \<noteq> m \<Longrightarrow> i \<noteq> n \<Longrightarrow> holes mh' i = holes mh i"
  shows "mm_inv lo hi mh'" and "\<not> mm_tidy mh'"
    and "segs mh' = map (sg mh) xs @ (sg mh m)\<lparr>sext := sext (sg mh m) + sext (sg mh n)\<rparr> # map (sg mh) ys"
proof -
  note f = split_chain_flags[OF inv c]
  have ch: "chain (nx mh') (Some 0) (xs @ m # ys)"
    unfolding h(2) by (rule chain_drop_after[OF f(1)])
  have o: "holes mh' i = holes mh i" if "i \<in> set (xs @ ys)" for i
    using that f(2) by (intro h(6)) auto
  have s: "map (sg mh') (xs @ m # ys) =
      map (sg mh) xs @ (sg mh m)\<lparr>sext := sext (sg mh m) + sext (sg mh n)\<rparr> # map (sg mh) ys"
    using o h(3) by (auto simp: sg_def)
  have ok: "i < mh_size mh' \<and> (hflags (holes mh' i) = HOLE_FREE \<or> hflags (holes mh' i) = HOLE_USED)"
    if "i \<in> set (xs @ m # ys)" for i
    using that f(3)[of i] o[of i] h(1,4) by auto
  have abs: "tiles lo (map (sg mh') (xs @ m # ys)) hi" "coalesced (map (sg mh') (xs @ m # ys))"
    "counted (map (sg mh') (xs @ m # ys))"
    using f(5,6,7) used free unfolding s
    by (auto simp: tiles_append coalesced_append add.assoc dest: coalesced_tail, (cases ys; auto)+)
  note inv' = mm_invI[OF ch ok abs f(8,9)]
  show "mm_inv lo hi mh'" by (rule inv'(1))
  show "segs mh' = map (sg mh) xs @ (sg mh m)\<lparr>sext := sext (sg mh m) + sext (sg mh n)\<rparr> # map (sg mh) ys"
    by (simp only: inv'(2) s)
  have "mm_chain mh' = xs @ m # ys" by (rule inv'(3))
  then show "\<not> mm_tidy mh'" using f(2) f(3)[of n] h(1,5) by (auto simp: mm_tidy_def)
qed

lemma grow_part_inv:
  assumes inv: "mm_inv lo hi mh" and c: "mm_chain mh = xs @ m # n # ys"
    and used: "\<not> sfree (sg mh m)" and free: "sfree (sg mh n)"
    and k: "k < sext (sg mh n)"
    and h: "mh_size mh' = mh_size mh" "nx mh' = nx mh"
      "sg mh' m = (sg mh m)\<lparr>sext := sext (sg mh m) + k\<rparr>"
      "sg mh' n = (sg mh n)\<lparr>sbase := sbase (sg mh n) + k, sext := sext (sg mh n) - k\<rparr>"
      "hflags (holes mh' m) = hflags (holes mh m)" "hflags (holes mh' n) = hflags (holes mh n)"
      "\<And>i. i \<noteq> m \<Longrightarrow> i \<noteq> n \<Longrightarrow> holes mh' i = holes mh i"
  shows "mm_inv lo hi mh'" and "mm_tidy mh \<Longrightarrow> mm_tidy mh'"
    and "segs mh' = map (sg mh) xs @ (sg mh m)\<lparr>sext := sext (sg mh m) + k\<rparr> #
           (sg mh n)\<lparr>sbase := sbase (sg mh n) + k, sext := sext (sg mh n) - k\<rparr> # map (sg mh) ys"
proof -
  note f = split_chain_flags[OF inv c]
  let ?is = "xs @ m # n # ys"
  let ?ss = "map (sg mh) xs @ (sg mh m)\<lparr>sext := sext (sg mh m) + k\<rparr> #
    (sg mh n)\<lparr>sbase := sbase (sg mh n) + k, sext := sext (sg mh n) - k\<rparr> # map (sg mh) ys"
  have ch: "chain (nx mh') (Some 0) ?is" unfolding h(2) by (rule f(1))
  have o: "holes mh' i = holes mh i" if "i \<in> set (xs @ ys)" for i
    using that f(2) by (intro h(7)) auto
  have s: "map (sg mh') ?is = ?ss" using o h(3,4) by (auto simp: sg_def)
  have ok: "i < mh_size mh' \<and> (hflags (holes mh' i) = HOLE_FREE \<or> hflags (holes mh' i) = HOLE_USED)"
    if "i \<in> set ?is" for i
    using that f(3)[of i] o[of i] h(1,5,6) by auto
  have abs: "tiles lo (map (sg mh') ?is) hi" "coalesced (map (sg mh') ?is)" "counted (map (sg mh') ?is)"
    using f(5,6,7) used free k unfolding s
    by (auto simp: tiles_append coalesced_append add.assoc, (cases ys; auto)+)
  note inv' = mm_invI[OF ch ok abs f(8,9)]
  show "mm_inv lo hi mh'" by (rule inv'(1))
  show "segs mh' = ?ss" by (simp only: inv'(2) s)
  have "mm_chain mh' = ?is" by (rule inv'(3))
  then show "mm_tidy mh'" if "mm_tidy mh"
    using that c h(1,7) by (auto simp: mm_tidy_def)
qed

lemma mm_resize_inplace:
  assumes inv: "mm_inv lo hi mh" and c: "mm_chain mh = xs @ m # n # ys"
    and used: "\<not> sfree (sg mh m)" and free: "sfree (sg mh n)"
    and pg: "extent (holes mh m) < pages"
    and room: "unat pages \<le> sext (sg mh m) + sext (sg mh n)"
  obtains mh' where "mm_resize adv mh mem m pages = Inr (Some m, mh', mem)"
    and "mm_inv lo hi mh'" and "used_total (segs mh') = used_total (segs mh) + (unat pages - sext (sg mh m))"
    and "mm_tidy mh \<Longrightarrow> mm_tidy mh' \<longleftrightarrow> unat pages \<noteq> sext (sg mh m) + sext (sg mh n)"
proof -
  note f = split_chain_flags[OF inv c]
  have mn: "m \<noteq> n" using f(2) by auto
  have nxt: "hnext (holes mh m) = Some n" using chain_append[OF f(1)] by (simp add: nx_def)
  define e where "e = pages - extent (holes mh m)"
  have ue: "unat e = unat pages - sext (sg mh m)" "0 < unat e"
    using pg by (simp_all add: e_def u16_sub_unat less_imp_le word_less_nat_alt)
  have le: "e \<le> extent (holes mh n)" using ue room by (simp add: word_le_nat_alt)
  have fr: "hflags (holes mh n) = HOLE_FREE" using free by simp
  define mh1 where "mh1 = upd_hole m (\<lambda>h. h\<lparr>extent := extent h + e\<rparr>) mh"
  define mh2 where "mh2 = upd_hole n (\<lambda>h. h\<lparr>extent := extent h - e, page_base := page_base h + e\<rparr>) mh1"
  define mh3 where "mh3 = upd_hole m (hnext_update (\<lambda>_. hnext (holes mh2 n))) mh2"
  have run: "mm_resize adv mh mem m pages =
      Inr (Some m, if extent (holes mh n) = e then mh3 else mh2, mem)"
    using pg nxt le fr mn
    by (auto simp: mm_resize_def Let_def mh1_def mh2_def mh3_def e_def[symmetric] linorder_not_le)
  have bnd: "unat (page_base (holes mh n)) + unat (extent (holes mh n)) < 2 ^ 16"
    using tiles_mem[OF f(5), of "sg mh n"] f(9) by simp
  have em: "unat (extent (holes mh m) + e) = sext (sg mh m) + unat e"
    using ue pg unsigned_less[of pages, where ?'a = nat] by (subst u16_add_unat) auto
  have en: "unat (page_base (holes mh n) + e) = sbase (sg mh n) + unat e"
    using bnd le by (subst u16_add_unat) (auto simp: word_le_nat_alt)
  have sgs: "sg mh2 m = (sg mh m)\<lparr>sext := sext (sg mh m) + unat e\<rparr>"
    "sg mh2 n = (sg mh n)\<lparr>sbase := sbase (sg mh n) + unat e, sext := sext (sg mh n) - unat e\<rparr>"
    "sg mh3 m = (sg mh m)\<lparr>sext := sext (sg mh m) + unat e\<rparr>"
    using mn em en le fr
    by (simp_all add: mh1_def mh2_def mh3_def u16_sub_unat) (simp_all add: sg_def seg_of_def u16_sub_unat)
  show ?thesis
  proof (cases "extent (holes mh n) = e")
    case True
    then have k: "unat e = sext (sg mh n)" by simp
    have a: "mh_size mh3 = mh_size mh" "nx mh3 = (nx mh)(m := nx mh n)"
      "hflags (holes mh3 m) = hflags (holes mh m)" "hflags (holes mh3 n) = HOLE_FREE"
      "\<And>i. i \<noteq> m \<Longrightarrow> i \<noteq> n \<Longrightarrow> holes mh3 i = holes mh i"
      using mn fr by (auto simp: mh1_def mh2_def mh3_def nx_def fun_eq_iff)
    note g = grow_all_inv[OF inv c used free a(1,2) sgs(3)[unfolded k] a(3,4,5), simplified]
    show ?thesis
    proof (rule that[of mh3])
      show "mm_resize adv mh mem m pages = Inr (Some m, mh3, mem)" using run True by simp
      show "mm_inv lo hi mh3" by (rule g(1))
      have tot: "unat pages = sext (sg mh m) + sext (sg mh n)" using ue k by linarith
      show "used_total (segs mh3) = used_total (segs mh) + (unat pages - sext (sg mh m))"
        unfolding g(3) f(4) tot using used free by (simp add: used_total_def)
      show "mm_tidy mh3 \<longleftrightarrow> unat pages \<noteq> sext (sg mh m) + sext (sg mh n)"
        using g(2) tot by blast
    qed
  next
    case False
    then have k: "unat e < sext (sg mh n)"
      using le by (simp add: word_le_nat_alt word_unat_eq_iff)
    have a: "mh_size mh2 = mh_size mh" "nx mh2 = nx mh"
      "hflags (holes mh2 m) = hflags (holes mh m)" "hflags (holes mh2 n) = hflags (holes mh n)"
      "\<And>i. i \<noteq> m \<Longrightarrow> i \<noteq> n \<Longrightarrow> holes mh2 i = holes mh i"
      using mn by (auto simp: mh1_def mh2_def nx_def fun_eq_iff)
    note g = grow_part_inv[OF inv c used free k a(1,2) sgs(1,2) a(3,4,5), simplified]
    show ?thesis
    proof (rule that[of mh2])
      show "mm_resize adv mh mem m pages = Inr (Some m, mh2, mem)" using run False by simp
      show "mm_inv lo hi mh2" by (rule g(1))
      show "used_total (segs mh2) = used_total (segs mh) + (unat pages - sext (sg mh m))"
        unfolding g(3) f(4) using used free ue by (simp add: used_total_def)
      show "mm_tidy mh2 \<longleftrightarrow> unat pages \<noteq> sext (sg mh m) + sext (sg mh n)" if "mm_tidy mh"
        using g(2)[OF that] k ue by linarith
    qed
  qed
qed

section \<open>Properties\<close>

abbreviation boot_map :: malloc_head where
  "boot_map \<equiv> mm_init memmap0 0x1000 0x9000"

lemma boot_map_ok:
  "mm_inv 0x1000 0x9000 boot_map" "mm_tidy boot_map" "mh_size boot_map = MAX_SEGMENTS"
  "segs boot_map = [\<lparr>sbase = 0x1000, sext = 0x8000, sfree = True, sref = 0\<rparr>]"
  using mm_init_ok[of memmap0 "0x1000" "0x9000"]
  by (simp_all add: memmap0_def)

lemma boot_alloc:
  assumes "0 < n" and "n \<le> (0x8000 :: u16)"
  obtains mh where "mm_alloc boot_map n = Inr (0x1000, mh)" and "mm_inv 0x1000 0x9000 mh"
    and "mm_tidy mh"
    and "segs mh = carve (unat n) \<lparr>sbase = 0x1000, sext = 0x8000, sfree = True, sref = 0\<rparr>"
proof -
  have n: "n \<noteq> 0" using assms(1) by auto
  have "unat n \<le> 0x8000" using assms(2) by (simp add: word_le_nat_alt)
  then have fit: "\<exists>x\<in>set (segs boot_map). fits (unat n) x" by (simp add: boot_map_ok fits_def)
  from boot_map_ok(1) n show ?thesis
  proof (rule mm_alloc_outcome)
    assume "alloc_hole boot_map = Inl (Panic ''mm: too many holes'')"
    with spare_exists[OF boot_map_ok(1,2)] show ?thesis by (simp add: boot_map_ok)
  next
    fix r mh
    assume *: "mm_alloc boot_map n = Inr (r, mh)" "mm_inv 0x1000 0x9000 mh"
      "mm_tidy boot_map \<Longrightarrow> mm_tidy mh" "alloc_spec (segs boot_map) (unat n) (unat r) (segs mh)"
    then have "unat r = 0x1000"
      and "segs mh = carve (unat n) \<lparr>sbase = 0x1000, sext = 0x8000, sfree = True, sref = 0\<rparr>"
      by (auto simp: alloc_spec_def boot_map_ok(4) Cons_eq_append_conv)
    then show ?thesis using that * boot_map_ok(2) by (auto simp: word_unat_eq_iff)
  qed (use fit in auto)
qed

text \<open>C1: 
  \<^verbatim>\<open>mm_alloc\<close> refines the best-fit specification. On a well-formed map
  with a spare descriptor it always returns; it returns NULL and changes
  nothing exactly when no free segment is large enough, and otherwise the
  segments afterwards are those of the specification, with the invariant kept.
\<close>

theorem mm_alloc_correct:
  assumes "mm_inv lo hi mh" and "mm_tidy mh" and "length (segs mh) < mh_size mh" and "n \<noteq> 0"
  shows "\<exists>r mh'. mm_alloc mh n = Inr (r, mh') \<and> mm_inv lo hi mh' \<and> mm_tidy mh' \<and>
    (if \<exists>x\<in>set (segs mh). fits (unat n) x
     then r \<noteq> 0 \<and> alloc_spec (segs mh) (unat n) (unat r) (segs mh')
     else r = 0 \<and> mh' = mh)"
  using assms(1,4)
proof (rule mm_alloc_outcome)
  assume "alloc_hole mh = Inl (Panic ''mm: too many holes'')"
  then show ?thesis using spare_exists[OF assms(1-3)] by simp
next
  fix r mh'
  assume *: "mm_alloc mh n = Inr (r, mh')" "r \<noteq> 0"
    "alloc_spec (segs mh) (unat n) (unat r) (segs mh')" "mm_inv lo hi mh'" "mm_tidy mh \<Longrightarrow> mm_tidy mh'"
  then have "\<exists>x\<in>set (segs mh). fits (unat n) x" by (auto simp: alloc_spec_def)
  with * assms(2) show ?thesis by auto
qed (use assms in auto)

theorem mm_alloc_correct_witness:
  "\<exists>r mh'. mm_alloc boot_map 0x40 = Inr (r, mh') \<and> mm_inv 0x1000 0x9000 mh' \<and>
     alloc_spec (segs boot_map) 0x40 (unat r) (segs mh')"
  using mm_alloc_correct[OF boot_map_ok(1,2), of "0x40"]
  by (auto simp: boot_map_ok fits_def)

text \<open>
  a segment handed out by \<^verbatim>\<open>mm_alloc\<close> overlaps no segment in use, lies
  inside the managed memory, and is the only change of ownership.
\<close>

theorem mm_alloc_disjoint:
  assumes "mm_inv lo hi mh" and "n \<noteq> 0" and "mm_alloc mh n = Inr (r, mh')" and "r \<noteq> 0"
  shows "{unat r ..< unat r + unat n} \<inter> used_area (segs mh) = {} \<and>
    used_area (segs mh') = used_area (segs mh) \<union> {unat r ..< unat r + unat n} \<and>
    lo \<le> unat r \<and> unat r + unat n \<le> hi"
  using mp.alloc_new_area[OF assms] by blast

theorem mm_alloc_disjoint_witness:
  "\<exists>mh'. mm_alloc boot_map 0x40 = Inr (0x1000, mh') \<and> used_area (segs mh') = {0x1000 ..< 0x1040}"
proof -
  obtain mh where mh: "mm_alloc boot_map 0x40 = Inr (0x1000, mh)" by (rule boot_alloc[of "0x40"]) auto
  have "used_area (segs boot_map) = {}" by (simp add: boot_map_ok)
  then show ?thesis using mh mm_alloc_disjoint[OF boot_map_ok(1) _ mh] by auto
qed

lemma mm_reach_ok:
  assumes "mm_reach start fin mh" and "0 < start" and "start < fin"
  shows "mm_inv (unat start) (unat fin) mh \<and> mm_tidy mh \<and> mh_size mh = MAX_SEGMENTS"
  using assms
proof (induction rule: mm_reach.induct)
  case reach_init
  then show ?case using mm_init_ok(1,3,4)[of memmap0 start fin] by (simp add: memmap0_def)
next
  case (reach_step mh mh')
  then show ?case using mm_step_ok by fastforce
qed

text \<open>C2: 
  every map reached from \<^verbatim>\<open>mm_init\<close> by allocations, shares and releases
  is well formed: the segments tile the managed memory, free neighbours are
  merged, reference counts are positive exactly on used segments, and every
  descriptor outside the list is spare.
\<close>

theorem mm_reach_invariant:
  assumes "mm_reach start fin mh" and "0 < start" and "start < fin"
  shows "mm_inv (unat start) (unat fin) mh \<and> mm_tidy mh \<and>
    free_total (segs mh) + used_total (segs mh) = unat fin - unat start"
  using mm_reach_ok[OF assms] tiles_total[of "unat start" "segs mh" "unat fin"]
  by (auto simp: mm_inv_def)

theorem mm_reach_invariant_witness:
  "\<exists>mh. mm_step boot_map mh \<and> free_total (segs mh) + used_total (segs mh) = 0x8000 \<and> mm_tidy mh"
proof -
  obtain mh where "mm_alloc boot_map 0x40 = Inr (0x1000, mh)" by (rule boot_alloc[of "0x40"]) auto
  then have st: "mm_step boot_map mh" by (intro step_alloc[of "0x40"]) simp_all
  then have "mm_reach 0x1000 0x9000 mh" by (rule reach_step[OF reach_init])
  from mm_reach_invariant[OF this] st show ?thesis by auto
qed

text \<open>
  with at most 18 segments in use, \<^verbatim>\<open>mm_alloc\<close> on a reachable map never
  panics for want of a descriptor, however the memory is fragmented. (The
  array has 38 descriptors, and merged free segments are at most one more than
  the used ones.)
\<close>

theorem mm_alloc_no_panic:
  assumes "mm_reach start fin mh" and "0 < start" and "start < fin"
    and "length (filter (Not \<circ> sfree) (segs mh)) \<le> 18" and "n \<noteq> 0"
  shows "\<exists>r mh'. mm_alloc mh n = Inr (r, mh')"
proof (cases "mm_alloc mh n")
  case (Inl e)
  have inv: "mm_inv (unat start) (unat fin) mh" and tidy: "mm_tidy mh"
    and sz: "mh_size mh = MAX_SEGMENTS"
    using mm_reach_ok[OF assms(1-3)] by auto
  have "length (segs mh) \<le> 37"
    using coalesced_length[of "segs mh"] inv assms(4) by (simp add: mm_inv_def split: if_splits)
  with mm_alloc_panic_tidy[OF inv tidy assms(5) Inl] sz show ?thesis by simp
qed (metis surj_pair)

theorem mm_alloc_no_panic_witness: "\<exists>r mh'. mm_alloc boot_map 0x9000 = Inr (r, mh')"
  using mm_alloc_no_panic[OF reach_init, of "0x1000" "0x9000" "0x9000"] by (simp add: boot_map_ok)

text \<open>C3: 
  \<^verbatim>\<open>mm_free\<close> on every branch. A base that starts no segment panics with
  "mm corruption", a free segment panics with "double free"; a used segment
  loses one reference, and with the last one becomes free and is merged with
  free neighbours. The invariant is kept.
\<close>

theorem mm_free_correct:
  assumes "mm_inv lo hi mh"
  shows "case find (\<lambda>x. sbase x = unat b) (segs mh) of
      None \<Rightarrow> mm_free mh b = Inl (Panic ''mm corruption'')
    | Some x \<Rightarrow>
        if sfree x then mm_free mh b = Inl (Panic ''double free'')
        else \<exists>mh'. mm_free mh b = Inr mh' \<and> mm_inv lo hi mh' \<and>
               free_spec (segs mh) (unat b) (segs mh')"
proof (cases "find (\<lambda>x. sbase x = unat b) (segs mh)")
  case None
  then have "find_hole mh b = Inr None"
    using find_hole_absent[OF assms] by (auto simp: find_None_iff)
  with None show ?thesis by (simp add: mm_free_def)
next
  case (Some x)
  then have x: "x \<in> set (segs mh)" "sbase x = unat b" by (auto simp: find_Some_iff)
  show ?thesis
  proof (cases "sfree x")
    case True
    from find_hole_used[OF assms x] obtain m where
      "find_hole mh b = Inr (Some m)" "sg mh m = x" by metis
    with True have "mm_free mh b = Inl (Panic ''double free'')" by (auto simp: mm_free_def)
    with Some True show ?thesis by simp
  next
    case False
    then show ?thesis using Some mm_free_ok[OF assms x] by auto
  qed
qed

theorem mm_free_correct_witness:
  "mm_free boot_map 0x1000 = Inl (Panic ''double free'') \<and>
   mm_free boot_map 0x2000 = Inl (Panic ''mm corruption'')"
  using mm_free_correct[OF boot_map_ok(1), of "0x1000"] mm_free_correct[OF boot_map_ok(1), of "0x2000"]
  by (simp add: boot_map_ok)

text \<open>C4: 
  releasing a segment just allocated restores the map: the same segments,
  with the same extents, states and reference counts as before the allocation.
\<close>

theorem mm_alloc_free_roundtrip:
  assumes "mm_inv lo hi mh" and "n \<noteq> 0" and "mm_alloc mh n = Inr (r, mh')" and "r \<noteq> 0"
  shows "\<exists>mh''. mm_free mh' r = Inr mh'' \<and> segs mh'' = segs mh \<and> mm_inv lo hi mh''"
  by (rule mp.alloc_release[OF assms])

theorem mm_alloc_free_roundtrip_witness:
  "\<exists>mh' mh''. mm_alloc boot_map 0x40 = Inr (0x1000, mh') \<and> mm_free mh' 0x1000 = Inr mh'' \<and>
     segs mh'' = [\<lparr>sbase = 0x1000, sext = 0x8000, sfree = True, sref = 0\<rparr>]"
proof -
  obtain mh where mh: "mm_alloc boot_map 0x40 = Inr (0x1000, mh)" by (rule boot_alloc[of "0x40"]) auto
  then show ?thesis
    using mm_alloc_free_roundtrip[OF boot_map_ok(1) _ mh] by (auto simp: boot_map_ok)
qed

text \<open>
  C7: sharing a used segment with \<^verbatim>\<open>mm_realloc\<close> returns its base and takes no
  memory, and one \<^verbatim>\<open>mm_free\<close> undoes it.
\<close>

theorem mm_realloc_free_roundtrip:
  assumes "mm_inv lo hi mh" and "x \<in> set (segs mh)" and "sbase x = unat b"
    and "\<not> sfree x" and "sref x < 255"
  shows "\<exists>mh' mh''. mm_realloc mh b = Inr (b, mh') \<and> mm_free mh' b = Inr mh'' \<and>
    segs mh'' = segs mh \<and> used_area (segs mh') = used_area (segs mh)"
  by (rule mp.share_release[OF assms])

theorem mm_realloc_free_roundtrip_witness:
  "\<exists>mh mh' mh''. mm_alloc boot_map 0x40 = Inr (0x1000, mh) \<and> mm_realloc mh 0x1000 = Inr (0x1000, mh') \<and>
     mm_free mh' 0x1000 = Inr mh'' \<and> segs mh'' = segs mh"
proof -
  obtain mh where mh: "mm_alloc boot_map 0x40 = Inr (0x1000, mh)" "mm_inv 0x1000 0x9000 mh"
    "segs mh = carve 0x40 \<lparr>sbase = 0x1000, sext = 0x8000, sfree = True, sref = 0\<rparr>"
    by (rule boot_alloc[of "0x40"]) auto
  from mm_realloc_free_roundtrip[OF mh(2), of "\<lparr>sbase = 0x1000, sext = 0x40, sfree = False, sref = 1\<rparr>" "0x1000"]
  show ?thesis using mh(1) by (auto simp: mh(3) carve_def)
qed

text \<open>
  C10: \<^verbatim>\<open>mm_get_usage\<close> walks the whole list and reports the used or the free
  memory exactly, in units of 64 paragraphs (one kilobyte), without overflow.
\<close>

theorem mm_get_usage_exact:
  assumes "mm_inv lo hi mh"
  shows "\<exists>r. mm_get_usage mh used = Inr r \<and>
    unat r = (if used then used_total (segs mh) else free_total (segs mh)) div 64"
  by (rule mm_get_usage_ok[OF assms])

theorem mm_get_usage_exact_witness:
  "\<exists>r. mm_get_usage boot_map False = Inr r \<and> unat r = 0x200"
  using mm_get_usage_exact[OF boot_map_ok(1), of False] by (simp add: boot_map_ok free_total_def)

text \<open>C5: 
  \<^verbatim>\<open>mm_dup\<close> of a used segment smaller than 64 kilobytes hands out a new
  segment of the same extent whose bytes are those of the original, and no
  other byte of memory changes. It returns NULL only if nothing fits.
\<close>

theorem mm_dup_copies:
  assumes "mm_inv lo hi mh" and "mm_tidy mh" and "length (segs mh) < mh_size mh"
    and "x \<in> set (segs mh)" and "sbase x = unat b" and "\<not> sfree x" and "sext x < 4096"
  shows "\<exists>r mh' mem'. mm_dup mh mem b = Inr (r, mh', mem') \<and>
    (if \<exists>y\<in>set (segs mh). fits (sext x) y
     then r \<noteq> 0 \<and> mm_inv lo hi mh' \<and> alloc_spec (segs mh) (sext x) (unat r) (segs mh') \<and>
       (\<forall>off<16 * sext x. mem' (16 * unat r + off) = mem (16 * unat b + off)) \<and>
       (\<forall>a. a < 16 * unat r \<or> 16 * (unat r + sext x) \<le> a \<longrightarrow> mem' a = mem a)
     else r = 0 \<and> mh' = mh \<and> mem' = mem)"
proof -
  define e where "e = (of_nat (sext x) :: u16)"
  have ue: "unat e = sext x" using assms(7) by (simp add: e_def unat_of_nat)
  have "0 < sext x" using tiles_mem[of lo "segs mh" hi x] assms(1,4) by (simp add: mm_inv_def)
  then have e0: "e \<noteq> 0" using ue by (auto simp: unat_gt_0[symmetric])
  note dup = mm_dup_alloc[OF assms(1,4-6) ue, of mem]
  from assms(1) e0 show ?thesis
  proof (rule mm_alloc_outcome)
    assume "alloc_hole mh = Inl (Panic ''mm: too many holes'')"
    then show ?thesis using spare_exists[OF assms(1-3)] by simp
  next
    fix r mh'
    assume al: "mm_alloc mh e = Inr (r, mh')" and r: "r \<noteq> 0"
      and spec: "alloc_spec (segs mh) (unat e) (unat r) (segs mh')"
    then obtain mem' where run: "mm_dup mh mem b = Inr (r, mh', mem')" by (simp add: dup)
    have "\<exists>y\<in>set (segs mh). fits (sext x) y" using spec ue by (auto simp: alloc_spec_def)
    with run r mm_dup_memory[OF assms(1,4-7) run r] show ?thesis by (auto simp: algebra_simps)
  qed (use dup ue in auto)
qed

theorem mm_dup_copies_witness:
  "\<exists>mh r mh' mem'. mm_alloc boot_map 0x40 = Inr (0x1000, mh) \<and>
     mm_dup mh (\<lambda>a. of_nat a) 0x1000 = Inr (r, mh', mem') \<and> r \<noteq> 0 \<and>
     mem' (16 * unat r + 5) = of_nat (16 * 0x1000 + 5)"
proof -
  let ?x = "\<lparr>sbase = 0x1000, sext = 0x40, sfree = False, sref = 1\<rparr>"
  obtain mh where mh: "mm_alloc boot_map 0x40 = Inr (0x1000, mh)" "mm_inv 0x1000 0x9000 mh" "mm_tidy mh"
    "segs mh = carve 0x40 \<lparr>sbase = 0x1000, sext = 0x8000, sfree = True, sref = 0\<rparr>"
    by (rule boot_alloc[of "0x40"]) auto
  have "mm_step boot_map mh" using mh(1) by (intro step_alloc[of "0x40"]) simp_all
  then have sz: "mh_size mh = MAX_SEGMENTS"
    using mm_step_ok[OF _ boot_map_ok(1,2)] boot_map_ok(3) by simp
  have fit: "\<exists>y\<in>set (segs mh). fits 0x40 y" by (simp add: mh(4) carve_def fits_def)
  from mm_dup_copies[OF mh(2,3), of ?x "0x1000" "\<lambda>a. of_nat a"] fit sz show ?thesis
    using mh(1) by (fastforce simp: mh(4) carve_def)
qed

text \<open>C6: 
  a segment of exactly 64 kilobytes, the largest \<^verbatim>\<open>sys_execve\<close> allows, is
  not duplicated: the byte count \<^verbatim>\<open>extent << 4\<close> wraps to 0 in 16 bits, so
  \<^verbatim>\<open>mm_dup\<close> returns a segment of that extent and copies nothing into it.
\<close>

theorem mm_dup_64k_copies_nothing:
  assumes "mm_inv lo hi mh" and "mm_tidy mh" and "length (segs mh) < mh_size mh"
    and "x \<in> set (segs mh)" and "sbase x = unat b" and "\<not> sfree x" and "sext x = 4096"
    and "\<exists>y\<in>set (segs mh). fits 4096 y"
  shows "\<exists>r mh'. mm_dup mh mem b = Inr (r, mh', mem) \<and> r \<noteq> 0 \<and>
    alloc_spec (segs mh) 4096 (unat r) (segs mh')"
proof -
  have ue: "unat (0x1000 :: u16) = sext x" using assms(7) by simp
  note dup = mm_dup_alloc[OF assms(1,4-6) ue, of mem]
  from assms(1) show ?thesis
  proof (rule mm_alloc_outcome[of _ _ _ "0x1000"])
    assume "alloc_hole mh = Inl (Panic ''mm: too many holes'')"
    then show ?thesis using spare_exists[OF assms(1-3)] by simp
  next
    fix r mh'
    assume "mm_alloc mh 0x1000 = Inr (r, mh')" "r \<noteq> 0"
      "alloc_spec (segs mh) (unat (0x1000 :: u16)) (unat r) (segs mh')"
    then show ?thesis using push4_64k[of "0x1000"] by (simp add: dup)
  qed (use assms(8) in auto)
qed

theorem mm_dup_64k_copies_nothing_witness:
  "\<exists>mh r mh'. mm_alloc boot_map 0x1000 = Inr (0x1000, mh) \<and>
     mm_dup mh (\<lambda>a. of_nat a) 0x1000 = Inr (r, mh', \<lambda>a. of_nat a) \<and> r \<noteq> 0"
proof -
  let ?x = "\<lparr>sbase = 0x1000, sext = 0x1000, sfree = False, sref = 1\<rparr>"
  obtain mh where mh: "mm_alloc boot_map 0x1000 = Inr (0x1000, mh)" "mm_inv 0x1000 0x9000 mh" "mm_tidy mh"
    "segs mh = carve 0x1000 \<lparr>sbase = 0x1000, sext = 0x8000, sfree = True, sref = 0\<rparr>"
    by (rule boot_alloc[of "0x1000"]) auto
  have "mm_step boot_map mh" using mh(1) by (intro step_alloc[of "0x1000"]) simp_all
  then have sz: "mh_size mh = MAX_SEGMENTS"
    using mm_step_ok[OF _ boot_map_ok(1,2)] boot_map_ok(3) by simp
  from mm_dup_64k_copies_nothing[OF mh(2,3), of ?x "0x1000" "\<lambda>a. of_nat a"] sz show ?thesis
    using mh(1) by (auto simp: mh(4) carve_def fits_def)
qed

text \<open>
  growing a used hole into the free hole behind it with \<^verbatim>\<open>mm_resize\<close> keeps
  the map well formed and adds exactly the missing paragraphs; but when the
  free hole is used up entirely its descriptor is lost: it leaves the list
  without being marked spare, so the map is tidy afterwards only if some of
  the free hole remains.
\<close>

theorem mm_resize_grows_and_leaks:
  assumes "mm_inv lo hi mh" and "mm_tidy mh" and "mm_chain mh = xs @ m # n # ys"
    and "\<not> sfree (sg mh m)" and "sfree (sg mh n)" and "extent (holes mh m) < pages"
    and "unat pages \<le> sext (sg mh m) + sext (sg mh n)"
  shows "\<exists>mh'. mm_resize adv mh mem m pages = Inr (Some m, mh', mem) \<and> mm_inv lo hi mh' \<and>
    used_total (segs mh') = used_total (segs mh) + (unat pages - sext (sg mh m)) \<and>
    (mm_tidy mh' \<longleftrightarrow> unat pages \<noteq> sext (sg mh m) + sext (sg mh n))"
  using mm_resize_inplace[OF assms(1,3-7), of adv mem] assms(2) by metis

theorem mm_resize_grows_and_leaks_witness:
  "\<exists>mh mh'. mm_alloc boot_map 0x40 = Inr (0x1000, mh) \<and> mm_tidy mh \<and>
     mm_resize False mh (\<lambda>_. 0) 0 0x8000 = Inr (Some 0, mh', \<lambda>_. 0) \<and> \<not> mm_tidy mh'"
proof -
  obtain mh where mh: "mm_alloc boot_map 0x40 = Inr (0x1000, mh)" "mm_inv 0x1000 0x9000 mh" "mm_tidy mh"
    and s: "segs mh = carve 0x40 \<lparr>sbase = 0x1000, sext = 0x8000, sfree = True, sref = 0\<rparr>"
    by (rule boot_alloc[of "0x40"]) auto
  have "chain (nx mh) (Some 0) (mm_chain mh)" using mh(2) by (simp add: mm_inv_def)
  then obtain is' where c0: "mm_chain mh = 0 # is'" by (auto simp: chain_Some)
  with s obtain j where c: "mm_chain mh = [] @ 0 # j # []"
    and s0: "sg mh 0 = \<lparr>sbase = 0x1000, sext = 0x40, sfree = False, sref = 1\<rparr>"
    and sj: "sg mh j = \<lparr>sbase = 0x1040, sext = 0x7FC0, sfree = True, sref = 0\<rparr>"
    by (auto simp: segs_def carve_def)
  have "extent (holes mh 0) < 0x8000"
    using arg_cong[OF s0, of sext] by (simp add: word_less_nat_alt)
  from mm_resize_grows_and_leaks[OF mh(2,3) c _ _ this] s0 sj mh(1,3) show ?thesis
    by (auto simp del: sg_simps)
qed

end
