(* ===== verification/Ramdisk.thy ===== *)
theory Ramdisk
  imports BufferCache Malloc Icache
begin

text \<open>
  The RAM disk, \<^verbatim>\<open>arch/i86/drivers/block/rd.c\<close>: eight disks, each a list of segments of at most
  64 KB taken from the segment allocator. Sizes count sectors of 512 bytes; a request moves
  a block of 1024 bytes between physical memory and an area of the buffer cache.
  \<^verbatim>\<open>rd_segment[]\<close> has eight entries, the number 9 ends the lists. The driver is an instance of
  the locale \<open>block_driver\<close> as long as each disk has one segment.
\<close>

section \<open>State\<close>

record rd_infot =
  rd_index :: u16
  rd_flags :: u16
  rd_size :: u16

record rd_segmentt =
  segment :: u16
  rd_next :: u16
  seg_size :: u16

record rd =
  rd_initialised :: bool
  rd_info :: "nat \<Rightarrow> rd_infot"
  rd_segment :: "nat \<Rightarrow> rd_segmentt"
  rd_mem :: memory

abbreviation RD_BUSY :: u16 where "RD_BUSY \<equiv> 1"
abbreviation MAX_ENTRIES :: u16 where "MAX_ENTRIES \<equiv> 8"
abbreviation RAM_MAJOR :: u16 where "RAM_MAJOR \<equiv> 1"

definition DEVICE_NR :: "u16 \<Rightarrow> nat" where "DEVICE_NR dev = unat (dev AND 7)"

definition upd_info :: "nat \<Rightarrow> (rd_infot \<Rightarrow> rd_infot) \<Rightarrow> rd \<Rightarrow> rd" where
  "upd_info t f d = d\<lparr>rd_info := (rd_info d)(t := f (rd_info d t))\<rparr>"

definition upd_seg :: "nat \<Rightarrow> (rd_segmentt \<Rightarrow> rd_segmentt) \<Rightarrow> rd \<Rightarrow> rd" where
  "upd_seg j f d = d\<lparr>rd_segment := (rd_segment d)(j := f (rd_segment d j))\<rparr>"

section \<open>Requests\<close>

text \<open>\<^verbatim>\<open>fmemcpy\<close> from and to an area of the buffer cache, with 16-bit offsets.\<close>

primrec store_bytes :: "nat \<Rightarrow> memory \<Rightarrow> seg_t \<Rightarrow> u16 \<Rightarrow> bytes \<Rightarrow> memory" where
  "store_bytes 0 mem seg off d = mem"
| "store_bytes (Suc n) mem seg off d = (store_bytes n mem seg off d)(lin seg (off + of_nat n) := d n)"

definition load_bytes :: "memory \<Rightarrow> seg_t \<Rightarrow> u16 \<Rightarrow> bytes \<Rightarrow> bytes" where
  "load_bytes mem seg off d = (\<lambda>i. if i < 1024 then mem (lin seg (off + of_nat i)) else d i)"

text \<open>The walk to the segment of a sector. It ends when the offset is at most the size of the
  segment. Each turn takes the size of a segment off the offset; eight turns without
  progress come back to a segment of size 0.\<close>

primrec seg_walk :: "nat \<Rightarrow> u16 \<Rightarrow> u16 \<Rightarrow> rd \<Rightarrow> (u16 \<times> u16) kres" where
  "seg_walk 0 offset segnum d = Inl Stuck"
| "seg_walk (Suc n) offset segnum d =
    (if \<not> segnum < MAX_ENTRIES then Inl OutOfBounds
     else if offset > seg_size (rd_segment d (unat segnum))
     then seg_walk n (offset - seg_size (rd_segment d (unat segnum))) (rd_next (rd_segment d (unat segnum))) d
     else Inr (offset, segnum))"

primrec rd_loop :: "nat \<Rightarrow> rd bcache \<Rightarrow> rd bcache kres" where
  "rd_loop 0 s = Inl Stuck"
| "rd_loop (Suc n) s =
    (case current_request s RAM_MAJOR of
       None \<Rightarrow> Inr s
     | Some r \<Rightarrow>
         let q = all_requests s r; d = devs s in
         if MAJOR (rq_dev q) \<noteq> RAM_MAJOR then Inl (Panic ''request list destroyed'')
         else if \<not> b_lock (buffers s (rq_bh q)) then Inl (Panic ''block not locked'')
         else if rq_sector q = - 1 then Inr s
         else if \<not> rd_initialised d then bindr (end_request False RAM_MAJOR s) (rd_loop n)
         else
           let start = ucast (rq_sector q) :: u16;
               target = DEVICE_NR (rq_dev q)
           in if rd_flags (rd_info d target) \<noteq> RD_BUSY \<or> start \<ge> rd_size (rd_info d target)
              then bindr (end_request False RAM_MAJOR s) (rd_loop n)
              else
                bindr (seg_walk (8 * unat start + 9) start (rd_index (rd_info d target)) d) (\<lambda>(offset, segnum).
                  let seg = segment (rd_segment d (unat segnum));
                      area = rq_buffer q;
                      s = (case rq_cmd q of
                             WRITE \<Rightarrow> s\<lparr>devs := d\<lparr>rd_mem := store_bytes 1024 (rd_mem d) seg (offset * 512) (bufmem s area)\<rparr>\<rparr>
                           | READ \<Rightarrow> s\<lparr>bufmem := (bufmem s)(area := load_bytes (rd_mem d) seg (offset * 512) (bufmem s area))\<rparr>)
                  in bindr (end_request True RAM_MAJOR s) (rd_loop n)))"

definition do_rd_request :: "rd bcache \<Rightarrow> rd bcache kres" where
  "do_rd_request s = rd_loop (NR_REQUEST + 1) s"

text \<open>\<^verbatim>\<open>blk_dev[]\<close> with the RAM disk registered.\<close>

definition rd_drivers :: "rd drivers" where
  "rd_drivers = (\<lambda>_. None)(RAM_MAJOR := Some do_rd_request)"

section \<open>Creating and destroying\<close>

definition find_free_seg :: "rd \<Rightarrow> int" where
  "find_free_seg d = (case find (\<lambda>i. seg_size (rd_segment d i) = 0) [0..<8] of Some i \<Rightarrow> int i | None \<Rightarrow> - 1)"

text \<open>The condition of the loop looks at \<^verbatim>\<open>rd_segment[9]\<close> before it compares the index with 9; whatever
  is there, the comparison ends the loop.\<close>

primrec dealloc_loop :: "nat \<Rightarrow> u16 \<Rightarrow> malloc_head \<Rightarrow> rd \<Rightarrow> (malloc_head \<times> rd) kres" where
  "dealloc_loop 0 i mh d = Inl Stuck"
| "dealloc_loop (Suc n) i mh d =
    (if i = MAX_ENTRIES + 1 then Inr (mh, d)
     else if \<not> i < MAX_ENTRIES then Inl OutOfBounds
     else if seg_size (rd_segment d (unat i)) = 0 then Inr (mh, d)
     else
       bindr (mm_free mh (segment (rd_segment d (unat i)))) (\<lambda>mh.
         dealloc_loop n (rd_next (rd_segment d (unat i))) mh
           (upd_seg (unat i) (\<lambda>_. \<lparr>segment = 0, rd_next = MAX_ENTRIES + 1, seg_size = 0\<rparr>) d)))"

definition rd_dealloc :: "nat \<Rightarrow> malloc_head \<Rightarrow> rd \<Rightarrow> (malloc_head \<times> rd) kres" where
  "rd_dealloc target mh d =
    bindr (dealloc_loop 9 (rd_index (rd_info d target)) mh d) (\<lambda>(mh, d).
      Inr (mh, upd_info target (\<lambda>i. i\<lparr>rd_flags := 0\<rparr>) d))"

text \<open>\<^verbatim>\<open>fmemset(off, seg, 0, count)\<close>.\<close>

definition clear_bytes :: "u16 \<Rightarrow> memory \<Rightarrow> seg_t \<Rightarrow> u16 \<Rightarrow> memory" where
  "clear_bytes off mem seg count = store_bytes (unat count) mem seg off (\<lambda>_. 0)"

primrec rd_create_loop :: "nat \<Rightarrow> u16 \<Rightarrow> u16 \<Rightarrow> nat \<Rightarrow> int \<Rightarrow> malloc_head \<Rightarrow> rd \<Rightarrow> (int \<times> malloc_head \<times> rd) kres" where
  "rd_create_loop 0 i arg target k mh d = Inl Stuck"
| "rd_create_loop (Suc n) i arg target k mh d =
    (if \<not> i \<le> (arg - 1) div 64 then Inr (0, mh, upd_info target (\<lambda>f. f\<lparr>rd_flags := RD_BUSY\<rparr>) d)
     else
       let j = find_free_seg d
       in if j = - 1 then bindr (rd_dealloc target mh d) (\<lambda>(mh, d). Inr (- ENOMEM, mh, d))
          else
            let d = (if i = 0 then upd_info target (\<lambda>f. f\<lparr>rd_index := word_of_int j\<rparr>) d else d);
                pages = (if i = arg div 64 then (arg mod 64) * 64 else 4096)
            in bindr (mm_alloc mh pages) (\<lambda>(seg, mh).
                 let d = upd_seg (nat j) (\<lambda>g. g\<lparr>segment := seg\<rparr>) d
                 in if seg = - 1 then bindr (rd_dealloc target mh d) (\<lambda>(mh, d). Inr (- ENOMEM, mh, d))
                    else
                      let sectors = pages div 32;
                          d = upd_seg (nat j) (\<lambda>g. g\<lparr>seg_size := sectors\<rparr>) d;
                          d = upd_info target (\<lambda>f. f\<lparr>rd_size := rd_size f + sectors\<rparr>) d;
                          mem = (if unat sectors * 512 \<noteq> 65536 then clear_bytes 0 (rd_mem d) seg (of_nat (unat sectors * 512))
                                 else clear_bytes 32768 (clear_bytes 0 (rd_mem d) seg 32768) seg 32768);
                          d = d\<lparr>rd_mem := mem\<rparr>;
                          d = (if k \<noteq> - 1 then upd_seg (nat k) (\<lambda>g. g\<lparr>rd_next := word_of_int j\<rparr>) d else d)
                      in rd_create_loop n (i + 1) arg target j mh d))"

datatype rd_cmd = RDCREATE | RDDESTROY | RDOTHER

definition rd_ioctl :: "bool \<Rightarrow> u16 \<Rightarrow> rd_cmd \<Rightarrow> u16 \<Rightarrow> malloc_head \<Rightarrow> rd bcache \<Rightarrow> 'f vfs \<Rightarrow> (int \<times> malloc_head \<times> rd bcache \<times> 'f vfs) kres" where
  "rd_ioctl suser rdev cmd arg mh s v =
    (let target = DEVICE_NR rdev in
     if \<not> suser then Inr (- EPERM, mh, s, v)
     else case cmd of
       RDCREATE \<Rightarrow>
         if rd_flags (rd_info (devs s) target) \<noteq> 0 then Inr (- EBUSY, mh, s, v)
         else bindr (rd_create_loop 1025 0 arg target (- 1) mh (devs s)) (\<lambda>(ret, mh, d). Inr (ret, mh, s\<lparr>devs := d\<rparr>, v))
     | RDDESTROY \<Rightarrow>
         if rd_flags (rd_info (devs s) target) \<noteq> 0 then
           bindr (invalidate_inodes rdev v) (\<lambda>v.
             bindr (invalidate_buffers rdev s) (\<lambda>s.
               bindr (rd_dealloc target mh (devs s)) (\<lambda>(mh, d).
                 Inr (0, mh, s\<lparr>devs := upd_info target (\<lambda>f. f\<lparr>rd_flags := 0\<rparr>) d\<rparr>, v))))
         else Inr (- EINVAL, mh, s, v)
     | RDOTHER \<Rightarrow> Inr (- EINVAL, mh, s, v))"

section \<open>The contents of a disk\<close>

text \<open>The eight devices, and the blocks whose first sector is a 16-bit number.\<close>

definition rd_addr :: "u16 \<Rightarrow> u16 \<Rightarrow> bool" where
  "rd_addr dev block \<longleftrightarrow> 256 \<le> dev \<and> dev < 264 \<and> block < 32768"

definition rd_base :: "rd \<Rightarrow> nat \<Rightarrow> nat" where
  "rd_base d t = unat (segment (rd_segment d (unat (rd_index (rd_info d t))))) * 16"

definition rd_len :: "rd \<Rightarrow> nat \<Rightarrow> nat" where
  "rd_len d t = (unat (rd_size (rd_info d t)) + 1) div 2 * 1024"

definition rd_disk :: "rd \<Rightarrow> u16 \<Rightarrow> u16 \<Rightarrow> bytes option" where
  "rd_disk d dev block =
    (let t = DEVICE_NR dev in
     if rd_addr dev block \<and> rd_flags (rd_info d t) = RD_BUSY \<and> 2 * unat block < unat (rd_size (rd_info d t))
     then Some (clip (\<lambda>i. rd_mem d (rd_base d t + 1024 * unat block + i))) else None)"

text \<open>Disks of one segment, which do not overlap in memory.\<close>

definition rd_ok :: "rd \<Rightarrow> bool" where
  "rd_ok d \<longleftrightarrow> rd_initialised d \<and> (\<forall>t < 8. rd_flags (rd_info d t) = RD_BUSY \<longrightarrow>
    rd_index (rd_info d t) < MAX_ENTRIES \<and> rd_size (rd_info d t) \<le> seg_size (rd_segment d (unat (rd_index (rd_info d t)))) \<and>
    seg_size (rd_segment d (unat (rd_index (rd_info d t)))) \<le> 128 \<and> rd_base d t + rd_len d t \<le> 2 ^ 20 \<and>
    (\<forall>u < 8. u \<noteq> t \<and> rd_flags (rd_info d u) = RD_BUSY \<longrightarrow> rd_base d t + rd_len d t \<le> rd_base d u \<or> rd_base d u + rd_len d u \<le> rd_base d t))"

lemma rd_dev:
  assumes "rd_addr dev block"
  shows "MAJOR dev = RAM_MAJOR" "DEVICE_NR dev = unat dev - 256" "DEVICE_NR dev < 8" "unat block < 32768"
proof -
  have u: "256 \<le> unat dev" "unat dev < 264" using assms by (auto simp: rd_addr_def word_le_nat_alt word_less_nat_alt)
  then have "unat dev \<in> {256, 257, 258, 259, 260, 261, 262, 263}" by auto
  moreover have "dev = of_nat (unat dev)" by simp
  ultimately have "dev \<in> {256, 257, 258, 259, 260, 261, 262, 263}" by (elim insertE) (simp_all only: of_nat_numeral insert_iff, simp_all)
  then show "MAJOR dev = RAM_MAJOR" "DEVICE_NR dev = unat dev - 256" by (auto simp: MAJOR_def DEVICE_NR_def drop_bit_eq_div)
  then show "DEVICE_NR dev < 8" using u by simp
  show "unat block < 32768" using assms by (simp add: rd_addr_def word_less_nat_alt)
qed

lemma rd_dev_inj: "rd_addr dev b \<Longrightarrow> rd_addr dev' b' \<Longrightarrow> DEVICE_NR dev = DEVICE_NR dev' \<Longrightarrow> dev = dev'"
  using rd_dev(2)[of dev b] rd_dev(2)[of dev' b'] by (auto simp: rd_addr_def word_le_nat_alt word_unat_eq_iff)

lemma store_bytes_spec:
  assumes "\<And>i. i < n \<Longrightarrow> lin seg (off + of_nat i) = A + i"
  shows "store_bytes n mem seg off d a = (if A \<le> a \<and> a < A + n then d (a - A) else mem a)"
  using assms by (induction n) auto

lemma sector_u16: "unat (block :: u16) < 32768 \<Longrightarrow> (ucast (ucast block * 2 :: u32) :: u16) = block * 2"
proof -
  assume b: "unat block < 32768"
  have "unat (ucast block * 2 :: u32) = unat block * 2" using b by (simp add: unat_word_ariths unsigned_ucast_eq take_bit_nat_eq_self)
  then have "unat (ucast (ucast block * 2 :: u32) :: u16) = unat (block * 2)"
    using b by (simp add: unsigned_ucast_eq unat_word_ariths take_bit_eq_mod)
  then show ?thesis by (simp add: word_unat_eq_iff)
qed

section \<open>The driver serves the requests of the cache\<close>

lemma rd_place:
  assumes ok: "rd_ok d" and a: "rd_addr dev block" and busy: "rd_flags (rd_info d (DEVICE_NR dev)) = RD_BUSY"
    and inside: "2 * unat block < unat (rd_size (rd_info d (DEVICE_NR dev)))"
  shows "unat (rd_index (rd_info d (DEVICE_NR dev))) < 8" "\<not> block * 2 > seg_size (rd_segment d (unat (rd_index (rd_info d (DEVICE_NR dev)))))"
    "block * 2 < rd_size (rd_info d (DEVICE_NR dev))"
    "i < 1024 \<Longrightarrow> lin (segment (rd_segment d (unat (rd_index (rd_info d (DEVICE_NR dev)))))) (block * 2 * 512 + of_nat i) = rd_base d (DEVICE_NR dev) + 1024 * unat block + i"
    "rd_base d (DEVICE_NR dev) + 1024 * unat block + 1024 \<le> rd_base d (DEVICE_NR dev) + rd_len d (DEVICE_NR dev)"
proof -
  let ?t = "DEVICE_NR dev"
  note dv = rd_dev[OF a]
  have r: "rd_index (rd_info d ?t) < MAX_ENTRIES" "rd_size (rd_info d ?t) \<le> seg_size (rd_segment d (unat (rd_index (rd_info d ?t))))"
      "seg_size (rd_segment d (unat (rd_index (rd_info d ?t)))) \<le> 128" "rd_base d ?t + rd_len d ?t \<le> 2 ^ 20"
    using ok busy dv(3) by (auto simp: rd_ok_def)
  show "unat (rd_index (rd_info d ?t)) < 8" using r(1) by (simp add: word_less_nat_alt)
  have b2: "unat (block * 2) = 2 * unat block" using dv(4) by (simp add: unat_word_ariths)
  show lt: "block * 2 < rd_size (rd_info d ?t)" using inside b2 by (simp add: word_less_nat_alt)
  then show "\<not> block * 2 > seg_size (rd_segment d (unat (rd_index (rd_info d ?t))))" using r(2) by simp
  have b: "unat block < 64" using inside r(2,3) by (simp add: word_le_nat_alt)
  show le: "rd_base d ?t + 1024 * unat block + 1024 \<le> rd_base d ?t + rd_len d ?t" 
  proof -
    have "unat block + 1 \<le> (unat (rd_size (rd_info d ?t)) + 1) div 2" using inside by linarith
    then have "(unat block + 1) * 1024 \<le> rd_len d ?t" unfolding rd_len_def by (rule mult_le_mono1)
    then show ?thesis by simp
  qed
  assume i: "i < 1024"
  have "block * 2 * 512 = of_nat (1024 * unat block)" by simp
  then have "unat (block * 2 * 512) = 1024 * unat block" using b by (simp del: of_nat_mult of_nat_numeral)
  moreover have "unat (of_nat i :: u16) = i" using i by simp
  ultimately have "unat (block * 2 * 512 + of_nat i) = 1024 * unat block + i" using b i by (subst unat_u16_plus) simp_all
  moreover have "rd_base d ?t + (1024 * unat block + i) < 2 ^ 20" using le r(4) i by simp
  ultimately show "lin (segment (rd_segment d (unat (rd_index (rd_info d ?t))))) (block * 2 * 512 + of_nat i) = rd_base d ?t + 1024 * unat block + i"
    by (simp add: lin_def rd_base_def)
qed

lemma rd_loop_done: "end_request ok RAM_MAJOR s = Inr s' \<Longrightarrow> current_request s RAM_MAJOR = Some r \<Longrightarrow> rq_next (all_requests s r) = None \<Longrightarrow> rd_loop (Suc n) s' = Inr s'"
  by (auto simp: end_request_def Let_def unlock_buffer_def unmap_buffer_def)

lemma end_then_loop:
  assumes "current_request s RAM_MAJOR = Some r" "rq_next (all_requests s r) = None"
  shows "bindr (end_request ok RAM_MAJOR s) (rd_loop (Suc n)) = end_request ok RAM_MAJOR s"
proof (cases "end_request ok RAM_MAJOR s")
  case (Inr s')
  then show ?thesis using rd_loop_done[OF Inr assms] by (simp del: rd_loop.simps)
qed simp

lemma rd_disk_other:
  assumes ok: "rd_ok d" and m: "\<And>a. \<not> (A \<le> a \<and> a < A + 1024) \<Longrightarrow> m a = rd_mem d a" and A: "A = rd_base d (DEVICE_NR dev) + 1024 * unat block"
    and here: "rd_disk d dev block \<noteq> None" and ne: "dev' \<noteq> dev \<or> block' \<noteq> block"
  shows "rd_disk (d\<lparr>rd_mem := m\<rparr>) dev' block' = rd_disk d dev' block'"
proof (cases "rd_disk d dev' block' = None")
  case True
  then show ?thesis by (auto simp: rd_disk_def Let_def split: if_splits)
next
  case False
  let ?t = "DEVICE_NR dev" and ?u = "DEVICE_NR dev'"
  have a: "rd_addr dev block" "rd_flags (rd_info d ?t) = RD_BUSY" "2 * unat block < unat (rd_size (rd_info d ?t))"
    using here by (auto simp: rd_disk_def Let_def split: if_splits)
  have a': "rd_addr dev' block'" "rd_flags (rd_info d ?u) = RD_BUSY" "2 * unat block' < unat (rd_size (rd_info d ?u))"
    using False by (auto simp: rd_disk_def Let_def split: if_splits)
  note le = rd_place(5)[OF ok a] rd_place(5)[OF ok a']
  have "\<not> (A \<le> rd_base d ?u + 1024 * unat block' + i \<and> rd_base d ?u + 1024 * unat block' + i < A + 1024)" if "i < 1024" for i
  proof (cases "?t = ?u")
    case True
    then have "dev = dev'" using rd_dev_inj a(1) a'(1) by blast
    then have "unat block' \<noteq> unat block" using ne by (auto simp: word_unat_eq_iff)
    then show ?thesis using that True unfolding A by auto
  next
    case ne2: False
    have "rd_base d ?t + rd_len d ?t \<le> rd_base d ?u \<or> rd_base d ?u + rd_len d ?u \<le> rd_base d ?t"
      using ok a(2) a'(2) ne2 rd_dev(3)[OF a(1)] rd_dev(3)[OF a'(1)] by (auto simp: rd_ok_def)
    then show ?thesis using le that unfolding A by auto
  qed
  then have "clip (\<lambda>i. m (rd_base d ?u + 1024 * unat block' + i)) = clip (\<lambda>i. rd_mem d (rd_base d ?u + 1024 * unat block' + i))"
    using m by (auto simp: clip_def fun_eq_iff)
  then show ?thesis using a' by (simp add: rd_disk_def Let_def rd_base_def)
qed

lemma rd_serves:
  assumes ok: "rd_ok (devs s)" and a: "rd_addr dev block" and p: "pending s RAM_MAJOR r dev block"
  shows "\<exists>mem d. do_rd_request s = end_request (rd_disk (devs s) dev block \<noteq> None) RAM_MAJOR (s\<lparr>bufmem := mem, devs := d\<rparr>) \<and> rd_ok d \<and>
    moved rd_disk (all_requests s r) block (devs s) (bufmem s) d mem"
proof -
  let ?q = "all_requests s r" and ?d = "devs s" and ?t = "DEVICE_NR dev"
  let ?g = "segment (rd_segment ?d (unat (rd_index (rd_info ?d ?t))))" and ?A = "rd_base ?d ?t + 1024 * unat block"
  note dv = rd_dev[OF a]
  have q: "current_request s RAM_MAJOR = Some r" "rq_dev ?q = dev" "rq_next ?q = None" "rq_sector ?q = ucast block * 2" "b_lock (buffers s (rq_bh ?q))"
    using p by (auto simp: pending_def)
  have sec: "rq_sector ?q \<noteq> - 1"
  proof
    assume "rq_sector ?q = - 1"
    then have "unat (ucast block * 2 :: u32) = unat (- 1 :: u32)" using q(4) by simp
    moreover have "unat (ucast block * 2 :: u32) = unat block * 2" using dv(4) by (simp add: unat_word_ariths unsigned_ucast_eq take_bit_nat_eq_self)
    moreover have "unat (- 1 :: u32) = 4294967295" by (simp add: unsigned_minus_1_eq_mask mask_eq_exp_minus_1)
    ultimately show False using dv(4) by linarith
  qed
  have start: "(ucast (rq_sector ?q) :: u16) = block * 2" unfolding q(4) by (rule sector_u16[OF dv(4)])
  have ini: "rd_initialised ?d" using ok by (simp add: rd_ok_def)
  have fuel: "do_rd_request s = rd_loop (Suc (Suc 19)) s" by (simp add: do_rd_request_def)
  have b2: "unat (block * 2) = 2 * unat block" using dv(4) by (simp add: unat_word_ariths)
  show ?thesis
  proof (cases "rd_disk ?d dev block = None")
    case True
    then have "rd_flags (rd_info ?d ?t) \<noteq> RD_BUSY \<or> block * 2 \<ge> rd_size (rd_info ?d ?t)"
      using a b2 by (auto simp: rd_disk_def Let_def word_le_nat_alt split: if_splits)
    then have "rd_loop (Suc (Suc n)) s = bindr (end_request False RAM_MAJOR s) (rd_loop (Suc n))" for n
      using q sec start ini dv(1) by (simp add: Let_def del: rd_loop.simps add: rd_loop.simps(2)[of "Suc n"])
    then have "do_rd_request s = end_request False RAM_MAJOR s" unfolding fuel end_then_loop[OF q(1,3)] .
    then show ?thesis using True ok by (intro exI[of _ "bufmem s"] exI[of _ ?d]) (auto simp: moved_def q split: rw_cmd.split)
  next
    case False
    then have f: "rd_flags (rd_info ?d ?t) = RD_BUSY" "2 * unat block < unat (rd_size (rd_info ?d ?t))"
      by (auto simp: rd_disk_def Let_def split: if_splits)
    note pl = rd_place[OF ok a f]
    have wk: "seg_walk (8 * unat (block * 2) + 9) (block * 2) (rd_index (rd_info ?d ?t)) ?d = Inr (block * 2, rd_index (rd_info ?d ?t))"
    proof -
      have "8 * unat (block * 2) + 9 = Suc (8 * unat (block * 2) + 8)" by simp
      moreover have "rd_index (rd_info ?d ?t) < MAX_ENTRIES" using pl(1) by (simp add: word_less_nat_alt)
      ultimately show ?thesis using pl(2) by (simp only: seg_walk.simps if_True if_False not_True_eq_False simp_thms)
    qed
    let ?s = "case rq_cmd ?q of WRITE \<Rightarrow> s\<lparr>devs := ?d\<lparr>rd_mem := store_bytes 1024 (rd_mem ?d) ?g (block * 2 * 512) (bufmem s (rq_buffer ?q))\<rparr>\<rparr>
        | READ \<Rightarrow> s\<lparr>bufmem := (bufmem s)(rq_buffer ?q := load_bytes (rd_mem ?d) ?g (block * 2 * 512) (bufmem s (rq_buffer ?q)))\<rparr>"
    have "rd_loop (Suc (Suc n)) s = bindr (end_request True RAM_MAJOR ?s) (rd_loop (Suc n))" for n
      using q sec start ini dv(1) f(1) pl(3)[folded not_le] wk by (simp add: Let_def del: not_le rd_loop.simps seg_walk.simps add: rd_loop.simps(2)[of "Suc n"])
    moreover have "current_request ?s RAM_MAJOR = Some r" "rq_next (all_requests ?s r) = None" using q by (cases "rq_cmd ?q"; simp)+
    ultimately have run: "do_rd_request s = end_request True RAM_MAJOR ?s" unfolding fuel by (simp only: end_then_loop)
    show ?thesis
    proof (cases "rq_cmd ?q")
      case READ
      have "clip (load_bytes (rd_mem ?d) ?g (block * 2 * 512) (bufmem s (rq_buffer ?q))) = clip (\<lambda>i. rd_mem ?d (?A + i))"
        using pl(4) by (auto simp: clip_def load_bytes_def fun_eq_iff)
      then show ?thesis using run READ False f a ok
        by (intro exI[of _ "(bufmem s)(rq_buffer ?q := load_bytes (rd_mem ?d) ?g (block * 2 * 512) (bufmem s (rq_buffer ?q)))"] exI[of _ ?d])
          (auto simp: moved_def q rd_disk_def Let_def)
    next
      case WRITE
      define m where "m = store_bytes 1024 (rd_mem ?d) ?g (block * 2 * 512) (bufmem s (rq_buffer ?q))"
      have ma: "m x = (if ?A \<le> x \<and> x < ?A + 1024 then bufmem s (rq_buffer ?q) (x - ?A) else rd_mem ?d x)" for x
        unfolding m_def by (rule store_bytes_spec[OF pl(4)])
      let ?d' = "?d\<lparr>rd_mem := m\<rparr>"
      have ok': "rd_ok ?d'" using ok by (simp add: rd_ok_def rd_base_def rd_len_def)
      have here: "rd_disk ?d' dev block = Some (clip (bufmem s (rq_buffer ?q)))"
        using f a by (simp add: rd_disk_def Let_def rd_base_def[of ?d'] rd_base_def[of ?d, symmetric] ma) (simp add: clip_def fun_eq_iff)
      have "rd_disk ?d' x y = ((rd_disk ?d)(dev := (rd_disk ?d dev)(block := Some (clip (bufmem s (rq_buffer ?q)))))) x y" for x y
      proof (cases "x = dev \<and> y = block")
        case True
        then show ?thesis using here by simp
      next
        case ne: False
        have out: "m a = rd_mem ?d a" if "\<not> (?A \<le> a \<and> a < ?A + 1024)" for a unfolding ma if_not_P[OF that] ..
        have "rd_disk ?d' x y = rd_disk ?d x y" using ne by (intro rd_disk_other[OF ok out refl False]) auto
        then show ?thesis using ne by auto
      qed
      then have "rd_disk ?d' = (rd_disk ?d)(dev := (rd_disk ?d dev)(block := Some (clip (bufmem s (rq_buffer ?q)))))" by (intro ext)
      then show ?thesis using run WRITE False ok'
        by (intro exI[of _ "bufmem s"] exI[of _ ?d']) (auto simp: moved_def q m_def)
    qed
  qed
qed

interpretation rdk: block_driver rd_drivers rd_disk rd_addr rd_ok
proof
  show "MAJOR dev < MAX_BLKDEV \<and> rd_drivers (MAJOR dev) \<noteq> None" if "rd_addr dev block" for dev block
    using rd_dev(1)[OF that] by (simp add: rd_drivers_def)
next
  fix major f and s :: "rd bcache" and dev block r
  assume "rd_drivers major = Some f" "rd_ok (devs s)" "rd_addr dev block" "pending s major r dev block"
  then show "\<exists>mem d. f s = end_request (rd_disk (devs s) dev block \<noteq> None) major (s\<lparr>bufmem := mem, devs := d\<rparr>) \<and> rd_ok d \<and>
      moved rd_disk (all_requests s r) block (devs s) (bufmem s) d mem"
    using rd_serves by (auto simp: rd_drivers_def split: if_splits)
qed

end
