(* ===== verification/BlockIO.thy ===== *)
theory BlockIO
  imports Ramdisk
begin

text \<open>
  The path of a block between the file systems and a RAM disk: \<^verbatim>\<open>bread\<close>, \<^verbatim>\<open>map_buffer\<close> and
  \<^verbatim>\<open>sync_buffers\<close> of \<^verbatim>\<open>fs/buffer.c\<close>, the request queue of \<^verbatim>\<open>ll_rw_blk.c\<close> and
  \<^verbatim>\<open>do_rd_request\<close> of \<^verbatim>\<open>rd.c\<close> together. The facts of the interpretation \<open>rdk\<close> of the locale
  \<open>block_driver\<close> give the contract of the cache over a RAM disk; the last three theorems are
  about the cases in which the code does not do what it is meant to.
\<close>

section \<open>States the cache works in\<close>

lemma rd_addr_nz: "rd_addr dev block \<Longrightarrow> dev \<noteq> 0"
  by (auto simp: rd_addr_def)

text \<open>The cache is well formed, every RAM disk lies in one segment (\<open>rd_ok\<close>), at most six buffers are
  mapped for good and at least nine are not referenced.\<close>

definition usable :: "rd bcache \<Rightarrow> bool" where
  "usable s \<longleftrightarrow> cache_ok rd_disk rd_addr s \<and> rd_ok (devs s) \<and> card (pinned s) \<le> 6 \<and>
     card {b. b < NR_BUFFERS \<and> b_count (buffers s b) = 0} \<ge> 9 \<and> (\<forall>b < NR_BUFFERS. b_count (buffers s b) \<noteq> - 1)"

section \<open>A machine with a RAM disk\<close>

text \<open>A machine with one RAM disk of 64 KB.\<close>

definition zero_head :: buffer_head where
  "zero_head = \<lparr>b_data = None, b_blocknr = 0, b_dev = 0, b_next = None, b_next_lru = None, b_prev_lru = None, b_count = 0,
     b_uptodate = False, b_dirty = False, b_lock = False, b_mapcount = 0\<rparr>"

definition zero_request :: request where
  "zero_request = \<lparr>rq_dev = 0, rq_cmd = READ, rq_active = False, rq_sector = 0, rq_buffer = 0, rq_bh = 0, rq_next = None\<rparr>"

definition one_disk :: rd where
  "one_disk = \<lparr>rd_initialised = True, rd_info = (\<lambda>t. if t = 0 then \<lparr>rd_index = 0, rd_flags = 1, rd_size = 128\<rparr> else \<lparr>rd_index = 0, rd_flags = 0, rd_size = 0\<rparr>),
     rd_segment = (\<lambda>j. if j = 0 then \<lparr>segment = 0x6000, rd_next = 9, seg_size = 128\<rparr> else \<lparr>segment = 0, rd_next = 9, seg_size = 0\<rparr>), rd_mem = (\<lambda>_. 0)\<rparr>"

definition cold :: "rd \<Rightarrow> rd bcache" where
  "cold d = \<lparr>buffers = (\<lambda>_. zero_head), bh_chain = None, bh_lru = None, bh_llru = None, bufmem = (\<lambda>_ _. 0), l2 = (\<lambda>_ _. 0), bufmem_map = (\<lambda>_. None),
     lastumap = 0, all_requests = (\<lambda>_. zero_request), prev_found = 0, prev_limit = 0, current_request = (\<lambda>_. None), devs = d\<rparr>"

lemma one_disk_ok: "rd_ok one_disk"
  by (auto simp: rd_ok_def one_disk_def rd_base_def rd_len_def)

lemma cold_cleared: "cleared (cold d)"
  by (simp add: cleared_def cold_def no_requests_def zero_head_def zero_request_def)

lemma booted: "usable (buffer_init (cold one_disk))"
proof -
  note i = buffer_init_ok[OF cold_cleared[of one_disk]]
  have "{b. b < NR_BUFFERS \<and> b_count (buffers (buffer_init (cold one_disk)) b) = 0} = {..<NR_BUFFERS}" using i(3) by auto
  moreover have "devs (cold one_disk) = one_disk" by (simp add: cold_def)
  ultimately show ?thesis using i one_disk_ok by (simp add: usable_def)
qed

lemma one_disk_block: "rd_disk one_disk 256 b = (if b < 64 then Some (\<lambda>_. 0) else None)"
proof -
  have "DEVICE_NR 256 = 0" by (simp add: DEVICE_NR_def)
  moreover have "2 * unat b < 128 \<longleftrightarrow> unat b < 64" by simp
  moreover have "b < 64 \<Longrightarrow> b < 32768" by (simp add: word_less_nat_alt)
  ultimately show ?thesis by (auto simp: rd_disk_def Let_def one_disk_def rd_addr_def clip_def word_less_nat_alt)
qed

section \<open>Reading\<close>

text \<open>C27: 
  \<^verbatim>\<open>bread\<close> of a block of a RAM disk returns a buffer that holds the contents the kernel has given the
  block (what was written last, be it still in a dirty buffer or on the disk), or no
  buffer when the disk has no such block. It returns without panic or sleep, keeps the
  cache well-formed and changes the contents of no block. The state is \<open>usable\<close>: RAM disks of
  one segment each, at most six pinned buffers and at least nine idle ones.
\<close>

theorem bread_returns_block:
  assumes "usable s" and "rd_addr dev block"
  shows "\<exists>r s'. bread rd_drivers dev block s = Inr (r, s') \<and> cache_ok rd_disk rd_addr s' \<and> view rd_disk s' = view rd_disk s \<and>
    (case view rd_disk s dev block of
       None \<Rightarrow> r = None
     | Some x \<Rightarrow> \<exists>b < NR_BUFFERS. r = Some b \<and> b_uptodate (buffers s' b) \<and> data_of s' b = x \<and>
         b_dev (buffers s' b) = dev \<and> b_blocknr (buffers s' b) = block)"
  using rdk.bread_ok[of s dev block] assms rd_addr_nz[OF assms(2)] unfolding usable_def by blast

theorem bread_returns_block_witness:
  "\<exists>b s'. bread rd_drivers 256 5 (buffer_init (cold one_disk)) = Inr (Some b, s') \<and> data_of s' b = (\<lambda>_. 0) \<and>
     (\<exists>s'. bread rd_drivers 256 64 (buffer_init (cold one_disk)) = Inr (None, s'))"
proof -
  let ?s = "buffer_init (cold one_disk)"
  have n: "\<not> b_uptodate (buffers ?s b)" if "b < NR_BUFFERS" for b using that by (simp add: buffer_init_def cold_def zero_head_def)
  have dv: "devs ?s = one_disk" by (simp add: buffer_init_def cold_def)
  have v: "view rd_disk ?s 256 b = rd_disk one_disk 256 b" for b using view_disk[of ?s 256 b rd_disk] n dv by simp
  have a: "rd_addr 256 5" "rd_addr 256 64" by (simp_all add: rd_addr_def)
  have "view rd_disk ?s 256 5 = Some (\<lambda>_. 0)" "view rd_disk ?s 256 64 = None" unfolding v one_disk_block by simp_all
  with bread_returns_block[OF booted a(1)] bread_returns_block[OF booted a(2)] show ?thesis by auto
qed

section \<open>Writing back\<close>

lemma sync_disk:
  assumes "cache_ok rd_disk rd_addr s" "rd_ok (devs s)" "card (pinned s) \<le> 6"
  shows "\<exists>s'. sync_buffers rd_drivers 0 wait s = Inr s' \<and> cache_ok rd_disk rd_addr s' \<and> rd_ok (devs s') \<and> settled (\<lambda>c. True) s s' \<and>
    view rd_disk s' = view rd_disk s \<and> rd_disk (devs s') = view rd_disk s"
proof -
  obtain s' where s: "sync_buffers rd_drivers 0 wait s = Inr s'" "cache_ok rd_disk rd_addr s'" "rd_ok (devs s')" "view rd_disk s' = view rd_disk s" "settled (\<lambda>c. True) s s'"
    using rdk.sync_ok[OF assms, of 0 wait] by auto
  have "rd_disk (devs s') dev block = view rd_disk s dev block" for dev block
    using view_all_clean[of rd_disk rd_addr s' dev block] settledD(6)[OF s(5)] s(2,4) by (simp add: cache_ok_def)
  then show ?thesis using s by (auto simp: fun_eq_iff)
qed

text \<open>C28: 
  \<^verbatim>\<open>sync_buffers\<close> makes the blocks durable: afterwards the disk itself holds for every block what the
  cache showed before, no buffer is dirty, and the cache shows what it did. The state is
  \<open>usable\<close>: RAM disks of one segment each, at most six pinned buffers and at least nine idle ones.
\<close>

theorem sync_buffers_durable:
  assumes "usable s"
  shows "\<exists>s'. sync_buffers rd_drivers 0 wait s = Inr s' \<and> cache_ok rd_disk rd_addr s' \<and> view rd_disk s' = view rd_disk s \<and>
    rd_disk (devs s') = view rd_disk s \<and> (\<forall>b < NR_BUFFERS. \<not> b_dirty (buffers s' b))"
  using sync_disk[of s wait] assms settledD(6)[of "\<lambda>_. True" s] unfolding usable_def by blast

theorem sync_buffers_durable_witness:
  "\<exists>s'. sync_buffers rd_drivers 0 True (buffer_init (cold one_disk)) = Inr s' \<and> rd_disk (devs s') = view rd_disk (buffer_init (cold one_disk))"
  using sync_buffers_durable[OF booted] by blast

text \<open>What the callers of the cache do to change a block: fill the mapped area, mark it.\<close>

definition dirty_data :: "nat \<Rightarrow> nat \<Rightarrow> bytes \<Rightarrow> 'd bcache \<Rightarrow> 'd bcache" where
  "dirty_data b i x s = updb b (\<lambda>h. h\<lparr>b_dirty := True\<rparr>) (mark_buffer_uptodate b True (s\<lparr>bufmem := (bufmem s)(i := x)\<rparr>))"

text \<open>C29: 
  A block that is changed in its buffer and written back is on the disk, and \<^verbatim>\<open>bread\<close> then gives the
  new contents for this block and the old contents for every other block. The state is
  \<open>usable\<close>: RAM disks of one segment each (see the next property for larger ones), at most six
  pinned buffers and at least nine idle ones.
\<close>

theorem block_write_read:
  assumes u: "usable s" and b: "b < NR_BUFFERS" "b_data (buffers s b) = Some i" "b_dev (buffers s b) = dev" "b_blocknr (buffers s b) = block"
    and d: "rd_disk (devs s) dev block \<noteq> None" and a: "rd_addr dev' block'" "rd_disk (devs s) dev' block' \<noteq> None"
  shows "\<exists>s2 c s3. sync_buffers rd_drivers 0 False (dirty_data b i x s) = Inr s2 \<and> rd_disk (devs s2) dev block = Some (clip x) \<and>
    bread rd_drivers dev' block' s2 = Inr (Some c, s3) \<and>
    Some (data_of s3 c) = (if dev' = dev \<and> block' = block then Some (clip x) else view rd_disk s dev' block')"
proof -
  let ?s = "dirty_data b i x s"
  have c: "cache_ok rd_disk rd_addr s" using u by (simp add: usable_def)
  have nz: "dev \<noteq> 0" using d by (auto simp: rd_disk_def Let_def dest: rd_addr_nz split: if_splits)
  have eq: "?s = updb b (\<lambda>h. h\<lparr>b_uptodate := True, b_dirty := True\<rparr>) (s\<lparr>bufmem := (bufmem s)(i := x)\<rparr>)"
    by (simp add: dirty_data_def mark_buffer_uptodate_def updb_def)
  note m = modify_ok[OF c b(1,2), where d = x and s' = ?s, unfolded b(3,4), OF nz d eq]
  have "cache_ok rd_disk rd_addr ?s" "rd_ok (devs ?s)" "card (pinned ?s) \<le> 6"
    using m(1) u pinned_cong[of ?s s] by (simp_all add: usable_def eq)
  from sync_disk[OF this, of False] obtain s2 where s2: "sync_buffers rd_drivers 0 False ?s = Inr s2" "cache_ok rd_disk rd_addr s2" "rd_ok (devs s2)"
      "settled (\<lambda>c. True) ?s s2" "view rd_disk s2 = view rd_disk ?s" "rd_disk (devs s2) = view rd_disk ?s" by blast
  have cnt: "b_count (buffers s2 e) = b_count (buffers s e)" "b_mapcount (buffers s2 e) = b_mapcount (buffers s e)" if "e < NR_BUFFERS" for e
    using settledD(3,5)[OF s2(4) that] by (simp_all add: eq)
  have "pinned s2 = pinned s" using cnt(2) by (auto simp: pinned_def)
  moreover have "{b. b < NR_BUFFERS \<and> b_count (buffers s2 b) = 0} = {b. b < NR_BUFFERS \<and> b_count (buffers s b) = 0}" using cnt(1) by auto
  ultimately have u2: "usable s2" using u s2(2,3) cnt(1) by (simp add: usable_def)
  have v: "view rd_disk s2 dev' block' = (if dev' = dev \<and> block' = block then Some (clip x) else view rd_disk s dev' block')"
    unfolding s2(5) m(2) by auto
  have "view rd_disk s dev' block' \<noteq> None"
    using a(2) c view_cached view_disk[of s dev' block' rd_disk] unfolding cache_ok_def by (metis option.distinct(1))
  then obtain y where y: "view rd_disk s2 dev' block' = Some y" using v by (cases "dev' = dev \<and> block' = block") auto
  obtain r s3 where "bread rd_drivers dev' block' s2 = Inr (r, s3)" "\<exists>b < NR_BUFFERS. r = Some b \<and> data_of s3 b = y"
    using rdk.bread_ok[of s2 dev' block'] u2 a(1) rd_addr_nz[OF a(1)] y unfolding usable_def by auto
  then show ?thesis using s2(1,6) v y m(2) by auto
qed

text \<open>The first buffer a process asks for after the boot, mapped.\<close>

lemma first_block:
  obtains b s1 s2 i where "getblk rd_drivers 256 5 (buffer_init (cold one_disk)) = Inr (b, s1)" "map_buffer b s1 = Inr s2"
    "usable s2" "b < NR_BUFFERS" "b_data (buffers s2 b) = Some i" "b_dev (buffers s2 b) = 256" "b_blocknr (buffers s2 b) = 5"
    "rd_disk (devs s2) 256 5 \<noteq> None"
proof -
  let ?s = "buffer_init (cold one_disk)"
  have u: "cache_ok rd_disk rd_addr ?s" "rd_ok (devs ?s)" "card (pinned ?s) \<le> 6" "card {b. b < NR_BUFFERS \<and> b_count (buffers ?s b) = 0} \<ge> 9"
    using booted by (auto simp: usable_def)
  have a: "rd_addr 256 5" "(256 :: u16) \<noteq> 0" by (simp_all add: rd_addr_def)
  have z: "b_mapcount (buffers ?s e) = 0" "b_count (buffers ?s e) = 0" "b_dev (buffers ?s e) = 0" if "e < NR_BUFFERS" for e
    using that by (simp_all add: buffer_init_def cold_def zero_head_def)
  obtain b s1 where s1: "getblk rd_drivers 256 5 ?s = Inr (b, s1)" "b < NR_BUFFERS" "b_dev (buffers s1 b) = 256" "b_blocknr (buffers s1 b) = 5"
      "b_count (buffers s1 b) = (if find_buffer 256 5 ?s = Some b then b_count (buffers ?s b) + 1 else 1)"
      "cache_ok rd_disk rd_addr s1" "rd_ok (devs s1)" "view rd_disk s1 = view rd_disk ?s"
      "\<And>e. e < NR_BUFFERS \<Longrightarrow> b_mapcount (buffers s1 e) = b_mapcount (buffers ?s e) \<and> (e \<noteq> b \<longrightarrow> b_count (buffers s1 e) = b_count (buffers ?s e))"
    using rdk.getblk_ok[OF u a(2,1)] by blast
  have "pinned s1 = {}" using s1(9) z(1) by (auto simp: pinned_def)
  then have "card (pinned s1) \<le> 6" "b_mapcount (buffers s1 b) + 1 \<noteq> - 1" using s1(9)[OF s1(2)] z(1)[OF s1(2)] by simp_all
  from map_keeps[OF s1(6) this(1) s1(2) this(2)] obtain s2 i where s2: "map_buffer b s1 = Inr s2" "cache_ok rd_disk rd_addr s2"
      "b_data (buffers s2 b) = Some i" "devs s2 = devs s1" "view rd_disk s2 = view rd_disk s1"
      "\<And>e. e < NR_BUFFERS \<Longrightarrow> b_count (buffers s2 e) = b_count (buffers s1 e) \<and> b_dev (buffers s2 e) = b_dev (buffers s1 e) \<and>
        b_blocknr (buffers s2 e) = b_blocknr (buffers s1 e) \<and> b_mapcount (buffers s2 e) = (if e = b then b_mapcount (buffers s1 b) + 1 else b_mapcount (buffers s1 e))"
    by blast
  have "pinned s2 \<subseteq> {b}" using s2(6) s1(9) z(1) by (auto simp: pinned_def split: if_splits)
  then have "card (pinned s2) \<le> 1" using card_mono[of "{b}" "pinned s2"] by simp
  moreover have "{..<NR_BUFFERS} - {b} \<subseteq> {e. e < NR_BUFFERS \<and> b_count (buffers s2 e) = 0}" using s2(6) s1(9) z(2) by auto
  then have "card ({..<NR_BUFFERS} - {b}) \<le> card {e. e < NR_BUFFERS \<and> b_count (buffers s2 e) = 0}" by (intro card_mono) auto
  then have "card {e. e < NR_BUFFERS \<and> b_count (buffers s2 e) = 0} \<ge> 9" using s1(2) by simp
  moreover have "b_count (buffers s2 e) \<noteq> - 1" if "e < NR_BUFFERS" for e
    using s2(6)[OF that] s1(5) s1(9)[OF that] z(2)[OF that] z(2)[OF s1(2)] by (cases "e = b") (auto split: if_splits)
  ultimately have u2: "usable s2" using s2(2,4) s1(7) by (simp add: usable_def)
  have "view rd_disk ?s 256 5 = rd_disk (devs ?s) 256 5" using z(3) by (intro view_disk) auto
  moreover have "devs ?s = one_disk" by (simp add: buffer_init_def cold_def)
  ultimately have v: "view rd_disk s2 256 5 \<noteq> None" using s2(5) s1(8) by (simp add: one_disk_block)
  have d: "rd_disk (devs s2) 256 5 \<noteq> None"
  proof (cases "b_uptodate (buffers s2 b)")
    case True
    have ct: "contents_ok rd_disk rd_addr s2" using s2(2) by (simp add: cache_ok_def)
    show ?thesis using contents_okD(3,4)[OF ct s1(2)] True s2(6)[OF s1(2)] s1(3,4) by (cases "b_dirty (buffers s2 b)") auto
  next
    case False
    have ct: "contents_ok rd_disk rd_addr s2" using s2(2) by (simp add: cache_ok_def)
    then have "\<not> b_dirty (buffers s2 b)" using contents_okD(3)[OF ct s1(2)] False by blast
    then show ?thesis using view_clean[OF ct s1(2)] v s2(6)[OF s1(2)] s1(3,4) by simp
  qed
  have bb: "b_dev (buffers s2 b) = 256" "b_blocknr (buffers s2 b) = 5" using s2(6)[OF s1(2)] s1(3,4) by auto
  then show ?thesis using that[of b s1 s2 i] s1(1,2) s2(1,3) u2 d by simp
qed

theorem block_write_read_witness:
  "\<exists>b s1 s2 i. getblk rd_drivers 256 5 (buffer_init (cold one_disk)) = Inr (b, s1) \<and> map_buffer b s1 = Inr s2 \<and> b_data (buffers s2 b) = Some i \<and>
     (\<exists>s3 c s4. sync_buffers rd_drivers 0 False (dirty_data b i (\<lambda>_. 7) s2) = Inr s3 \<and> bread rd_drivers 256 5 s3 = Inr (Some c, s4) \<and> data_of s4 c = clip (\<lambda>_. 7))"
proof -
  obtain b s1 s2 i where f: "getblk rd_drivers 256 5 (buffer_init (cold one_disk)) = Inr (b, s1)" "map_buffer b s1 = Inr s2"
    "usable s2" "b < NR_BUFFERS" "b_data (buffers s2 b) = Some i" "b_dev (buffers s2 b) = 256" "b_blocknr (buffers s2 b) = 5"
    "rd_disk (devs s2) 256 5 \<noteq> None" by (rule first_block)
  have "rd_addr 256 5" by (simp add: rd_addr_def)
  from block_write_read[OF f(3-8) this f(8), of "\<lambda>_. 7"] f(1,2,5) show ?thesis by auto
qed

section \<open>Where the code goes wrong\<close>

text \<open>
  \<^verbatim>\<open>map_buffer\<close> puts the process to sleep although an area could be taken: with every area of the
  buffer segment mapped, the search starts behind the area released last and stops before it, so
  an idle buffer in exactly that area is not found.
\<close>

theorem map_buffer_sleeps:
  assumes "b_data (buffers s b) = None" and "lastumap s < NR_MAPBUFS"
    and "\<And>i. i < NR_MAPBUFS \<Longrightarrow> \<exists>c. bufmem_map s i = Some c \<and> (i \<noteq> lastumap s \<longrightarrow> b_mapcount (buffers s c) \<noteq> 0)"
  shows "map_buffer b s = Inl Asleep"
proof -
  have "find (\<lambda>i. bufmem_map s i = None) [0..<NR_MAPBUFS] = None" using assms(3) by (auto simp: find_None_iff)
  moreover have "find (\<lambda>i. case bufmem_map s i of None \<Rightarrow> False | Some c \<Rightarrow> b_mapcount (buffers s c) = 0)
      (map (\<lambda>k. (lastumap s + k) mod NR_MAPBUFS) [1..<NR_MAPBUFS]) = None" (is "find ?P ?l = None")
    unfolding find_None_iff
  proof
    assume "\<exists>x. x \<in> set ?l \<and> ?P x"
    then obtain k where k: "k \<in> {1..<NR_MAPBUFS}" "?P ((lastumap s + k) mod NR_MAPBUFS)" by (auto simp only: set_map set_upt)
    have "(lastumap s + k) mod NR_MAPBUFS \<noteq> lastumap s"
      using mod8_inj[of k 0 "lastumap s"] k(1) assms(2) by auto
    then show False using assms(3)[of "(lastumap s + k) mod NR_MAPBUFS"] k(2) by auto
  qed
  ultimately have "map_loop (Suc (Suc 0)) b s = Inl Asleep" by (simp only: map_loop.simps(2)[of "Suc 0"] option.case)
  then show ?thesis using assms(1) by (simp add: map_buffer_def numeral_2_eq_2)
qed

text \<open>Eight mapped buffers, the first of which is not in use.\<close>

definition crowded :: "rd bcache" where
  "crowded = (cold one_disk)\<lparr>bufmem_map := (\<lambda>i. Some i),
     buffers := (\<lambda>b. if b < 8 then zero_head\<lparr>b_data := Some b, b_mapcount := (if b = 0 then 0 else 1)\<rparr> else zero_head)\<rparr>"

theorem map_buffer_sleeps_witness:
  "b_mapcount (buffers crowded 0) = 0 \<and> map_buffer 9 crowded = Inl Asleep"
proof -
  have "b_data (buffers crowded 9) = None" "lastumap crowded < NR_MAPBUFS" by (simp_all add: crowded_def cold_def zero_head_def)
  moreover have "\<exists>c. bufmem_map crowded i = Some c \<and> (i \<noteq> lastumap crowded \<longrightarrow> b_mapcount (buffers crowded c) \<noteq> 0)" if "i < NR_MAPBUFS" for i
    using that by (simp add: crowded_def cold_def zero_head_def)
  ultimately have "map_buffer 9 crowded = Inl Asleep" by (rule map_buffer_sleeps)
  then show ?thesis by (simp add: crowded_def)
qed

text \<open>C30: a write to block 64 of a RAM disk whose first segment has 64 KB lands on block 0: the walk over
  the segments stays in the first one because its offset is not greater than its size,
  and 128 sectors times 512 bytes is 0 in 16 bits. The request is reported as done: it is taken
  off the queue, and its buffer is unlocked and marked up to date.\<close>

theorem rd_request_overwrites:
  assumes p: "pending s RAM_MAJOR r dev 64" and q: "rq_cmd (all_requests s r) = WRITE"
    and d: "rd_initialised (devs s)" "rd_flags (rd_info (devs s) (DEVICE_NR dev)) = RD_BUSY" "128 < rd_size (rd_info (devs s) (DEVICE_NR dev))"
      "rd_index (rd_info (devs s) (DEVICE_NR dev)) < MAX_ENTRIES"
      "seg_size (rd_segment (devs s) (unat (rd_index (rd_info (devs s) (DEVICE_NR dev))))) = 128"
      "rd_base (devs s) (DEVICE_NR dev) + 1024 \<le> 2 ^ 20"
  shows "\<exists>s'. do_rd_request s = Inr s' \<and> (\<forall>a. rd_mem (devs s') a =
    (if rd_base (devs s) (DEVICE_NR dev) \<le> a \<and> a < rd_base (devs s) (DEVICE_NR dev) + 1024
     then bufmem s (rq_buffer (all_requests s r)) (a - rd_base (devs s) (DEVICE_NR dev)) else rd_mem (devs s) a)) \<and>
    b_uptodate (buffers s' (rq_bh (all_requests s r))) \<and> \<not> b_lock (buffers s' (rq_bh (all_requests s r))) \<and>
    current_request s' RAM_MAJOR = None \<and> \<not> rq_active (all_requests s' r)"
proof -
  let ?q = "all_requests s r" and ?d = "devs s" and ?t = "DEVICE_NR dev"
  let ?g = "segment (rd_segment ?d (unat (rd_index (rd_info ?d ?t))))"
  have c: "current_request s RAM_MAJOR = Some r" "rq_dev ?q = dev" "rq_next ?q = None" "rq_sector ?q = 128" "b_lock (buffers s (rq_bh ?q))" "MAJOR dev = RAM_MAJOR"
    using p by (auto simp: pending_def)
  have wk: "seg_walk (Suc m) 128 (rd_index (rd_info ?d ?t)) ?d = Inr (128, rd_index (rd_info ?d ?t))" for m
    using d(4,5) by simp
  have wk': "seg_walk (8 * unat (128 :: u16) + 9) 128 (rd_index (rd_info ?d ?t)) ?d = Inr (128, rd_index (rd_info ?d ?t))"
    using wk[of "8 * 128 + 8"] by (simp del: seg_walk.simps)
  define m where "m = store_bytes 1024 (rd_mem ?d) ?g 0 (bufmem s (rq_buffer ?q))"
  let ?s = "s\<lparr>devs := ?d\<lparr>rd_mem := m\<rparr>\<rparr>"
  have wrap: "(65536 :: u16) = 0" by simp
  have nle: "\<not> rd_size (rd_info ?d ?t) \<le> 128" using d(3) by simp
  have "rd_loop (Suc (Suc n)) s = bindr (end_request True RAM_MAJOR ?s) (rd_loop (Suc n))" for n
    using c d(1,2) nle wk' q by (simp add: Let_def m_def wrap del: not_le rd_loop.simps seg_walk.simps add: rd_loop.simps(2)[of "Suc n"])
  moreover have "current_request ?s RAM_MAJOR = Some r" "rq_next (all_requests ?s r) = None" using c by simp_all
  moreover have "do_rd_request s = rd_loop (Suc (Suc 19)) s" by (simp add: do_rd_request_def)
  ultimately have run: "do_rd_request s = end_request True RAM_MAJOR ?s" by (simp only: end_then_loop)
  then obtain s' where s': "do_rd_request s = Inr s'" "devs s' = ?d\<lparr>rd_mem := m\<rparr>"
      "b_uptodate (buffers s' (rq_bh ?q))" "\<not> b_lock (buffers s' (rq_bh ?q))" "current_request s' RAM_MAJOR = None"
      "\<not> rq_active (all_requests s' r)"
    using c by (simp add: end_request_def Let_def unlock_buffer_def unmap_buffer_def)
  have "lin ?g (0 + of_nat i) = rd_base ?d ?t + i" if "i < 1024" for i
    using d(6) that by (simp add: lin_def rd_base_def)
  then have "m a = (if rd_base ?d ?t \<le> a \<and> a < rd_base ?d ?t + 1024 then bufmem s (rq_buffer ?q) (a - rd_base ?d ?t) else rd_mem ?d a)" for a
    unfolding m_def by (rule store_bytes_spec)
  then show ?thesis using s' by simp
qed

definition two_segments :: rd where
  "two_segments = one_disk\<lparr>rd_info := (\<lambda>t. \<lparr>rd_index = 0, rd_flags = 1, rd_size = 256\<rparr>),
     rd_segment := (\<lambda>j. if j = 0 then \<lparr>segment = 0x6000, rd_next = 1, seg_size = 128\<rparr> else \<lparr>segment = 0x7000, rd_next = 9, seg_size = 128\<rparr>)\<rparr>"

definition write_64 :: "rd bcache" where
  "write_64 = (cold two_segments)\<lparr>buffers := (\<lambda>b. zero_head\<lparr>b_lock := True, b_mapcount := 1\<rparr>), bufmem := (\<lambda>_ _. 7),
     all_requests := (\<lambda>_. zero_request\<lparr>rq_dev := 256, rq_cmd := WRITE, rq_active := True, rq_sector := 128\<rparr>), current_request := (\<lambda>_. None)(1 := Some 0)\<rparr>"

theorem rd_request_overwrites_witness:
  "\<exists>s'. do_rd_request write_64 = Inr s' \<and> rd_mem (devs s') 0x60000 = 7 \<and> rd_mem (devs s') 0x70000 = 0 \<and>
    b_uptodate (buffers s' 0)"
proof -
  have t: "DEVICE_NR 256 = 0" by (simp add: DEVICE_NR_def)
  have p: "pending write_64 RAM_MAJOR 0 256 64" by (simp add: pending_def write_64_def cold_def zero_request_def MAJOR_def drop_bit_eq_div)
  have h: "rq_cmd (all_requests write_64 0) = WRITE" "rd_initialised (devs write_64)" "rd_flags (rd_info (devs write_64) (DEVICE_NR 256)) = RD_BUSY"
    "128 < rd_size (rd_info (devs write_64) (DEVICE_NR 256))" "rd_index (rd_info (devs write_64) (DEVICE_NR 256)) < MAX_ENTRIES"
    "seg_size (rd_segment (devs write_64) (unat (rd_index (rd_info (devs write_64) (DEVICE_NR 256))))) = 128"
    by (simp_all add: write_64_def cold_def two_segments_def one_disk_def)
  have base: "rd_base (devs write_64) (DEVICE_NR 256) = 0x60000" by (simp add: rd_base_def write_64_def cold_def two_segments_def)
  then have "rd_base (devs write_64) (DEVICE_NR 256) + 1024 \<le> 2 ^ 20" by simp
  from rd_request_overwrites[OF p h this] show ?thesis unfolding base
    by (auto simp: write_64_def cold_def two_segments_def one_disk_def zero_request_def)
qed

text \<open>
  Creating a RAM disk of less than 64 KB when the allocator has no room succeeds: \<^verbatim>\<open>mm_alloc\<close>
  reports failure as segment 0 and the driver compares with -1. The disk is put at address 0,
  which is cleared: the interrupt vectors are overwritten.
\<close>

theorem rd_create_without_memory:
  assumes "rd_flags (rd_info (devs s) (DEVICE_NR rdev)) = 0" and "find_free_seg (devs s) \<noteq> - 1" and "0 < arg" "arg < 64"
    and "mm_alloc mh (arg * 64) = Inr (0, mh)"
  shows "\<exists>d. rd_ioctl True rdev RDCREATE arg mh s v = Inr (0, mh, s\<lparr>devs := d\<rparr>, v) \<and>
    rd_flags (rd_info d (DEVICE_NR rdev)) = RD_BUSY \<and> (\<forall>a < 1024 * unat arg. rd_mem d a = 0)"
proof -
  let ?t = "DEVICE_NR rdev" and ?d = "devs s" and ?j = "find_free_seg (devs s)"
  have a: "0 < unat arg" "unat arg < 64" using assms(3,4) by (auto simp: word_less_nat_alt unat_gt_0)
  have dv: "arg div 64 = 0" "(arg - 1) div 64 = 0" "arg mod 64 = arg"
  proof -
    have "unat (arg - 1) = unat arg - 1" using a by (simp add: unat_u16_minus)
    then show "arg div 64 = 0" "(arg - 1) div 64 = 0" "arg mod 64 = arg"
      using a by (simp_all add: word_unat_eq_iff unat_div unat_mod)
  qed
  have pg: "unat (arg * 64) = unat arg * 64" using a by (simp add: unat_word_ariths)
  have sc: "unat (arg * 64 div 32) = unat arg * 2" by (simp add: unat_div pg)
  define d1 where "d1 = upd_info ?t (\<lambda>f. f\<lparr>rd_index := word_of_int ?j\<rparr>) ?d"
  define d2 where "d2 = upd_info ?t (\<lambda>f. f\<lparr>rd_size := rd_size f + arg * 64 div 32\<rparr>)
    (upd_seg (nat ?j) (\<lambda>g. g\<lparr>seg_size := arg * 64 div 32\<rparr>) (upd_seg (nat ?j) (\<lambda>g. g\<lparr>segment := 0\<rparr>) d1))"
  define d3 where "d3 = d2\<lparr>rd_mem := clear_bytes 0 (rd_mem d2) 0 (of_nat (unat (arg * 64 div 32) * 512))\<rparr>"
  define d4 where "d4 = upd_info ?t (\<lambda>f. f\<lparr>rd_flags := RD_BUSY\<rparr>) d3"
  have nf: "unat (arg * 64 div 32) * 512 \<noteq> 65536" using sc a by simp
  have "rd_create_loop (Suc (Suc n)) 0 arg ?t (- 1) mh ?d = Inr (0, mh, d4)" for n
    using assms(2,5) dv nf by (simp add: Let_def d1_def d2_def d3_def d4_def)
  from this[of 1023] have run: "rd_create_loop 1025 0 arg ?t (- 1) mh ?d = Inr (0, mh, d4)" by (simp del: rd_create_loop.simps)
  have "rd_mem d4 x = 0" if x: "x < 1024 * unat arg" for x
  proof -
    have c: "unat (of_nat (unat (arg * 64 div 32) * 512) :: u16) = 1024 * unat arg"
      unfolding sc using a by (subst unat_of_nat_u16) simp_all
    have "lin 0 (0 + of_nat i) = 0 + i" if "i < 1024 * unat arg" for i using that a by (simp add: lin_def)
    from store_bytes_spec[OF this, where mem = "rd_mem d2" and d = "\<lambda>_. 0"] x c show ?thesis
      by (simp add: d4_def d3_def upd_info_def clear_bytes_def)
  qed
  moreover have "rd_ioctl True rdev RDCREATE arg mh s v = Inr (0, mh, s\<lparr>devs := d4\<rparr>, v)"
    using run assms(1) by (simp add: rd_ioctl_def Let_def del: rd_create_loop.simps)
  moreover have "rd_flags (rd_info d4 ?t) = RD_BUSY" by (simp add: d4_def upd_info_def)
  ultimately show ?thesis by blast
qed

text \<open>A machine whose memory is in use.\<close>

theorem rd_create_without_memory_witness:
  "\<exists>mh. \<forall>v :: minix_fs vfs. \<exists>d. rd_ioctl True 257 RDCREATE 4 mh (cold one_disk) v = Inr (0, mh, (cold one_disk)\<lparr>devs := d\<rparr>, v) \<and>
    rd_flags (rd_info d 1) = RD_BUSY \<and> rd_mem d 0 = 0"
proof -
  obtain mh where mh: "mm_inv 0x1000 0x9000 mh" "segs mh = carve (unat (0x8000 :: u16)) \<lparr>sbase = 0x1000, sext = 0x8000, sfree = True, sref = 0\<rparr>"
    using boot_alloc[of "0x8000"] by auto
  have "mm_alloc mh (4 * 64) = Inr (0, mh)"
    using mh(1) by (rule mm_alloc_outcome) (use mh(2) in \<open>auto simp: alloc_spec_def carve_def fits_def Cons_eq_append_conv\<close>)
  moreover have "DEVICE_NR 257 = 1" by (simp add: DEVICE_NR_def)
  moreover have "find_free_seg (devs (cold one_disk)) \<noteq> - 1"
    by (simp add: find_free_seg_def cold_def one_disk_def upt_rec)
  ultimately have "\<exists>d. rd_ioctl True 257 RDCREATE 4 mh (cold one_disk) v = Inr (0, mh, (cold one_disk)\<lparr>devs := d\<rparr>, v) \<and>
    rd_flags (rd_info d 1) = RD_BUSY \<and> (\<forall>a < 1024 * unat (4 :: u16). rd_mem d a = 0)" for v :: "minix_fs vfs"
    using rd_create_without_memory[of "cold one_disk" 257 4 mh v] by (simp add: cold_def one_disk_def)
  then show ?thesis by fastforce
qed

end
