(* ===== verification/Files.thy ===== *)
theory Files
  imports Icache MinixFile Pipe Signal Malloc
begin

text \<open>
  Open files and descriptors: the table of open files (fs/file\_table.c), the descriptors of a process and
  the system calls that close, duplicate, read, write and position them (fs/open.c, fs/fcntl.c,
  fs/read\_write.c), and the creation of pipes (fs/pipe.c, fs/inode.c). The state joins what these
  calls touch: tasks (\<open>ksys\<close>), inodes (\<open>vfs\<close>), the file table, pipes and the
  memory of processes. The functions of drivers and file systems that a descriptor leads to are
  columns of \<^verbatim>\<open>struct file_operations\<close>, arguments of the definitions.
\<close>

section \<open>State\<close>

abbreviation NR_OPEN :: nat where "NR_OPEN \<equiv> 20"
abbreviation NR_FILE :: nat where "NR_FILE \<equiv> 64"
abbreviation MAX_PIPES :: nat where "MAX_PIPES \<equiv> 8"
abbreviation O_NONBLOCK :: u16 where "O_NONBLOCK \<equiv> 0x800"
abbreviation (input) FMODE_READ :: u16 where "FMODE_READ \<equiv> 1"
abbreviation (input) FMODE_WRITE :: u16 where "FMODE_WRITE \<equiv> 2"

record 'f psys =
  ks :: ksys
  vf :: "'f vfs"
  file_array :: "nat \<Rightarrow> kfile"
  pipes :: "nat \<Rightarrow> pipe_inode_info"
  pipe_in_use :: "nat \<Rightarrow> bool"
  mhead :: malloc_head
  kmem :: memory
  last_pid :: u16
  kernel_ds :: u16
  xtime :: u32
  pipe_wait :: "nat \<Rightarrow> u16"

text \<open>The columns of the tables \<^verbatim>\<open>struct file_operations\<close>: for each table the function it has, \<open>None\<close> for NULL.
  An operation gets the slot of the inode and the number of the file.\<close>

type_synonym 'f lseek_col = "file_operations \<Rightarrow> (nat \<Rightarrow> nat \<Rightarrow> u32 \<Rightarrow> u16 \<Rightarrow> 'f psys \<Rightarrow> (int \<times> 'f psys) kres) option"
type_synonym 'f read_col = "file_operations \<Rightarrow> (nat \<Rightarrow> nat \<Rightarrow> u16 \<Rightarrow> 'f psys \<Rightarrow> (int \<times> u8 list \<times> 'f psys) kres) option"
type_synonym 'f write_col = "file_operations \<Rightarrow> (nat \<Rightarrow> nat \<Rightarrow> u8 list \<Rightarrow> u16 \<Rightarrow> 'f psys \<Rightarrow> (int \<times> 'f psys) kres) option"
type_synonym 'f release_col = "file_operations \<Rightarrow> (nat option \<Rightarrow> nat \<Rightarrow> 'f psys \<Rightarrow> 'f psys kres) option"

definition cur :: "'f psys \<Rightarrow> task_struct" where
  "cur s = task (ks s) (current (ks s))"

definition upd_cur :: "(task_struct \<Rightarrow> task_struct) \<Rightarrow> 'f psys \<Rightarrow> 'f psys" where
  "upd_cur f s = s\<lparr>ks := Sched.upd (current (ks s)) f (ks s)\<rparr>"

definition updf :: "nat \<Rightarrow> (kfile \<Rightarrow> kfile) \<Rightarrow> 'f psys \<Rightarrow> 'f psys" where
  "updf i f s = s\<lparr>file_array := (file_array s)(i := f (file_array s i))\<rparr>"

definition on_vfs :: "('f vfs \<Rightarrow> 'f vfs kres) \<Rightarrow> 'f psys \<Rightarrow> 'f psys kres" where
  "on_vfs f s = bindr (f (vf s)) (\<lambda>v. Inr (s\<lparr>vf := v\<rparr>))"

section \<open>The file table\<close>

definition get_empty_filp :: "'f psys \<Rightarrow> nat option \<times> 'f psys" where
  "get_empty_filp s =
    (case find (\<lambda>i. f_count (file_array s i) = 0) [0..<NR_FILE] of
       None \<Rightarrow> (None, s)
     | Some i \<Rightarrow> (Some i, updf i (\<lambda>_. \<lparr>f_mode = 0, f_pos = 0, f_flags = 0, f_count = 1, f_inode = None, f_op = None\<rparr>) s))"

definition clear_cloexec :: "nat \<Rightarrow> task_struct \<Rightarrow> task_struct" where
  "clear_cloexec d t = t\<lparr>close_on_exec := snd (clear_bit (of_nat d) (close_on_exec t))\<rparr>"

definition set_fd :: "nat \<Rightarrow> nat option \<Rightarrow> task_struct \<Rightarrow> task_struct" where
  "set_fd d f t = t\<lparr>fds := (fds t)(d := f)\<rparr>"

definition get_unused_fd :: "'f psys \<Rightarrow> int \<times> 'f psys" where
  "get_unused_fd s =
    (case find (\<lambda>d. fds (cur s) d = None) [0..<NR_OPEN] of
       Some d \<Rightarrow> (int d, upd_cur (clear_cloexec d) s)
     | None \<Rightarrow> (- EMFILE, s))"

definition close_fp :: "'f release_col \<Rightarrow> 'f super_operations \<Rightarrow> nat \<Rightarrow> 'f psys \<Rightarrow> 'f psys kres" where
  "close_fp rel sop filp s =
    (if f_count (file_array s filp) = 0 then Inr s
     else if f_count (file_array s filp) > 1 then Inr (updf filp (\<lambda>f. f\<lparr>f_count := f_count f - 1\<rparr>) s)
     else
       let inode = f_inode (file_array s filp)
       in bindr (case f_op (file_array s filp) of
                   None \<Rightarrow> Inr s
                 | Some t \<Rightarrow> (case rel t of None \<Rightarrow> Inr s | Some release \<Rightarrow> release inode filp s)) (\<lambda>s.
            on_vfs (iput sop inode) (updf filp (\<lambda>f. f\<lparr>f_count := f_count f - 1, f_inode := None\<rparr>) s)))"

primrec close_list :: "'f release_col \<Rightarrow> 'f super_operations \<Rightarrow> nat list \<Rightarrow> 'f psys \<Rightarrow> 'f psys kres" where
  "close_list rel sop [] s = Inr s"
| "close_list rel sop (d # ds) s =
    (case fds (cur s) d of
       None \<Rightarrow> close_list rel sop ds s
     | Some filp \<Rightarrow> bindr (close_fp rel sop filp (upd_cur (set_fd d None) s)) (close_list rel sop ds))"

definition close_allfiles :: "'f release_col \<Rightarrow> 'f super_operations \<Rightarrow> 'f psys \<Rightarrow> 'f psys kres" where
  "close_allfiles rel sop s = close_list rel sop [0..<NR_OPEN] s"

definition sys_close :: "'f release_col \<Rightarrow> 'f super_operations \<Rightarrow> u16 \<Rightarrow> 'f psys \<Rightarrow> (int \<times> 'f psys) kres" where
  "sys_close rel sop fd s =
    (if unat fd < NR_OPEN then
       let s = upd_cur (clear_cloexec (unat fd)) s
       in case fds (cur s) (unat fd) of
            Some filp \<Rightarrow> bindr (close_fp rel sop filp (upd_cur (set_fd (unat fd) None) s)) (\<lambda>s. Inr (0, s))
          | None \<Rightarrow> Inr (- EBADF, s)
     else Inr (- EBADF, s))"

section \<open>Duplicating descriptors\<close>

definition dupfd :: "u16 \<Rightarrow> u16 \<Rightarrow> 'f psys \<Rightarrow> int \<times> 'f psys" where
  "dupfd fd arg s =
    (if \<not> unat fd < NR_OPEN then (- EBADF, s)
     else case fds (cur s) (unat fd) of
       None \<Rightarrow> (- EBADF, s)
     | Some filp \<Rightarrow>
         if \<not> unat arg < NR_OPEN then (- EINVAL, s)
         else case find (\<lambda>d. fds (cur s) d = None) [unat arg..<NR_OPEN] of
           None \<Rightarrow> (- EMFILE, s)
         | Some d \<Rightarrow>
             (int d, updf filp (\<lambda>f. f\<lparr>f_count := f_count f + 1\<rparr>)
                (upd_cur (set_fd d (Some filp)) (upd_cur (clear_cloexec d) s))))"

definition sys_dup2 :: "'f release_col \<Rightarrow> 'f super_operations \<Rightarrow> u16 \<Rightarrow> u16 \<Rightarrow> 'f psys \<Rightarrow> (int \<times> 'f psys) kres" where
  "sys_dup2 rel sop oldfd newfd s =
    (if unat oldfd < NR_OPEN \<and> fds (cur s) (unat oldfd) \<noteq> None then
       if newfd = oldfd then Inr (sint newfd, s)
       else if unat newfd < NR_OPEN then
         bindr (sys_close rel sop newfd s) (\<lambda>(_, s). Inr (dupfd oldfd newfd s))
       else Inr (- EBADF, s)
     else Inr (- EBADF, s))"

definition sys_dup :: "u16 \<Rightarrow> 'f psys \<Rightarrow> int \<times> 'f psys" where
  "sys_dup fildes s = dupfd fildes 0 s"

abbreviation S_APPEND :: u16 where "S_APPEND \<equiv> 256"

definition sys_fcntl :: "u16 \<Rightarrow> u16 \<Rightarrow> u16 \<Rightarrow> 'f psys \<Rightarrow> (int \<times> 'f psys) kres" where
  "sys_fcntl fd cmd arg s =
    (if \<not> unat fd < NR_OPEN then Inr (- EBADF, s)
     else case fds (cur s) (unat fd) of
       None \<Rightarrow> Inr (- EBADF, s)
     | Some filp \<Rightarrow>
         if cmd = 0 then Inr (dupfd fd arg s)
         else if cmd = 1 then Inr (if test_bit fd (close_on_exec (cur s)) then 1 else 0, s)
         else if cmd = 2 then
           if arg AND 1 \<noteq> 0
           then Inr (0, upd_cur (\<lambda>t. t\<lparr>close_on_exec := snd (set_bit fd (close_on_exec t))\<rparr>) s)
           else Inr (0, upd_cur (clear_cloexec (unat fd)) s)
         else if cmd = 3 then Inr (sint (f_flags (file_array s filp)), s)
         else if cmd = 4 then
           bindr (deref (f_inode (file_array s filp))) (\<lambda>i.
             if i_flags (islot (vf s) i) AND S_APPEND = 0 \<or> arg AND O_APPEND \<noteq> 0 then
               Inr (0, updf filp (\<lambda>f. f\<lparr>f_flags := (f_flags f AND NOT (O_APPEND OR O_NONBLOCK)) OR (arg AND (O_APPEND OR O_NONBLOCK))\<rparr>) s)
             else Inr (- EPERM, s))
         else Inr (- EINVAL, s))"

section \<open>Reading, writing, positioning\<close>

text \<open>\<^verbatim>\<open>verfy_area\<close>, through the macro \<^verbatim>\<open>verify_area\<close>: the end of the area is computed with 16 bits.\<close>

definition verify_area :: "u16 \<Rightarrow> u16 \<Rightarrow> 'f psys \<Rightarrow> int" where
  "verify_area p len s =
    (if kernel_ds s = t_ds (cur s) then 0
     else if p + len > t_endseg (cur s) then - EFAULT
     else 0)"

text \<open>The third result is the position stored in the user's variable.\<close>

definition sys_lseek :: "'f lseek_col \<Rightarrow> u16 \<Rightarrow> u32 \<Rightarrow> u16 \<Rightarrow> 'f psys \<Rightarrow> (int \<times> u32 option \<times> 'f psys) kres" where
  "sys_lseek lsk fd offset origin s =
    (if \<not> unat fd < NR_OPEN then Inr (- EBADF, None, s)
     else case fds (cur s) (unat fd) of
       None \<Rightarrow> Inr (- EBADF, None, s)
     | Some filp \<Rightarrow>
         case f_inode (file_array s filp) of
           None \<Rightarrow> Inr (- EBADF, None, s)
         | Some i \<Rightarrow>
             if origin > 2 then Inr (- EINVAL, None, s)
             else case (case f_op (file_array s filp) of None \<Rightarrow> None | Some t \<Rightarrow> lsk t) of
               Some lseek \<Rightarrow> bindr (lseek i filp offset origin s) (\<lambda>(r, s). Inr (r, None, s))
             | None \<Rightarrow>
                 let tmp = (if origin = 2 then i_size (islot (vf s) i) + offset
                            else if origin = 0 then offset
                            else f_pos (file_array s filp) + offset)
                 in if sint tmp < 0 then Inr (- EINVAL, None, s)
                    else Inr (0, Some tmp, if tmp \<noteq> f_pos (file_array s filp) then updf filp (\<lambda>f. f\<lparr>f_pos := tmp\<rparr>) s else s))"

definition fd_check :: "u16 \<Rightarrow> u16 \<Rightarrow> u16 \<Rightarrow> u16 \<Rightarrow> 'f psys \<Rightarrow> int + nat" where
  "fd_check fd buf count rw s =
    (if \<not> unat fd < NR_OPEN then Inl (- EBADF)
     else case fds (cur s) (unat fd) of
       None \<Rightarrow> Inl (- EBADF)
     | Some tfil \<Rightarrow>
         if f_inode (file_array s tfil) = None \<or> f_mode (file_array s tfil) AND rw = 0 then Inl (- EBADF)
         else if f_op (file_array s tfil) = None then Inl (- EINVAL)
         else if count \<noteq> 0 \<and> verify_area buf count s \<noteq> 0 then Inl (- EFAULT)
         else Inr tfil)"

text \<open>\<open>sched\<close> is what happens until the process comes back from \<^verbatim>\<open>schedule\<close>. \<open>data\<close> is the contents of the
  user's buffer.\<close>

definition sys_read :: "'f read_col \<Rightarrow> ('f psys \<Rightarrow> 'f psys kres) \<Rightarrow> u16 \<Rightarrow> u16 \<Rightarrow> u16 \<Rightarrow> 'f psys \<Rightarrow> (int \<times> u8 list \<times> 'f psys) kres" where
  "sys_read rd sched fd buf count s =
    (case fd_check fd buf count FMODE_READ s of
       Inl e \<Rightarrow> Inr (e, [], s)
     | Inr filp \<Rightarrow>
         if count = 0 then Inr (0, [], s)
         else
           bindr (deref (f_op (file_array s filp))) (\<lambda>t.
             bindr (deref (f_inode (file_array s filp))) (\<lambda>i.
               case rd t of
                 None \<Rightarrow> Inr (- EINVAL, [], s)
               | Some read \<Rightarrow>
                   bindr (read i filp count s) (\<lambda>(r, bytes, s).
                     bindr (sched s) (\<lambda>s. Inr (r, bytes, s))))))"

abbreviation S_ISUID :: u16 where "S_ISUID \<equiv> 0x800"
abbreviation S_ISGID :: u16 where "S_ISGID \<equiv> 0x400"

definition sys_write :: "'f write_col \<Rightarrow> ('f psys \<Rightarrow> 'f psys kres) \<Rightarrow> u16 \<Rightarrow> u16 \<Rightarrow> u8 list \<Rightarrow> u16 \<Rightarrow> 'f psys \<Rightarrow> (int \<times> 'f psys) kres" where
  "sys_write wr sched fd buf data count s =
    (case fd_check fd buf count FMODE_WRITE s of
       Inl e \<Rightarrow> Inr (e, s)
     | Inr filp \<Rightarrow>
         if count = 0 then Inr (0, s)
         else
           bindr (deref (f_op (file_array s filp))) (\<lambda>t.
             bindr (deref (f_inode (file_array s filp))) (\<lambda>i.
               case wr t of
                 None \<Rightarrow> Inr (- EINVAL, s)
               | Some write \<Rightarrow>
                   let s = (if \<not> suser (ks s) \<and> i_mode (islot (vf s) i) AND (S_ISUID OR S_ISGID) \<noteq> 0
                            then s\<lparr>vf := Icache.upd i (\<lambda>n. n\<lparr>i_mode := i_mode n AND NOT (S_ISUID OR S_ISGID)\<rparr>) (vf s)\<rparr>
                            else s)
                   in bindr (write i filp data count s) (\<lambda>(r, s).
                        bindr (sched s) (\<lambda>s. Inr (r, s))))))"

section \<open>Pipes\<close>

definition get_pipe_mem :: "'f psys \<Rightarrow> nat option \<times> 'f psys" where
  "get_pipe_mem s =
    (case find (\<lambda>i. \<not> pipe_in_use s i) [0..<MAX_PIPES] of
       None \<Rightarrow> (None, s)
     | Some i \<Rightarrow> (Some i, s\<lparr>pipe_in_use := (pipe_in_use s)(i := True)\<rparr>))"

text \<open>The bytes of the pipe are those \<^verbatim>\<open>pipe_base[]\<close> still holds, an argument here.\<close>

definition get_pipe_inode :: "'f super_operations \<Rightarrow> (nat \<Rightarrow> nat \<Rightarrow> u8) \<Rightarrow> 'f psys \<Rightarrow> (nat option \<times> 'f psys) kres" where
  "get_pipe_inode sop pipe_base s =
    bindr (get_empty_inode (vf s)) (\<lambda>(i, v).
      let s = s\<lparr>vf := v\<rparr>;
          (m, s) = get_pipe_mem s
      in case m of
           None \<Rightarrow> bindr (on_vfs (iput sop (Some i)) s) (\<lambda>s. Inr (None, s))
         | Some k \<Rightarrow>
             Inr (Some i, s\<lparr>pipes := (pipes s)(i := \<lparr>p_base = pipe_base k, p_start = 0, p_len = 0, p_lock = 0, p_readers = 1, p_writers = 1\<rparr>),
               vf := Icache.upd i (\<lambda>n. n\<lparr>i_op := Pipe_ops, i_count := 2, i_pipe := True, i_mode := i_mode n OR 0x1180,
                 i_uid := euid (cur s), i_gid := ucast (egid (cur s)), minode.i_atime := xtime s, minode.i_mtime := xtime s, minode.i_ctime := xtime s\<rparr>) (vf s)\<rparr>))"

definition drop_filp :: "nat \<Rightarrow> 'f psys \<Rightarrow> 'f psys" where
  "drop_filp i s = updf i (\<lambda>f. f\<lparr>f_count := f_count f - 1\<rparr>) s"

text \<open>The error of the early exits is the positive \<^verbatim>\<open>ENFILE\<close> the variable starts with.\<close>

definition do_pipe :: "'f super_operations \<Rightarrow> (nat \<Rightarrow> nat \<Rightarrow> u8) \<Rightarrow> 'f psys \<Rightarrow> (int \<times> (int \<times> int) option \<times> 'f psys) kres" where
  "do_pipe sop pipe_base s =
    (case get_empty_filp s of
       (None, s) \<Rightarrow> Inr (ENFILE, None, s)
     | (Some f1, s) \<Rightarrow>
         (case get_empty_filp s of
            (None, s) \<Rightarrow> Inr (ENFILE, None, drop_filp f1 s)
          | (Some f2, s) \<Rightarrow>
              bindr (get_pipe_inode sop pipe_base s) (\<lambda>(inode, s).
                case inode of
                  None \<Rightarrow> Inr (ENFILE, None, drop_filp f1 (drop_filp f2 s))
                | Some ino \<Rightarrow>
                    let put = (\<lambda>error s.
                          bindr (on_vfs (iput sop (Some ino)) (s\<lparr>vf := Icache.upd ino (\<lambda>n. n\<lparr>i_count := i_count n - 1\<rparr>) (vf s)\<rparr>)) (\<lambda>s.
                            Inr (error, None, drop_filp f1 (drop_filp f2 s))));
                        (i, s) = get_unused_fd s
                    in if i < 0 then put i s
                       else
                         let s = upd_cur (set_fd (nat i) (Some f1)) s;
                             (j, s) = get_unused_fd s
                         in if j < 0 then put j (upd_cur (set_fd (nat i) None) s)
                            else
                              let s = updf f1 (\<lambda>f. f\<lparr>f_inode := Some ino, f_pos := 0, f_flags := 0, f_op := Some Read_pipe_fops, f_mode := 1\<rparr>) s;
                                  s = updf f2 (\<lambda>f. f\<lparr>f_inode := Some ino, f_pos := 0, f_flags := 1, f_op := Some Write_pipe_fops, f_mode := 2\<rparr>) s
                              in Inr (0, Some (i, j), upd_cur (set_fd (nat j) (Some f2)) s))))"

definition sys_pipe :: "'f super_operations \<Rightarrow> (nat \<Rightarrow> nat \<Rightarrow> u8) \<Rightarrow> u16 \<Rightarrow> 'f psys \<Rightarrow> (int \<times> (int \<times> int) option \<times> 'f psys) kres" where
  "sys_pipe sop pipe_base filedes s =
    bindr (do_pipe sop pipe_base s) (\<lambda>(error, fd, s).
      if error \<noteq> 0 then Inr (error, None, s)
      else if verify_area filedes 4 s \<noteq> 0 then Inr (verify_area filedes 4 s, None, s)
      else Inr (0, fd, s))"

section \<open>The release column\<close>

text \<open>An operation of a pipe on the inode in slot \<open>i\<close>; the wake-ups it asks for are done.\<close>

definition lift_pipe :: "(pipe_st \<Rightarrow> pipe_st) \<Rightarrow> nat \<Rightarrow> 'f psys \<Rightarrow> 'f psys kres" where
  "lift_pipe g i s =
    (let n = islot (vf s) i;
         st = g \<lparr>pip = pipes s i, pipe_st.i_atime = minode.i_atime n, pipe_st.i_ctime = minode.i_ctime n, pipe_st.i_mtime = minode.i_mtime n,
                 cur_signal = signal (cur s), cur_sent = [], wakes = 0, pipe_st.now = xtime s, h_in = [], h_out = []\<rparr>
     in bindr (if wakes st > 0 then wake_up_queue (pipe_wait s i) False (ks s) else Inr (ks s)) (\<lambda>k.
          Inr (s\<lparr>pipes := (pipes s)(i := pip st), ks := k\<rparr>)))"

text \<open>The files of the Minix file system and the default tables of devices have no \<^verbatim>\<open>release\<close>;
  \<open>other\<close> is the one of a device driver.\<close>

definition releases :: "(nat option \<Rightarrow> nat \<Rightarrow> 'f psys \<Rightarrow> 'f psys kres) option \<Rightarrow> 'f release_col" where
  "releases other t =
    (case t of
       Read_pipe_fops \<Rightarrow> Some (\<lambda>i f s. bindr (deref i) (\<lambda>i. lift_pipe pipe_read_release i s))
     | Write_pipe_fops \<Rightarrow> Some (\<lambda>i f s. bindr (deref i) (\<lambda>i. lift_pipe pipe_write_release i s))
     | Rdwr_pipe_fops \<Rightarrow> Some (\<lambda>i f s. bindr (deref i) (\<lambda>i.
         lift_pipe (pipe_rdwr_release (f_mode (file_array s f) AND FMODE_READ \<noteq> 0) (f_mode (file_array s f) AND FMODE_WRITE \<noteq> 0)) i s))
     | Other_fops \<Rightarrow> other
     | _ \<Rightarrow> None)"

end
