(* ===== verification/Process.thy ===== *)
theory Process
  imports Files
begin

text \<open>
  Processes: creation (kernel/fork.c), end and wait (kernel/exit.c), identities (kernel/sys.c). The search for
  a process number always ends with a number that no process, group or session has, and an unprivileged
  process stays unprivileged.
\<close>

definition updp :: "nat \<Rightarrow> (task_struct \<Rightarrow> task_struct) \<Rightarrow> 'f psys \<Rightarrow> 'f psys" where
  "updp i f s = s\<lparr>ks := Sched.upd i f (ks s)\<rparr>"

definition on_ks :: "(ksys \<Rightarrow> ksys kres) \<Rightarrow> 'f psys \<Rightarrow> 'f psys kres" where
  "on_ks f s = bindr (f (ks s)) (\<lambda>k. Inr (s\<lparr>ks := k\<rparr>))"

section \<open>Creating a process\<close>

definition find_empty_process :: "'f psys \<Rightarrow> int" where
  "find_empty_process s =
    (let unused = filter (\<lambda>i. state (task (ks s) i) = TASK_UNUSED) [0..<MAX_TASKS]
     in if length unused \<le> 1 \<and> (unused = [] \<or> uid (cur s) \<noteq> 0) then - EAGAIN else int (last unused))"

text \<open>Numbers that a process, a process group or a session has.\<close>

definition pid_taken :: "u16 \<Rightarrow> 'f psys \<Rightarrow> bool" where
  "pid_taken p s \<longleftrightarrow> list_ex (\<lambda>i. pid (task (ks s) i) = sint p \<or> pgrp (task (ks s) i) = sint p \<or> session (task (ks s) i) = sint p) [0..<MAX_TASKS]"

primrec get_pid_loop :: "nat \<Rightarrow> 'f psys \<Rightarrow> (int \<times> 'f psys) kres" where
  "get_pid_loop 0 s = Inl Stuck"
| "get_pid_loop (Suc n) s =
    (let p = last_pid s + 1;
         p = (if p AND 0x7fff = 0 then 1 else p);
         s = s\<lparr>last_pid := p\<rparr>
     in if pid_taken p s then get_pid_loop n s else Inr (sint p, s))"

text \<open>15 tasks take 45 numbers at most.\<close>

definition get_pid :: "'f psys \<Rightarrow> (int \<times> 'f psys) kres" where
  "get_pid s = get_pid_loop (3 * MAX_TASKS + 1) s"

primrec share_files :: "nat list \<Rightarrow> 'f psys \<Rightarrow> 'f psys" where
  "share_files [] s = s"
| "share_files (d # ds) s =
    share_files ds (case fds (cur s) d of None \<Rightarrow> s | Some filp \<Rightarrow> updf filp (\<lambda>f. f\<lparr>f_count := f_count f + 1\<rparr>) s)"

definition ref_inode :: "nat \<Rightarrow> 'f psys \<Rightarrow> 'f psys" where
  "ref_inode i s = s\<lparr>vf := Icache.upd i (\<lambda>n. n\<lparr>i_count := i_count n + 1\<rparr>) (vf s)\<rparr>"

text \<open>The part of \<^verbatim>\<open>do_fork\<close> after the child has its number \<open>p\<close>: files, inodes and family.\<close>

definition fork_setup :: "nat \<Rightarrow> int \<Rightarrow> 'f psys \<Rightarrow> 'f psys" where
  "fork_setup t p s =
    (let me = current (ks s);
         s = updp t (\<lambda>x. x\<lparr>pid := p, ppid := pid (task (ks s) me), t_kstackm := KSTACK_MAGIC, next_run := None, prev_run := None\<rparr>) s;
         s = share_files [0..<NR_OPEN] s;
         s = ref_inode (pwd_i (task (ks s) t)) (ref_inode (root_i (task (ks s) t)) (ref_inode (t_inode (task (ks s) t)) s));
         child = p_child (task (ks s) me);
         s = updp t (\<lambda>x. x\<lparr>p_parent := Some me, p_nextsib := None, p_child := None, child_lastend := 0, lastend_status := 0, p_prevsib := child\<rparr>) s;
         s = (case child of None \<Rightarrow> s | Some c \<Rightarrow> updp c (\<lambda>x. x\<lparr>p_nextsib := Some t\<rparr>) s)
     in updp me (\<lambda>x. x\<lparr>p_child := Some t\<rparr>) s)"

text \<open>\<^verbatim>\<open>do_fork(0)\<close>. The wait queue in the task struct is known by its address, which is not copied.\<close>

definition do_fork :: "'f psys \<Rightarrow> (int \<times> 'f psys) kres" where
  "do_fork s =
    (let i = find_empty_process s; me = current (ks s); t = nat i in
     if i < 0 then Inr (i, s)
     else
       let s = updp t (\<lambda>x. (task (ks s) me)\<lparr>child_wait := child_wait x\<rparr>) s
       in bindr (mm_realloc (mhead s) (mm_cseg (task (ks s) me))) (\<lambda>(_, mh).
          bindr (mm_dup mh (kmem s) (mm_dseg (task (ks s) me))) (\<lambda>(dseg, mh, mem).
            let s = updp t (\<lambda>x. x\<lparr>mm_dseg := dseg\<rparr>) (s\<lparr>mhead := mh, kmem := mem\<rparr>)
            in if dseg = 0 then
                 bindr (mm_free mh (mm_cseg (task (ks s) me))) (\<lambda>mh.
                   Inr (- ENOMEM, updp t (\<lambda>x. x\<lparr>state := TASK_UNUSED\<rparr>) (s\<lparr>mhead := mh\<rparr>)))
               else
                 bindr (get_pid (updp t (\<lambda>x. x\<lparr>t_ds := dseg, state := TASK_UNINTERRUPTIBLE\<rparr>) s)) (\<lambda>(p, s).
                   bindr (on_ks (wake_up_process t) (fork_setup t p s)) (\<lambda>s.
                     Inr (pid (task (ks s) t), s))))))"

definition sys_fork :: "'f psys \<Rightarrow> (int \<times> 'f psys) kres" where
  "sys_fork s = do_fork s"

text \<open>In the build for ELKS executables (\<^verbatim>\<open>CONFIG_EXEC_ELKS\<close>), which is the one modelled, \<^verbatim>\<open>vfork\<close> is
  \<^verbatim>\<open>fork\<close>: \<^verbatim>\<open>do_fork\<close> is called with 0 only.\<close>

definition sys_vfork :: "'f psys \<Rightarrow> (int \<times> 'f psys) kres" where
  "sys_vfork s = do_fork s"

section \<open>Ending a process\<close>

definition free_seg :: "seg_t \<Rightarrow> 'f psys \<Rightarrow> 'f psys kres" where
  "free_seg seg s = (if seg = 0 then Inr s else bindr (mm_free (mhead s) seg) (\<lambda>mh. Inr (s\<lparr>mhead := mh\<rparr>)))"

text \<open>The current process leaves the list of its siblings.\<close>

definition leave_family :: "nat \<Rightarrow> 'f psys \<Rightarrow> 'f psys" where
  "leave_family parent s =
    (let me = current (ks s);
         s = (case p_prevsib (cur s) of None \<Rightarrow> s | Some t \<Rightarrow> updp t (\<lambda>x. x\<lparr>p_nextsib := p_nextsib (cur s)\<rparr>) s);
         s = (case p_nextsib (cur s) of None \<Rightarrow> s | Some t \<Rightarrow> updp t (\<lambda>x. x\<lparr>p_prevsib := p_prevsib (cur s)\<rparr>) s)
     in if p_child (task (ks s) parent) = Some me
        then case p_prevsib (cur s) of
               Some t \<Rightarrow> updp parent (\<lambda>x. x\<lparr>p_child := Some t\<rparr>) s
             | None \<Rightarrow> (case p_nextsib (cur s) of Some t \<Rightarrow> updp parent (\<lambda>x. x\<lparr>p_child := Some t\<rparr>) s | None \<Rightarrow> s)
        else s)"

text \<open>The stages of \<^verbatim>\<open>do_exit\<close>: files and memory are given back, the parent is told, the inodes are
  given back, and the processor goes to another task.\<close>

definition exit_memory :: "'f release_col \<Rightarrow> 'f super_operations \<Rightarrow> 'f psys \<Rightarrow> 'f psys kres" where
  "exit_memory rel sop s =
    bindr (close_allfiles rel sop s) (\<lambda>s.
    bindr (free_seg (mm_cseg (cur s)) (upd_cur (\<lambda>t. t\<lparr>state := TASK_EXITING\<rparr>) s)) (\<lambda>s.
    bindr (free_seg (mm_dseg (cur s)) s) (\<lambda>s.
      Inr (upd_cur (\<lambda>t. t\<lparr>mm_cseg := 0, mm_dseg := 0\<rparr>) s))))"

definition exit_notify :: "nat \<Rightarrow> int \<Rightarrow> 'f psys \<Rightarrow> 'f psys kres" where
  "exit_notify parent status s =
    (let s = leave_family parent s
     in bindr (kill_process (ppid (cur s)) SIGCHLD True (ks s)) (\<lambda>(_, k).
          let s = s\<lparr>ks := k\<rparr>
          in Inr (updp parent (\<lambda>t. t\<lparr>child_lastend := pid (cur s), lastend_status := status\<rparr>) s)))"

definition exit_inodes :: "'f super_operations \<Rightarrow> 'f psys \<Rightarrow> 'f psys kres" where
  "exit_inodes sop s =
    bindr (on_vfs (iput sop (Some (t_inode (cur s)))) s) (\<lambda>s.
    bindr (on_vfs (iput sop (Some (root_i (cur s)))) s) (\<lambda>s.
      on_vfs (iput sop (Some (pwd_i (cur s)))) s))"

definition exit_switch :: "nat \<Rightarrow> 'f psys \<Rightarrow> 'f psys kres" where
  "exit_switch parent s =
    bindr (on_ks (wake_up_queue (child_wait (task (ks s) parent)) True) (upd_cur (\<lambda>t. t\<lparr>state := TASK_UNUSED\<rparr>) s)) (\<lambda>s.
    bindr (schedule (ks s)) (\<lambda>(out, k).
      case out of
        Returned \<Rightarrow> Inl (Panic ''Returning from sys_exit!'')
      | Switched _ \<Rightarrow> Inr (s\<lparr>ks := k\<rparr>)))"

text \<open>\<^verbatim>\<open>do_exit\<close> does not return: the result is the system after the switch to the next task.\<close>

definition do_exit :: "'f release_col \<Rightarrow> 'f super_operations \<Rightarrow> int \<Rightarrow> 'f psys \<Rightarrow> 'f psys kres" where
  "do_exit rel sop status s =
    bindr (exit_memory rel sop s) (\<lambda>s.
    bindr (deref (p_parent (cur s))) (\<lambda>parent.
    bindr (exit_notify parent status s) (\<lambda>s.
    bindr (exit_inodes sop s) (\<lambda>s.
      exit_switch parent s))))"

definition sys_exit :: "'f release_col \<Rightarrow> 'f super_operations \<Rightarrow> u16 \<Rightarrow> 'f psys \<Rightarrow> 'f psys kres" where
  "sys_exit rel sop status s = do_exit rel sop (sint (push_bit 8 (status AND 0xff))) s"

text \<open>\<open>back\<close> is what happens while the process sleeps. \<open>status\<close> is the user's pointer, 0 for NULL; the second
  result is what is stored there. The argument \<open>pid\<close> is not looked at.\<close>

definition sys_wait4 :: "(ksys \<Rightarrow> ksys kres) \<Rightarrow> int \<Rightarrow> u16 \<Rightarrow> u16 \<Rightarrow> 'f psys \<Rightarrow> (int \<times> int option \<times> 'f psys) kres" where
  "sys_wait4 back p status options s =
    bindr (if options AND 1 \<noteq> 0 \<or> child_lastend (cur s) \<noteq> 0 then Inr s
           else on_ks (interruptible_sleep_on back (child_wait (cur s))) s) (\<lambda>s.
      if child_lastend (cur s) \<noteq> 0 then
        if status \<noteq> 0 \<and> verify_area status 2 s \<noteq> 0 then Inr (- EFAULT, None, s)
        else Inr (child_lastend (cur s), if status \<noteq> 0 then Some (lastend_status (cur s)) else None,
                  upd_cur (\<lambda>t. t\<lparr>child_lastend := 0\<rparr>) s)
      else Inr (- EINTR, None, s))"

section \<open>Identities\<close>

definition sys_setgid :: "u16 \<Rightarrow> ksys \<Rightarrow> int \<times> ksys" where
  "sys_setgid g s =
    (let old = egid (task s (current s));
         changed = (\<lambda>s. (0, if egid (task s (current s)) \<noteq> old then Sched.upd (current s) (\<lambda>t. t\<lparr>dumpable := False\<rparr>) s else s))
     in if suser s then changed (Sched.upd (current s) (\<lambda>t. t\<lparr>gid := g, egid := g, sgid := g\<rparr>) s)
        else if g = gid (task s (current s)) \<or> g = sgid (task s (current s)) then changed (Sched.upd (current s) (\<lambda>t. t\<lparr>egid := g\<rparr>) s)
        else (- EPERM, s))"

definition sys_setuid :: "u16 \<Rightarrow> ksys \<Rightarrow> int \<times> ksys" where
  "sys_setuid u s =
    (let old = euid (task s (current s));
         changed = (\<lambda>s. (0, if euid (task s (current s)) \<noteq> old then Sched.upd (current s) (\<lambda>t. t\<lparr>dumpable := False\<rparr>) s else s))
     in if suser s then changed (Sched.upd (current s) (\<lambda>t. t\<lparr>uid := u, euid := u, suid := u\<rparr>) s)
        else if u = uid (task s (current s)) \<or> u = suid (task s (current s)) then changed (Sched.upd (current s) (\<lambda>t. t\<lparr>euid := u\<rparr>) s)
        else (- EPERM, s))"

definition sys_umask :: "u16 \<Rightarrow> ksys \<Rightarrow> u16 \<times> ksys" where
  "sys_umask m s = (umask (task s (current s)), Sched.upd (current s) (\<lambda>t. t\<lparr>umask := m AND 0x1ff\<rparr>) s)"

definition sys_setsid :: "ksys \<Rightarrow> int \<times> ksys" where
  "sys_setsid s =
    (let t = task s (current s)
     in if session t = pid t then (- EPERM, s)
        else (pid t, Sched.upd (current s) (\<lambda>t. t\<lparr>session := pid t, pgrp := pid t, tty := None\<rparr>) s))"

definition sys_getuid :: "ksys \<Rightarrow> u16" where
  "sys_getuid s = uid (task s (current s))"

definition sys_getpid :: "ksys \<Rightarrow> int" where
  "sys_getpid s = pid (task s (current s))"

definition in_group_p :: "u16 \<Rightarrow> ksys \<Rightarrow> bool" where
  "in_group_p grp s \<longleftrightarrow> grp = egid (task s (current s))"

section \<open>Process numbers\<close>

definition pid_step :: "u16 \<Rightarrow> u16" where
  "pid_step p = (if (p + 1) AND 0x7fff = 0 then 1 else p + 1)"

lemma pid_step_unat:
  assumes "unat p \<le> 32767"
  shows "unat (pid_step p) = unat p mod 32767 + 1"
proof -
  have u: "unat (p + 1) = unat p + 1" using assms by (simp add: unat_word_ariths)
  have "(p + 1) AND 0x7fff = take_bit 15 (p + 1)" by (simp add: take_bit_eq_mask mask_eq_exp_minus_1)
  then have "unat ((p + 1) AND 0x7fff) = (unat p + 1) mod 32768"
    by (simp only: unsigned_take_bit_eq u) (simp add: take_bit_eq_mod)
  then have "(p + 1) AND 0x7fff = 0 \<longleftrightarrow> unat p = 32767"
    using assms by (cases "unat p = 32767") (simp_all add: word_unat_eq_iff)
  then show ?thesis using assms u by (auto simp: pid_step_def le_eq_less_or_eq)
qed

lemma pid_steps_unat:
  assumes "unat p \<le> 32767"
  shows "unat ((pid_step ^^ k) p) \<le> 32767 \<and> (0 < k \<longrightarrow> unat ((pid_step ^^ k) p) = (unat p + 32766 + k) mod 32767 + 1)"
proof (induction k)
  case (Suc k)
  let ?q = "(pid_step ^^ k) p"
  have q: "unat ?q \<le> 32767" using Suc by blast
  have "unat ?q mod 32767 = (unat p + 32767 + k) mod 32767"
  proof (cases k)
    case 0
    then show ?thesis by simp
  next
    case (Suc m)
    then have "unat ?q = (unat p + 32766 + k) mod 32767 + 1" using Suc.IH by simp
    moreover have "(unat p + 32767 + k) mod 32767 = (unat p + k) mod 32767"
      unfolding add.assoc[of _ "32767"] add.commute[of "32767"] add.assoc[symmetric] by (rule mod_add_self2)
    ultimately show ?thesis by (simp add: mod_simps)
  qed
  moreover have "unat p + 32766 + Suc k = unat p + 32767 + k" by linarith
  moreover have "(unat p + 32767 + k) mod 32767 < 32767" by (rule mod_less_divisor) simp
  moreover have "(pid_step ^^ Suc k) p = pid_step ?q" by simp
  ultimately show ?case using pid_step_unat[OF q] by (simp only:) linarith
qed (use assms in simp)

lemma pid_steps_inj:
  assumes "unat p \<le> 32767"
  shows "inj_on (\<lambda>k. (pid_step ^^ k) p) {1..46}"
proof (rule inj_onI)
  fix j k assume jk: "j \<in> {1..46}" "k \<in> {1..46}" "(pid_step ^^ j) p = (pid_step ^^ k) p"
  then have "(unat p + 32766 + j) mod 32767 = (unat p + 32766 + k) mod 32767"
    using pid_steps_unat[OF assms, of j] pid_steps_unat[OF assms, of k] by auto
  then obtain a b where "j + 32767 * a = k + 32767 * b" by (auto simp: nat_mod_eq_iff)
  moreover have "j < 32767" "k < 32767" using jk by auto
  ultimately show "j = k"
    by (metis mod_less mod_mult_self2)
qed

definition pids_taken :: "ksys \<Rightarrow> int set" where
  "pids_taken k = (\<lambda>i. pid (task k i)) ` {..<MAX_TASKS} \<union> (\<lambda>i. pgrp (task k i)) ` {..<MAX_TASKS} \<union> (\<lambda>i. session (task k i)) ` {..<MAX_TASKS}"

lemma pid_taken_iff: "pid_taken p s \<longleftrightarrow> sint p \<in> pids_taken (ks s)"
  by (auto simp: pid_taken_def pids_taken_def list_ex_iff image_iff; metis lessThan_iff)

lemma card_pids_taken: "card (pids_taken k) \<le> 45" "finite (pids_taken k)"
proof -
  have c: "card ((\<lambda>i. f (task k i)) ` {..<MAX_TASKS}) \<le> 15" for f :: "task_struct \<Rightarrow> int"
    using card_image_le[of "{..<MAX_TASKS}" "\<lambda>i. f (task k i)"] by simp
  show "card (pids_taken k) \<le> 45"
    unfolding pids_taken_def using c[of pid] c[of pgrp] c[of session]
    by (intro order_trans[OF card_Un_le] order_trans[OF add_mono[OF card_Un_le order_refl]]) simp
  show "finite (pids_taken k)" by (simp add: pids_taken_def)
qed

lemma get_pid_loop_finds:
  assumes "\<not> pid_taken ((pid_step ^^ Suc k) (last_pid s)) s" "k < n"
  shows "\<exists>j \<le> k. get_pid_loop n s = Inr (sint ((pid_step ^^ Suc j) (last_pid s)), s\<lparr>last_pid := (pid_step ^^ Suc j) (last_pid s)\<rparr>) \<and>
    \<not> pid_taken ((pid_step ^^ Suc j) (last_pid s)) s"
  using assms
proof (induction n arbitrary: k s)
  case (Suc n)
  let ?s = "s\<lparr>last_pid := pid_step (last_pid s)\<rparr>"
  have step: "get_pid_loop (Suc n) s = (if pid_taken (pid_step (last_pid s)) s then get_pid_loop n ?s else Inr (sint (pid_step (last_pid s)), ?s))"
    by (simp add: pid_step_def Let_def pid_taken_def)
  show ?case
  proof (cases "pid_taken (pid_step (last_pid s)) s")
    case True
    then obtain m where k: "k = Suc m" using Suc.prems(1) by (cases k) auto
    then have "\<not> pid_taken ((pid_step ^^ Suc m) (last_pid ?s)) ?s" "m < n"
      using Suc.prems by (simp_all add: pid_taken_def funpow_swap1)
    from Suc.IH[OF this] obtain j where "j \<le> m" "get_pid_loop n ?s = Inr (sint ((pid_step ^^ Suc j) (last_pid ?s)), ?s\<lparr>last_pid := (pid_step ^^ Suc j) (last_pid ?s)\<rparr>)"
      "\<not> pid_taken ((pid_step ^^ Suc j) (last_pid ?s)) ?s" by blast
    then show ?thesis using True k step by (intro exI[of _ "Suc j"]) (simp add: pid_taken_def funpow_swap1)
  next
    case False
    then show ?thesis using step by (intro exI[of _ 0]) simp
  qed
qed simp

lemma get_pid_ok:
  assumes p: "unat (last_pid s) \<le> 32767"
  obtains p where "get_pid s = Inr (sint p, s\<lparr>last_pid := p\<rparr>)" "1 \<le> unat p" "unat p \<le> 32767" "\<not> pid_taken p s"
proof -
  let ?f = "\<lambda>k. (pid_step ^^ k) (last_pid s)"
  have "inj_on (\<lambda>k. sint (?f k)) {1..46}"
    using pid_steps_inj[OF p] by (auto simp: inj_on_def dest!: signed_word_eqI)
  then have "card ((\<lambda>k. sint (?f k)) ` {1..46}) = 46" by (simp add: card_image)
  then have "\<not> (\<lambda>k. sint (?f k)) ` {1..46} \<subseteq> pids_taken (ks s)"
    using card_mono[OF card_pids_taken(2)[of "ks s"], of "(\<lambda>k. sint (?f k)) ` {1..46}"] card_pids_taken(1)[of "ks s"] by linarith
  then obtain k where k: "k \<in> {1..46}" "\<not> pid_taken (?f k) s" unfolding pid_taken_iff image_subset_iff by blast
  then obtain m where m: "k = Suc m" "m < 46" by (cases k) auto
  from get_pid_loop_finds[of m s 46] m k obtain j where j: "get_pid_loop 46 s = Inr (sint (?f (Suc j)), s\<lparr>last_pid := ?f (Suc j)\<rparr>)" "\<not> pid_taken (?f (Suc j)) s" by blast
  then have "get_pid s = Inr (sint (?f (Suc j)), s\<lparr>last_pid := ?f (Suc j)\<rparr>)" by (simp add: get_pid_def del: get_pid_loop.simps funpow.simps)
  moreover have "1 \<le> unat (?f (Suc j))" "unat (?f (Suc j)) \<le> 32767" using pid_steps_unat[OF p, of "Suc j"] by simp_all
  ultimately show ?thesis using that j(2) by blast
qed

section \<open>Identities of an unprivileged process\<close>

text \<open>The calls on identities that the running process makes.\<close>

inductive id_step :: "ksys \<Rightarrow> ksys \<Rightarrow> bool" where
  id_setuid: "sys_setuid u s = (r, s') \<Longrightarrow> id_step s s'"
| id_setgid: "sys_setgid g s = (r, s') \<Longrightarrow> id_step s s'"
| id_umask: "sys_umask m s = (o', s') \<Longrightarrow> id_step s s'"
| id_setsid: "sys_setsid s = (r, s') \<Longrightarrow> id_step s s'"

definition ids_kept :: "ksys \<Rightarrow> ksys \<Rightarrow> bool" where
  "ids_kept s s' \<longleftrightarrow> current s' = current s \<and> (\<forall>i. i \<noteq> current s \<longrightarrow> task s' i = task s i) \<and>
    (let t = task s (current s); t' = task s' (current s) in
       uid t' = uid t \<and> suid t' = suid t \<and> gid t' = gid t \<and> sgid t' = sgid t \<and>
       euid t' \<in> {uid t, euid t, suid t} \<and> egid t' \<in> {gid t, egid t, sgid t})"

lemma id_step_kept:
  assumes "id_step s s'" "\<not> suser s"
  shows "ids_kept s s'"
  using assms by (cases rule: id_step.cases)
    (auto simp: ids_kept_def sys_setuid_def sys_setgid_def sys_umask_def sys_setsid_def Let_def split: if_splits)

text \<open>C35: 
  An unprivileged process whose user numbers are all different from 0 stays unprivileged: whatever setuid, setgid, umask
  and setsid it calls, its real and saved numbers never change, its effective numbers are among those it
  started with, it never becomes the superuser, and no other task is touched.
\<close>

theorem unprivileged_stays:
  assumes "id_step\<^sup>*\<^sup>* s s'" and "0 \<notin> {uid (task s (current s)), euid (task s (current s)), suid (task s (current s))}"
  shows "\<not> suser s' \<and> ids_kept s s'"
  using assms
proof (induction rule: rtranclp_induct)
  case base
  then show ?case by (simp add: ids_kept_def suser_def Let_def)
next
  case (step s1 s2)
  then have k: "\<not> suser s1" "ids_kept s s1" by simp_all
  have k2: "ids_kept s1 s2" by (rule id_step_kept[OF step.hyps(2) k(1)])
  have "ids_kept s s2" using k(2) k2 by (auto simp: ids_kept_def Let_def)
  moreover have "\<not> suser s2" using calculation step.prems by (auto simp: ids_kept_def suser_def Let_def)
  ultimately show ?case by simp
qed

theorem unprivileged_stays_witness:
  "\<exists>s'. id_step\<^sup>*\<^sup>* (Sched.upd 7 (\<lambda>t. t\<lparr>uid := 5, euid := 5, suid := 9\<rparr>) two_sys) s' \<and> euid (task s' 7) = 9 \<and> \<not> suser s'"
proof -
  let ?s = "Sched.upd 7 (\<lambda>t. t\<lparr>uid := 5, euid := 5, suid := 9\<rparr>) two_sys"
  let ?s' = "snd (sys_setuid 9 ?s)"
  have c: "current ?s = 7" by (simp add: two_sys_def)
  have "id_step ?s ?s'" by (rule id_setuid[of 9 _ "fst (sys_setuid 9 ?s)"]) simp
  then have st: "id_step\<^sup>*\<^sup>* ?s ?s'" by blast
  have "euid (task ?s' 7) = 9" by (simp add: sys_setuid_def suser_def two_sys_def idle_task_def Let_def)
  moreover have "0 \<notin> {uid (task ?s (current ?s)), euid (task ?s (current ?s)), suid (task ?s (current ?s))}" unfolding c by simp
  ultimately show ?thesis using unprivileged_stays[OF st] st by blast
qed

end
