(* ===== verification/FileRefs.thy ===== *)
theory FileRefs
  imports Process
begin

text \<open>
  Every open file is counted: the invariant that ties the reference counts of the file table to the
  descriptors of all processes, kept by every call of Files and by fork and exit of Process. What the
  drivers' release functions promise is the locale \<open>release_law\<close>.
\<close>

section \<open>Updates\<close>

lemma psys_simps [simp]:
  "cur (updf i f s) = cur s" "ks (updf i f s) = ks s" "vf (updf i f s) = vf s"
  "file_array (updf i f s) j = (if j = i then f (file_array s i) else file_array s j)"
  "cur (upd_cur g s) = g (cur s)" "file_array (upd_cur g s) = file_array s" "vf (upd_cur g s) = vf s"
  "current (ks (upd_cur g s)) = current (ks s)"
  "task (ks (upd_cur g s)) i = (if i = current (ks s) then g (cur s) else task (ks s) i)"
  "file_array (s\<lparr>vf := v\<rparr>) = file_array s" "cur (s\<lparr>vf := v\<rparr>) = cur s"
  by (simp_all add: updf_def upd_cur_def cur_def)

lemma set_fd_simps [simp]:
  "fds (set_fd d f t) = (fds t)(d := f)" "state (set_fd d f t) = state t"
  "fds (clear_cloexec d t) = fds t" "state (clear_cloexec d t) = state t"
  by (simp_all add: set_fd_def clear_cloexec_def)

section \<open>Counting references\<close>

definition fdrefs :: "(nat \<Rightarrow> nat option) \<Rightarrow> nat \<Rightarrow> nat" where
  "fdrefs fd f = card {d. d < NR_OPEN \<and> fd d = Some f}"

definition live :: "ksys \<Rightarrow> nat set" where
  "live k = {t. t < MAX_TASKS \<and> state (task k t) \<noteq> TASK_UNUSED}"

definition open_refs :: "ksys \<Rightarrow> nat \<Rightarrow> nat" where
  "open_refs k f = (\<Sum>t\<in>live k. fdrefs (fds (task k t)) f)"

definition files_ok :: "'f psys \<Rightarrow> bool" where
  "files_ok s \<longleftrightarrow> (\<forall>f. unat (f_count (file_array s f)) = open_refs (ks s) f)"

lemma fdrefs_le: "fdrefs fd f \<le> 20"
proof -
  have "card {d. d < NR_OPEN \<and> fd d = Some f} \<le> card {..<NR_OPEN}" by (intro card_mono) auto
  then show ?thesis by (simp add: fdrefs_def)
qed

lemma finite_live [simp]: "finite (live k)"
  by (simp add: live_def)

lemma open_refs_le: "open_refs k f \<le> 300"
proof -
  have "open_refs k f \<le> (\<Sum>t\<in>live k. 20)" unfolding open_refs_def by (intro sum_mono fdrefs_le)
  also have "\<dots> \<le> (\<Sum>t<MAX_TASKS. 20)" by (intro sum_mono2) (auto simp: live_def)
  finally show ?thesis by simp
qed

lemma fdrefs_upd:
  assumes "d < NR_OPEN"
  shows "fdrefs (fd(d := p)) f + (if fd d = Some f then 1 else 0) = fdrefs fd f + (if p = Some f then 1 else 0)"
proof -
  let ?A = "{e. e < NR_OPEN \<and> e \<noteq> d \<and> fd e = Some f}"
  have split: "{e. e < NR_OPEN \<and> (g :: nat \<Rightarrow> nat option) e = Some f} = (if g d = Some f then insert d ?A else ?A)"
    if "\<And>e. e \<noteq> d \<Longrightarrow> g e = fd e" for g
    using that assms by (auto, metis+)
  have "d \<notin> ?A" "finite ?A" by simp_all
  then have "fdrefs fd f = card ?A + (if fd d = Some f then 1 else 0)" "fdrefs (fd(d := p)) f = card ?A + (if p = Some f then 1 else 0)"
    unfolding fdrefs_def using split[of fd] split[of "fd(d := p)"] by simp_all
  then show ?thesis by simp
qed

lemma open_refs_upd:
  assumes "i \<in> live k" "state (g (task k i)) \<noteq> TASK_UNUSED"
  shows "open_refs (Sched.upd i g k) f + fdrefs (fds (task k i)) f = open_refs k f + fdrefs (fds (g (task k i))) f"
proof -
  have l: "live (Sched.upd i g k) = live k" using assms by (auto simp: live_def)
  have "open_refs k f = fdrefs (fds (task k i)) f + (\<Sum>t\<in>live k - {i}. fdrefs (fds (task k t)) f)"
    using assms(1) by (simp add: open_refs_def sum.remove)
  moreover have "open_refs (Sched.upd i g k) f = fdrefs (fds (g (task k i))) f + (\<Sum>t\<in>live k - {i}. fdrefs (fds (task k t)) f)"
    using assms(1) by (simp add: open_refs_def l sum.remove)
  ultimately show ?thesis by simp
qed

lemma open_refs_ge: "i \<in> live k \<Longrightarrow> fdrefs (fds (task k i)) f \<le> open_refs k f"
  unfolding open_refs_def by (rule member_le_sum) auto

text \<open>A step that changes neither descriptors nor which slots are in use.\<close>

definition same_procs :: "ksys \<Rightarrow> ksys \<Rightarrow> bool" where
  "same_procs k k' \<longleftrightarrow> (\<forall>i. fds (task k' i) = fds (task k i) \<and> (state (task k' i) = TASK_UNUSED \<longleftrightarrow> state (task k i) = TASK_UNUSED))"

lemma same_procs_refs: "same_procs k k' \<Longrightarrow> open_refs k' f = open_refs k f" "same_procs k k' \<Longrightarrow> live k' = live k"
  by (simp_all add: open_refs_def live_def same_procs_def)

lemma same_procs_trans: "same_procs k k1 \<Longrightarrow> same_procs k1 k2 \<Longrightarrow> same_procs k k2"
  by (simp add: same_procs_def)

lemma same_procs_refl [simp]: "same_procs k k"
  by (simp add: same_procs_def)

lemma same_procs_upd: "\<lbrakk>\<And>t. fds (g t) = fds t; \<And>t. state (g t) = TASK_UNUSED \<longleftrightarrow> state t = TASK_UNUSED\<rbrakk> \<Longrightarrow> same_procs k (Sched.upd i g k)"
  by (simp add: same_procs_def)

lemma files_ok_cong:
  assumes "files_ok s" "\<And>f. f_count (file_array s' f) = f_count (file_array s f)" "same_procs (ks s) (ks s')"
  shows "files_ok s'"
  using assms by (simp add: files_ok_def same_procs_refs)

text \<open>A descriptor of the current process changes.\<close>

lemma open_refs_fd:
  assumes "current (ks s) \<in> live (ks s)" "d < NR_OPEN"
  shows "open_refs (ks (upd_cur (set_fd d p) s)) f + (if fds (cur s) d = Some f then 1 else 0) =
    open_refs (ks s) f + (if p = Some f then 1 else 0)"
proof -
  have "state (set_fd d p (task (ks s) (current (ks s)))) \<noteq> TASK_UNUSED" using assms(1) by (simp add: live_def)
  from open_refs_upd[where g = "set_fd d p", OF assms(1) this, of f] fdrefs_upd[OF assms(2), of "fds (cur s)" p f]
  show ?thesis by (simp add: upd_cur_def cur_def)
qed

lemma unat_pred: "(c :: u16) \<noteq> 0 \<Longrightarrow> unat (c - 1) = unat c - 1"
  by (simp add: unat_minus_one)

lemma files_okD: "files_ok s \<Longrightarrow> unat (f_count (file_array s f)) = open_refs (ks s) f"
  by (simp add: files_ok_def)

lemma dupfd_files:
  assumes ok: "files_ok s" and c: "current (ks s) \<in> live (ks s)"
  shows "files_ok (snd (dupfd fd arg s))"
proof (cases "snd (dupfd fd arg s) = s")
  case False
  then obtain filp d where r: "snd (dupfd fd arg s) = updf filp (\<lambda>f. f\<lparr>f_count := f_count f + 1\<rparr>) (upd_cur (set_fd d (Some filp)) (upd_cur (clear_cloexec d) s))"
    and d: "find (\<lambda>d. fds (cur s) d = None) [unat arg..<NR_OPEN] = Some d"
    by (auto simp: dupfd_def split: if_splits option.splits)
  then have d: "d < NR_OPEN" "fds (cur s) d = None" by (auto simp: find_Some_iff simp del: upt.simps)
  let ?s = "upd_cur (clear_cloexec d) s"
  have p: "same_procs (ks s) (ks ?s)" unfolding upd_cur_def by (simp add: same_procs_upd)
  have "open_refs (ks (upd_cur (set_fd d (Some filp)) ?s)) f = open_refs (ks s) f + (if filp = f then 1 else 0)" for f
    using open_refs_fd[of ?s d "Some filp" f] d c same_procs_refs[OF p] by auto
  moreover have "unat (f_count (file_array s filp) + 1) = unat (f_count (file_array s filp)) + 1"
    using files_okD[OF ok, of filp] open_refs_le[of "ks s" filp] by (simp add: unat_word_ariths)
  ultimately show ?thesis using files_okD[OF ok] unfolding r files_ok_def by auto
qed (use ok in simp)

section \<open>Operations that close\<close>

text \<open>What the \<^verbatim>\<open>release\<close> functions of the drivers promise: they do not touch the reference counts of
  files, the descriptors and which slots of the task table are in use.\<close>

locale release_law =
  fixes rel :: "'f release_col"
  assumes release_tame: "rel t = Some r \<Longrightarrow> r i f s = Inr s' \<Longrightarrow>
    (\<forall>g. f_count (file_array s' g) = f_count (file_array s g)) \<and> same_procs (ks s) (ks s') \<and> current (ks s') = current (ks s) \<and> tl (ks s') = tl (ks s)"
begin

lemma close_fp_counts:
  assumes "close_fp rel sop fp s = Inr s'"
  shows "same_procs (ks s) (ks s')" "current (ks s') = current (ks s)" "tl (ks s') = tl (ks s)"
    "unat (f_count (file_array s' g)) = (if g = fp then unat (f_count (file_array s g)) - 1 else unat (f_count (file_array s g)))"
proof -
  let ?c = "f_count (file_array s fp)"
  consider (zero) "?c = 0" | (more) "1 < ?c" | (one) "?c = 1"
    by (metis not_less_iff_gr_or_eq word_gt_0 unat_1 word_less_nat_alt unat_eq_zero less_one)
  then have "same_procs (ks s) (ks s') \<and> current (ks s') = current (ks s) \<and> tl (ks s') = tl (ks s) \<and>
    unat (f_count (file_array s' g)) = (if g = fp then unat (f_count (file_array s g)) - 1 else unat (f_count (file_array s g)))"
  proof cases
    case zero
    then show ?thesis using assms by (auto simp: close_fp_def)
  next
    case more
    then have "?c \<noteq> 0" by auto
    then show ?thesis using assms more by (auto simp: close_fp_def unat_pred)
  next
    case one
    then obtain s1 where s1: "(case f_op (file_array s fp) of None \<Rightarrow> Inr s | Some t \<Rightarrow>
        (case rel t of None \<Rightarrow> Inr s | Some release \<Rightarrow> release (f_inode (file_array s fp)) fp s)) = Inr s1"
      and s': "on_vfs (iput sop (f_inode (file_array s fp))) (updf fp (\<lambda>f. f\<lparr>f_count := f_count f - 1, f_inode := None\<rparr>) s1) = Inr s'"
      using assms by (auto simp: close_fp_def Let_def bindr_Inr_iff)
    have t: "(\<forall>g. f_count (file_array s1 g) = f_count (file_array s g)) \<and> same_procs (ks s) (ks s1) \<and> current (ks s1) = current (ks s) \<and> tl (ks s1) = tl (ks s)"
      using s1 release_tame by (auto split: option.splits)
    then show ?thesis using s' one by (auto simp: on_vfs_def bindr_Inr_iff)
  qed
  then show "same_procs (ks s) (ks s')" "current (ks s') = current (ks s)" "tl (ks s') = tl (ks s)"
    "unat (f_count (file_array s' g)) = (if g = fp then unat (f_count (file_array s g)) - 1 else unat (f_count (file_array s g)))" by blast+
qed

lemma close_one:
  assumes ok: "files_ok s" and c: "current (ks s) \<in> live (ks s)" and d: "d < NR_OPEN" "fds (cur s) d = Some fp"
    and r: "close_fp rel sop fp (upd_cur (set_fd d None) s) = Inr s'"
  shows "files_ok s'" "same_procs (ks (upd_cur (set_fd d None) s)) (ks s')" "current (ks s') = current (ks s)" "current (ks s') \<in> live (ks s')" "tl (ks s') = tl (ks s)"
proof -
  let ?s = "upd_cur (set_fd d None) s"
  note k = close_fp_counts[OF r]
  have "open_refs (ks ?s) f + (if f = fp then 1 else 0) = open_refs (ks s) f" for f
    using open_refs_fd[OF c d(1), of None f] d(2) by auto
  then have "open_refs (ks ?s) f = (if f = fp then open_refs (ks s) f - 1 else open_refs (ks s) f)" for f
    by (metis add_diff_cancel_right' add.right_neutral)
  then show "files_ok s'" unfolding files_ok_def k(4) same_procs_refs(1)[OF k(1)] using files_okD[OF ok] by auto
  show "same_procs (ks ?s) (ks s')" "current (ks s') = current (ks s)" "tl (ks s') = tl (ks s)" using k by (simp_all add: upd_cur_def)
  have "live (ks ?s) = live (ks s)" using c by (auto simp: live_def cur_def)
  then show "current (ks s') \<in> live (ks s')" using k(2) same_procs_refs(2)[OF k(1)] c by simp
qed

lemma sys_close_files:
  assumes ok: "files_ok s" and c: "current (ks s) \<in> live (ks s)" and r: "sys_close rel sop fd s = Inr (e, s')"
  shows "files_ok s'" "current (ks s') \<in> live (ks s')"
proof -
  let ?s = "upd_cur (clear_cloexec (unat fd)) s"
  have p: "same_procs (ks s) (ks ?s)" unfolding upd_cur_def by (simp add: same_procs_upd)
  have ok': "files_ok ?s" by (rule files_ok_cong[OF ok _ p]) simp
  have c': "current (ks ?s) \<in> live (ks ?s)" using c same_procs_refs(2)[OF p] by simp
  have "files_ok s' \<and> current (ks s') \<in> live (ks s')"
  proof (cases "unat fd < NR_OPEN \<and> fds (cur s) (unat fd) \<noteq> None")
    case True
    then obtain fp where "fds (cur s) (unat fd) = Some fp" by auto
    with True r have "close_fp rel sop fp (upd_cur (set_fd (unat fd) None) ?s) = Inr s'" by (auto simp: sys_close_def Let_def bindr_Inr_iff)
    from close_one[OF ok' c' _ _ this] True \<open>fds (cur s) (unat fd) = Some fp\<close> show ?thesis by auto
  next
    case False
    then show ?thesis using r ok ok' c c' by (auto simp: sys_close_def Let_def split: if_splits option.splits)
  qed
  then show "files_ok s'" "current (ks s') \<in> live (ks s')" by blast+
qed

lemma sys_dup2_files:
  assumes ok: "files_ok s" and c: "current (ks s) \<in> live (ks s)" and r: "sys_dup2 rel sop oldfd newfd s = Inr (e, s')"
  shows "files_ok s'"
proof (cases "unat oldfd < NR_OPEN \<and> fds (cur s) (unat oldfd) \<noteq> None \<and> newfd \<noteq> oldfd \<and> unat newfd < NR_OPEN")
  case True
  with r obtain x s1 where s1: "sys_close rel sop newfd s = Inr (x, s1)" "dupfd oldfd newfd s1 = (e, s')"
    by (auto simp: sys_dup2_def bindr_Inr_iff)
  from dupfd_files[OF sys_close_files[OF ok c s1(1)], of oldfd newfd] s1(2) show ?thesis by simp
next
  case False
  then show ?thesis using r ok by (auto simp: sys_dup2_def split: if_splits)
qed

lemma close_list_files:
  assumes "files_ok s" "current (ks s) \<in> live (ks s)" "set ds \<subseteq> {..<NR_OPEN}" "close_list rel sop ds s = Inr s'"
  shows "files_ok s' \<and> current (ks s') = current (ks s) \<and> current (ks s') \<in> live (ks s') \<and> live (ks s') = live (ks s) \<and> tl (ks s') = tl (ks s) \<and>
    (\<forall>d. fds (cur s') d = (if d \<in> set ds then None else fds (cur s) d)) \<and> (\<forall>t. t \<noteq> current (ks s) \<longrightarrow> fds (task (ks s') t) = fds (task (ks s) t))"
  using assms
proof (induction ds arbitrary: s)
  case (Cons d ds)
  show ?case
  proof (cases "fds (cur s) d")
    case None
    then show ?thesis using Cons.IH[of s] Cons.prems by auto
  next
    case (Some fp)
    then obtain s1 where s1: "close_fp rel sop fp (upd_cur (set_fd d None) s) = Inr s1" "close_list rel sop ds s1 = Inr s'"
      using Cons.prems(4) by (auto simp: bindr_Inr_iff)
    have d: "d < NR_OPEN" using Cons.prems(3) by simp
    note o = close_one[OF Cons.prems(1,2) d Some s1(1)]
    have f: "fds (task (ks s1) t) = (if t = current (ks s) then (fds (cur s))(d := None) else fds (task (ks s) t))" for t
      using o(2) by (simp add: same_procs_def)
    have l: "live (ks s1) = live (ks s)" using same_procs_refs(2)[OF o(2)] Cons.prems(2) by (auto simp: live_def cur_def)
    have ds: "set ds \<subseteq> {..<NR_OPEN}" using Cons.prems(3) by simp
    from Cons.IH[OF o(1,4) ds s1(2)] show ?thesis using o(3,5) f l by (auto simp: cur_def)
  qed
qed simp

end

section \<open>Waking and signals leave descriptors alone\<close>

lemma same_procs_updI: "\<lbrakk>same_procs k k1; \<And>t. fds (g t) = fds t; \<And>t. state (g t) = state t\<rbrakk> \<Longrightarrow> same_procs k (Sched.upd i g k1)"
  by (simp add: same_procs_def)

lemma same_procs_nr [simp]: "same_procs k (k\<lparr>nr_running := n\<rparr>)"
  by (simp add: same_procs_def)

lemma add_to_runqueue_same: "add_to_runqueue p k = Inr k' \<Longrightarrow> same_procs k k' \<and> current k' = current k \<and> tl k' = tl k"
  unfolding add_to_runqueue_def Let_def bindr_Inr_iff by (auto intro!: same_procs_updI)

lemma wake_up_process_procs:
  assumes "wake_up_process p k = Inr k'"
  shows "same_procs (Sched.upd p (\<lambda>t. t\<lparr>state := TASK_RUNNING\<rparr>) k) k'" "current k' = current k" "tl k' = tl k"
  using assms by (auto simp: wake_up_process_def Let_def dest: add_to_runqueue_same split: if_splits)

lemma wake_up_process_same:
  assumes "wake_up_process p k = Inr k'" "state (task k p) \<noteq> TASK_UNUSED"
  shows "same_procs k k'" "current k' = current k" "tl k' = tl k"
proof -
  have "same_procs k (Sched.upd p (\<lambda>t. t\<lparr>state := TASK_RUNNING\<rparr>) k)" using assms(2) by (simp add: same_procs_def)
  then show "same_procs k k'" by (rule same_procs_trans[OF _ wake_up_process_procs(1)[OF assms(1)]])
  show "current k' = current k" "tl k' = tl k" using wake_up_process_procs[OF assms(1)] by simp_all
qed

lemma wake_up_from_same: "wake_up_from ps q it k = Inr k' \<Longrightarrow> same_procs k k' \<and> current k' = current k \<and> tl k' = tl k"
proof (induction ps arbitrary: k)
  case (Cons p ps)
  then obtain k1 where k1: "(if wakes_task q it p k then wake_up_process p k else Inr k) = Inr k1" "wake_up_from ps q it k1 = Inr k'"
    by (auto simp: bindr_Inr_iff)
  have "same_procs k k1 \<and> current k1 = current k \<and> tl k1 = tl k"
  proof (cases "wakes_task q it p k")
    case True
    then have "state (task k p) \<noteq> TASK_UNUSED" by (auto simp: wakes_task_def)
    then show ?thesis using wake_up_process_same k1(1) True by simp
  qed (use k1(1) in simp)
  then show ?case using Cons.IH[OF k1(2)] same_procs_trans by fastforce
qed simp

lemma wake_up_queue_same: "wake_up_queue q it k = Inr k' \<Longrightarrow> same_procs k k' \<and> current k' = current k \<and> tl k' = tl k"
  unfolding wake_up_queue_def by (rule wake_up_from_same)

lemma if3: "(if a then x else if b then x else if c then y else z) = w \<Longrightarrow> w = x \<or> w = z \<or> c \<and> y = w"
  by (auto split: if_splits)

lemma generate_same: "generate sig p k = Inr k' \<Longrightarrow> same_procs k k' \<and> current k' = current k \<and> tl k' = tl k"
proof -
  assume g: "generate sig p k = Inr k'"
  let ?k = "Sched.upd p (\<lambda>t. t\<lparr>signal := signal t OR sigmask sig\<rparr>) k"
  have u: "same_procs k ?k" by (rule same_procs_upd) simp_all
  let ?ign = "action (task k p) (sig - 1) = SIG_IGN" and ?dfl = "action (task k p) (sig - 1) = SIG_DFL \<and> (sig = SIGCONT \<or> sig = SIGCHLD \<or> sig = SIGWINCH)"
  have "generate sig p k = (if ?ign then Inr k else if ?dfl then Inr k else if state (task ?k p) = TASK_INTERRUPTIBLE then wake_up_process p ?k else Inr ?k)"
    unfolding generate_def Let_def by (rule refl)
  from if3[OF this[symmetric, unfolded g]] consider "k' = k" | "k' = ?k" | "wake_up_process p ?k = Inr k'" "state (task ?k p) = TASK_INTERRUPTIBLE"
    by (auto simp del: upd_simps)
  then show ?thesis
  proof cases
    case 3
    then have "state (task ?k p) \<noteq> TASK_UNUSED" by simp
    note w = wake_up_process_same[OF 3(1) this]
    show ?thesis using same_procs_trans[OF u w(1)] w(2,3) by simp
  qed (use u in simp_all)
qed

text \<open>\<^verbatim>\<open>send_sig\<close> touches signals and may wake a task that is in use.\<close>

lemma bindr_twice: "bindr w (\<lambda>x. bindr (g x) (\<lambda>y. Inr (c, y))) = Inr (r, z) \<Longrightarrow> \<exists>x. w = Inr x \<and> g x = Inr z"
  by (auto simp: bindr_Inr_iff)

lemma same_procs_if:
  assumes "\<And>t. fds (g t) = fds t" and "\<And>t. state (g t) = state t"
  shows "same_procs k (if c then Sched.upd p g k else k) \<and> current (if c then Sched.upd p g k else k) = current k \<and>
    tl (if c then Sched.upd p g k else k) = tl k"
  using assms by (cases c) (simp_all add: same_procs_upd)

lemma send_sig_same:
  assumes s: "send_sig sig p priv k = Inr (r, k')"
  shows "same_procs k k' \<and> current k' = current k \<and> tl k' = tl k"
proof (cases "may_signal sig p priv k")
  case True
  let ?wake = "if sig = SIGKILL \<or> sig = SIGCONT then
      bindr (if state (task k p) = TASK_STOPPED then wake_up_process p k else Inr k)
        (\<lambda>s. Inr (Sched.upd p (\<lambda>t. t\<lparr>signal := signal t AND NOT (sigmask SIGSTOP OR sigmask SIGTSTP)\<rparr>) s)) else Inr k"
  let ?mask = "\<lambda>k1. if sig = SIGSTOP \<or> sig = SIGTSTP then Sched.upd p (\<lambda>t. t\<lparr>signal := signal t AND NOT (sigmask SIGCONT)\<rparr>) k1 else k1"
  obtain k1 k2 where k: "?wake = Inr k1" "generate sig p (?mask k1) = Inr k2" "k' = k2"
  proof -
    have "send_sig sig p priv k = bindr ?wake (\<lambda>k1. bindr (generate sig p (?mask k1)) (\<lambda>s. Inr (0, s)))"
      unfolding send_sig_def Let_def using True by (simp only: not_True_eq_False if_False)
    from bindr_twice[OF trans[OF this[symmetric] s]] that show thesis by blast
  qed
  have "same_procs k k1 \<and> current k1 = current k \<and> tl k1 = tl k"
  proof (cases "sig = SIGKILL \<or> sig = SIGCONT")
    case True
    then obtain k0 where k0: "(if state (task k p) = TASK_STOPPED then wake_up_process p k else Inr k) = Inr k0"
        "k1 = Sched.upd p (\<lambda>t. t\<lparr>signal := signal t AND NOT (sigmask SIGSTOP OR sigmask SIGTSTP)\<rparr>) k0"
      using k(1) by (auto simp: bindr_Inr_iff)
    have "same_procs k k0 \<and> current k0 = current k \<and> tl k0 = tl k"
      using k0(1) wake_up_process_same[of p k k0] by (cases "state (task k p) = TASK_STOPPED") auto
    then show ?thesis unfolding k0(2) by (auto intro!: same_procs_updI)
  qed (use k(1) in simp)
  moreover have "same_procs k1 (?mask k1) \<and> current (?mask k1) = current k1 \<and> tl (?mask k1) = tl k1"
    by (rule same_procs_if) simp_all
  moreover note generate_same[OF k(2)]
  ultimately show ?thesis unfolding k(3) using same_procs_trans[of k k1 "?mask k1"] same_procs_trans[of k "?mask k1" k2] by (simp only:)
qed (use s in \<open>simp add: send_sig_def\<close>)

lemma kill_sigchld_same: "kill_process pd SIGCHLD priv k = Inr (r, k') \<Longrightarrow> same_procs k k' \<and> current k' = current k \<and> tl k' = tl k"
  by (auto simp: kill_process_def dest: send_sig_same split: option.splits)

lemma kill_pg_same: "kill_pg pg sig priv k = Inr (r, k') \<Longrightarrow> same_procs k k' \<and> current k' = current k \<and> tl k' = tl k"
proof -
  have "kill_pg_from ps pg sig priv err k = Inr (r, k') \<Longrightarrow> same_procs k k' \<and> current k' = current k \<and> tl k' = tl k" for ps err
  proof (induction ps arbitrary: err k)
    case (Cons p ps)
    show ?case
    proof (cases "pgrp (task k p) = pg")
      case True
      with Cons.prems obtain e k1 where k1: "send_sig sig p priv k = Inr (e, k1)" "kill_pg_from ps pg sig priv e k1 = Inr (r, k')"
        by (auto simp: bindr_Inr_iff)
      show ?thesis using send_sig_same[OF k1(1)] Cons.IH[OF k1(2)] same_procs_trans by fastforce
    qed (use Cons in simp)
  qed simp
  then show "kill_pg pg sig priv k = Inr (r, k') \<Longrightarrow> ?thesis" by (simp add: kill_pg_def)
qed

lemma del_from_runqueue_same: "del_from_runqueue p k = Inr k' \<Longrightarrow> same_procs k k' \<and> current k' = current k \<and> tl k' = tl k"
  by (cases "p = 0") (auto simp: del_from_runqueue_def Let_def bindr_Inr_iff intro!: same_procs_updI)

text \<open>Scheduling moves no descriptor. It may run the timer that expires first, which makes a task
  runnable whatever its state; the task has to be in use, or to have no descriptor, as \<^verbatim>\<open>do_exit\<close>
  leaves a slot.\<close>

definition timer_tame :: "ksys \<Rightarrow> bool" where
  "timer_tame k \<longleftrightarrow> (case tl_next (tl k 0) of None \<Rightarrow> True
     | Some t \<Rightarrow> tl_data (tl k t) \<in> live k \<or> (\<forall>d < NR_OPEN. fds (task k (tl_data (tl k t))) d = None))"

lemma open_refs_revive:
  assumes "p \<in> live k \<or> (\<forall>d < NR_OPEN. fds (task k p) d = None)"
  shows "open_refs (Sched.upd p (\<lambda>t. t\<lparr>state := TASK_RUNNING\<rparr>) k) f = open_refs k f"
proof -
  let ?k = "Sched.upd p (\<lambda>t. t\<lparr>state := TASK_RUNNING\<rparr>) k"
  have fd: "fdrefs (fds (task ?k i)) f = fdrefs (fds (task k i)) f" for i by simp
  show ?thesis
  proof (cases "p \<in> live k")
    case True
    then have "live ?k = live k" by (auto simp: live_def)
    then show ?thesis unfolding open_refs_def fd by simp
  next
    case False
    with assms have "fdrefs (fds (task k p)) f = 0" by (simp add: fdrefs_def)
    moreover have "live ?k = (if p < MAX_TASKS then insert p (live k) else live k)" by (auto simp: live_def)
    ultimately show ?thesis unfolding open_refs_def fd using False by simp
  qed
qed

lemma process_timeout_refs:
  assumes "process_timeout p k = Inr k'" "p \<in> live k \<or> (\<forall>d < NR_OPEN. fds (task k p) d = None)"
  shows "open_refs k' f = open_refs k f" "tl k' = tl k"
proof -
  let ?k = "Sched.upd p (\<lambda>t. t\<lparr>timeout := 0\<rparr>) k"
  have s: "same_procs k ?k" by (rule same_procs_upd) simp_all
  note w = wake_up_process_procs[OF assms(1)[unfolded process_timeout_def]]
  have "open_refs k' f = open_refs (Sched.upd p (\<lambda>t. t\<lparr>state := TASK_RUNNING\<rparr>) ?k) f" by (rule same_procs_refs(1)[OF w(1)])
  also have "\<dots> = open_refs ?k f" using assms(2) same_procs_refs(2)[OF s] by (intro open_refs_revive) simp
  also have "\<dots> = open_refs k f" by (rule same_procs_refs(1)[OF s])
  finally show "open_refs k' f = open_refs k f" .
  show "tl k' = tl k" using w(3) by simp
qed

lemma detach_timer_task: "task (snd (detach_timer t k)) = task k"
  by (simp add: detach_timer_def Let_def split: option.split)

lemma run_timer_list_refs:
  assumes "run_timer_list k = Inr k'" "timer_tame k"
  shows "open_refs k' f = open_refs k f"
proof (cases "tl_next (tl k 0)")
  case None
  then show ?thesis using assms(1) run_timer_list_none[of k] by simp
next
  case (Some t)
  let ?d = "tl_data (tl k t)" and ?k = "updt t (\<lambda>x. x\<lparr>tl_next := None, tl_prev := None\<rparr>) (snd (detach_timer t k))"
  have tk: "task ?k = task k" by (simp add: detach_timer_task)
  then have l: "live ?k = live k" "open_refs ?k f = open_refs k f" by (simp_all add: live_def open_refs_def)
  show ?thesis
  proof (cases "tl_expires (tl k t) < jiffies k")
    case False
    then show ?thesis using assms(1) run_timer_list_none[of k] Some by simp
  next
    case True
    with Some assms(1) obtain k1 where k1: "process_timeout ?d ?k = Inr k1" "run_timer_loop 1 (tl_next (tl k1 t)) k1 = Inr k'"
      by (auto simp: run_timer_list_def numeral_2_eq_2 Let_def bindr_Inr_iff)
    have "?d \<in> live ?k \<or> (\<forall>d < NR_OPEN. fds (task ?k ?d) d = None)"
      using assms(2) Some unfolding l tk timer_tame_def by simp
    note p = process_timeout_refs[OF k1(1) this]
    have "tl_next (tl k1 t) = None" using p(2) by simp
    then show ?thesis using k1(2) p(1) l(2) by simp
  qed
qed

lemma leave_cpu_same: "leave_cpu k = Inr (tmo, k') \<Longrightarrow> same_procs k k'"
proof -
  assume l: "leave_cpu k = Inr (tmo, k')"
  let ?p = "current k"
  consider "k' = k" | g where "k' = Sched.upd ?p g k" "\<And>t. fds (g t) = fds t" "\<And>t. state (g t) = TASK_RUNNING" "state (task k ?p) = TASK_INTERRUPTIBLE"
    | "del_from_runqueue ?p k = Inr k'"
  proof (cases "state (task k ?p) = TASK_INTERRUPTIBLE")
    case True
    then show thesis using l that(2)[of "\<lambda>t. t\<lparr>state := TASK_RUNNING\<rparr>"] that(2)[of "\<lambda>t. t\<lparr>timeout := 0, state := TASK_RUNNING\<rparr>"] that(3)
      by (auto simp: leave_cpu_def Let_def bindr_Inr_iff split: if_splits)
  next
    case False
    then show thesis using l that(1,3) by (auto simp: leave_cpu_def Let_def bindr_Inr_iff split: if_splits)
  qed
  then show ?thesis by cases (auto simp: same_procs_def dest: del_from_runqueue_same[unfolded same_procs_def])
qed

lemma add_timer_loop_task: "add_timer_loop n t prev nq k = Inr k' \<Longrightarrow> task k' = task k"
proof (induction n arbitrary: prev nq)
  case (Suc n)
  then show ?case by (auto simp: Let_def bindr_Inr_iff split: option.splits if_splits)
qed simp

lemma schedule_refs:
  assumes s: "schedule k = Inr (out, k')" and t: "timer_tame k"
  shows "open_refs k' f = open_refs k f"
proof (cases "state (task k (current k)) = TASK_EXITING")
  case True
  then show ?thesis using s by (auto simp: schedule_def Let_def split: if_splits)
next
  case False
  let ?p = "current k"
  have m: "t_kstackm (task k ?p) = KSTACK_MAGIC" using s by (rule_tac ccontr) (simp add: schedule_def)
  note ev = s[unfolded schedule_def Let_def, simplified m False, simplified, unfolded bindr_Inr_iff]
  then obtain k1 tmo k2 nq where k1: "run_timer_list k = Inr k1" "leave_cpu k1 = Inr (tmo, k2)"
    and rest: "(if nq \<noteq> ?p then bindr (if tmo \<noteq> 0 then
          add_timer (Suc ?p) (updt (Suc ?p) (\<lambda>x. x\<lparr>tl_expires := tmo, tl_data := ?p\<rparr>) (init_timer (Suc ?p) k2)) else Inr k2) (\<lambda>s.
         if \<not> can_tswitch s \<and> lastirq s \<noteq> - 1 then Inr (Returned, s)
         else Inr (Switched (tmo \<noteq> 0), s\<lparr>previous := current s, current := nq\<rparr>))
       else Inr (Returned, k2)) = Inr (out, k')"
    by (auto simp: bindr_Inr_iff)
  have tk: "task k' = task k2"
    using rest by (auto simp: bindr_Inr_iff add_timer_def init_timer_def split: if_splits dest!: add_timer_loop_task)
  then have "open_refs k' f = open_refs k2 f" by (simp add: open_refs_def live_def)
  also have "\<dots> = open_refs k1 f" by (rule same_procs_refs(1)[OF leave_cpu_same[OF k1(2)]])
  also have "\<dots> = open_refs k f" by (rule run_timer_list_refs[OF k1(1) t])
  finally show ?thesis .
qed

section \<open>Creating and ending a process\<close>

lemma share_files_eq:
  "share_files ds s = s\<lparr>file_array := (\<lambda>f. (file_array s f)\<lparr>f_count := f_count (file_array s f) + of_nat (length (filter (\<lambda>d. fds (cur s) d = Some f) ds))\<rparr>)\<rparr>"
proof (induction ds arbitrary: s)
  case (Cons d ds)
  show ?case
  proof (cases "fds (cur s) d")
    case None
    then show ?thesis using Cons.IH[of s] by simp
  next
    case (Some f)
    let ?s = "updf f (\<lambda>f. f\<lparr>f_count := f_count f + 1\<rparr>) s"
    have "share_files (d # ds) s = share_files ds ?s" using Some by simp
    also have "\<dots> = s\<lparr>file_array := (\<lambda>g. (file_array s g)\<lparr>f_count := f_count (file_array s g) + of_nat (length (filter (\<lambda>e. fds (cur s) e = Some g) (d # ds)))\<rparr>)\<rparr>"
      unfolding Cons.IH[of ?s] using Some by (auto simp: updf_def cur_def fun_eq_iff algebra_simps)
    finally show ?thesis .
  qed
qed simp

lemma filter_fdrefs: "length (filter (\<lambda>d. fd d = Some f) [0..<NR_OPEN]) = fdrefs fd f"
  unfolding length_filter_conv_card fdrefs_def by (rule arg_cong[where f = card]) (auto simp del: upt.simps)

lemma updp_simps [simp]:
  "ks (updp i f s) = Sched.upd i f (ks s)" "file_array (updp i f s) = file_array s" "vf (updp i f s) = vf s"
  "mhead (updp i f s) = mhead s" "kmem (updp i f s) = kmem s" "last_pid (updp i f s) = last_pid s"
  by (simp_all add: updp_def)

lemma ref_inode_simps [simp]:
  "ks (ref_inode i s) = ks s" "file_array (ref_inode i s) = file_array s" "mhead (ref_inode i s) = mhead s"
  by (simp_all add: ref_inode_def)

lemma find_empty_process_slot:
  assumes "0 \<le> find_empty_process s"
  shows "nat (find_empty_process s) < MAX_TASKS" "state (task (ks s) (nat (find_empty_process s))) = TASK_UNUSED"
proof -
  let ?u = "filter (\<lambda>i. state (task (ks s) i) = TASK_UNUSED) [0..<MAX_TASKS]"
  have "\<not> (length ?u \<le> 1 \<and> (?u = [] \<or> uid (cur s) \<noteq> 0))" using assms by (auto simp: find_empty_process_def Let_def simp del: upt.simps split: if_splits)
  then have "find_empty_process s = int (last ?u)" "?u \<noteq> []" by (auto simp: find_empty_process_def Let_def simp del: upt.simps)
  then show "nat (find_empty_process s) < MAX_TASKS" "state (task (ks s) (nat (find_empty_process s))) = TASK_UNUSED"
    using last_in_set[of ?u] by (auto simp del: upt.simps)
qed

lemma get_pid_same: "get_pid s = Inr (p, s') \<Longrightarrow> ks s' = ks s \<and> file_array s' = file_array s \<and> vf s' = vf s \<and> mhead s' = mhead s"
proof -
  have "get_pid_loop n s = Inr (p, s') \<Longrightarrow> ks s' = ks s \<and> file_array s' = file_array s \<and> vf s' = vf s \<and> mhead s' = mhead s" for n
    by (induction n arbitrary: s) (auto simp: Let_def split: if_splits)
  then show "get_pid s = Inr (p, s') \<Longrightarrow> ?thesis" by (simp add: get_pid_def)
qed

lemma fork_setup_files:
  "file_array (fork_setup t p s) f = (file_array s f)\<lparr>f_count := f_count (file_array s f) + of_nat (fdrefs (fds (if current (ks s) = t then task (ks s) t else cur s)) f)\<rparr>"
  "fds (task (ks (fork_setup t p s)) i) = fds (task (ks s) i)" "state (task (ks (fork_setup t p s)) i) = state (task (ks s) i)"
  "current (ks (fork_setup t p s)) = current (ks s)" "mhead (fork_setup t p s) = mhead s" "tl (ks (fork_setup t p s)) = tl (ks s)"
  unfolding fork_setup_def Let_def share_files_eq filter_fdrefs by (auto simp: cur_def split: option.split)

definition fork_slot :: "nat \<Rightarrow> task_struct \<Rightarrow> u16 \<Rightarrow> u16 \<Rightarrow> task_state \<Rightarrow> 'f psys \<Rightarrow> 'f psys" where
  "fork_slot t me d e st s = s\<lparr>ks := Sched.upd t (\<lambda>x. me\<lparr>child_wait := child_wait x, mm_dseg := d,
     t_ds := e, state := st\<rparr>) (ks s)\<rparr>"

text \<open>\<^verbatim>\<open>do_fork\<close> as three steps: the slot is filled, a number is found, the child is entered.\<close>

lemma do_fork_eq:
  assumes "\<not> find_empty_process s < 0" and t: "t = nat (find_empty_process s)"
  shows "do_fork s = bindr (mm_realloc (mhead s) (mm_cseg (cur s))) (\<lambda>(_, mh). bindr (mm_dup mh (kmem s) (mm_dseg (cur s))) (\<lambda>(d, mh, mem).
      if d = 0 then bindr (mm_free mh (mm_cseg (cur s))) (\<lambda>mh'. Inr (- ENOMEM, fork_slot t (cur s) d (t_ds (cur s)) TASK_UNUSED (s\<lparr>mhead := mh', kmem := mem\<rparr>)))
      else bindr (get_pid (fork_slot t (cur s) d d TASK_UNINTERRUPTIBLE (s\<lparr>mhead := mh, kmem := mem\<rparr>))) (\<lambda>(p, s).
        bindr (on_ks (wake_up_process t) (fork_setup t p s)) (\<lambda>s. Inr (pid (task (ks s) t), s)))))"
proof -
  let ?me = "current (ks s)"
  let ?c = "updp t (\<lambda>x. (cur s)\<lparr>child_wait := child_wait x\<rparr>) s"
  let ?d = "\<lambda>d mh mem. updp t (\<lambda>x. x\<lparr>mm_dseg := d\<rparr>) (?c\<lparr>mhead := mh, kmem := mem\<rparr>)"
  have a: "updp t (\<lambda>x. x\<lparr>t_ds := d, state := TASK_UNINTERRUPTIBLE\<rparr>) (?d d mh mem) = fork_slot t (cur s) d d TASK_UNINTERRUPTIBLE (s\<lparr>mhead := mh, kmem := mem\<rparr>)"
    "updp t (\<lambda>x. x\<lparr>state := TASK_UNUSED\<rparr>) ((?d d mh mem)\<lparr>mhead := mh'\<rparr>) = fork_slot t (cur s) d (t_ds (cur s)) TASK_UNUSED (s\<lparr>mhead := mh', kmem := mem\<rparr>)" for d mh mh' mem
    by (simp_all add: updp_def Sched.upd_def fork_slot_def)
  have c: "mm_cseg (task (ks ?c) ?me) = mm_cseg (cur s)" "mm_dseg (task (ks ?c) ?me) = mm_dseg (cur s)" "mm_cseg (task (ks (?d d mh mem)) ?me) = mm_cseg (cur s)"
    "mhead ?c = mhead s" "kmem ?c = kmem s" for d mh mem
    by (simp_all add: cur_def updp_def)
  show ?thesis unfolding do_fork_def Let_def if_not_P[OF assms(1)] t[symmetric] cur_def[symmetric] a c by (rule refl)
qed

lemma do_forkE:
  assumes "do_fork s = Inr (r, s')"
  obtains (full) "s' = s" "find_empty_process s < 0" "r = find_empty_process s"
  | (nomem) t where "t = nat (find_empty_process s)" "0 \<le> find_empty_process s" "r = - ENOMEM" "file_array s' = file_array s" "vf s' = vf s"
      "current (ks s') = current (ks s)" "\<And>i. i \<noteq> t \<Longrightarrow> task (ks s') i = task (ks s) i" "state (task (ks s') t) = TASK_UNUSED"
  | (ok) t s1 mh mh2 mem d p x s2 k where "t = nat (find_empty_process s)" "0 \<le> find_empty_process s"
      "mm_realloc (mhead s) (mm_cseg (cur s)) = Inr (x, mh)" "mm_dup mh (kmem s) (mm_dseg (cur s)) = Inr (d, mh2, mem)" "d \<noteq> 0"
      "s1 = s\<lparr>ks := Sched.upd t (\<lambda>x. (cur s)\<lparr>child_wait := child_wait x, mm_dseg := d, t_ds := d, state := TASK_UNINTERRUPTIBLE\<rparr>) (ks s), mhead := mh2, kmem := mem\<rparr>"
      "get_pid s1 = Inr (p, s2)" "wake_up_process t (ks (fork_setup t p s2)) = Inr k" "s' = (fork_setup t p s2)\<lparr>ks := k\<rparr>" "r = pid (task k t)"
proof (cases "find_empty_process s < 0")
  case True
  then show ?thesis using assms by (intro full) (auto simp: do_fork_def Let_def)
next
  case False
  let ?t = "nat (find_empty_process s)"
  note ev = do_fork_eq[OF False refl]
  obtain x mh where m1: "mm_realloc (mhead s) (mm_cseg (cur s)) = Inr (x, mh)"
    using assms unfolding ev by (cases "mm_realloc (mhead s) (mm_cseg (cur s))") auto
  obtain d mh2 mem where m2: "mm_dup mh (kmem s) (mm_dseg (cur s)) = Inr (d, mh2, mem)"
    using assms unfolding ev m1 by (cases "mm_dup mh (kmem s) (mm_dseg (cur s))") auto
  show ?thesis
  proof (cases "d = 0")
    case True
    then obtain mh3 where "s' = fork_slot ?t (cur s) d (t_ds (cur s)) TASK_UNUSED (s\<lparr>mhead := mh3, kmem := mem\<rparr>)" "r = - ENOMEM" using assms ev m1 m2 by (auto simp: bindr_Inr_iff)
    then show ?thesis using False by (intro nomem[of ?t]) (auto simp: fork_slot_def)
  next
    case nz: False
    let ?s1 = "s\<lparr>ks := Sched.upd ?t (\<lambda>x. (cur s)\<lparr>child_wait := child_wait x, mm_dseg := d, t_ds := d, state := TASK_UNINTERRUPTIBLE\<rparr>) (ks s), mhead := mh2, kmem := mem\<rparr>"
    have "fork_slot ?t (cur s) d d TASK_UNINTERRUPTIBLE (s\<lparr>mhead := mh2, kmem := mem\<rparr>) = ?s1" using nz by (simp add: fork_slot_def)
    then obtain p s2 k where "get_pid ?s1 = Inr (p, s2)" "wake_up_process ?t (ks (fork_setup ?t p s2)) = Inr k"
      "s' = (fork_setup ?t p s2)\<lparr>ks := k\<rparr>" "r = pid (task k ?t)" using assms ev m1 m2 nz by (auto simp: bindr_Inr_iff on_ks_def)
    then show ?thesis using ok[of ?t x mh d mh2 mem ?s1 p s2 k] False m1 m2 nz by simp
  qed
qed

lemma fork_files:
  assumes ok: "files_ok s" and c: "current (ks s) \<in> live (ks s)" and r: "do_fork s = Inr (r, s')"
  shows "files_ok s'"
  using r
proof (cases rule: do_forkE)
  case full
  then show ?thesis using ok by simp
next
  case (nomem t)
  note t = find_empty_process_slot[OF nomem(2), folded nomem(1)]
  have st: "state (task (ks s') i) = TASK_UNUSED \<longleftrightarrow> state (task (ks s) i) = TASK_UNUSED" for i using nomem(7,8) t by (cases "i = t") auto
  then have "live (ks s') = live (ks s)" by (simp add: live_def)
  moreover have "fds (task (ks s') i) = fds (task (ks s) i)" if "i \<in> live (ks s)" for i using that t nomem(7)[of i] by (cases "i = t") (auto simp: live_def)
  ultimately have "open_refs (ks s') f = open_refs (ks s) f" for f by (simp add: open_refs_def)
  then show ?thesis using ok nomem(4) by (simp add: files_ok_def)
next
  case (ok t s1 mh mh2 mem ds p x s2 k)
  note t = find_empty_process_slot[OF ok(2), folded ok(1)]
  have me: "current (ks s) \<noteq> t" using c t by (auto simp: live_def)
  note g = get_pid_same[OF ok(7)] and w = wake_up_process_procs[OF ok(8)]
  let ?f = "fork_setup t p s2"
  have k2: "ks s2 = Sched.upd t (\<lambda>x. (cur s)\<lparr>child_wait := child_wait x, mm_dseg := ds, t_ds := ds, state := TASK_UNINTERRUPTIBLE\<rparr>) (ks s)"
    using g ok(6) by simp
  have k: "fds (task k i) = (if i = t then fds (cur s) else fds (task (ks s) i))" "state (task k i) = TASK_UNUSED \<longleftrightarrow> i \<noteq> t \<and> state (task (ks s) i) = TASK_UNUSED" for i
    using w(1) fork_setup_files(2,3)[of t p s2] by (auto simp: same_procs_def k2)
  have lv: "live k = insert t (live (ks s))" "t \<notin> live (ks s)" using k(2) t by (auto simp: live_def)
  have "open_refs k f = fdrefs (fds (cur s)) f + open_refs (ks s) f" for f
    unfolding open_refs_def lv(1) using lv(2) by (auto simp: k(1) intro!: sum.cong)
  moreover have "unat (f_count (file_array s' f)) = unat (f_count (file_array s f)) + fdrefs (fds (cur s)) f" for f
  proof -
    have "f_count (file_array s' f) = f_count (file_array s f) + of_nat (fdrefs (fds (cur s)) f)"
      using fork_setup_files(1)[of t p s2 f] ok(9) me g ok(6) by (simp add: k2 cur_def)
    moreover have "unat (f_count (file_array s f)) + fdrefs (fds (cur s)) f < 65536"
      using files_okD[OF assms(1), of f] open_refs_le[of "ks s" f] fdrefs_le[of "fds (cur s)" f] by simp
    ultimately show ?thesis by (simp add: unat_word_ariths unat_of_nat take_bit_nat_eq_self)
  qed
  ultimately show ?thesis using files_okD[OF assms(1)] ok(9) by (simp add: files_ok_def)
qed

lemma open_refs_dead:
  assumes "i \<in> live k" "\<And>d. d < NR_OPEN \<Longrightarrow> fds (task k i) d = None"
  shows "open_refs (Sched.upd i (\<lambda>t. t\<lparr>state := TASK_UNUSED\<rparr>) k) f = open_refs k f"
proof -
  let ?k = "Sched.upd i (\<lambda>t. t\<lparr>state := TASK_UNUSED\<rparr>) k"
  have "fdrefs (fds (task k i)) f = 0" using assms(2) by (simp add: fdrefs_def)
  moreover have "live ?k = live k - {i}" by (auto simp: live_def)
  moreover have "open_refs k f = fdrefs (fds (task k i)) f + (\<Sum>t\<in>live k - {i}. fdrefs (fds (task k t)) f)"
    using assms(1) by (simp add: open_refs_def sum.remove)
  ultimately show ?thesis by (simp add: open_refs_def)
qed

text \<open>A step on the task table that leaves descriptors and files alone.\<close>

definition tame_step :: "'f psys \<Rightarrow> 'f psys \<Rightarrow> bool" where
  "tame_step s s' \<longleftrightarrow> same_procs (ks s) (ks s') \<and> file_array s' = file_array s \<and> current (ks s') = current (ks s) \<and> tl (ks s') = tl (ks s)"

lemma tame_refl [simp]: "tame_step s s"
  by (simp add: tame_step_def)

lemma tame_trans: "tame_step s s1 \<Longrightarrow> tame_step s1 s2 \<Longrightarrow> tame_step s s2"
  by (auto simp: tame_step_def intro: same_procs_trans)

lemma tame_updp: "\<lbrakk>\<And>t. fds (g t) = fds t; \<And>t. state (g t) = state t\<rbrakk> \<Longrightarrow> tame_step s (updp i g s)"
  by (simp add: tame_step_def updp_def same_procs_def)

lemma tame_upd_cur: "\<lbrakk>\<And>t. fds (g t) = fds t; \<And>t. state (g t) = state t\<rbrakk> \<Longrightarrow> tame_step s (upd_cur g s)"
  unfolding upd_cur_def updp_def[symmetric] by (rule tame_updp)

lemma tame_leave: "tame_step s (leave_family p s)"
proof -
  let ?s1 = "case p_prevsib (cur s) of None \<Rightarrow> s | Some t \<Rightarrow> updp t (\<lambda>x. x\<lparr>p_nextsib := p_nextsib (cur s)\<rparr>) s"
  let ?s2 = "case p_nextsib (cur ?s1) of None \<Rightarrow> ?s1 | Some t \<Rightarrow> updp t (\<lambda>x. x\<lparr>p_prevsib := p_prevsib (cur ?s1)\<rparr>) ?s1"
  have "tame_step s ?s1" by (cases "p_prevsib (cur s)") (simp_all add: tame_updp)
  moreover have "tame_step ?s1 ?s2" by (cases "p_nextsib (cur ?s1)") (simp_all add: tame_updp)
  moreover have "tame_step ?s2 (leave_family p s)"
    unfolding leave_family_def Let_def by (simp add: tame_updp split: option.split)
  ultimately show ?thesis by (blast intro: tame_trans)
qed

lemma tame_free_seg: "free_seg g s = Inr s' \<Longrightarrow> tame_step s s'"
  by (auto simp: free_seg_def bindr_Inr_iff tame_step_def split: if_splits)

lemma tame_on_vfs: "on_vfs f s = Inr s' \<Longrightarrow> tame_step s s'"
  by (auto simp: on_vfs_def bindr_Inr_iff tame_step_def)

lemma tame_exit_inodes: "exit_inodes sop s = Inr s' \<Longrightarrow> tame_step s s'"
  unfolding exit_inodes_def bindr_Inr_iff by (blast intro: tame_trans tame_on_vfs)

lemma tame_exit_notify:
  assumes "exit_notify parent status s = Inr s'"
  shows "tame_step s s'"
proof -
  let ?s = "leave_family parent s"
  obtain r k where k: "kill_process (ppid (cur ?s)) SIGCHLD True (ks ?s) = Inr (r, k)"
    "s' = updp parent (\<lambda>t. t\<lparr>child_lastend := pid (cur (?s\<lparr>ks := k\<rparr>)), lastend_status := status\<rparr>) (?s\<lparr>ks := k\<rparr>)"
    using assms unfolding exit_notify_def Let_def by (auto simp: bindr_Inr_iff)
  have "tame_step ?s (?s\<lparr>ks := k\<rparr>)" using kill_sigchld_same[OF k(1)] by (simp add: tame_step_def)
  moreover have "tame_step (?s\<lparr>ks := k\<rparr>) s'" unfolding k(2) by (rule tame_updp) simp_all
  ultimately show ?thesis using tame_leave tame_trans by blast
qed

lemma tame_files:
  assumes "tame_step s s'" "files_ok s"
  shows "files_ok s'"
  using assms by (intro files_ok_cong[OF assms(2)]) (simp_all add: tame_step_def)

lemma exit_switch_files:
  assumes ok: "files_ok s" and c: "current (ks s) \<in> live (ks s)" and f: "\<And>d. d < NR_OPEN \<Longrightarrow> fds (cur s) d = None"
    and t: "timer_tame (ks s)" and r: "exit_switch parent s = Inr s'"
  shows "files_ok s'"
proof -
  let ?s = "upd_cur (\<lambda>t. t\<lparr>state := TASK_UNUSED\<rparr>) s"
  obtain k out k' where k: "wake_up_queue (child_wait (task (ks s) parent)) True (ks ?s) = Inr k" "schedule k = Inr (out, k')"
      "(case out of Returned \<Rightarrow> Inl (Panic ''Returning from sys_exit!'') | Switched _ \<Rightarrow> Inr (s\<lparr>ks := k, ks := k'\<rparr>)) = Inr s'"
    using r unfolding exit_switch_def by (auto simp: on_ks_def upd_cur_def bindr_Inr_iff)
  then have k3: "s' = s\<lparr>ks := k'\<rparr>" by (cases out) simp_all
  note w = wake_up_queue_same[OF k(1)]
  have "timer_tame k"
  proof -
    have live: "live k = live (ks s) - {current (ks s)}" using same_procs_refs(2)[of "ks ?s" k] w by (auto simp: live_def)
    have "fds (task k i) = fds (task (ks s) i)" for i using w by (simp add: same_procs_def upd_cur_def)
    moreover have "tl k = tl (ks s)" using w by (simp add: upd_cur_def)
    ultimately show ?thesis using t f unfolding timer_tame_def live by (auto simp: cur_def split: option.splits)
  qed
  from schedule_refs[OF k(2) this] have "open_refs k' g = open_refs (ks ?s) g" for g using w by (simp add: same_procs_refs(1))
  moreover have "open_refs (ks ?s) g = open_refs (ks s) g" for g
    unfolding upd_cur_def using open_refs_dead[OF c, of g] f by (simp add: cur_def)
  ultimately show ?thesis using ok k3 by (simp add: files_ok_def)
qed

context release_law
begin

lemma exit_files:
  assumes ok: "files_ok s" and c: "current (ks s) \<in> live (ks s)" and t: "timer_tame (ks s)"
    and r: "do_exit rel sop status s = Inr s'"
  shows "files_ok s'"
proof -
  obtain s3 parent s4 s5 where e: "exit_memory rel sop s = Inr s3" "exit_notify parent status s3 = Inr s4" "exit_inodes sop s4 = Inr s5" "exit_switch parent s5 = Inr s'"
    using r unfolding do_exit_def bindr_Inr_iff by blast
  obtain s1 s2 sx where m: "close_allfiles rel sop s = Inr s1" "free_seg (mm_cseg (cur s1)) (upd_cur (\<lambda>t. t\<lparr>state := TASK_EXITING\<rparr>) s1) = Inr s2"
    "free_seg (mm_dseg (cur s2)) s2 = Inr sx" "s3 = upd_cur (\<lambda>t. t\<lparr>mm_cseg := 0, mm_dseg := 0\<rparr>) sx"
    using e(1) unfolding exit_memory_def bindr_Inr_iff by blast
  have sub: "set [0..<NR_OPEN] \<subseteq> {..<NR_OPEN}" by (auto simp del: upt.simps)
  have l: "files_ok s1" "current (ks s1) \<in> live (ks s1)" "tl (ks s1) = tl (ks s)" "\<And>d. d < NR_OPEN \<Longrightarrow> fds (cur s1) d = None"
      "live (ks s1) = live (ks s)" "\<And>i. i \<noteq> current (ks s) \<Longrightarrow> fds (task (ks s1) i) = fds (task (ks s) i)" "current (ks s1) = current (ks s)"
    using close_list_files[OF ok c sub m(1)[unfolded close_allfiles_def]] by (auto simp del: upt.simps)
  have t1: "timer_tame (ks s1)"
    using t l(4-7) unfolding timer_tame_def l(3,5) by (auto simp: cur_def split: option.splits) metis+
  let ?s1 = "upd_cur (\<lambda>t. t\<lparr>state := TASK_EXITING\<rparr>) s1"
  have "tame_step s1 ?s1" using l(2) by (auto simp: tame_step_def same_procs_def live_def cur_def upd_cur_def)
  moreover have "tame_step sx s3" unfolding m(4) by (rule tame_upd_cur) simp_all
  then have "tame_step ?s1 s3" using tame_free_seg[OF m(2)] tame_free_seg[OF m(3)] tame_trans by blast
  ultimately have "tame_step s1 s5" using tame_exit_notify[OF e(2)] tame_exit_inodes[OF e(3)] tame_trans by blast
  then have a: "files_ok s5" "same_procs (ks s1) (ks s5)" "current (ks s5) = current (ks s1)" "tl (ks s5) = tl (ks s1)"
    using tame_files l(1) by (auto simp: tame_step_def)
  have t5: "timer_tame (ks s5)"
    using t1 a(2) unfolding timer_tame_def a(4) same_procs_refs(2)[OF a(2)] by (simp add: same_procs_def split: option.splits)
  have "fds (cur s5) d = fds (cur s1) d" for d using a(2,3) by (simp add: same_procs_def cur_def)
  moreover have "current (ks s5) \<in> live (ks s5)" using l(2) a(3) same_procs_refs(2)[OF a(2)] by simp
  ultimately show ?thesis using exit_switch_files[OF a(1) _ _ _ e(4)] l t5 by simp
qed

end

section \<open>Pipes\<close>

text \<open>Files that are taken from the table and not yet entered in a descriptor.\<close>

definition files_upto :: "nat list \<Rightarrow> 'f psys \<Rightarrow> bool" where
  "files_upto E s \<longleftrightarrow> (\<forall>f. unat (f_count (file_array s f)) = open_refs (ks s) f + count_list E f)"

lemma files_upto_Nil: "files_upto [] s = files_ok s"
  by (simp add: files_upto_def files_ok_def)

lemma upto_tame: "tame_step s s' \<Longrightarrow> files_upto E s \<Longrightarrow> files_upto E s'"
  using same_procs_refs(1)[of "ks s" "ks s'"] by (simp add: files_upto_def tame_step_def)

lemma upto_get_empty:
  assumes "files_upto E s" "get_empty_filp s = (Some f, s')"
  shows "files_upto (f # E) s'" "ks s' = ks s"
proof -
  have f: "f_count (file_array s f) = 0" "s' = updf f (\<lambda>_. \<lparr>f_mode = 0, f_pos = 0, f_flags = 0, f_count = 1, f_inode = None, f_op = None\<rparr>) s"
    using assms(2) by (auto simp: get_empty_filp_def find_Some_iff simp del: upt.simps split: option.splits)
  have "open_refs (ks s) f + count_list E f = 0" using assms(1) f(1) by (metis files_upto_def unat_0)
  then show "files_upto (f # E) s'" "ks s' = ks s" using assms(1) unfolding f(2) by (auto simp: files_upto_def)
qed

lemma upto_drop:
  assumes "files_upto (f # E) s"
  shows "files_upto E (drop_filp f s)"
proof -
  have u: "unat (f_count (file_array s f)) = open_refs (ks s) f + count_list E f + 1" using assms by (simp add: files_upto_def)
  then have "f_count (file_array s f) \<noteq> 0" by (metis add_eq_0_iff_both_eq_0 unat_0 zero_neq_one)
  then show ?thesis using assms u by (auto simp: files_upto_def drop_filp_def unat_pred)
qed

lemma upto_set_fd:
  assumes "files_upto (f # E) s" "current (ks s) \<in> live (ks s)" "d < NR_OPEN" "fds (cur s) d = None"
  shows "files_upto E (upd_cur (set_fd d (Some f)) s)"
  using assms(1) open_refs_fd[OF assms(2,3), of "Some f"] assms(4) by (auto simp: files_upto_def)

lemma upto_clear_fd:
  assumes "files_upto E s" "current (ks s) \<in> live (ks s)" "d < NR_OPEN" "fds (cur s) d = Some f"
  shows "files_upto (f # E) (upd_cur (set_fd d None) s)"
proof -
  have "open_refs (ks (upd_cur (set_fd d None) s)) g + (if f = g then 1 else 0) = open_refs (ks s) g" for g
    using open_refs_fd[OF assms(2,3), of None g] assms(4) by auto
  note eq = this
  show ?thesis unfolding files_upto_def
  proof
    fix g
    have "unat (f_count (file_array s g)) = open_refs (ks s) g + count_list E g" using assms(1) by (simp add: files_upto_def)
    with eq[of g] show "unat (f_count (file_array (upd_cur (set_fd d None) s) g)) = open_refs (ks (upd_cur (set_fd d None) s)) g + count_list (f # E) g"
      by (cases "f = g") simp_all
  qed
qed

lemma live_set_fd: "current (ks s) \<in> live (ks s) \<Longrightarrow> current (ks (upd_cur (set_fd d p) s)) \<in> live (ks (upd_cur (set_fd d p) s))"
  by (simp add: live_def cur_def)

lemma get_unused_fd_tame:
  assumes "get_unused_fd s = (i, s')"
  shows "tame_step s s'" "fds (cur s') = fds (cur s)" "0 \<le> i \<Longrightarrow> nat i < NR_OPEN \<and> fds (cur s) (nat i) = None"
  using assms by (auto simp: get_unused_fd_def find_Some_iff simp del: upt.simps split: option.splits intro!: tame_upd_cur)

lemma get_unused_fd_lowest:
  assumes "get_unused_fd s = (i, s')" and "0 \<le> i" and "d < nat i"
  shows "fds (cur s) d \<noteq> None"
  using assms by (auto simp: get_unused_fd_def find_Some_iff simp del: upt.simps split: option.splits)

lemma get_pipe_inode_tame: "get_pipe_inode sop pb s = Inr (r, s') \<Longrightarrow> ks s' = ks s \<and> file_array s' = file_array s"
  by (auto simp: get_pipe_inode_def get_pipe_mem_def Let_def bindr_Inr_iff on_vfs_def split: option.splits prod.splits)

lemma do_pipe_files:
  assumes ok: "files_ok s" and c: "current (ks s) \<in> live (ks s)" and r: "do_pipe sop pb s = Inr (e, p, s')"
  shows "files_ok s'"
proof (cases "get_empty_filp s")
  case (Pair o1 sa)
  show ?thesis
  proof (cases o1)
    case None
    then have "sa = s" using Pair by (auto simp: get_empty_filp_def split: option.splits)
    then show ?thesis using r ok Pair None by (simp add: do_pipe_def)
  next
    case (Some f1)
    note a = upto_get_empty[OF ok[folded files_upto_Nil] Pair[unfolded Some]]
    obtain o2 sb where b: "get_empty_filp sa = (o2, sb)" by (cases "get_empty_filp sa")
    show ?thesis
    proof (cases o2)
      case None
      then have "sb = sa" using b by (auto simp: get_empty_filp_def split: option.splits)
      then show ?thesis using r Pair Some b None upto_drop[OF a(1)] by (simp add: do_pipe_def files_upto_Nil)
    next
      case f2: (Some f2)
      note bb = upto_get_empty[OF a(1) b[unfolded f2]]
      obtain ino sc where g: "get_pipe_inode sop pb sb = Inr (ino, sc)"
        using r Pair Some b f2 by (auto simp: do_pipe_def bindr_Inr_iff)
      have sc: "files_upto [f2, f1] sc" "current (ks sc) \<in> live (ks sc)"
        using get_pipe_inode_tame[OF g] bb a(2) c by (simp_all add: files_upto_def)
      show ?thesis
      proof (cases ino)
        case None
        then have "s' = drop_filp f1 (drop_filp f2 sc)" using r Pair Some b f2 g by (simp add: do_pipe_def)
        then show ?thesis using upto_drop[OF upto_drop[OF sc(1)]] by (simp add: files_upto_Nil)
      next
        case i: (Some n)
        obtain i sd where d: "get_unused_fd sc = (i, sd)" by (cases "get_unused_fd sc")
        note dd = get_unused_fd_tame[OF d]
        have sd: "files_upto [f2, f1] sd" "current (ks sd) \<in> live (ks sd)"
          using upto_tame[OF dd(1) sc(1)] sc(2) dd(1) same_procs_refs(2)[of "ks sc" "ks sd"] by (simp_all add: tame_step_def)
        have fail: "files_ok z" if h: "files_upto [f2, f1] y" "bindr (on_vfs (iput sop (Some n)) (y\<lparr>vf := Icache.upd n (\<lambda>n. n\<lparr>i_count := i_count n - 1\<rparr>) (vf y)\<rparr>)) (\<lambda>s. Inr (e', None :: (int \<times> int) option, drop_filp f1 (drop_filp f2 s))) = Inr (e, p, z)" for y z e'
        proof -
          obtain w where w: "on_vfs (iput sop (Some n)) (y\<lparr>vf := Icache.upd n (\<lambda>n. n\<lparr>i_count := i_count n - 1\<rparr>) (vf y)\<rparr>) = Inr w" "z = drop_filp f1 (drop_filp f2 w)"
            using h(2) by (auto simp: bindr_Inr_iff)
          have "tame_step y w" using tame_on_vfs[OF w(1)] by (simp add: tame_step_def)
          then show ?thesis using upto_drop[OF upto_drop[OF upto_tame[OF _ h(1)]]] w(2) by (simp add: files_upto_Nil)
        qed
        show ?thesis
        proof (cases "i < 0")
          case True
          then show ?thesis using r Pair Some b f2 g i d by (intro fail[OF sd(1), of i s']) (simp add: do_pipe_def Let_def)
        next
          case False
          let ?se = "upd_cur (set_fd (nat i) (Some f1)) sd"
          have fi: "nat i < NR_OPEN" "fds (cur sd) (nat i) = None" using dd(2,3) False by simp_all
          have "files_upto [f1, f2] sd" using sd(1) by (auto simp: files_upto_def)
          note e = upto_set_fd[OF this sd(2) fi] live_set_fd[OF sd(2), of "nat i" "Some f1"]
          obtain j sf where f: "get_unused_fd ?se = (j, sf)" by (cases "get_unused_fd ?se")
          note ff = get_unused_fd_tame[OF f]
          have sf: "files_upto [f2] sf" "current (ks sf) \<in> live (ks sf)"
            using upto_tame[OF ff(1) e(1)] e(2) ff(1) same_procs_refs(2)[of "ks ?se" "ks sf"] by (simp_all add: tame_step_def)
          show ?thesis
          proof (cases "j < 0")
            case True
            have "files_upto [f1, f2] (upd_cur (set_fd (nat i) None) sf)" using ff(2) by (intro upto_clear_fd[OF sf fi(1)]) simp
            then have "files_upto [f2, f1] (upd_cur (set_fd (nat i) None) sf)" by (auto simp: files_upto_def)
            then show ?thesis using r Pair Some b f2 g i d False f True
              by (intro fail[of "upd_cur (set_fd (nat i) None) sf" j s']) (simp_all add: do_pipe_def Let_def)
          next
            case ok: False
            let ?sg = "updf f2 (\<lambda>f. f\<lparr>f_inode := Some n, f_pos := 0, f_flags := 1, f_op := Some Write_pipe_fops, f_mode := 2\<rparr>)
              (updf f1 (\<lambda>f. f\<lparr>f_inode := Some n, f_pos := 0, f_flags := 0, f_op := Some Read_pipe_fops, f_mode := 1\<rparr>) sf)"
            have "files_upto [f2] ?sg" using sf(1) by (auto simp: files_upto_def)
            then have "files_upto [] (upd_cur (set_fd (nat j) (Some f2)) ?sg)" using sf(2) ff(2,3) ok by (intro upto_set_fd) auto
            moreover have "s' = upd_cur (set_fd (nat j) (Some f2)) ?sg"
              using r Pair Some b f2 g i d False f ok by (simp add: do_pipe_def Let_def)
            ultimately show ?thesis by (simp add: files_upto_Nil)
          qed
        qed
      qed
    qed
  qed
qed

section \<open>The steps that move descriptors\<close>

lemma fcntl_files:
  assumes ok: "files_ok s" and c: "current (ks s) \<in> live (ks s)" and r: "sys_fcntl fd cmd arg s = Inr (e, s')"
  shows "files_ok s'"
proof -
  consider "s' = s" | "s' = snd (dupfd fd arg s)" | g where "s' = upd_cur g s" "\<And>t. fds (g t) = fds t" "\<And>t. state (g t) = state t"
    | i x where "s' = updf i (\<lambda>f. f\<lparr>f_flags := x f\<rparr>) s"
  proof -
    assume a: "s' = s \<Longrightarrow> thesis" "s' = snd (dupfd fd arg s) \<Longrightarrow> thesis"
      "\<And>g. s' = upd_cur g s \<Longrightarrow> (\<And>t. fds (g t) = fds t) \<Longrightarrow> (\<And>t. state (g t) = state t) \<Longrightarrow> thesis"
      "\<And>i x. s' = updf i (\<lambda>f. f\<lparr>f_flags := x f\<rparr>) s \<Longrightarrow> thesis"
    show thesis
    proof (cases "fds (cur s) (unat fd)")
      case None
      then show thesis using r a(1) by (simp add: sys_fcntl_def split: if_splits)
    next
      case (Some filp)
      show thesis
      proof (cases "unat fd < NR_OPEN \<and> cmd = 2")
        case True
        then have "s' = upd_cur (\<lambda>t. t\<lparr>close_on_exec := snd (set_bit fd (close_on_exec t))\<rparr>) s \<or> s' = upd_cur (clear_cloexec (unat fd)) s"
          using r Some by (simp add: sys_fcntl_def split: if_splits)
        then show thesis using a(3)[of "\<lambda>t. t\<lparr>close_on_exec := snd (set_bit fd (close_on_exec t))\<rparr>"] a(3)[of "clear_cloexec (unat fd)"] by auto
      next
        case False
        then have "s' = s \<or> s' = snd (dupfd fd arg s) \<or> (\<exists>x. s' = updf filp (\<lambda>f. f\<lparr>f_flags := x f\<rparr>) s)"
          using r Some unfolding sys_fcntl_def by (auto simp: bindr_Inr_iff deref_def split: if_splits option.splits)
        then show thesis using a(1,2,4) by blast
      qed
    qed
  qed
  then show ?thesis
  proof cases
    case 2
    then show ?thesis using dupfd_files[OF ok c] by simp
  next
    case 3
    then show ?thesis using tame_files[OF tame_upd_cur ok] by simp
  next
    case 4
    then show ?thesis by (intro files_ok_cong[OF ok]) simp_all
  qed (use ok in simp)
qed

text \<open>The system calls on descriptors, process creation and exit, \<^verbatim>\<open>schedule\<close> with the timers it runs, and
  the switch to another task. Only tasks in use run.\<close>

inductive fd_step :: "'f release_col \<Rightarrow> 'f super_operations \<Rightarrow> 'f psys \<Rightarrow> 'f psys \<Rightarrow> bool" for rel sop where
  step_dup: "current (ks s) \<in> live (ks s) \<Longrightarrow> sys_dup fd s = (r, s') \<Longrightarrow> fd_step rel sop s s'"
| step_dup2: "current (ks s) \<in> live (ks s) \<Longrightarrow> sys_dup2 rel sop a b s = Inr (r, s') \<Longrightarrow> fd_step rel sop s s'"
| step_close: "current (ks s) \<in> live (ks s) \<Longrightarrow> sys_close rel sop fd s = Inr (r, s') \<Longrightarrow> fd_step rel sop s s'"
| step_fcntl: "current (ks s) \<in> live (ks s) \<Longrightarrow> sys_fcntl fd cmd arg s = Inr (r, s') \<Longrightarrow> fd_step rel sop s s'"
| step_pipe: "current (ks s) \<in> live (ks s) \<Longrightarrow> sys_pipe sop pb p s = Inr (r, q, s') \<Longrightarrow> fd_step rel sop s s'"
| step_fork: "current (ks s) \<in> live (ks s) \<Longrightarrow> sys_fork s = Inr (r, s') \<Longrightarrow> fd_step rel sop s s'"
| step_exit: "current (ks s) \<in> live (ks s) \<Longrightarrow> timer_tame (ks s) \<Longrightarrow> sys_exit rel sop st s = Inr s' \<Longrightarrow> fd_step rel sop s s'"
| step_schedule: "timer_tame (ks s) \<Longrightarrow> schedule (ks s) = Inr (out, k) \<Longrightarrow> fd_step rel sop s (s\<lparr>ks := k\<rparr>)"
| step_switch: "fd_step rel sop s (s\<lparr>ks := (ks s)\<lparr>current := c\<rparr>\<rparr>)"

context release_law
begin

lemma fd_step_files: "fd_step rel sop s s' \<Longrightarrow> files_ok s \<Longrightarrow> files_ok s'"
proof (induction rule: fd_step.induct)
  case (step_dup s fd r s')
  then show ?case using dupfd_files[of s fd 0] by (simp add: sys_dup_def)
next
  case (step_pipe s pb p r q s')
  then obtain e fd where "do_pipe sop pb s = Inr (e, fd, s')" by (auto simp: sys_pipe_def bindr_Inr_iff split: if_splits)
  then show ?case using do_pipe_files step_pipe by blast
next
  case (step_schedule s out k)
  from schedule_refs[OF step_schedule(2,1)] show ?case using step_schedule(3) by (simp add: files_ok_def)
next
  case (step_switch s c)
  then show ?case by (intro files_ok_cong[OF step_switch]) (simp_all add: same_procs_def)
qed (auto simp: sys_fork_def sys_exit_def intro: sys_dup2_files sys_close_files fcntl_files fork_files exit_files)

lemma fd_steps_files: "(fd_step rel sop)\<^sup>*\<^sup>* s s' \<Longrightarrow> files_ok s \<Longrightarrow> files_ok s'"
  by (induction rule: rtranclp_induct) (auto intro: fd_step_files)

end

lemma lift_pipe_tame:
  assumes "lift_pipe g i s = Inr s'"
  shows "file_array s' = file_array s" "same_procs (ks s) (ks s')" "current (ks s') = current (ks s)" "tl (ks s') = tl (ks s)"
  using assms wake_up_queue_same[of "pipe_wait s i" False "ks s"]
  by (auto simp: lift_pipe_def Let_def bindr_Inr_iff split: if_splits)

lemma releases_law:
  assumes "\<And>r i f s s'. other = Some r \<Longrightarrow> r i f s = Inr s' \<Longrightarrow>
    (\<forall>g. f_count (file_array s' g) = f_count (file_array s g)) \<and> same_procs (ks s) (ks s') \<and> current (ks s') = current (ks s) \<and> tl (ks s') = tl (ks s)"
  shows "release_law (releases other)"
proof
  fix t r i f and s s' :: "'a psys" assume h: "releases other t = Some r" "r i f s = Inr s'"
  then have "(\<exists>g n. lift_pipe g n s = Inr s') \<or> (other = Some r)"
    by (cases t; auto simp: releases_def bindr_Inr_iff; blast)
  then show "(\<forall>g. f_count (file_array s' g) = f_count (file_array s g)) \<and> same_procs (ks s) (ks s') \<and> current (ks s') = current (ks s) \<and> tl (ks s') = tl (ks s)"
  proof
    assume "\<exists>g n. lift_pipe g n s = Inr s'"
    then show ?thesis using lift_pipe_tame by fastforce
  next
    assume "other = Some r"
    from assms[OF this h(2)] show ?thesis .
  qed
qed

text \<open>What the release function of the terminals, \<^verbatim>\<open>tty_release\<close>, does to processes: the last close by the
  leader of the terminal's process group \<open>pg\<close> hangs up the group.\<close>

definition tty_hangup :: "int \<Rightarrow> nat option \<Rightarrow> nat \<Rightarrow> 'f psys \<Rightarrow> 'f psys kres" where
  "tty_hangup pg i f s = (if pid (cur s) = pg then on_ks (\<lambda>k. bindr (kill_pg pg SIGHUP True k) (\<lambda>(_, k). Inr k)) s else Inr s)"

lemma tty_hangup_tame:
  assumes "tty_hangup pg i f s = Inr s'"
  shows "(\<forall>g. f_count (file_array s' g) = f_count (file_array s g)) \<and> same_procs (ks s) (ks s') \<and> current (ks s') = current (ks s) \<and> tl (ks s') = tl (ks s)"
  using assms by (auto simp: tty_hangup_def on_ks_def bindr_Inr_iff dest: kill_pg_same split: if_splits)

interpretation tty: release_law "releases (Some (tty_hangup pg))" for pg
proof (rule releases_law)
  fix r i f s s'
  assume "Some (tty_hangup pg) = Some r" and "r i f s = Inr s'"
  then have "tty_hangup pg i f s = Inr s'" by simp
  then show "(\<forall>g. f_count (file_array s' g) = f_count (file_array s g)) \<and> same_procs (ks s) (ks s') \<and> current (ks s') = current (ks s) \<and> tl (ks s') = tl (ks s)"
    by (rule tty_hangup_tame)
qed

interpretation std: release_law "releases None"
  by (rule releases_law) simp

text \<open>C31: the reference count of every open file is the number of descriptors that refer to it, in all
  processes together, after any sequence of dup, dup2, close, fcntl, pipe, fork, exit, calls of
  \<^verbatim>\<open>schedule\<close> and switches between tasks; so \<^verbatim>\<open>get_empty_filp\<close> never hands out a file that a
  descriptor of a process in use refers to. In an exit and a call of \<^verbatim>\<open>schedule\<close> the first pending
  timer, if there is one, has to belong to a task that is in use or has no descriptors
  (\<open>timer_tame\<close>). The \<^verbatim>\<open>release\<close> function \<open>other\<close> of the device drivers may change anything but the
  reference counts of files, the descriptors, which slots of the task table are in use, the
  current task and the timers; the hang-up of \<^verbatim>\<open>tty_release\<close> keeps to this (\<open>tty_hangup_tame\<close>).\<close>

theorem files_counted:
  assumes "(fd_step (releases other) sop)\<^sup>*\<^sup>* s s'" and "files_ok s"
    and "\<And>r i f s s'. other = Some r \<Longrightarrow> r i f s = Inr s' \<Longrightarrow>
      (\<forall>g. f_count (file_array s' g) = f_count (file_array s g)) \<and> same_procs (ks s) (ks s') \<and> current (ks s') = current (ks s) \<and> tl (ks s') = tl (ks s)"
  shows "(\<forall>f. unat (f_count (file_array s' f)) = open_refs (ks s') f) \<and>
    (\<forall>g s''. get_empty_filp s' = (Some g, s'') \<longrightarrow> (\<forall>t\<in>live (ks s'). \<forall>d < NR_OPEN. fds (task (ks s') t) d \<noteq> Some g))"
proof (intro conjI allI impI ballI)
  have ok: "files_ok s'" by (rule release_law.fd_steps_files[OF releases_law[OF assms(3)] assms(1,2)])
  then show "unat (f_count (file_array s' f)) = open_refs (ks s') f" for f by (simp add: files_ok_def)
  fix g s'' t d assume h: "get_empty_filp s' = (Some g, s'')" "t \<in> live (ks s')" "d < NR_OPEN"
  have "f_count (file_array s' g) = 0" using h(1) by (auto simp: get_empty_filp_def find_Some_iff simp del: upt.simps split: option.splits)
  then have "open_refs (ks s') g = 0" using files_okD[OF ok, of g] by simp
  then have "fdrefs (fds (task (ks s') t)) g = 0" using open_refs_ge[OF h(2), of g] by simp
  then show "fds (task (ks s') t) d \<noteq> Some g" using h(3) by (auto simp: fdrefs_def)
qed

section \<open>Examples\<close>

text \<open>Task 7 runs with the segment 0x1000, descriptor 0 and the inode in slot 5.\<close>

definition one_proc :: "malloc_head \<Rightarrow> minix_fs psys" where
  "one_proc mh = \<lparr>ks = Sched.upd 7 (\<lambda>t. t\<lparr>pid := 7, mm_cseg := 0x1000, mm_dseg := 0x1000, t_inode := 5, root_i := 5, pwd_i := 5,
       fds := (\<lambda>d. if d = 0 then Some 3 else None)\<rparr>) two_sys,
     vf = one_file empty_ino small_fs,
     file_array = (\<lambda>f. \<lparr>f_mode = 3, f_pos = 0, f_flags = 0, f_count = (if f = 3 then 1 else 0), f_inode = Some 5, f_op = Some Minix_file_fops\<rparr>),
     pipes = (\<lambda>_. \<lparr>p_base = (\<lambda>_. 0), p_start = 0, p_len = 0, p_lock = 0, p_readers = 0, p_writers = 0\<rparr>), pipe_in_use = (\<lambda>_. False),
     mhead = mh, kmem = (\<lambda>_. 0), last_pid = 7, kernel_ds = 0, xtime = 0, pipe_wait = (\<lambda>_. 0)\<rparr>"

lemma one_proc_cur: "cur (one_proc mh) = (task two_sys 7)\<lparr>pid := 7, mm_cseg := 0x1000, mm_dseg := 0x1000, t_inode := 5, root_i := 5, pwd_i := 5,
    fds := (\<lambda>d. if d = 0 then Some 3 else None)\<rparr>"
  by (simp add: cur_def one_proc_def two_sys_def)

lemma one_proc_live: "live (ks (one_proc mh)) = {0, 4, 7}"
  by (auto simp: live_def one_proc_def two_sys_def idle_task_def)

lemma one_proc_files: "files_ok (one_proc mh)"
proof -
  have "{d. d < NR_OPEN \<and> (if d = 0 then Some 3 else None) = Some f} = (if f = 3 then {0} else {})" for f :: nat by auto
  then have r: "fdrefs (\<lambda>d. if d = 0 then Some 3 else None) f = (if f = 3 then 1 else 0)" "fdrefs (\<lambda>_. None) f = 0" for f by (simp_all add: fdrefs_def)
  have "fds (task (ks (one_proc mh)) i) = (if i = 7 then (\<lambda>d. if d = 0 then Some 3 else None) else (\<lambda>_. None))" for i
    by (simp add: one_proc_def two_sys_def idle_task_def)
  then have "open_refs (ks (one_proc mh)) f = (if f = 3 then 1 else 0)" for f
    by (simp add: open_refs_def one_proc_live r)
  then show ?thesis by (simp add: files_ok_def one_proc_def)
qed

theorem files_counted_witness:
  "\<exists>s'. (fd_step (releases (Some (tty_hangup 7))) minix_sops)\<^sup>*\<^sup>* (one_proc boot_map) s' \<and> fds (cur s') 1 = Some 3 \<and> open_refs (ks s') 3 = 2 \<and> f_count (file_array s' 3) = 2"
proof -
  let ?s = "one_proc boot_map"
  have d: "find (\<lambda>d. (if d = 0 then Some 3 else None) = (None :: nat option)) [0..<NR_OPEN] = Some 1" by (simp add: upt_rec)
  let ?s' = "updf 3 (\<lambda>f. f\<lparr>f_count := f_count f + 1\<rparr>) (upd_cur (set_fd 1 (Some 3)) (upd_cur (clear_cloexec 1) ?s))"
  have s': "sys_dup 0 ?s = (1, ?s')" using d by (simp add: sys_dup_def dupfd_def one_proc_cur)
  have "current (ks ?s) \<in> live (ks ?s)" unfolding one_proc_live by (simp add: one_proc_def two_sys_def)
  then have st: "(fd_step (releases (Some (tty_hangup 7))) minix_sops)\<^sup>*\<^sup>* ?s ?s'" using step_dup[OF _ s'] by blast
  have "f_count (file_array ?s' 3) = 2" by (simp add: one_proc_def)
  moreover have "fds (cur ?s') 1 = Some 3" by simp
  moreover have "unat (f_count (file_array ?s' 3)) = open_refs (ks ?s') 3" using files_counted[OF st one_proc_files] tty_hangup_tame[of 7] by blast
  ultimately show ?thesis using st by (intro exI[of _ ?s']) simp
qed

end
