(* ===== verification/ForkExit.thy ===== *)
theory ForkExit
  imports FileRefs
begin

text \<open>
  Fork and exit together: what every outcome of \<^verbatim>\<open>do_fork\<close> leaves behind, and that the exit of the child
  gives back all that the fork took: references to files and inodes, memory and the slot of the task.
\<close>

text \<open>A shared segment is given back before a segment that was allocated in between: what remains is
  the allocation alone.\<close>

lemma share_alloc_free:
  assumes s: "share_spec xs c ys" and a: "alloc_spec ys n r zs" and f: "free_spec zs c ws"
    and n: "0 < n" and t: "tiles lo xs hi" and k: "counted xs"
  shows "alloc_spec xs n r ws"
proof -
  obtain pre x post where x: "xs = pre @ x # post" "\<not> sfree x" "sbase x = c" "ys = pre @ x\<lparr>sref := Suc (sref x)\<rparr> # post"
    using s by (auto simp: share_spec_def)
  let ?x = "x\<lparr>sref := Suc (sref x)\<rparr>"
  obtain p g q where g: "ys = p @ g # q" "fits n g" "sbase g = r" "\<forall>y\<in>set p. fits n y \<longrightarrow> sext g < sext y" "\<forall>y\<in>set q. fits n y \<longrightarrow> sext g \<le> sext y" "zs = p @ carve n g @ q"
    using a by (auto simp: alloc_spec_def)
  have ty: "tiles lo ys hi" using t unfolding x(1,4) by (simp add: tiles_append)
  have tz: "tiles lo zs hi" by (rule alloc_spec_tiles[OF a n ty])
  obtain p' y q' where y: "zs = p' @ y # q'" "\<not> sfree y" "sbase y = c"
      "ws = (if sref y = 1 then coalesce (p' @ release_seg y # q') else p' @ release_seg y # q')"
    using f by (auto simp: free_spec_def)
  have r: "release_seg ?x = x" "sref ?x \<noteq> 1" "\<not> fits n x" "\<not> fits n ?x" using x(2) k by (auto simp: x(1) release_seg_def fits_def)
  have rest: "ws = p'' @ x # q''" if "zs = p'' @ ?x # q''" for p'' q''
  proof -
    have "p' = p'' \<and> y = ?x \<and> q' = q''" using tz y(1,3) x(3) that by (intro tiles_split_unique[of lo p'' ?x q'' hi]) simp_all
    then show ?thesis using y(4) r by simp
  qed
  have "g \<noteq> ?x" using g(2) x(2) by (auto simp: fits_def)
  then consider m where "pre = p @ g # m" "q = m @ ?x # post" | m where "p = pre @ ?x # m" "post = m @ g # q"
    using g(1) x(4) by (auto simp: append_eq_append_conv2 Cons_eq_append_conv append_eq_Cons_conv)
  then show ?thesis
  proof cases
    case 1
    then have "ws = p @ carve n g @ m @ x # post" using rest[of "p @ carve n g @ m" post] g(6) by simp
    moreover have "xs = p @ g # m @ x # post" using x(1) 1 by simp
    ultimately show ?thesis unfolding alloc_spec_def using g(2-5) r(3) 1
      by (intro exI[of _ p] exI[of _ g] exI[of _ "m @ x # post"]) auto
  next
    case 2
    then have "ws = (pre @ x # m) @ carve n g @ q" using rest[of pre "m @ carve n g @ q"] g(6) by simp
    moreover have "xs = (pre @ x # m) @ g # q" using x(1) 2 by simp
    ultimately show ?thesis unfolding alloc_spec_def using g(2-5) r(3) 2
      by (intro exI[of _ "pre @ x # m"] exI[of _ g] exI[of _ q]) auto
  qed
qed

lemma share_spec_mem:
  assumes "share_spec xs c ys" "y \<in> set xs" "\<not> sfree y" "tiles lo xs hi"
  obtains z where "z \<in> set ys" "sbase z = sbase y" "\<not> sfree z" "sext z = sext y" "sbase y = c \<Longrightarrow> z = y\<lparr>sref := Suc (sref y)\<rparr>"
proof -
  obtain pre x post where x: "xs = pre @ x # post" "sbase x = c" "ys = pre @ x\<lparr>sref := Suc (sref x)\<rparr> # post"
    using assms(1) unfolding share_spec_def by blast
  show ?thesis
  proof (cases "y = x")
    case True
    have "y\<lparr>sref := Suc (sref y)\<rparr> \<in> set ys" unfolding x(3) True by simp
    then show ?thesis by (rule that) (use assms(3) in simp_all)
  next
    case False
    then have "sbase y \<noteq> c" using tiles_inj[OF assms(4,2), of x] x by auto
    then show ?thesis using that[of y] False assms(2,3) x by auto
  qed
qed

lemma alloc_spec_keeps: "alloc_spec xs n r ys \<Longrightarrow> x \<in> set xs \<Longrightarrow> \<not> sfree x \<Longrightarrow> x \<in> set ys"
  by (auto simp: alloc_spec_def fits_def)

lemma alloc_spec_new: "alloc_spec xs n r ys \<Longrightarrow> \<exists>z\<in>set ys. sbase z = r \<and> \<not> sfree z"
  by (auto simp: alloc_spec_def carve_def)

text \<open>The memory operations of a fork and of the exit of the child.\<close>

lemma fork_exit_memory:
  assumes inv: "mm_inv lo hi mh" and x: "x \<in> set (segs mh)" "sbase x = unat c" "\<not> sfree x" "sref x < 255"
    and y: "y \<in> set (segs mh)" "sbase y = unat d" "\<not> sfree y"
    and m: "mm_realloc mh c = Inr (w, mh1)" "mm_dup mh1 mem d = Inr (r, mh2, mem2)" "r \<noteq> 0"
  obtains mh3 mh4 where "mm_free mh2 c = Inr mh3" "mm_free mh3 r = Inr mh4" "segs mh4 = segs mh" "mm_inv lo hi mh4"
proof -
  have wf: "tiles lo (segs mh) hi" "coalesced (segs mh)" "counted (segs mh)" using inv by (auto simp: mm_inv_def)
  have sh: "share_spec (segs mh) (unat c) (segs mh1)" "mm_inv lo hi mh1" using mm_realloc_ok[OF inv x] m(1) by auto
  obtain z where z: "z \<in> set (segs mh1)" "sbase z = unat d" "\<not> sfree z" "sext z = sext y"
    using share_spec_mem[OF sh(1) y(1,3) wf(1)] y(2) by metis
  define e where "e = (of_nat (sext z) :: u16)"
  have ez: "0 < sext z" "sext z < 65536" using tiles_mem[OF _ z(1), of lo hi] sh(2) by (auto simp: mm_inv_def)
  then have e: "unat e = sext z" "e \<noteq> 0" by (auto simp: e_def of_nat_u16_eq_0)
  have al: "mm_alloc mh1 e = Inr (r, mh2)" using m(2) mm_dup_alloc[OF sh(2) z(1,2,3) e(1), of mem] by (auto simp: bindr_Inr_iff)
  have a: "alloc_spec (segs mh1) (unat e) (unat r) (segs mh2)" "mm_inv lo hi mh2" using mp.alloc_law[OF sh(2) e(2) al m(3)] by auto
  obtain x' where x': "x' \<in> set (segs mh1)" "sbase x' = unat c" "\<not> sfree x'" using share_spec_mem[OF sh(1) x(1,3) wf(1)] x(2) by metis
  obtain mh3 where 3: "mm_free mh2 c = Inr mh3" "free_spec (segs mh2) (unat c) (segs mh3)" "mm_inv lo hi mh3"
    using mm_free_ok[OF a(2) alloc_spec_keeps[OF a(1) x'(1,3)] x'(2,3)] by blast
  have a3: "alloc_spec (segs mh) (unat e) (unat r) (segs mh3)" using share_alloc_free[OF sh(1) a(1) 3(2) _ wf(1,3)] e ez by simp
  obtain u where "u \<in> set (segs mh3)" "sbase u = unat r" "\<not> sfree u" using alloc_spec_new[OF a3] by blast
  from mm_free_ok[OF 3(3) this] obtain mh4 where 4: "mm_free mh3 r = Inr mh4" "free_spec (segs mh3) (unat r) (segs mh4)" "mm_inv lo hi mh4" by blast
  have "segs mh4 = segs mh" using alloc_free_inverse[OF a3 4(2) _ wf] e ez by simp
  then show ?thesis using that 3(1) 4(1,3) by blast
qed

section \<open>Closing files that another process shares\<close>

definition fd_held :: "'f psys \<Rightarrow> nat list \<Rightarrow> nat \<Rightarrow> nat" where
  "fd_held s ds f = length (filter (\<lambda>d. fds (cur s) d = Some f) ds)"

lemma close_list_shared:
  assumes "distinct ds" "\<And>f. fd_held s ds f = 0 \<or> fd_held s ds f < unat (f_count (file_array s f))"
  shows "close_list rel sop ds s = Inr ((upd_cur (\<lambda>t. t\<lparr>fds := (\<lambda>d. if d \<in> set ds then None else fds t d)\<rparr>) s)
    \<lparr>file_array := (\<lambda>f. (file_array s f)\<lparr>f_count := f_count (file_array s f) - of_nat (fd_held s ds f)\<rparr>)\<rparr>)"
  using assms
proof (induction ds arbitrary: s)
  case Nil
  then show ?case by (simp add: fd_held_def upd_cur_def Sched.upd_def)
next
  case (Cons d ds)
  show ?case
  proof (cases "fds (cur s) d")
    case None
    have h: "fd_held s (d # ds) f = fd_held s ds f" for f using None by (simp add: fd_held_def)
    have "(\<lambda>t. t\<lparr>fds := \<lambda>e. if e \<in> set ds then None else fds t e\<rparr>) (cur s) = (\<lambda>t. t\<lparr>fds := \<lambda>e. if e \<in> set (d # ds) then None else fds t e\<rparr>) (cur s)"
      using None by (simp add: fun_eq_iff cong: if_cong)
    then have u: "upd_cur (\<lambda>t. t\<lparr>fds := \<lambda>e. if e \<in> set ds then None else fds t e\<rparr>) s = upd_cur (\<lambda>t. t\<lparr>fds := \<lambda>e. if e \<in> set (d # ds) then None else fds t e\<rparr>) s"
      unfolding upd_cur_def Sched.upd_def cur_def by simp
    show ?thesis using Cons.IH[of s] Cons.prems None unfolding h u by simp
  next
    case (Some f)
    have f0: "fd_held s (d # ds) f = Suc (fd_held s ds f)" using Some by (simp add: fd_held_def)
    have f1: "1 < f_count (file_array s f)" using Cons.prems(2)[of f] f0 by (simp add: word_less_nat_alt)
    let ?s = "updf f (\<lambda>f. f\<lparr>f_count := f_count f - 1\<rparr>) (upd_cur (set_fd d None) s)"
    have c: "close_list rel sop (d # ds) s = close_list rel sop ds ?s"
      using Some f1 by (auto simp: close_fp_def)
    have h: "fd_held ?s ds g = fd_held s ds g" for g
      using Cons.prems(1) by (auto simp: fd_held_def intro!: arg_cong[where f = length] filter_cong)
    have hs: "fd_held s (d # ds) g = fd_held s ds g + (if g = f then 1 else 0)" for g using Some by (simp add: fd_held_def)
    have p: "fd_held ?s ds g = 0 \<or> fd_held ?s ds g < unat (f_count (file_array ?s g))" for g
    proof -
      have "f_count (file_array s f) \<noteq> 0" using f1 by auto
      then show ?thesis using Cons.prems(2)[of g] f1 unfolding h hs by (cases "g = f") (auto simp: unat_pred less_diff_conv)
    qed
    have "(upd_cur (\<lambda>t. t\<lparr>fds := \<lambda>d. if d \<in> set ds then None else fds t d\<rparr>) ?s)\<lparr>file_array := \<lambda>g. (file_array ?s g)\<lparr>f_count := f_count (file_array ?s g) - of_nat (fd_held ?s ds g)\<rparr>\<rparr> =
      (upd_cur (\<lambda>t. t\<lparr>fds := \<lambda>e. if e \<in> set (d # ds) then None else fds t e\<rparr>) s)\<lparr>file_array := \<lambda>g. (file_array s g)\<lparr>f_count := f_count (file_array s g) - of_nat (fd_held s (d # ds) g)\<rparr>\<rparr>"
      unfolding h hs by (auto simp: updf_def upd_cur_def Sched.upd_def set_fd_def fun_eq_iff)
    with c Cons.IH[OF _ p] Cons.prems(1) show ?thesis by simp
  qed
qed

section \<open>The run queue at exit\<close>

lemma kill_sigchld_ring:
  assumes "runqueue k xs"
  shows "\<exists>r k' xs'. kill_process pd SIGCHLD priv k = Inr (r, k') \<and> runqueue k' xs' \<and> set xs \<subseteq> set xs' \<and>
    (\<forall>i. ident (task k' i) = ident (task k i)) \<and> can_tswitch k' = can_tswitch k \<and> lastirq k' = lastirq k"
proof (cases "find (\<lambda>p. pid (task k p) = pd) [0..<MAX_TASKS]")
  case None
  then show ?thesis using assms by (auto simp: kill_process_def)
next
  case (Some p)
  then have p: "p < MAX_TASKS" by (auto simp: find_Some_iff simp del: upt.simps)
  let ?k = "Sched.upd p (\<lambda>t. t\<lparr>signal := signal t OR sigmask SIGCHLD\<rparr>) k"
  have q: "runqueue ?k xs" using assms by (simp add: runqueue_upd)
  obtain k2 where k2: "wake_up_process p ?k = Inr k2" "runqueue k2 (enqueue p xs)" "tasks_map (\<lambda>i t. if i = p then t\<lparr>state := TASK_RUNNING\<rparr> else t) ?k k2"
    using wake_up_process_ring[OF q p] by blast
  have id2: "ident (task k2 i) = ident (task k i)" for i
    using k2(3) ident_cong[of "task k2 i" "(if i = p then (task ?k p)\<lparr>state := TASK_RUNNING\<rparr> else task ?k i)"] by (auto simp: tasks_map_def split: if_splits)
  have "\<exists>k' xs'. generate SIGCHLD p k = Inr k' \<and> runqueue k' xs' \<and> set xs \<subseteq> set xs' \<and> (\<forall>i. ident (task k' i) = ident (task k i)) \<and> can_tswitch k' = can_tswitch k \<and> lastirq k' = lastirq k"
  proof (cases "sig_ignored SIGCHLD (task k p)")
    case True
    then have "generate SIGCHLD p k = Inr k" by (auto simp: generate_def sig_ignored_def)
    then show ?thesis using assms by auto
  next
    case False
    then have g: "generate SIGCHLD p k = (if state (task k p) = TASK_INTERRUPTIBLE then wake_up_process p ?k else Inr ?k)"
      by (auto simp: generate_def sig_ignored_def Let_def)
    show ?thesis
    proof (cases "state (task k p) = TASK_INTERRUPTIBLE")
      case True
      have "set xs \<subseteq> set (enqueue p xs)" by (auto simp: enqueue_def)
      then show ?thesis using True g k2 id2 by (auto simp: tasks_map_def)
    next
      case False
      then show ?thesis using g q by auto
    qed
  qed
  then show ?thesis using Some assms by (auto simp: kill_process_def send_sig_def Let_def bindr_def split: sum.splits)
qed

section \<open>Inodes\<close>

definition ref1 :: "nat \<Rightarrow> 'f vfs \<Rightarrow> 'f vfs" where
  "ref1 i v = Icache.upd i (\<lambda>n. n\<lparr>i_count := i_count n + 1\<rparr>) v"

lemma ref1_commute: "ref1 i (ref1 j v) = ref1 j (ref1 i v)"
  by (cases "i = j") (auto simp: ref1_def Icache.upd_def fun_upd_twist)

lemma islot_ref1: "islot (ref1 i v) j = (if j = i then (islot v j)\<lparr>i_count := i_count (islot v j) + 1\<rparr> else islot v j)"
  by (simp add: ref1_def Icache.upd_def)

lemma iput_ref1:
  assumes "\<not> i_lock (islot v i)" "0 < unat (i_count (islot v i))" "unat (i_count (islot v i)) < 65535"
  shows "iput sop (Some i) (ref1 i v) = Inr v"
proof -
  have c: "unat (i_count (islot v i) + 1) = unat (i_count (islot v i)) + 1" using assms(3) by (simp add: unat_word_ariths)
  have "1 < i_count (islot (ref1 i v) i)" "i_count (islot (ref1 i v) i) \<noteq> 0" using c assms(2) by (auto simp: islot_ref1 word_less_nat_alt)
  then have "iput sop (Some i) (ref1 i v) = Inr (Icache.upd i (\<lambda>x. x\<lparr>i_count := i_count x - 1\<rparr>) (ref1 i v))"
    using assms(1) by (simp add: iput_def wait_on_inode_def islot_ref1 numeral_2_eq_2)
  also have "Icache.upd i (\<lambda>x. x\<lparr>i_count := i_count x - 1\<rparr>) (ref1 i v) = v" by (simp add: ref1_def Icache.upd_def)
  finally show ?thesis .
qed

definition inode_held :: "'f vfs \<Rightarrow> nat \<Rightarrow> bool" where
  "inode_held v i \<longleftrightarrow> \<not> i_lock (islot v i) \<and> 0 < unat (i_count (islot v i)) \<and> unat (i_count (islot v i)) + 3 < 65536"

lemma count_ref1:
  assumes "unat (i_count (islot v j)) < 65535"
  shows "unat (i_count (islot (ref1 i v) j)) = unat (i_count (islot v j)) + (if j = i then 1 else 0)"
  using assms by (auto simp: islot_ref1 unat_word_ariths)

lemma lock_ref1 [simp]: "i_lock (islot (ref1 i v) j) = i_lock (islot v j)"
  by (simp add: islot_ref1)

lemma exit_inodes_undo:
  assumes v: "vf s = ref1 c (ref1 b (ref1 a v))" and t: "t_inode (cur s) = a" "root_i (cur s) = b" "pwd_i (cur s) = c"
    and h: "inode_held v a" "inode_held v b" "inode_held v c"
  shows "exit_inodes sop s = Inr (s\<lparr>vf := v\<rparr>)"
proof -
  have a: "iput sop (Some a) (ref1 c (ref1 b (ref1 a v))) = Inr (ref1 c (ref1 b v))"
    using iput_ref1[of "ref1 c (ref1 b v)" a] h(1) count_ref1[of "ref1 b v" a c] count_ref1[of v a b]
    unfolding ref1_commute[of b a] ref1_commute[of c a] by (auto simp: inode_held_def split: if_splits)
  have b: "iput sop (Some b) (ref1 c (ref1 b v)) = Inr (ref1 c v)"
    using iput_ref1[of "ref1 c v" b] h(2) count_ref1[of v b c] unfolding ref1_commute[of c b] by (auto simp: inode_held_def split: if_splits)
  have c: "iput sop (Some c) (ref1 c v) = Inr v" using iput_ref1[of v c] h(3) by (simp add: inode_held_def)
  show ?thesis unfolding exit_inodes_def on_vfs_def using t by (simp add: v a b c)
qed

section \<open>The dead leave the processor\<close>

lemma schedule_dead:
  assumes q: "runqueue k xs" and c: "current k \<in> set xs" and m: "t_kstackm (task k (current k)) = KSTACK_MAGIC"
    and u: "state (task k (current k)) = TASK_UNUSED" and t: "tl_next (tl k 0) = None" and i: "can_tswitch k \<or> lastirq k = - 1"
  shows "\<exists>k'. schedule k = Inr (Switched False, k') \<and> current k' \<noteq> current k \<and> runqueue k' (remove1 (current k) xs) \<and>
    (\<forall>i. but_links (task k' i) = but_links (task k i))"
proof -
  let ?p = "current k" and ?n = "ring_next xs (current k)"
  obtain ys zs where x: "xs = ys @ ?p # zs" using c by (auto dest: split_list)
  then have r: "remove1 ?p xs = ys @ zs" using runqueueD(2)[OF q] by (simp add: remove1_append)
  obtain k1 where k1: "del_from_runqueue ?p k = Inr k1" "runqueue k1 (ys @ zs)" "same_but_links k k1"
    using del_from_runqueue_ring[of k ys ?p zs] q x by auto
  have l: "leave_cpu k = Inr (0, k1)" using k1(1) u by (simp add: leave_cpu_def Let_def)
  have tm: "run_timer_list k = Inr k" using run_timer_list_none[of k] t by simp
  have n: "next_run (task k ?p) = Some ?n" using runqueue_succ[OF q] c by simp
  have "?n \<noteq> ?p" using ring_next_other[OF runqueueD(2)[OF q] c] .
  then have d: "skip_to (ys @ zs) ?n \<noteq> ?p" using runqueueD(2)[OF q] x by (auto simp: skip_to_def) (metis Un_iff hd_in_set set_append append_is_Nil_conv)+
  let ?k = "k1\<lparr>previous := ?p, current := skip_to (ys @ zs) ?n\<rparr>"
  have "schedule k = Inr (Switched False, ?k)"
    using m u tm l n d i k1(3) skip_idle_ring[OF k1(2), of ?n] by (simp add: schedule_def Let_def same_but_links_def)
  moreover have "runqueue ?k (ys @ zs)" using k1(2) by (simp add: runqueue_def)
  ultimately show ?thesis using d k1(3) r by (auto simp: same_but_links_def)
qed

section \<open>The state after a fork\<close>

lemma fork_setup_task:
  assumes "current (ks s) \<noteq> t"
  shows "pid (task (ks (fork_setup t p s)) i) = (if i = t then p else pid (task (ks s) i))"
    "next_run (task (ks (fork_setup t p s)) i) = (if i = t then None else next_run (task (ks s) i))"
    "prev_run (task (ks (fork_setup t p s)) i) = (if i = t then None else prev_run (task (ks s) i))"
    "p_parent (task (ks (fork_setup t p s)) i) = (if i = t then Some (current (ks s)) else p_parent (task (ks s) i))"
    "t_kstackm (task (ks (fork_setup t p s)) i) = (if i = t then KSTACK_MAGIC else t_kstackm (task (ks s) i))"
    "mm_cseg (task (ks (fork_setup t p s)) i) = mm_cseg (task (ks s) i)" "mm_dseg (task (ks (fork_setup t p s)) i) = mm_dseg (task (ks s) i)"
    "t_inode (task (ks (fork_setup t p s)) i) = t_inode (task (ks s) i)" "root_i (task (ks (fork_setup t p s)) i) = root_i (task (ks s) i)"
    "pwd_i (task (ks (fork_setup t p s)) i) = pwd_i (task (ks s) i)"
    "can_tswitch (ks (fork_setup t p s)) = can_tswitch (ks s)" "lastirq (ks (fork_setup t p s)) = lastirq (ks s)" "nr_running (ks (fork_setup t p s)) = nr_running (ks s)"
    "vf (fork_setup t p s) = ref1 (pwd_i (task (ks s) t)) (ref1 (root_i (task (ks s) t)) (ref1 (t_inode (task (ks s) t)) (vf s)))"
  using assms unfolding fork_setup_def Let_def share_files_eq by (auto simp: cur_def ref1_def ref_inode_def split: option.split)

lemma runqueue_cong:
  assumes "runqueue k xs" "\<And>i. next_run (task k' i) = (if i \<in> set (0 # xs) then next_run (task k i) else None)"
    "\<And>i. i \<in> set (0 # xs) \<Longrightarrow> prev_run (task k' i) = prev_run (task k i)" "nr_running k' = nr_running k"
  shows "runqueue k' xs"
proof -
  have "dseg (\<lambda>i. next_run (task k' i)) (\<lambda>i. prev_run (task k' i)) 0 xs (Some 0) = dseg (\<lambda>i. next_run (task k i)) (\<lambda>i. prev_run (task k i)) 0 xs (Some 0)"
    by (rule dseg_cong) (use assms(2,3) in auto)
  then show ?thesis using assms(1,2,4) by (auto simp: runqueue_def)
qed

definition forked :: "'f psys \<Rightarrow> 'f psys \<Rightarrow> nat \<Rightarrow> nat list \<Rightarrow> bool" where
  "forked s s1 t xs \<longleftrightarrow> t < MAX_TASKS \<and> t \<noteq> current (ks s) \<and> runqueue (ks s1) (xs @ [t]) \<and> current (ks s1) = current (ks s) \<and>
    file_array s1 = (\<lambda>f. (file_array s f)\<lparr>f_count := f_count (file_array s f) + of_nat (fdrefs (fds (cur s)) f)\<rparr>) \<and>
    vf s1 = ref1 (pwd_i (cur s)) (ref1 (root_i (cur s)) (ref1 (t_inode (cur s)) (vf s))) \<and>
    tl (ks s1) = tl (ks s) \<and> can_tswitch (ks s1) = can_tswitch (ks s) \<and> lastirq (ks s1) = lastirq (ks s) \<and>
    (\<forall>i. fds (task (ks s1) i) = (if i = t then fds (cur s) else fds (task (ks s) i)))"

definition child_of :: "'f psys \<Rightarrow> int \<Rightarrow> u16 \<Rightarrow> task_struct \<Rightarrow> bool" where
  "child_of s p ds c \<longleftrightarrow> pid c = p \<and> p_parent c = Some (current (ks s)) \<and> t_kstackm c = KSTACK_MAGIC \<and> mm_cseg c = mm_cseg (cur s) \<and>
    mm_dseg c = ds \<and> t_inode c = t_inode (cur s) \<and> root_i c = root_i (cur s) \<and> pwd_i c = pwd_i (cur s)"

lemma fork_child:
  assumes f: "do_fork s = Inr (r, s1)" "0 < r" and q: "runqueue (ks s) xs" and l: "\<And>i. i \<in> set (0 # xs) \<Longrightarrow> state (task (ks s) i) \<noteq> TASK_UNUSED"
    and c: "state (cur s) \<noteq> TASK_UNUSED"
  obtains t ds x mh mh2 mem where "mm_realloc (mhead s) (mm_cseg (cur s)) = Inr (x, mh)" "mm_dup mh (kmem s) (mm_dseg (cur s)) = Inr (ds, mh2, mem)"
    "ds \<noteq> 0" "mhead s1 = mh2" "forked s s1 t xs" "child_of s r ds (task (ks s1) t)"
  using f(1)
proof (cases rule: do_forkE)
  case (ok t s1' mh mh2 mem ds p x s2 k)
  note t = find_empty_process_slot[OF ok(2), folded ok(1)]
  have me: "current (ks s) \<noteq> t" using c t by (auto simp: cur_def)
  have tq: "t \<notin> set (0 # xs)" using l t by blast
  note g = get_pid_same[OF ok(7)]
  have k2: "ks s2 = Sched.upd t (\<lambda>x. (cur s)\<lparr>child_wait := child_wait x, mm_dseg := ds, t_ds := ds, state := TASK_UNINTERRUPTIBLE\<rparr>) (ks s)"
    using g ok(6) by simp
  have me2: "current (ks s2) \<noteq> t" using me k2 by simp
  note fs = fork_setup_task[OF me2, of p] and ff = fork_setup_files[of t p s2]
  let ?k = "ks (fork_setup t p s2)"
  have "runqueue ?k xs"
    by (rule runqueue_cong[OF q]) (use tq runqueueD(3)[OF q] in \<open>auto simp: fs k2\<close>)
  from wake_up_process_ring[OF this t(1)] obtain k' where "wake_up_process t ?k = Inr k'" "runqueue k' (enqueue t xs)"
    "tasks_map (\<lambda>i t'. if i = t then t'\<lparr>state := TASK_RUNNING\<rparr> else t') ?k k'" by blast
  with ok(8) tq have k: "runqueue k (xs @ [t])" "tasks_map (\<lambda>i t'. if i = t then t'\<lparr>state := TASK_RUNNING\<rparr> else t') ?k k"
    by (auto simp: enqueue_def)
  have id: "ident (task k i) = ident (task ?k i)" for i
    using k(2) ident_cong[of "task k i" "(if i = t then (task ?k t)\<lparr>state := TASK_RUNNING\<rparr> else task ?k i)"] by (auto simp: tasks_map_def split: if_splits)
  have idf: "h (task k i) = h (task ?k i)" if "\<And>t. h (ident t) = h t" for h :: "task_struct \<Rightarrow> 'z" and i
    using that id by metis
  have fd: "fds (task k i) = (if i = t then fds (cur s) else fds (task (ks s) i))" for i
    using idf[of fds i] by (simp add: ident_def ff k2)
  have fa: "file_array (fork_setup t p s2) = (\<lambda>f. (file_array s f)\<lparr>f_count := f_count (file_array s f) + of_nat (fdrefs (fds (cur s)) f)\<rparr>)"
    by (rule ext) (use g ok(6) me in \<open>simp add: ff k2 cur_def\<close>)
  have vv: "vf (fork_setup t p s2) = ref1 (pwd_i (cur s)) (ref1 (root_i (cur s)) (ref1 (t_inode (cur s)) (vf s)))"
    using g ok(6) by (simp add: fs k2)
  have "forked s s1 t xs"
    unfolding forked_def ok(9) using t(1) me k fd fa vv ff fs by (auto simp: tasks_map_def k2)
  moreover have "child_of s r ds (task (ks s1) t)"
    unfolding child_of_def ok(9,10)
    using idf[of pid t] idf[of p_parent t] idf[of t_kstackm t] idf[of mm_cseg t] idf[of mm_dseg t] idf[of t_inode t] idf[of root_i t] idf[of pwd_i t]
    by (simp add: ident_def fs k2)
  moreover have "mhead s1 = mh2" using ok(9) ff(5) g ok(6) by simp
  ultimately show ?thesis using that ok(3-5) by blast
qed (use f(2) find_empty_process_slot in auto)

section \<open>The end of a process that shares its files\<close>

text \<open>Steps that leave the tasks alone but for signals, states, links and siblings, and that take nobody
  off the run queue.\<close>

definition core :: "task_struct \<Rightarrow> task_struct" where
  "core t = (ident t)\<lparr>p_child := None, p_nextsib := None, p_prevsib := None\<rparr>"

definition steady :: "ksys \<Rightarrow> ksys \<Rightarrow> bool" where
  "steady k k' \<longleftrightarrow> (\<forall>i. core (task k' i) = core (task k i)) \<and> current k' = current k \<and> can_tswitch k' = can_tswitch k \<and>
    lastirq k' = lastirq k \<and> tl k' = tl k \<and> (\<forall>xs. runqueue k xs \<longrightarrow> (\<exists>xs'. runqueue k' xs' \<and> set xs \<subseteq> set xs'))"

lemma steady_trans: "steady k k1 \<Longrightarrow> steady k1 k2 \<Longrightarrow> steady k k2"
  unfolding steady_def by (metis subset_trans)

lemma steady_refl [simp]: "steady k k"
  by (auto simp: steady_def)

lemma steady_upd: "\<lbrakk>\<And>t. core (g t) = core t; \<And>t. next_run (g t) = next_run t \<and> prev_run (g t) = prev_run t\<rbrakk> \<Longrightarrow> steady k (Sched.upd i g k)"
  by (auto simp: steady_def runqueue_upd)

lemma core_fields:
  assumes "core t = core u"
  shows "fds t = fds u" "pid t = pid u" "t_kstackm t = t_kstackm u" "t_inode t = t_inode u" "root_i t = root_i u" "pwd_i t = pwd_i u"
    "child_lastend t = child_lastend u" "lastend_status t = lastend_status u" "ppid t = ppid u" "p_parent t = p_parent u"
proof -
  have "h t = h u" if "\<And>t. h (core t) = h t" for h :: "task_struct \<Rightarrow> 'z" using that assms by metis
  note h = this
  show "fds t = fds u" "pid t = pid u" "t_kstackm t = t_kstackm u" "t_inode t = t_inode u" "root_i t = root_i u" "pwd_i t = pwd_i u"
    "child_lastend t = child_lastend u" "lastend_status t = lastend_status u" "ppid t = ppid u" "p_parent t = p_parent u"
    by (rule h; simp add: core_def ident_def)+
qed

definition sib_step :: "'f psys \<Rightarrow> 'f psys \<Rightarrow> bool" where
  "sib_step s s' \<longleftrightarrow> s' = s\<lparr>ks := ks s'\<rparr> \<and> steady (ks s) (ks s')"

lemma sib_refl [simp]: "sib_step s s"
  by (simp add: sib_step_def)

lemma sib_trans: "sib_step s s1 \<Longrightarrow> sib_step s1 s2 \<Longrightarrow> sib_step s s2"
  unfolding sib_step_def by (metis steady_trans psys.surjective psys.update_convs(1))

lemma sib_updp: "sib_step s (updp i (\<lambda>x. x\<lparr>p_nextsib := a\<rparr>) s)" "sib_step s (updp i (\<lambda>x. x\<lparr>p_prevsib := a\<rparr>) s)"
  "sib_step s (updp i (\<lambda>x. x\<lparr>p_child := a\<rparr>) s)"
  by (simp_all add: sib_step_def steady_upd core_def ident_def updp_def)

lemma leave_family_steady: "sib_step s (leave_family p s)"
proof -
  let ?s1 = "case p_prevsib (cur s) of None \<Rightarrow> s | Some t \<Rightarrow> updp t (\<lambda>x. x\<lparr>p_nextsib := p_nextsib (cur s)\<rparr>) s"
  let ?s2 = "case p_nextsib (cur ?s1) of None \<Rightarrow> ?s1 | Some t \<Rightarrow> updp t (\<lambda>x. x\<lparr>p_prevsib := p_prevsib (cur ?s1)\<rparr>) ?s1"
  have "sib_step s ?s1" by (cases "p_prevsib (cur s)") (simp_all add: sib_updp)
  moreover have "sib_step ?s1 ?s2" by (cases "p_nextsib (cur ?s1)") (simp_all add: sib_updp)
  moreover have "sib_step ?s2 (leave_family p s)"
    unfolding leave_family_def Let_def by (simp add: sib_updp split: option.split)
  ultimately show ?thesis by (blast intro: sib_trans)
qed

lemma exit_notify_ok:
  assumes q: "runqueue (ks s) xs" and p: "parent \<noteq> current (ks s)"
  obtains k where "exit_notify parent st s = Inr (s\<lparr>ks := Sched.upd parent (\<lambda>t. t\<lparr>child_lastend := pid (cur s), lastend_status := st\<rparr>) k\<rparr>)"
    "steady (ks s) k"
proof -
  obtain k1 where k1: "leave_family parent s = s\<lparr>ks := k1\<rparr>" "steady (ks s) k1" using leave_family_steady[of s parent] unfolding sib_step_def by blast
  obtain ys where ys: "runqueue k1 ys" "set xs \<subseteq> set ys" using k1(2) q by (auto simp: steady_def)
  let ?pp = "ppid (cur (s\<lparr>ks := k1\<rparr>))"
  obtain r k2 where r: "kill_process ?pp SIGCHLD True k1 = Inr (r, k2)" using kill_sigchld_ring[OF ys(1)] by blast
  have "steady k1 k2" unfolding steady_def
  proof (intro conjI allI impI)
    obtain r' k' xs' where k': "kill_process ?pp SIGCHLD True k1 = Inr (r', k')" "\<forall>i. ident (task k' i) = ident (task k1 i)" "can_tswitch k' = can_tswitch k1" "lastirq k' = lastirq k1"
      using kill_sigchld_ring[OF ys(1)] by blast
    then show "core (task k2 i) = core (task k1 i)" "can_tswitch k2 = can_tswitch k1" "lastirq k2 = lastirq k1" for i using r by (auto simp: core_def)
    show "current k2 = current k1" "tl k2 = tl k1" using kill_sigchld_same[OF r] by simp_all
    show "\<exists>xs'. runqueue k2 xs' \<and> set zs \<subseteq> set xs'" if z: "runqueue k1 zs" for zs
    proof -
      obtain r3 k' xs' where k': "kill_process ?pp SIGCHLD True k1 = Inr (r3, k')" "runqueue k' xs'" "set zs \<subseteq> set xs'"
        using kill_sigchld_ring[OF z, of ?pp True] by blast
      then have "k' = k2" using r by simp
      then show ?thesis using k'(2,3) by blast
    qed
  qed
  then have s2: "steady (ks s) k2" using k1(2) steady_trans by blast
  then have "pid (cur (s\<lparr>ks := k2\<rparr>)) = pid (cur s)" using core_fields(2)[of "task k2 (current (ks s))" "task (ks s) (current (ks s))"] by (simp add: steady_def cur_def)
  then have "exit_notify parent st s = Inr (s\<lparr>ks := Sched.upd parent (\<lambda>t. t\<lparr>child_lastend := pid (cur s), lastend_status := st\<rparr>) k2\<rparr>)"
    unfolding exit_notify_def Let_def k1(1) using r by (simp add: updp_def)
  then show ?thesis using that s2 by blast
qed

lemma exit_switch_ok:
  assumes q: "runqueue (ks s) xs" and c: "current (ks s) \<in> set xs" and m: "t_kstackm (cur s) = KSTACK_MAGIC"
    and t: "tl_next (tl (ks s) 0) = None" and i: "can_tswitch (ks s) \<or> lastirq (ks s) = - 1"
  obtains k where "exit_switch parent s = Inr (s\<lparr>ks := k\<rparr>)" "state (task k (current (ks s))) = TASK_UNUSED" "current k \<noteq> current (ks s)"
    "\<And>i. ident (task k i) = ident (task (ks s) i)"
proof -
  let ?w = "child_wait (task (ks s) parent)" and ?s = "upd_cur (\<lambda>t. t\<lparr>state := TASK_UNUSED\<rparr>) s"
  have q': "runqueue (ks ?s) xs" using q by (simp add: upd_cur_def runqueue_upd)
  let ?ps = "[0..<MAX_TASKS]"
  obtain k where k: "wake_up_queue ?w True (ks ?s) = Inr k" "runqueue k (fold enqueue (filter (\<lambda>p. wakes_task ?w True p (ks ?s)) ?ps) xs)"
      "tasks_map (woken ?w True (ks ?s) ?ps) (ks ?s) k"
    using wake_up_from_ring[OF q', of ?ps ?w True] unfolding wake_up_queue_def by (auto simp: lessThan_atLeast0 simp del: upt.simps)
  note w = wake_up_queue_same[OF k(1)]
  have sub: "set xs \<subseteq> set (fold enqueue ps xs)" for ps by (induction ps arbitrary: xs) (auto simp: enqueue_def, fastforce)
  have id1: "ident (task k i) = ident (task (ks s) i)" for i
  proof -
    have "but_links (task k i) = but_links (woken ?w True (ks ?s) ?ps i (task (ks ?s) i))" using k(3) by (simp add: tasks_map_def)
    from ident_cong[OF this] show ?thesis by (simp add: woken_def cur_def)
  qed
  have cu: "current k = current (ks s)" using w by (simp add: upd_cur_def)
  have "current k \<in> set (fold enqueue (filter (\<lambda>p. wakes_task ?w True p (ks ?s)) ?ps) xs)" using c sub cu by auto
  moreover have "t_kstackm (task k (current k)) = KSTACK_MAGIC"
    using m id1[of "current k"] cu by (metis cur_def ident_def task_struct.select_convs(1) core_fields(3) core_def)
  moreover have u: "state (task k (current k)) = TASK_UNUSED" using w by (simp add: same_procs_def)
  moreover have "tl_next (tl k 0) = None" using w t by (simp add: upd_cur_def)
  moreover have "can_tswitch k \<or> lastirq k = - 1" using k(3) i by (simp add: tasks_map_def upd_cur_def)
  ultimately obtain k' where k': "schedule k = Inr (Switched False, k')" "current k' \<noteq> current k" "\<And>i. but_links (task k' i) = but_links (task k i)"
    using schedule_dead[OF k(2)] by blast
  have "exit_switch parent s = Inr (s\<lparr>ks := k'\<rparr>)"
    unfolding exit_switch_def on_ks_def using k(1) k'(1) by (simp add: upd_cur_def)
  moreover have "state (task k' (current (ks s))) = TASK_UNUSED" using but_links_eqD(1)[OF k'(3)] u cu by simp
  moreover have "ident (task k' i) = ident (task (ks s) i)" for i using ident_cong[OF k'(3)] id1 by simp
  ultimately show ?thesis using that k'(2) cu by simp
qed

definition leaving :: "task_struct \<Rightarrow> task_struct" where
  "leaving t = t\<lparr>fds := (\<lambda>d. if d < NR_OPEN then None else fds t d), state := TASK_EXITING, mm_cseg := 0, mm_dseg := 0\<rparr>"

lemma exit_memory_ok:
  assumes fa: "file_array s = (\<lambda>f. (F f)\<lparr>f_count := f_count (F f) + of_nat (fdrefs (fds (cur s)) f)\<rparr>)"
    and pos: "\<And>f. fdrefs (fds (cur s)) f \<noteq> 0 \<Longrightarrow> 0 < unat (f_count (F f))" and bound: "\<And>f. unat (f_count (F f)) + fdrefs (fds (cur s)) f < 65536"
    and m: "mm_free (mhead s) (mm_cseg (cur s)) = Inr mh3" "mm_free mh3 (mm_dseg (cur s)) = Inr mh4" "mm_cseg (cur s) \<noteq> 0" "mm_dseg (cur s) \<noteq> 0"
  shows "exit_memory rel sop s = Inr ((upd_cur leaving s)\<lparr>file_array := F, mhead := mh4\<rparr>)"
proof -
  let ?ds = "[0..<NR_OPEN]"
  have h: "fd_held s ?ds f = fdrefs (fds (cur s)) f" for f unfolding fd_held_def by (rule filter_fdrefs)
  have u: "unat (f_count (file_array s f)) = unat (f_count (F f)) + fdrefs (fds (cur s)) f" for f
    using bound[of f] by (simp add: fa unat_word_ariths unat_of_nat take_bit_nat_eq_self)
  have p: "fd_held s ?ds f = 0 \<or> fd_held s ?ds f < unat (f_count (file_array s f))" for f unfolding h u using pos[of f] by (cases "fdrefs (fds (cur s)) f = 0") simp_all
  have F: "(\<lambda>f. (file_array s f)\<lparr>f_count := f_count (file_array s f) - of_nat (fd_held s ?ds f)\<rparr>) = F"
    unfolding h by (simp add: fa)
  let ?s = "(upd_cur (\<lambda>t. t\<lparr>fds := \<lambda>d. if d \<in> set ?ds then None else fds t d\<rparr>) s)\<lparr>file_array := F\<rparr>"
  have cl: "close_allfiles rel sop s = Inr ?s"
    using close_list_shared[OF distinct_upt p, of rel sop] unfolding close_allfiles_def F .
  have cu: "cur ?s = (cur s)\<lparr>fds := \<lambda>d. if d \<in> set ?ds then None else fds (cur s) d\<rparr>" unfolding cur_def upd_cur_def by (simp del: upt.simps)
  let ?e = "upd_cur (\<lambda>t. t\<lparr>state := TASK_EXITING\<rparr>) ?s"
  have mh: "mhead ?e = mhead s" by (simp add: upd_cur_def)
  have f1: "free_seg (mm_cseg (cur ?s)) ?e = Inr (?e\<lparr>mhead := mh3\<rparr>)" unfolding free_seg_def mh cu using m(1,3) by simp
  have "mm_dseg (cur (?e\<lparr>mhead := mh3\<rparr>)) = mm_dseg (cur s)" unfolding cur_def upd_cur_def by simp
  then have f2: "free_seg (mm_dseg (cur (?e\<lparr>mhead := mh3\<rparr>))) (?e\<lparr>mhead := mh3\<rparr>) = Inr (?e\<lparr>mhead := mh4\<rparr>)" unfolding free_seg_def using m(2,4) by simp
  have "upd_cur (\<lambda>t. t\<lparr>mm_cseg := 0, mm_dseg := 0\<rparr>) (?e\<lparr>mhead := mh4\<rparr>) = (upd_cur leaving s)\<lparr>file_array := F, mhead := mh4\<rparr>"
    unfolding upd_cur_def Sched.upd_def leaving_def by (simp del: upt.simps)
  then show ?thesis unfolding exit_memory_def cl bindr_simps(2) f1 f2 by (simp only:)
qed

text \<open>A process leaves: its files, its memory and its inodes are shared with others or its own.\<close>

lemma do_exit_ok:
  assumes fa: "file_array s = (\<lambda>f. (F f)\<lparr>f_count := f_count (F f) + of_nat (fdrefs (fds (cur s)) f)\<rparr>)"
    and pos: "\<And>f. fdrefs (fds (cur s)) f \<noteq> 0 \<Longrightarrow> 0 < unat (f_count (F f))" and bound: "\<And>f. unat (f_count (F f)) + fdrefs (fds (cur s)) f < 65536"
    and m: "mm_free (mhead s) (mm_cseg (cur s)) = Inr mh3" "mm_free mh3 (mm_dseg (cur s)) = Inr mh4" "mm_cseg (cur s) \<noteq> 0" "mm_dseg (cur s) \<noteq> 0"
    and v: "vf s = ref1 (pwd_i (cur s)) (ref1 (root_i (cur s)) (ref1 (t_inode (cur s)) v))"
    and h: "inode_held v (t_inode (cur s))" "inode_held v (root_i (cur s))" "inode_held v (pwd_i (cur s))"
    and q: "runqueue (ks s) xs" and c: "current (ks s) \<in> set xs" and k: "t_kstackm (cur s) = KSTACK_MAGIC"
    and t: "tl_next (tl (ks s) 0) = None" and i: "can_tswitch (ks s) \<or> lastirq (ks s) = - 1"
    and p: "p_parent (cur s) = Some parent" "parent \<noteq> current (ks s)"
  shows "\<exists>k'. do_exit rel sop st s = Inr (s\<lparr>file_array := F, mhead := mh4, vf := v, ks := k'\<rparr>) \<and>
    state (task k' (current (ks s))) = TASK_UNUSED \<and> current k' \<noteq> current (ks s) \<and>
    child_lastend (task k' parent) = pid (cur s) \<and> lastend_status (task k' parent) = st \<and>
    (\<forall>j. fds (task k' j) = (if j = current (ks s) then fds (leaving (cur s)) else fds (task (ks s) j)))"
proof -
  let ?s3 = "(upd_cur leaving s)\<lparr>file_array := F, mhead := mh4\<rparr>" and ?me = "current (ks s)"
  have e1: "exit_memory rel sop s = Inr ?s3" by (rule exit_memory_ok[OF fa pos bound m])
  have k3: "ks ?s3 = Sched.upd ?me leaving (ks s)" "cur ?s3 = leaving (cur s)" by (simp_all add: upd_cur_def cur_def)
  have q3: "runqueue (ks ?s3) xs" unfolding k3(1) using q by (simp add: runqueue_upd leaving_def)
  obtain k4 where e2: "exit_notify parent st ?s3 = Inr (?s3\<lparr>ks := Sched.upd parent (\<lambda>t. t\<lparr>child_lastend := pid (cur ?s3), lastend_status := st\<rparr>) k4\<rparr>)"
      and k4: "steady (ks ?s3) k4"
    using exit_notify_ok[OF q3, of parent st] p(2) k3(1) by auto
  let ?k4 = "Sched.upd parent (\<lambda>t. t\<lparr>child_lastend := pid (cur ?s3), lastend_status := st\<rparr>) k4"
  let ?s4 = "?s3\<lparr>ks := ?k4\<rparr>"
  have c4: "current k4 = ?me" "can_tswitch k4 = can_tswitch (ks s)" "lastirq k4 = lastirq (ks s)" "tl k4 = tl (ks s)"
    using k4 by (simp_all add: steady_def k3)
  have co: "core (task k4 j) = core (task (ks ?s3) j)" for j using k4 by (simp add: steady_def)
  have cm: "core (cur ?s4) = core (leaving (cur s))" using co[of ?me] p(2) by (simp add: cur_def c4 k3)
  note f4 = core_fields[OF cm]
  have e3: "exit_inodes sop ?s4 = Inr (?s4\<lparr>vf := v\<rparr>)"
    by (rule exit_inodes_undo[where a = "t_inode (cur s)" and b = "root_i (cur s)" and c = "pwd_i (cur s)"])
      (use v h f4 in \<open>simp_all add: leaving_def upd_cur_def\<close>)
  obtain xs4 where q4: "runqueue k4 xs4" "set xs \<subseteq> set xs4" using k4 q3 by (auto simp: steady_def)
  let ?s5 = "?s4\<lparr>vf := v\<rparr>"
  have q5: "runqueue (ks ?s5) xs4" using q4(1) by (simp add: runqueue_upd)
  obtain k' where e4: "exit_switch parent ?s5 = Inr (?s5\<lparr>ks := k'\<rparr>)" and k': "state (task k' (current (ks ?s5))) = TASK_UNUSED" "current k' \<noteq> current (ks ?s5)"
      "\<And>j. ident (task k' j) = ident (task (ks ?s5) j)"
    using exit_switch_ok[OF q5, of parent] q4(2) c c4 t i f4(3) k by (auto simp: leaving_def)
  have idf: "h (task k' j) = h (task ?k4 j)" if "\<And>t. h (ident t) = h t" for h :: "task_struct \<Rightarrow> 'z" and j
    using that k'(3)[of j] by (metis psys.select_convs(1) psys.surjective psys.update_convs(1,2))
  have fd: "fds (task k' j) = (if j = ?me then fds (leaving (cur s)) else fds (task (ks s) j))" for j
    using idf[of fds j] core_fields(1)[OF co[of j]] by (simp add: ident_def k3 cur_def split: if_splits)
  have "do_exit rel sop st s = Inr (?s5\<lparr>ks := k'\<rparr>)"
    unfolding do_exit_def e1 using e2 e3 e4 p(1) k3(2) by (simp add: deref_def leaving_def)
  moreover have "?s5\<lparr>ks := k'\<rparr> = s\<lparr>file_array := F, mhead := mh4, vf := v, ks := k'\<rparr>" by (simp add: upd_cur_def)
  moreover have "child_lastend (task k' parent) = pid (cur s)" "lastend_status (task k' parent) = st"
    using idf[of child_lastend parent] idf[of lastend_status parent] k3(2) by (simp_all add: ident_def leaving_def)
  ultimately show ?thesis using k' c4 fd by auto
qed

text \<open>A process that can fork: its segments are allocated, its inodes are in use and unlocked, the run
  queue is well formed, and nothing keeps the processor from switching.\<close>

definition fork_ready :: "nat \<Rightarrow> nat \<Rightarrow> nat list \<Rightarrow> 'f psys \<Rightarrow> bool" where
  "fork_ready lo hi xs s \<longleftrightarrow> files_ok s \<and> mm_inv lo hi (mhead s) \<and>
    (\<exists>x\<in>set (segs (mhead s)). sbase x = unat (mm_cseg (cur s)) \<and> \<not> sfree x \<and> sref x < 255) \<and> mm_cseg (cur s) \<noteq> 0 \<and>
    (\<exists>y\<in>set (segs (mhead s)). sbase y = unat (mm_dseg (cur s)) \<and> \<not> sfree y) \<and>
    inode_held (vf s) (t_inode (cur s)) \<and> inode_held (vf s) (root_i (cur s)) \<and> inode_held (vf s) (pwd_i (cur s)) \<and>
    runqueue (ks s) xs \<and> (\<forall>i\<in>set (0 # xs). state (task (ks s) i) \<noteq> TASK_UNUSED) \<and> current (ks s) \<in> live (ks s) \<and>
    tl_next (tl (ks s) 0) = None \<and> (can_tswitch (ks s) \<or> lastirq (ks s) = - 1)"

text \<open>C33: 
  Fork and exit are inverse: a child that is made and ends gives back every reference it got.
  The file table, the inodes and the memory arena are as they were before the fork, the slot of the child
  is free again, no other process lost a descriptor, and the parent has the number and the status of the
  child to collect; the processor is with another task.
\<close>

theorem fork_exit_roundtrip:
  assumes f: "do_fork s = Inr (p, s1)" "0 < p" and r: "fork_ready lo hi xs s"
  shows "\<exists>t s2. pid (task (ks s1) t) = p \<and> do_exit rel sop st (s1\<lparr>ks := (ks s1)\<lparr>current := t\<rparr>\<rparr>) = Inr s2 \<and>
    file_array s2 = file_array s \<and> vf s2 = vf s \<and> segs (mhead s2) = segs (mhead s) \<and> mm_inv lo hi (mhead s2) \<and>
    state (task (ks s2) t) = TASK_UNUSED \<and> current (ks s2) \<noteq> t \<and> (\<forall>i. i \<noteq> t \<longrightarrow> fds (task (ks s2) i) = fds (task (ks s) i)) \<and>
    child_lastend (task (ks s2) (current (ks s))) = p \<and> lastend_status (task (ks s2) (current (ks s))) = st"
proof -
  have ok: "files_ok s" and q: "runqueue (ks s) xs" and l: "\<And>i. i \<in> set (0 # xs) \<Longrightarrow> state (task (ks s) i) \<noteq> TASK_UNUSED"
    and c: "state (cur s) \<noteq> TASK_UNUSED" "current (ks s) \<in> live (ks s)"
    using r by (auto simp: fork_ready_def live_def cur_def)
  obtain t ds x mh mh2 mem where m: "mm_realloc (mhead s) (mm_cseg (cur s)) = Inr (x, mh)" "mm_dup mh (kmem s) (mm_dseg (cur s)) = Inr (ds, mh2, mem)"
    "ds \<noteq> 0" "mhead s1 = mh2" and fk: "forked s s1 t xs" and ch: "child_of s p ds (task (ks s1) t)"
    by (rule fork_child[OF f q l c(1)])
  let ?s = "s1\<lparr>ks := (ks s1)\<lparr>current := t\<rparr>\<rparr>"
  have cs: "cur ?s = task (ks s1) t" by (simp add: cur_def)
  have fd: "fds (cur ?s) = fds (cur s)" using fk by (simp add: cs forked_def)
  obtain mh3 mh4 where f34: "mm_free mh2 (mm_cseg (cur s)) = Inr mh3" "mm_free mh3 ds = Inr mh4" "segs mh4 = segs (mhead s)" "mm_inv lo hi mh4"
  proof -
    obtain x y where "mm_inv lo hi (mhead s)" and x: "x \<in> set (segs (mhead s))" "sbase x = unat (mm_cseg (cur s))" "\<not> sfree x" "sref x < 255"
      and y: "y \<in> set (segs (mhead s))" "sbase y = unat (mm_dseg (cur s))" "\<not> sfree y" using r unfolding fork_ready_def by blast
    from fork_exit_memory[OF this m(1-3)] that show thesis by blast
  qed
  have u: "fdrefs (fds (cur s)) g \<le> unat (f_count (file_array s g))" "unat (f_count (file_array s g)) \<le> 300" for g
    using files_okD[OF ok, of g] open_refs_ge[OF c(2), of g] open_refs_le[of "ks s" g] by (simp_all add: cur_def)
  have b: "unat (f_count (file_array s g)) + fdrefs (fds (cur ?s)) g < 65536" "fdrefs (fds (cur ?s)) g \<noteq> 0 \<Longrightarrow> 0 < unat (f_count (file_array s g))" for g
    using u[of g] unfolding fd by linarith+
  have a: "file_array ?s = (\<lambda>f. (file_array s f)\<lparr>f_count := f_count (file_array s f) + of_nat (fdrefs (fds (cur ?s)) f)\<rparr>)"
    using fk by (simp add: fd forked_def)
  have seg: "mm_free (mhead ?s) (mm_cseg (cur ?s)) = Inr mh3" "mm_free mh3 (mm_dseg (cur ?s)) = Inr mh4" "mm_cseg (cur ?s) \<noteq> 0" "mm_dseg (cur ?s) \<noteq> 0"
    using ch f34 m r by (simp_all add: cs child_of_def fork_ready_def)
  have ino: "vf ?s = ref1 (pwd_i (cur ?s)) (ref1 (root_i (cur ?s)) (ref1 (t_inode (cur ?s)) (vf s)))"
    "inode_held (vf s) (t_inode (cur ?s))" "inode_held (vf s) (root_i (cur ?s))" "inode_held (vf s) (pwd_i (cur ?s))"
    using ch fk r by (simp_all add: cs child_of_def fork_ready_def forked_def)
  have run: "runqueue (ks ?s) (xs @ [t])" "current (ks ?s) \<in> set (xs @ [t])" "t_kstackm (cur ?s) = KSTACK_MAGIC" "tl_next (tl (ks ?s) 0) = None"
    "can_tswitch (ks ?s) \<or> lastirq (ks ?s) = - 1" "p_parent (cur ?s) = Some (current (ks s))" "current (ks s) \<noteq> current (ks ?s)"
    using ch fk r by (simp_all add: cs child_of_def fork_ready_def forked_def runqueue_def)
  from do_exit_ok[OF a b(2,1) seg ino run, of rel sop st]
  obtain k' where k': "do_exit rel sop st ?s = Inr (?s\<lparr>file_array := file_array s, mhead := mh4, vf := vf s, ks := k'\<rparr>)"
    "state (task k' t) = TASK_UNUSED" "current k' \<noteq> t" "child_lastend (task k' (current (ks s))) = p" "lastend_status (task k' (current (ks s))) = st"
    "\<And>j. j \<noteq> t \<Longrightarrow> fds (task k' j) = fds (task (ks s) j)"
    using fk ch by (auto simp: cs forked_def child_of_def)
  have "pid (task (ks s1) t) = p" using ch by (simp add: child_of_def)
  with k' f34(3,4) show ?thesis by (intro exI[of _ t] exI[of _ "?s\<lparr>file_array := file_array s, mhead := mh4, vf := vf s, ks := k'\<rparr>"]) simp
qed

section \<open>Every outcome of a fork\<close>

lemma share_spec_fits:
  assumes "share_spec xs c ys"
  shows "(\<exists>z\<in>set ys. fits n z) \<longleftrightarrow> (\<exists>z\<in>set xs. fits n z)" "length ys = length xs"
proof -
  obtain pre x post where x: "xs = pre @ x # post" "\<not> sfree x" "ys = pre @ x\<lparr>sref := Suc (sref x)\<rparr> # post"
    using assms by (auto simp: share_spec_def)
  then show "(\<exists>z\<in>set ys. fits n z) \<longleftrightarrow> (\<exists>z\<in>set xs. fits n z)" "length ys = length xs" by (auto simp: fits_def)
qed

lemma mm_dup_outcome:
  assumes inv: "mm_inv lo hi mh" "mm_tidy mh" "length (segs mh) < mh_size mh" and x: "x \<in> set (segs mh)" "sbase x = unat b" "\<not> sfree x"
  shows "if \<exists>y\<in>set (segs mh). fits (sext x) y then \<exists>r mh' mem'. mm_dup mh mem b = Inr (r, mh', mem') \<and> r \<noteq> 0 else mm_dup mh mem b = Inr (0, mh, mem)"
proof -
  define e where "e = (of_nat (sext x) :: u16)"
  have ex: "0 < sext x" "sext x < 65536" using tiles_mem[OF _ x(1), of lo hi] inv(1) by (auto simp: mm_inv_def)
  then have e: "unat e = sext x" "e \<noteq> 0" by (auto simp: e_def of_nat_u16_eq_0)
  note dup = mm_dup_alloc[OF inv(1) x e(1), of mem]
  from inv(1) e(2) show ?thesis
  proof (rule mm_alloc_outcome)
    assume "alloc_hole mh = Inl (Panic ''mm: too many holes'')"
    then show ?thesis using spare_exists[OF inv] by simp
  next
    fix r mh' assume a: "mm_alloc mh e = Inr (r, mh')" "r \<noteq> 0" "alloc_spec (segs mh) (unat e) (unat r) (segs mh')"
    then have "\<exists>y\<in>set (segs mh). fits (sext x) y" using e by (auto simp: alloc_spec_def)
    then show ?thesis using a dup by simp
  qed (use dup e in auto)
qed

lemma fork_memory:
  assumes inv: "mm_inv lo hi mh" "mm_tidy mh" "length (segs mh) < mh_size mh" and x: "x \<in> set (segs mh)" "sbase x = unat c" "\<not> sfree x" "sref x < 255"
    and y: "y \<in> set (segs mh)" "sbase y = unat d" "\<not> sfree y"
  obtains mh1 where "mm_realloc mh c = Inr (c, mh1)" "\<exists>z\<in>set (segs mh). fits (sext y) z" "\<exists>r mh2 mem2. mm_dup mh1 mem d = Inr (r, mh2, mem2) \<and> r \<noteq> 0"
  | mh1 mh2 where "mm_realloc mh c = Inr (c, mh1)" "\<not> (\<exists>z\<in>set (segs mh). fits (sext y) z)" "mm_dup mh1 mem d = Inr (0, mh1, mem)" "mm_free mh1 c = Inr mh2" "segs mh2 = segs mh"
proof -
  have wf: "tiles lo (segs mh) hi" "counted (segs mh)" using inv by (auto simp: mm_inv_def)
  obtain mh1 where m: "mm_realloc mh c = Inr (c, mh1)" "share_spec (segs mh) (unat c) (segs mh1)" "mm_inv lo hi mh1" "mm_tidy mh1" "mh_size mh1 = mh_size mh"
    using mm_realloc_ok[OF inv(1) x] inv(2) by blast
  obtain z where z: "z \<in> set (segs mh1)" "sbase z = unat d" "\<not> sfree z" "sext z = sext y"
    using share_spec_mem[OF m(2) y(1,3) wf(1)] y(2) by metis
  have l: "length (segs mh1) < mh_size mh1" using inv(3) m(5) share_spec_fits(2)[OF m(2)] by simp
  have dup: "if \<exists>y'\<in>set (segs mh). fits (sext y) y' then \<exists>r mh2 mem2. mm_dup mh1 mem d = Inr (r, mh2, mem2) \<and> r \<noteq> 0 else mm_dup mh1 mem d = Inr (0, mh1, mem)"
    using mm_dup_outcome[OF m(3,4) l z(1-3), of mem] unfolding z(4) share_spec_fits(1)[OF m(2)] .
  obtain x' where x': "x' \<in> set (segs mh1)" "sbase x' = unat c" "\<not> sfree x'" using share_spec_mem[OF m(2) x(1,3) wf(1)] x(2) by metis
  obtain mh2 where f: "mm_free mh1 c = Inr mh2" "free_spec (segs mh1) (unat c) (segs mh2)" using mm_free_ok[OF m(3) x'] by blast
  then have "segs mh2 = segs mh" using share_free_inverse[OF m(2) f(2) wf] by simp
  then show ?thesis using that m(1) dup f(1) by (auto split: if_splits)
qed

text \<open>The memory a child needs: a segment for its data, and a spare descriptor of a segment.\<close>

definition fork_room :: "'f psys \<Rightarrow> nat \<Rightarrow> bool" where
  "fork_room s n \<longleftrightarrow> mm_tidy (mhead s) \<and> length (segs (mhead s)) < mh_size (mhead s) \<and>
    (\<exists>y\<in>set (segs (mhead s)). sbase y = unat (mm_dseg (cur s)) \<and> \<not> sfree y \<and> sext y = n)"

lemma fork_readyD:
  assumes "fork_ready lo hi xs s"
  obtains x where "x \<in> set (segs (mhead s))" "sbase x = unat (mm_cseg (cur s))" "\<not> sfree x" "sref x < 255" "mm_inv lo hi (mhead s)"
    "runqueue (ks s) xs" "\<forall>i\<in>set (0 # xs). state (task (ks s) i) \<noteq> TASK_UNUSED" "state (cur s) \<noteq> TASK_UNUSED"
  using assms by (auto simp: fork_ready_def live_def cur_def)

lemma fork_made:
  assumes r: "fork_ready lo hi xs s" "fork_room s n" "unat (last_pid s) \<le> 32767" and z: "\<exists>z\<in>set (segs (mhead s)). fits n z"
    and f: "\<not> find_empty_process s < 0" and t: "t = nat (find_empty_process s)"
  shows "\<exists>p s'. do_fork s = Inr (p, s') \<and> 0 < p \<and> runqueue (ks s') (xs @ [t]) \<and> pid (task (ks s') t) = p \<and> state (task (ks s') t) = TASK_RUNNING \<and>
        (\<forall>i<MAX_TASKS. i \<noteq> t \<longrightarrow> p \<notin> {pid (task (ks s) i), pgrp (task (ks s) i), session (task (ks s) i)})"
proof -
  obtain x where x: "x \<in> set (segs (mhead s))" "sbase x = unat (mm_cseg (cur s))" "\<not> sfree x" "sref x < 255" "mm_inv lo hi (mhead s)"
    "runqueue (ks s) xs" "\<forall>i\<in>set (0 # xs). state (task (ks s) i) \<noteq> TASK_UNUSED" "state (cur s) \<noteq> TASK_UNUSED"
    by (rule fork_readyD[OF r(1)])
  obtain y where y: "mm_tidy (mhead s)" "length (segs (mhead s)) < mh_size (mhead s)" "y \<in> set (segs (mhead s))" "sbase y = unat (mm_dseg (cur s))" "\<not> sfree y" "sext y = n"
    using r(2) by (auto simp: fork_room_def)
  note ev = do_fork_eq[OF f t]
  have u: "t < MAX_TASKS" "state (task (ks s) t) = TASK_UNUSED" using find_empty_process_slot[of s] f t by auto
  obtain mh1 d mh2 mem2 where a: "mm_realloc (mhead s) (mm_cseg (cur s)) = Inr (mm_cseg (cur s), mh1)" and d: "mm_dup mh1 (kmem s) (mm_dseg (cur s)) = Inr (d, mh2, mem2)" "d \<noteq> 0"
    using fork_memory[OF x(5) y(1,2) x(1-4) y(3-5), of "kmem s"] z y(6) by metis
  let ?s1 = "fork_slot t (cur s) d d TASK_UNINTERRUPTIBLE (s\<lparr>mhead := mh2, kmem := mem2\<rparr>)"
  have "unat (last_pid ?s1) \<le> 32767" using r(3) by (simp add: fork_slot_def)
  from get_pid_ok[OF this] obtain p where p: "get_pid ?s1 = Inr (sint p, ?s1\<lparr>last_pid := p\<rparr>)" "1 \<le> unat p" "unat p \<le> 32767" "\<not> pid_taken p ?s1" .
  let ?f = "fork_setup t (sint p) (?s1\<lparr>last_pid := p\<rparr>)"
  have me: "current (ks ?s1) \<noteq> t" using x(8) u by (auto simp: cur_def fork_slot_def)
  have qf: "runqueue (ks ?f) xs"
    by (rule runqueue_cong[OF x(6)]) (use me u x(7) runqueueD(3)[OF x(6)] in \<open>auto simp: fork_setup_task fork_slot_def\<close>)
  obtain k where k: "wake_up_process t (ks ?f) = Inr k" "runqueue k (enqueue t xs)" "tasks_map (\<lambda>i t'. if i = t then t'\<lparr>state := TASK_RUNNING\<rparr> else t') (ks ?f) k"
    using wake_up_process_ring[OF qf u(1)] by blast
  have b: "but_links (task k t) = but_links ((task (ks ?f) t)\<lparr>state := TASK_RUNNING\<rparr>)" using k(3) by (simp add: tasks_map_def)
  have "pid (task (ks ?f) t) = sint p" using fork_setup_task(1)[of "?s1\<lparr>last_pid := p\<rparr>" t "sint p" t] me by simp
  then have pk: "pid (task k t) = sint p" "state (task k t) = TASK_RUNNING" using but_links_eqD(1)[OF b] arg_cong[where f = pid, OF b] by (simp_all add: but_links_def)
  have e: "enqueue t xs = xs @ [t]" using x(7) u by (cases "t = 0") (auto simp: enqueue_def)
  have fr: "sint p \<notin> {pid (task (ks s) i), pgrp (task (ks s) i), session (task (ks s) i)}" if "i < MAX_TASKS" "i \<noteq> t" for i
  proof -
    have "i \<in> set [0..<MAX_TASKS]" "task (ks ?s1) i = task (ks s) i" using that by (auto simp: fork_slot_def simp del: upt.simps)
    then show ?thesis using p(4) unfolding pid_taken_def list_ex_iff by (metis insertE empty_iff)
  qed
  have "0 < sint p" using sint_small[of "unat p"] p(2,3) by (simp add: word_less_def[symmetric] word_gt_0) (metis uint_nat of_nat_0_less_iff Suc_le_lessD)
  moreover have "do_fork s = Inr (sint p, ?f\<lparr>ks := k\<rparr>)" unfolding ev using a d p(1) k(1) pk(1) by (simp add: on_ks_def)
  ultimately show ?thesis
    using k(2) pk fr unfolding e by (intro exI[of _ "sint p"] exI[of _ "?f\<lparr>ks := k\<rparr>"]) simp
qed

lemma fork_nomem:
  assumes r: "fork_ready lo hi xs s" "fork_room s n" and z: "\<not> (\<exists>z\<in>set (segs (mhead s)). fits n z)"
    and f: "\<not> find_empty_process s < 0" and t: "t = nat (find_empty_process s)"
  shows "\<exists>s'. do_fork s = Inr (- ENOMEM, s') \<and> segs (mhead s') = segs (mhead s) \<and> kmem s' = kmem s \<and> file_array s' = file_array s \<and> vf s' = vf s \<and>
        (\<forall>i. i \<noteq> t \<longrightarrow> task (ks s') i = task (ks s) i) \<and>
        task (ks s') t = (cur s)\<lparr>child_wait := child_wait (task (ks s) t), mm_dseg := 0, state := TASK_UNUSED\<rparr>"
proof -
  obtain x where x: "x \<in> set (segs (mhead s))" "sbase x = unat (mm_cseg (cur s))" "\<not> sfree x" "sref x < 255" "mm_inv lo hi (mhead s)"
    using fork_readyD[OF r(1)] by metis
  obtain y where y: "mm_tidy (mhead s)" "length (segs (mhead s)) < mh_size (mhead s)" "y \<in> set (segs (mhead s))" "sbase y = unat (mm_dseg (cur s))" "\<not> sfree y" "sext y = n"
    using r(2) by (auto simp: fork_room_def)
  obtain mh1 mh2 where a: "mm_realloc (mhead s) (mm_cseg (cur s)) = Inr (mm_cseg (cur s), mh1)"
      "mm_dup mh1 (kmem s) (mm_dseg (cur s)) = Inr (0, mh1, kmem s)" "mm_free mh1 (mm_cseg (cur s)) = Inr mh2" "segs mh2 = segs (mhead s)"
    using fork_memory[OF x(5) y(1,2) x(1-4) y(3-5), of "kmem s"] z y(6) by metis
  then have "do_fork s = Inr (- ENOMEM, fork_slot t (cur s) 0 (t_ds (cur s)) TASK_UNUSED (s\<lparr>mhead := mh2, kmem := kmem s\<rparr>))" unfolding do_fork_eq[OF f t] by simp
  then show ?thesis using a(4) by (simp add: fork_slot_def)
qed

text \<open>C34: \<^verbatim>\<open>do_fork\<close> on every branch: with no slot to spare it returns -EAGAIN and changes nothing; if no
  free segment can hold the data segment it returns -ENOMEM, memory, files, inodes and the other
  tasks are as before, but the slot chosen for the child is left as a copy of the parent, its
  process number included, marked unused and without a data segment; otherwise it returns the
  number of the child, positive and different from the number, group and session of every other
  task, and the child is runnable.\<close>

theorem fork_outcome:
  assumes "fork_ready lo hi xs s" and "fork_room s n" and "unat (last_pid s) \<le> 32767"
  shows "if find_empty_process s < 0 then do_fork s = Inr (- EAGAIN, s)
    else let t = nat (find_empty_process s) in
      if \<exists>z\<in>set (segs (mhead s)). fits n z
      then \<exists>p s'. do_fork s = Inr (p, s') \<and> 0 < p \<and> runqueue (ks s') (xs @ [t]) \<and> pid (task (ks s') t) = p \<and> state (task (ks s') t) = TASK_RUNNING \<and>
        (\<forall>i<MAX_TASKS. i \<noteq> t \<longrightarrow> p \<notin> {pid (task (ks s) i), pgrp (task (ks s) i), session (task (ks s) i)})
      else \<exists>s'. do_fork s = Inr (- ENOMEM, s') \<and> segs (mhead s') = segs (mhead s) \<and> kmem s' = kmem s \<and> file_array s' = file_array s \<and> vf s' = vf s \<and>
        (\<forall>i. i \<noteq> t \<longrightarrow> task (ks s') i = task (ks s) i) \<and>
        task (ks s') t = (cur s)\<lparr>child_wait := child_wait (task (ks s) t), mm_dseg := 0, state := TASK_UNUSED\<rparr>"
proof (cases "find_empty_process s < 0")
  case True
  then have "find_empty_process s = - EAGAIN" by (auto simp: find_empty_process_def Let_def simp del: upt.simps split: if_splits)
  then show ?thesis by (simp add: do_fork_def)
next
  case False
  show ?thesis
  proof (cases "\<exists>z\<in>set (segs (mhead s)). fits n z")
    case True
    show ?thesis unfolding Let_def if_not_P[OF False] if_P[OF True] by (rule fork_made[OF assms True False refl])
  next
    case no: False
    show ?thesis unfolding Let_def if_not_P[OF False] if_not_P[OF no] by (rule fork_nomem[OF assms(1,2) no False refl])
  qed
qed

section \<open>Examples\<close>

lemma one_proc_ready:
  assumes "mm_inv 0x1000 0x9000 mh" "segs mh = carve 0x40 \<lparr>sbase = 0x1000, sext = 0x8000, sfree = True, sref = 0\<rparr>"
  shows "fork_ready 0x1000 0x9000 [4, 7] (one_proc mh)"
proof -
  have q: "runqueue (ks (one_proc mh)) [4, 7]" using two_runqueue by (simp add: one_proc_def runqueue_upd)
  have i: "inode_held (vf (one_proc mh)) 5" by (simp add: one_proc_def inode_held_def one_file_facts place_def empty_ino_def)
  have "mhead (one_proc mh) = mh" by (simp add: one_proc_def)
  moreover have "current (ks (one_proc mh)) \<in> live (ks (one_proc mh))" unfolding one_proc_live by (simp add: one_proc_def two_sys_def)
  moreover have "tl_next (tl (ks (one_proc mh)) 0) = None" "can_tswitch (ks (one_proc mh))" by (simp_all add: one_proc_def two_sys_def)
  moreover have "\<forall>i\<in>set [0, 4, 7]. state (task (ks (one_proc mh)) i) \<noteq> TASK_UNUSED" by (simp add: one_proc_def two_sys_def idle_task_def)
  ultimately show ?thesis using q i assms one_proc_files by (simp add: fork_ready_def one_proc_cur carve_def)
qed

lemma one_proc_slot: "find_empty_process (one_proc mh) = 14"
  by (simp add: find_empty_process_def one_proc_cur one_proc_def two_sys_def idle_task_def upt_rec)

lemma one_proc_map:
  obtains mh where "mm_alloc boot_map 0x40 = Inr (0x1000, mh)" "fork_ready 0x1000 0x9000 [4, 7] (one_proc mh)" "fork_room (one_proc mh) 0x40"
    "\<exists>z\<in>set (segs (mhead (one_proc mh))). fits 0x40 z"
proof -
  obtain mh where mh: "mm_alloc boot_map 0x40 = Inr (0x1000, mh)" "mm_inv 0x1000 0x9000 mh" "mm_tidy mh"
    "segs mh = carve 0x40 \<lparr>sbase = 0x1000, sext = 0x8000, sfree = True, sref = 0\<rparr>"
    by (rule boot_alloc[of "0x40"]) auto
  have "mm_step boot_map mh" using mh(1) by (intro step_alloc[of "0x40"]) simp_all
  then have sz: "mh_size mh = MAX_SEGMENTS" using mm_step_ok[OF _ boot_map_ok(1,2)] boot_map_ok(3) by simp
  have h: "mhead (one_proc mh) = mh" by (simp add: one_proc_def)
  have "fork_room (one_proc mh) 0x40" using mh(3,4) sz by (simp add: fork_room_def h one_proc_cur carve_def)
  moreover have "\<exists>z\<in>set (segs (mhead (one_proc mh))). fits 0x40 z" by (simp add: h mh(4) carve_def fits_def)
  ultimately show ?thesis using that mh(1) one_proc_ready[OF mh(2,4)] by blast
qed

theorem fork_outcome_witness:
  "\<exists>mh p s'. mm_alloc boot_map 0x40 = Inr (0x1000, mh) \<and> do_fork (one_proc mh) = Inr (p, s') \<and> 0 < p \<and> runqueue (ks s') [4, 7, 14]"
proof -
  obtain mh where mh: "mm_alloc boot_map 0x40 = Inr (0x1000, mh)" "fork_ready 0x1000 0x9000 [4, 7] (one_proc mh)" "fork_room (one_proc mh) 0x40"
    "\<exists>z\<in>set (segs (mhead (one_proc mh))). fits 0x40 z" by (rule one_proc_map)
  have "unat (last_pid (one_proc mh)) \<le> 32767" by (simp add: one_proc_def)
  from fork_outcome[OF mh(2,3) this] mh(4) have "\<exists>p s'. do_fork (one_proc mh) = Inr (p, s') \<and> 0 < p \<and> runqueue (ks s') ([4, 7] @ [14])"
    by (auto simp: one_proc_slot)
  then show ?thesis using mh(1) by auto
qed

theorem fork_exit_roundtrip_witness:
  "\<exists>mh p s1 t s2. mm_alloc boot_map 0x40 = Inr (0x1000, mh) \<and> do_fork (one_proc mh) = Inr (p, s1) \<and>
     do_exit (releases None) minix_sops 256 (s1\<lparr>ks := (ks s1)\<lparr>current := t\<rparr>\<rparr>) = Inr s2 \<and> f_count (file_array s2 3) = 1 \<and>
     segs (mhead s2) = segs mh \<and> child_lastend (task (ks s2) 7) = p \<and> lastend_status (task (ks s2) 7) = 256"
proof -
  obtain mh where mh: "mm_alloc boot_map 0x40 = Inr (0x1000, mh)" "fork_ready 0x1000 0x9000 [4, 7] (one_proc mh)" "fork_room (one_proc mh) 0x40"
    "\<exists>z\<in>set (segs (mhead (one_proc mh))). fits 0x40 z" by (rule one_proc_map)
  have "unat (last_pid (one_proc mh)) \<le> 32767" "\<not> find_empty_process (one_proc mh) < 0" by (simp_all add: one_proc_slot one_proc_def[of mh, THEN arg_cong[where f = last_pid]])
  from fork_made[OF mh(2,3) this(1) mh(4) this(2) refl] obtain p s1 where f: "do_fork (one_proc mh) = Inr (p, s1)" "0 < p" by blast
  have "current (ks (one_proc mh)) = 7" "f_count (file_array (one_proc mh) 3) = 1" "mhead (one_proc mh) = mh" by (simp_all add: one_proc_def two_sys_def)
  with fork_exit_roundtrip[OF f mh(2), of "releases None" minix_sops 256] f(1) mh(1) show ?thesis by metis
qed

end
