(* ===== verification/FileIO.thy ===== *)
theory FileIO
  imports FileRefs
begin

text \<open>
  Reading and writing through descriptors: the file operations of the Minix file system as columns
  of Files, and the system calls write, lseek and read composed over them.
\<close>

section \<open>The columns of the Minix file system\<close>

text \<open>The entries of \<^verbatim>\<open>minix_file_operations\<close>; the functions of the other tables are arguments.\<close>

definition minix_reads :: "minix_fs read_col \<Rightarrow> minix_fs read_col" where
  "minix_reads other t =
    (case t of
       Minix_file_fops \<Rightarrow> Some (\<lambda>i f count s.
         bindr (deref (i_sb (islot (vf s) i))) (\<lambda>b.
         bindr (minix_file_read (islot (vf s) i) (file_array s f) count (s_fs (supers (vf s) b))) (\<lambda>(r, fp, bytes).
           Inr (r, bytes, updf f (\<lambda>_. fp) s))))
     | _ \<Rightarrow> other t)"

definition minix_writes :: "minix_fs write_col \<Rightarrow> minix_fs write_col" where
  "minix_writes other t =
    (case t of
       Minix_file_fops \<Rightarrow> Some (\<lambda>i f data count s.
         bindr (deref (i_sb (islot (vf s) i))) (\<lambda>b.
         bindr (minix_file_write (islot (vf s) i) (file_array s f) data count (s_fs (supers (vf s) b))) (\<lambda>(r, n, fp, fs).
           Inr (r, updf f (\<lambda>_. fp) (s\<lparr>vf := set_fs b fs (Icache.upd i (\<lambda>_. n) (vf s))\<rparr>)))))
     | _ \<Rightarrow> other t)"

text \<open>Both files of the table have no \<^verbatim>\<open>lseek\<close>.\<close>

definition minix_lseeks :: "minix_fs lseek_col \<Rightarrow> minix_fs lseek_col" where
  "minix_lseeks other t = (case t of Minix_file_fops \<Rightarrow> None | Minix_dir_fops \<Rightarrow> None | _ \<Rightarrow> other t)"

text \<open>Nobody touches the inodes, the open files and the caller's descriptors and memory while the caller is off the processor.\<close>

definition calm :: "('f psys \<Rightarrow> 'f psys kres) \<Rightarrow> bool" where
  "calm sched \<longleftrightarrow> (\<forall>s. \<exists>s'. sched s = Inr s' \<and> vf s' = vf s \<and> file_array s' = file_array s \<and> fds (cur s') = fds (cur s) \<and>
     t_ds (cur s') = t_ds (cur s) \<and> t_endseg (cur s') = t_endseg (cur s) \<and> kernel_ds s' = kernel_ds s)"

text \<open>A descriptor of the current process for reading and writing a regular file of the Minix file system.\<close>

definition fd_regular :: "u16 \<Rightarrow> nat \<Rightarrow> nat \<Rightarrow> nat \<Rightarrow> minix_fs psys \<Rightarrow> bool" where
  "fd_regular fd f i b s \<longleftrightarrow> unat fd < NR_OPEN \<and> fds (cur s) (unat fd) = Some f \<and> f_inode (file_array s f) = Some i \<and>
    f_op (file_array s f) = Some Minix_file_fops \<and> f_mode (file_array s f) AND 1 \<noteq> 0 \<and> f_mode (file_array s f) AND 2 \<noteq> 0 \<and>
    f_flags (file_array s f) AND O_APPEND = 0 \<and> i_sb (islot (vf s) i) = Some b \<and> S_ISREG (i_mode (islot (vf s) i))"

lemma fd_check_ok:
  assumes "fd_regular fd f i b s" "verify_area buf count s = 0" "rw = 1 \<or> rw = 2"
  shows "fd_check fd buf count rw s = Inr f"
  using assms by (auto simp: fd_check_def fd_regular_def)

lemma S_ISREG_setid: "S_ISREG (m AND NOT (S_ISUID OR S_ISGID)) = S_ISREG m"
proof -
  have "(m AND NOT (S_ISUID OR S_ISGID)) AND 0xF000 = m AND 0xF000" unfolding and.assoc by (rule arg_cong2[where f = "(AND)"]) simp_all
  then show ?thesis by (simp add: S_ISREG_def)
qed

text \<open>The inode a write works on: the set-id bits go if the writer is not privileged.\<close>

definition written_inode :: "nat \<Rightarrow> 'f psys \<Rightarrow> minode" where
  "written_inode i s = (let n = islot (vf s) i in
     if \<not> suser (ks s) \<and> i_mode n AND (S_ISUID OR S_ISGID) \<noteq> 0 then n\<lparr>i_mode := i_mode n AND NOT (S_ISUID OR S_ISGID)\<rparr> else n)"

lemma sys_write_minix:
  assumes fd: "fd_regular fd f i b s" and v: "verify_area buf count s = 0" and c: "count \<noteq> 0" "calm sched"
    and w: "minix_file_write (written_inode i s) (file_array s f) data count (s_fs (supers (vf s) b)) = Inr (r, n, fp, fs)"
  obtains s' where "sys_write (minix_writes wr) sched fd buf data count s = Inr (r, s')"
    "vf s' = set_fs b fs (Icache.upd i (\<lambda>_. n) (vf s))" "file_array s' = (file_array s)(f := fp)" "fds (cur s') = fds (cur s)"
    "verify_area p l s' = verify_area p l s"
proof -
  let ?s = "if \<not> suser (ks s) \<and> i_mode (islot (vf s) i) AND (S_ISUID OR S_ISGID) \<noteq> 0
            then s\<lparr>vf := Icache.upd i (\<lambda>n. n\<lparr>i_mode := i_mode n AND NOT (S_ISUID OR S_ISGID)\<rparr>) (vf s)\<rparr> else s"
  let ?t = "updf f (\<lambda>_. fp) (s\<lparr>vf := set_fs b fs (Icache.upd i (\<lambda>_. n) (vf s))\<rparr>)"
  have e: "islot (vf ?s) i = written_inode i s" "file_array ?s = file_array s" "supers (vf ?s) = supers (vf s)"
    "updf f (\<lambda>_. fp) (?s\<lparr>vf := set_fs b fs (Icache.upd i (\<lambda>_. n) (vf ?s))\<rparr>) = ?t" "i_sb (written_inode i s) = i_sb (islot (vf s) i)"
    by (auto simp: written_inode_def Let_def Icache.upd_def set_fs_def updf_def)
  obtain s' where s': "sched ?t = Inr s'" "vf s' = vf ?t" "file_array s' = file_array ?t" "fds (cur s') = fds (cur ?t)" "t_ds (cur s') = t_ds (cur ?t)"
    "t_endseg (cur s') = t_endseg (cur ?t)" "kernel_ds s' = kernel_ds ?t" using c(2) unfolding calm_def by blast
  have d: "f_op (file_array s f) = Some Minix_file_fops" "f_inode (file_array s f) = Some i" "i_sb (islot (vf s) i) = Some b" using fd by (auto simp: fd_regular_def)
  have k: "kernel_ds ?t = kernel_ds s" "cur ?t = cur s" by (simp_all add: updf_def cur_def)
  have o: "the (minix_writes wr Minix_file_fops) i f data count ?s = Inr (r, ?t)"
  proof (cases "\<not> suser (ks s) \<and> i_mode (islot (vf s) i) AND (S_ISUID OR S_ISGID) \<noteq> 0")
    case True
    show ?thesis unfolding if_P[OF True] using w[unfolded e(1)[symmetric], unfolded if_P[OF True]] e(2-4)[unfolded if_P[OF True]] d(3)
      by (simp add: minix_writes_def deref_def Icache.upd_def)
  next
    case False
    show ?thesis unfolding if_not_P[OF False] using w[unfolded e(1)[symmetric], unfolded if_not_P[OF False]] d(3)
      by (simp add: minix_writes_def deref_def)
  qed
  obtain op where p: "minix_writes wr Minix_file_fops = Some op" by (simp add: minix_writes_def)
  have "sys_write (minix_writes wr) sched fd buf data count s = bindr (op i f data count ?s) (\<lambda>(r, s). bindr (sched s) (\<lambda>s. Inr (r, s)))"
    unfolding sys_write_def fd_check_ok[OF fd v, of 2, simplified] using c(1) d by (simp only: p deref_def option.case bindr_simps sum.case Let_def if_False)
  then have "sys_write (minix_writes wr) sched fd buf data count s = Inr (r, s')" using o s'(1) by (simp add: p del: if_split)
  moreover have "file_array s' = (file_array s)(f := fp)" using s'(3) by (simp add: updf_def)
  moreover have "verify_area p l s' = verify_area p l s" using s'(5-7) k by (simp add: verify_area_def)
  ultimately show ?thesis using that s'(2,4) k by simp
qed

lemma map_izone_sb: "map_izone n k c fs = Inr (z, n', fs') \<Longrightarrow> i_sb n' = i_sb n"
  by (auto simp: map_izone_def Let_def bindr_Inr_iff split: if_splits)

lemma minix_bmap_sb:
  assumes "minix_bmap n k c fs = Inr (z, n', fs')"
  shows "i_sb n' = i_sb n"
proof -
  consider "k < 7" | "\<not> k < 7" "k - 7 < 512" | "\<not> k < 7" "\<not> k - 7 < 512" by blast
  then have "\<exists>m z fs'. map_izone n m c fs = Inr (z, n', fs')"
    by cases (use assms in \<open>auto simp: minix_bmap_def Let_def bindr_Inr_iff split: if_splits\<close>)
  then show ?thesis using map_izone_sb by blast
qed

lemma write_loop_sb: "write_loop_blocks k n pos wr count data fs = Inr (r, p', n', fs') \<Longrightarrow> i_sb n' = i_sb n"
proof (induction k arbitrary: n pos wr data fs)
  case (Suc k)
  show ?case
  proof (cases "wr < count")
    case True
    then obtain z n1 fs1 where b: "minix_bmap n (ucast (signed_drop_bit 10 pos)) True fs = Inr (z, n1, fs1)" using Suc.prems by (auto simp: bindr_Inr_iff)
    then have "i_sb n1 = i_sb n" by (rule minix_bmap_sb)
    then show ?thesis using Suc.prems True b Suc.IH[of n1] by (auto simp: Let_def split: if_splits)
  qed (use Suc.prems in simp)
qed (simp split: if_splits)

lemma minix_file_write_keeps:
  assumes "minix_file_write n filp buf count fs = Inr (r, n', filp', fs')"
  shows "i_sb n' = i_sb n" "filp' = filp\<lparr>f_pos := f_pos filp'\<rparr>"
  using assms by (auto simp: minix_file_write_def Let_def bindr_Inr_iff dest: write_loop_sb split: if_splits)

lemma sint_u32_pos: "unat (p :: u32) \<le> 67108864 \<Longrightarrow> \<not> sint p < 0"
  by (simp add: sint_u32)

lemma verify_area_updf: "verify_area p l (updf f g s) = verify_area p l s"
proof -
  have "kernel_ds (updf f g s) = kernel_ds s" by (simp add: updf_def)
  then show ?thesis by (simp add: verify_area_def)
qed

lemma sys_lseek_set:
  assumes "fd_regular fd f i b s" "\<not> sint pos < 0"
  shows "sys_lseek (minix_lseeks l) fd pos 0 s = Inr (0, Some pos, updf f (\<lambda>f. f\<lparr>f_pos := pos\<rparr>) s)"
  using assms by (auto simp: sys_lseek_def fd_regular_def minix_lseeks_def Let_def updf_def)

lemma sys_read_minix:
  assumes fd: "fd_regular fd f i b s" and v: "verify_area buf count s = 0" and c: "count \<noteq> 0" "calm sched"
    and r: "minix_file_read (islot (vf s) i) (file_array s f) count (s_fs (supers (vf s) b)) = Inr (r, fp, bytes)"
  obtains s' where "sys_read (minix_reads rd) sched fd buf count s = Inr (r, bytes, s')" "vf s' = vf s" "file_array s' = (file_array s)(f := fp)"
proof -
  let ?t = "updf f (\<lambda>_. fp) s"
  obtain s' where s': "sched ?t = Inr s'" "vf s' = vf ?t" "file_array s' = file_array ?t" using c(2) unfolding calm_def by blast
  have d: "f_op (file_array s f) = Some Minix_file_fops" "f_inode (file_array s f) = Some i" "i_sb (islot (vf s) i) = Some b" using fd by (auto simp: fd_regular_def)
  have "sys_read (minix_reads rd) sched fd buf count s = Inr (r, bytes, s')"
    unfolding sys_read_def using fd_check_ok[OF fd v, of 1] c(1) d r s'(1) by (simp add: minix_reads_def deref_def)
  then show ?thesis using that s' by (simp add: updf_def)
qed

text \<open>C32: 
  Through the system calls: when \<^verbatim>\<open>write\<close> on a descriptor of a regular Minix file reports that it wrote the whole
  buffer, then after \<^verbatim>\<open>lseek\<close> back to where the file position was, \<^verbatim>\<open>read\<close> of that many bytes returns them,
  and the descriptor is left where the write had left it. The set-id bits of the file, which a write by an unprivileged process clears, play no part.
\<close>

theorem fd_write_seek_read:
  assumes fd: "fd_regular fd f i b s" and c: "calm sched" "count \<noteq> 0" "unat count < 32768" "length data = unat count"
    and fs: "zmap_ok (s_fs (supers (vf s) b))" "file_ok (s_fs (supers (vf s) b)) (islot (vf s) i)" "readable (s_fs (supers (vf s) b))"
    and z: "unat (f_pos (file_array s f)) + unat count \<le> 67108864" "unat (i_size (islot (vf s) i)) \<le> 67108864"
    and v: "verify_area buf count s = 0" "verify_area buf' count s = 0"
    and w: "sys_write (minix_writes wr) sched fd buf data count s = Inr (int (unat count), s1)"
  shows "\<exists>s2 s3. sys_lseek (minix_lseeks lsk) fd (f_pos (file_array s f)) 0 s1 = Inr (0, Some (f_pos (file_array s f)), s2) \<and>
    sys_read (minix_reads rd) sched fd buf' count s2 = Inr (int (unat count), data, s3) \<and> file_array s3 = file_array s1 \<and> vf s3 = vf s1"
proof -
  let ?n = "written_inode i s" and ?f = "file_array s f" and ?fs = "s_fs (supers (vf s) b)"
  have n: "i_size ?n = i_size (islot (vf s) i)" "S_ISREG (i_mode ?n)" "i_sb ?n = Some b" "i_zone ?n = i_zone (islot (vf s) i)"
    using fd S_ISREG_setid by (auto simp: written_inode_def Let_def fd_regular_def)
  have l: "lookup ?fs ?n p = lookup ?fs (islot (vf s) i) p" for p by (rule lookup_i_zone) (rule n(4))
  have ok: "file_ok ?fs ?n" using fs(2) unfolding file_ok_def l .
  have ap: "f_flags ?f AND O_APPEND = 0" and reg: "fds (cur s) (unat fd) = Some f" using fd by (simp_all add: fd_regular_def)
  have sz: "unat (i_size ?n) < 2147483648" "unat (i_size ?n) \<le> 67108864" using z(2) n(1) by simp_all
  obtain r n' fp fs' where m: "minix_file_write ?n ?f data count ?fs = Inr (r, n', fp, fs')" and i': "i_mode n' = i_mode ?n"
    using file_write_bytes[OF fs(1) ok fs(3) n(2) _ z(1) c(4) sz(1), of ?f] ap by auto
  obtain s' where s': "sys_write (minix_writes wr) sched fd buf data count s = Inr (r, s')"
    "vf s' = set_fs b fs' (Icache.upd i (\<lambda>_. n') (vf s))" "file_array s' = (file_array s)(f := fp)" "fds (cur s') = fds (cur s)"
    "verify_area buf' count s' = verify_area buf' count s"
    by (rule sys_write_minix[OF fd v(1) c(2,1) m])
  then have s1: "s' = s1" "r = int (unat count)" using w by simp_all
  note rd = write_read_bytes[OF fs(1) ok fs(3) n(2) ap z(1) c(4,3) sz(2) m[unfolded s1(2)]]
  have fp: "fp = ?f\<lparr>f_pos := f_pos fp\<rparr>" and sb: "i_sb n' = i_sb ?n" using minix_file_write_keeps[OF m] by simp_all
  let ?s2 = "updf f (\<lambda>x. x\<lparr>f_pos := f_pos ?f\<rparr>) s1"
  have f1: "file_array s1 f = fp" "islot (vf s1) i = n'" "s_fs (supers (vf s1) b) = fs'" using s'(2,3) s1(1) by (simp_all add: set_fs_def Icache.upd_def)
  have fk: "f_inode fp = f_inode ?f" "f_op fp = f_op ?f" "f_mode fp = f_mode ?f" "f_flags fp = f_flags ?f" by (subst fp, simp)+
  have "fds (cur s1) = fds (cur s)" using s'(4) s1(1) by simp
  then have fr: "fd_regular fd f i b s1" using fd sb n(2,3) i' unfolding fd_regular_def f1 fk by simp
  have p0: "\<not> sint (f_pos ?f) < 0" using z(1) by (intro sint_u32_pos) simp
  have fr2: "fd_regular fd f i b ?s2" using fr by (simp add: fd_regular_def)
  have va: "verify_area buf' count ?s2 = 0" using v(2) s'(5) s1(1) by (simp add: verify_area_updf)
  have "minix_file_read (islot (vf ?s2) i) (file_array ?s2 f) count (s_fs (supers (vf ?s2) b)) = Inr (int (unat count), fp, data)"
    using rd f1 by simp
  then obtain s3 where "sys_read (minix_reads rd) sched fd buf' count ?s2 = Inr (int (unat count), data, s3)" "vf s3 = vf ?s2" "file_array s3 = (file_array ?s2)(f := fp)"
    by (rule sys_read_minix[OF fr2 va c(2,1)])
  moreover have "(file_array ?s2)(f := fp) = file_array s1" using f1(1) by (auto simp: updf_def)
  ultimately show ?thesis using sys_lseek_set[OF fr p0, of lsk] by auto
qed

theorem fd_write_seek_read_witness:
  "\<exists>s1 s2 s3. sys_write (minix_writes (\<lambda>_. None)) Inr 0 100 [7, 8, 9] 3 (one_proc boot_map) = Inr (3, s1) \<and>
     sys_lseek (minix_lseeks (\<lambda>_. None)) 0 0 0 s1 = Inr (0, Some 0, s2) \<and>
     sys_read (minix_reads (\<lambda>_. None)) Inr 0 200 3 s2 = Inr (3, [7, 8, 9], s3)"
proof -
  let ?s = "one_proc boot_map" and ?i = "islot (one_file empty_ino small_fs) 5"
  have v: "vf ?s = one_file empty_ino small_fs" "file_array ?s 3 = \<lparr>f_mode = 3, f_pos = 0, f_flags = 0, f_count = 1, f_inode = Some 5, f_op = Some Minix_file_fops\<rparr>"
    by (simp_all add: one_proc_def)
  have i: "i_zone ?i = i_zone empty_ino" "i_mode ?i = i_mode empty_ino" "i_size ?i = i_size empty_ino" "i_sb ?i = Some 0" "s_fs (supers (one_file empty_ino small_fs) 0) = small_fs"
    by (simp_all add: one_file_facts place_def empty_ino_def)
  have fd: "fd_regular 0 3 5 0 ?s" by (simp add: fd_regular_def one_proc_cur v i empty_facts)
  have va: "verify_area p l ?s = 0" for p l by (simp add: verify_area_def one_proc_cur, simp add: one_proc_def two_sys_def idle_task_def)
  have su: "suser (ks ?s)" by (simp add: suser_def one_proc_def two_sys_def idle_task_def)
  then have wi: "written_inode 5 ?s = ?i" by (simp add: written_inode_def v Let_def)
  have l: "lookup small_fs ?i p = lookup small_fs empty_ino p" for p by (rule lookup_i_zone[OF i(1)])
  have ok: "file_ok small_fs ?i" using small_ok(2) unfolding file_ok_def l .
  obtain n fp fs where m: "minix_file_write (written_inode 5 ?s) (file_array ?s 3) [7, 8, 9] 3 (s_fs (supers (vf ?s) 0)) = Inr (int (unat (3 :: u16)), n, fp, fs)"
    using small_write_at[of ?i "file_array ?s 3"] i empty_facts by (auto simp: wi v empty_ino_def)
  have cl: "calm Inr" by (simp add: calm_def)
  obtain s1 where s1: "sys_write (minix_writes (\<lambda>_. None)) Inr 0 100 [7, 8, 9] 3 ?s = Inr (int (unat (3 :: u16)), s1)"
    by (rule sys_write_minix[OF fd va _ cl m]) simp_all
  have z: "unat (f_pos (file_array ?s 3)) + unat (3 :: u16) \<le> 67108864" "unat (i_size (islot (vf ?s) 5)) \<le> 67108864"
    by (simp_all add: v i empty_facts)
  have fs: "zmap_ok (s_fs (supers (vf ?s) 0))" "file_ok (s_fs (supers (vf ?s) 0)) (islot (vf ?s) 5)" "readable (s_fs (supers (vf ?s) 0))"
    using small_ok ok by (simp_all add: v i)
  from fd_write_seek_read[OF fd cl _ _ _ fs z va va s1, of "\<lambda>_. None" "\<lambda>_. None" 200] s1 show ?thesis by (auto simp: v)
qed

end
