(* ===== verification/Namei.thy ===== *)
theory Namei
  imports FileRefs MinixDir
begin

text \<open>
  Path names, \<^verbatim>\<open>fs/namei.c\<close>, with \<^verbatim>\<open>minix_follow_link\<close> of \<^verbatim>\<open>fs/minix/symlink.c\<close> and the calls of \<^verbatim>\<open>fs/open.c\<close> that
  take a name: permissions, the walk along a path, \<^verbatim>\<open>open_namei\<close>, and the system calls that create, remove, link
  and rename names, change owner, mode and times of a file, and change the directories of a process. The state is
  that of Files, on the Minix file system. What a walk does with a symbolic link is
  an argument \<open>fl\<close>, as it is a pointer in the code; \<open>links\<close> is what the Minix file system has there.
\<close>

type_synonym nsys = "minix_fs psys"
type_synonym follow = "nat \<Rightarrow> nat \<Rightarrow> u16 \<Rightarrow> u16 \<Rightarrow> nsys \<Rightarrow> (int \<times> nat option \<times> nsys) kres"

abbreviation ELOOP :: int where "ELOOP \<equiv> 40"
abbreviation EROFS :: int where "EROFS \<equiv> 30"
abbreviation EXDEV :: int where "EXDEV \<equiv> 18"
abbreviation (input) MAY_EXEC :: u16 where "MAY_EXEC \<equiv> 1"
abbreviation (input) MAY_WRITE :: u16 where "MAY_WRITE \<equiv> 2"
abbreviation O_CREAT :: u16 where "O_CREAT \<equiv> 0x40"
abbreviation O_EXCL :: u16 where "O_EXCL \<equiv> 0x80"
abbreviation O_NOCTTY :: u16 where "O_NOCTTY \<equiv> 0x100"
abbreviation O_TRUNC :: u16 where "O_TRUNC \<equiv> 0x200"
abbreviation slash :: u8 where "slash \<equiv> 47"

section \<open>Permissions\<close>

definition ACC_MODE :: "u16 \<Rightarrow> u16" where
  "ACC_MODE x = [0, 4, 2, 6] ! unat (x AND 3)"

definition IS_RDONLY :: "nat \<Rightarrow> 'f vfs \<Rightarrow> bool" where
  "IS_RDONLY i v = (case i_sb (islot v i) of None \<Rightarrow> False | Some b \<Rightarrow> s_flags (supers v b) AND 1 \<noteq> 0)"

definition permission :: "nat \<Rightarrow> u16 \<Rightarrow> 'f psys \<Rightarrow> int" where
  "permission inode msk s =
    (let n = islot (vf s) inode;
         mode = i_mode n
     in if msk AND MAY_WRITE \<noteq> 0 \<and> IS_RDONLY inode (vf s) then - EROFS
        else
          let mode = (if euid (cur s) = i_uid n then drop_bit 6 mode
                      else if in_group_p (ucast (i_gid n)) (ks s) then drop_bit 3 mode
                      else mode)
          in if mode AND msk AND 7 = msk \<or> suser (ks s) then 0 else - EACCES)"

section \<open>One name\<close>

definition put_inode :: "nat \<Rightarrow> nsys \<Rightarrow> nsys kres" where
  "put_inode i s = on_vfs (iput minix_sops (Some i)) s"

text \<open>An operation of a directory that returns an inode.\<close>

definition with_vfs :: "(mvfs \<Rightarrow> (int \<times> 'a \<times> mvfs) kres) \<Rightarrow> nsys \<Rightarrow> (int \<times> 'a \<times> nsys) kres" where
  "with_vfs f s = bindr (f (vf s)) (\<lambda>(e, r, v). Inr (e, r, s\<lparr>vf := v\<rparr>))"

text \<open>\<^verbatim>\<open>lookup\<close>, which uses up a reference to \<open>dir\<close>. Only directories of the Minix file system have the
  operation \<^verbatim>\<open>lookup\<close>.\<close>

definition lookup_name :: "nat option \<Rightarrow> u8 list \<Rightarrow> nsys \<Rightarrow> (int \<times> nat option \<times> nsys) kres" where
  "lookup_name dir name s =
    (case dir of
       None \<Rightarrow> Inr (- ENOENT, None, s)
     | Some d \<Rightarrow>
         let perm = permission d MAY_EXEC s;
             dotdot = (name = [dot, dot]);
             sb = i_sb (islot (vf s) d)
         in if dotdot \<and> d = root_i (cur s) then Inr (0, Some d, s)
            else
              bindr (case sb of
                       None \<Rightarrow> Inr (Some d, s)
                     | Some b \<Rightarrow>
                         if dotdot \<and> s_mounted (supers (vf s) b) = Some d then
                           bindr (put_inode d s) (\<lambda>s.
                           bindr (deref (i_sb (islot (vf s) d))) (\<lambda>b.
                             case s_covered (supers (vf s) b) of
                               None \<Rightarrow> Inr (None, s)
                             | Some c \<Rightarrow> Inr (Some c, ref_inode c s)))
                         else Inr (Some d, s)) (\<lambda>(d, s).
                case d of
                  None \<Rightarrow> Inr (- ENOENT, None, s)
                | Some d \<Rightarrow>
                    if i_op (islot (vf s) d) \<noteq> Dir_ops then Inl (Panic ''Oops - trying to access dir'')
                    else if perm \<noteq> 0 then bindr (put_inode d s) (\<lambda>s. Inr (perm, None, s))
                    else if name = [] then Inr (0, Some d, s)
                    else with_vfs (minix_lookup d name) s))"

text \<open>\<^verbatim>\<open>follow_link\<close>; its callers have both inodes. \<open>fl\<close> is the operation \<^verbatim>\<open>follow_link\<close> of symbolic links.\<close>

definition follow_link :: "follow \<Rightarrow> follow" where
  "follow_link fl dir inode flag mode s =
    (if i_op (islot (vf s) inode) \<noteq> Symlink_ops
     then bindr (put_inode dir s) (\<lambda>s. Inr (0, Some inode, s))
     else fl dir inode flag mode s)"

section \<open>Paths\<close>

text \<open>A path is the list of its bytes before the final zero. The result is the directory and the last name.\<close>

function dir_walk :: "follow \<Rightarrow> u8 list \<Rightarrow> nat \<Rightarrow> nsys \<Rightarrow> (int \<times> (nat \<times> u8 list) option \<times> nsys) kres" where
  "dir_walk fl pathname base s =
    (let thisname = takeWhile (\<lambda>c. c \<noteq> slash) pathname
     in case dropWhile (\<lambda>c. c \<noteq> slash) pathname of
          [] \<Rightarrow>
            if i_op (islot (vf s) base) \<noteq> Dir_ops then bindr (put_inode base s) (\<lambda>s. Inr (- ENOTDIR, None, s))
            else Inr (0, Some (base, thisname), s)
        | _ # rest \<Rightarrow>
            bindr (lookup_name (Some base) thisname (ref_inode base s)) (\<lambda>(error, inode, s).
              if error \<noteq> 0 then bindr (put_inode base s) (\<lambda>s. Inr (error, None, s))
              else
                bindr (deref inode) (\<lambda>i.
                bindr (follow_link fl base i 0 0 s) (\<lambda>(error, b, s).
                  if error \<noteq> 0 then Inr (error, None, s)
                  else bindr (deref b) (\<lambda>b. dir_walk fl rest b s)))))"
  by pat_completeness auto

termination dir_walk
proof (relation "measure (\<lambda>(_, p, _, _). length p)")
  fix p :: "u8 list" and x rest assume "dropWhile (\<lambda>c. c \<noteq> slash) p = x # rest"
  then have "length rest < length p" using length_dropWhile_le[of "\<lambda>c. c \<noteq> slash" p] by simp
  then show "((fl :: follow, rest, b :: nat, s' :: nsys), (fl, p, c, s'')) \<in> measure (\<lambda>(_, p, _, _). length p)" for fl b c s' s'' by simp
qed simp

declare dir_walk.simps [simp del]

definition dir_namei :: "follow \<Rightarrow> u8 list \<Rightarrow> nat option \<Rightarrow> nsys \<Rightarrow> (int \<times> (nat \<times> u8 list) option \<times> nsys) kres" where
  "dir_namei fl pathname base s =
    (let (b, s) = (case base of Some b \<Rightarrow> (b, s) | None \<Rightarrow> (pwd_i (cur s), ref_inode (pwd_i (cur s)) s))
     in case pathname of
          c # rest \<Rightarrow>
            if c = slash then bindr (put_inode b s) (\<lambda>s. dir_walk fl rest (root_i (cur s)) (ref_inode (root_i (cur s)) s))
            else dir_walk fl pathname b s
        | [] \<Rightarrow> dir_walk fl pathname b s)"

text \<open>\<^verbatim>\<open>_namei\<close>.\<close>

definition base_namei :: "follow \<Rightarrow> u8 list \<Rightarrow> nat option \<Rightarrow> bool \<Rightarrow> nsys \<Rightarrow> (int \<times> nat option \<times> nsys) kres" where
  "base_namei fl pathname base follow_links s =
    bindr (dir_namei fl pathname base s) (\<lambda>(error, r, s).
      case r of
        None \<Rightarrow> Inr (error, None, s)
      | Some (dir, basename) \<Rightarrow>
          bindr (lookup_name (Some dir) basename (ref_inode dir s)) (\<lambda>(error, inode, s).
            if error \<noteq> 0 then bindr (put_inode dir s) (\<lambda>s. Inr (error, None, s))
            else
              bindr (deref inode) (\<lambda>i.
                if follow_links then
                  bindr (follow_link fl dir i 0 0 s) (\<lambda>(error, i, s).
                    if error \<noteq> 0 then Inr (error, None, s) else Inr (0, i, s))
                else bindr (put_inode dir s) (\<lambda>s. Inr (0, Some i, s)))))"

datatype want = Any_type | IS_DIR | NOT_DIR

definition namei :: "follow \<Rightarrow> u8 list \<Rightarrow> want \<Rightarrow> u16 \<Rightarrow> nsys \<Rightarrow> (int \<times> nat option \<times> nsys) kres" where
  "namei fl pathname dir perm s =
    bindr (base_namei fl pathname None True s) (\<lambda>(error, r, s).
      if error \<noteq> 0 then Inr (error, r, s)
      else bindr (deref r) (\<lambda>i.
        let isdir = S_ISDIR (i_mode (islot (vf s) i));
            error = (if dir = NOT_DIR \<and> isdir then - EISDIR
                     else if dir = IS_DIR \<and> \<not> isdir then - ENOTDIR
                     else if perm \<noteq> 0 then permission i perm s
                     else 0)
        in if error \<noteq> 0 then bindr (put_inode i s) (\<lambda>s. Inr (error, Some i, s)) else Inr (0, Some i, s)))"

section \<open>Opening by name\<close>

text \<open>The last part of \<^verbatim>\<open>open_namei\<close>, from the inode that was found on. The semaphore of an inode is free here,
  and is given back at once.\<close>

definition open_inode :: "nat \<Rightarrow> u16 \<Rightarrow> nsys \<Rightarrow> (int \<times> nat option \<times> nsys) kres" where
  "open_inode inode flag s =
    (let n = islot (vf s) inode;
         device = S_ISBLK (i_mode n) \<or> S_ISCHR (i_mode n);
         perm = permission inode (ACC_MODE flag) s;
         error = (if S_ISDIR (i_mode n) \<and> flag AND 2 \<noteq> 0 then - EISDIR
                  else if perm = 0 \<and> device \<and> i_flags n AND 4 \<noteq> 0 then - EACCES
                  else perm)
     in if error \<noteq> 0 then bindr (put_inode inode s) (\<lambda>s. Inr (error, None, s))
        else if flag AND O_TRUNC \<noteq> 0 \<and> \<not> device then
          let v = Icache.upd inode (\<lambda>n. n\<lparr>i_size := 0\<rparr>) (vf s)
          in bindr (if i_op n = File_ops \<or> i_op n = Dir_ops
                    then on_inode inode (\<lambda>n fs. bindr (minix_truncate n [] fs) (\<lambda>(n, fs). Inr ((), n, fs))) v
                    else Inr ((), v)) (\<lambda>(_, v).
               Inr (0, Some inode, s\<lparr>vf := Icache.upd inode (\<lambda>n. n\<lparr>i_dirt := True\<rparr>) v\<rparr>))
        else Inr (0, Some inode, s))"

text \<open>The name does not exist and is to be created.\<close>

definition open_create :: "nat \<Rightarrow> u8 list \<Rightarrow> u16 \<Rightarrow> nsys \<Rightarrow> (int \<times> nat option \<times> nsys) kres" where
  "open_create dir basename mode s =
    (let error = permission dir (MAY_WRITE OR MAY_EXEC) s
     in if error \<noteq> 0 then bindr (put_inode dir s) (\<lambda>s. Inr (error, None, s))
        else if i_op (islot (vf s) dir) \<noteq> Dir_ops then bindr (put_inode dir s) (\<lambda>s. Inr (- EACCES, None, s))
        else bindr (with_vfs (minix_create dir basename mode (euid (cur s)) (egid (cur s))) (ref_inode dir s)) (\<lambda>(error, r, s).
               bindr (put_inode dir s) (\<lambda>s. Inr (error, r, s))))"

definition open_namei :: "follow \<Rightarrow> u8 list \<Rightarrow> u16 \<Rightarrow> u16 \<Rightarrow> nat option \<Rightarrow> nsys \<Rightarrow> (int \<times> nat option \<times> nsys) kres" where
  "open_namei fl pathname flag mode base s =
    (let mode = (mode AND (0xFFF AND NOT (umask (cur s)))) OR 0x8000
     in bindr (dir_namei fl pathname base s) (\<lambda>(error, r, s).
          case r of
            None \<Rightarrow> Inr (error, None, s)
          | Some (dir, basename) \<Rightarrow>
              if basename = [] then
                let perm = permission dir (ACC_MODE flag) s;
                    error = (if flag AND 2 \<noteq> 0 then - EISDIR else perm)
                in if error \<noteq> 0 then bindr (put_inode dir s) (\<lambda>s. Inr (error, None, s)) else Inr (0, Some dir, s)
              else
                bindr (lookup_name (Some dir) basename (ref_inode dir s)) (\<lambda>(error, inode, s).
                  if error \<noteq> 0 then
                    if flag AND O_CREAT \<noteq> 0 then open_create dir basename mode s
                    else bindr (put_inode dir s) (\<lambda>s. Inr (error, None, s))
                  else
                    bindr (deref inode) (\<lambda>i.
                      if flag AND O_CREAT \<noteq> 0 \<and> flag AND O_EXCL \<noteq> 0 then
                        bindr (put_inode i s) (\<lambda>s. bindr (put_inode dir s) (\<lambda>s. Inr (- EEXIST, None, s)))
                      else
                        bindr (follow_link fl dir i flag mode s) (\<lambda>(error, i, s).
                          if error \<noteq> 0 then Inr (error, None, s)
                          else bindr (deref i) (\<lambda>i. open_inode i flag s))))))"

section \<open>Symbolic links\<close>

text \<open>\<^verbatim>\<open>minix_follow_link\<close>. \<open>n\<close> is 6 less the static variable \<^verbatim>\<open>link_count\<close>, the number of links
  that may still be followed. \<^verbatim>\<open>open_namei\<close> reads its path with \<^verbatim>\<open>get_fs_byte\<close>, from the data segment of the
  process, also when it is given the address of a kernel buffer: \<open>text\<close> is the string that
  is found there, of which the block of the link is an argument.\<close>

primrec minix_follow_link :: "(nat \<Rightarrow> nsys \<Rightarrow> u8 list) \<Rightarrow> nat \<Rightarrow> follow" where
  "minix_follow_link text 0 dir inode flag mode s =
    (if \<not> S_ISLNK (i_mode (islot (vf s) inode)) then bindr (put_inode dir s) (\<lambda>s. Inr (0, Some inode, s))
     else bindr (put_inode inode s) (\<lambda>s. bindr (put_inode dir s) (\<lambda>s. Inr (- ELOOP, None, s))))"
| "minix_follow_link text (Suc n) dir inode flag mode s =
    (if \<not> S_ISLNK (i_mode (islot (vf s) inode)) then bindr (put_inode dir s) (\<lambda>s. Inr (0, Some inode, s))
     else
       bindr (on_inode inode (\<lambda>m. minix_bread m 0 False) (vf s)) (\<lambda>(bh, v).
         case bh of
           None \<Rightarrow> bindr (put_inode inode (s\<lparr>vf := v\<rparr>)) (\<lambda>s. bindr (put_inode dir s) (\<lambda>s. Inr (- EIO, None, s)))
         | Some z \<Rightarrow>
             bindr (put_inode inode (s\<lparr>vf := v\<rparr>)) (\<lambda>s.
               open_namei (minix_follow_link text n) (text z s) flag mode (Some dir) s)))"

definition links :: "(nat \<Rightarrow> nsys \<Rightarrow> u8 list) \<Rightarrow> follow" where
  "links text = minix_follow_link text 6"

section \<open>System calls on names\<close>

text \<open>An operation on the directory that the call has found; it uses up a reference to it.\<close>

definition lift_op :: "(mvfs \<Rightarrow> (int \<times> mvfs) kres) \<Rightarrow> nsys \<Rightarrow> (int \<times> nsys) kres" where
  "lift_op f s = bindr (f (vf s)) (\<lambda>(e, v). Inr (e, s\<lparr>vf := v\<rparr>))"

definition S_ISFIFO :: "u16 \<Rightarrow> bool" where "S_ISFIFO m \<longleftrightarrow> m AND 0xF000 = 0x1000"

definition do_mknod :: "follow \<Rightarrow> u8 list \<Rightarrow> u16 \<Rightarrow> u16 \<Rightarrow> nsys \<Rightarrow> (int \<times> nsys) kres" where
  "do_mknod fl filename mode dev s =
    (let mode = mode AND NOT (umask (cur s))
     in bindr (dir_namei fl filename None s) (\<lambda>(error, r, s).
          case r of
            None \<Rightarrow> Inr (error, s)
          | Some (dirp, basename) \<Rightarrow>
              if basename = [] then Inr (- ENOENT, s)
              else
                let error = permission dirp (MAY_WRITE OR MAY_EXEC) s
                in bindr (if error \<noteq> 0 then Inr (error, s)
                          else if i_op (islot (vf s) dirp) \<noteq> Dir_ops then Inr (- EPERM, s)
                          else lift_op (minix_mknod dirp basename mode dev (euid (cur s)) (egid (cur s))) (ref_inode dirp s)) (\<lambda>(error, s).
                     bindr (put_inode dirp s) (\<lambda>s. Inr (error, s)))))"

definition sys_mknod :: "follow \<Rightarrow> u8 list \<Rightarrow> u16 \<Rightarrow> u16 \<Rightarrow> nsys \<Rightarrow> (int \<times> nsys) kres" where
  "sys_mknod fl filename mode dev s =
    (if S_ISDIR mode \<or> \<not> S_ISFIFO mode \<and> \<not> suser (ks s) then Inr (- EPERM, s)
     else if mode AND 0xF000 = 0 then do_mknod fl filename (mode OR 0x8000) dev s
     else if mode AND 0xF000 \<in> {0x8000, 0x2000, 0x6000, 0x1000, 0xC000} then do_mknod fl filename mode dev s
     else Inr (- EINVAL, s))"

definition sys_mkdir :: "follow \<Rightarrow> u8 list \<Rightarrow> u16 \<Rightarrow> nsys \<Rightarrow> (int \<times> nsys) kres" where
  "sys_mkdir fl pathname mode s =
    bindr (dir_namei fl pathname None s) (\<lambda>(error, r, s).
      case r of
        None \<Rightarrow> Inr (error, s)
      | Some (dirp, basename) \<Rightarrow>
          let error = (if basename = [] then - ENOENT else permission dirp (MAY_WRITE OR MAY_EXEC) s)
          in bindr (if error \<noteq> 0 then Inr (error, s)
                    else if i_op (islot (vf s) dirp) \<noteq> Dir_ops then Inr (- EPERM, s)
                    else lift_op (minix_mkdir dirp basename (mode AND 0x1FF AND NOT (umask (cur s))) (umask (cur s)) (euid (cur s)) (egid (cur s)))
                           (ref_inode dirp s)) (\<lambda>(error, s).
               bindr (put_inode dirp s) (\<lambda>s. Inr (error, s))))"

text \<open>\<^verbatim>\<open>__do_rmthing\<close>. \<open>l1\<close> says which buffers of the directory are mapped. The callers have no
  \<^verbatim>\<open>return\<close>: their result is that of the last call, left in the register.\<close>

definition do_rmthing :: "follow \<Rightarrow> u8 list \<Rightarrow> bool \<Rightarrow> (nat \<Rightarrow> bool) \<Rightarrow> nsys \<Rightarrow> (int \<times> nsys) kres" where
  "do_rmthing fl pathname opnum l1 s =
    bindr (dir_namei fl pathname None s) (\<lambda>(error, r, s).
      case r of
        None \<Rightarrow> Inr (error, s)
      | Some (dirp, basename) \<Rightarrow>
          let error = (if basename = [] then - ENOENT else permission dirp (MAY_WRITE OR MAY_EXEC) s)
          in if error \<noteq> 0 then bindr (put_inode dirp s) (\<lambda>s. Inr (error, s))
             else if i_op (islot (vf s) dirp) \<noteq> Dir_ops then bindr (put_inode dirp s) (\<lambda>s. Inr (- EPERM, s))
             else lift_op (if opnum then minix_unlink dirp basename (euid (cur s)) (xtime s)
                           else minix_rmdir dirp basename (euid (cur s)) l1 (xtime s)) s)"

definition sys_rmdir :: "follow \<Rightarrow> u8 list \<Rightarrow> (nat \<Rightarrow> bool) \<Rightarrow> nsys \<Rightarrow> (int \<times> nsys) kres" where
  "sys_rmdir fl pathname l1 s = do_rmthing fl pathname False l1 s"

definition sys_unlink :: "follow \<Rightarrow> u8 list \<Rightarrow> nsys \<Rightarrow> (int \<times> nsys) kres" where
  "sys_unlink fl pathname s = do_rmthing fl pathname True (\<lambda>_. False) s"

text \<open>\<^verbatim>\<open>minix_symlink\<close>. \<open>symname\<close> is the string at its address in the data segment of the kernel, which is where the code
  reads it. When the name does not exist yet, \<^verbatim>\<open>map_buffer\<close> is called with NULL.\<close>

definition set_text :: "u8 list \<Rightarrow> bytes \<Rightarrow> bytes" where
  "set_text t d = (\<lambda>k. if k < length t then t ! k else if k = length t then 0 else d k)"

definition minix_symlink :: "nat \<Rightarrow> u8 list \<Rightarrow> u8 list \<Rightarrow> u16 \<Rightarrow> u16 \<Rightarrow> mvfs \<Rightarrow> (int \<times> mvfs) kres" where
  "minix_symlink d name symname user grp v =
    bindr (new_inode_in d user grp v) (\<lambda>(r, v).
      case r of
        None \<Rightarrow> bindr (iput minix_sops (Some d) v) (\<lambda>v. Inr (- ENOSPC, v))
      | Some i \<Rightarrow>
          bindr (on_inode i (\<lambda>n. minix_bread n 0 True) (Icache.upd i (\<lambda>n. n\<lparr>i_mode := 0xA1FF, i_op := Symlink_ops\<rparr>) v)) (\<lambda>(name_block, v).
            case name_block of
              None \<Rightarrow> bindr (iput_all [d] v) (\<lambda>v. bindr (iput_all [i] (drop_link i v)) (\<lambda>v. Inr (- ENOSPC, v)))
            | Some z \<Rightarrow>
                let t = take 1023 symname;
                    v = on_fs i (\<lambda>fs. put_blk z (set_text t (blk fs z)) fs) v;
                    v = Icache.upd i (\<lambda>n. n\<lparr>i_size := of_nat (length t), i_dirt := True\<rparr>) v
                in bindr (find_in d name v) (\<lambda>bh.
                     case bh of
                       None \<Rightarrow> Inl NullDeref
                     | Some p \<Rightarrow> bindr (iput_all [i, d] (drop_link i v)) (\<lambda>v. Inr (- EEXIST, v)))))"

definition sys_symlink :: "follow \<Rightarrow> u8 list \<Rightarrow> u8 list \<Rightarrow> nsys \<Rightarrow> (int \<times> nsys) kres" where
  "sys_symlink fl oldname newname s =
    bindr (dir_namei fl newname None s) (\<lambda>(error, r, s).
      case r of
        None \<Rightarrow> Inr (error, s)
      | Some (dirp, basename) \<Rightarrow>
          let error = (if basename = [] then - ENOENT else permission dirp (MAY_WRITE OR MAY_EXEC) s)
          in bindr (if error \<noteq> 0 then Inr (error, s)
                    else if i_op (islot (vf s) dirp) \<noteq> Dir_ops then Inr (- EPERM, s)
                    else lift_op (minix_symlink dirp basename oldname (euid (cur s)) (egid (cur s))) (ref_inode dirp s)) (\<lambda>(error, s).
               bindr (put_inode dirp s) (\<lambda>s. Inr (error, s))))"

definition sys_link :: "follow \<Rightarrow> u8 list \<Rightarrow> u8 list \<Rightarrow> nsys \<Rightarrow> (int \<times> nsys) kres" where
  "sys_link fl oldname newname s =
    bindr (namei fl oldname Any_type 0 s) (\<lambda>(error, r, s).
      if error \<noteq> 0 then
        bindr (case r of None \<Rightarrow> Inr s | Some i \<Rightarrow> put_inode i s) (\<lambda>s. Inr (error, s))
      else
        bindr (deref r) (\<lambda>oldinode.
        bindr (dir_namei fl newname None s) (\<lambda>(error, r, s).
          case r of
            None \<Rightarrow> Inr (error, s)
          | Some (dirp, basename) \<Rightarrow>
              let perm = permission dirp (MAY_WRITE OR MAY_EXEC) s;
                  error = (if basename = [] then - EPERM
                           else if i_dev (islot (vf s) dirp) \<noteq> i_dev (islot (vf s) oldinode) then - EXDEV
                           else if perm \<noteq> 0 then perm
                           else if i_op (islot (vf s) dirp) \<noteq> Dir_ops then - EPERM
                           else 0)
              in bindr (if error = 0 then lift_op (minix_link oldinode dirp basename (xtime s)) (ref_inode dirp s)
                        else bindr (put_inode oldinode s) (\<lambda>s. Inr (error, s))) (\<lambda>(error, s).
                   bindr (put_inode dirp s) (\<lambda>s. Inr (error, s))))))"

definition sys_rename :: "follow \<Rightarrow> u8 list \<Rightarrow> u8 list \<Rightarrow> nsys \<Rightarrow> (int \<times> nsys) kres" where
  "sys_rename fl oldname newname s =
    bindr (sys_link fl oldname newname s) (\<lambda>(err, s). if err = 0 then sys_unlink fl oldname s else Inr (err, s))"

section \<open>System calls on inodes\<close>

text \<open>\<open>tms\<close> are the access and modification times in user memory, \<open>None\<close> if the pointer is NULL.\<close>

definition sys_utime :: "follow \<Rightarrow> u8 list \<Rightarrow> (u32 \<times> u32) option \<Rightarrow> nsys \<Rightarrow> (int \<times> nsys) kres" where
  "sys_utime fl filename tms s =
    bindr (namei fl filename Any_type 0 s) (\<lambda>(error, r, s).
      if error \<noteq> 0 then Inr (error, s)
      else bindr (deref r) (\<lambda>i.
        let (a, m) = (case tms of Some t \<Rightarrow> t | None \<Rightarrow> (xtime s, xtime s))
        in bindr (put_inode i (s\<lparr>vf := Icache.upd i (\<lambda>n. n\<lparr>minode.i_atime := a, minode.i_mtime := m, i_dirt := True\<rparr>) (vf s)\<rparr>)) (\<lambda>s.
             Inr (0, s))))"

text \<open>The inode that was found is not given back.\<close>

definition sys_access :: "follow \<Rightarrow> u8 list \<Rightarrow> u16 \<Rightarrow> nsys \<Rightarrow> (int \<times> nsys) kres" where
  "sys_access fl filename mode s =
    (if mode \<noteq> mode AND 7 then Inr (- EINVAL, s)
     else
       let old_euid = euid (cur s);
           old_egid = egid (cur s);
           s = upd_cur (\<lambda>t. t\<lparr>euid := uid t, egid := gid t\<rparr>) s
       in bindr (namei fl filename Any_type mode s) (\<lambda>(res, r, s).
            Inr (res, upd_cur (\<lambda>t. t\<lparr>euid := old_euid, egid := old_egid\<rparr>) s)))"

definition sys_chdir :: "follow \<Rightarrow> u8 list \<Rightarrow> nsys \<Rightarrow> (int \<times> nsys) kres" where
  "sys_chdir fl filename s =
    bindr (namei fl filename IS_DIR MAY_EXEC s) (\<lambda>(error, r, s).
      if error \<noteq> 0 then Inr (error, s)
      else bindr (deref r) (\<lambda>i.
        bindr (put_inode (pwd_i (cur s)) s) (\<lambda>s. Inr (0, upd_cur (\<lambda>t. t\<lparr>pwd_i := i\<rparr>) s))))"

definition sys_chroot :: "follow \<Rightarrow> u8 list \<Rightarrow> nsys \<Rightarrow> (int \<times> nsys) kres" where
  "sys_chroot fl filename s =
    (if \<not> suser (ks s) then Inr (- EPERM, s)
     else bindr (namei fl filename IS_DIR 0 s) (\<lambda>(error, r, s).
       if error \<noteq> 0 then Inr (error, s)
       else bindr (deref r) (\<lambda>i.
         bindr (put_inode (root_i (cur s)) s) (\<lambda>s. Inr (0, upd_cur (\<lambda>t. t\<lparr>root_i := i\<rparr>) s)))))"

definition sys_chmod :: "follow \<Rightarrow> u8 list \<Rightarrow> u16 \<Rightarrow> nsys \<Rightarrow> (int \<times> nsys) kres" where
  "sys_chmod fl filename mode s =
    bindr (namei fl filename Any_type 0 s) (\<lambda>(error, r, s).
      if error \<noteq> 0 then Inr (error, s)
      else bindr (deref r) (\<lambda>i.
        let n = islot (vf s) i
        in if IS_RDONLY i (vf s) then bindr (put_inode i s) (\<lambda>s. Inr (- EROFS, s))
           else
             let mode = (if mode = - 1 then i_mode n else mode);
                 mode = (mode AND 0xFFF) OR (i_mode n AND NOT 0xFFF)
             in if euid (cur s) \<noteq> i_uid n \<and> \<not> suser (ks s) then Inr (- EPERM, s)
                else
                  let mode = (if \<not> suser (ks s) \<and> \<not> in_group_p (ucast (i_gid n)) (ks s) then mode AND NOT 0x400 else mode)
                  in bindr (put_inode i (s\<lparr>vf := Icache.upd i (\<lambda>n. n\<lparr>i_mode := mode, i_dirt := True\<rparr>) (vf s)\<rparr>)) (\<lambda>s. Inr (0, s))))"

definition do_chown :: "nat \<Rightarrow> u16 \<Rightarrow> u16 \<Rightarrow> nsys \<Rightarrow> int \<times> nsys" where
  "do_chown inode user grp s =
    (if IS_RDONLY inode (vf s) then (- EROFS, s)
     else if \<not> suser (ks s) \<and> euid (cur s) \<noteq> i_uid (islot (vf s) inode) then (- EPERM, s)
     else
       let set_group = (\<lambda>n. if grp \<noteq> - 1 then n\<lparr>i_gid := ucast grp, i_mode := i_mode n AND NOT 0x400\<rparr> else n);
           set_user = (\<lambda>n. if user \<noteq> - 1 then n\<lparr>i_uid := user, i_mode := i_mode n AND NOT 0x800\<rparr> else n)
       in (0, s\<lparr>vf := Icache.upd inode (\<lambda>n. (set_user (set_group n))\<lparr>i_dirt := True\<rparr>) (vf s)\<rparr>))"

definition sys_chown :: "follow \<Rightarrow> u8 list \<Rightarrow> u16 \<Rightarrow> u16 \<Rightarrow> nsys \<Rightarrow> (int \<times> nsys) kres" where
  "sys_chown fl filename user grp s =
    bindr (base_namei fl filename None False s) (\<lambda>(error, r, s).
      if error \<noteq> 0 then Inr (error, s)
      else bindr (deref r) (\<lambda>i.
        let (error, s) = do_chown i user grp s
        in bindr (put_inode i s) (\<lambda>s. Inr (error, s))))"

definition sys_fchown :: "u16 \<Rightarrow> u16 \<Rightarrow> u16 \<Rightarrow> nsys \<Rightarrow> int \<times> nsys" where
  "sys_fchown fd user grp s =
    (if \<not> unat fd < NR_OPEN then (- EBADF, s)
     else case fds (cur s) (unat fd) of
       None \<Rightarrow> (- EBADF, s)
     | Some filp \<Rightarrow>
         (case f_inode (file_array s filp) of
            None \<Rightarrow> (- EBADF, s)
          | Some i \<Rightarrow> do_chown i user grp s))"

section \<open>The rule of permissions\<close>

text \<open>C38: 
  \<^verbatim>\<open>permission\<close> is the rule of Unix: the superuser may do everything but write on a read-only file system;
  others need for each of the bits asked for the bit of the mode for the class they belong to, and the first
  class that matches decides.
\<close>

theorem permission_spec:
  "permission inode msk s = 0 \<longleftrightarrow>
    \<not> (bit msk 1 \<and> IS_RDONLY inode (vf s)) \<and>
    (euid (cur s) = 0 \<or>
     (\<forall>k. bit msk k \<longrightarrow> k < 3 \<and> bit (i_mode (islot (vf s) inode))
        (k + (if euid (cur s) = i_uid (islot (vf s) inode) then 6 else if egid (cur s) = ucast (i_gid (islot (vf s) inode)) then 3 else 0))))"
proof -
  let ?n = "islot (vf s) inode"
  define sh where "sh = (if euid (cur s) = i_uid ?n then 6 else if egid (cur s) = ucast (i_gid ?n) then 3 else 0 :: nat)"
  have w: "msk AND 2 \<noteq> 0 \<longleftrightarrow> bit msk 1" for msk :: u16
    using and_exp_eq_0_iff_not_bit[of msk 1] by simp
  have seven: "bit (7 :: u16) k \<longleftrightarrow> k < 3" for k
  proof -
    have m: "(7 :: u16) = mask 3" by (simp add: mask_eq_exp_minus_1)
    show ?thesis unfolding m bit_mask_iff by auto
  qed
  have b: "drop_bit sh m AND msk AND 7 = msk \<longleftrightarrow> (\<forall>k. bit msk k \<longrightarrow> k < 3 \<and> bit m (k + sh))" for m :: u16
  proof
    assume eq: "drop_bit sh m AND msk AND 7 = msk"
    show "\<forall>k. bit msk k \<longrightarrow> k < 3 \<and> bit m (k + sh)"
    proof (intro allI impI)
      fix k assume "bit msk k"
      then have "bit (drop_bit sh m AND msk AND 7) k" using eq by simp
      then show "k < 3 \<and> bit m (k + sh)" unfolding bit_and_iff bit_drop_bit_eq seven by (simp add: add.commute)
    qed
  next
    assume h: "\<forall>k. bit msk k \<longrightarrow> k < 3 \<and> bit m (k + sh)"
    show "drop_bit sh m AND msk AND 7 = msk"
    proof (rule bit_eqI)
      fix k show "bit (drop_bit sh m AND msk AND 7) k \<longleftrightarrow> bit msk k"
        unfolding bit_and_iff bit_drop_bit_eq seven using h by (auto simp: add.commute)
    qed
  qed
  have mode: "(if euid (cur s) = i_uid ?n then drop_bit 6 (i_mode ?n) else if in_group_p (ucast (i_gid ?n)) (ks s) then drop_bit 3 (i_mode ?n) else i_mode ?n) = drop_bit sh (i_mode ?n)"
    by (auto simp: sh_def in_group_p_def cur_def)
  have "suser (ks s) \<longleftrightarrow> euid (cur s) = 0" by (simp add: suser_def cur_def)
  then show ?thesis unfolding permission_def Let_def mode w sh_def[symmetric] b by simp
qed

text \<open>User 7 may read, but not write, a file of user 1 with mode 0644.\<close>

theorem permission_spec_witness:
  "permission 5 4 (upd_cur (\<lambda>t. t\<lparr>euid := 7, egid := 9\<rparr>) (one_proc boot_map)) = 0 \<and>
   permission 5 2 (upd_cur (\<lambda>t. t\<lparr>euid := 7, egid := 9\<rparr>) (one_proc boot_map)) \<noteq> 0"
proof -
  let ?s = "upd_cur (\<lambda>t. t\<lparr>euid := 7, egid := 9\<rparr>) (one_proc boot_map)"
  have n: "i_mode (islot (vf ?s) 5) = 0x81A4" "i_uid (islot (vf ?s) 5) = 1" "i_gid (islot (vf ?s) 5) = 2"
    by (simp_all add: one_proc_def one_file_def place_def empty_ino_def)
  have b: "bit (4 :: u16) k \<longleftrightarrow> k = 2" "bit (2 :: u16) k \<longleftrightarrow> k = 1" for k
    using bit_exp_iff[where 'a = "16 word", of 2 k] bit_exp_iff[where 'a = "16 word", of 1 k] by auto
  have ro: "\<not> IS_RDONLY 5 (vf ?s)" by (simp add: IS_RDONLY_def one_proc_def one_file_def place_def empty_ino_def)
  have "permission 5 4 ?s = 0" unfolding permission_spec b using n ro by simp
  moreover have "permission 5 2 ?s \<noteq> 0" unfolding permission_spec b using n by simp
  ultimately show ?thesis by simp
qed

end
