(* ===== verification/NameiRefs.thy ===== *)
theory NameiRefs
  imports Namei "HOL-Library.Multiset"
begin

text \<open>
  References to inodes: what every operation does with the counts of the inode cache, stated as the multiset of the
  references there are (\<open>refs\<close>). Each operation is shown to use up the references that it is given and
  to hand out one to the inode that it returns; the promise of \<^verbatim>\<open>follow_link\<close> is the locale \<open>follow_ops\<close>,
  which the symbolic links of the Minix file system keep at every depth.
\<close>

section \<open>What an operation leaves of an inode\<close>

text \<open>The references, the links and the file system of an inode.\<close>

definition key :: "minode \<Rightarrow> u16 \<times> u8 \<times> nat option" where
  "key n = (i_count n, i_nlink n, i_sb n)"

named_theorems key_simps

lemma key_upds [simp]:
  "key (n\<lparr>i_size := a\<rparr>) = key n" "key (n\<lparr>i_dirt := b\<rparr>) = key n" "key (n\<lparr>minode.i_mtime := t\<rparr>) = key n" "key (n\<lparr>minode.i_ctime := t\<rparr>) = key n"
  "key (n\<lparr>minode.i_atime := t\<rparr>) = key n" "key (n\<lparr>i_zone := z\<rparr>) = key n" "key (n\<lparr>i_mode := m\<rparr>) = key n" "key (n\<lparr>i_op := p\<rparr>) = key n" "key (n\<lparr>i_lock := l\<rparr>) = key n"
  "key (n\<lparr>i_next := x\<rparr>) = key n" "key (n\<lparr>i_prev := x\<rparr>) = key n" "key (n\<lparr>i_ino := k\<rparr>) = key n" "key (n\<lparr>i_dev := k\<rparr>) = key n" "key (n\<lparr>i_rdev := k\<rparr>) = key n"
  "key (n\<lparr>i_uid := u\<rparr>) = key n" "key (n\<lparr>i_gid := g\<rparr>) = key n" "key (n\<lparr>i_flags := w\<rparr>) = key n"
  by (simp_all add: key_def)

lemma keyD: "key m = key n \<Longrightarrow> i_count m = i_count n \<and> i_nlink m = i_nlink n \<and> i_sb m = i_sb n"
  by (simp add: key_def)

lemma store_zptr_key: "store_zptr p z n fs = (n', fs') \<Longrightarrow> key n' = key n"
  by (cases p) auto

lemma trunc_direct_loop_key: "trunc_direct_loop is r0 n fs = Inr (r, n', fs') \<Longrightarrow> key n' = key n"
  by (induction "is" arbitrary: r0 n fs) (auto simp: Let_def split: if_splits)

lemma trunc_direct_key: "V1_trunc_direct n fs = Inr (r, n', fs') \<Longrightarrow> key n' = key n"
  by (auto simp: V1_trunc_direct_def Let_def dest: trunc_direct_loop_key split: if_splits)

lemma trunc_indirect_key: "V1_trunc_indirect n off p fs = (r, n', fs') \<Longrightarrow> key n' = key n"
  by (auto simp: V1_trunc_indirect_def Let_def dest: store_zptr_key split: if_splits prod.splits)

lemma trunc_dindirect_loop_key: "trunc_dindirect_loop is b off r0 n fs = (r, n', fs') \<Longrightarrow> key n' = key n"
  by (induction "is" arbitrary: r0 n fs) (auto dest: trunc_indirect_key split: prod.splits)

lemma trunc_dindirect_key: "V1_trunc_dindirect n off p fs = (r, n', fs') \<Longrightarrow> key n' = key n"
  by (auto simp: V1_trunc_dindirect_def Let_def dest!: store_zptr_key trunc_dindirect_loop_key split: if_splits prod.splits)

lemma truncate_round_key:
  assumes "truncate_loop sl n fs = Inr (n', fs')"
  obtains "key n' = key n" | n3 f3 h sl' where "sl = h # sl'" "truncate_loop sl' n3 (f3\<lparr>held := h\<rparr>) = Inr (n', fs')" "key n3 = key n"
proof -
  from assms obtain r1 n1 f1 where a: "V1_trunc_direct n fs = Inr (r1, n1, f1)" by (subst (asm) truncate_loop.simps) (auto simp: bindr_Inr_iff)
  obtain r2 n2 f2 where b: "V1_trunc_indirect n1 7 (Zone 7) f1 = (r2, n2, f2)" by (cases "V1_trunc_indirect n1 7 (Zone 7) f1")
  obtain r3 n3 f3 where c: "V1_trunc_dindirect n2 (7 + 512) (Zone 8) f2 = (r3, n3, f3)" by (cases "V1_trunc_dindirect n2 (7 + 512) (Zone 8) f2")
  have k: "key n3 = key n" using trunc_direct_key[OF a] trunc_indirect_key[OF b] trunc_dindirect_key[OF c] by simp
  have "truncate_loop sl n fs = (if \<not> (r1 \<or> r2 \<or> r3) then Inr (n3, f3) else case sl of [] \<Rightarrow> Inl Asleep | h # sl \<Rightarrow> truncate_loop sl n3 (f3\<lparr>held := h\<rparr>))"
    by (subst truncate_loop.simps) (use a b c in simp)
  then show ?thesis using assms k that by (cases sl) (auto split: if_splits)
qed

lemma truncate_loop_key: "truncate_loop sl n fs = Inr (n', fs') \<Longrightarrow> key n' = key n"
proof (induction sl arbitrary: n fs)
  case Nil
  then show ?case by (cases rule: truncate_round_key) simp_all
next
  case (Cons h sl)
  from Cons.prems show ?case by (cases rule: truncate_round_key) (use Cons.IH in auto)
qed

lemma minix_truncate_key: "minix_truncate n sl fs = Inr (n', fs') \<Longrightarrow> key n' = key n"
  by (auto simp: minix_truncate_def bindr_Inr_iff dest: truncate_loop_key split: if_splits)

section \<open>The inode cache\<close>

lemma islot_upd [simp]: "islot (Icache.upd i f v) j = (if j = i then f (islot v i) else islot v j)" "islot (set_fs b fs v) = islot v"
  "supers (Icache.upd i f v) = supers v" "islot (v\<lparr>nr_free_inodes := x\<rparr>) = islot v" "islot (v\<lparr>first_inode := y\<rparr>) = islot v"
  by (simp_all add: Icache.upd_def set_fs_def)

lemma remove_key [simp]: "key (islot (remove_inode_free i v) j) = key (islot v j)"
  by (simp add: remove_inode_free_def Let_def split: option.split)

lemma insert_key: "insert_inode_free i v = Inr v' \<Longrightarrow> key (islot v' j) = key (islot v j)"
  by (auto simp: insert_inode_free_def Let_def split: option.splits)

lemma clear_inode_key: "clear_inode i v = Inr v' \<Longrightarrow> key (islot v' j) = (if j = i then (0, 0, None) else key (islot v j))"
proof -
  assume c: "clear_inode i v = Inr v'"
  let ?w = "remove_inode_free i v"
  obtain u where u: "insert_inode_free i (Icache.upd i (\<lambda>_. zero_inode) u) = Inr v'" "islot u = islot ?w"
    using c by (auto simp: clear_inode_def Let_def bindr_Inr_iff wait_on_inode_def split: if_splits)
  have z: "key zero_inode = (0, 0, None)" by (simp add: key_def zero_inode_def)
  show ?thesis unfolding insert_key[OF u(1)] using u(2) z by simp
qed

lemma write_inode_key: "write_inode minix_sops i v = Inr v' \<Longrightarrow> key (islot v' j) = key (islot v j)"
  by (auto simp: write_inode_def wait_on_inode_def unlock_inode_def Let_def minix_sops_def minix_write_inode_def minix_update_inode_def
      split: if_splits option.splits)

section \<open>References\<close>

text \<open>An unlinked inode that its file system refuses to free keeps one count for ever.\<close>

definition orphan :: "minode \<Rightarrow> bool" where
  "orphan n \<longleftrightarrow> i_nlink n = 0 \<and> i_sb n \<noteq> None"

definition refs :: "nat multiset \<Rightarrow> 'f vfs \<Rightarrow> bool" where
  "refs A v \<longleftrightarrow> (\<forall>j. unat (i_count (islot v j)) = count A j \<or> orphan (islot v j) \<and> unat (i_count (islot v j)) = Suc (count A j))"

lemma refs_cong: "(\<And>j. key (islot v' j) = key (islot v j)) \<Longrightarrow> refs A v' = refs A v"
  unfolding refs_def orphan_def key_def by simp

lemma refs_upd: "key (f (islot v i)) = key (islot v i) \<Longrightarrow> refs A (Icache.upd i f v) = refs A v"
  by (rule refs_cong) simp

lemma refs_fs [simp]: "refs A (set_fs b fs v) = refs A v" "refs A (v\<lparr>nr_free_inodes := x\<rparr>) = refs A v" "refs A (v\<lparr>last_ino := y\<rparr>) = refs A v"
  by (rule refs_cong, simp)+

lemma refs_change:
  assumes "refs A v" and "\<And>j. j \<noteq> i \<Longrightarrow> key (islot v' j) = key (islot v j)" and "\<And>j. j \<noteq> i \<Longrightarrow> count B j = count A j"
    and "unat (i_count (islot v' i)) = count B i \<or> orphan (islot v' i) \<and> unat (i_count (islot v' i)) = Suc (count B i)"
  shows "refs B v'"
  unfolding refs_def
proof
  fix j
  show "unat (i_count (islot v' j)) = count B j \<or> orphan (islot v' j) \<and> unat (i_count (islot v' j)) = Suc (count B j)"
  proof (cases "j = i")
    case False
    show ?thesis using assms(1) assms(3)[OF False] keyD[OF assms(2)[OF False]] unfolding refs_def orphan_def by metis
  qed (use assms(4) in simp)
qed

lemma refsD: "refs A v \<Longrightarrow> unat (i_count (islot v j)) = count A j \<or> orphan (islot v j) \<and> unat (i_count (islot v j)) = Suc (count A j)"
  by (simp add: refs_def)

lemma refs_pos: "refs (A + {#i#}) v \<Longrightarrow> i_count (islot v i) \<noteq> 0"
  using refsD[of "A + {#i#}" v i] by auto

text \<open>What the operation \<^verbatim>\<open>put_inode\<close> of the file system leaves.\<close>

lemma put_op_key: "so_put_inode minix_sops n fs = Inr (c, n', fs') \<Longrightarrow> key n' = key n"
  by (auto simp: minix_sops_def minix_put_inode_def bindr_Inr_iff Let_def case_prod_unfold split: if_splits dest!: minix_truncate_key)

lemma refs_dec:
  assumes "refs (A + {#i#}) v" and k: "key (islot v i) = key n" and f: "i_count (f (islot v i)) = i_count n - 1" "i_nlink (f (islot v i)) = i_nlink n" "i_sb (f (islot v i)) = i_sb n"
  shows "refs A (Icache.upd i f v)"
proof (rule refs_change[OF assms(1), of i])
  have n: "i_count (islot v i) = i_count n" "i_nlink (islot v i) = i_nlink n" "i_sb (islot v i) = i_sb n" using keyD[OF k] by simp_all
  have "i_count n \<noteq> 0" using refs_pos[OF assms(1)] n by simp
  then have d: "unat (i_count n - 1) = unat (i_count n) - 1" by (rule unat_minus_one)
  from refsD[OF assms(1), of i]
  show "unat (i_count (islot (Icache.upd i f v) i)) = count A i \<or>
      orphan (islot (Icache.upd i f v) i) \<and> unat (i_count (islot (Icache.upd i f v) i)) = Suc (count A i)"
    using f n d by (auto simp: orphan_def)
qed simp_all

lemma iput_round_one:
  assumes c: "i_count (islot v i) = 1" and "iput_loop minix_sops (Suc n) i v = Inr v'"
  obtains (cleared) w where "clear_inode i w = Inr v'" "\<forall>j. key (islot w j) = key (islot v j)"
    | (orphan) "\<forall>j. key (islot v' j) = key (islot v j)" "orphan (islot v i)"
    | (again) w where "\<forall>j. key (islot w j) = key (islot v j)" "iput_loop minix_sops n i w = Inr v'"
    | (last) w where "\<forall>j. key (islot w j) = key (islot v j)"
        "v' = (Icache.upd i (\<lambda>x. x\<lparr>i_count := i_count x - 1\<rparr>) w)\<lparr>nr_free_inodes := nr_free_inodes w + 1\<rparr>"
proof -
  define rest where "rest = (\<lambda>(gone, v :: mvfs). if gone then Inr v
           else if i_dirt (islot v i) then
             bindr (write_inode minix_sops i v) (\<lambda>v. bindr (wait_on_inode i v) (iput_loop minix_sops n i))
           else Inr ((Icache.upd i (\<lambda>x. x\<lparr>i_count := i_count x - 1\<rparr>) v)\<lparr>nr_free_inodes := nr_free_inodes v + 1\<rparr>))"
  have go: thesis if r: "rest (False, w) = Inr v'" and k: "\<forall>j. key (islot w j) = key (islot v j)" for w
  proof (cases "i_dirt (islot w i)")
    case True
    then obtain u where u: "write_inode minix_sops i w = Inr u" "iput_loop minix_sops n i u = Inr v'"
      using r by (auto simp: rest_def bindr_Inr_iff wait_on_inode_def split: if_splits)
    have "\<forall>j. key (islot u j) = key (islot v j)" using write_inode_key[OF u(1)] k by metis
    from again[OF this u(2)] show thesis .
  next
    case False
    then show thesis using r last[OF k] by (simp add: rest_def)
  qed
  show thesis
  proof (cases "i_sb (islot v i)")
    case None
    have "rest (False, v) = Inr v'" using assms None by (simp add: rest_def)
    then show thesis by (rule go) simp
  next
    case (Some s)
    from assms Some obtain cl x f where p: "so_put_inode minix_sops (islot v i) (s_fs (supers v s)) = Inr (cl, x, f)"
      and r: "bindr (bindr (if cl then clear_inode i (set_fs s f (Icache.upd i (\<lambda>_. x) v)) else Inr (set_fs s f (Icache.upd i (\<lambda>_. x) v)))
         (\<lambda>v. Inr (i_nlink (islot v i) = 0, v))) rest = Inr v'"
      by (auto simp: rest_def[symmetric] bindr_Inr_iff Let_def)
    let ?w = "set_fs s f (Icache.upd i (\<lambda>_. x) v)"
    have k: "\<forall>j. key (islot ?w j) = key (islot v j)" using put_op_key[OF p] by simp
    show thesis
    proof (cases cl)
      case True
      then obtain u where u: "clear_inode i ?w = Inr u" "rest (i_nlink (islot u i) = 0, u) = Inr v'" using r by (auto simp: bindr_Inr_iff)
      have "i_nlink (islot u i) = 0" using clear_inode_key[OF u(1), of i] by (simp add: key_def)
      then have "v' = u" using u(2) by (simp add: rest_def)
      then show thesis using cleared[of ?w] u(1) k by simp
    next
      case False
      then have r: "rest (i_nlink (islot ?w i) = 0, ?w) = Inr v'" using r by simp
      show thesis
      proof (cases "i_nlink (islot ?w i) = 0")
        case True
        then have "v' = ?w" using r by (simp add: rest_def)
        moreover have "orphan (islot v i)" using True keyD[OF k[rule_format, of i]] Some by (simp add: orphan_def)
        ultimately show thesis using orphan k by simp
      next
        case False
        then show thesis using r go[of ?w] k by simp
      qed
    qed
  qed
qed

lemma refs_clear:
  assumes "refs (A + B) v" and "clear_inode i w = Inr v'" and "\<forall>j. key (islot w j) = key (islot v j)" and "count A i = 0" and "\<And>j. j \<noteq> i \<Longrightarrow> count B j = 0"
  shows "refs A v'"
proof (rule refs_change[OF assms(1), of i])
  fix j assume "j \<noteq> i"
  then show "key (islot v' j) = key (islot v j)" "count A j = count (A + B) j" using clear_inode_key[OF assms(2)] assms(3,5) by simp_all
next
  have "i_count (islot v' i) = 0" using clear_inode_key[OF assms(2), of i] by (simp add: key_def)
  then show "unat (i_count (islot v' i)) = count A i \<or> orphan (islot v' i) \<and> unat (i_count (islot v' i)) = Suc (count A i)" using assms(4) by simp
qed

lemma word_gt_1_or: "\<not> 1 < (w :: u16) \<Longrightarrow> w \<noteq> 0 \<Longrightarrow> w = 1"
  by (simp add: word_less_nat_alt unat_eq_0[symmetric] word_unat_eq_iff)

lemma iput_loop_refs: "refs (A + {#i#}) v \<Longrightarrow> iput_loop minix_sops n i v = Inr v' \<Longrightarrow> refs A v'"
proof (induction n arbitrary: v)
  case (Suc n)
  show ?case
  proof (cases "1 < i_count (islot v i)")
    case True
    then have "v' = Icache.upd i (\<lambda>x. x\<lparr>i_count := i_count x - 1\<rparr>) v" using Suc.prems(2) by simp
    then show ?thesis using refs_dec[OF Suc.prems(1) refl] by simp
  next
    case False
    have one: "i_count (islot v i) = 1" using False refs_pos[OF Suc.prems(1)] by (simp add: word_gt_1_or)
    then have z: "count A i = 0" using refsD[OF Suc.prems(1), of i] by auto
    from one Suc.prems(2) show ?thesis
    proof (cases rule: iput_round_one)
      case (cleared w)
      show ?thesis by (rule refs_clear[OF Suc.prems(1) cleared z]) simp
    next
      case orphan
      show ?thesis
      proof (rule refs_change[OF Suc.prems(1), of i])
        show "unat (i_count (islot v' i)) = count A i \<or> orphan (islot v' i) \<and> unat (i_count (islot v' i)) = Suc (count A i)"
          using z one orphan(2) keyD[OF orphan(1)[rule_format, of i]] by (simp add: orphan_def)
      qed (use orphan in simp_all)
    next
      case (again w)
      then show ?thesis using Suc.IH[of w] Suc.prems(1) refs_cong[of w v] by simp
    next
      case (last w)
      have "refs (A + {#i#}) w" using Suc.prems(1) refs_cong[of w v] last(1) by simp
      from refs_dec[OF this refl] show ?thesis unfolding last(2) by simp
    qed
  qed
qed simp

lemma iput_refs: "refs (A + {#i#}) v \<Longrightarrow> iput minix_sops (Some i) v = Inr v' \<Longrightarrow> refs A v'"
  using iput_loop_refs[of A i v 2 v'] refs_pos[of A i v] by (auto simp: iput_def bindr_Inr_iff wait_on_inode_def split: if_splits)

abbreviation (input) MAXREF :: nat where "MAXREF \<equiv> 65000"

lemma count_bound: "count A i \<le> size A"
  by (metis count_le_replicate_mset_subset_eq size_mset_mono size_replicate_mset order_refl)

lemma refs_inc:
  assumes "refs A v" and "size A < MAXREF + 100" and "islot v' = (islot v)(i := n)" and "i_count n = i_count (islot v i) + 1" "i_nlink n = i_nlink (islot v i)" "i_sb n = i_sb (islot v i)"
  shows "refs (A + {#i#}) v'"
proof (rule refs_change[OF assms(1), of i])
  have "unat (i_count (islot v i)) < 65535" using refsD[OF assms(1), of i] count_bound[of A i] assms(2) by auto
  then have "unat (i_count (islot v i) + 1) = unat (i_count (islot v i)) + 1" by (simp add: unat_word_ariths)
  then show "unat (i_count (islot v' i)) = count (A + {#i#}) i \<or> orphan (islot v' i) \<and> unat (i_count (islot v' i)) = Suc (count (A + {#i#}) i)"
    using refsD[OF assms(1), of i] assms(3-6) by (auto simp: orphan_def)
qed (use assms(3) in simp_all)

lemma refs_upd_inc: "refs A v \<Longrightarrow> size A < MAXREF + 100 \<Longrightarrow> refs (A + {#i#}) (Icache.upd i (\<lambda>n. n\<lparr>i_count := i_count n + 1\<rparr>) v)"
  by (rule refs_inc[where i = i and v' = "Icache.upd i (\<lambda>n. n\<lparr>i_count := i_count n + 1\<rparr>) v", OF _ _ Icache.iupd_simps(1)]) simp_all

lemma get_empty_refs:
  assumes "refs A v" and "get_empty_inode v = Inr (e, v')"
  shows "refs (A + {#e#}) v'" and "i_count (islot v' e) = 1" and "count A e = 0"
proof -
  obtain w where e: "find (\<lambda>i. unused (islot v i)) [0..<NR_INODE] = Some e" and w: "clear_inode e v = Inr w"
    and v': "v' = (Icache.upd e (\<lambda>n. n\<lparr>i_ino := last_ino w + 1, i_dev := 0\<rparr>) ((Icache.upd e (\<lambda>n. n\<lparr>i_count := 1, i_nlink := 1\<rparr>) w)\<lparr>last_ino := last_ino w + 1\<rparr>))
      \<lparr>nr_free_inodes := if nr_free_inodes w - 1 < 0 then 0 else nr_free_inodes w - 1\<rparr>"
    using assms(2) by (auto simp: get_empty_inode_def bindr_Inr_iff Let_def split: option.splits)
  have "unused (islot v e)" using e by (auto simp: find_Some_iff)
  then have z: "count A e = 0" using refsD[OF assms(1), of e] by (auto simp: unused_def)
  show c: "i_count (islot v' e) = 1" unfolding v' by simp
  show "refs (A + {#e#}) v'"
  proof (rule refs_change[OF assms(1), of e])
    fix j assume "j \<noteq> e"
    then show "key (islot v' j) = key (islot v j)" using clear_inode_key[OF w, of j] unfolding v' by simp
  next
    show "unat (i_count (islot v' e)) = count (A + {#e#}) e \<or> orphan (islot v' e) \<and> unat (i_count (islot v' e)) = Suc (count (A + {#e#}) e)"
      using c z by simp
  qed simp
  show "count A e = 0" by (rule z)
qed

section \<open>Block mapping and entries keep the inode\<close>

lemma map_izone_key: "map_izone n b c fs = Inr (z, n', fs') \<Longrightarrow> key n' = key n"
  by (auto simp: map_izone_def bindr_Inr_iff Let_def split: if_splits)

lemma bmap_key: "minix_bmap n b c fs = Inr (z, n', fs') \<Longrightarrow> key n' = key n"
  by (auto simp: minix_bmap_def bindr_Inr_iff Let_def split: if_splits dest!: map_izone_key)

lemma bread_key: "minix_bread n b c fs = Inr (z, n', fs') \<Longrightarrow> key n' = key n"
  by (auto simp: minix_bread_def minix_getblk_def bindr_Inr_iff dest!: bmap_key)

lemma add_entry_loop_key: "add_entry_loop k n len name bh block offset fs = Inr (r, n', fs') \<Longrightarrow> key n' = key n"
proof (induction k arbitrary: n bh block offset fs)
  case (Suc k)
  from Suc.prems obtain z n1 f1 where b: "(case bh of Some z \<Rightarrow> Inr (Some z, n, fs) | None \<Rightarrow> minix_bread n block True fs) = Inr (z, n1, f1)"
    by (auto simp: bindr_Inr_iff)
  have k: "key n1 = key n" using b bread_key by (cases bh) auto
  show ?case
  proof (cases z)
    case None
    then show ?thesis using Suc.prems b k by simp
  next
    case (Some y)
    then show ?thesis using Suc.prems b k by (auto simp: Let_def split: if_splits dest!: Suc.IH)
  qed
qed simp

lemma add_entry_key: "minix_add_entry n name fs = Inr (r, n', fs') \<Longrightarrow> key n' = key n"
  by (auto simp: minix_add_entry_def Let_def simp del: add_entry_loop.simps split: if_splits dest!: add_entry_loop_key)

lemma on_inode_refs:
  assumes "refs A v" and "on_inode i f v = Inr (r, v')" and "\<And>n fs r n' fs'. f n fs = Inr (r, n', fs') \<Longrightarrow> key n' = key n"
  shows "refs A v'" and "key (islot v' j) = key (islot v j)"
proof -
  obtain s n fs where o: "f (islot v i) (s_fs (supers v s)) = Inr (r, n, fs)" "v' = set_fs s fs (Icache.upd i (\<lambda>_. n) v)"
    using assms(2) by (auto simp: on_inode_def bindr_Inr_iff split: option.splits)
  show k: "key (islot v' j) = key (islot v j)" for j using assms(3)[OF o(1)] o(2) by simp
  show "refs A v'" using refs_cong[of v' v A, OF k] assms(1) by simp
qed

lemma add_in_refs:
  assumes "refs A v" and "add_in d name v = Inr (r, v')"
  shows "refs A v'" and "key (islot v' j) = key (islot v j)"
  using assms on_inode_refs[OF assms(1), of d "\<lambda>n. minix_add_entry n name" r v'] add_entry_key
  by (auto simp: add_in_def split: if_splits)

lemma on_fs_refs [simp]: "refs A (on_fs i f v) = refs A v" "islot (on_fs i f v) = islot v"
  by (simp_all add: on_fs_def split: option.split)

section \<open>Finding and making inodes\<close>

lemma refs_exact:
  assumes "refs A v" and "unat (i_count (islot v i)) = count A i" and "i_count (f (islot v i)) = i_count (islot v i)"
  shows "refs A (Icache.upd i f v)"
  by (rule refs_change[OF assms(1), of i]) (use assms(2,3) in simp_all)

lemma put_last_key: "put_last_free i v = Inr v' \<Longrightarrow> key (islot v' j) = key (islot v j)"
proof -
  assume p: "put_last_free i v = Inr v'"
  let ?w = "remove_inode_free i v"
  have "key (islot v' j) = key (islot ?w j)"
    using p by (auto simp: put_last_free_def Let_def split: option.splits)
  then show ?thesis by simp
qed

lemma read_inode_count: "read_inode minix_sops i v = Inr v' \<Longrightarrow> i_count (islot v' j) = i_count (islot v j) \<and> (j \<noteq> i \<longrightarrow> islot v' j = islot v j)"
  by (auto simp: read_inode_def lock_inode_def wait_on_inode_def unlock_inode_def bindr_Inr_iff mx.read_keeps split: option.splits if_splits)

lemma iget_found_refs:
  assumes r: "refs (A + (case spare of None \<Rightarrow> {#} | Some e \<Rightarrow> {#e#})) v" and bound: "size A < MAXREF + 50"
    and "iget_found minix_sops i spare v = Inr (k, v')"
  shows "refs (A + {#k#}) v'"
proof -
  let ?B = "case spare of None \<Rightarrow> {#} | Some e \<Rightarrow> {#e#}"
  let ?v0 = "if i_count (islot v i) = 0 then v\<lparr>nr_free_inodes := nr_free_inodes v - 1\<rparr> else v"
  define v1 where "v1 = Icache.upd i (\<lambda>n. n\<lparr>i_count := i_count n + 1\<rparr>) ?v0"
  have b: "size ?B \<le> 1" by (simp split: option.split)
  have r1: "refs (A + ?B + {#i#}) v1" unfolding v1_def by (rule refs_upd_inc) (use r bound b in simp_all)
  from assms(3) obtain k' w where k: "(case i_mount (islot v1 i) of None \<Rightarrow> Inr (i, v1)
      | Some t \<Rightarrow> bindr (iput minix_sops (Some i) (Icache.upd t (\<lambda>n. n\<lparr>i_count := i_count n + 1\<rparr>) v1)) (\<lambda>v.
           bindr (wait_on_inode t v) (\<lambda>v. Inr (t, v)))) = Inr (k', w)" "k' = k" and sp: "iput minix_sops spare w = Inr v'"
    unfolding iget_found_def Let_def v1_def[symmetric] by (auto simp: bindr_Inr_iff wait_on_inode_def simp del: Icache.iupd_simps islot_upd split: if_splits)
  have r2: "refs (A + ?B + {#k#}) w"
  proof (cases "i_mount (islot v1 i)")
    case None
    then have "w = v1" "k = i" using k by simp_all
    then show ?thesis using r1 by simp
  next
    case (Some t)
    then have t: "iput minix_sops (Some i) (Icache.upd t (\<lambda>n. n\<lparr>i_count := i_count n + 1\<rparr>) v1) = Inr w" "k = t"
      using k by (auto simp: bindr_Inr_iff wait_on_inode_def simp del: Icache.iupd_simps islot_upd split: if_splits)
    have "refs (A + ?B + {#i#} + {#t#}) (Icache.upd t (\<lambda>n. n\<lparr>i_count := i_count n + 1\<rparr>) v1)"
      by (rule refs_upd_inc[OF r1]) (use bound b in simp)
    then have "refs (A + ?B + {#t#} + {#i#}) (Icache.upd t (\<lambda>n. n\<lparr>i_count := i_count n + 1\<rparr>) v1)" by (simp add: add_mset_commute)
    from iput_refs[OF this t(1)] t(2) show ?thesis by simp
  qed
  show ?thesis
  proof (cases spare)
    case None
    then show ?thesis using r2 sp by (simp add: iput_def)
  next
    case (Some e)
    then have "refs (A + {#k#} + {#e#}) w" using r2 by (simp add: add_mset_commute)
    from iput_refs[OF this] sp Some show ?thesis by simp
  qed
qed

lemma iget_refs:
  assumes r: "refs A v" and bound: "size A < MAXREF + 50" and g: "iget minix_sops s ino v = Inr (k, v')"
  shows "refs (A + {#k#}) v'"
proof (cases "icache_find (s_dev (supers v s)) ino v")
  case (Some i)
  then show ?thesis using iget_found_refs[of A None v i k v'] r bound g by (simp add: iget_def)
next
  case None
  from g None obtain e w where e: "get_empty_inode v = Inr (e, w)" by (auto simp: iget_def bindr_Inr_iff)
  note w = get_empty_refs[OF r e]
  show ?thesis
  proof (cases "icache_find (s_dev (supers w s)) ino w")
    case (Some i)
    have "iget_found minix_sops i (Some e) w = Inr (k, v')" using g None e Some by (simp add: iget_def)
    then show ?thesis using iget_found_refs[of A "Some e" w i k v'] w(1) bound by simp
  next
    case N: None
    let ?f = "\<lambda>n. n\<lparr>i_sb := Some s, i_dev := s_dev (supers w s), i_ino := ino, i_flags := s_flags (supers w s)\<rparr>"
    from g None e N obtain u where u: "put_last_free e (Icache.upd e ?f w) = Inr u" "read_inode minix_sops e u = Inr v'" "k = e"
      by (auto simp: iget_def bindr_Inr_iff)
    have ex: "unat (i_count (islot w e)) = count (A + {#e#}) e" using w(2,3) by simp
    have "refs (A + {#e#}) (Icache.upd e ?f w)" by (rule refs_exact[OF w(1) ex]) simp
    then have ru: "refs (A + {#e#}) u" using refs_cong[of u] put_last_key[OF u(1)] by blast
    have cu: "i_count (islot u e) = 1" using put_last_key[OF u(1), of e] w(2) by (simp add: key_def)
    have "refs (A + {#e#}) v'"
      by (rule refs_change[OF ru, of e]) (use read_inode_count[OF u(2)] cu w(3) in simp_all)
    then show ?thesis using u(3) by simp
  qed
qed

section \<open>The table of super blocks\<close>

text \<open>What is left of it when the contents of the file systems are not looked at.\<close>

definition sbs :: "'f vfs \<Rightarrow> nat \<Rightarrow> u16 \<times> u16 \<times> nat option \<times> nat option" where
  "sbs v b = (s_dev (supers v b), s_flags (supers v b), s_covered (supers v b), s_mounted (supers v b))"

lemma sbs_simps [simp]: "sbs (Icache.upd i f v) = sbs v" "sbs (set_fs b fs v) = sbs v" "sbs (v\<lparr>nr_free_inodes := x\<rparr>) = sbs v"
  "sbs (v\<lparr>first_inode := y\<rparr>) = sbs v" "sbs (v\<lparr>last_ino := z\<rparr>) = sbs v"
  by (auto simp: sbs_def fun_eq_iff set_fs_def)

lemma remove_sbs [simp]: "sbs (remove_inode_free i v) = sbs v"
  by (simp add: remove_inode_free_def Let_def split: option.split)

lemma insert_sbs: "insert_inode_free i v = Inr v' \<Longrightarrow> sbs v' = sbs v"
  by (auto simp: insert_inode_free_def Let_def simp del: Icache.iupd_simps split: option.splits)

lemma clear_sbs: "clear_inode i v = Inr v' \<Longrightarrow> sbs v' = sbs v"
  by (auto simp: clear_inode_def Let_def bindr_Inr_iff wait_on_inode_def simp del: Icache.iupd_simps split: if_splits dest!: insert_sbs)

lemma put_last_sbs: "put_last_free i v = Inr v' \<Longrightarrow> sbs v' = sbs v"
  by (auto simp: put_last_free_def Let_def simp del: Icache.iupd_simps split: option.splits)

lemma write_inode_sbs: "write_inode minix_sops i v = Inr v' \<Longrightarrow> sbs v' = sbs v"
  by (auto simp: write_inode_def wait_on_inode_def unlock_inode_def Let_def simp del: Icache.iupd_simps split: if_splits option.splits prod.splits)

lemma read_inode_sbs: "read_inode minix_sops i v = Inr v' \<Longrightarrow> sbs v' = sbs v"
  by (auto simp: read_inode_def lock_inode_def wait_on_inode_def unlock_inode_def bindr_Inr_iff simp del: Icache.iupd_simps split: option.splits if_splits)

lemma iput_loop_sbs: "iput_loop minix_sops n i v = Inr v' \<Longrightarrow> sbs v' = sbs v"
proof (induction n arbitrary: v)
  case (Suc n)
  define rest where "rest = (\<lambda>(gone, v :: mvfs). if gone then Inr v
           else if i_dirt (islot v i) then
             bindr (write_inode minix_sops i v) (\<lambda>v. bindr (wait_on_inode i v) (iput_loop minix_sops n i))
           else Inr ((Icache.upd i (\<lambda>x. x\<lparr>i_count := i_count x - 1\<rparr>) v)\<lparr>nr_free_inodes := nr_free_inodes v + 1\<rparr>))"
  have rest: "sbs v' = sbs w" if "rest (g, w) = Inr v'" for g w
    using that Suc.IH write_inode_sbs by (auto simp: rest_def bindr_Inr_iff wait_on_inode_def split: if_splits)
  show ?case
  proof (cases "1 < i_count (islot v i)")
    case True
    then show ?thesis using Suc.prems by auto
  next
    case False
    show ?thesis
    proof (cases "i_sb (islot v i)")
      case None
      then have "rest (False, v) = Inr v'" using Suc.prems False by (simp add: rest_def)
      then show ?thesis by (rule rest)
    next
      case (Some s)
      from Suc.prems False Some obtain cl x f where
        r: "bindr (bindr (if cl then clear_inode i (set_fs s f (Icache.upd i (\<lambda>_. x) v)) else Inr (set_fs s f (Icache.upd i (\<lambda>_. x) v)))
         (\<lambda>v. Inr (i_nlink (islot v i) = 0, v))) rest = Inr v'"
        by (auto simp: rest_def[symmetric] bindr_Inr_iff Let_def)
      then obtain w where w: "(if cl then clear_inode i (set_fs s f (Icache.upd i (\<lambda>_. x) v)) else Inr (set_fs s f (Icache.upd i (\<lambda>_. x) v))) = Inr w"
        "rest (i_nlink (islot w i) = 0, w) = Inr v'" by (auto simp: bindr_Inr_iff)
      have "sbs w = sbs v" using w(1) clear_sbs[of i "set_fs s f (Icache.upd i (\<lambda>_. x) v)" w] by (auto split: if_splits)
      then show ?thesis using rest[OF w(2)] by simp
    qed
  qed
qed simp

lemma iput_sbs: "iput minix_sops p v = Inr v' \<Longrightarrow> sbs v' = sbs v"
  by (auto simp: iput_def bindr_Inr_iff wait_on_inode_def simp del: iput_loop.simps split: option.splits if_splits dest: iput_loop_sbs)

lemma get_empty_sbs: "get_empty_inode v = Inr (e, v') \<Longrightarrow> sbs v' = sbs v"
  by (auto simp: get_empty_inode_def bindr_Inr_iff Let_def simp del: Icache.iupd_simps split: option.splits dest!: clear_sbs)

lemma iget_found_sbs: "iget_found minix_sops i spare v = Inr (k, v') \<Longrightarrow> sbs v' = sbs v"
  by (auto simp: iget_found_def Let_def bindr_Inr_iff wait_on_inode_def simp del: Icache.iupd_simps split: option.splits if_splits dest!: iput_sbs)

lemma iget_sbs: "iget minix_sops s ino v = Inr (k, v') \<Longrightarrow> sbs v' = sbs v"
  by (auto simp: iget_def Let_def bindr_Inr_iff simp del: Icache.iupd_simps split: option.splits
      dest!: iget_found_sbs get_empty_sbs put_last_sbs read_inode_sbs)

lemma on_inode_sbs: "on_inode i f v = Inr (r, v') \<Longrightarrow> sbs v' = sbs v"
  by (auto simp: on_inode_def bindr_Inr_iff split: option.splits)

lemma on_fs_sbs [simp]: "sbs (on_fs i f v) = sbs v"
  by (simp add: on_fs_def split: option.split)

lemma add_in_sbs: "add_in d name v = Inr (r, v') \<Longrightarrow> sbs v' = sbs v"
  by (auto simp: add_in_def split: if_splits dest: on_inode_sbs)

lemma iput_all_sbs: "iput_all is v = Inr v' \<Longrightarrow> sbs v' = sbs v"
proof (induction "is" arbitrary: v)
  case (Cons i js)
  have e: "fold (\<lambda>i r. bindr r (iput minix_sops (Some i))) xs (Inl x) = Inl x" for xs and x :: kfault by (induction xs) simp_all
  from Cons.prems obtain w where "iput minix_sops (Some i) v = Inr w" "iput_all js w = Inr v'"
    by (cases "iput minix_sops (Some i) v") (auto simp: iput_all_def e)
  then show ?case using Cons.IH iput_sbs by metis
qed (simp add: iput_all_def)

lemma new_inode_sbs:
  assumes "new_inode_in d eu eg v = Inr (r, v')"
  shows "sbs v' = sbs v"
proof -
  obtain e w s where e: "get_empty_inode v = Inr (e, w)" and s: "i_sb (islot w d) = Some s"
    using assms by (auto simp: new_inode_in_def bindr_Inr_iff split: option.splits)
  obtain q fs where q: "minix_new_inode (islot w e) (islot w d) (s_dev (supers w s)) (s_flags (supers w s)) eu eg (s_fs (supers w s)) = (q, fs)" by fastforce
  have "sbs v' = sbs w"
    using assms e s q by (cases q) (auto simp: new_inode_in_def bindr_Inr_iff simp del: Icache.iupd_simps dest!: iput_sbs)
  then show ?thesis using get_empty_sbs[OF e] by simp
qed

lemma new_inode_cases:
  assumes "minix_new_inode n d dev flags eu eg fs = (r, fs')" and "i_count n = 1"
  obtains m where "r = Inl m" "i_count m = 1" | m where "r = Inr m" "i_count m = 1"
  using assms by (auto simp: minix_new_inode_def Let_def split: option.splits prod.splits if_splits)

definition opt :: "nat option \<Rightarrow> nat multiset" where
  "opt r = (case r of None \<Rightarrow> {#} | Some i \<Rightarrow> {#i#})"

lemma opt_simps [simp]: "opt None = {#}" "opt (Some i) = {#i#}" by (simp_all add: opt_def)

lemma new_inode_refs:
  assumes "refs A v" and "new_inode_in d eu eg v = Inr (r, v')"
  shows "refs (A + opt r) v'" and "r = Some i \<Longrightarrow> i_count (islot v' i) = 1 \<and> count A i = 0"
proof -
  from assms(2) obtain e w where e: "get_empty_inode v = Inr (e, w)" by (auto simp: new_inode_in_def bindr_Inr_iff)
  note w = get_empty_refs[OF assms(1) e]
  from assms(2) e obtain s where s: "i_sb (islot w d) = Some s" by (auto simp: new_inode_in_def split: option.splits)
  obtain q fs where q: "minix_new_inode (islot w e) (islot w d) (s_dev (supers w s)) (s_flags (supers w s)) eu eg (s_fs (supers w s)) = (q, fs)" by fastforce
  have ex: "unat (i_count (islot w e)) = count (A + {#e#}) e" using w(2,3) by simp
  have up: "refs (A + {#e#}) (Icache.upd e (\<lambda>_. m) (set_fs s fs w))" if "i_count m = 1" for m
    by (rule refs_exact) (use that w in simp_all)
  from new_inode_cases[OF q w(2)] show "refs (A + opt r) v'"
  proof cases
    case (1 m)
    then have "iput minix_sops (Some e) (Icache.upd e (\<lambda>_. m) (set_fs s fs w)) = Inr v'" "r = None"
      using assms(2) e s q by (auto simp: new_inode_in_def bindr_Inr_iff)
    then show ?thesis using iput_refs[OF up[OF 1(2)]] by simp
  next
    case (2 m)
    then have "r = Some e" "v' = Icache.upd e (\<lambda>_. m) (set_fs s fs w)" using assms(2) e s q by (auto simp: new_inode_in_def)
    then show ?thesis using up[OF 2(2)] by simp
  qed
  assume i: "r = Some i"
  from new_inode_cases[OF q w(2)] show "i_count (islot v' i) = 1 \<and> count A i = 0"
    using i assms(2) e s q w(3) by cases (auto simp: new_inode_in_def bindr_Inr_iff)
qed

lemma iput_all_refs2:
  assumes "refs (A + {#j#} + {#i#}) v" and "iput_all [i, j] v = Inr v'"
  shows "refs A v'"
  using assms iput_refs[of "A + {#j#}" i v] iput_refs[of A j] by (auto simp: iput_all_def bindr_Inr_iff)

text \<open>What a call with the result \<open>(error, r)\<close> hands to its caller.\<close>

definition own :: "int \<Rightarrow> nat option \<Rightarrow> nat multiset" where
  "own e r = (if e = 0 then opt r else {#})"

lemma own_simps [simp]: "own 0 r = opt r" "e \<noteq> 0 \<Longrightarrow> own e r = {#}" "own e None = {#}" by (simp_all add: own_def)

lemma minix_lookup_cases:
  assumes l: "minix_lookup d name v = Inr (e, k, v')"
  obtains (none) "iput minix_sops (Some d) v = Inr v'" "e = - ENOENT" "k = None"
    | (found) s p i w where "iget minix_sops s p v = Inr (i, w)" "iput minix_sops (Some d) w = Inr v'" "e = 0" "k = Some i"
proof (cases "S_ISDIR (i_mode (islot v d))")
  case False
  then show thesis using l none by (auto simp: minix_lookup_def bindr_Inr_iff)
next
  case dir: True
  then obtain f where f: "find_in d name v = Inr f" using l by (auto simp: minix_lookup_def bindr_Inr_iff)
  show thesis
  proof (cases f)
    case None
    then show thesis using dir f l none by (auto simp: minix_lookup_def bindr_Inr_iff)
  next
    case (Some p)
    then show thesis using dir f l found by (cases "i_sb (islot v d)") (auto simp: minix_lookup_def bindr_Inr_iff)
  qed
qed

lemma lookup_refs:
  assumes r: "refs (A + {#d#}) v" and bound: "size A < MAXREF + 40" and l: "minix_lookup d name v = Inr (e, k, v')"
  shows "refs (A + own e k) v'" and "e = 0 \<longleftrightarrow> k \<noteq> None"
proof -
  show "refs (A + own e k) v'" using l
  proof (cases rule: minix_lookup_cases)
    case none
    then show ?thesis using iput_refs[OF r] by simp
  next
    case (found s p i w)
    have "refs (A + {#d#} + {#i#}) w" by (rule iget_refs[OF r _ found(1)]) (use bound in simp)
    then have "refs (A + {#i#} + {#d#}) w" by (simp add: add_mset_commute)
    from iput_refs[OF this found(2)] found(3,4) show ?thesis by simp
  qed
  show "e = 0 \<longleftrightarrow> k \<noteq> None" using l by (cases rule: minix_lookup_cases) simp_all
qed

lemma add_entry_loop_err: "add_entry_loop k n len name bh block offset fs = Inr (Inl e, n', fs') \<Longrightarrow> e \<noteq> 0"
proof (induction k arbitrary: n bh block offset fs)
  case (Suc k)
  from Suc.prems obtain z n1 f1 where b: "(case bh of Some z \<Rightarrow> Inr (Some z, n, fs) | None \<Rightarrow> minix_bread n block True fs) = Inr (z, n1, f1)"
    by (auto simp: bindr_Inr_iff)
  show ?case
  proof (cases z)
    case None
    then show ?thesis using Suc.prems b by simp
  next
    case (Some y)
    then show ?thesis using Suc.prems b by (auto simp: Let_def split: if_splits dest!: Suc.IH)
  qed
qed simp

lemma add_in_err: "add_in d name v = Inr (Inl e, v') \<Longrightarrow> e \<noteq> 0"
  by (auto simp: add_in_def on_inode_def bindr_Inr_iff minix_add_entry_def Let_def simp del: add_entry_loop.simps
      split: if_splits option.splits dest!: add_entry_loop_err)

lemma create_refs:
  assumes r: "refs (A + {#d#}) v" and c: "minix_create d name mode eu eg v = Inr (e, k, v')"
  shows "refs (A + own e k) v'" and "e = 0 \<longleftrightarrow> k \<noteq> None"
proof -
  from c obtain q w where n: "new_inode_in d eu eg v = Inr (q, w)" by (auto simp: minix_create_def bindr_Inr_iff)
  note w = new_inode_refs[OF r n]
  have "refs (A + own e k) v' \<and> (e = 0 \<longleftrightarrow> k \<noteq> None)"
  proof (cases q)
    case None
    then have "iput minix_sops (Some d) w = Inr v'" "e = - ENOSPC" "k = None" using c n by (auto simp: minix_create_def bindr_Inr_iff)
    then show ?thesis using iput_refs[of A d w v'] w(1) None by simp
  next
    case (Some i)
    let ?w = "Icache.upd i (\<lambda>n. n\<lparr>i_op := File_ops, i_mode := mode, i_dirt := True\<rparr>) w"
    from c n Some obtain p u where a: "add_in d name ?w = Inr (p, u)" by (auto simp: minix_create_def bindr_Inr_iff)
    have "refs (A + {#d#} + {#i#}) ?w" using w(1) Some refs_upd[of "\<lambda>n. n\<lparr>i_op := File_ops, i_mode := mode, i_dirt := True\<rparr>" w i] by simp
    note ru = add_in_refs(1)[OF this a] and ku = add_in_refs(2)[OF this a, of i]
    have cu: "i_count (islot u i) = 1" "count (A + {#d#}) i = 0" using ku w(2)[OF Some] by (simp_all add: key_def)
    show ?thesis
    proof (cases p)
      case (Inl er)
      then have "iput_all [i, d] (drop_link i u) = Inr v'" "e = er" "k = None" using c n Some a by (auto simp: minix_create_def bindr_Inr_iff)
      moreover have "refs (A + {#d#} + {#i#}) (drop_link i u)" unfolding drop_link_def by (rule refs_exact[OF ru]) (use cu in simp_all)
      ultimately show ?thesis using iput_all_refs2[of A d i "drop_link i u" v'] add_in_err a Inl by auto
    next
      case (Inr z)
      let ?x = "on_fs d (set_entry z (i_ino (islot u i))) u"
      from Inr have "iput minix_sops (Some d) ?x = Inr v'" "e = 0" "k = Some i" using c n Some a by (auto simp: minix_create_def bindr_Inr_iff)
      moreover have "refs (A + {#i#} + {#d#}) ?x" using ru by (simp add: add_mset_commute)
      ultimately show ?thesis using iput_refs[of "A + {#i#}" d ?x v'] by simp
    qed
  qed
  then show "refs (A + own e k) v'" "e = 0 \<longleftrightarrow> k \<noteq> None" by simp_all
qed

lemma lookup_sbs: "minix_lookup d name v = Inr (e, k, v') \<Longrightarrow> sbs v' = sbs v"
  by (erule minix_lookup_cases) (auto dest!: iget_sbs iput_sbs)

lemma create_sbs:
  assumes c: "minix_create d name mode eu eg v = Inr (e, k, v')"
  shows "sbs v' = sbs v"
proof -
  from c obtain q w where n: "new_inode_in d eu eg v = Inr (q, w)" by (auto simp: minix_create_def bindr_Inr_iff)
  have "sbs v' = sbs w"
  proof (cases q)
    case None
    then show ?thesis using c n by (auto simp: minix_create_def bindr_Inr_iff dest: iput_sbs)
  next
    case (Some i)
    let ?w = "Icache.upd i (\<lambda>n. n\<lparr>i_op := File_ops, i_mode := mode, i_dirt := True\<rparr>) w"
    from c n Some obtain p u where a: "add_in d name ?w = Inr (p, u)" by (auto simp: minix_create_def bindr_Inr_iff)
    have "sbs v' = sbs u"
      using c n Some a by (cases p) (auto simp: minix_create_def bindr_Inr_iff drop_link_def simp del: Icache.iupd_simps dest!: iput_sbs iput_all_sbs)
    then show ?thesis using add_in_sbs[OF a] by simp
  qed
  then show ?thesis using new_inode_sbs[OF n] by simp
qed

section \<open>One name\<close>

text \<open>A call that started in \<open>z0\<close> has changed only the inodes and the contents of file systems, and the references are \<open>A\<close>.\<close>

definition walked :: "nsys \<Rightarrow> nat multiset \<Rightarrow> nsys \<Rightarrow> bool" where
  "walked z0 A s \<longleftrightarrow> refs A (vf s) \<and> z0 = s\<lparr>vf := vf z0\<rparr> \<and> sbs (vf s) = sbs (vf z0)"

lemma walked_vf: "walked z0 A s \<Longrightarrow> refs B v \<Longrightarrow> sbs v = sbs (vf s) \<Longrightarrow> walked z0 B (s\<lparr>vf := v\<rparr>)"
  by (simp add: walked_def)

lemma walkedD: "walked z0 A s \<Longrightarrow> refs A (vf s)"
  by (simp add: walked_def)

lemma put_refs: "walked z0 (A + {#i#}) s \<Longrightarrow> put_inode i s = Inr s' \<Longrightarrow> walked z0 A s'"
  using iput_refs[of A i "vf s"] by (auto simp: put_inode_def on_vfs_def bindr_Inr_iff walked_def dest: iput_sbs)

lemma ref_refs: "walked z0 A s \<Longrightarrow> size A < MAXREF + 100 \<Longrightarrow> walked z0 (A + {#i#}) (ref_inode i s)"
  using refs_upd_inc[of A "vf s" i] by (simp add: ref_inode_def walked_def)

lemma put_err:
  assumes "walked z0 (A + {#i#}) s" and "bindr (put_inode i s) (\<lambda>s. Inr (er, k', s)) = Inr (e, k, s')" and "er \<noteq> 0"
  shows "walked z0 (A + own e k) s' \<and> e \<noteq> 0"
  using assms put_refs by (auto simp: bindr_Inr_iff)

lemma lookup_name_refs:
  assumes r: "walked z0 (A + {#d#}) s" and bound: "size A < MAXREF + 30" and l: "lookup_name (Some d) name s = Inr (e, k, s')"
  shows "walked z0 (A + own e k) s' \<and> (e = 0 \<longrightarrow> k \<noteq> None)"
proof (cases "name = [dot, dot] \<and> d = root_i (cur s)")
  case True
  then show ?thesis using l r by (auto simp: lookup_name_def)
next
  case False
  define perm where "perm = permission d MAY_EXEC s"
  define rest where "rest = (\<lambda>(d, s :: nsys). case d of
                  None \<Rightarrow> Inr (- ENOENT, None, s)
                | Some d \<Rightarrow>
                    if i_op (islot (vf s) d) \<noteq> Dir_ops then Inl (Panic ''Oops - trying to access dir'')
                    else if perm \<noteq> 0 then bindr (put_inode d s) (\<lambda>s. Inr (perm, None, s))
                    else if name = [] then Inr (0, Some d, s)
                    else with_vfs (minix_lookup d name) s)"
  have rest: "walked z0 (A + own e k) s' \<and> (e = 0 \<longrightarrow> k \<noteq> None)"
    if h: "rest (q, t) = Inr (e, k, s')" "walked z0 (A + opt q) t" for q t
  proof (cases q)
    case None
    then show ?thesis using h by (auto simp: rest_def)
  next
    case (Some c)
    note h = h[unfolded rest_def Some, simplified]
    have op: "i_op (islot (vf t) c) = Dir_ops" using h(1) by (rule contrapos_pp) simp
    consider "perm \<noteq> 0" | "perm = 0" "name = []" | "perm = 0" "name \<noteq> []" by blast
    then show ?thesis
    proof cases
      case 1
      then show ?thesis using put_err[of z0 A c t perm None e k s'] h op by auto
    next
      case 2
      then show ?thesis using h op by auto
    next
      case 3
      then obtain v where "minix_lookup c name (vf t) = Inr (e, k, v)" "s' = t\<lparr>vf := v\<rparr>" using h(1) op by (auto simp: with_vfs_def bindr_Inr_iff)
      then show ?thesis using lookup_refs[of A c "vf t" name e k v] h(2) bound walked_vf[OF h(2)] lookup_sbs by (auto simp: walkedD)
    qed
  qed
  have l: "bindr (case i_sb (islot (vf s) d) of
                       None \<Rightarrow> Inr (Some d, s)
                     | Some b \<Rightarrow>
                         if name = [dot, dot] \<and> s_mounted (supers (vf s) b) = Some d then
                           bindr (put_inode d s) (\<lambda>s.
                           bindr (deref (i_sb (islot (vf s) d))) (\<lambda>b.
                             case s_covered (supers (vf s) b) of
                               None \<Rightarrow> Inr (None, s)
                             | Some c \<Rightarrow> Inr (Some c, ref_inode c s)))
                         else Inr (Some d, s)) rest = Inr (e, k, s')"
    using l False unfolding lookup_name_def rest_def perm_def Let_def by auto
  then obtain q t where t: "rest (q, t) = Inr (e, k, s')" "q = Some d \<and> t = s \<or> (\<exists>u. put_inode d s = Inr u \<and> (q = None \<and> t = u \<or> (\<exists>c. q = Some c \<and> t = ref_inode c u)))"
    by (auto simp: bindr_Inr_iff split: option.splits if_splits)
  show ?thesis
  proof (rule rest[OF t(1)])
    show "walked z0 (A + opt q) t" using t(2) r put_refs[OF r] bound by (auto intro!: ref_refs[simplified])
  qed
qed

section \<open>Paths\<close>

text \<open>Whatever the call returns: beside the references \<open>A\<close> there is one to the inode it returns, if it succeeds.\<close>

definition gives :: "nsys \<Rightarrow> nat multiset \<Rightarrow> (int \<times> nat option \<times> nsys) kres \<Rightarrow> bool" where
  "gives z0 A r \<longleftrightarrow> (\<forall>e k s. r = Inr (e, k, s) \<longrightarrow> walked z0 (A + own e k) s \<and> (e = 0 \<longrightarrow> k \<noteq> None))"

definition gives_dir :: "nsys \<Rightarrow> nat multiset \<Rightarrow> (int \<times> (nat \<times> u8 list) option \<times> nsys) kres \<Rightarrow> bool" where
  "gives_dir z0 A r \<longleftrightarrow> (\<forall>e k s. r = Inr (e, k, s) \<longrightarrow> walked z0 (A + opt (map_option fst k)) s \<and> (e = 0 \<longleftrightarrow> k \<noteq> None))"

lemma gives_simps [simp]:
  "gives z0 A (Inr (e, k, s)) \<longleftrightarrow> walked z0 (A + own e k) s \<and> (e = 0 \<longrightarrow> k \<noteq> None)" "gives z0 A (Inl x)"
  "gives_dir z0 A (Inr (e, d, s)) \<longleftrightarrow> walked z0 (A + opt (map_option fst d)) s \<and> (e = 0 \<longleftrightarrow> d \<noteq> None)" "gives_dir z0 A (Inl x)"
  by (simp_all add: gives_def gives_dir_def)

lemma gives_put:
  assumes "walked z0 (A + {#i#}) s"
  shows "(\<And>t. walked z0 A t \<Longrightarrow> gives z0 B (f t)) \<Longrightarrow> gives z0 B (bindr (put_inode i s) f)"
    and "(\<And>t. walked z0 A t \<Longrightarrow> gives_dir z0 B (g t)) \<Longrightarrow> gives_dir z0 B (bindr (put_inode i s) g)"
  using put_refs[OF assms] by (cases "put_inode i s"; simp)+

lemma gives_bind:
  assumes "gives z0 A r"
  shows "(\<And>k s. walked z0 (A + {#k#}) s \<Longrightarrow> gives z0 B (f (0, Some k, s))) \<Longrightarrow> (\<And>e k s. e \<noteq> 0 \<Longrightarrow> walked z0 A s \<Longrightarrow> gives z0 B (f (e, k, s))) \<Longrightarrow> gives z0 B (bindr r f)"
    and "(\<And>k s. walked z0 (A + {#k#}) s \<Longrightarrow> gives_dir z0 B (g (0, Some k, s))) \<Longrightarrow> (\<And>e k s. e \<noteq> 0 \<Longrightarrow> walked z0 A s \<Longrightarrow> gives_dir z0 B (g (e, k, s))) \<Longrightarrow> gives_dir z0 B (bindr r g)"
proof -
  show "gives z0 B (bindr r f)" if a: "\<And>k s. walked z0 (A + {#k#}) s \<Longrightarrow> gives z0 B (f (0, Some k, s))" "\<And>e k s. e \<noteq> 0 \<Longrightarrow> walked z0 A s \<Longrightarrow> gives z0 B (f (e, k, s))"
  proof (cases r)
    case (Inr p)
    then show ?thesis using assms a(1)[of "the (fst (snd p))" "snd (snd p)"] a(2)[of "fst p" "snd (snd p)" "fst (snd p)"]
      by (cases p; cases "fst p = 0") auto
  qed simp
  show "gives_dir z0 B (bindr r g)" if a: "\<And>k s. walked z0 (A + {#k#}) s \<Longrightarrow> gives_dir z0 B (g (0, Some k, s))" "\<And>e k s. e \<noteq> 0 \<Longrightarrow> walked z0 A s \<Longrightarrow> gives_dir z0 B (g (e, k, s))"
  proof (cases r)
    case (Inr p)
    then show ?thesis using assms a(1)[of "the (fst (snd p))" "snd (snd p)"] a(2)[of "fst p" "snd (snd p)" "fst (snd p)"]
      by (cases p; cases "fst p = 0") auto
  qed simp
qed

lemma gives_dir_bind:
  assumes "gives_dir z0 A r"
    and "\<And>k n s. walked z0 (A + {#k#}) s \<Longrightarrow> gives z0 B (f (0, Some (k, n), s))" "\<And>e s. e \<noteq> 0 \<Longrightarrow> walked z0 A s \<Longrightarrow> gives z0 B (f (e, None, s))"
  shows "gives z0 B (bindr r f)"
proof (cases r)
  case (Inr p)
  obtain e k s where p: "p = (e, k, s)" by (cases p)
  show ?thesis
  proof (cases k)
    case None
    then show ?thesis using assms(1) assms(3)[of e s] Inr p by simp
  next
    case (Some q)
    then show ?thesis using assms(1) assms(2)[of "fst q" s "snd q"] Inr p by simp
  qed
qed simp

lemma lookup_gives: "walked z0 (A + {#d#}) s \<Longrightarrow> size A < MAXREF + 30 \<Longrightarrow> gives z0 A (lookup_name (Some d) name s)"
  using lookup_name_refs[of z0 A d s name] unfolding gives_def by blast

text \<open>The interface to the operation \<^verbatim>\<open>follow_link\<close> of an inode: it takes over the references to the directory and to the
  link, and hands out one to the inode that it returns.\<close>

locale follow_ops =
  fixes fl :: follow
  assumes fl_refs: "walked z0 (A + {#dir#} + {#inode#}) s \<Longrightarrow> size A < MAXREF \<Longrightarrow> gives z0 A (fl dir inode flag mode s)"
begin

lemma follow_link_refs: "walked z0 (A + {#dir#} + {#inode#}) s \<Longrightarrow> size A < MAXREF \<Longrightarrow> gives z0 A (follow_link fl dir inode flag mode s)"
  by (auto simp: follow_link_def add_mset_commute[of inode dir] intro!: fl_refs[simplified] gives_put(1)[of z0 "A + {#inode#}"])

lemma dir_walk_refs: "walked z0 (A + {#base#}) s \<Longrightarrow> size A < MAXREF \<Longrightarrow> gives_dir z0 A (dir_walk fl pathname base s)"
proof (induction pathname arbitrary: base s rule: length_induct)
  case (1 p)
  let ?name = "takeWhile (\<lambda>c. c \<noteq> slash) p"
  show ?case
  proof (cases "dropWhile (\<lambda>c. c \<noteq> slash) p")
    case Nil
    then have "dir_walk fl p base s = (if i_op (islot (vf s) base) \<noteq> Dir_ops then bindr (put_inode base s) (\<lambda>s. Inr (- ENOTDIR, None, s))
        else Inr (0, Some (base, ?name), s))" by (subst dir_walk.simps) (simp only: Let_def list.case)
    then show ?thesis using 1(2) by (auto intro!: gives_put(2)[of z0 A])
  next
    case (Cons c rest)
    then have len: "length rest < length p" using length_dropWhile_le[of "\<lambda>c. c \<noteq> slash" p] by simp
    let ?f = "\<lambda>(error, inode, s). if error \<noteq> 0 then bindr (put_inode base s) (\<lambda>s. Inr (error, None, s))
              else bindr (deref inode) (\<lambda>i. bindr (follow_link fl base i 0 0 s) (\<lambda>(error, b, s).
                  if error \<noteq> 0 then Inr (error, None, s) else bindr (deref b) (\<lambda>b. dir_walk fl rest b s)))"
    have eq: "dir_walk fl p base s = bindr (lookup_name (Some base) ?name (ref_inode base s)) ?f"
      by (subst dir_walk.simps) (simp add: Cons)
    have "walked z0 (A + {#base#} + {#base#}) (ref_inode base s)" using ref_refs[OF 1(2)] 1(3) by simp
    from lookup_gives[OF this] have l: "gives z0 (A + {#base#}) (lookup_name (Some base) ?name (ref_inode base s))" using 1(3) by simp
    show ?thesis unfolding eq
    proof (rule gives_bind(2)[OF l])
      fix i and t :: nsys assume r: "walked z0 (A + {#base#} + {#i#}) t"
      have "gives_dir z0 A (bindr (follow_link fl base i 0 0 t) (\<lambda>(error, b, s).
              if error \<noteq> 0 then Inr (error, None, s) else bindr (deref b) (\<lambda>b. dir_walk fl rest b s)))"
        by (rule gives_bind(2)[OF follow_link_refs[OF r 1(3)]]) (use 1(1)[rule_format, OF len] 1(3) in \<open>simp_all add: deref_def\<close>)
      then show "gives_dir z0 A (?f (0, Some i, t))" by (simp add: deref_def)
    next
      fix er i and t :: nsys assume "er \<noteq> (0 :: int)" "walked z0 (A + {#base#}) t"
      then show "gives_dir z0 A (?f (er, i, t))" by (auto intro!: gives_put(2)[of z0 A])
    qed
  qed
qed

lemma dir_namei_refs:
  assumes "walked z0 (A + opt base) s" and bound: "size A < MAXREF"
  shows "gives_dir z0 A (dir_namei fl pathname base s)"
proof -
  define b t where bt: "b = (case base of Some b \<Rightarrow> b | None \<Rightarrow> pwd_i (cur s))" "t = (case base of Some b \<Rightarrow> s | None \<Rightarrow> ref_inode (pwd_i (cur s)) s)"
  have r: "walked z0 (A + {#b#}) t" using assms by (cases base) (auto simp: bt intro!: ref_refs[simplified])
  have eq: "dir_namei fl pathname base s = (case pathname of
          c # rest \<Rightarrow>
            if c = slash then bindr (put_inode b t) (\<lambda>s. dir_walk fl rest (root_i (cur s)) (ref_inode (root_i (cur s)) s))
            else dir_walk fl pathname b t
        | [] \<Rightarrow> dir_walk fl pathname b t)"
    unfolding dir_namei_def bt by (cases base) (simp_all split: list.split)
  have "gives_dir z0 A (bindr (put_inode b t) (\<lambda>s. dir_walk fl rest (root_i (cur s)) (ref_inode (root_i (cur s)) s)))" for rest
    by (rule gives_put(2)[OF r], rule dir_walk_refs[OF ref_refs]) (use bound in simp_all)
  then show ?thesis unfolding eq using dir_walk_refs[OF r bound] by (simp split: list.split)
qed

end

lemma open_inode_refs:
  assumes r: "walked z0 (A + {#i#}) s"
  shows "gives z0 A (open_inode i flag s)"
proof -
  let ?n = "islot (vf s) i"
  define device where "device = (S_ISBLK (i_mode ?n) \<or> S_ISCHR (i_mode ?n))"
  define er where "er = (if S_ISDIR (i_mode ?n) \<and> flag AND 2 \<noteq> 0 then - EISDIR
                  else if permission i (ACC_MODE flag) s = 0 \<and> device \<and> i_flags ?n AND 4 \<noteq> 0 then - EACCES
                  else permission i (ACC_MODE flag) s)"
  let ?v = "Icache.upd i (\<lambda>n. n\<lparr>i_size := 0\<rparr>) (vf s)"
  define tr where "tr = (if i_op ?n = File_ops \<or> i_op ?n = Dir_ops
                    then on_inode i (\<lambda>n fs. bindr (minix_truncate n [] fs) (\<lambda>(n, fs). Inr ((), n, fs))) ?v
                    else Inr ((), ?v))"
  have eq: "open_inode i flag s = (if er \<noteq> 0 then bindr (put_inode i s) (\<lambda>s. Inr (er, None, s))
        else if flag AND O_TRUNC \<noteq> 0 \<and> \<not> device then
          bindr tr (\<lambda>(_, v). Inr (0, Some i, s\<lparr>vf := Icache.upd i (\<lambda>n. n\<lparr>i_dirt := True\<rparr>) v\<rparr>))
        else Inr (0, Some i, s))"
    unfolding open_inode_def er_def device_def tr_def Let_def by (rule refl)
  have v: "refs (A + {#i#}) ?v" using walkedD[OF r] refs_upd[of "\<lambda>n. n\<lparr>i_size := 0\<rparr>" "vf s" i] by simp
  have trr: "refs (A + {#i#}) w" if "tr = Inr ((), w)" for w
  proof (cases "i_op ?n = File_ops \<or> i_op ?n = Dir_ops")
    case True
    then have "on_inode i (\<lambda>n fs. bindr (minix_truncate n [] fs) (\<lambda>(n, fs). Inr ((), n, fs))) ?v = Inr ((), w)" using that unfolding tr_def by (simp only: if_True)
    then show ?thesis by (rule on_inode_refs(1)[OF v]) (auto simp: bindr_Inr_iff dest: minix_truncate_key)
  next
    case False
    then show ?thesis using v that by (auto simp: tr_def)
  qed
  have trs: "sbs w = sbs (vf s)" if "tr = Inr ((), w)" for w
  proof (cases "i_op ?n = File_ops \<or> i_op ?n = Dir_ops")
    case True
    then have "on_inode i (\<lambda>n fs. bindr (minix_truncate n [] fs) (\<lambda>(n, fs). Inr ((), n, fs))) ?v = Inr ((), w)" using that unfolding tr_def by (simp only: if_True)
    from on_inode_sbs[OF this] show ?thesis by simp
  next
    case False
    then have "w = ?v" using that by (auto simp: tr_def)
    then show ?thesis by simp
  qed
  have t: "gives z0 A (bindr tr (\<lambda>(_, v). Inr (0, Some i, s\<lparr>vf := Icache.upd i (\<lambda>n. n\<lparr>i_dirt := True\<rparr>) v\<rparr>)))"
  proof (cases tr)
    case (Inr q)
    then obtain w where w: "tr = Inr ((), w)" by (cases q) simp
    have "refs (A + {#i#}) (Icache.upd i (\<lambda>n. n\<lparr>i_dirt := True\<rparr>) w)" using trr[OF w] refs_upd[of "\<lambda>n. n\<lparr>i_dirt := True\<rparr>" w i] by simp
    then have "walked z0 (A + {#i#}) (s\<lparr>vf := Icache.upd i (\<lambda>n. n\<lparr>i_dirt := True\<rparr>) w\<rparr>)" by (rule walked_vf[OF r]) (use trs[OF w] in simp)
    then show ?thesis using w by simp
  qed simp
  have p: "er \<noteq> 0 \<Longrightarrow> gives z0 A (bindr (put_inode i s) (\<lambda>s. Inr (er, None, s)))" by (rule gives_put(1)[OF r]) simp
  show ?thesis unfolding eq using p t r by (simp del: Icache.iupd_simps)
qed

lemma open_create_refs:
  assumes r: "walked z0 (A + {#d#}) s" and bound: "size A < MAXREF"
  shows "gives z0 A (open_create d name mode s)"
proof -
  let ?c = "with_vfs (minix_create d name mode (euid (cur s)) (egid (cur s))) (ref_inode d s)"
  have r2: "walked z0 (A + {#d#} + {#d#}) (ref_inode d s)" using ref_refs[OF r] bound by simp
  have "gives z0 (A + {#d#}) ?c"
    unfolding gives_def with_vfs_def by (auto simp: bindr_Inr_iff dest: create_refs[OF walkedD[OF r2]] dest: create_sbs intro!: walked_vf[OF r2])
  then have "gives z0 A (bindr ?c (\<lambda>(error, r, s). bindr (put_inode d s) (\<lambda>s. Inr (error, r, s))))"
    by (rule gives_bind(1)) (auto simp: add_mset_commute intro!: gives_put(1))
  moreover have "gives z0 A (bindr (put_inode d s) (\<lambda>s. Inr (er, None, s)))" if "er \<noteq> 0" for er by (rule gives_put(1)[OF r]) (use that in simp)
  ultimately show ?thesis unfolding open_create_def Let_def by simp
qed

context follow_ops
begin

lemma base_namei_refs:
  assumes "walked z0 (A + opt base) s" and bound: "size A < MAXREF"
  shows "gives z0 A (base_namei fl pathname base b s)"
  unfolding base_namei_def
proof (rule gives_dir_bind[OF dir_namei_refs[OF assms]], goal_cases)
  case (1 d n t)
  have "walked z0 (A + {#d#} + {#d#}) (ref_inode d t)" using ref_refs[OF 1] bound by simp
  from lookup_gives[OF this] have l: "gives z0 (A + {#d#}) (lookup_name (Some d) n (ref_inode d t))" using bound by simp
  show ?case unfolding prod.case option.case
  proof (rule gives_bind(1)[OF l], goal_cases)
    case (1 i u)
    have f: "gives z0 A (bindr (follow_link fl d i 0 0 u) (\<lambda>(error, i, s). if error \<noteq> 0 then Inr (error, None, s) else Inr (0, i, s)))"
      by (rule gives_bind(1)[OF follow_link_refs[OF 1 bound]]) simp_all
    have "gives z0 A (bindr (put_inode d u) (\<lambda>s. Inr (0, Some i, s)))" using 1 by (intro gives_put(1)[of z0 "A + {#i#}"]) (simp_all add: add_mset_commute)
    then show ?case using f by (simp add: deref_def)
  next
    case (2 e i u)
    then show ?case by (auto intro!: gives_put(1)[of z0 A])
  qed
qed simp

lemma namei_refs:
  assumes "walked z0 A s" and bound: "size A < MAXREF"
  shows "gives z0 A (namei fl pathname w perm s)"
  unfolding namei_def
proof (rule gives_bind(1)[OF base_namei_refs[of z0 A None s]], goal_cases)
  case (3 i t)
  let ?m = "S_ISDIR (i_mode (islot (vf t) i))"
  define er where "er = (if w = NOT_DIR \<and> ?m then - EISDIR else if w = IS_DIR \<and> \<not> ?m then - ENOTDIR else if perm \<noteq> 0 then permission i perm t else 0)"
  have "gives z0 A (if er \<noteq> 0 then bindr (put_inode i t) (\<lambda>s. Inr (er, Some i, s)) else Inr (0, Some i, t))"
    using 3 by (auto intro!: gives_put(1)[of z0 A])
  then show ?case by (simp add: deref_def Let_def er_def cong: if_cong)
qed (use assms in simp_all)

lemma open_namei_refs:
  assumes "walked z0 (A + opt base) s" and bound: "size A < MAXREF"
  shows "gives z0 A (open_namei fl pathname flag mode base s)"
  unfolding open_namei_def Let_def
proof (rule gives_dir_bind[OF dir_namei_refs[OF assms]], goal_cases)
  case (1 d n t)
  have "walked z0 (A + {#d#} + {#d#}) (ref_inode d t)" using ref_refs[OF 1] bound by simp
  from lookup_gives[OF this] have l: "gives z0 (A + {#d#}) (lookup_name (Some d) n (ref_inode d t))" using bound by simp
  have er: "gives z0 A (bindr (put_inode d t) (\<lambda>s. Inr (e, None, s)))" if "e \<noteq> 0" for e by (rule gives_put(1)[OF 1]) (use that in simp)
  show ?case unfolding prod.case option.case
  proof (cases "n = []", goal_cases)
    case 1
    then show ?case using er \<open>walked z0 (A + {#d#}) t\<close> by simp
  next
    case 2
    show ?case unfolding if_not_P[OF 2]
    proof (rule gives_bind(1)[OF l], goal_cases)
      case (1 i u)
      have f: "gives z0 A (bindr (follow_link fl d i flag m u) (\<lambda>(error, i, s).
                          if error \<noteq> 0 then Inr (error, None, s) else bindr (deref i) (\<lambda>i. open_inode i flag s)))" for m
        by (rule gives_bind(1)[OF follow_link_refs[OF 1 bound]]) (simp_all add: deref_def open_inode_refs)
      have "gives z0 A (bindr (put_inode i u) (\<lambda>s. bindr (put_inode d s) (\<lambda>s. Inr (- EEXIST, None, s))))"
        by (rule gives_put(1)[OF 1], rule gives_put(1)) simp_all
      then show ?case using f by (simp add: deref_def)
    next
      case (2 e i u)
      then show ?case using open_create_refs[OF 2(2) bound] by (auto intro!: gives_put(1)[of z0 A])
    qed
  qed
qed simp

end

section \<open>Symbolic links\<close>

lemma follow_put2: "walked z0 (A + {#dir#} + {#inode#}) s \<Longrightarrow> e \<noteq> 0 \<Longrightarrow> gives z0 A (bindr (put_inode inode s) (\<lambda>s. bindr (put_inode dir s) (\<lambda>s. Inr (e, None, s))))"
  by (rule gives_put(1), assumption, rule gives_put(1)) simp_all

lemma follow_not_link: "walked z0 (A + {#dir#} + {#inode#}) s \<Longrightarrow> gives z0 A (bindr (put_inode dir s) (\<lambda>s. Inr (0, Some inode, s)))"
  by (rule gives_put(1)[of z0 "A + {#inode#}"]) (simp_all add: add_mset_commute)

lemma minix_follow_ops: "follow_ops (minix_follow_link text n)"
proof (induction n)
  case 0
  show ?case by unfold_locales (use follow_put2 follow_not_link in simp)
next
  case (Suc n)
  show ?case
  proof
    fix A dir inode flag mode and s z0 :: nsys
    assume r: "walked z0 (A + {#dir#} + {#inode#}) s" and bound: "size A < MAXREF"
    let ?g = "\<lambda>(bh, v). case bh of
           None \<Rightarrow> bindr (put_inode inode (s\<lparr>vf := v\<rparr>)) (\<lambda>s. bindr (put_inode dir s) (\<lambda>s. Inr (- EIO, None, s)))
         | Some z \<Rightarrow> bindr (put_inode inode (s\<lparr>vf := v\<rparr>)) (\<lambda>s. open_namei (minix_follow_link text n) (text z s) flag mode (Some dir) s)"
    have "gives z0 A (bindr (on_inode inode (\<lambda>m. minix_bread m 0 False) (vf s)) ?g)"
    proof (cases "on_inode inode (\<lambda>m. minix_bread m 0 False) (vf s)")
      case (Inr p)
      obtain bh v where p: "p = (bh, v)" by (cases p)
      have "refs (A + {#dir#} + {#inode#}) v" by (rule on_inode_refs(1)[OF walkedD[OF r] Inr[unfolded p]]) (rule bread_key)
      then have v: "walked z0 (A + {#dir#} + {#inode#}) (s\<lparr>vf := v\<rparr>)" by (rule walked_vf[OF r _ on_inode_sbs[OF Inr[unfolded p]]])
      show ?thesis
      proof (cases bh)
        case None
        then show ?thesis using follow_put2[OF v, of "- EIO"] Inr p by simp
      next
        case (Some z)
        have "gives z0 A (bindr (put_inode inode (s\<lparr>vf := v\<rparr>)) (\<lambda>s. open_namei (minix_follow_link text n) (text z s) flag mode (Some dir) s))"
          by (rule gives_put(1)[OF v], rule follow_ops.open_namei_refs[OF Suc.IH]) (use bound in simp_all)
        then show ?thesis using Inr p Some by simp
      qed
    qed simp
    then show "gives z0 A (minix_follow_link text (Suc n) dir inode flag mode s)" using follow_not_link[OF r] by simp
  qed
qed

interpretation lk: follow_ops "links str" for str
  unfolding links_def by (rule minix_follow_ops)

end
