(* ===== verification/Open.thy ===== *)
theory Open
  imports NameiRefs
begin

text \<open>
  The device switch, \<^verbatim>\<open>fs/devices.c\<close>, and \<^verbatim>\<open>sys_open\<close> of \<^verbatim>\<open>fs/open.c\<close>. What the drivers' functions for open and
  release promise is the locale \<open>drivers\<close>. \<^verbatim>\<open>sys_open\<close> is composed of the file table (Files), the walk
  along a path (Namei) and the inode cache (Icache), and keeps the invariants of all three.
\<close>

section \<open>The device switch\<close>

abbreviation (input) MAX_CHRDEV :: nat where "MAX_CHRDEV \<equiv> 9"
abbreviation (input) MAX_BLKDEV :: nat where "MAX_BLKDEV \<equiv> 8"
abbreviation ENODEV :: int where "ENODEV \<equiv> 19"

record devsw =
  chrdevs :: "nat \<Rightarrow> file_operations option"
  blkdevs :: "nat \<Rightarrow> file_operations option"

definition get_blkfops :: "u16 \<Rightarrow> devsw \<Rightarrow> file_operations option" where
  "get_blkfops major d = (if unat major \<ge> MAX_BLKDEV then None else blkdevs d (unat major))"

definition register_chrdev :: "u16 \<Rightarrow> file_operations \<Rightarrow> devsw \<Rightarrow> int \<times> devsw" where
  "register_chrdev major fops d =
    (if unat major \<ge> MAX_CHRDEV then (- EINVAL, d)
     else if chrdevs d (unat major) \<noteq> None \<and> chrdevs d (unat major) \<noteq> Some fops then (- EBUSY, d)
     else (0, d\<lparr>chrdevs := (chrdevs d)(unat major := Some fops)\<rparr>))"

definition register_blkdev :: "u16 \<Rightarrow> file_operations \<Rightarrow> devsw \<Rightarrow> int \<times> devsw" where
  "register_blkdev major fops d =
    (if unat major \<ge> MAX_BLKDEV then (- EINVAL, d)
     else if blkdevs d (unat major) \<noteq> None \<and> blkdevs d (unat major) \<noteq> Some fops then (- EBUSY, d)
     else (0, d\<lparr>blkdevs := (blkdevs d)(unat major := Some fops)\<rparr>))"

text \<open>The column \<^verbatim>\<open>open\<close> of the tables \<^verbatim>\<open>struct file_operations\<close>. \<open>drv\<close> are those of the device drivers.\<close>

type_synonym open_fn = "nat \<Rightarrow> nat \<Rightarrow> nsys \<Rightarrow> (int \<times> nsys) kres"
type_synonym open_col = "file_operations \<Rightarrow> open_fn option"

definition dev_open :: "(nat \<Rightarrow> file_operations option) \<Rightarrow> nat \<Rightarrow> open_col \<Rightarrow> open_fn" where
  "dev_open devs lim drv inode filp s =
    (let i = unat (drop_bit 8 (i_rdev (islot (vf s) inode)))
     in if i \<ge> lim then Inr (- ENODEV, s)
        else case devs i of
          None \<Rightarrow> Inr (- ENODEV, s)
        | Some fops \<Rightarrow>
            let s = updf filp (\<lambda>f. f\<lparr>f_op := Some fops\<rparr>) s
            in (case drv fops of None \<Rightarrow> Inr (0, s) | Some op \<Rightarrow> op inode filp s))"

definition blkdev_open :: "devsw \<Rightarrow> open_col \<Rightarrow> open_fn" where
  "blkdev_open d drv = dev_open (blkdevs d) MAX_BLKDEV drv"

definition chrdev_open :: "devsw \<Rightarrow> open_col \<Rightarrow> open_fn" where
  "chrdev_open d drv = dev_open (chrdevs d) MAX_CHRDEV drv"

definition opens :: "devsw \<Rightarrow> open_col \<Rightarrow> open_col" where
  "opens d drv t =
    (case t of
       Minix_file_fops \<Rightarrow> None
     | Minix_dir_fops \<Rightarrow> None
     | Read_pipe_fops \<Rightarrow> Some (\<lambda>i f s. bindr (lift_pipe (\<lambda>p. snd (pipe_read_open p)) i s) (\<lambda>s. Inr (0, s)))
     | Write_pipe_fops \<Rightarrow> Some (\<lambda>i f s. bindr (lift_pipe (\<lambda>p. snd (pipe_write_open p)) i s) (\<lambda>s. Inr (0, s)))
     | Rdwr_pipe_fops \<Rightarrow> Some (\<lambda>i f s.
         bindr (lift_pipe (\<lambda>p. snd (pipe_rdwr_open (f_mode (file_array s f) AND FMODE_READ \<noteq> 0) (f_mode (file_array s f) AND FMODE_WRITE \<noteq> 0) p)) i s)
           (\<lambda>s. Inr (0, s)))
     | Def_chr_fops \<Rightarrow> Some (chrdev_open d drv)
     | Def_blk_fops \<Rightarrow> Some (blkdev_open d drv)
     | Other_fops \<Rightarrow> drv Other_fops)"

section \<open>Open\<close>

text \<open>\<^verbatim>\<open>default_file_ops\<close> of the inode operations.\<close>

fun default_file_ops :: "inode_ops \<Rightarrow> file_operations option" where
  "default_file_ops File_ops = Some Minix_file_fops"
| "default_file_ops Dir_ops = Some Minix_dir_fops"
| "default_file_ops Chrdev_ops = Some Def_chr_fops"
| "default_file_ops Blkdev_ops = Some Def_blk_fops"
| "default_file_ops Pipe_ops = Some Rdwr_pipe_fops"
| "default_file_ops _ = None"

text \<open>The end of \<^verbatim>\<open>sys_open\<close>: the inode is entered in the file. When no descriptor is left, the table whose
  \<^verbatim>\<open>release\<close> is called is the one from before the call of \<^verbatim>\<open>open\<close>.\<close>

definition open_file :: "open_col \<Rightarrow> minix_fs release_col \<Rightarrow> nat \<Rightarrow> nat \<Rightarrow> nsys \<Rightarrow> (int \<times> nsys) kres" where
  "open_file opn rel f i s =
    (let fop = default_file_ops (i_op (islot (vf s) i));
         s = updf f (\<lambda>x. x\<lparr>f_inode := Some i, f_pos := 0, f_op := fop\<rparr>) s;
         cleanup = (\<lambda>error s. bindr (put_inode i s) (\<lambda>s. Inr (error, drop_filp f s)))
     in bindr (case fop of None \<Rightarrow> Inr (0, s) | Some t \<Rightarrow> (case opn t of None \<Rightarrow> Inr (0, s) | Some open \<Rightarrow> open i f s)) (\<lambda>(error, s).
          if error \<noteq> 0 then cleanup error s
          else
            let s = updf f (\<lambda>x. x\<lparr>f_flags := f_flags x AND NOT (O_CREAT OR O_EXCL OR O_NOCTTY OR O_TRUNC)\<rparr>) s;
                (fd, s) = get_unused_fd s
            in if fd > - 1 then Inr (fd, upd_cur (set_fd (nat fd) (Some f)) s)
               else
                 bindr (case fop of None \<Rightarrow> Inr s | Some t \<Rightarrow> (case rel t of None \<Rightarrow> Inr s | Some release \<Rightarrow> release (Some i) f s))
                   (cleanup (- EMFILE))))"

definition sys_open :: "open_col \<Rightarrow> minix_fs release_col \<Rightarrow> follow \<Rightarrow> u8 list \<Rightarrow> u16 \<Rightarrow> u16 \<Rightarrow> nsys \<Rightarrow> (int \<times> nsys) kres" where
  "sys_open opn rel fl filename flags mode s =
    (case get_empty_filp s of
       (None, s) \<Rightarrow> Inr (- ENFILE, s)
     | (Some f, s) \<Rightarrow>
         let fmode = (flags + 1) AND 3;
             s = updf f (\<lambda>x. x\<lparr>f_flags := flags, f_mode := fmode\<rparr>) s;
             flag = (if fmode \<noteq> 0 then flags + 1 else flags);
             flag = (if flag AND (O_TRUNC OR O_CREAT) \<noteq> 0 then flag OR 2 else flag)
         in bindr (open_namei fl filename flag mode None s) (\<lambda>(error, r, s).
              if error \<noteq> 0 then Inr (error, drop_filp f s)
              else bindr (deref r) (\<lambda>i. open_file opn rel f i s)))"

section \<open>Drivers\<close>

text \<open>What an open or release function leaves alone: inodes, counts of files, processes.\<close>

definition quiet :: "nsys \<Rightarrow> nsys \<Rightarrow> bool" where
  "quiet s s' \<longleftrightarrow> vf s' = vf s \<and> (\<forall>g. f_count (file_array s' g) = f_count (file_array s g) \<and> f_inode (file_array s' g) = f_inode (file_array s g)) \<and>
     same_procs (ks s) (ks s') \<and> current (ks s') = current (ks s)"

lemma quiet_refl [simp]: "quiet s s"
  by (simp add: quiet_def)

lemma quiet_trans: "quiet s t \<Longrightarrow> quiet t u \<Longrightarrow> quiet s u"
  by (auto simp: quiet_def intro: same_procs_trans)

lemma quiet_updf: "(\<And>x. f_count (g x) = f_count x) \<Longrightarrow> (\<And>x. f_inode (g x) = f_inode x) \<Longrightarrow> quiet s (updf f g s)"
  by (simp add: quiet_def)

lemma quiet_pipe: "lift_pipe g i s = Inr s' \<Longrightarrow> quiet s s'"
  using lift_pipe_tame[of g i s s'] by (auto simp: quiet_def lift_pipe_def Let_def bindr_Inr_iff split: if_splits)

locale drivers =
  fixes opn :: open_col and rel :: "minix_fs release_col"
  assumes open_quiet: "opn t = Some op \<Longrightarrow> op i f s = Inr (e, s') \<Longrightarrow> quiet s s'"
    and release_quiet: "rel t = Some r \<Longrightarrow> r j f s = Inr s' \<Longrightarrow> quiet s s'"

lemma dev_open_quiet:
  assumes "\<And>t op i f s e s'. drv t = Some op \<Longrightarrow> op i f s = Inr (e, s') \<Longrightarrow> quiet s s'" and "dev_open devs n drv i f s = Inr (e, s')"
  shows "quiet s s'"
proof -
  have u: "quiet s (updf f (\<lambda>x. x\<lparr>f_op := p\<rparr>) s)" for p by (rule quiet_updf) simp_all
  show ?thesis using assms(2) u by (auto simp: dev_open_def Let_def split: if_splits option.splits intro: quiet_trans[OF u assms(1)])
qed

lemma drivers_law:
  assumes d: "\<And>t op i f s e s'. drv t = Some op \<Longrightarrow> op i f s = Inr (e, s') \<Longrightarrow> quiet s s'"
    and o: "\<And>r j f s s'. other = Some r \<Longrightarrow> r j f s = Inr s' \<Longrightarrow> quiet s s'"
  shows "drivers (opens sw drv) (releases other)"
proof
  show "quiet s s'" if "opens sw drv t = Some op" "op i f s = Inr (e, s')" for t op i f s e s'
    using that d dev_open_quiet[OF d] by (cases t) (auto simp: opens_def chrdev_open_def blkdev_open_def bindr_Inr_iff dest: quiet_pipe)
  show "quiet s s'" if "releases other t = Some r" "r j f s = Inr s'" for t r j f s s'
    using that o by (cases t) (auto simp: releases_def bindr_Inr_iff dest: quiet_pipe)
qed

interpretation nodrv: drivers "opens sw (\<lambda>_. None)" "releases None" for sw
  by (rule drivers_law) simp_all

lemma upto_quiet: "quiet s s' \<Longrightarrow> files_upto E s \<Longrightarrow> files_upto E s'"
  by (auto simp: files_upto_def quiet_def same_procs_refs)

lemma quiet_fds: "quiet s s' \<Longrightarrow> fds (cur s') = fds (cur s)"
  by (simp add: quiet_def same_procs_def cur_def)

lemma quiet_live: "quiet s s' \<Longrightarrow> current (ks s) \<in> live (ks s) \<Longrightarrow> current (ks s') \<in> live (ks s')"
  using same_procs_refs(2)[of "ks s" "ks s'"] by (auto simp: quiet_def)

lemma upto_updf: "files_upto E s \<Longrightarrow> (\<And>x. f_count (g x) = f_count x) \<Longrightarrow> files_upto E (updf f g s)"
  by (simp add: files_upto_def)

lemma walked_keeps: "walked z A s \<Longrightarrow> file_array s = file_array z \<and> ks s = ks z \<and> cur s = cur z"
  unfolding walked_def cur_def by (cases s; cases z) simp

text \<open>The two ways \<^verbatim>\<open>sys_open\<close> returns.\<close>

definition opened :: "nat multiset \<Rightarrow> nsys \<Rightarrow> int \<Rightarrow> nsys \<Rightarrow> bool" where
  "opened A s r s' \<longleftrightarrow> (\<exists>f i. 0 \<le> r \<and> nat r < NR_OPEN \<and> fds (cur s) (nat r) = None \<and> (\<forall>d < nat r. fds (cur s) d \<noteq> None) \<and> fds (cur s') = (fds (cur s))(nat r := Some f) \<and>
     f_inode (file_array s' f) = Some i \<and> f_count (file_array s' f) = 1 \<and> refs (A + {#i#}) (vf s'))"

definition refused :: "nat multiset \<Rightarrow> nsys \<Rightarrow> int \<Rightarrow> nsys \<Rightarrow> bool" where
  "refused A s r s' \<longleftrightarrow> r \<noteq> 0 \<and> fds (cur s') = fds (cur s) \<and> refs A (vf s')"

lemma put_tame: "put_inode i s = Inr s' \<Longrightarrow> ks s' = ks s \<and> file_array s' = file_array s"
  by (auto simp: put_inode_def on_vfs_def bindr_Inr_iff)

lemma drop_refused:
  assumes "bindr (put_inode i t) (\<lambda>s. Inr (er, drop_filp f s)) = Inr (r, s')" and "er \<noteq> 0"
    and "files_upto [f] t" "refs (A + {#i#}) (vf t)" "fds (cur t) = fds (cur s)"
  shows "files_ok s' \<and> refused A s r s'"
proof -
  obtain u where u: "put_inode i t = Inr u" "s' = drop_filp f u" "r = er" using assms(1) by (auto simp: bindr_Inr_iff)
  have "files_upto [f] u" "cur u = cur t" using put_tame[OF u(1)] assms(3) by (simp_all add: files_upto_def cur_def)
  moreover have "walked t (A + {#i#}) t" using assms(4) by (simp add: walked_def)
  then have "refs A (vf u)" using put_refs[OF _ u(1)] walkedD by blast
  ultimately show ?thesis using upto_drop[of f "[]" u] u(2,3) assms(2,5) by (simp add: files_upto_Nil refused_def drop_filp_def)
qed

context drivers
begin

lemma open_file_spec:
  assumes op: "open_file opn rel f i s = Inr (r, s')" and up: "files_upto [f] s" and refs: "refs (A + {#i#}) (vf s)" and live: "current (ks s) \<in> live (ks s)"
    and f: "open_refs (ks s) f = 0"
  shows "files_ok s' \<and> (opened A s r s' \<or> refused A s r s')"
proof -
  define fop where "fop = default_file_ops (i_op (islot (vf s) i))"
  define s1 where "s1 = updf f (\<lambda>x. x\<lparr>f_inode := Some i, f_pos := 0, f_op := fop\<rparr>) s"
  have s1: "files_upto [f] s1" "vf s1 = vf s" "ks s1 = ks s" "cur s1 = cur s" "f_inode (file_array s1 f) = Some i"
    unfolding s1_def by (simp_all add: upto_updf up)
  obtain er s2 where o: "(case fop of None \<Rightarrow> Inr (0, s1) | Some t \<Rightarrow> (case opn t of None \<Rightarrow> Inr (0, s1) | Some open \<Rightarrow> open i f s1)) = Inr (er, s2)"
    using op unfolding open_file_def Let_def fop_def[symmetric] s1_def[symmetric] by (auto simp: bindr_Inr_iff)
  have q: "quiet s1 s2" using o open_quiet by (auto split: option.splits)
  have up2: "files_upto [f] s2" by (rule upto_quiet[OF q s1(1)])
  have vf2: "vf s2 = vf s" "f_inode (file_array s2 f) = Some i" using q s1(2,5) by (simp_all add: quiet_def)
  have fd2: "fds (cur s2) = fds (cur s)" using quiet_fds[OF q] s1(4) by simp
  define s3 where "s3 = updf f (\<lambda>x. x\<lparr>f_flags := f_flags x AND NOT (O_CREAT OR O_EXCL OR O_NOCTTY OR O_TRUNC)\<rparr>) s2"
  obtain fd s4 where g: "get_unused_fd s3 = (fd, s4)" by (cases "get_unused_fd s3")
  have eq: "open_file opn rel f i s = (if er \<noteq> 0 then bindr (put_inode i s2) (\<lambda>s. Inr (er, drop_filp f s))
      else if fd > - 1 then Inr (fd, upd_cur (set_fd (nat fd) (Some f)) s4)
      else bindr (case fop of None \<Rightarrow> Inr s4 | Some t \<Rightarrow> (case rel t of None \<Rightarrow> Inr s4 | Some release \<Rightarrow> release (Some i) f s4))
         (\<lambda>s. bindr (put_inode i s) (\<lambda>s. Inr (- EMFILE, drop_filp f s))))"
    unfolding open_file_def Let_def fop_def[symmetric] s1_def[symmetric] o bindr_simps prod.case s3_def[symmetric] g by (rule refl)
  have q3: "quiet s2 s3" unfolding s3_def by (rule quiet_updf) simp_all
  note t4 = get_unused_fd_tame[OF g]
  have q4: "quiet s3 s4" using t4(1) g by (auto simp: quiet_def tame_step_def get_unused_fd_def split: option.splits)
  note q14 = quiet_trans[OF q quiet_trans[OF q3 q4]]
  have up4: "files_upto [f] s4" and live4: "current (ks s4) \<in> live (ks s4)" and fd4: "fds (cur s4) = fds (cur s)"
    using upto_quiet[OF q14 s1(1)] quiet_live[OF q14] quiet_fds[OF q14] live s1(3,4) by simp_all
  have i4: "f_inode (file_array s4 f) = Some i" "vf s4 = vf s" using q14 s1(2,5) by (simp_all add: quiet_def)
  consider (err) "er \<noteq> 0" | (ok) "er = 0" "fd > - 1" | (full) "er = 0" "\<not> fd > - 1" by blast
  then show ?thesis
  proof cases
    case err
    have "bindr (put_inode i s2) (\<lambda>s. Inr (er, drop_filp f s)) = Inr (r, s')" using op unfolding eq if_P[OF err] .
    from drop_refused[OF this err up2 _ fd2, of A] show ?thesis using refs vf2 by simp
  next
    case ok
    then have s': "r = fd" "s' = upd_cur (set_fd (nat fd) (Some f)) s4" using op unfolding eq by auto
    have n: "nat fd < NR_OPEN" "fds (cur s4) (nat fd) = None" using t4(2,3) ok(2) by simp_all
    have "open_refs (ks s4) f = 0" using same_procs_refs(1)[of "ks s1" "ks s4" f] q14 f s1(3) by (simp add: quiet_def)
    then have "unat (f_count (file_array s4 f)) = 1" using up4 by (simp add: files_upto_def)
    then have "f_count (file_array s4 f) = 1" by (metis unat_1 word_unat_eq_iff)
    moreover have "\<forall>d < nat fd. fds (cur s) d \<noteq> None"
      using get_unused_fd_lowest[OF g] ok(2) t4(2) fd4 by simp
    ultimately have "opened A s r s'" unfolding opened_def s' using n fd4 i4 ok(2) refs
      by (intro exI[of _ f] exI[of _ i]) simp
    moreover have "files_ok s'" unfolding s' using upto_set_fd[OF up4 live4 n] by (simp add: files_upto_Nil)
    ultimately show ?thesis by simp
  next
    case full
    then obtain s5 where s5: "(case fop of None \<Rightarrow> Inr s4 | Some t \<Rightarrow> (case rel t of None \<Rightarrow> Inr s4 | Some release \<Rightarrow> release (Some i) f s4)) = Inr s5"
      "bindr (put_inode i s5) (\<lambda>s. Inr (- EMFILE, drop_filp f s)) = Inr (r, s')" using op unfolding eq by (auto simp: bindr_Inr_iff)
    have q5: "quiet s4 s5" using s5(1) release_quiet by (auto split: option.splits)
    from drop_refused[OF s5(2) _ upto_quiet[OF q5 up4], of A s] show ?thesis
      using quiet_fds[OF q5] fd4 refs i4 q5 by (simp add: quiet_def)
  qed
qed

lemma sys_open_spec:
  assumes op: "sys_open opn rel (links str) path flags mode s = Inr (r, s')" and ok: "files_ok s" and refs: "refs A (vf s)" and bound: "size A < MAXREF"
    and live: "current (ks s) \<in> live (ks s)"
  shows "files_ok s' \<and> (opened A s r s' \<or> refused A s r s')"
proof (cases "get_empty_filp s")
  case (Pair p s1)
  show ?thesis
  proof (cases p)
    case None
    then have "s1 = s" using Pair by (auto simp: get_empty_filp_def split: option.splits)
    then show ?thesis using op Pair None ok refs by (auto simp: sys_open_def refused_def)
  next
    case (Some f)
    note a = upto_get_empty[OF ok[folded files_upto_Nil] Pair[unfolded Some]]
    have s1: "vf s1 = vf s" "cur s1 = cur s" "f_count (file_array s f) = 0" using Pair Some
      by (auto simp: get_empty_filp_def find_Some_iff simp del: upt.simps split: option.splits)
    have f0: "open_refs (ks s) f = 0" using files_okD[OF ok, of f] s1(3) by simp
    define fm where "fm = (flags + 1) AND 3"
    define s2 where "s2 = updf f (\<lambda>x. x\<lparr>f_flags := flags, f_mode := fm\<rparr>) s1"
    define fl0 where "fl0 = (if fm \<noteq> 0 then flags + 1 else flags)"
    define fl1 where "fl1 = (if fl0 AND (O_TRUNC OR O_CREAT) \<noteq> 0 then fl0 OR 2 else fl0)"
    have s2: "files_upto [f] s2" "vf s2 = vf s" "ks s2 = ks s" "cur s2 = cur s" unfolding s2_def by (simp_all add: upto_updf a s1)
    have eq: "sys_open opn rel (links str) path flags mode s = bindr (open_namei (links str) path fl1 mode None s2) (\<lambda>(error, k, s).
        if error \<noteq> 0 then Inr (error, drop_filp f s) else bindr (deref k) (\<lambda>i. open_file opn rel f i s))"
      unfolding sys_open_def Let_def Pair Some prod.case option.case fm_def[symmetric] s2_def[symmetric] fl0_def[symmetric] fl1_def[symmetric] by (rule refl)
    from op obtain e k s3 where n: "open_namei (links str) path fl1 mode None s2 = Inr (e, k, s3)"
      and r: "(if e \<noteq> 0 then Inr (e, drop_filp f s3) else bindr (deref k) (\<lambda>i. open_file opn rel f i s3)) = Inr (r, s')"
      unfolding eq by (auto simp: bindr_Inr_iff simp del: if_not_P split del: if_split)
    have "walked s2 (A + opt None) s2" using refs s2(2) by (simp add: walked_def)
    from lk.open_namei_refs[OF this bound, of str path fl1 mode] n
    have c: "walked s2 (A + own e k) s3" "e = 0 \<longrightarrow> k \<noteq> None" by simp_all
    note k3 = walked_keeps[OF c(1)]
    have up3: "files_upto [f] s3" using s2(1) k3 by (simp add: files_upto_def)
    show ?thesis
    proof (cases "e = 0")
      case True
      then obtain i where i: "k = Some i" using c(2) by blast
      have "open_file opn rel f i s3 = Inr (r, s')" using r True i by (simp add: deref_def)
      from open_file_spec[OF this up3, of A] show ?thesis
        using c(1) True i k3 s2(3,4) live f0 walkedD by (auto simp: opened_def refused_def)
    next
      case False
      then have "r = e" "s' = drop_filp f s3" using r by simp_all
      moreover have "refs A (vf s3)" using walkedD[OF c(1)] False by simp
      ultimately show ?thesis using upto_drop[OF up3] False k3 s2(4) by (simp add: files_upto_Nil refused_def drop_filp_def)
    qed
  qed
qed

end

section \<open>What the calls promise\<close>

text \<open>C36: 
  References to inodes are walked through a walk: when the counts of the inode cache are the numbers of the
  references \<open>A\<close>, then after \<^verbatim>\<open>namei\<close> or \<^verbatim>\<open>open_namei\<close> along any path, through mount points, \<^verbatim>\<open>..\<close> and symbolic
  links, with creation and truncation, they are those of \<open>A\<close> and of the inode returned, and of \<open>A\<close> alone
  after an error, and nothing but the inode cache has changed: no reference is lost or given up
  twice. (An unlinked inode that its file system refuses to free keeps one count: \<open>orphan\<close>.)
\<close>

theorem names_counted:
  assumes "refs A (vf s)" and "size A < 65000"
  shows "(namei (links str) pathname dir perm s = Inr (e, r, s') \<longrightarrow>
      refs (A + (if e = 0 then {#the r#} else {#})) (vf s') \<and> s'\<lparr>vf := vf s\<rparr> = s \<and> (e = 0 \<longrightarrow> r \<noteq> None)) \<and>
    (open_namei (links str) pathname flag mode None s = Inr (e, r, s') \<longrightarrow>
      refs (A + (if e = 0 then {#the r#} else {#})) (vf s') \<and> s'\<lparr>vf := vf s\<rparr> = s \<and> (e = 0 \<longrightarrow> r \<noteq> None))"
proof -
  have c: "walked s A s" using assms(1) by (simp add: walked_def)
  have "gives s A (namei (links str) pathname dir perm s)" "gives s A (open_namei (links str) pathname flag mode None s)"
    using lk.namei_refs[OF c assms(2)] lk.open_namei_refs[of s A None s] c assms(2) by simp_all
  then show ?thesis by (auto simp: walked_def)
qed


section \<open>Examples\<close>

text \<open>Task 7 has a directory in slot 5 as its root and working directory.\<close>

definition root_ino :: minode where
  "root_ino = empty_ino\<lparr>i_mode := 0x41ED, i_op := Dir_ops, i_count := 3\<rparr>"

definition root_proc :: nsys where
  "root_proc = (one_proc boot_map)\<lparr>vf := one_file root_ino small_fs\<rparr>"

lemma root_proc_simps [simp]:
  "cur root_proc = cur (one_proc boot_map)" "islot (vf root_proc) = empty_slot(5 := place 5 root_ino)" "ks root_proc = ks (one_proc boot_map)"
  "file_array root_proc = file_array (one_proc boot_map)" "root_i (cur (one_proc mh)) = 5" "pwd_i (cur (one_proc mh)) = 5" "euid (cur (one_proc mh)) = 0"
  "supers (vf root_proc) b = \<lparr>s_dev = 3, s_flags = 0, s_covered = None, s_mounted = None, s_fs = small_fs\<rparr>"
  by (simp_all add: root_proc_def cur_def one_file_def one_proc_def two_sys_def idle_task_def)

lemma root_slot [simp]:
  "i_count (place 5 root_ino) = 3" "i_mode (place 5 root_ino) = 0x41ED" "i_op (place 5 root_ino) = Dir_ops" "i_sb (place 5 root_ino) = Some 0"
  "i_lock (place 5 root_ino) = False" "i_nlink (place 5 root_ino) = 1" "i_flags (place 5 root_ino) = 0"
  by (simp_all add: root_ino_def empty_ino_def place_def)

lemma root_proc_refs: "refs {#5, 5, 5#} (vf root_proc)"
  by (simp add: refs_def empty_slot_def)

text \<open>The same state with \<open>c\<close> references to the directory.\<close>

definition root_at :: "u16 \<Rightarrow> nsys \<Rightarrow> nsys" where
  "root_at c s = s\<lparr>vf := (vf root_proc)\<lparr>islot := empty_slot(5 := (place 5 root_ino)\<lparr>i_count := c\<rparr>)\<rparr>\<rparr>"

lemma root_at_simps [simp]:
  "ks (root_at c s) = ks s" "file_array (root_at c s) = file_array s" "cur (root_at c s) = cur s"
  "islot (vf (root_at c s)) 5 = (place 5 root_ino)\<lparr>i_count := c\<rparr>" "supers (vf (root_at c s)) = supers (vf root_proc)"
  "ref_inode 5 (root_at c s) = root_at (c + 1) s"
  by (simp_all add: root_at_def cur_def ref_inode_def Icache.upd_def)

lemma root_at_put: "1 < c \<Longrightarrow> put_inode 5 (root_at c s) = Inr (root_at (c - 1) s)"
  by (auto simp: put_inode_def on_vfs_def iput_def wait_on_inode_def root_at_def Icache.upd_def numeral_2_eq_2)

lemma root_at_3: "vf s = vf root_proc \<Longrightarrow> root_at 3 s = s"
proof -
  assume h: "vf s = vf root_proc"
  have "place 5 root_ino = (place 5 root_ino)\<lparr>i_count := 3\<rparr>" by (simp add: root_ino_def place_def)
  then have "empty_slot(5 := (place 5 root_ino)\<lparr>i_count := 3\<rparr>) = islot (vf root_proc)" by (simp only: root_proc_simps)
  then have "(vf root_proc)\<lparr>islot := empty_slot(5 := (place 5 root_ino)\<lparr>i_count := 3\<rparr>)\<rparr> = vf s" by (simp add: h del: root_proc_simps)
  then show ?thesis unfolding root_at_def by simp
qed

lemma root_permission: "euid (cur s) = 0 \<Longrightarrow> permission 5 m (root_at c s) = 0"
  by (simp add: permission_def IS_RDONLY_def suser_def cur_def Let_def)

lemma root_walk: "euid (cur s) = 0 \<Longrightarrow> pwd_i (cur s) = 5 \<Longrightarrow> root_i (cur s) = 5 \<Longrightarrow> 2 < c \<Longrightarrow> c < 100 \<Longrightarrow>
    dir_namei fl [slash] None (root_at c s) = Inr (0, Some (5, []), root_at (c + 1) s)"
proof -
  assume h: "euid (cur s) = 0" "pwd_i (cur s) = 5" "root_i (cur s) = 5" "2 < c" "c < 100"
  have "1 < c + 1" using h(4,5) by (simp add: word_less_nat_alt unat_word_ariths)
  then have p: "put_inode 5 (root_at (c + 1) s) = Inr (root_at c s)" using root_at_put[of "c + 1" s] by simp
  show ?thesis unfolding dir_namei_def using h p by (simp add: dir_walk.simps[of fl "[]"])
qed

theorem names_counted_witness:
  "\<exists>s'. namei (links (\<lambda>_ _. [])) [slash] IS_DIR MAY_EXEC root_proc = Inr (0, Some 5, s') \<and> refs {#5, 5, 5, 5#} (vf s')"
proof -
  have w: "dir_namei (links (\<lambda>_ _. [])) [slash] None (root_at 3 root_proc) = Inr (0, Some (5, []), root_at 4 root_proc)"
    using root_walk[of root_proc 3] by simp
  have p: "put_inode 5 (root_at 5 root_proc) = Inr (root_at 4 root_proc)" using root_at_put[of 5 root_proc] by simp
  have n: "namei (links (\<lambda>_ _. [])) [slash] IS_DIR MAY_EXEC (root_at 3 root_proc) = Inr (0, Some 5, root_at 4 root_proc)"
    unfolding namei_def base_namei_def w
    by (simp add: lookup_name_def root_permission follow_link_def deref_def p S_ISDIR_def Let_def)
  from names_counted[OF root_proc_refs, of "\<lambda>_ _. []" "[slash]" IS_DIR MAY_EXEC 0 "Some 5" "root_at 4 root_proc"] n
  have "refs ({#5, 5, 5#} + {#5#}) (vf (root_at 4 root_proc))" unfolding root_at_3[OF refl] by simp
  then show ?thesis using n unfolding root_at_3[OF refl] by (intro exI[of _ "root_at 4 root_proc"]) simp
qed


end
