(* ===== verification/Stat.thy ===== *)
theory Stat
  imports Open
begin

text \<open>
  Attributes of files and reading of directories, \<^verbatim>\<open>fs/stat.c\<close> and \<^verbatim>\<open>fs/readdir.c\<close>, and what the system calls on
  names do with references to inodes.
\<close>

section \<open>Attributes of a file\<close>

record kstat =
  st_dev :: u16
  st_ino :: u16
  st_mode :: u16
  st_nlink :: u16
  st_uid :: u16
  st_gid :: u16
  st_rdev :: u16
  st_size :: u32
  st_atime :: u32
  st_mtime :: u32
  st_ctime :: u32

abbreviation STAT_SIZE :: u16 where "STAT_SIZE \<equiv> 30"
abbreviation DIRENT_SIZE :: u16 where "DIRENT_SIZE \<equiv> 265"

text \<open>The second result is what is copied to the user's area, if anything.\<close>

definition cp_stat :: "nat \<Rightarrow> u16 \<Rightarrow> nsys \<Rightarrow> int \<times> kstat option" where
  "cp_stat inode statbuf s =
    (let n = islot (vf s) inode;
         tmp = \<lparr>st_dev = i_dev n, st_ino = i_ino n, st_mode = i_mode n, st_nlink = ucast (i_nlink n), st_uid = i_uid n, st_gid = ucast (i_gid n),
                st_rdev = i_rdev n, st_size = i_size n, st_atime = minode.i_atime n, st_mtime = minode.i_mtime n, st_ctime = minode.i_ctime n\<rparr>;
         err = verify_area statbuf STAT_SIZE s
     in if err \<noteq> 0 then (err, None) else (0, Some tmp))"

definition stat_inode :: "u16 \<Rightarrow> int \<times> nat option \<times> nsys \<Rightarrow> (int \<times> kstat option \<times> nsys) kres" where
  "stat_inode statbuf r =
    (case r of (error, i, s) \<Rightarrow>
       if error \<noteq> 0 then Inr (error, None, s)
       else bindr (deref i) (\<lambda>i.
         let (error, st) = cp_stat i statbuf s
         in bindr (put_inode i s) (\<lambda>s. Inr (error, st, s))))"

definition sys_stat :: "follow \<Rightarrow> u8 list \<Rightarrow> u16 \<Rightarrow> nsys \<Rightarrow> (int \<times> kstat option \<times> nsys) kres" where
  "sys_stat fl filename statbuf s = bindr (namei fl filename Any_type 0 s) (stat_inode statbuf)"

definition sys_lstat :: "follow \<Rightarrow> u8 list \<Rightarrow> u16 \<Rightarrow> nsys \<Rightarrow> (int \<times> kstat option \<times> nsys) kres" where
  "sys_lstat fl filename statbuf s = bindr (base_namei fl filename None False s) (stat_inode statbuf)"

text \<open>The test in \<^verbatim>\<open>sys_fstat\<close> is the wrong way round: with a good descriptor it returns 0 without a copy, with a bad one it
  goes on with the variable \<^verbatim>\<open>f\<close>, which \<^verbatim>\<open>fd_check\<close> sets only when the area is what is bad.\<close>

definition sys_fstat :: "u16 \<Rightarrow> u16 \<Rightarrow> nsys \<Rightarrow> (int \<times> kstat option) kres" where
  "sys_fstat fd statbuf s =
    (case fd_check fd statbuf STAT_SIZE (FMODE_WRITE OR FMODE_READ) s of
       Inr f \<Rightarrow> Inr (0, None)
     | Inl e \<Rightarrow>
         if e = - EFAULT then
           (case fds (cur s) (unat fd) of
              None \<Rightarrow> Inl OutOfBounds
            | Some f \<Rightarrow> (case f_inode (file_array s f) of None \<Rightarrow> Inl NullDeref | Some i \<Rightarrow> Inr (cp_stat i statbuf s)))
         else Inl OutOfBounds)"

definition sys_readlink :: "follow \<Rightarrow> u8 list \<Rightarrow> u16 \<Rightarrow> u16 \<Rightarrow> nsys \<Rightarrow> (int \<times> u8 list \<times> nsys) kres" where
  "sys_readlink fl path buf bufsiz s =
    (if bufsiz = 0 then Inr (- EINVAL, [], s)
     else if verify_area buf bufsiz s \<noteq> 0 then Inr (verify_area buf bufsiz s, [], s)
     else bindr (base_namei fl path None False s) (\<lambda>(error, r, s).
       if error \<noteq> 0 then Inr (error, [], s)
       else bindr (deref r) (\<lambda>i.
         if i_op (islot (vf s) i) \<noteq> Symlink_ops then bindr (put_inode i s) (\<lambda>s. Inr (- EINVAL, [], s))
         else with_vfs (minix_readlink i (sint bufsiz)) s)))"

section \<open>Reading a directory\<close>

text \<open>The entry in the user's area, if one was copied: number, offset and name.\<close>

type_synonym dirbuf = "nat \<times> (u16 \<times> u32 \<times> u8 list) option"

definition fillonedir :: "dirbuf \<Rightarrow> u8 list \<Rightarrow> u32 \<Rightarrow> u16 \<Rightarrow> int \<times> dirbuf" where
  "fillonedir buf name offset ino = (if fst buf \<noteq> 0 then (- EINVAL, buf) else (0, fst buf + 1, Some (ino, offset, name)))"

type_synonym readdir_col = "file_operations \<Rightarrow> (nat \<Rightarrow> nat \<Rightarrow> dirbuf \<Rightarrow> nsys \<Rightarrow> (int \<times> dirbuf \<times> nsys) kres) option"

definition sys_readdir :: "readdir_col \<Rightarrow> u16 \<Rightarrow> u16 \<Rightarrow> nsys \<Rightarrow> (int \<times> dirbuf \<times> nsys) kres" where
  "sys_readdir rdir fd dirent s =
    (case fd_check fd dirent DIRENT_SIZE FMODE_READ s of
       Inl e \<Rightarrow> Inr (e, (0, None), s)
     | Inr f \<Rightarrow>
         (case (f_op (file_array s f), f_inode (file_array s f)) of
            (Some t, Some i) \<Rightarrow>
              (case rdir t of
                 None \<Rightarrow> Inr (- ENOTDIR, (0, None), s)
               | Some readdir \<Rightarrow> bindr (readdir i f (0, None) s) (\<lambda>(error, buf, s).
                   Inr (if error \<ge> 0 then int (fst buf) else error, buf, s)))
          | _ \<Rightarrow> Inr (- ENOTDIR, (0, None), s)))"

text \<open>The directories of the Minix file system.\<close>

definition minix_readdirs :: readdir_col where
  "minix_readdirs t =
    (if t = Minix_dir_fops then
       Some (\<lambda>i f buf s.
         case i_sb (islot (vf s) i) of
           None \<Rightarrow> Inr (- EBADF, buf, s)
         | Some b \<Rightarrow> bindr (minix_readdir (islot (vf s) i) (file_array s f) fillonedir buf (s_fs (supers (vf s) b))) (\<lambda>(e, filp, buf).
             Inr (e, buf, updf f (\<lambda>_. filp) s)))
     else None)"

section \<open>References\<close>

lemma stat_inode_refs:
  assumes "gives z A r" and "bindr r (stat_inode b) = Inr (e, st, s')"
  shows "refs A (vf s')"
proof -
  obtain er k s where r: "r = Inr (er, k, s)" "stat_inode b (er, k, s) = Inr (e, st, s')" using assms(2) by (auto simp: bindr_Inr_iff)
  have g: "walked z (A + own er k) s" "er = 0 \<longrightarrow> k \<noteq> None" using assms(1) r(1) by simp_all
  show ?thesis
  proof (cases "er = 0")
    case True
    then obtain i where i: "k = Some i" using g(2) by blast
    obtain u where "put_inode i s = Inr u" "s' = u" using r(2) True i by (cases "cp_stat i b s") (auto simp: stat_inode_def deref_def bindr_Inr_iff)
    then show ?thesis using put_refs[of z A i s u] g(1) True i walkedD by auto
  next
    case False
    then show ?thesis using r(2) walkedD[OF g(1)] by (simp add: stat_inode_def)
  qed
qed

lemma fstat_never_copies: "sys_fstat fd b s = Inr (r, st) \<Longrightarrow> st = None \<and> (r = 0 \<or> r = - EFAULT)"
  by (auto simp: sys_fstat_def fd_check_def cp_stat_def verify_area_def Let_def split: if_splits option.splits sum.splits)

lemma walked_start: "refs A (vf s) \<Longrightarrow> walked s A s"
  by (simp add: walked_def)

text \<open>A call that finds an inode by name, works on it and gives it back.\<close>

lemma found_then:
  assumes "gives z A r" and "bindr r f = Inr x" and "\<And>i s. walked z (A + {#i#}) s \<Longrightarrow> f (0, Some i, s) = Inr x \<Longrightarrow> P" "\<And>e k s. e \<noteq> 0 \<Longrightarrow> walked z A s \<Longrightarrow> f (e, k, s) = Inr x \<Longrightarrow> P"
  shows P
proof -
  obtain e k s where r: "r = Inr (e, k, s)" "f (e, k, s) = Inr x" using assms(2) by (auto simp: bindr_Inr_iff)
  then have g: "walked z (A + own e k) s" "e = 0 \<longrightarrow> k \<noteq> None" using assms(1) by simp_all
  show P
  proof (cases "e = 0")
    case True
    then obtain i where "k = Some i" using g(2) by blast
    then show P using assms(3)[of i s] g(1) r(2) True by simp
  qed (use assms(4)[of e s k] g(1) r(2) in simp)
qed

lemma put_upd_refs:
  assumes "walked z (A + {#i#}) s" and "\<And>n. key (f n) = key n" and "put_inode i (s\<lparr>vf := Icache.upd i f (vf s)\<rparr>) = Inr u"
  shows "refs A (vf u)"
proof -
  have "refs (A + {#i#}) (Icache.upd i f (vf s))" using refs_upd[of f "vf s" i] assms(2) walkedD[OF assms(1)] by simp
  then have "walked z (A + {#i#}) (s\<lparr>vf := Icache.upd i f (vf s)\<rparr>)" by (rule walked_vf[OF assms(1)]) simp
  from walkedD[OF put_refs[OF this assms(3)]] show ?thesis .
qed

lemma utime_refs:
  assumes "refs A (vf s)" and "size A < MAXREF" and c: "sys_utime (links str) path tms s = Inr (e, s')"
  shows "refs A (vf s')"
  using c unfolding sys_utime_def
proof (rule found_then[OF lk.namei_refs[OF walked_start[OF assms(1)] assms(2)]], goal_cases)
  case (1 i t)
  obtain a m where am: "(case tms of Some t \<Rightarrow> t | None \<Rightarrow> (xtime t, xtime t)) = (a, m)" by fastforce
  obtain u where "put_inode i (t\<lparr>vf := Icache.upd i (\<lambda>n. n\<lparr>minode.i_atime := a, minode.i_mtime := m, i_dirt := True\<rparr>) (vf t)\<rparr>) = Inr u" "s' = u"
    using 1(2) am by (auto simp: deref_def bindr_Inr_iff)
  then show ?case using put_upd_refs[OF 1(1), of "\<lambda>n. n\<lparr>minode.i_atime := a, minode.i_mtime := m, i_dirt := True\<rparr>" u] by simp
qed (auto dest: walkedD)

lemma do_chown_upd: "do_chown i user grp s = (e, s') \<Longrightarrow> \<exists>f. (\<forall>n. key (f n) = key n) \<and> s' = s\<lparr>vf := Icache.upd i f (vf s)\<rparr>"
proof -
  assume d: "do_chown i user grp s = (e, s')"
  let ?g = "\<lambda>n. if grp \<noteq> - 1 then n\<lparr>i_gid := ucast grp, i_mode := i_mode n AND NOT 0x400\<rparr> else n"
  let ?u = "\<lambda>n. if user \<noteq> - 1 then n\<lparr>i_uid := user, i_mode := i_mode n AND NOT 0x800\<rparr> else n"
  have id: "s = s\<lparr>vf := Icache.upd i (\<lambda>n. n) (vf s)\<rparr>" by (simp add: Icache.upd_def)
  have k: "\<forall>n. key ((?u (?g n))\<lparr>i_dirt := True\<rparr>) = key n" by simp
  have "s' = s \<or> s' = s\<lparr>vf := Icache.upd i (\<lambda>n. (?u (?g n))\<lparr>i_dirt := True\<rparr>) (vf s)\<rparr>"
  proof (cases "IS_RDONLY i (vf s) \<or> \<not> suser (ks s) \<and> euid (cur s) \<noteq> i_uid (islot (vf s) i)")
    case True
    then show ?thesis using d by (auto simp: do_chown_def split: if_splits)
  next
    case False
    then have c: "\<not> IS_RDONLY i (vf s)" "\<not> (\<not> suser (ks s) \<and> euid (cur s) \<noteq> i_uid (islot (vf s) i))" by blast+
    from d[unfolded do_chown_def Let_def if_not_P[OF c(1)] if_not_P[OF c(2)] prod.inject] show ?thesis by blast
  qed
  then show ?thesis
  proof
    assume "s' = s"
    then show ?thesis using id by (intro exI[of _ "\<lambda>n. n"]) simp
  next
    assume h: "s' = s\<lparr>vf := Icache.upd i (\<lambda>n. (?u (?g n))\<lparr>i_dirt := True\<rparr>) (vf s)\<rparr>"
    show ?thesis by (rule exI[where x = "\<lambda>n. (?u (?g n))\<lparr>i_dirt := True\<rparr>"], rule conjI[OF k h])
  qed
qed

lemma chown_refs:
  assumes "refs A (vf s)" and bound: "size A < MAXREF" and c: "sys_chown (links str) path user grp s = Inr (e, s')"
  shows "refs A (vf s')"
proof -
  have st: "walked s (A + opt None) s" using assms(1) by (simp add: walked_def)
  show ?thesis using c unfolding sys_chown_def
  proof (rule found_then[OF lk.base_namei_refs[OF st bound]], goal_cases)
    case (1 i t)
    obtain er u where c: "do_chown i user grp t = (er, u)" by (cases "do_chown i user grp t")
    obtain w where w: "put_inode i u = Inr w" "s' = w" using 1(2) c by (auto simp: deref_def bindr_Inr_iff)
    obtain f where "\<forall>n. key (f n) = key n" "u = t\<lparr>vf := Icache.upd i f (vf t)\<rparr>" using do_chown_upd[OF c] by blast
    then show ?case using put_upd_refs[OF 1(1), of f w] w by simp
  qed (auto simp: walked_def)
qed

lemma chdir_refs:
  assumes "refs (B + {#pwd_i (cur s)#}) (vf s)" and bound: "size B < MAXREF - 1" and c: "sys_chdir (links str) path s = Inr (e, s')"
  shows "refs (B + {#pwd_i (cur s')#}) (vf s')"
proof -
  have b: "size (B + {#pwd_i (cur s)#}) < MAXREF" using bound by simp
  show ?thesis using c unfolding sys_chdir_def
  proof (rule found_then[OF lk.namei_refs[OF walked_start[OF assms(1)] b]], goal_cases)
    case (1 i t)
    have k: "cur t = cur s" using walked_keeps[OF 1(1)] by simp
    obtain u where u: "put_inode (pwd_i (cur t)) t = Inr u" "s' = upd_cur (\<lambda>t. t\<lparr>pwd_i := i\<rparr>) u" using 1(2) by (auto simp: deref_def bindr_Inr_iff)
    have "walked s (B + {#i#} + {#pwd_i (cur t)#}) t" using 1(1) k by (simp add: add_mset_commute)
    from walkedD[OF put_refs[OF this u(1)]] show ?case using u(2) by simp
  next
    case (2 er k t)
    then show ?case using walked_keeps[OF 2(2)] walkedD[OF 2(2)] by auto
  qed
qed

lemma chroot_refs:
  assumes "refs (B + {#root_i (cur s)#}) (vf s)" and bound: "size B < MAXREF - 1" and c: "sys_chroot (links str) path s = Inr (e, s')"
  shows "refs (B + {#root_i (cur s')#}) (vf s')"
proof (cases "suser (ks s)")
  case False
  then show ?thesis using c assms(1) by (simp add: sys_chroot_def)
next
  case True
  have b: "size (B + {#root_i (cur s)#}) < MAXREF" using bound by simp
  have "bindr (namei (links str) path IS_DIR 0 s) (\<lambda>(error, r, s).
       if error \<noteq> 0 then Inr (error, s)
       else bindr (deref r) (\<lambda>i. bindr (put_inode (root_i (cur s)) s) (\<lambda>s. Inr (0, upd_cur (\<lambda>t. t\<lparr>root_i := i\<rparr>) s)))) = Inr (e, s')"
    using c True by (simp add: sys_chroot_def)
  then show ?thesis
  proof (rule found_then[OF lk.namei_refs[OF walked_start[OF assms(1)] b]], goal_cases)
    case (1 i t)
    have k: "cur t = cur s" using walked_keeps[OF 1(1)] by simp
    obtain u where u: "put_inode (root_i (cur t)) t = Inr u" "s' = upd_cur (\<lambda>t. t\<lparr>root_i := i\<rparr>) u" using 1(2) by (auto simp: deref_def bindr_Inr_iff)
    have "walked s (B + {#i#} + {#root_i (cur t)#}) t" using 1(1) k by (simp add: add_mset_commute)
    from walkedD[OF put_refs[OF this u(1)]] show ?case using u(2) by simp
  next
    case (2 er k t)
    then show ?case using walked_keeps[OF 2(2)] walkedD[OF 2(2)] by auto
  qed
qed

lemma access_refs:
  assumes r: "refs A (vf s)" and bound: "size A < MAXREF" and c: "sys_access (links str) path mode s = Inr (e, s')"
  shows "if e = 0 then \<exists>i. refs (A + {#i#}) (vf s') else refs A (vf s')"
proof (cases "mode = mode AND 7")
  case False
  then show ?thesis using c r by (auto simp: sys_access_def)
next
  case True
  let ?s = "upd_cur (\<lambda>t. t\<lparr>euid := uid t, egid := gid t\<rparr>) s"
  have r': "refs A (vf ?s)" using r by simp
  have "bindr (namei (links str) path Any_type mode ?s) (\<lambda>(res, r, t). Inr (res, upd_cur (\<lambda>t. t\<lparr>euid := euid (cur s), egid := egid (cur s)\<rparr>) t)) = Inr (e, s')"
    using c True by (simp add: sys_access_def Let_def)
  then show ?thesis
  proof (rule found_then[OF lk.namei_refs[OF walked_start[OF r'] bound]], goal_cases)
    case (1 i t)
    then show ?case using walkedD[OF 1(1)] by auto
  next
    case (2 er k t)
    then show ?case using walkedD[OF 2(2)] by auto
  qed
qed

text \<open>C39: 
  The system calls that find a file by name give it back: stat, lstat, utime and chown leave the references as they
  were, chdir and chroot exchange the one they hold. access does not: after a successful call the inode has
  one reference more, for ever.
\<close>

theorem calls_counted:
  assumes "refs A (vf s)" and "size A < 65000"
  shows "(sys_stat (links str) path buf s = Inr (e, st, s') \<longrightarrow> refs A (vf s')) \<and>
    (sys_lstat (links str) path buf s = Inr (e, st, s') \<longrightarrow> refs A (vf s')) \<and>
    (sys_utime (links str) path tms s = Inr (e, s') \<longrightarrow> refs A (vf s')) \<and>
    (sys_chown (links str) path user grp s = Inr (e, s') \<longrightarrow> refs A (vf s')) \<and>
    (sys_chdir (links str) path s = Inr (e, s') \<and> A = B + {#pwd_i (cur s)#} \<longrightarrow> refs (B + {#pwd_i (cur s')#}) (vf s')) \<and>
    (sys_chroot (links str) path s = Inr (e, s') \<and> A = B + {#root_i (cur s)#} \<longrightarrow> refs (B + {#root_i (cur s')#}) (vf s')) \<and>
    (sys_access (links str) path mode s = Inr (0, s') \<longrightarrow> (\<exists>i. refs (A + {#i#}) (vf s')))"
proof (intro conjI impI)
  note st = walked_start[OF assms(1)]
  show "sys_stat (links str) path buf s = Inr (e, st, s') \<Longrightarrow> refs A (vf s')"
    unfolding sys_stat_def by (rule stat_inode_refs[OF lk.namei_refs[OF st assms(2)]])
  have st': "walked s (A + opt None) s" using st by simp
  show "sys_lstat (links str) path buf s = Inr (e, st, s') \<Longrightarrow> refs A (vf s')"
    unfolding sys_lstat_def by (rule stat_inode_refs[OF lk.base_namei_refs[OF st' assms(2)]])
  show "sys_utime (links str) path tms s = Inr (e, s') \<Longrightarrow> refs A (vf s')" by (rule utime_refs[OF assms])
  show "sys_chown (links str) path user grp s = Inr (e, s') \<Longrightarrow> refs A (vf s')" by (rule chown_refs[OF assms])
  show "sys_access (links str) path mode s = Inr (0, s') \<Longrightarrow> \<exists>i. refs (A + {#i#}) (vf s')" using access_refs[OF assms, of str path mode 0 s'] by simp
next
  assume "sys_chdir (links str) path s = Inr (e, s') \<and> A = B + {#pwd_i (cur s)#}"
  then show "refs (B + {#pwd_i (cur s')#}) (vf s')" using assms by (intro chdir_refs[of B s str path e s']) simp_all
next
  assume "sys_chroot (links str) path s = Inr (e, s') \<and> A = B + {#root_i (cur s)#}"
  then show "refs (B + {#root_i (cur s')#}) (vf s')" using assms by (intro chroot_refs[of B s str path e s']) simp_all
qed

theorem calls_counted_witness:
  "\<exists>s'. sys_access (links (\<lambda>_ _. [])) [slash] 1 root_proc = Inr (0, s') \<and> (\<exists>i. refs ({#5, 5, 5#} + {#i#}) (vf s'))"
proof -
  let ?s = "upd_cur (\<lambda>t. t\<lparr>euid := uid t, egid := gid t\<rparr>) root_proc"
  have c: "cur ?s = cur (one_proc boot_map)" "vf ?s = vf root_proc" by (simp_all add: one_proc_cur two_sys_def idle_task_def)
  have e: "euid (cur ?s) = 0" "pwd_i (cur ?s) = 5" "root_i (cur ?s) = 5" unfolding c(1) by simp_all
  have w: "dir_namei (links (\<lambda>_ _. [])) [slash] None (root_at 3 ?s) = Inr (0, Some (5, []), root_at 4 ?s)"
    using root_walk[OF e, of 3 "links (\<lambda>_ _. [])"] by simp
  have p: "put_inode 5 (root_at 5 ?s) = Inr (root_at 4 ?s)" using root_at_put[of 5 ?s] by simp
  from e(1) have n: "namei (links (\<lambda>_ _. [])) [slash] Any_type 1 (root_at 3 ?s) = Inr (0, Some 5, root_at 4 ?s)"
    unfolding namei_def base_namei_def w
    by (simp add: lookup_name_def root_permission follow_link_def deref_def p Let_def del: psys_simps)
  have "\<exists>s'. sys_access (links (\<lambda>_ _. [])) [slash] 1 root_proc = Inr (0, s')"
    using n root_at_3[OF c(2)] by (simp add: sys_access_def Let_def)
  then obtain s' where "sys_access (links (\<lambda>_ _. [])) [slash] 1 root_proc = Inr (0, s')" by blast
  moreover from calls_counted[OF root_proc_refs, of "\<lambda>_ _. []" "[slash]"] this have "\<exists>i. refs ({#5, 5, 5#} + {#i#}) (vf s')" by simp
  ultimately show ?thesis by blast
qed

end
