(* ===== verification/Mount.thy ===== *)
theory Mount
  imports Open
begin

text \<open>
  Mounting, \<^verbatim>\<open>fs/super.c\<close>, with the super block operations of the Minix file system (\<^verbatim>\<open>fs/minix/inode.c\<close>) and
  \<^verbatim>\<open>fs_may_remount_ro\<close> of \<^verbatim>\<open>fs/inode.c\<close>. The state adds to that of the calls on names what a super block has beside its
  file system, and the devices that are not mounted. The kernel has one file system type, Minix. A super block is locked only
  while it is read or written, so that nobody finds it locked.
\<close>

section \<open>State\<close>

abbreviation NR_SUPER :: nat where "NR_SUPER \<equiv> 4"
abbreviation (input) MS_RDONLY :: u16 where "MS_RDONLY \<equiv> 1"
abbreviation (input) MINIX_VALID_FS :: u16 where "MINIX_VALID_FS \<equiv> 1"
abbreviation ENXIO :: int where "ENXIO \<equiv> 6"
abbreviation ENOTBLK :: int where "ENOTBLK \<equiv> 15"

record mnt =
  ns :: nsys
  s_dirt :: "nat \<Rightarrow> bool"
  s_mount_state :: "nat \<Rightarrow> u16"
  s_op :: "nat \<Rightarrow> bool"
  disk :: "u16 \<Rightarrow> minix_fs"
  ROOT_DEV :: u16

abbreviation super :: "mnt \<Rightarrow> nat \<Rightarrow> minix_fs super_block" where "super m b \<equiv> supers (vf (ns m)) b"

definition upd_super :: "nat \<Rightarrow> (minix_fs super_block \<Rightarrow> minix_fs super_block) \<Rightarrow> mnt \<Rightarrow> mnt" where
  "upd_super b f m = m\<lparr>ns := (ns m)\<lparr>vf := (vf (ns m))\<lparr>supers := (supers (vf (ns m)))(b := f (super m b))\<rparr>\<rparr>\<rparr>"

definition on_ns :: "(nsys \<Rightarrow> nsys kres) \<Rightarrow> mnt \<Rightarrow> mnt kres" where
  "on_ns f m = bindr (f (ns m)) (\<lambda>s. Inr (m\<lparr>ns := s\<rparr>))"

text \<open>The field \<^verbatim>\<open>s_state\<close> of the super block, in block 1 of the device.\<close>

definition ms_state :: "minix_fs \<Rightarrow> u16" where
  "ms_state fs = get16 (blk fs 1) 18"

definition set_ms_state :: "u16 \<Rightarrow> minix_fs \<Rightarrow> minix_fs" where
  "set_ms_state x fs = put_blk 1 (put16 (blk fs 1) 18 x) fs"

section \<open>Super operations of the Minix file system\<close>

definition minix_commit_super :: "nat \<Rightarrow> mnt \<Rightarrow> mnt" where
  "minix_commit_super b m =
    (upd_super b (\<lambda>x. x\<lparr>s_fs := (s_fs x)\<lparr>dirty := (dirty (s_fs x))(1 := True)\<rparr>\<rparr>) m)\<lparr>s_dirt := (s_dirt m)(b := False)\<rparr>"

definition minix_write_super :: "nat \<Rightarrow> mnt \<Rightarrow> mnt" where
  "minix_write_super b m =
    (let m = (if s_flags (super m b) AND MS_RDONLY = 0 then
                let st = ms_state (s_fs (super m b));
                    m = (if st AND MINIX_VALID_FS \<noteq> 0
                         then upd_super b (\<lambda>x. x\<lparr>s_fs := (s_fs x)\<lparr>blk := (blk (s_fs x))(1 := put16 (blk (s_fs x) 1) 18 (st AND NOT MINIX_VALID_FS))\<rparr>\<rparr>) m
                         else m)
                in minix_commit_super b m
              else m)
     in m\<lparr>s_dirt := (s_dirt m)(b := False)\<rparr>)"

definition minix_put_super :: "nat \<Rightarrow> mnt \<Rightarrow> mnt" where
  "minix_put_super b m =
    (let m = (if s_flags (super m b) AND MS_RDONLY = 0 then upd_super b (\<lambda>x. x\<lparr>s_fs := set_ms_state (s_mount_state m b) (s_fs x)\<rparr>) m else m);
         dev = s_dev (super m b)
     in (upd_super b (\<lambda>x. x\<lparr>s_dev := 0\<rparr>) m)\<lparr>disk := (disk m)(dev := s_fs (super m b))\<rparr>)"

definition minix_remount :: "nat \<Rightarrow> u16 \<Rightarrow> mnt \<Rightarrow> int \<times> mnt" where
  "minix_remount b flags m =
    (let st = ms_state (s_fs (super m b)) in
     if flags AND MS_RDONLY = s_flags (super m b) AND MS_RDONLY then (0, m)
     else if flags AND MS_RDONLY \<noteq> 0 then
       if st AND MINIX_VALID_FS \<noteq> 0 \<or> s_mount_state m b AND MINIX_VALID_FS = 0 then (0, m)
       else (0, minix_commit_super b (upd_super b (\<lambda>x. x\<lparr>s_fs := set_ms_state (s_mount_state m b) (s_fs x)\<rparr>) m))
     else
       (0, (upd_super b (\<lambda>x. x\<lparr>s_fs := set_ms_state (st AND NOT MINIX_VALID_FS) (s_fs x)\<rparr>) m)
              \<lparr>s_mount_state := (s_mount_state m)(b := st), s_dirt := (s_dirt m)(b := True)\<rparr>))"

text \<open>The loops that read the bitmaps: \<open>n\<close> blocks are left, \<open>i\<close> is the next of the \<open>slots\<close> of the array.\<close>

primrec read_map_loop :: "nat \<Rightarrow> nat \<Rightarrow> nat \<Rightarrow> (nat \<Rightarrow> bool) \<Rightarrow> nat \<Rightarrow> (nat \<Rightarrow> nat option) \<Rightarrow> (nat \<times> (nat \<Rightarrow> nat option)) kres" where
  "read_map_loop 0 i slots unread block mp = Inr (block, mp)"
| "read_map_loop (Suc n) i slots unread block mp =
    (if i \<ge> slots then Inl OutOfBounds
     else if unread block then Inr (block, mp(i := None))
     else read_map_loop n (i + 1) slots unread (block + 1) (mp(i := Some block)))"

text \<open>\<^verbatim>\<open>set_bit(0, bh->b_data)\<close> on a buffer that \<^verbatim>\<open>bread\<close> returned and nobody mapped: \<open>l1\<close> says which buffers are mapped by
  chance; otherwise the bit is set at address 0 of the kernel.\<close>

definition set_first_bit :: "(nat \<Rightarrow> bool) \<Rightarrow> nat \<Rightarrow> minix_fs \<Rightarrow> minix_fs" where
  "set_first_bit l1 z fs = (if l1 z then fs\<lparr>blk := (blk fs)(z := snd (set_bit 0 (blk fs z)))\<rparr> else fs)"

definition raw_super :: "bytes \<Rightarrow> minix_sb_info" where
  "raw_super d = \<lparr>s_ninodes = get16 d 0, s_nzones = get16 d 2, s_imap_blocks = get16 d 4, s_zmap_blocks = get16 d 6, s_firstdatazone = get16 d 8,
     s_dirsize = 16, s_namelen = 14, s_imap = (\<lambda>_. None), s_zmap = (\<lambda>_. None)\<rparr>"

text \<open>\<^verbatim>\<open>minix_read_super\<close> on slot \<open>b\<close>; the result says whether it succeeds. The second half, once the bitmaps are read,
  is \<open>minix_read_root\<close>. \<^verbatim>\<open>s_ms\<close> points into the buffer of block 1, which is taken to stay mapped.\<close>

definition minix_read_root :: "nat \<Rightarrow> minix_fs \<Rightarrow> mnt \<Rightarrow> mnt kres" where
  "minix_read_root b fs m =
    (let m = (upd_super b (\<lambda>x. x\<lparr>s_fs := fs\<rparr>) m)\<lparr>s_op := (s_op m)(b := True)\<rparr>
     in bindr (iget minix_sops b 1 (vf (ns m))) (\<lambda>(root, v).
          let m = upd_super b (\<lambda>x. x\<lparr>s_mounted := Some root\<rparr>) (m\<lparr>ns := (ns m)\<lparr>vf := v\<rparr>\<rparr>)
          in Inr (if s_flags (super m b) AND MS_RDONLY = 0
                  then (upd_super b (\<lambda>x. x\<lparr>s_fs := set_ms_state (ms_state (s_fs x) AND NOT MINIX_VALID_FS) (s_fs x)\<rparr>) m)
                         \<lparr>s_dirt := (s_dirt m)(b := True)\<rparr>
                  else m)))"

definition minix_read_super :: "(nat \<Rightarrow> bool) \<Rightarrow> nat \<Rightarrow> mnt \<Rightarrow> (bool \<times> mnt) kres" where
  "minix_read_super l1 b m =
    (let dev = s_dev (super m b);
         fs = disk m dev;
         info = raw_super (blk fs 1);
         fail = upd_super b (\<lambda>x. x\<lparr>s_dev := 0\<rparr>)
     in if bad fs 1 then Inr (False, fail m)
        else
          let m = m\<lparr>s_mount_state := (s_mount_state m)(b := ms_state fs)\<rparr>
          in if get16 (blk fs 1) 16 \<noteq> 0x137F then Inr (False, fail m)
             else
               bindr (read_map_loop (unat (s_imap_blocks info)) 0 8 (bad fs) 2 (\<lambda>_. None)) (\<lambda>(block, imap).
               bindr (read_map_loop (unat (s_zmap_blocks info)) 0 64 (bad fs) block (\<lambda>_. None)) (\<lambda>(block, zmap).
                 if (of_nat block :: u16) \<noteq> 2 + s_imap_blocks info + s_zmap_blocks info then Inr (False, fail m)
                 else
                   bindr (deref (imap 0)) (\<lambda>iz.
                   bindr (deref (zmap 0)) (\<lambda>zz.
                   bindr (minix_read_root b (set_first_bit l1 zz (set_first_bit l1 iz (fs\<lparr>sb := info\<lparr>s_imap := imap, s_zmap := zmap\<rparr>\<rparr>))) m)
                     (\<lambda>m. Inr (True, m)))))))"

section \<open>The table of super blocks\<close>

definition get_super :: "u16 \<Rightarrow> mnt \<Rightarrow> nat option" where
  "get_super dev m = (if dev = 0 then None else find (\<lambda>b. s_dev (super m b) = dev) [0..<NR_SUPER])"

primrec sync_supers_loop :: "nat list \<Rightarrow> u16 \<Rightarrow> mnt \<Rightarrow> mnt" where
  "sync_supers_loop [] dev m = m"
| "sync_supers_loop (b # bs) dev m =
    sync_supers_loop bs dev
      (if s_dev (super m b) = 0 \<or> dev \<noteq> 0 \<and> s_dev (super m b) \<noteq> dev \<or> \<not> s_dirt m b then m
       else if s_op m b then minix_write_super b m else m)"

definition sync_supers :: "u16 \<Rightarrow> mnt \<Rightarrow> mnt" where
  "sync_supers dev m = sync_supers_loop [0..<NR_SUPER] dev m"

text \<open>\<^verbatim>\<open>fsync_dev\<close>. What the buffer cache writes is already what a read of the device returns.\<close>

definition fsync_dev :: "u16 \<Rightarrow> mnt \<Rightarrow> mnt kres" where
  "fsync_dev dev m = on_ns (on_vfs (sync_inodes minix_sops dev)) (sync_supers dev m)"

definition put_super :: "u16 \<Rightarrow> mnt \<Rightarrow> mnt kres" where
  "put_super dev m =
    (if dev = ROOT_DEV m then Inl (Panic ''put_super: root'')
     else case get_super dev m of
       None \<Rightarrow> Inr m
     | Some b \<Rightarrow>
         if s_covered (super m b) \<noteq> None then Inr m
         else if s_op m b then Inr (minix_put_super b m) else Inr m)"

definition read_super :: "(nat \<Rightarrow> bool) \<Rightarrow> u16 \<Rightarrow> u16 \<Rightarrow> mnt \<Rightarrow> (nat option \<times> mnt) kres" where
  "read_super l1 dev flags m =
    (if dev = 0 then Inr (None, m)
     else case get_super dev m of
       Some b \<Rightarrow> Inr (Some b, m)
     | None \<Rightarrow>
         (case find (\<lambda>b. s_dev (super m b) = 0) [0..<NR_SUPER] of
            None \<Rightarrow> Inr (None, m)
          | Some b \<Rightarrow>
              bindr (minix_read_super l1 b (upd_super b (\<lambda>x. x\<lparr>s_dev := dev, s_flags := flags\<rparr>) m)) (\<lambda>(r, m).
                if \<not> r then Inr (None, upd_super b (\<lambda>x. x\<lparr>s_dev := 0\<rparr>) m)
                else Inr (Some b, (upd_super b (\<lambda>x. x\<lparr>s_dev := dev, s_covered := None\<rparr>) m)\<lparr>s_dirt := (s_dirt m)(b := False)\<rparr>))))"

section \<open>Mounting\<close>

definition fs_may_remount_ro :: "u16 \<Rightarrow> nsys \<Rightarrow> bool" where
  "fs_may_remount_ro dev s =
    list_all (\<lambda>i. let x = file_array s i in
      f_count x = 0 \<or>
      (case f_inode x of
         None \<Rightarrow> True
       | Some n \<Rightarrow> i_dev (islot (vf s) n) \<noteq> dev \<or> \<not> (S_ISREG (i_mode (islot (vf s) n)) \<and> f_mode x AND 2 \<noteq> 0)))
      [0..<NR_FILE]"

definition do_remount_sb :: "nat \<Rightarrow> u16 \<Rightarrow> mnt \<Rightarrow> int \<times> mnt" where
  "do_remount_sb b flags m =
    (if flags AND MS_RDONLY = 0 \<and> s_dev (super m b) \<noteq> 0 then (- EACCES, m)
     else if flags AND MS_RDONLY \<noteq> 0 \<and> s_flags (super m b) AND MS_RDONLY = 0 \<and> \<not> fs_may_remount_ro (s_dev (super m b)) (ns m) then (- EBUSY, m)
     else
       let (retval, m) = (if s_op m b then minix_remount b flags m else (0, m))
       in if retval \<noteq> 0 then (retval, m)
          else (0, upd_super b (\<lambda>x. x\<lparr>s_flags := (s_flags x AND NOT MS_RDONLY) OR (flags AND MS_RDONLY)\<rparr>) m))"

definition put_i :: "nat \<Rightarrow> mnt \<Rightarrow> mnt kres" where
  "put_i i = on_ns (put_inode i)"

definition do_umount :: "u16 \<Rightarrow> mnt \<Rightarrow> (int \<times> mnt) kres" where
  "do_umount dev m =
    (if dev = ROOT_DEV m then
       case get_super dev m of
         None \<Rightarrow> Inr (- ENOENT, m)
       | Some b \<Rightarrow>
           if s_flags (super m b) AND MS_RDONLY = 0
           then bindr (fsync_dev dev m) (\<lambda>m. Inr (do_remount_sb b MS_RDONLY m))
           else Inr (0, m)
     else
       case get_super dev m of
         None \<Rightarrow> Inr (- ENOENT, m)
       | Some b \<Rightarrow>
           (case s_covered (super m b) of
              None \<Rightarrow> Inr (- ENOENT, m)
            | Some cov \<Rightarrow>
                if i_mount (islot (vf (ns m)) cov) = None then Inl (Panic ''umount: i_mount=NULL'')
                else
                  let root = s_mounted (super m b) in
                  bindr (fs_may_umount dev (case root of None \<Rightarrow> NR_INODE | Some r \<Rightarrow> r) (vf (ns m))) (\<lambda>may.
                    if \<not> may then Inr (- EBUSY, m)
                    else
                      bindr (put_i cov (m\<lparr>ns := (ns m)\<lparr>vf := Icache.upd cov (\<lambda>n. n\<lparr>i_mount := None\<rparr>) (vf (ns m))\<rparr>\<rparr>)) (\<lambda>m.
                      let m = upd_super b (\<lambda>x. x\<lparr>s_covered := None\<rparr>) m in
                      bindr (case root of None \<Rightarrow> Inr m | Some r \<Rightarrow> put_i r m) (\<lambda>m.
                        let m = upd_super b (\<lambda>x. x\<lparr>s_mounted := None\<rparr>) m;
                            m = (if s_op m b \<and> s_dirt m b then minix_write_super b m else m)
                        in bindr (put_super dev m) (\<lambda>m. Inr (0, m)))))))"

definition do_mount :: "follow \<Rightarrow> (nat \<Rightarrow> bool) \<Rightarrow> u16 \<Rightarrow> u8 list \<Rightarrow> u16 \<Rightarrow> mnt \<Rightarrow> (int \<times> mnt) kres" where
  "do_mount fl l1 dev dir flags m =
    bindr (namei fl dir IS_DIR 0 (ns m)) (\<lambda>(error, r, s).
      let m = m\<lparr>ns := s\<rparr> in
      if error \<noteq> 0 then Inr (error, m)
      else
        bindr (deref r) (\<lambda>dirp.
        let give_up = (\<lambda>e m. bindr (put_i dirp m) (\<lambda>m. Inr (e, m))) in
        if i_count (islot (vf s) dirp) \<noteq> 1 \<or> i_mount (islot (vf s) dirp) \<noteq> None then give_up (- EBUSY) m
        else
          bindr (fs_may_mount dev (vf s)) (\<lambda>(may, v).
            let m = m\<lparr>ns := s\<lparr>vf := v\<rparr>\<rparr> in
            if \<not> may then give_up (- EBUSY) m
            else
              bindr (read_super l1 dev flags m) (\<lambda>(r, m).
                case r of
                  None \<Rightarrow> give_up (- EINVAL) m
                | Some b \<Rightarrow>
                    if s_covered (super m b) \<noteq> None then give_up (- EBUSY) m
                    else
                      let m = upd_super b (\<lambda>x. x\<lparr>s_covered := Some dirp\<rparr>) m
                      in Inr (0, m\<lparr>ns := (ns m)\<lparr>vf := Icache.upd dirp (\<lambda>n. n\<lparr>i_mount := s_mounted (super m b)\<rparr>) (vf (ns m))\<rparr>\<rparr>)))))"

section \<open>System calls\<close>

text \<open>The functions of block devices to open and release, called here without a file.\<close>

type_synonym blk_open = "file_operations \<Rightarrow> (u16 \<Rightarrow> nsys \<Rightarrow> (int \<times> nsys) kres) option"
type_synonym blk_release = "file_operations \<Rightarrow> (u16 \<Rightarrow> nsys \<Rightarrow> nsys kres) option"

definition blk_release_dev :: "blk_release \<Rightarrow> devsw \<Rightarrow> u16 \<Rightarrow> mnt \<Rightarrow> mnt kres" where
  "blk_release_dev rel sw dev m =
    (case get_blkfops (drop_bit 8 dev) sw of
       None \<Rightarrow> Inr m
     | Some t \<Rightarrow> (case rel t of None \<Rightarrow> Inr m | Some release \<Rightarrow> on_ns (release dev) m))"

definition sys_umount :: "blk_release \<Rightarrow> devsw \<Rightarrow> follow \<Rightarrow> u8 list \<Rightarrow> mnt \<Rightarrow> (int \<times> mnt) kres" where
  "sys_umount rel sw fl name m =
    (if \<not> suser (ks (ns m)) then Inr (- EPERM, m)
     else
       bindr (bindr (namei fl name Any_type 0 (ns m)) (\<lambda>(e, r, s). if e \<noteq> 0 then base_namei fl name None False s else Inr (e, r, s))) (\<lambda>(e, r, s).
         let m = m\<lparr>ns := s\<rparr> in
         if e \<noteq> 0 then Inr (e, m)
         else
           bindr (deref r) (\<lambda>i.
           let n = islot (vf s) i;
               finish = (\<lambda>dev held m.
                 let give = (\<lambda>m. if held then put_i i m else Inr m) in
                 if unat (drop_bit 8 dev :: u16) \<ge> MAX_BLKDEV then bindr (give m) (\<lambda>m. Inr (- ENXIO, m))
                 else
                   bindr (do_umount dev m) (\<lambda>(retval, m).
                   bindr (if retval = 0 \<and> dev \<noteq> ROOT_DEV m then blk_release_dev rel sw dev m else Inr m) (\<lambda>m.
                   bindr (give m) (\<lambda>m.
                     if retval \<noteq> 0 then Inr (retval, m) else bindr (fsync_dev dev m) (\<lambda>m. Inr (0, m))))))
           in if S_ISBLK (i_mode n) then
                if i_flags n AND 4 \<noteq> 0 then bindr (put_i i m) (\<lambda>m. Inr (- EACCES, m))
                else finish (i_rdev n) True m
              else
                case i_sb n of
                  None \<Rightarrow> bindr (put_i i m) (\<lambda>m. Inr (- EINVAL, m))
                | Some b \<Rightarrow>
                    if s_mounted (super m b) \<noteq> Some i then bindr (put_i i m) (\<lambda>m. Inr (- EINVAL, m))
                    else bindr (put_i i m) (finish (s_dev (super m b)) False))))"

definition sys_mount :: "blk_open \<Rightarrow> blk_release \<Rightarrow> devsw \<Rightarrow> follow \<Rightarrow> (nat \<Rightarrow> bool) \<Rightarrow> u8 list \<Rightarrow> u8 list \<Rightarrow> mnt \<Rightarrow> (int \<times> mnt) kres" where
  "sys_mount opn rel sw fl l1 dev_name dir_name m =
    (if \<not> suser (ks (ns m)) then Inr (- EPERM, m)
     else
       bindr (namei fl dev_name Any_type 0 (ns m)) (\<lambda>(retval, r, s).
         let m = m\<lparr>ns := s\<rparr> in
         if retval \<noteq> 0 then Inr (retval, m)
         else
           bindr (deref r) (\<lambda>i.
           let n = islot (vf s) i;
               dev = i_rdev n;
               give_up = (\<lambda>e m. bindr (put_i i m) (\<lambda>m. Inr (e, m)))
           in if \<not> S_ISBLK (i_mode n) then give_up (- ENOTBLK) m
              else if i_flags n AND 4 \<noteq> 0 then give_up (- EACCES) m
              else if unat (drop_bit 8 dev) \<ge> MAX_BLKDEV then give_up (- ENXIO) m
              else
                case get_blkfops (drop_bit 8 dev) sw of
                  None \<Rightarrow> give_up (- ENOTBLK) m
                | Some t \<Rightarrow>
                    bindr (case opn t of None \<Rightarrow> Inr (0, s) | Some open \<Rightarrow> open dev s) (\<lambda>(retval, s).
                      let m = m\<lparr>ns := s\<rparr> in
                      if retval \<noteq> 0 then give_up retval m
                      else
                        bindr (do_mount fl l1 dev dir_name 0 m) (\<lambda>(retval, m).
                        bindr (if retval \<noteq> 0 then blk_release_dev rel sw dev m else Inr m) (give_up retval))))))"

text \<open>\<^verbatim>\<open>mount_root\<close>, at start-up. With the root on a floppy disk (device 0x380) a failure waits for a key.\<close>

definition mount_root :: "blk_open \<Rightarrow> devsw \<Rightarrow> (nat \<Rightarrow> bool) \<Rightarrow> u16 \<Rightarrow> mnt \<Rightarrow> (u16 \<times> mnt) kres" where
  "mount_root opn sw l1 root_mountflags m =
    (let dev = ROOT_DEV m;
         blkdev = (case get_blkfops (drop_bit 8 dev) sw of
                     None \<Rightarrow> (\<lambda>s. Inr (- ENODEV, s))
                   | Some t \<Rightarrow> (\<lambda>s. case opn t of None \<Rightarrow> Inr (0, s) | Some open \<Rightarrow> open dev s));
         fail = (if dev = 0x0380 then Inl Asleep else Inl (Panic ''VFS: Unable to mount root fs''))
     in bindr (blkdev (ns m)) (\<lambda>(retval, s).
        bindr (if retval = - EROFS then bindr (blkdev s) (\<lambda>(r, s). Inr (r, root_mountflags OR MS_RDONLY, s)) else Inr (retval, root_mountflags, s))
          (\<lambda>(retval, flags, s).
            if retval \<noteq> 0 then fail
            else
              bindr (read_super l1 dev flags (m\<lparr>ns := s\<rparr>)) (\<lambda>(r, m).
                case r of
                  None \<Rightarrow> fail
                | Some b \<Rightarrow>
                    bindr (deref (s_mounted (super m b))) (\<lambda>inode.
                      let m = upd_super b (\<lambda>x. x\<lparr>s_covered := Some inode, s_flags := flags\<rparr>) m;
                          s = (ns m)\<lparr>vf := Icache.upd inode (\<lambda>n. n\<lparr>i_count := i_count n + 3\<rparr>) (vf (ns m))\<rparr>
                      in Inr (flags, m\<lparr>ns := upd_cur (\<lambda>t. t\<lparr>pwd_i := inode, root_i := inode\<rparr>) s\<rparr>))))))"

end
