(* ===== verification/MountTable.thy ===== *)
theory MountTable
  imports Mount
begin

text \<open>
  The table of mounts as an abstract map from devices to the covered directory and the root, and that mounting and unmounting
  implement it and hold the references they should.
\<close>

section \<open>The mount table\<close>

text \<open>The abstract state of mounting: for each device the inode it covers and its root.\<close>

definition mounts :: "mnt \<Rightarrow> u16 \<Rightarrow> (nat \<times> nat) option" where
  "mounts m dev =
    (case get_super dev m of
       None \<Rightarrow> None
     | Some b \<Rightarrow> (case (s_covered (super m b), s_mounted (super m b)) of (Some c, Some r) \<Rightarrow> Some (c, r) | _ \<Rightarrow> None))"

definition supers_ok :: "mnt \<Rightarrow> bool" where
  "supers_ok m \<longleftrightarrow> (\<forall>b<NR_SUPER. s_dev (super m b) \<noteq> 0 \<longrightarrow> s_covered (super m b) \<noteq> None \<and> s_mounted (super m b) \<noteq> None \<and> s_op m b) \<and>
    (\<forall>b<NR_SUPER. \<forall>c<NR_SUPER. s_dev (super m b) = s_dev (super m c) \<and> s_dev (super m b) \<noteq> 0 \<longrightarrow> b = c)"

lemma upd_super_simps [simp]:
  "super (upd_super b f m) c = (if c = b then f (super m b) else super m c)" "islot (vf (ns (upd_super b f m))) = islot (vf (ns m))"
  "s_op (upd_super b f m) = s_op m" "s_dirt (upd_super b f m) = s_dirt m" "ROOT_DEV (upd_super b f m) = ROOT_DEV m"
  "s_mount_state (upd_super b f m) = s_mount_state m" "disk (upd_super b f m) = disk m"
  by (simp_all add: upd_super_def)

lemma upd_super_refs [simp]: "refs A (vf (ns (upd_super b f m))) = refs A (vf (ns m))"
  by (rule refs_cong) simp

lemma sbs_D:
  assumes "sbs (vf (ns m')) = sbs (vf (ns m))"
  shows "s_dev (super m' b) = s_dev (super m b)" "s_flags (super m' b) = s_flags (super m b)" "s_covered (super m' b) = s_covered (super m b)"
    "s_mounted (super m' b) = s_mounted (super m b)"
  using fun_cong[OF assms, of b] by (simp_all add: sbs_def)

lemma find_upt: "find P [0..<n] = Some b \<Longrightarrow> b < n \<and> P b" "find P [0..<n] = None \<Longrightarrow> b < n \<Longrightarrow> \<not> P b"
  by (auto simp: find_Some_iff find_None_iff)

lemma get_super_iff:
  assumes "supers_ok m"
  shows "get_super dev m = Some b \<longleftrightarrow> dev \<noteq> 0 \<and> b < NR_SUPER \<and> s_dev (super m b) = dev"
proof
  assume "get_super dev m = Some b"
  then show "dev \<noteq> 0 \<and> b < NR_SUPER \<and> s_dev (super m b) = dev" using find_upt(1) by (auto simp: get_super_def simp del: upt.simps split: if_splits)
next
  assume h: "dev \<noteq> 0 \<and> b < NR_SUPER \<and> s_dev (super m b) = dev"
  then have "find (\<lambda>b. s_dev (super m b) = dev) [0..<NR_SUPER] \<noteq> None" by (auto simp: find_None_iff)
  then obtain c where c: "find (\<lambda>b. s_dev (super m b) = dev) [0..<NR_SUPER] = Some c" by blast
  then have "c < NR_SUPER" "s_dev (super m c) = dev" using find_upt(1) by auto
  then have "c = b" using assms h unfolding supers_ok_def by metis
  then show "get_super dev m = Some b" using c h by (simp add: get_super_def del: upt.simps)
qed

lemma get_super_None: "get_super dev m = None \<Longrightarrow> dev \<noteq> 0 \<Longrightarrow> b < NR_SUPER \<Longrightarrow> s_dev (super m b) \<noteq> dev"
  using find_upt(2)[of "\<lambda>b. s_dev (super m b) = dev" NR_SUPER b] by (auto simp: get_super_def simp del: upt.simps)

lemma mounts_iff:
  assumes "supers_ok m"
  shows "mounts m dev = Some (c, r) \<longleftrightarrow> dev \<noteq> 0 \<and> (\<exists>b<NR_SUPER. s_dev (super m b) = dev \<and> s_covered (super m b) = Some c \<and> s_mounted (super m b) = Some r)"
proof (cases "get_super dev m")
  case None
  then show ?thesis using get_super_None[OF None] by (auto simp: mounts_def)
next
  case (Some b)
  note b = iffD1[OF get_super_iff[OF assms] Some]
  have u: "\<And>b'. b' < NR_SUPER \<Longrightarrow> s_dev (super m b') = dev \<Longrightarrow> b' = b" using assms b unfolding supers_ok_def by metis
  have "(\<exists>b'<NR_SUPER. s_dev (super m b') = dev \<and> s_covered (super m b') = Some c \<and> s_mounted (super m b') = Some r) \<longleftrightarrow>
      s_covered (super m b) = Some c \<and> s_mounted (super m b) = Some r" using b u by blast
  then show ?thesis using Some b by (simp add: mounts_def split: option.split)
qed

lemma mounts_cong:
  assumes "\<And>b. b < NR_SUPER \<Longrightarrow> s_dev (super m' b) = s_dev (super m b)"
    and "\<And>b. b < NR_SUPER \<Longrightarrow> s_dev (super m b) \<noteq> 0 \<Longrightarrow> s_covered (super m' b) = s_covered (super m b) \<and> s_mounted (super m' b) = s_mounted (super m b) \<and> s_op m' b = s_op m b"
    and "supers_ok m"
  shows "mounts m' = mounts m \<and> supers_ok m'"
proof -
  have ok: "supers_ok m'" using assms unfolding supers_ok_def by metis
  have ext: "x = y" if "\<And>c r. x = Some (c, r) \<longleftrightarrow> y = Some (c, r)" for x y :: "(nat \<times> nat) option"
    using that by (cases x; cases y) auto
  have "mounts m' dev = mounts m dev" for dev
  proof (rule ext)
    fix c r show "mounts m' dev = Some (c, r) \<longleftrightarrow> mounts m dev = Some (c, r)"
      unfolding mounts_iff[OF ok] mounts_iff[OF assms(3)] using assms(1,2) by metis
  qed
  with ok show ?thesis by auto
qed

lemma mounts_sbs:
  assumes "sbs (vf (ns m')) = sbs (vf (ns m))" "s_op m' = s_op m" "supers_ok m"
  shows "mounts m' = mounts m \<and> supers_ok m'"
  by (rule mounts_cong[OF _ _ assms(3)]) (use sbs_D[OF assms(1)] assms(2) in simp_all)

section \<open>Inodes\<close>

lemma key_mount [simp]: "key (n\<lparr>i_mount := x\<rparr>) = key n" by (simp add: key_def)

lemma may_mount_refs: "refs A v \<Longrightarrow> may_mount_loop k dev p v = Inr (b, v') \<Longrightarrow> refs A v' \<and> sbs v' = sbs v"
proof (induction k arbitrary: p v)
  case (Suc k)
  then obtain i where p: "p = Some i" by (auto split: option.splits)
  let ?n = "islot v i"
  consider (skip) "i_dev ?n \<noteq> dev" | (busy) "i_dev ?n = dev" "i_count ?n \<noteq> 0 \<or> i_dirt ?n \<or> i_lock ?n" | (clear) "i_dev ?n = dev" "\<not> (i_count ?n \<noteq> 0 \<or> i_dirt ?n \<or> i_lock ?n)" by blast
  then show ?case
  proof cases
    case skip
    then show ?thesis using Suc.IH[OF Suc.prems(1), of "i_next ?n"] Suc.prems(2) p by simp
  next
    case busy
    then show ?thesis using Suc.prems p by simp
  next
    case clear
    then obtain w where w: "clear_inode i v = Inr w" "may_mount_loop k dev (i_next ?n) w = Inr (b, v')" using Suc.prems(2) p by (auto simp: bindr_Inr_iff)
    have z: "count A i = 0" using refsD[OF Suc.prems(1), of i] clear(2) by auto
    have "refs A w" by (rule refs_clear[of A "{#}" v i v w, OF _ w(1)]) (use Suc.prems(1) z in simp_all)
    from Suc.IH[OF this w(2)] clear_sbs[OF w(1)] show ?thesis by simp
  qed
qed simp

lemma put_i_refs: "refs (A + {#i#}) (vf (ns m)) \<Longrightarrow> put_i i m = Inr m' \<Longrightarrow>
    refs A (vf (ns m')) \<and> sbs (vf (ns m')) = sbs (vf (ns m)) \<and> s_op m' = s_op m \<and> ROOT_DEV m' = ROOT_DEV m \<and> s_dirt m' = s_dirt m"
  using iput_refs[of A i "vf (ns m)"] by (auto simp: put_i_def on_ns_def put_inode_def on_vfs_def bindr_Inr_iff dest: iput_sbs)

section \<open>Reading a super block\<close>

lemma sbs_upd_super: "sbs (vf (ns (upd_super b f m))) c = (if c = b then (let x = f (super m b) in (s_dev x, s_flags x, s_covered x, s_mounted x)) else sbs (vf (ns m)) c)"
  by (simp add: sbs_def Let_def)

definition sb_failed :: "nat multiset \<Rightarrow> nat \<Rightarrow> mnt \<Rightarrow> mnt \<Rightarrow> bool" where
  "sb_failed A b m m' \<longleftrightarrow> refs A (vf (ns m')) \<and> (\<forall>c. c \<noteq> b \<longrightarrow> sbs (vf (ns m')) c = sbs (vf (ns m)) c) \<and> s_dev (super m' b) = 0 \<and> s_op m' = s_op m \<and> ROOT_DEV m' = ROOT_DEV m"

definition sb_read :: "nat multiset \<Rightarrow> nat \<Rightarrow> mnt \<Rightarrow> mnt \<Rightarrow> bool" where
  "sb_read A b m m' \<longleftrightarrow> (\<exists>root. refs (A + {#root#}) (vf (ns m')) \<and>
     sbs (vf (ns m')) = (sbs (vf (ns m)))(b := (s_dev (super m b), s_flags (super m b), s_covered (super m b), Some root)) \<and>
     s_op m' = (s_op m)(b := True) \<and> ROOT_DEV m' = ROOT_DEV m)"

lemma sb_fail: "refs A (vf (ns m)) \<Longrightarrow> sb_failed A b m (upd_super b (\<lambda>x. x\<lparr>s_dev := 0\<rparr>) (m\<lparr>s_mount_state := g\<rparr>))"
  "refs A (vf (ns m)) \<Longrightarrow> sb_failed A b m (upd_super b (\<lambda>x. x\<lparr>s_dev := 0\<rparr>) m)"
  by (simp_all add: sb_failed_def sbs_upd_super)

lemma minix_read_root_spec:
  assumes r: "refs A (vf (ns m))" and bound: "size A < MAXREF + 50" and rd: "minix_read_root b fs m = Inr m2"
  shows "sb_read A b m m2"
proof -
  let ?m = "(upd_super b (\<lambda>x. x\<lparr>s_fs := fs\<rparr>) m)\<lparr>s_op := (s_op m)(b := True)\<rparr>"
  obtain root v where i: "iget minix_sops b 1 (vf (ns ?m)) = Inr (root, v)"
    using rd unfolding minix_read_root_def Let_def by (auto simp: bindr_Inr_iff)
  define m1 where "m1 = upd_super b (\<lambda>x. x\<lparr>s_mounted := Some root\<rparr>) (?m\<lparr>ns := (ns ?m)\<lparr>vf := v\<rparr>\<rparr>)"
  have m2: "m2 = m1 \<or> m2 = (upd_super b (\<lambda>x. x\<lparr>s_fs := set_ms_state (ms_state (s_fs x) AND NOT MINIX_VALID_FS) (s_fs x)\<rparr>) m1)\<lparr>s_dirt := (s_dirt m1)(b := True)\<rparr>"
    using rd unfolding minix_read_root_def Let_def i bindr_simps prod.case m1_def[symmetric] by auto
  have "refs A (vf (ns ?m))" using r by simp
  from iget_refs[OF this bound i] have rv: "refs (A + {#root#}) v" .
  have sv: "sbs v = sbs (vf (ns m))" using iget_sbs[OF i] by (auto simp: fun_eq_iff sbs_upd_super Let_def) (simp add: sbs_def)
  have v1: "vf (ns m1) = v\<lparr>supers := (supers v)(b := (supers v b)\<lparr>s_mounted := Some root\<rparr>)\<rparr>" unfolding m1_def by (simp add: upd_super_def)
  have r1: "refs (A + {#root#}) (vf (ns m1))" using rv refs_cong[of "vf (ns m1)" v] unfolding v1 by simp
  have s1: "sbs (vf (ns m1)) = (sbs (vf (ns m)))(b := (s_dev (super m b), s_flags (super m b), s_covered (super m b), Some root))"
    using fun_cong[OF sv, of b] fun_cong[OF sv] unfolding v1 by (auto simp: fun_eq_iff sbs_def)
  have o1: "s_op m1 = (s_op m)(b := True)" "ROOT_DEV m1 = ROOT_DEV m" unfolding m1_def by simp_all
  have "refs (A + {#root#}) (vf (ns m2)) \<and> sbs (vf (ns m2)) = sbs (vf (ns m1)) \<and> s_op m2 = s_op m1 \<and> ROOT_DEV m2 = ROOT_DEV m1"
    using m2
  proof
    assume "m2 = (upd_super b (\<lambda>x. x\<lparr>s_fs := set_ms_state (ms_state (s_fs x) AND NOT MINIX_VALID_FS) (s_fs x)\<rparr>) m1)\<lparr>s_dirt := (s_dirt m1)(b := True)\<rparr>"
    then show ?thesis using r1 by (auto simp: fun_eq_iff sbs_upd_super Let_def) (simp_all add: sbs_def)
  qed (use r1 in simp)
  then show ?thesis unfolding sb_read_def using s1 o1 by (intro exI[of _ root]) simp
qed

lemma minix_read_super_spec:
  assumes r: "refs A (vf (ns m))" and bound: "size A < MAXREF + 50" and rd: "minix_read_super l1 b m = Inr (ok, m')"
  shows "(ok \<and> sb_read A b m m') \<or> (\<not> ok \<and> sb_failed A b m m')"
proof -
  let ?fs = "disk m (s_dev (super m b))"
  let ?m1 = "m\<lparr>s_mount_state := (s_mount_state m)(b := ms_state ?fs)\<rparr>"
  have "(\<not> ok \<and> (m' = upd_super b (\<lambda>x. x\<lparr>s_dev := 0\<rparr>) m \<or> m' = upd_super b (\<lambda>x. x\<lparr>s_dev := 0\<rparr>) ?m1)) \<or> (ok \<and> (\<exists>fs. minix_read_root b fs ?m1 = Inr m'))"
    using rd unfolding minix_read_super_def Let_def by (auto simp: bindr_Inr_iff split: if_splits)
  moreover have "refs A (vf (ns ?m1))" using r by simp
  moreover have "sb_read A b ?m1 m' \<Longrightarrow> sb_read A b m m'" by (simp add: sb_read_def)
  ultimately show ?thesis using minix_read_root_spec[OF _ bound] sb_fail[OF r] by blast
qed

lemma read_super_new:
  assumes r: "refs A (vf (ns m))" and bound: "size A < MAXREF + 50" and ok: "supers_ok m" and dev: "dev \<noteq> 0" "get_super dev m = None"
    and rd: "read_super l1 dev flags m = Inr (q, m')"
  shows "(q = None \<and> refs A (vf (ns m')) \<and> mounts m' = mounts m \<and> supers_ok m') \<or>
    (\<exists>b root. q = Some b \<and> b < NR_SUPER \<and> s_dev (super m b) = 0 \<and> refs (A + {#root#}) (vf (ns m')) \<and>
      sbs (vf (ns m')) = (sbs (vf (ns m)))(b := (dev, flags, None, Some root)) \<and> s_op m' = (s_op m)(b := True))"
proof (cases "find (\<lambda>b. s_dev (super m b) = 0) [0..<NR_SUPER]")
  case None
  then show ?thesis using rd dev r ok by (simp add: read_super_def del: upt.simps)
next
  case (Some b)
  then have b: "b < NR_SUPER" "s_dev (super m b) = 0" using find_upt(1) by auto
  let ?m = "upd_super b (\<lambda>x. x\<lparr>s_dev := dev, s_flags := flags\<rparr>) m"
  obtain k m1 where k: "minix_read_super l1 b ?m = Inr (k, m1)"
    using rd dev Some unfolding read_super_def by (auto simp: bindr_Inr_iff simp del: upt.simps)
  have m': "(if \<not> k then Inr (None, upd_super b (\<lambda>x. x\<lparr>s_dev := 0\<rparr>) m1)
      else Inr (Some b, (upd_super b (\<lambda>x. x\<lparr>s_dev := dev, s_covered := None\<rparr>) m1)\<lparr>s_dirt := (s_dirt m1)(b := False)\<rparr>)) = Inr (q, m')"
    using rd dev Some k unfolding read_super_def by (auto simp del: upt.simps split: if_splits)
  have "refs A (vf (ns ?m))" using r by simp
  from minix_read_super_spec[OF this bound k] show ?thesis
  proof
    assume h: "k \<and> sb_read A b ?m m1"
    then obtain root where root: "refs (A + {#root#}) (vf (ns m1))" "s_op m1 = (s_op m)(b := True)"
      "sbs (vf (ns m1)) = (sbs (vf (ns ?m)))(b := (dev, flags, s_covered (super m b), Some root))" by (auto simp: sb_read_def)
    have q: "q = Some b" "m' = (upd_super b (\<lambda>x. x\<lparr>s_dev := dev, s_covered := None\<rparr>) m1)\<lparr>s_dirt := (s_dirt m1)(b := False)\<rparr>" using m' h by auto
    have "sbs (vf (ns m')) c = ((sbs (vf (ns m)))(b := (dev, flags, None, Some root))) c" for c
      using fun_cong[OF root(3), of b] fun_cong[OF root(3), of c] unfolding q(2) by (auto simp: sbs_def)
    then show ?thesis using q root b by (auto simp: fun_eq_iff)
  next
    assume h: "\<not> k \<and> sb_failed A b ?m m1"
    then have f: "refs A (vf (ns m1))" "\<And>c. c \<noteq> b \<Longrightarrow> sbs (vf (ns m1)) c = sbs (vf (ns ?m)) c" "s_op m1 = s_op m" by (auto simp: sb_failed_def)
    have q: "q = None" "m' = upd_super b (\<lambda>x. x\<lparr>s_dev := 0\<rparr>) m1" using m' h by auto
    have e: "s_dev (super m' c) = s_dev (super m c) \<and> (c \<noteq> b \<longrightarrow> s_covered (super m' c) = s_covered (super m c) \<and> s_mounted (super m' c) = s_mounted (super m c))" for c
      using f(2)[of c] b(2) unfolding q(2) by (cases "c = b") (simp_all add: sbs_def)
    have "mounts m' = mounts m \<and> supers_ok m'" by (rule mounts_cong[OF _ _ ok]) (use e b(2) f(3) q(2) in auto)
    then show ?thesis using q f(1) by simp
  qed
qed

section \<open>Mounting and unmounting on the mount table\<close>

lemma mount_option_ext: "(\<And>c r. x = Some (c, r) \<longleftrightarrow> y = Some (c, r)) \<Longrightarrow> x = y" for x y :: "(nat \<times> nat) option"
  by (cases x; cases y) auto

lemma mounts_add:
  assumes ok: "supers_ok m" and dev: "dev \<noteq> 0" "get_super dev m = None" and b: "b < NR_SUPER" "s_dev (super m b) = 0"
    and s: "sbs (vf (ns m')) = (sbs (vf (ns m)))(b := (dev, fl, Some c, Some r))" and op: "s_op m' = (s_op m)(b := True)"
  shows "supers_ok m' \<and> mounts m' = (mounts m)(dev \<mapsto> (c, r))"
proof -
  have sb: "s_dev (super m' b) = dev" "s_covered (super m' b) = Some c" "s_mounted (super m' b) = Some r" using fun_cong[OF s, of b] by (simp_all add: sbs_def)
  have so: "k \<noteq> b \<Longrightarrow> s_dev (super m' k) = s_dev (super m k) \<and> s_covered (super m' k) = s_covered (super m k) \<and> s_mounted (super m' k) = s_mounted (super m k)" for k
    using fun_cong[OF s, of k] by (simp add: sbs_def)
  have no: "k < NR_SUPER \<Longrightarrow> s_dev (super m k) \<noteq> dev" for k using get_super_None[OF dev(2,1)] .
  have ok': "supers_ok m'" unfolding supers_ok_def
  proof (intro conjI allI impI)
    fix k assume "k < NR_SUPER" "s_dev (super m' k) \<noteq> 0"
    then show "s_covered (super m' k) \<noteq> None" "s_mounted (super m' k) \<noteq> None" "s_op m' k"
      using sb so[of k] ok op unfolding supers_ok_def by (cases "k = b"; auto)+
  next
    fix j k assume h: "j < NR_SUPER" "k < NR_SUPER" "s_dev (super m' j) = s_dev (super m' k) \<and> s_dev (super m' j) \<noteq> 0"
    show "j = k"
    proof (rule ccontr)
      assume "j \<noteq> k"
      then show False using h sb(1) so[of j] so[of k] no[of j] no[of k] ok unfolding supers_ok_def by (cases "j = b"; cases "k = b") auto
    qed
  qed
  have "mounts m' d = ((mounts m)(dev \<mapsto> (c, r))) d" for d
  proof (rule mount_option_ext)
    fix c' r'
    show "mounts m' d = Some (c', r') \<longleftrightarrow> ((mounts m)(dev \<mapsto> (c, r))) d = Some (c', r')"
    proof (cases "d = dev")
      case True
      have "mounts m' d = Some (c, r)" using mounts_iff[OF ok', of d c r] True dev(1) b(1) sb by blast
      then show ?thesis using True by simp
    next
      case False
      have "(\<exists>k<NR_SUPER. s_dev (super m' k) = d \<and> s_covered (super m' k) = Some c' \<and> s_mounted (super m' k) = Some r') \<longleftrightarrow>
          (\<exists>k<NR_SUPER. s_dev (super m k) = d \<and> s_covered (super m k) = Some c' \<and> s_mounted (super m k) = Some r')" if "d \<noteq> 0"
        using False sb(1) so b(2) that by metis
      then show ?thesis using False mounts_iff[OF ok', of d c' r'] mounts_iff[OF ok, of d c' r'] by auto
    qed
  qed
  then show ?thesis using ok' by auto
qed

lemma mounts_del:
  assumes ok: "supers_ok m" and b: "b < NR_SUPER" "s_dev (super m b) = dev" "dev \<noteq> 0"
    and s: "\<And>k. k \<noteq> b \<Longrightarrow> sbs (vf (ns m')) k = sbs (vf (ns m)) k" "s_dev (super m' b) = 0" and op: "s_op m' = s_op m"
  shows "supers_ok m' \<and> mounts m' = (mounts m)(dev := None)"
proof -
  have so: "k \<noteq> b \<Longrightarrow> s_dev (super m' k) = s_dev (super m k) \<and> s_covered (super m' k) = s_covered (super m k) \<and> s_mounted (super m' k) = s_mounted (super m k)" for k
    using s(1)[of k] by (simp add: sbs_def)
  have uniq: "k < NR_SUPER \<Longrightarrow> s_dev (super m k) = dev \<Longrightarrow> k = b" for k using ok b unfolding supers_ok_def by metis
  have ok': "supers_ok m'" using ok so s(2) op unfolding supers_ok_def by metis
  have "mounts m' d = ((mounts m)(dev := None)) d" for d
  proof (rule mount_option_ext)
    fix c' r'
    have "(\<exists>k<NR_SUPER. s_dev (super m' k) = d \<and> s_covered (super m' k) = Some c' \<and> s_mounted (super m' k) = Some r') \<longleftrightarrow>
        d \<noteq> dev \<and> (\<exists>k<NR_SUPER. s_dev (super m k) = d \<and> s_covered (super m k) = Some c' \<and> s_mounted (super m k) = Some r')" if "d \<noteq> 0"
      using so s(2) b uniq that by metis
    then show "mounts m' d = Some (c', r') \<longleftrightarrow> ((mounts m)(dev := None)) d = Some (c', r')"
      using mounts_iff[OF ok', of d c' r'] mounts_iff[OF ok, of d c' r'] by auto
  qed
  then show ?thesis using ok' by auto
qed

definition mount_refused :: "nat multiset \<Rightarrow> mnt \<Rightarrow> int \<Rightarrow> mnt \<Rightarrow> bool" where
  "mount_refused A m e m' \<longleftrightarrow> e \<noteq> 0 \<and> mounts m' = mounts m \<and> supers_ok m' \<and> refs A (vf (ns m'))"

lemma mount_give_up:
  assumes "bindr (put_i i x) (\<lambda>m. Inr (er, m)) = Inr (e, m')" "er \<noteq> 0" "refs (A + {#i#}) (vf (ns x))" "mounts x = mounts m" "supers_ok x"
  shows "mount_refused A m e m'"
proof -
  obtain y where y: "put_i i x = Inr y" "e = er" "m' = y" using assms(1) by (auto simp: bindr_Inr_iff)
  note p = put_i_refs[OF assms(3) y(1)]
  then show ?thesis using mounts_sbs[of y x] assms(2,4,5) y by (simp add: mount_refused_def)
qed

text \<open>The part of \<^verbatim>\<open>do_mount\<close> after the mount point is found free.\<close>

lemma do_mount_read:
  assumes r: "refs (A + {#dirp#}) (vf (ns m1))" and bound: "size A < MAXREF" and ok: "supers_ok m1" and mm: "mounts m1 = mounts m"
    and rd: "bindr (read_super l1 dev flags m1) (\<lambda>(r, m).
                case r of
                  None \<Rightarrow> bindr (put_i dirp m) (\<lambda>m. Inr (- EINVAL, m))
                | Some b \<Rightarrow>
                    if s_covered (super m b) \<noteq> None then bindr (put_i dirp m) (\<lambda>m. Inr (- EBUSY, m))
                    else Inr (0, (upd_super b (\<lambda>x. x\<lparr>s_covered := Some dirp\<rparr>) m)\<lparr>ns := (ns (upd_super b (\<lambda>x. x\<lparr>s_covered := Some dirp\<rparr>) m))
                      \<lparr>vf := Icache.upd dirp (\<lambda>n. n\<lparr>i_mount := s_mounted (super (upd_super b (\<lambda>x. x\<lparr>s_covered := Some dirp\<rparr>) m) b)\<rparr>)
                         (vf (ns (upd_super b (\<lambda>x. x\<lparr>s_covered := Some dirp\<rparr>) m)))\<rparr>\<rparr>)) = Inr (e, m')"
  shows "mount_refused A m e m' \<or> (e = 0 \<and> supers_ok m' \<and> mounts m dev = None \<and>
    (\<exists>c q. mounts m' = (mounts m)(dev \<mapsto> (c, q)) \<and> refs (A + {#c#} + {#q#}) (vf (ns m')) \<and> i_mount (islot (vf (ns m')) c) = Some q))"
proof -
  obtain q m2 where q: "read_super l1 dev flags m1 = Inr (q, m2)" using rd by (auto simp: bindr_Inr_iff)
  note rd = rd[unfolded q bindr_simps prod.case]
  consider (zero) "dev = 0" | (old) b where "dev \<noteq> 0" "get_super dev m1 = Some b" | (new) "dev \<noteq> 0" "get_super dev m1 = None" by blast
  then show ?thesis
  proof cases
    case zero
    then have "q = None" "m2 = m1" using q by (simp_all add: read_super_def)
    then show ?thesis using mount_give_up[of dirp m1 "- EINVAL" e m' A m] rd r mm ok by simp
  next
    case (old b)
    then have "q = Some b" "m2 = m1" using q by (simp_all add: read_super_def)
    moreover have "s_covered (super m1 b) \<noteq> None" using iffD1[OF get_super_iff[OF ok] old(2)] ok unfolding supers_ok_def by metis
    ultimately show ?thesis using mount_give_up[of dirp m1 "- EBUSY" e m' A m] rd r mm ok by simp
  next
    case new
    have "size (A + {#dirp#}) < MAXREF + 50" using bound by simp
    from read_super_new[OF r this ok new q] show ?thesis
    proof
      assume h: "q = None \<and> refs (A + {#dirp#}) (vf (ns m2)) \<and> mounts m2 = mounts m1 \<and> supers_ok m2"
      then show ?thesis using mount_give_up[of dirp m2 "- EINVAL" e m' A m] rd mm by simp
    next
      assume "\<exists>b root. q = Some b \<and> b < NR_SUPER \<and> s_dev (super m1 b) = 0 \<and> refs (A + {#dirp#} + {#root#}) (vf (ns m2)) \<and>
        sbs (vf (ns m2)) = (sbs (vf (ns m1)))(b := (dev, flags, None, Some root)) \<and> s_op m2 = (s_op m1)(b := True)"
      then obtain b root where h: "q = Some b" "b < NR_SUPER" "s_dev (super m1 b) = 0" "refs (A + {#dirp#} + {#root#}) (vf (ns m2))"
        "sbs (vf (ns m2)) = (sbs (vf (ns m1)))(b := (dev, flags, None, Some root))" "s_op m2 = (s_op m1)(b := True)" by blast
      have sb: "s_covered (super m2 b) = None" "s_mounted (super m2 b) = Some root" "s_dev (super m2 b) = dev" "s_flags (super m2 b) = flags"
        using fun_cong[OF h(5), of b] by (simp_all add: sbs_def)
      let ?m3 = "upd_super b (\<lambda>x. x\<lparr>s_covered := Some dirp\<rparr>) m2"
      have m': "e = 0" "m' = ?m3\<lparr>ns := (ns ?m3)\<lparr>vf := Icache.upd dirp (\<lambda>n. n\<lparr>i_mount := Some root\<rparr>) (vf (ns ?m3))\<rparr>\<rparr>"
        using rd[unfolded h(1) option.case] sb by (auto simp: Let_def simp del: Icache.iupd_simps)
      have "sbs (vf (ns m')) k = ((sbs (vf (ns m1)))(b := (dev, flags, Some dirp, Some root))) k" for k
        using fun_cong[OF h(5), of k] sb unfolding m'(2) by (auto simp: sbs_def)
      then have "sbs (vf (ns m')) = (sbs (vf (ns m1)))(b := (dev, flags, Some dirp, Some root))" by auto
      note a = mounts_add[OF ok new h(2,3) this]
      have "s_op m' = (s_op m1)(b := True)" using h(6) unfolding m'(2) by simp
      note a = a[OF this]
      have "refs (A + {#dirp#} + {#root#}) (vf (ns m'))" using h(4) refs_cong[of "vf (ns m')" "vf (ns m2)"] unfolding m'(2) by simp
      moreover have "i_mount (islot (vf (ns m')) dirp) = Some root" unfolding m'(2) by simp
      moreover have "mounts m dev = None" using new mm[symmetric] by (simp add: mounts_def)
      ultimately show ?thesis using a m'(1) mm by auto
    qed
  qed
qed

lemma do_mount_spec:
  assumes refs: "refs A (vf (ns m))" and bound: "size A < MAXREF" and ok: "supers_ok m" and mt: "do_mount (links str) l1 dev dir flags m = Inr (e, m')"
  shows "mount_refused A m e m' \<or> (e = 0 \<and> supers_ok m' \<and> mounts m dev = None \<and>
    (\<exists>c q. mounts m' = (mounts m)(dev \<mapsto> (c, q)) \<and> refs (A + {#c#} + {#q#}) (vf (ns m')) \<and> i_mount (islot (vf (ns m')) c) = Some q))"
proof -
  obtain er r s where n: "namei (links str) dir IS_DIR 0 (ns m) = Inr (er, r, s)" using mt unfolding do_mount_def by (auto simp: bindr_Inr_iff)
  have "walked (ns m) A (ns m)" using refs by (simp add: walked_def)
  from lk.namei_refs[OF this bound, of str dir IS_DIR 0] n have c: "refs (A + own er r) (vf s)" "er = 0 \<longrightarrow> r \<noteq> None" "sbs (vf s) = sbs (vf (ns m))"
    by (simp_all add: walked_def)
  note mt = mt[unfolded do_mount_def n bindr_simps prod.case Let_def]
  have m1: "mounts (m\<lparr>ns := s\<rparr>) = mounts m" "supers_ok (m\<lparr>ns := s\<rparr>)" using mounts_sbs[of "m\<lparr>ns := s\<rparr>" m] c(3) ok by simp_all
  show ?thesis
  proof (cases "er = 0")
    case False
    then show ?thesis using mt c(1) m1 by (auto simp: mount_refused_def)
  next
    case True
    then obtain i where i: "r = Some i" using c(2) by blast
    have ne: "\<not> er \<noteq> 0" using True by simp
    note mt = mt[unfolded if_not_P[OF ne] i deref_def option.case bindr_simps]
    have ri: "refs (A + {#i#}) (vf (ns (m\<lparr>ns := s\<rparr>)))" using c(1) True i by simp
    show ?thesis
    proof (cases "i_count (islot (vf s) i) \<noteq> 1 \<or> i_mount (islot (vf s) i) \<noteq> None")
      case True
      then show ?thesis using mount_give_up[of i "m\<lparr>ns := s\<rparr>" "- EBUSY" e m' A m] mt ri m1 by simp
    next
      case False
      note mt = mt[unfolded if_not_P[OF False]]
      obtain may v where f: "fs_may_mount dev (vf s) = Inr (may, v)" using mt by (auto simp: bindr_Inr_iff)
      note mt = mt[unfolded f bindr_simps prod.case]
      have v: "refs (A + {#i#}) v" "sbs v = sbs (vf s)" using may_mount_refs[of "A + {#i#}" "vf s"] ri f by (simp_all add: fs_may_mount_def)
      let ?m2 = "m\<lparr>ns := s, ns := s\<lparr>vf := v\<rparr>\<rparr>"
      have m2: "mounts ?m2 = mounts m" "supers_ok ?m2" "refs (A + {#i#}) (vf (ns ?m2))" using mounts_sbs[of ?m2 m] c(3) v ok by simp_all
      show ?thesis
      proof (cases may)
        case False
        then show ?thesis using mount_give_up[of i ?m2 "- EBUSY" e m' A m] mt m2 by simp
      next
        case True
        then have nm: "\<not> \<not> may" by simp
        show ?thesis by (rule do_mount_read[OF m2(3) bound m2(2,1) mt[unfolded if_not_P[OF nm]]])
      qed
    qed
  qed
qed

lemma write_super_simps:
  "sbs (vf (ns (minix_write_super b m))) = sbs (vf (ns m))" "refs A (vf (ns (minix_write_super b m))) = refs A (vf (ns m))"
  "s_op (minix_write_super b m) = s_op m" "ROOT_DEV (minix_write_super b m) = ROOT_DEV m"
proof -
  show "sbs (vf (ns (minix_write_super b m))) = sbs (vf (ns m))"
    by (auto simp: fun_eq_iff minix_write_super_def minix_commit_super_def Let_def sbs_upd_super) (simp_all add: sbs_def)
qed (simp_all add: minix_write_super_def minix_commit_super_def Let_def)

lemma do_umount_spec:
  assumes um: "do_umount dev m = Inr (e, m')" and ok: "supers_ok m" and root: "dev \<noteq> ROOT_DEV m"
    and mt: "mounts m dev = Some (c, r)" and refs: "refs (A + {#r#} + {#c#}) (vf (ns m))"
  shows "(e = - EBUSY \<and> m' = m) \<or> (e = 0 \<and> supers_ok m' \<and> mounts m' = (mounts m)(dev := None) \<and> refs A (vf (ns m')))"
proof -
  obtain b where b: "dev \<noteq> 0" "b < NR_SUPER" "s_dev (super m b) = dev" "s_covered (super m b) = Some c" "s_mounted (super m b) = Some r"
    using mt mounts_iff[OF ok] by auto
  have g: "get_super dev m = Some b" using get_super_iff[OF ok] b by blast
  have op: "s_op m b" using ok b unfolding supers_ok_def by metis
  note um = um[unfolded do_umount_def if_not_P[OF root] g option.case b(4,5) Let_def]
  have nm: "i_mount (islot (vf (ns m)) c) \<noteq> None" using um by (rule contrapos_pp) simp
  note um = um[unfolded if_not_P[OF nm]]
  obtain may where may: "fs_may_umount dev r (vf (ns m)) = Inr may" using um by (auto simp: bindr_Inr_iff)
  note um = um[unfolded may bindr_simps]
  show ?thesis
  proof (cases may)
    case False
    then show ?thesis using um by simp
  next
    case True
    then have nf: "\<not> \<not> may" by simp
    note um = um[unfolded if_not_P[OF nf]]
    let ?m0 = "m\<lparr>ns := (ns m)\<lparr>vf := Icache.upd c (\<lambda>n. n\<lparr>i_mount := None\<rparr>) (vf (ns m))\<rparr>\<rparr>"
    obtain m1 where m1: "put_i c ?m0 = Inr m1" using um by (auto simp: bindr_Inr_iff simp del: Icache.iupd_simps)
    note um = um[unfolded m1 bindr_simps]
    have "refs (A + {#r#} + {#c#}) (vf (ns ?m0))" using refs refs_upd[of "\<lambda>n. n\<lparr>i_mount := None\<rparr>" "vf (ns m)" c] by simp
    note p1 = put_i_refs[OF this m1]
    let ?m2 = "upd_super b (\<lambda>x. x\<lparr>s_covered := None\<rparr>) m1"
    obtain m3 where m3: "put_i r ?m2 = Inr m3" using um by (auto simp: bindr_Inr_iff)
    note um = um[unfolded m3 bindr_simps]
    have "refs (A + {#r#}) (vf (ns ?m2))" using p1 by simp
    note p3 = put_i_refs[OF this m3]
    define m4 where "m4 = upd_super b (\<lambda>x. x\<lparr>s_mounted := None\<rparr>) m3"
    define m5 where "m5 = (if s_op m4 b \<and> s_dirt m4 b then minix_write_super b m4 else m4)"
    note um = um[folded m4_def, folded m5_def]
    have s3: "sbs (vf (ns m3)) k = (if k = b then (dev, s_flags (super m b), None, Some r) else sbs (vf (ns m)) k)" for k
    proof -
      have "sbs (vf (ns m3)) k = sbs (vf (ns ?m2)) k" "sbs (vf (ns m1)) = sbs (vf (ns m))" using p1 p3 by simp_all
      then show ?thesis using sbs_D[of m1 m b] b by (simp add: sbs_upd_super Let_def)
    qed
    have s5: "sbs (vf (ns m5)) k = (if k = b then (dev, s_flags (super m b), None, None) else sbs (vf (ns m)) k)" for k
      using s3[of k] unfolding m5_def m4_def by (auto simp: write_super_simps sbs_upd_super Let_def) (auto simp: sbs_def)
    have o5: "s_op m5 = s_op m" "ROOT_DEV m5 = ROOT_DEV m" "refs A (vf (ns m5))" using p1 p3 unfolding m5_def m4_def by (simp_all add: write_super_simps)
    have d5: "s_dev (super m5 k) = s_dev (super m k)" for k using s5[of k] b(3) by (cases "k = b") (simp_all add: sbs_def)
    have g5: "get_super dev m5 = Some b" using g b(1) by (simp add: get_super_def d5 del: upt.simps)
    have c5: "s_covered (super m5 b) = None" using s5[of b] by (simp add: sbs_def)
    have "put_super dev m5 = Inr (minix_put_super b m5)" using root o5(1,2) g5 c5 op by (simp add: put_super_def)
    then have m': "e = 0" "m' = minix_put_super b m5" using um by auto
    have k: "sbs (vf (ns m')) k = sbs (vf (ns m)) k" if "k \<noteq> b" for k
      using s5[of k] that unfolding m'(2) minix_put_super_def Let_def by (simp add: sbs_upd_super)
    have "s_dev (super m' b) = 0" "s_op m' = s_op m" "refs A (vf (ns m'))" using o5 unfolding m'(2) minix_put_super_def Let_def by simp_all
    then show ?thesis using mounts_del[OF ok b(2,3,1) k] m'(1) by simp
  qed
qed

text \<open>C40: 
  Mounting implements a table of mounts: a successful \<^verbatim>\<open>do_mount\<close> enters the device, which had no
  entry, with the directory it covers and the root of its file system, and holds one reference to each of the two;
  every other outcome leaves the table and the references as they were. \<^verbatim>\<open>do_umount\<close> of a mounted device removes its entry
  and gives back the two references, or answers that the device is busy and changes nothing.
\<close>

theorem mount_table:
  assumes "supers_ok m" and "refs A (vf (ns m))" and "size A < 65000"
  shows "(do_mount (links str) l1 dev dir flags m = Inr (e, m') \<longrightarrow> supers_ok m' \<and>
      ((e = 0 \<and> mounts m dev = None \<and> (\<exists>c r. mounts m' = (mounts m)(dev \<mapsto> (c, r)) \<and> refs (A + {#c#} + {#r#}) (vf (ns m')) \<and> i_mount (islot (vf (ns m')) c) = Some r)) \<or>
       (e \<noteq> 0 \<and> mounts m' = mounts m \<and> refs A (vf (ns m'))))) \<and>
    (do_umount dev m = Inr (e, m') \<and> dev \<noteq> ROOT_DEV m \<and> mounts m dev = Some (c, r) \<and> A = B + {#r#} + {#c#} \<longrightarrow> supers_ok m' \<and>
      ((e = 0 \<and> mounts m' = (mounts m)(dev := None) \<and> refs B (vf (ns m'))) \<or> (e = - EBUSY \<and> m' = m)))"
proof (intro conjI impI)
  assume "do_mount (links str) l1 dev dir flags m = Inr (e, m')"
  note s = do_mount_spec[OF assms(2,3,1) this, unfolded mount_refused_def]
  then show "supers_ok m'" by auto
  show "(e = 0 \<and> mounts m dev = None \<and> (\<exists>c r. mounts m' = (mounts m)(dev \<mapsto> (c, r)) \<and> refs (A + {#c#} + {#r#}) (vf (ns m')) \<and> i_mount (islot (vf (ns m')) c) = Some r)) \<or>
      (e \<noteq> 0 \<and> mounts m' = mounts m \<and> refs A (vf (ns m')))" using s by blast
next
  assume h: "do_umount dev m = Inr (e, m') \<and> dev \<noteq> ROOT_DEV m \<and> mounts m dev = Some (c, r) \<and> A = B + {#r#} + {#c#}"
  have s: "(e = - EBUSY \<and> m' = m) \<or> (e = 0 \<and> supers_ok m' \<and> mounts m' = (mounts m)(dev := None) \<and> refs B (vf (ns m')))"
    by (rule do_umount_spec[where dev = dev and c = c and r = r]) (use h assms in simp_all)
  then show "supers_ok m'" using assms(1) by auto
  show "(e = 0 \<and> mounts m' = (mounts m)(dev := None) \<and> refs B (vf (ns m'))) \<or> (e = - EBUSY \<and> m' = m)" using s by blast
qed

section \<open>A damaged super block\<close>

lemma read_map_overflow:
  assumes "\<And>k. block \<le> k \<Longrightarrow> k < block + (slots - i) \<Longrightarrow> \<not> unread k" "slots - i < n" "i \<le> slots"
  shows "read_map_loop n i slots unread block mp = Inl OutOfBounds"
  using assms
proof (induction n arbitrary: i block mp)
  case (Suc n)
  show ?case
  proof (cases "i = slots")
    case False
    then have "\<not> unread block" using Suc.prems(1)[of block] Suc.prems(3) by simp
    moreover have "read_map_loop n (i + 1) slots unread (block + 1) (mp(i := Some block)) = Inl OutOfBounds"
      using Suc.prems False by (intro Suc.IH) auto
    ultimately show ?thesis using False Suc.prems(3) by simp
  qed simp
qed simp

text \<open>The numbers of bitmap blocks in a super block are not checked: more than eight blocks for the inodes are written
  past the array \<^verbatim>\<open>s_imap\<close>.\<close>

theorem read_super_overflows:
  assumes "\<And>k. k < 10 \<Longrightarrow> \<not> bad (disk m (s_dev (super m b))) k" and "get16 (blk (disk m (s_dev (super m b))) 1) 16 = 0x137F"
    and "8 < get16 (blk (disk m (s_dev (super m b))) 1) 4"
  shows "minix_read_super l1 b m = Inl OutOfBounds"
proof -
  have n: "8 < unat (get16 (blk (disk m (s_dev (super m b))) 1) 4)" using assms(3) by (simp add: word_less_nat_alt)
  have "read_map_loop (unat (get16 (blk (disk m (s_dev (super m b))) 1) 4)) 0 8 (bad (disk m (s_dev (super m b)))) 2 (\<lambda>_. None) = Inl OutOfBounds"
    by (rule read_map_overflow) (use assms(1) n in simp_all)
  then show ?thesis using assms(1)[of 1] assms(2) by (simp add: minix_read_super_def raw_super_def Let_def)
qed

section \<open>Examples\<close>

lemma may_umount_idle:
  assumes "\<And>i. i_next (islot v i) \<noteq> None" and "\<And>i. i_dev (islot v i) = dev \<Longrightarrow> i_count (islot v i) \<noteq> 0 \<Longrightarrow> i = root \<and> i_count (islot v i) = 1"
  shows "may_umount_loop k dev root (Some j) v = Inr True"
proof (induction k arbitrary: j)
  case (Suc k)
  obtain n where "i_next (islot v j) = Some n" using assms(1)[of j] by blast
  then show ?case using Suc[of n] assms(2)[of j] by (auto simp: Let_def)
qed simp

text \<open>Device 0x101 is mounted on the directory in slot 5; its root is in slot 6.\<close>

definition two_mounts :: mnt where
  "two_mounts = \<lparr>ns = root_proc\<lparr>vf := (one_file root_ino small_fs)
       \<lparr>islot := empty_slot(5 := place 5 (root_ino\<lparr>i_count := 4, i_mount := Some 6\<rparr>), 6 := place 6 (root_ino\<lparr>i_count := 1, i_dev := 0x101, i_sb := Some 1\<rparr>)),
        supers := (\<lambda>b. if b = 0 then \<lparr>s_dev = 3, s_flags = 0, s_covered = Some 5, s_mounted = Some 5, s_fs = small_fs\<rparr>
          else if b = 1 then \<lparr>s_dev = 0x101, s_flags = 0, s_covered = Some 5, s_mounted = Some 6, s_fs = small_fs\<rparr>
          else \<lparr>s_dev = 0, s_flags = 0, s_covered = None, s_mounted = None, s_fs = small_fs\<rparr>)\<rparr>\<rparr>,
     s_dirt = (\<lambda>_. False), s_mount_state = (\<lambda>_. 1), s_op = (\<lambda>_. True), disk = (\<lambda>_. small_fs), ROOT_DEV = 3\<rparr>"

lemma two_mounts_simps [simp]:
  "islot (vf (ns two_mounts)) = empty_slot(5 := place 5 (root_ino\<lparr>i_count := 4, i_mount := Some 6\<rparr>), 6 := place 6 (root_ino\<lparr>i_count := 1, i_dev := 0x101, i_sb := Some 1\<rparr>))"
  "s_op two_mounts = (\<lambda>_. True)" "ROOT_DEV two_mounts = 3" "s_dirt two_mounts = (\<lambda>_. False)" "first_inode (vf (ns two_mounts)) = Some 0"
  by (simp_all add: two_mounts_def one_file_def)

lemma two_mounts_super: "super two_mounts b = (if b = 0 then \<lparr>s_dev = 3, s_flags = 0, s_covered = Some 5, s_mounted = Some 5, s_fs = small_fs\<rparr>
          else if b = 1 then \<lparr>s_dev = 0x101, s_flags = 0, s_covered = Some 5, s_mounted = Some 6, s_fs = small_fs\<rparr>
          else \<lparr>s_dev = 0, s_flags = 0, s_covered = None, s_mounted = None, s_fs = small_fs\<rparr>)"
  by (simp add: two_mounts_def)

lemma two_mounts_ok: "supers_ok two_mounts"
  unfolding supers_ok_def two_mounts_super by (auto split: if_splits)

lemma two_mounts_table: "mounts two_mounts 0x101 = Some (5, 6)"
proof -
  have "\<exists>b<NR_SUPER. s_dev (super two_mounts b) = 0x101 \<and> s_covered (super two_mounts b) = Some 5 \<and> s_mounted (super two_mounts b) = Some 6"
    by (rule exI[of _ 1]) (simp add: two_mounts_super)
  then show ?thesis using mounts_iff[OF two_mounts_ok, of "0x101" 5 6] by simp
qed

lemma two_mounts_refs: "refs ({#5, 5, 5#} + {#6#} + {#5#}) (vf (ns two_mounts))"
  by (auto simp: refs_def empty_slot_def place_def root_ino_def)

lemma two_mounts_idle: "fs_may_umount 0x101 6 (vf (ns two_mounts)) = Inr True"
  unfolding fs_may_umount_def two_mounts_simps
  by (rule may_umount_idle) (auto simp: empty_slot_def place_def root_ino_def empty_ino_def split: if_splits)

lemma put_i_more: "1 < i_count (islot (vf (ns m)) i) \<Longrightarrow> \<not> i_lock (islot (vf (ns m)) i) \<Longrightarrow>
    put_i i m = Inr (m\<lparr>ns := (ns m)\<lparr>vf := Icache.upd i (\<lambda>x. x\<lparr>i_count := i_count x - 1\<rparr>) (vf (ns m))\<rparr>\<rparr>)"
  by (auto simp: put_i_def on_ns_def put_inode_def on_vfs_def iput_def wait_on_inode_def numeral_2_eq_2)

lemma put_i_last: "i_count (islot (vf (ns m)) i) = 1 \<Longrightarrow> \<not> i_lock (islot (vf (ns m)) i) \<Longrightarrow> \<not> i_dirt (islot (vf (ns m)) i) \<Longrightarrow> i_nlink (islot (vf (ns m)) i) \<noteq> 0 \<Longrightarrow>
    \<exists>v. put_i i m = Inr (m\<lparr>ns := (ns m)\<lparr>vf := v\<rparr>\<rparr>)"
  by (auto simp: put_i_def on_ns_def put_inode_def on_vfs_def iput_def wait_on_inode_def numeral_2_eq_2 minix_sops_def minix_put_inode_def Let_def split: option.split)

lemma put_super_returns: "dev \<noteq> ROOT_DEV m \<Longrightarrow> \<exists>m'. put_super dev m = Inr m'"
  by (auto simp: put_super_def split: option.split)

theorem mount_table_witness:
  "\<exists>m'. do_umount 0x101 two_mounts = Inr (0, m') \<and> mounts m' = (mounts two_mounts)(0x101 := None) \<and> refs {#5, 5, 5#} (vf (ns m'))"
proof -
  have g: "get_super 0x101 two_mounts = Some 1" using get_super_iff[OF two_mounts_ok, of "0x101" 1] by (simp add: two_mounts_super)
  let ?m0 = "two_mounts\<lparr>ns := (ns two_mounts)\<lparr>vf := Icache.upd 5 (\<lambda>n. n\<lparr>i_mount := None\<rparr>) (vf (ns two_mounts))\<rparr>\<rparr>"
  define m1 where "m1 = ?m0\<lparr>ns := (ns ?m0)\<lparr>vf := Icache.upd 5 (\<lambda>x. x\<lparr>i_count := i_count x - 1\<rparr>) (vf (ns ?m0))\<rparr>\<rparr>"
  have p1: "put_i 5 ?m0 = Inr m1" unfolding m1_def by (rule put_i_more) (simp_all add: place_def root_ino_def empty_ino_def)
  define m2 where "m2 = upd_super 1 (\<lambda>x. x\<lparr>s_covered := None\<rparr>) m1"
  obtain v where p2: "put_i 6 m2 = Inr (m2\<lparr>ns := (ns m2)\<lparr>vf := v\<rparr>\<rparr>)"
    using put_i_last[of m2 6] by (auto simp: m2_def m1_def place_def root_ino_def empty_ino_def)
  define m3 where "m3 = upd_super 1 (\<lambda>x. x\<lparr>s_mounted := None\<rparr>) (m2\<lparr>ns := (ns m2)\<lparr>vf := v\<rparr>\<rparr>)"
  have d: "\<not> (s_op m3 1 \<and> s_dirt m3 1)" "ROOT_DEV m3 = 3" by (simp_all add: m3_def m2_def m1_def)
  obtain m' where p3: "put_super 0x101 m3 = Inr m'" using put_super_returns[of "0x101" m3] d(2) by auto
  have ne: "(0x101 :: u16) \<noteq> ROOT_DEV two_mounts" by simp
  have mt: "i_mount (islot (vf (ns two_mounts)) 5) \<noteq> None" by (simp add: place_def)
  have sb: "s_covered (super two_mounts 1) = Some 5" "s_mounted (super two_mounts 1) = Some 6" by (simp_all only: two_mounts_super) simp_all
  have u: "do_umount 0x101 two_mounts = Inr (0, m')"
    unfolding do_umount_def if_not_P[OF ne] g option.case sb if_not_P[OF mt] Let_def two_mounts_idle bindr_simps p1 m2_def[symmetric] p2 m3_def[symmetric] if_not_P[OF d(1)] p3 by simp
  show ?thesis
    using mount_table[OF two_mounts_ok two_mounts_refs, of "\<lambda>_ _. []" "\<lambda>_. False" "0x101" "[]" 0 0 m' 5 6 "{#5, 5, 5#}"] u ne two_mounts_table by simp
qed

end
