(* ===== verification/Spec2Isabelle.thy ===== *)
theory Spec2Isabelle
  imports Chqueue Pipe Signal MinixEntries BlockIO ForkExit FileIO Stat MountTable
begin

text \<open>
  The core of the ELKS kernel, a Unix for the 8086: memory, processes, files and the block layer.

  \<^bold>\<open>The program.\<close> ELKS gives each process one or two segments of the 640 KB of real-mode memory
  (\<^verbatim>\<open>arch/i86/mm/malloc.c\<close>). Up to fifteen tasks share the processor; a task gives it up in
  \<^verbatim>\<open>schedule\<close>, sleeps on wait queues and receives signals (\<^verbatim>\<open>kernel/sched.c\<close>,
  \<^verbatim>\<open>kernel/sleepwake.c\<close>, \<^verbatim>\<open>kernel/signal.c\<close>, \<^verbatim>\<open>arch/i86/kernel/signal.c\<close>). Bytes pass between
  processes through pipes (\<^verbatim>\<open>fs/pipe.c\<close>) and between drivers and terminals through character
  queues (\<^verbatim>\<open>lib/chqueue.c\<close>). Files live in Minix file systems (\<^verbatim>\<open>fs/minix\<close>); their inodes are
  held in the inode cache (\<^verbatim>\<open>fs/inode.c\<close>), their blocks in the buffer cache (\<^verbatim>\<open>fs/buffer.c\<close>), which
  asks the block drivers for them through the request queue (\<^verbatim>\<open>ll_rw_blk.c\<close>); the driver that needs
  no hardware is the RAM disk (\<^verbatim>\<open>rd.c\<close>), which takes its memory from the segment allocator.
  A process reaches files through path names (\<^verbatim>\<open>fs/namei.c\<close>) and descriptors, which lead through the
  table of open files to the operations of a file system or driver (\<^verbatim>\<open>fs/open.c\<close>, \<^verbatim>\<open>fs/file_table.c\<close>,
  \<^verbatim>\<open>fs/fcntl.c\<close>, \<^verbatim>\<open>fs/read_write.c\<close>, \<^verbatim>\<open>fs/devices.c\<close>, \<^verbatim>\<open>fs/stat.c\<close>); file systems are mounted in \<^verbatim>\<open>fs/super.c\<close>. Processes are made and end in \<^verbatim>\<open>kernel/fork.c\<close> and
  \<^verbatim>\<open>kernel/exit.c\<close>, which draw on all of these; users and groups are in \<^verbatim>\<open>kernel/sys.c\<close>.

  \<^bold>\<open>Conventions.\<close> \<^verbatim>\<open>int\<close> has 16 bits: machine integers are words of the width the compiler gives
  them, and arithmetic wraps. Static arrays are functions from indices, pointers into them are indices
  and \<open>None\<close> is NULL. A kernel function returns a value (\<open>Inr\<close>) or the reason why control does
  not come back (\<open>Inl\<close>): a panic with its message, a NULL dereference, an access out of bounds,
  a sleep nobody ends (\<open>Asleep\<close>), or an exhausted loop bound (\<open>Stuck\<close>). System calls return
  negative error numbers, as the code does.

  \<^bold>\<open>Theories.\<close>
  \<^item> \<open>Prelude\<close>, \<open>Links\<close>: results, words, linked lists threaded through arrays.
  \<^item> \<open>Segments\<close>, \<open>Malloc\<close>: the abstract tiling of memory by segments, and \<^verbatim>\<open>malloc.c\<close>, which refines
    it (locale \<open>segment_pool\<close>, interpreted on \<^verbatim>\<open>mm_alloc\<close>, \<^verbatim>\<open>mm_realloc\<close>, \<^verbatim>\<open>mm_free\<close>). Every map reached
    from \<^verbatim>\<open>mm_init\<close> tiles the memory; allocation is best fit, disjoint from all segments in use and
    undone by release; \<^verbatim>\<open>mm_dup\<close> copies, except 64 KB at once; \<^verbatim>\<open>mm_resize\<close> loses descriptors.
  \<^item> \<open>Ring\<close>, \<open>Chqueue\<close>, \<open>Pipe\<close>: ring buffers as bounded queues (locale \<open>bounded_fifo\<close>, interpreted on
    both); every run of calls on a character queue answers as the specification of a bounded queue
    does (locale \<open>machine_refines\<close>); the atomicity of small writes to pipes under every interleaving,
    completion of large ones.
  \<^item> \<open>Sched\<close>, \<open>Signal\<close>: the run queue, \<^verbatim>\<open>schedule\<close> up to the switch, timers, wait queues, semaphores,
    sending and delivering signals: which task is chosen and what the run queue is afterwards,
    fairness, who is woken, which tasks a signal can change, and the signals that are lost or never end.
  \<^item> \<open>Bitops\<close>, \<open>Minix\<close>, \<open>MinixTruncate\<close>, \<open>MinixInode\<close>, \<open>Filp\<close>, \<open>MinixFile\<close>: bit arrays (locale
    \<open>bitmap\<close>), zone allocation, mapping of block numbers, truncation, inodes on disk, reading and
    writing. The device is the current contents of its blocks, which is what the buffer cache shows
    (\<open>view\<close> in \<open>BufferCache\<close>).
  \<^item> \<open>Icache\<close>: the inode cache over a record of super operations (locale \<open>super_ops\<close>, interpreted on the
    Minix operations).
  \<^item> \<open>MinixDir\<close>, \<open>MinixEntries\<close>: directories, the operations on names; the search and addition of entries
    against a reference search on the sequence of entries.
  \<^item> \<open>Buffer\<close>, \<open>BufferCache\<close>, \<open>Ramdisk\<close>, \<open>BlockIO\<close>: the buffer cache with its two levels, the request
    queue with its elevator, the RAM disk; the locale \<open>block_driver\<close> is the contract of a driver with
    the cache, interpreted on \<^verbatim>\<open>do_rd_request\<close>. A block read is the block last written, a
    sync makes all blocks durable.
  \<^item> \<open>Files\<close>, \<open>FileIO\<close>: the file table and the descriptors of a process, on the joint state of tasks, inodes,
    files, pipes and memory (\<open>psys\<close>); the functions of \<^verbatim>\<open>struct file_operations\<close> are columns passed as
    arguments. What is written through a descriptor is read back through it.
  \<^item> \<open>Process\<close>, \<open>ForkExit\<close>: fork, exit, wait, users and groups. Every outcome of a fork, and that the
    exit of a child gives back what the fork took; privileges are never gained.
  \<^item> \<open>FileRefs\<close>: the count of an open file is the number of descriptors that lead to it, over any sequence
    of calls (rule induction over \<open>fd_step\<close>; locale \<open>release_law\<close> for the release functions of the
    drivers, interpreted also on the hang-up of \<^verbatim>\<open>tty_release\<close>).
  \<^item> \<open>Namei\<close>, \<open>NameiRefs\<close>: permissions, the walk along a path, symbolic links, \<^verbatim>\<open>open_namei\<close> and the system calls
    on names. References to inodes are counted as a multiset: every walk hands out one reference, to the
    inode it returns, and loses none (locale \<open>follow_ops\<close>, interpreted on the symbolic links of the
    Minix file system, by induction on their depth).
  \<^item> \<open>Open\<close>: the device switch and \<^verbatim>\<open>sys_open\<close> (locale \<open>drivers\<close>), which keeps the counts of files and inodes.
  \<^item> \<open>Stat\<close>: attributes of files, reading of directories, and which of the calls on names give back the inode they
    found.
  \<^item> \<open>Mount\<close>, \<open>MountTable\<close>: the table of super blocks, mounting and unmounting, refined to a map from devices to
    the directory they cover and their root.

  \<^bold>\<open>Bounds.\<close> Loops that follow links carry a bound of one more than the number of slots (38 holes, 96
  inodes, 64 buffers, 20 requests, 15 tasks), which the invariants show to be enough; loops over the
  blocks of a file are bounded by the block count computed from the size; symbolic links are followed six deep, as in the
  code, and the walk along a path ends because the path gets shorter; where the code itself
  can loop for ever (\<^verbatim>\<open>do_signal\<close>, \<^verbatim>\<open>minix_find_entry\<close>, \<^verbatim>\<open>get_free_buffer\<close>) a theorem says that no fuel
  is enough, or the hypotheses under which the loop ends are stated.

  \<^bold>\<open>Not modelled.\<close> Device registers, BIOS calls, interrupt entry and the context switch itself
  (assembly); terminals and consoles beyond their queues and the hang-up at the last close; \<^verbatim>\<open>vfork\<close> other than as
  \<^verbatim>\<open>fork\<close> (the build for ELKS executables); swapping; the network; program loading;
  select and ioctl; the ELKS and ROM file systems; the build tools. The text of a
  symbolic link is an argument of \<open>links\<close>, because the code reads it from the data segment of the process at the address
  of a kernel buffer. Interleaving is modelled where the code is written for it
  (pipes, character queues, semaphores); elsewhere a process that has to wait for another is a result
  of its own.
\<close>

end
